(* ===== verification/Prelude.thy ===== *)
theory Prelude
  imports Main "HOL-Library.Word"
begin

text \<open>
  Shared base of the development: the collections of facts the component theories feed and
  use, the two byte views (text is \<open>char list\<close>, binary data is \<open>8 word list\<close>), and the
  generic list and search lemmas that several components need.
\<close>

named_theorems frame "record fields that an operation leaves alone"
named_theorems bounds "bounds on the offsets and sizes an operation reports"

type_synonym byte = "8 word"
type_synonym u16 = "16 word"
type_synonym u32 = "32 word"
type_synonym u64 = "64 word"

text \<open>Carriage return and line feed, which have no printable literal.\<close>

abbreviation CR :: char where "CR \<equiv> CHR 0x0D"
abbreviation LF :: char where "LF \<equiv> CHR 0x0A"
abbreviation TAB :: char where "TAB \<equiv> CHR 0x09"

text \<open>The numeric value of a character as C's \<open>unsigned char\<close>.\<close>

definition code :: "char \<Rightarrow> nat" where
  "code c = of_char c"

lemma code_less [simp]: "code c < 256"
  by (simp add: code_def)

lemma code_inject [simp]: "code c = code d \<longleftrightarrow> c = d"
  by (simp add: code_def)

section \<open>Searching a list\<close>

lemma takeWhile_neq_append [simp]:
  "c \<notin> set ys \<Longrightarrow> takeWhile (\<lambda>x. x \<noteq> c) (ys @ c # zs) = ys"
  by (induction ys) auto

lemma dropWhile_neq_append [simp]:
  "c \<notin> set ys \<Longrightarrow> dropWhile (\<lambda>x. x \<noteq> c) (ys @ c # zs) = c # zs"
  by (induction ys) auto

text \<open>
  \<open>memchr\<close> of the C library: the index of the first element equal to the one searched,
  \<open>None\<close> for the null pointer.
\<close>

definition memchr :: "'a \<Rightarrow> 'a list \<Rightarrow> nat option" where
  "memchr c xs = (if c \<in> set xs then Some (length (takeWhile (\<lambda>x. x \<noteq> c) xs)) else None)"

lemma memchr_None [simp]: "memchr c xs = None \<longleftrightarrow> c \<notin> set xs"
  by (simp add: memchr_def)

lemma memchr_Some_iff:
  "memchr c xs = Some n \<longleftrightarrow> (\<exists>ys zs. xs = ys @ c # zs \<and> c \<notin> set ys \<and> n = length ys)"
proof
  assume "memchr c xs = Some n"
  then have c: "c \<in> set xs" and n: "n = length (takeWhile (\<lambda>x. x \<noteq> c) xs)"
    by (auto simp: memchr_def split: if_splits)
  obtain ys zs where xs: "xs = ys @ c # zs" "c \<notin> set ys"
    using split_list_first [OF c] by blast
  then have "n = length ys"
    by (simp add: n)
  with xs show "\<exists>ys zs. xs = ys @ c # zs \<and> c \<notin> set ys \<and> n = length ys"
    by (intro exI conjI)
next
  assume "\<exists>ys zs. xs = ys @ c # zs \<and> c \<notin> set ys \<and> n = length ys"
  then show "memchr c xs = Some n"
    by (auto simp: memchr_def)
qed

lemma memchr_append_Some [simp]: "c \<notin> set ys \<Longrightarrow> memchr c (ys @ c # zs) = Some (length ys)"
  by (simp add: memchr_def)

lemma memchr_bound [bounds]: "memchr c xs = Some n \<Longrightarrow> n < length xs"
  by (auto simp: memchr_Some_iff)

lemma spaces_split:
  "xs = replicate (length (takeWhile (\<lambda>x. x = a) xs)) a @ drop (length (takeWhile (\<lambda>x. x = a) xs)) xs"
  by (induction xs) auto

lemma take_Suc_snoc: "n < length xs \<Longrightarrow> take (Suc n) xs = take n xs @ [xs ! n]"
  by (simp add: take_Suc_conv_app_nth)

end
