(* ===== verification/Common.thy ===== *)
theory Common
  imports Prelude
begin

text \<open>
  \<open>Libraries/Common\<close>: the \<open>Span\<close> view that every library passes around. A span is modelled
  twice: as the pair of words the C++ object holds (\<open>span\<close>, where the bounds checks of
  \<open>sliceStart\<close> and \<open>sliceStartLength\<close> wrap like \<open>size_t\<close> does), and as the list of the
  elements it covers, which is what the parsers use. The refinement lemmas say when the two
  agree.
\<close>

section \<open>Spans as pointer and size\<close>

text \<open>\<open>items\<close> is the address as an element index into the buffer the span views.\<close>

record span =
  items :: u64
  sizeElements :: u64

definition null_span :: span where
  "null_span = \<lparr>items = 0, sizeElements = 0\<rparr>"

text \<open>Both operations return the value of \<open>valid\<close> and the new \<open>destination\<close>.\<close>

definition span_sliceStart :: "span \<Rightarrow> u64 \<Rightarrow> bool \<times> span" where
  "span_sliceStart s off =
     (let valid = (off \<le> sizeElements s)
      in (valid, if valid then \<lparr>items = items s + off, sizeElements = sizeElements s - off\<rparr>
                 else null_span))"

definition span_sliceStartLength :: "span \<Rightarrow> u64 \<Rightarrow> u64 \<Rightarrow> bool \<times> span" where
  "span_sliceStartLength s off len =
     (let valid = (off + len \<le> sizeElements s)
      in (valid, if valid then \<lparr>items = items s + off, sizeElements = len\<rparr> else null_span))"

section \<open>Spans as the elements they cover\<close>

definition sliceStart :: "nat \<Rightarrow> 'a list \<Rightarrow> 'a list option" where
  "sliceStart off xs = (if off \<le> length xs then Some (drop off xs) else None)"

definition sliceStartLength :: "nat \<Rightarrow> nat \<Rightarrow> 'a list \<Rightarrow> 'a list option" where
  "sliceStartLength off len xs =
     (if off + len \<le> length xs then Some (take len (drop off xs)) else None)"

lemma sliceStart_Some [simp]: "off \<le> length xs \<Longrightarrow> sliceStart off xs = Some (drop off xs)"
  by (simp add: sliceStart_def)

lemma sliceStartLength_Some [simp]:
  "off + len \<le> length xs \<Longrightarrow> sliceStartLength off len xs = Some (take len (drop off xs))"
  by (simp add: sliceStartLength_def)

text \<open>The elements of buffer \<open>mem\<close> that a span covers.\<close>

definition span_elems :: "'a list \<Rightarrow> span \<Rightarrow> 'a list" where
  "span_elems mem s = take (unat (sizeElements s)) (drop (unat (items s)) mem)"

definition span_within :: "'a list \<Rightarrow> span \<Rightarrow> bool" where
  "span_within mem s \<longleftrightarrow> unat (items s) + unat (sizeElements s) \<le> length mem \<and> length mem < 2 ^ 64"

lemma length_span_elems: "span_within mem s \<Longrightarrow> length (span_elems mem s) = unat (sizeElements s)"
  by (auto simp: span_elems_def span_within_def min_def)

lemma unat_add_small: "unat a + unat b < 2 ^ 64 \<Longrightarrow> unat (a + b) = unat a + unat b" for a b :: u64
  by (simp add: unat_word_ariths)

lemma sliceStart_cases:
  assumes "span_sliceStart s off = (True, d)"
  shows "off \<le> sizeElements s" "items d = items s + off" "sizeElements d = sizeElements s - off"
  using assms by (auto simp: span_sliceStart_def Let_def split: if_splits)

text \<open>
  Slicing from an offset on the words a span holds is slicing of the elements it covers:
  it is valid exactly when the element view has the offset, and the new span stays inside the
  buffer and covers exactly the dropped list.
\<close>

theorem span_sliceStart_refines:
  assumes "span_within mem s"
  shows "case sliceStart (unat off) (span_elems mem s) of
           None \<Rightarrow> span_sliceStart s off = (False, null_span)
         | Some ys \<Rightarrow> (\<exists>d. span_sliceStart s off = (True, d) \<and> span_within mem d \<and> span_elems mem d = ys)"
proof (cases "off \<le> sizeElements s")
  case True
  let ?d = "\<lparr>items = items s + off, sizeElements = sizeElements s - off\<rparr>"
  have le: "unat off \<le> unat (sizeElements s)"
    using True by (simp add: word_le_nat_alt)
  have i: "unat (items s + off) = unat (items s) + unat off"
    using assms le by (intro unat_add_small) (auto simp: span_within_def)
  have n: "unat (sizeElements s - off) = unat (sizeElements s) - unat off"
    using True by (rule unat_sub)
  have w: "span_within mem ?d"
    using assms le by (simp add: span_within_def i n)
  have e: "span_elems mem ?d = drop (unat off) (span_elems mem s)"
    by (simp only: span_elems_def span.simps i n) (simp add: drop_take add.commute)
  have slice: "sliceStart (unat off) (span_elems mem s) = Some (drop (unat off) (span_elems mem s))"
    using assms le by (simp add: length_span_elems)
  show ?thesis
    using True w e by (simp add: slice span_sliceStart_def Let_def)
next
  case False
  then have "\<not> unat off \<le> unat (sizeElements s)"
    by (simp add: word_le_nat_alt)
  then have "sliceStart (unat off) (span_elems mem s) = None"
    using assms by (simp add: sliceStart_def length_span_elems)
  then show ?thesis
    using False by (simp add: span_sliceStart_def Let_def)
qed

theorem span_sliceStart_refines_witness:
  "\<exists>d. span_sliceStart \<lparr>items = 1, sizeElements = 3\<rparr> 2 = (True, d) \<and> span_elems ''abcd'' d = ''d''"
proof -
  have "span_within ''abcd'' \<lparr>items = 1, sizeElements = 3\<rparr>"
    by (simp add: span_within_def)
  moreover have "sliceStart (unat (2 :: u64)) (span_elems ''abcd'' \<lparr>items = 1, sizeElements = 3\<rparr>) = Some ''d''"
    by (simp add: span_elems_def sliceStart_def)
  ultimately show ?thesis
    using span_sliceStart_refines [of "''abcd''" "\<lparr>items = 1, sizeElements = 3\<rparr>" 2] by auto
qed

text \<open>
  Slicing a length from an offset, on the words a span holds. When offset and length do not
  wrap around the 64 bits of \<open>size_t\<close> the operation is the slicing of the elements. When they
  wrap, the check \<open>offset + length <= size\<close> compares the wrapped sum and accepts a length for
  which the resulting span leaves the buffer.
\<close>

theorem span_sliceStartLength_refines:
  assumes "span_within mem s"
  shows "(unat off + unat len < 2 ^ 64 \<longrightarrow>
       (case sliceStartLength (unat off) (unat len) (span_elems mem s) of
          None \<Rightarrow> span_sliceStartLength s off len = (False, null_span)
        | Some ys \<Rightarrow> (\<exists>d. span_sliceStartLength s off len = (True, d) \<and> span_within mem d \<and> span_elems mem d = ys))) \<and>
     (2 ^ 64 \<le> unat off + unat len \<and> unat off \<le> unat (sizeElements s) \<longrightarrow>
        (\<exists>d. span_sliceStartLength s off len = (True, d) \<and> \<not> span_within mem d))"
proof (intro conjI impI)
  assume nowrap: "unat off + unat len < 2 ^ 64"
  have sum: "unat (off + len) = unat off + unat len"
    using nowrap by (rule unat_add_small)
  show "case sliceStartLength (unat off) (unat len) (span_elems mem s) of
      None \<Rightarrow> span_sliceStartLength s off len = (False, null_span)
    | Some ys \<Rightarrow> (\<exists>d. span_sliceStartLength s off len = (True, d) \<and> span_within mem d \<and> span_elems mem d = ys)"
  proof (cases "unat off + unat len \<le> unat (sizeElements s)")
    case True
    let ?d = "\<lparr>items = items s + off, sizeElements = len\<rparr>"
    have i: "unat (items s + off) = unat (items s) + unat off"
      using assms True by (intro unat_add_small) (auto simp: span_within_def)
    have "span_within mem ?d"
      using assms True by (simp add: span_within_def i)
    moreover have "span_elems mem ?d = take (unat len) (drop (unat off) (span_elems mem s))"
      using True by (simp only: span_elems_def span.simps i) (simp add: drop_take min_def add.commute le_diff_conv)
    moreover have "sliceStartLength (unat off) (unat len) (span_elems mem s) =
        Some (take (unat len) (drop (unat off) (span_elems mem s)))"
      using True assms by (simp add: length_span_elems)
    ultimately show ?thesis
      using True by (simp add: span_sliceStartLength_def word_le_nat_alt sum)
  next
    case False
    then have "sliceStartLength (unat off) (unat len) (span_elems mem s) = None"
      using assms by (simp add: sliceStartLength_def length_span_elems)
    then show ?thesis
      using False by (simp add: span_sliceStartLength_def word_le_nat_alt sum)
  qed
next
  assume wrap: "2 ^ 64 \<le> unat off + unat len \<and> unat off \<le> unat (sizeElements s)"
  have "unat off + unat len < 2 * 2 ^ 64"
    using unsigned_less [of off, where 'a = nat] unsigned_less [of len, where 'a = nat] by simp
  with wrap have sum: "unat (off + len) = unat off + unat len - 2 ^ 64"
    by (simp add: unat_word_ariths mod_if)
  have "unat len < 2 ^ 64" "unat (sizeElements s) < 2 ^ 64"
    using unsigned_less [of len, where 'a = nat] unsigned_less [of "sizeElements s", where 'a = nat] by simp_all
  with sum wrap have "unat (off + len) \<le> unat (sizeElements s)"
    by linarith
  then have ok: "off + len \<le> sizeElements s"
    by (simp add: word_le_nat_alt)
  have "unat (items s + off) = unat (items s) + unat off"
    using assms wrap by (intro unat_add_small) (auto simp: span_within_def)
  then have "\<not> span_within mem \<lparr>items = items s + off, sizeElements = len\<rparr>"
    using wrap by (auto simp: span_within_def)
  then show "\<exists>d. span_sliceStartLength s off len = (True, d) \<and> \<not> span_within mem d"
    using ok by (simp add: span_sliceStartLength_def)
qed

theorem span_sliceStartLength_refines_witness:
  "(\<exists>d. span_sliceStartLength \<lparr>items = 1, sizeElements = 3\<rparr> 1 2 = (True, d) \<and> span_elems ''abcd'' d = ''cd'') \<and>
   (\<exists>d. span_sliceStartLength \<lparr>items = 1, sizeElements = 3\<rparr> 2 (- 1) = (True, d) \<and> \<not> span_within ''abcd'' d)"
proof -
  have w: "span_within ''abcd'' \<lparr>items = 1, sizeElements = 3\<rparr>"
    by (simp add: span_within_def)
  have "sliceStartLength (unat (1 :: u64)) (unat (2 :: u64)) (span_elems ''abcd'' \<lparr>items = 1, sizeElements = 3\<rparr>) =
      Some ''cd''" "unat (1 :: u64) + unat (2 :: u64) < 2 ^ 64"
      "2 ^ 64 \<le> unat (2 :: u64) + unat (- 1 :: u64) \<and> unat (2 :: u64) \<le> unat (sizeElements \<lparr>items = 1, sizeElements = 3\<rparr>)"
    by (simp_all add: span_elems_def sliceStartLength_def unsigned_minus_1_eq_mask mask_eq_exp_minus_1)
  then show ?thesis
    using span_sliceStartLength_refines [OF w, of 1 2] span_sliceStartLength_refines [OF w, of 2 "- 1"] by auto
qed

end
