(* ===== verification/HttpParser.thy ===== *)
theory HttpParser
  imports Common
begin

text \<open>
  \<open>Libraries/Http/HttpParser.h\<close> and \<open>HttpParser.cpp\<close>: the incremental parser of HTTP/1.1
  request and response heads. The source writes it with switch-based coroutines: a parser
  function resumes at the line its last \<open>SC_CO_RETURN\<close> stored (\<open>SC_LINE\<close> is \<open>__LINE__\<close>), \<open>0\<close>
  is the start and \<open>-1\<close> the end. The model keeps these integers, so \<open>nestedCo p = 413\<close> is the
  state in which the code resumes after line 413 of \<open>HttpParser.cpp\<close>.

  A parser function returns the parser it leaves behind and the boolean of the source.
  Offsets and lengths are \<open>nat\<close>: \<open>step_contract\<close> below shows that no decrement underflows. The
  numbers parsed from the input are words, because they do wrap.
\<close>

section \<open>Data\<close>

datatype Method = HttpGET | HttpPUT | HttpPOST | HttpHEAD | HttpPATCH | HttpDELETE | HttpOPTIONS

datatype State = StParsing | StResult | StFinished

datatype Token = TkMethod | TkUrl | TkVersion | TkHeaderName | TkHeaderValue | TkHeadersEnd
  | TkStatusCode | TkStatusString | TkBody

datatype Type = Request | Response

datatype HeaderType = ContentLength | Connection | ContentType

record parser =
  req_method :: Method
  tokenStart :: nat
  tokenLength :: nat
  statusCode :: u32
  contentLength :: u64
  connectionKeepAlive :: bool
  token :: Token
  state :: State
  ptype :: Type
  globalStart :: nat
  globalLength :: nat
  topCo :: int
  nestedCo :: int
  parsedContentLength :: bool
  parsedConnection :: bool
  matchIndex :: nat
  matchingHeader :: "nat list"
  matchingHeaderValid :: "bool list"
  number :: u64

text \<open>A freshly constructed parser, with the default member initialisers of the header.\<close>

definition init_parser :: "Type \<Rightarrow> parser" where
  "init_parser ty = \<lparr>req_method = HttpGET, tokenStart = 0, tokenLength = 0, statusCode = 0,
     contentLength = 0, connectionKeepAlive = True, token = TkHeadersEnd, state = StParsing,
     ptype = ty, globalStart = 0, globalLength = 0, topCo = 0, nestedCo = 0,
     parsedContentLength = False, parsedConnection = False, matchIndex = 0,
     matchingHeader = [0, 0, 0], matchingHeaderValid = [False, False, False], number = 0\<rparr>"

definition SC_HTTP_TRACKED_HEADERS :: "string list" where
  "SC_HTTP_TRACKED_HEADERS = [''Content-Length'', ''Connection'', ''Content-Type'']"

definition scHttpToLowerAscii :: "char \<Rightarrow> char" where
  "scHttpToLowerAscii v =
     (if code CHR ''A'' \<le> code v \<and> code v \<le> code CHR ''Z'' then char_of (code v + 32) else v)"

fun scHttpEqualsIgnoreCaseAscii :: "char list \<Rightarrow> char list \<Rightarrow> nat \<Rightarrow> bool" where
  "scHttpEqualsIgnoreCaseAscii lhs rhs 0 = True"
| "scHttpEqualsIgnoreCaseAscii lhs rhs (Suc n) =
     (scHttpToLowerAscii (hd lhs) = scHttpToLowerAscii (hd rhs) \<and>
      scHttpEqualsIgnoreCaseAscii (tl lhs) (tl rhs) n)"

fun header_index :: "HeaderType \<Rightarrow> nat" where
  "header_index ContentLength = 0"
| "header_index Connection = 1"
| "header_index ContentType = 2"

definition numMatches :: nat where
  "numMatches = header_index ContentType + 1"

definition matchesHeader :: "parser \<Rightarrow> HeaderType \<Rightarrow> bool" where
  "matchesHeader p h =
     (if header_index h \<ge> numMatches then False else matchingHeaderValid p ! header_index h)"

section \<open>The nested parsers\<close>

text \<open>
  \<open>yield p l\<close> is \<open>SC_CO_RETURN(nestedParserCoroutine, true)\<close> at line \<open>l\<close>; \<open>expect p b l\<close> is
  \<open>SC_TRY(b)\<close> followed by it; \<open>reject\<close> is \<open>return false\<close>; \<open>finish\<close> sets \<open>State::Result\<close> and
  runs \<open>SC_CO_FINISH\<close>.
\<close>

type_synonym outcome = "parser \<times> bool"

definition yield :: "parser \<Rightarrow> int \<Rightarrow> outcome" where
  "yield p l = (p\<lparr>nestedCo := l\<rparr>, True)"

definition reject :: "parser \<Rightarrow> outcome" where
  "reject p = (p, False)"

definition expect :: "parser \<Rightarrow> bool \<Rightarrow> int \<Rightarrow> outcome" where
  "expect p b l = (if b then yield p l else reject p)"

definition finish :: "parser \<Rightarrow> outcome" where
  "finish p = (p\<lparr>state := StResult, nestedCo := -1\<rparr>, True)"

text \<open>\<open>tokenLength--\<close>, and the same with \<open>tokenStart++\<close>, as for a skipped leading space.\<close>

definition dropLast :: "parser \<Rightarrow> parser" where
  "dropLast p = p\<lparr>tokenLength := tokenLength p - 1\<rparr>"

definition dropFirst :: "parser \<Rightarrow> parser" where
  "dropFirst p = p\<lparr>tokenLength := tokenLength p - 1, tokenStart := tokenStart p + 1\<rparr>"

definition either :: "char \<Rightarrow> char \<Rightarrow> char \<Rightarrow> bool" where
  "either c u l \<longleftrightarrow> c = u \<or> c = l"

definition methodEnd :: "parser \<Rightarrow> char \<Rightarrow> Method \<Rightarrow> outcome" where
  "methodEnd p c m =
     (if c = CHR '' '' then finish ((dropLast p)\<lparr>req_method := m\<rparr>) else reject p)"

definition parseMethod :: "parser \<Rightarrow> char \<Rightarrow> outcome" where
  "parseMethod p c = (let co = nestedCo p in
     if co = 0 then
       (if either c CHR ''G'' CHR ''g'' then yield p 413
        else if either c CHR ''H'' CHR ''h'' then yield p 424
        else if either c CHR ''P'' CHR ''p'' then yield p 437
        else if either c CHR ''D'' CHR ''d'' then yield p 478
        else if either c CHR ''O'' CHR ''o'' then yield p 495
        else reject p)
     else if co = 413 then expect p (either c CHR ''E'' CHR ''e'') 415
     else if co = 415 then expect p (either c CHR ''T'' CHR ''t'') 417
     else if co = 417 then methodEnd p c HttpGET
     else if co = 424 then expect p (either c CHR ''E'' CHR ''e'') 426
     else if co = 426 then expect p (either c CHR ''A'' CHR ''a'') 428
     else if co = 428 then expect p (either c CHR ''D'' CHR ''d'') 430
     else if co = 430 then methodEnd p c HttpHEAD
     else if co = 437 then
       (if either c CHR ''A'' CHR ''a'' then yield p 440
        else if either c CHR ''U'' CHR ''u'' then yield p 453
        else if either c CHR ''O'' CHR ''o'' then yield p 462
        else reject p)
     else if co = 440 then expect p (either c CHR ''T'' CHR ''t'') 442
     else if co = 442 then expect p (either c CHR ''C'' CHR ''c'') 444
     else if co = 444 then expect p (either c CHR ''H'' CHR ''h'') 446
     else if co = 446 then methodEnd p c HttpPATCH
     else if co = 453 then expect p (either c CHR ''T'' CHR ''t'') 455
     else if co = 455 then methodEnd p c HttpPUT
     else if co = 462 then expect p (either c CHR ''S'' CHR ''s'') 464
     else if co = 464 then expect p (either c CHR ''T'' CHR ''t'') 466
     else if co = 466 then methodEnd p c HttpPOST
     else if co = 478 then expect p (either c CHR ''E'' CHR ''e'') 480
     else if co = 480 then expect p (either c CHR ''L'' CHR ''l'') 482
     else if co = 482 then expect p (either c CHR ''E'' CHR ''e'') 484
     else if co = 484 then expect p (either c CHR ''T'' CHR ''t'') 486
     else if co = 486 then expect p (either c CHR ''E'' CHR ''e'') 488
     else if co = 488 then methodEnd p c HttpDELETE
     else if co = 495 then expect p (either c CHR ''P'' CHR ''p'') 497
     else if co = 497 then expect p (either c CHR ''T'' CHR ''t'') 499
     else if co = 499 then expect p (either c CHR ''I'' CHR ''i'') 501
     else if co = 501 then expect p (either c CHR ''O'' CHR ''o'') 503
     else if co = 503 then expect p (either c CHR ''N'' CHR ''n'') 505
     else if co = 505 then expect p (either c CHR ''S'' CHR ''s'') 507
     else if co = 507 then methodEnd p c HttpOPTIONS
     else (p, True))"

definition parseUrl :: "parser \<Rightarrow> char \<Rightarrow> outcome" where
  "parseUrl p c = (let co = nestedCo p in
     if co = 0 \<and> c = CHR ''*'' then finish p
     else if co = 0 \<or> co = 531 then
       (if c \<noteq> CHR '' '' then yield p 531 else finish (dropLast p))
     else (p, True))"

definition parseVersion :: "bool \<Rightarrow> parser \<Rightarrow> char \<Rightarrow> outcome" where
  "parseVersion spaces p c = (let co = nestedCo p in
     if co = 0 then expect p (either c CHR ''H'' CHR ''h'') 544
     else if co = 544 then expect p (either c CHR ''T'' CHR ''t'') 546
     else if co = 546 then expect p (either c CHR ''T'' CHR ''t'') 548
     else if co = 548 then expect p (either c CHR ''P'' CHR ''p'') 550
     else if co = 550 then expect p (either c CHR ''/'' CHR ''/'') 552
     else if co = 552 then expect p (either c CHR ''1'' CHR ''1'') 554
     else if co = 554 then expect p (either c CHR ''.'' CHR ''.'') 556
     else if co = 556 then expect p (either c CHR ''1'' CHR ''1'') 558
     else if co = 558 then
       (if spaces then (if c = CHR '' '' then finish (dropLast p) else reject p)
        else if c = CR then yield (dropLast p) 568 else reject p)
     else if co = 568 then (if c = LF then finish (dropLast p) else reject p)
     else (p, True))"

text \<open>
  One turn of the matching loop for one tracked header: what is left to match of it, and
  whether it has been matched.
\<close>

definition trackChar :: "nat \<Rightarrow> char \<Rightarrow> string \<Rightarrow> nat \<times> bool \<Rightarrow> nat \<times> bool" where
  "trackChar i c tracked = (\<lambda>(left, valid).
     if left = 0 then (left, valid)
     else if scHttpToLowerAscii (tracked ! i) = scHttpToLowerAscii c
          then (left - 1, if left - 1 = 0 then True else valid)
          else (0, valid))"

definition trackAll :: "parser \<Rightarrow> char \<Rightarrow> (nat \<times> bool) list" where
  "trackAll p c = map2 (trackChar (matchIndex p) c) SC_HTTP_TRACKED_HEADERS
     (zip (matchingHeader p) (matchingHeaderValid p))"

definition headerNameLoop :: "parser \<Rightarrow> char \<Rightarrow> outcome" where
  "headerNameLoop p c =
     (if c \<noteq> CHR '':'' then
        yield (p\<lparr>matchingHeader := map fst (trackAll p c), matchingHeaderValid := map snd (trackAll p c),
                 matchIndex := matchIndex p + 1\<rparr>) 607
      else finish (dropLast p))"

definition parseHeaderName :: "parser \<Rightarrow> char \<Rightarrow> outcome" where
  "parseHeaderName p c = (let co = nestedCo p in
     if co = 0 then
       headerNameLoop (p\<lparr>matchIndex := 0, matchingHeader := map length SC_HTTP_TRACKED_HEADERS,
                         matchingHeaderValid := map (\<lambda>_. False) SC_HTTP_TRACKED_HEADERS\<rparr>) c
     else if co = 607 then headerNameLoop p c
     else (p, True))"

definition headerValueLoop :: "parser \<Rightarrow> char \<Rightarrow> outcome" where
  "headerValueLoop p c = (if c = CR then yield (dropLast p) 629 else yield p 638)"

definition parseHeaderValue :: "parser \<Rightarrow> char \<Rightarrow> outcome" where
  "parseHeaderValue p c = (let co = nestedCo p in
     if co = 0 \<or> co = 622 then
       (if c = CHR '' '' then yield (dropFirst p) 622 else headerValueLoop p c)
     else if co = 629 then (if c \<noteq> LF then reject p else finish (dropLast p))
     else if co = 638 then headerValueLoop p c
     else (p, True))"

definition isDigit :: "char \<Rightarrow> bool" where
  "isDigit c \<longleftrightarrow> code CHR ''0'' \<le> code c \<and> code c \<le> code CHR ''9''"

definition digitValue :: "char \<Rightarrow> nat" where
  "digitValue c = code c - code CHR ''0''"

text \<open>\<open>number = number * 10 + (currentChar - '0')\<close>, which wraps at 64 bits.\<close>

definition pushDigit :: "parser \<Rightarrow> char \<Rightarrow> int \<Rightarrow> outcome" where
  "pushDigit p c l =
     (if matchIndex p \<ge> 20 then reject p
      else yield (p\<lparr>number := number p * 10 + of_nat (digitValue c), matchIndex := matchIndex p + 1\<rparr>) l)"

definition statusCodeLoop :: "parser \<Rightarrow> char \<Rightarrow> outcome" where
  "statusCodeLoop p c =
     (if isDigit c then pushDigit p c 662
      else if c = CHR '' '' then finish (dropLast p) else reject p)"

definition parseStatusCode :: "parser \<Rightarrow> char \<Rightarrow> outcome" where
  "parseStatusCode p c =
     (let co = nestedCo p; p1 = (if co = 0 then p\<lparr>number := 0\<rparr> else p) in
     if co = 0 \<or> co = 652 then
       (if c = CHR '' '' then yield (dropFirst p1) 652 else statusCodeLoop p1 c)
     else if co = 662 then statusCodeLoop p c
     else (p, True))"

definition numberValueLoop :: "parser \<Rightarrow> char \<Rightarrow> outcome" where
  "numberValueLoop p c =
     (if isDigit c then pushDigit p c 697
      else if c = CR then yield (dropLast p) 702 else reject p)"

definition parseNumberValue :: "parser \<Rightarrow> char \<Rightarrow> outcome" where
  "parseNumberValue p c = (let co = nestedCo p in
     if co = 0 \<or> co = 686 then
       (if c = CHR '' '' then yield (dropFirst p) 686 else numberValueLoop (p\<lparr>number := 0\<rparr>) c)
     else if co = 697 then numberValueLoop p c
     else if co = 702 then (if c = LF then finish (dropLast p) else reject p)
     else (p, True))"

definition connectionValueLoop :: "parser \<Rightarrow> char \<Rightarrow> outcome" where
  "connectionValueLoop p c =
     (if c = CR then yield (dropLast p) 744
      else if matchIndex p < 5 then
        (if scHttpToLowerAscii c = ''close'' ! matchIndex p
         then yield (p\<lparr>matchIndex := matchIndex p + 1\<rparr>) 776
         else yield (p\<lparr>matchIndex := 6\<rparr>) 776)
      else yield p 776)"

definition parseConnectionValue :: "parser \<Rightarrow> char \<Rightarrow> outcome" where
  "parseConnectionValue p c = (let co = nestedCo p in
     if co = 0 \<or> co = 735 then
       (if c = CHR '' '' then yield (dropFirst p) 735
        else connectionValueLoop (p\<lparr>matchIndex := 0\<rparr>) c)
     else if co = 744 then
       (if c \<noteq> LF then reject p
        else finish ((dropLast p)\<lparr>connectionKeepAlive :=
               (if matchIndex p = 5 then False else connectionKeepAlive p)\<rparr>))
     else if co = 776 then connectionValueLoop p c
     else (p, True))"

definition parseHeadersEnd :: "parser \<Rightarrow> char \<Rightarrow> outcome" where
  "parseHeadersEnd p c = (let co = nestedCo p in
     if co = 0 then (if c \<noteq> CR then reject p else yield (dropLast p) 790)
     else if co = 790 then (if c \<noteq> LF then reject p else finish (dropLast p))
     else (p, True))"

text \<open>The template argument \<open>Func\<close> of \<open>process\<close>, which it also compares by address.\<close>

datatype func = FMethod | FUrl | FVersion bool | FHeaderName | FHeaderValue | FStatusCode
  | FNumberValue | FConnectionValue | FHeadersEnd

fun call :: "func \<Rightarrow> parser \<Rightarrow> char \<Rightarrow> outcome" where
  "call FMethod = parseMethod"
| "call FUrl = parseUrl"
| "call (FVersion spaces) = parseVersion spaces"
| "call FHeaderName = parseHeaderName"
| "call FHeaderValue = parseHeaderValue"
| "call FStatusCode = parseStatusCode"
| "call FNumberValue = parseNumberValue"
| "call FConnectionValue = parseConnectionValue"
| "call FHeadersEnd = parseHeadersEnd"

section \<open>process: one token out of one chunk\<close>

text \<open>
  The slow path: feed the characters one by one until the parser function rejects one, reports
  a result, or the chunk ends. The \<open>nat\<close> counts \<open>readBytes\<close>; a rejected character is not
  counted.
\<close>

fun runFunc :: "(parser \<Rightarrow> char \<Rightarrow> outcome) \<Rightarrow> parser \<Rightarrow> nat \<Rightarrow> char list \<Rightarrow> parser \<times> nat \<times> bool" where
  "runFunc f p n [] = (p, n, True)"
| "runFunc f p n (c # cs) =
     (case f (p\<lparr>tokenLength := tokenLength p + 1\<rparr>) c of (p', good) \<Rightarrow>
        if \<not> good then (p', n, False)
        else if state p' = StResult then (p', n + 1, True)
        else runFunc f p' (n + 1) cs)"

text \<open>The fast paths, taken when the whole token is in the chunk: the parser and \<open>readBytes\<close>.\<close>

definition trackedEquals :: "string \<Rightarrow> char list \<Rightarrow> nat \<Rightarrow> bool" where
  "trackedEquals tracked bytes headerLen \<longleftrightarrow>
     length tracked = headerLen \<and> scHttpEqualsIgnoreCaseAscii tracked bytes headerLen"

definition fastHeaderName :: "parser \<Rightarrow> char list \<Rightarrow> (parser \<times> nat) option" where
  "fastHeaderName p bytes =
     (case memchr (CHR '':'') bytes of None \<Rightarrow> None
      | Some headerLen \<Rightarrow>
          Some (p\<lparr>matchingHeaderValid := map (\<lambda>t. trackedEquals t bytes headerLen) SC_HTTP_TRACKED_HEADERS,
                  tokenLength := headerLen, state := StResult\<rparr>, headerLen + 1))"

definition fastHeaderValue :: "parser \<Rightarrow> char list \<Rightarrow> (parser \<times> nat) option" where
  "fastHeaderValue p bytes =
     (let startIndex = length (takeWhile (\<lambda>c. c = CHR '' '') bytes) in
      case (if startIndex < length bytes then memchr CR (drop startIndex bytes) else None) of
        None \<Rightarrow> None
      | Some k \<Rightarrow>
          (let crIndex = startIndex + k in
           if crIndex + 1 < length bytes \<and> bytes ! (crIndex + 1) = LF then
             Some (p\<lparr>tokenStart := tokenStart p + startIndex, tokenLength := crIndex - startIndex,
                     state := StResult\<rparr>, crIndex + 2)
           else None))"

definition fastPath :: "func \<Rightarrow> parser \<Rightarrow> char list \<Rightarrow> (parser \<times> nat) option" where
  "fastPath func p data =
     (if nestedCo p = 0 \<and> tokenLength p = 0 \<and> length data > 0 then
        (case func of FHeaderName \<Rightarrow> fastHeaderName p data
         | FHeaderValue \<Rightarrow> fastHeaderValue p data
         | _ \<Rightarrow> None)
      else None)"

text \<open>
  The end of \<open>process\<close>, shared by both paths: report \<open>readBytes\<close> and the slice \<open>parsedData\<close>.
  \<open>None\<close> is \<open>Result(false)\<close>.
\<close>

definition deliver :: "parser \<Rightarrow> char list \<Rightarrow> parser \<Rightarrow> nat \<Rightarrow> parser \<times> (nat \<times> char list) option" where
  "deliver p0 data p n =
     (let p' = p\<lparr>globalLength := globalLength p + n\<rparr>;
          startDelta = tokenStart p' - tokenStart p0;
          lengthDelta = tokenLength p' - tokenLength p0 in
      case sliceStartLength startDelta lengthDelta data of
        None \<Rightarrow> (p', None)
      | Some parsedData \<Rightarrow>
          if state p' = StResult then
            (case sliceStart n data of None \<Rightarrow> (p', None)
             | Some _ \<Rightarrow> (p'\<lparr>nestedCo := 0\<rparr>, Some (n, parsedData)))
          else (p', Some (n, parsedData)))"

definition processSlow :: "func \<Rightarrow> Token \<Rightarrow> parser \<Rightarrow> char list \<Rightarrow> parser \<times> (nat \<times> char list) option" where
  "processSlow func t p data =
     (case runFunc (call func) (p\<lparr>token := t, state := StParsing\<rparr>) 0 data of (p', n, good) \<Rightarrow>
        if good then deliver p data p' n else (p', None))"

definition process :: "func \<Rightarrow> Token \<Rightarrow> parser \<Rightarrow> char list \<Rightarrow> parser \<times> (nat \<times> char list) option" where
  "process func t p data =
     (case fastPath func (p\<lparr>token := t, state := StParsing\<rparr>) data of
        Some (p', n) \<Rightarrow> deliver p data p' n
      | None \<Rightarrow> processSlow func t p data)"

section \<open>parse: the top level coroutine\<close>

text \<open>
  \<open>parse\<close> always returns right after a call of \<open>process\<close>, so one call of \<open>parse\<close> runs one
  phase. A phase is named by the line of its \<open>SC_CO_RETURN\<close>, the value \<open>topCo\<close> holds when the
  next call resumes. \<open>phaseFunc\<close> lists the template arguments of the phase's \<open>process\<close>.
\<close>

definition phaseFunc :: "int \<Rightarrow> func \<times> Token" where
  "phaseFunc l =
     (if l = 108 then (FMethod, TkMethod)
      else if l = 121 then (FUrl, TkUrl)
      else if l = 134 then (FVersion False, TkVersion)
      else if l = 147 then (FVersion True, TkVersion)
      else if l = 159 then (FStatusCode, TkStatusCode)
      else if l = 172 then (FHeaderValue, TkStatusString)
      else if l = 193 then (FHeadersEnd, TkHeadersEnd)
      else if l = 249 then (FHeaderName, TkHeaderName)
      else if l = 266 then (FNumberValue, TkHeaderValue)
      else if l = 282 then (FConnectionValue, TkHeaderValue)
      else (FHeaderValue, TkHeaderValue))"

text \<open>What a phase stores between a successful \<open>process\<close> and its return.\<close>

definition phaseStore :: "int \<Rightarrow> parser \<Rightarrow> parser" where
  "phaseStore l p =
     (if l = 159 then p\<lparr>statusCode := ucast (number p)\<rparr>
      else if l = 266 then p\<lparr>contentLength := number p\<rparr>
      else p)"

definition runPhase :: "int \<Rightarrow> parser \<Rightarrow> char list \<Rightarrow> parser \<times> (nat \<times> char list) option" where
  "runPhase l p data =
     (case phaseFunc l of (f, t) \<Rightarrow>
        (case process f t p data of
           (p', None) \<Rightarrow> (p', None)
         | (p', Some r) \<Rightarrow> ((phaseStore l p')\<lparr>topCo := l\<rparr>, Some r)))"

text \<open>
  The block before each phase. Only the phase of the method leaves \<open>matchIndex\<close> alone.
\<close>

definition beginToken :: "parser \<Rightarrow> parser" where
  "beginToken p = p\<lparr>globalStart := globalStart p + globalLength p,
     tokenStart := globalStart p + globalLength p, tokenLength := 0, globalLength := 0\<rparr>"

definition enterPhase :: "int \<Rightarrow> parser \<Rightarrow> char list \<Rightarrow> parser \<times> (nat \<times> char list) option" where
  "enterPhase l p data =
     runPhase l (if l = 108 then beginToken p else (beginToken p)\<lparr>matchIndex := 0\<rparr>) data"

text \<open>The body of a response: no parser function, only a count up to \<open>contentLength\<close>.\<close>

definition bodyLoop :: "parser \<Rightarrow> char list \<Rightarrow> parser \<times> (nat \<times> char list) option" where
  "bodyLoop p data =
     (let oldLength = tokenLength p;
          total = oldLength + length data;
          newLength = (if total > unat (contentLength p) then unat (contentLength p) else total);
          p' = p\<lparr>tokenLength := newLength\<rparr>;
          n = newLength - oldLength in
      case sliceStartLength 0 n data of
        None \<Rightarrow> (p', None)
      | Some parsedData \<Rightarrow>
          if newLength = unat (contentLength p)
          then (p'\<lparr>state := StResult, topCo := -1\<rparr>, Some (n, parsedData))
          else (p'\<lparr>topCo := 230\<rparr>, Some (n, parsedData)))"

definition enterBody :: "parser \<Rightarrow> char list \<Rightarrow> parser \<times> (nat \<times> char list) option" where
  "enterBody p data =
     bodyLoop ((beginToken p)\<lparr>matchIndex := 0, state := StParsing, token := TkBody\<rparr>) data"

definition headersLoop :: "parser \<Rightarrow> char list \<Rightarrow> parser \<times> (nat \<times> char list) option" where
  "headersLoop p data = (if hd data = CR then enterPhase 193 p data else enterPhase 249 p data)"

definition headerDispatch :: "parser \<Rightarrow> char list \<Rightarrow> parser \<times> (nat \<times> char list) option" where
  "headerDispatch p data =
     (if matchesHeader p ContentLength \<and> \<not> parsedContentLength p
      then enterPhase 266 (p\<lparr>parsedContentLength := True\<rparr>) data
      else if matchesHeader p Connection \<and> \<not> parsedConnection p
      then enterPhase 282 (p\<lparr>parsedConnection := True\<rparr>) data
      else enterPhase 298 p data)"

text \<open>
  What follows a phase that reported its result. Past the last phase the coroutine is finished
  and the call returns without reading (\<open>readBytes\<close> is 0, \<open>parsedData\<close> is not written).
\<close>

definition afterPhase :: "parser \<Rightarrow> char list \<Rightarrow> parser \<times> (nat \<times> char list) option" where
  "afterPhase p data = (let co = topCo p in
     if co = 0 then (if ptype p = Request then enterPhase 108 p data else enterPhase 147 p data)
     else if co = 108 then enterPhase 121 p data
     else if co = 121 then enterPhase 134 p data
     else if co = 134 then headersLoop p data
     else if co = 147 then enterPhase 159 p data
     else if co = 159 then enterPhase 172 p data
     else if co = 172 then headersLoop p data
     else if co = 193 then
       (if ptype p = Request then (p\<lparr>topCo := -1\<rparr>, Some (0, [])) else enterBody p data)
     else if co = 249 then headerDispatch p data
     else if co = 266 \<or> co = 282 \<or> co = 298 then headersLoop p data
     else (p, Some (0, [])))"

definition resume :: "parser \<Rightarrow> char list \<Rightarrow> parser \<times> (nat \<times> char list) option" where
  "resume p data =
     (if topCo p = 230 then bodyLoop p data
      else if topCo p \<in> {108, 121, 134, 147, 159, 172, 193, 249, 266, 282, 298} \<and> state p = StParsing
      then runPhase (topCo p) p data
      else afterPhase p data)"

definition parse :: "parser \<Rightarrow> char list \<Rightarrow> parser \<times> (nat \<times> char list) option" where
  "parse p data =
     (if state p = StFinished then (p, None)
      else if state p = StResult \<and> token p = (if ptype p = Request then TkHeadersEnd else TkBody)
      then (p\<lparr>state := StFinished\<rparr>, Some (0, []))
      else if data = [] then (p, None)
      else resume p data)"

end
