(* ===== verification/HttpParserTokens.thy ===== *)
theory HttpParserTokens
  imports HttpParser
begin

text \<open>
  Lemmas about one token of \<open>HttpParser\<close>: the contract every parser function keeps with
  \<open>process\<close> (the locale \<open>token_parser\<close>, interpreted on all nine functions), what the
  character loop does with a split chunk, and the comparison of fast and slow path.
\<close>

section \<open>The contract between process and its parser function\<close>

text \<open>
  \<open>process\<close> has counted the current character in \<open>tokenLength\<close> before it calls the function.
  The function may take it back (a delimiter), or move it out of the token's front (a leading
  space); it never touches the bookkeeping of the levels above.
\<close>

locale token_parser =
  fixes step :: "parser \<Rightarrow> char \<Rightarrow> outcome"
  assumes start: "step p c = (p', b) \<Longrightarrow> 0 < tokenLength p \<Longrightarrow> tokenStart p \<le> tokenStart p'"
    and len: "step p c = (p', b) \<Longrightarrow> 0 < tokenLength p \<Longrightarrow> tokenLength p \<le> tokenLength p' + 1"
    and window: "step p c = (p', b) \<Longrightarrow> 0 < tokenLength p \<Longrightarrow>
      tokenStart p' + tokenLength p' \<le> tokenStart p + tokenLength p"
    and state: "step p c = (p', b) \<Longrightarrow> state p' = state p \<or> state p' = StResult"
    and keeps: "step p c = (p', b) \<Longrightarrow> globalStart p' = globalStart p \<and> globalLength p' = globalLength p \<and>
      topCo p' = topCo p \<and> ptype p' = ptype p \<and> token p' = token p \<and> contentLength p' = contentLength p \<and>
      parsedContentLength p' = parsedContentLength p \<and> parsedConnection p' = parsedConnection p"
begin

lemma run_count:
  "runFunc step p n cs = (p', m, b) \<Longrightarrow> n \<le> m \<and> m \<le> n + length cs"
proof (induction cs arbitrary: p n)
  case (Cons c cs)
  then show ?case
    by (fastforce split: prod.splits if_splits)
qed simp

lemma run_window:
  "runFunc step p n cs = (p', m, b) \<Longrightarrow> tokenStart p \<le> tokenStart p' \<and> tokenLength p \<le> tokenLength p' \<and>
     (b \<longrightarrow> tokenStart p' + tokenLength p' \<le> tokenStart p + tokenLength p + (m - n))"
proof (induction cs arbitrary: p n)
  case (Cons c cs)
  let ?p = "p\<lparr>tokenLength := tokenLength p + 1\<rparr>"
  obtain q good where q: "step ?p c = (q, good)"
    by fastforce
  have s: "tokenStart p \<le> tokenStart q" "tokenLength p \<le> tokenLength q"
      "tokenStart q + tokenLength q \<le> tokenStart p + tokenLength p + 1"
    using start [OF q] len [OF q] window [OF q] by simp_all
  show ?case
  proof (cases "good \<and> state q \<noteq> StResult")
    case True
    then have run: "runFunc step q (Suc n) cs = (p', m, b)"
      using Cons.prems q by simp
    have "Suc n \<le> m"
      using run_count [OF run] by simp
    with Cons.IH [OF run] s show ?thesis
      by force
  next
    case False
    then have "q = p'" "m = (if good then n + 1 else n)" "b = good"
      using Cons.prems q by (auto split: if_splits)
    with s show ?thesis
      by auto
  qed
qed simp

lemma run_keeps:
  "runFunc step p n cs = (p', m, b) \<Longrightarrow> globalStart p' = globalStart p \<and> globalLength p' = globalLength p \<and>
     topCo p' = topCo p \<and> ptype p' = ptype p \<and> token p' = token p \<and> contentLength p' = contentLength p \<and>
     parsedContentLength p' = parsedContentLength p \<and> parsedConnection p' = parsedConnection p"
proof (induction cs arbitrary: p n)
  case (Cons c cs)
  let ?p = "p\<lparr>tokenLength := tokenLength p + 1\<rparr>"
  obtain q good where q: "step ?p c = (q, good)"
    by fastforce
  then show ?case
    using Cons.prems Cons.IH [of q "n + 1"] keeps [OF q] by (auto split: if_splits)
qed simp

lemma run_state:
  "runFunc step p n cs = (p', m, b) \<Longrightarrow> state p = StParsing \<Longrightarrow> state p' = StParsing \<or> state p' = StResult"
proof (induction cs arbitrary: p n)
  case (Cons c cs)
  let ?p = "p\<lparr>tokenLength := tokenLength p + 1\<rparr>"
  obtain q good where q: "step ?p c = (q, good)"
    by fastforce
  then show ?case
    using Cons.prems Cons.IH [of q "n + 1"] state [OF q] by (auto split: if_splits)
qed simp

text \<open>A token that is not complete has consumed the whole chunk.\<close>

lemma run_exhausts:
  "runFunc step p n cs = (p', m, True) \<Longrightarrow> state p' \<noteq> StResult \<Longrightarrow> m = n + length cs"
proof (induction cs arbitrary: p n)
  case (Cons c cs)
  then show ?case
    by (fastforce split: prod.splits if_splits)
qed simp

text \<open>
  After a successful run the two slices that \<open>process\<close> takes are in range, so it does not
  fail, and the text it delivers lies in the consumed prefix of the chunk.
\<close>

lemma deliver_ok:
  assumes run: "runFunc step p 0 data = (p', n, True)"
    and p: "tokenStart p = tokenStart p0" "tokenLength p = tokenLength p0"
  shows "\<exists>q off len. deliver p0 data p' n = (q, Some (n, take len (drop off data))) \<and>
    off + len \<le> n \<and> off = tokenStart p' - tokenStart p0 \<and> len = tokenLength p' - tokenLength p0 \<and>
    q = p'\<lparr>globalLength := globalLength p' + n, nestedCo := (if state p' = StResult then 0 else nestedCo p')\<rparr>"
proof -
  have n: "n \<le> length data"
    using run_count [OF run] by simp
  have "tokenStart p' - tokenStart p0 + (tokenLength p' - tokenLength p0) \<le> n"
    using run_window [OF run] p by auto
  with n show ?thesis
    by (auto simp: deliver_def Let_def)
qed

end

section \<open>Every parser function keeps the contract\<close>

definition contract :: "parser \<Rightarrow> outcome \<Rightarrow> bool" where
  "contract p r \<longleftrightarrow> (0 < tokenLength p \<longrightarrow> tokenStart p \<le> tokenStart (fst r) \<and>
      tokenLength p \<le> tokenLength (fst r) + 1 \<and>
      tokenStart (fst r) + tokenLength (fst r) \<le> tokenStart p + tokenLength p) \<and>
     (state (fst r) = state p \<or> state (fst r) = StResult) \<and>
     globalStart (fst r) = globalStart p \<and> globalLength (fst r) = globalLength p \<and>
     topCo (fst r) = topCo p \<and> ptype (fst r) = ptype p \<and> token (fst r) = token p \<and>
     contentLength (fst r) = contentLength p \<and>
     parsedContentLength (fst r) = parsedContentLength p \<and> parsedConnection (fst r) = parsedConnection p"

lemma contract_if [simp]:
  "contract p (if b then x else y) \<longleftrightarrow> (b \<longrightarrow> contract p x) \<and> (\<not> b \<longrightarrow> contract p y)"
  by simp

lemma contract_basic [simp]:
  "contract p (p, b)" "contract p (yield p l)" "contract p (reject p)" "contract p (finish p)"
  "contract p (expect p b l)" "contract p (yield (dropLast p) l)" "contract p (finish (dropLast p))"
  "contract p (yield (dropFirst p) l)" "contract p (methodEnd p c m)"
  by (auto simp: contract_def yield_def reject_def finish_def expect_def dropLast_def dropFirst_def methodEnd_def)

lemma contract_scratch [simp]:
  "contract (p\<lparr>number := x\<rparr>) r \<longleftrightarrow> contract p r" "contract (p\<lparr>matchIndex := i\<rparr>) r \<longleftrightarrow> contract p r"
  "contract (p\<lparr>matchIndex := i, matchingHeader := h, matchingHeaderValid := v\<rparr>) r \<longleftrightarrow> contract p r"
  "contract p (yield (p\<lparr>matchIndex := i\<rparr>) l)"
  "contract p (yield (p\<lparr>number := x, matchIndex := i\<rparr>) l)"
  "contract p (yield (p\<lparr>matchingHeader := h, matchingHeaderValid := v, matchIndex := i\<rparr>) l)"
  "contract p (finish ((dropLast p)\<lparr>connectionKeepAlive := k\<rparr>))"
  "contract p (yield (dropFirst (p\<lparr>number := x\<rparr>)) l)"
  by (auto simp: contract_def yield_def finish_def dropLast_def dropFirst_def)

lemma contract_scratch_loop:
  "contract (p\<lparr>number := x\<rparr>) (f (p\<lparr>number := x\<rparr>)) \<Longrightarrow> contract p (f (p\<lparr>number := x\<rparr>))"
  "contract (p\<lparr>matchIndex := i\<rparr>) (g (p\<lparr>matchIndex := i\<rparr>)) \<Longrightarrow> contract p (g (p\<lparr>matchIndex := i\<rparr>))"
  "contract (p\<lparr>matchIndex := i, matchingHeader := h, matchingHeaderValid := v\<rparr>)
     (k (p\<lparr>matchIndex := i, matchingHeader := h, matchingHeaderValid := v\<rparr>)) \<Longrightarrow>
   contract p (k (p\<lparr>matchIndex := i, matchingHeader := h, matchingHeaderValid := v\<rparr>))"
  by simp_all

lemma contract_pushDigit [simp]: "contract p (pushDigit p c l)"
  by (simp add: pushDigit_def)

lemma contract_parseMethod: "contract p (parseMethod p c)"
  by (simp add: parseMethod_def Let_def)

lemma contract_parseUrl: "contract p (parseUrl p c)"
  by (simp add: parseUrl_def Let_def)

lemma contract_parseVersion: "contract p (parseVersion spaces p c)"
  by (simp add: parseVersion_def Let_def)

lemma contract_headerNameLoop [simp]: "contract p (headerNameLoop p c)"
  by (simp add: headerNameLoop_def)

lemma contract_parseHeaderName: "contract p (parseHeaderName p c)"
  by (simp add: parseHeaderName_def Let_def contract_scratch_loop(3) [where k = "\<lambda>q. headerNameLoop q c"])

lemma contract_headerValueLoop [simp]: "contract p (headerValueLoop p c)"
  by (simp add: headerValueLoop_def)

lemma contract_parseHeaderValue: "contract p (parseHeaderValue p c)"
  by (simp add: parseHeaderValue_def Let_def)

lemma contract_statusCodeLoop [simp]: "contract p (statusCodeLoop p c)"
  by (simp add: statusCodeLoop_def)

lemma contract_parseStatusCode: "contract p (parseStatusCode p c)"
  using contract_scratch_loop(1) [where p = p and x = 0 and f = "\<lambda>q. statusCodeLoop q c"]
  by (simp add: parseStatusCode_def Let_def)

lemma contract_numberValueLoop [simp]: "contract p (numberValueLoop p c)"
  by (simp add: numberValueLoop_def)

lemma contract_parseNumberValue: "contract p (parseNumberValue p c)"
  using contract_scratch_loop(1) [where p = p and x = 0 and f = "\<lambda>q. numberValueLoop q c"]
  by (simp add: parseNumberValue_def Let_def)

lemma contract_connectionValueLoop [simp]: "contract p (connectionValueLoop p c)"
  by (simp add: connectionValueLoop_def)

lemma contract_parseConnectionValue: "contract p (parseConnectionValue p c)"
  using contract_scratch_loop(2) [where p = p and i = 0 and g = "\<lambda>q. connectionValueLoop q c"]
  by (simp add: parseConnectionValue_def Let_def)

lemma contract_parseHeadersEnd: "contract p (parseHeadersEnd p c)"
  by (simp add: parseHeadersEnd_def Let_def)

lemmas contracts = contract_parseMethod contract_parseUrl contract_parseVersion contract_parseHeaderName
  contract_parseHeaderValue contract_parseStatusCode contract_parseNumberValue
  contract_parseConnectionValue contract_parseHeadersEnd

lemma contract_call: "contract p (call f p c)"
  by (cases f) (simp_all add: contracts)

interpretation fn: token_parser "call f" for f
proof
  fix p c p' b
  assume "call f p c = (p', b)"
  then have *: "contract p (p', b)"
    using contract_call [of p f c] by simp
  show "0 < tokenLength p \<Longrightarrow> tokenStart p \<le> tokenStart p'"
    and "0 < tokenLength p \<Longrightarrow> tokenLength p \<le> tokenLength p' + 1"
    and "0 < tokenLength p \<Longrightarrow> tokenStart p' + tokenLength p' \<le> tokenStart p + tokenLength p"
    and "state p' = state p \<or> state p' = StResult"
    and "globalStart p' = globalStart p \<and> globalLength p' = globalLength p \<and>
      topCo p' = topCo p \<and> ptype p' = ptype p \<and> token p' = token p \<and> contentLength p' = contentLength p \<and>
      parsedContentLength p' = parsedContentLength p \<and> parsedConnection p' = parsedConnection p"
    using * by (auto simp: contract_def)
qed

section \<open>Splitting a chunk\<close>

lemma runFunc_shift:
  "runFunc f p (n + k) cs = (case runFunc f p n cs of (p', m, b) \<Rightarrow> (p', m + k, b))"
proof (induction cs arbitrary: p n)
  case (Cons c cs)
  show ?case
    using Cons.IH [of _ "Suc n"] by (auto split: prod.splits)
qed simp

lemma runFunc_append:
  assumes "state p \<noteq> StResult"
  shows "runFunc f p n (xs @ ys) = (case runFunc f p n xs of (q, m, good) \<Rightarrow>
           if good \<and> state q \<noteq> StResult then runFunc f q m ys else (q, m, good))"
  using assms
proof (induction xs arbitrary: p n)
  case (Cons c xs)
  obtain q good where "f (p\<lparr>tokenLength := tokenLength p + 1\<rparr>) c = (q, good)"
    by fastforce
  then show ?case
    using Cons.IH [of q "Suc n"] by auto
qed simp

text \<open>
  A run that consumed its chunk without finishing the token can be continued: the parser it
  leaves is the one a run over the joined chunks passes through.
\<close>

lemma runFunc_split:
  assumes "state p \<noteq> StResult" and "runFunc f p 0 xs = (q, m, True)" and "state q \<noteq> StResult"
  shows "runFunc f p 0 (xs @ ys) = (case runFunc f q 0 ys of (r, k, good) \<Rightarrow> (r, k + m, good))"
  using assms runFunc_append [of p f 0 xs ys] runFunc_shift [of f q 0 m ys] by simp

section \<open>Header values\<close>

lemmas value_steps = parseHeaderValue_def headerValueLoop_def yield_def reject_def finish_def
  dropLast_def dropFirst_def

lemma run_headerValue_tail:
  assumes "CR \<notin> set v" and "nestedCo p = 638" and "state p \<noteq> StResult"
  shows "runFunc parseHeaderValue p n (v @ CR # LF # rest) =
    (p\<lparr>tokenLength := tokenLength p + length v, state := StResult, nestedCo := -1\<rparr>, n + length v + 2, True)"
  using assms
proof (induction v arbitrary: p n)
  case Nil
  then show ?case by (simp add: value_steps)
next
  case (Cons c v)
  let ?p = "p\<lparr>tokenLength := tokenLength p + 1, nestedCo := 638\<rparr>"
  have "runFunc parseHeaderValue p n ((c # v) @ CR # LF # rest) =
      runFunc parseHeaderValue ?p (Suc n) (v @ CR # LF # rest)"
    using Cons.prems by (auto simp: value_steps)
  then show ?case
    using Cons.IH [of ?p "Suc n"] Cons.prems by simp
qed

lemma run_headerValue_text:
  assumes "CR \<notin> set v" and "v = [] \<or> hd v \<noteq> CHR '' ''" and "nestedCo p = 0 \<or> nestedCo p = 622"
    and "state p \<noteq> StResult"
  shows "runFunc parseHeaderValue p n (v @ CR # LF # rest) =
    (p\<lparr>tokenLength := tokenLength p + length v, state := StResult, nestedCo := -1\<rparr>, n + length v + 2, True)"
proof (cases v)
  case Nil
  then show ?thesis
    using assms by (auto simp: value_steps)
next
  case (Cons c cs)
  let ?p = "p\<lparr>tokenLength := tokenLength p + 1, nestedCo := 638\<rparr>"
  have "runFunc parseHeaderValue p n (v @ CR # LF # rest) =
      runFunc parseHeaderValue ?p (Suc n) (cs @ CR # LF # rest)"
    using assms Cons by (auto simp: value_steps)
  then show ?thesis
    using run_headerValue_tail [of cs ?p "Suc n" rest] assms Cons by simp
qed

lemma run_headerValue:
  assumes "CR \<notin> set v" and "v = [] \<or> hd v \<noteq> CHR '' ''" and "nestedCo p = 0 \<or> nestedCo p = 622"
    and "state p \<noteq> StResult" and "tokenLength p = 0"
  shows "runFunc parseHeaderValue p n (replicate k (CHR '' '') @ v @ CR # LF # rest) =
    (p\<lparr>tokenStart := tokenStart p + k, tokenLength := length v, state := StResult, nestedCo := -1\<rparr>,
     n + k + length v + 2, True)"
  using assms
proof (induction k arbitrary: p n)
  case 0
  then show ?case
    using run_headerValue_text [of v p n rest] by simp
next
  case (Suc k)
  let ?p = "p\<lparr>tokenLength := 0, tokenStart := tokenStart p + 1, nestedCo := 622\<rparr>"
  have "runFunc parseHeaderValue p n (replicate (Suc k) (CHR '' '') @ v @ CR # LF # rest) =
      runFunc parseHeaderValue ?p (Suc n) (replicate k (CHR '' '') @ v @ CR # LF # rest)"
    using Suc.prems by (auto simp: value_steps)
  then show ?case
    using Suc.IH [of ?p "Suc n"] Suc.prems by simp
qed

lemma headerValue_paths_agree: "process FHeaderValue t p data = processSlow FHeaderValue t p data"
proof (cases "fastPath FHeaderValue (p\<lparr>token := t, state := StParsing\<rparr>) data")
  case None
  then show ?thesis by (simp add: process_def)
next
  case (Some r)
  let ?p = "p\<lparr>token := t, state := StParsing\<rparr>"
  let ?s = "length (takeWhile (\<lambda>c. c = CHR '' '') data)"
  from Some have start: "nestedCo p = 0" "tokenLength p = 0" and fast: "fastHeaderValue ?p data = Some r"
    by (auto simp: fastPath_def split: if_splits)
  from fast obtain k where k: "memchr CR (drop ?s data) = Some k" and lf: "?s + k + 1 < length data"
      "data ! (?s + k + 1) = LF"
    and r: "r = (?p\<lparr>tokenStart := tokenStart p + ?s, tokenLength := k, state := StResult\<rparr>, ?s + k + 2)"
    by (auto simp: fastHeaderValue_def Let_def split: option.splits if_splits)
  obtain v zs where v: "drop ?s data = v @ CR # zs" "CR \<notin> set v" "k = length v"
    using k by (auto simp: memchr_Some_iff)
  have spaces: "data = replicate ?s (CHR '' '') @ drop ?s data"
    by (rule spaces_split)
  have hd: "v = [] \<or> hd v \<noteq> CHR '' ''"
    using v(1) hd_dropWhile [of "\<lambda>c. c = CHR '' ''" data] by (cases v) (auto simp: dropWhile_eq_drop)
  have "drop ?s data ! (k + 1) = LF" "k + 1 < length (drop ?s data)"
    using lf by simp_all
  then obtain rest where rest: "zs = LF # rest"
    using v by (cases zs) (auto simp: nth_append)
  have data: "data = replicate ?s (CHR '' '') @ v @ CR # LF # rest"
    using spaces v(1) rest by simp
  have slow: "runFunc parseHeaderValue ?p 0 data =
     (?p\<lparr>tokenStart := tokenStart p + ?s, tokenLength := k, state := StResult, nestedCo := -1\<rparr>, ?s + k + 2, True)"
    using run_headerValue [of v ?p 0 ?s rest] v hd start data by simp
  have inside: "?s + k + 2 \<le> length data"
    using lf by simp
  have "processSlow FHeaderValue t p data = deliver p data (fst r) (snd r)"
    using slow start inside by (simp add: processSlow_def deliver_def r)
  moreover have "process FHeaderValue t p data = deliver p data (fst r) (snd r)"
    using Some by (simp add: process_def r)
  ultimately show ?thesis by simp
qed

text \<open>
  For a header value the fast path of \<open>process\<close> is only an optimisation. On every chunk and
  in every parser state it reports the same text and the same number of read bytes as the
  character loop, and leaves the same parser behind.
\<close>

theorem headerValue_fast_is_slow: "process FHeaderValue t p data = processSlow FHeaderValue t p data"
  by (rule headerValue_paths_agree)

section \<open>Header names\<close>

text \<open>
  What the character loop knows of a tracked header \<open>t\<close> after the characters \<open>seen\<close>: the count
  of characters still to match and whether it has matched.
\<close>

definition ciPrefix :: "string \<Rightarrow> char list \<Rightarrow> bool" where
  "ciPrefix t s \<longleftrightarrow> length t \<le> length s \<and>
     map scHttpToLowerAscii t = map scHttpToLowerAscii (take (length t) s)"

definition trackState :: "string \<Rightarrow> char list \<Rightarrow> nat \<times> bool" where
  "trackState t seen =
     (if ciPrefix t seen then (0, True)
      else if length seen < length t \<and>
        map scHttpToLowerAscii seen = map scHttpToLowerAscii (take (length seen) t)
      then (length t - length seen, False)
      else (0, False))"

lemma trackState_snd: "snd (trackState t seen) = ciPrefix t seen"
  by (simp add: trackState_def)

lemma ciPrefix_snoc:
  "ciPrefix t (seen @ [c]) \<longleftrightarrow> ciPrefix t seen \<or>
     (length t = length seen + 1 \<and> map scHttpToLowerAscii t = map scHttpToLowerAscii (seen @ [c]))"
  by (cases "length t \<le> length seen") (auto simp: ciPrefix_def not_le dest: antisym)

lemma trackChar_step:
  "trackChar (length seen) c t (trackState t seen) = trackState t (seen @ [c])"
proof (cases "ciPrefix t seen")
  case True
  then show ?thesis
    by (simp add: trackChar_def trackState_def ciPrefix_snoc)
next
  case False
  show ?thesis
  proof (cases "length seen < length t \<and>
      map scHttpToLowerAscii seen = map scHttpToLowerAscii (take (length seen) t)")
    case True
    then have take: "take (Suc (length seen)) t = take (length seen) t @ [t ! length seen]"
      by (simp add: take_Suc_snoc)
    have last: "map scHttpToLowerAscii t =
        map scHttpToLowerAscii (take (length seen) t) @ [scHttpToLowerAscii (t ! length seen)]"
      if "length t = Suc (length seen)"
      using that arg_cong [OF take, of "map scHttpToLowerAscii"] by simp
    show ?thesis
    proof (cases "length t = Suc (length seen)")
      case full: True
      then show ?thesis
        using True False last by (simp add: trackChar_def trackState_def ciPrefix_snoc)
    next
      case more: False
      then show ?thesis
        using True False by (auto simp: trackChar_def trackState_def ciPrefix_snoc take)
    qed
  next
    case partial: False
    have "\<not> (length t = length seen + 1 \<and> map scHttpToLowerAscii t = map scHttpToLowerAscii (seen @ [c]))"
      using partial by (auto simp: take_map [symmetric])
    moreover have "\<not> (length (seen @ [c]) < length t \<and>
        map scHttpToLowerAscii (seen @ [c]) = map scHttpToLowerAscii (take (length (seen @ [c])) t))"
      using partial by (auto simp: take_Suc_snoc)
    ultimately show ?thesis
      using False partial by (simp add: trackChar_def trackState_def ciPrefix_snoc)
  qed
qed

text \<open>The parser's tracking fields hold the knowledge of \<open>seen\<close> for all tracked headers.\<close>

definition tracking :: "char list \<Rightarrow> parser \<Rightarrow> bool" where
  "tracking seen p \<longleftrightarrow> matchIndex p = length seen \<and>
     matchingHeader p = map (\<lambda>t. fst (trackState t seen)) SC_HTTP_TRACKED_HEADERS \<and>
     matchingHeaderValid p = map (\<lambda>t. snd (trackState t seen)) SC_HTTP_TRACKED_HEADERS"

definition trackFields :: "char list \<Rightarrow> parser \<Rightarrow> parser" where
  "trackFields seen p = p\<lparr>matchIndex := length seen,
     matchingHeader := map (\<lambda>t. fst (trackState t seen)) SC_HTTP_TRACKED_HEADERS,
     matchingHeaderValid := map (\<lambda>t. snd (trackState t seen)) SC_HTTP_TRACKED_HEADERS\<rparr>"

lemma trackAll_step:
  assumes "tracking seen p"
  shows "trackAll p c = map (\<lambda>t. trackState t (seen @ [c])) SC_HTTP_TRACKED_HEADERS"
  using assms
  by (simp add: tracking_def trackAll_def SC_HTTP_TRACKED_HEADERS_def trackChar_step)

lemma run_headerName_tail:
  assumes "CHR '':'' \<notin> set name" and "nestedCo p = 607" and "tracking seen p" and "state p \<noteq> StResult"
  shows "runFunc parseHeaderName p n (name @ CHR '':'' # rest) =
    ((trackFields (seen @ name) p)\<lparr>tokenLength := tokenLength p + length name, state := StResult, nestedCo := -1\<rparr>,
     n + length name + 1, True)"
  using assms
proof (induction name arbitrary: p n seen)
  case Nil
  then show ?case
    by (simp add: parseHeaderName_def headerNameLoop_def finish_def dropLast_def trackFields_def tracking_def)
next
  case (Cons c name)
  let ?p = "(trackFields (seen @ [c]) p)\<lparr>tokenLength := tokenLength p + 1, nestedCo := 607\<rparr>"
  have t: "tracking seen (p\<lparr>tokenLength := Suc (tokenLength p)\<rparr>)"
    using Cons.prems by (simp add: tracking_def)
  have "runFunc parseHeaderName p n ((c # name) @ CHR '':'' # rest) =
      runFunc parseHeaderName ?p (Suc n) (name @ CHR '':'' # rest)"
    using Cons.prems t trackAll_step [OF t, of c]
    by (cases p) (auto simp: parseHeaderName_def headerNameLoop_def yield_def trackFields_def
        tracking_def comp_def)
  moreover have "tracking (seen @ [c]) ?p"
    by (simp add: tracking_def trackFields_def)
  ultimately show ?case
    using Cons.IH [of ?p "seen @ [c]" "Suc n"] Cons.prems by (simp add: trackFields_def)
qed

lemma trackState_Nil: "t \<in> set SC_HTTP_TRACKED_HEADERS \<Longrightarrow> trackState t [] = (length t, False)"
  by (auto simp: SC_HTTP_TRACKED_HEADERS_def trackState_def ciPrefix_def)

lemma parseHeaderName_start:
  "nestedCo p = 0 \<Longrightarrow> parseHeaderName p c = parseHeaderName ((trackFields [] p)\<lparr>nestedCo := 607\<rparr>) c"
  by (simp add: parseHeaderName_def headerNameLoop_def yield_def finish_def dropLast_def trackFields_def
      trackState_Nil trackAll_def cong: map_cong)

lemma run_headerName:
  assumes "CHR '':'' \<notin> set name" and "nestedCo p = 0" and "state p \<noteq> StResult"
  shows "runFunc parseHeaderName p n (name @ CHR '':'' # rest) =
    ((trackFields name p)\<lparr>tokenLength := tokenLength p + length name, state := StResult, nestedCo := -1\<rparr>,
     n + length name + 1, True)"
proof -
  let ?p = "(trackFields [] p)\<lparr>nestedCo := 607\<rparr>"
  have "tracking [] ?p"
    by (simp add: tracking_def trackFields_def)
  then have "runFunc parseHeaderName ?p n (name @ CHR '':'' # rest) =
    ((trackFields name ?p)\<lparr>tokenLength := tokenLength p + length name, state := StResult, nestedCo := -1\<rparr>,
     n + length name + 1, True)"
    using run_headerName_tail [of name ?p "[]" n rest] assms by (simp add: trackFields_def)
  moreover have "runFunc parseHeaderName p n (name @ CHR '':'' # rest) =
      runFunc parseHeaderName ?p n (name @ CHR '':'' # rest)"
  proof -
    have "(trackFields [] (p\<lparr>tokenLength := Suc (tokenLength p)\<rparr>))\<lparr>nestedCo := 607\<rparr> =
        ?p\<lparr>tokenLength := Suc (tokenLength ?p)\<rparr>"
      by (cases p) (simp add: trackFields_def)
    then have "parseHeaderName (p\<lparr>tokenLength := Suc (tokenLength p)\<rparr>) c =
        parseHeaderName (?p\<lparr>tokenLength := Suc (tokenLength ?p)\<rparr>) c" for c
      using assms parseHeaderName_start [of "p\<lparr>tokenLength := Suc (tokenLength p)\<rparr>" c] by simp
    then show ?thesis
      by (cases name) simp_all
  qed
  ultimately show ?thesis
    by (simp add: trackFields_def)
qed

lemma equalsIgnoreCase_map:
  "length lhs = n \<Longrightarrow> n \<le> length rhs \<Longrightarrow> scHttpEqualsIgnoreCaseAscii lhs rhs n \<longleftrightarrow>
     map scHttpToLowerAscii lhs = map scHttpToLowerAscii (take n rhs)"
proof (induction n arbitrary: lhs rhs)
  case (Suc n)
  then obtain a as b bs where "lhs = a # as" "rhs = b # bs"
    by (metis Suc_le_length_iff length_Suc_conv)
  then show ?case
    using Suc by simp
qed simp

lemma trackedEquals_iff:
  "trackedEquals t (name @ rest) (length name) \<longleftrightarrow>
     length t = length name \<and> map scHttpToLowerAscii t = map scHttpToLowerAscii name"
  by (auto simp: trackedEquals_def equalsIgnoreCase_map)

text \<open>
  What the two paths of \<open>process\<close> decide about a complete header name. Both deliver the same
  text, the name without its colon, and read the same bytes. The fast path recognises a tracked
  header by equality, ignoring case; the character loop recognises it as soon as it is a
  prefix of the name, ignoring case, and never withdraws that.
\<close>

theorem headerName_recognition:
  assumes "CHR '':'' \<notin> set name" and "nestedCo p = 0" and "tokenLength p = 0"
  shows "\<exists>pf ps. process FHeaderName t p (name @ CHR '':'' # rest) = (pf, Some (length name + 1, name)) \<and>
      processSlow FHeaderName t p (name @ CHR '':'' # rest) = (ps, Some (length name + 1, name)) \<and>
      (\<forall>h. matchesHeader pf h \<longleftrightarrow> map scHttpToLowerAscii name =
             map scHttpToLowerAscii (SC_HTTP_TRACKED_HEADERS ! header_index h)) \<and>
      (\<forall>h. matchesHeader ps h \<longleftrightarrow> ciPrefix (SC_HTTP_TRACKED_HEADERS ! header_index h) name)"
proof -
  let ?data = "name @ CHR '':'' # rest"
  let ?p = "p\<lparr>token := t, state := StParsing\<rparr>"
  let ?fast = "?p\<lparr>matchingHeaderValid := map (\<lambda>u. trackedEquals u ?data (length name)) SC_HTTP_TRACKED_HEADERS,
      tokenLength := length name, state := StResult\<rparr>"
  let ?slow = "(trackFields name ?p)\<lparr>tokenLength := length name, state := StResult, nestedCo := -1\<rparr>"
  have fast: "process FHeaderName t p ?data = deliver p ?data ?fast (length name + 1)"
    using assms by (simp add: process_def fastPath_def fastHeaderName_def)
  have slow: "processSlow FHeaderName t p ?data = deliver p ?data ?slow (length name + 1)"
    using run_headerName [of name ?p 0 rest] assms by (simp add: processSlow_def)
  have valid: "matchesHeader (q\<lparr>globalLength := g, nestedCo := 0\<rparr>) h \<longleftrightarrow>
      matchingHeaderValid q ! header_index h" for q g h
    by (cases h) (simp_all add: matchesHeader_def numMatches_def)
  have index: "header_index h < length SC_HTTP_TRACKED_HEADERS" for h
    by (cases h) (simp_all add: SC_HTTP_TRACKED_HEADERS_def)
  have "deliver p ?data q (length name + 1) =
      (q\<lparr>globalLength := globalLength q + (length name + 1), nestedCo := 0\<rparr>, Some (length name + 1, name))"
    if "tokenStart q = tokenStart p" "tokenLength q = length name" "state q = StResult" for q
    using that assms by (simp add: deliver_def)
  then show ?thesis
    using assms index
    by (auto simp: fast slow valid trackFields_def trackState_snd trackedEquals_iff [of _ name "CHR '':'' # rest"]
        dest: map_eq_imp_length_eq)
qed

theorem headerName_recognition_witness:
  "\<exists>pf ps. process FHeaderName TkHeaderName (init_parser Request) (''Content-LengthX'' @ CHR '':'' # []) =
        (pf, Some (16, ''Content-LengthX'')) \<and>
      processSlow FHeaderName TkHeaderName (init_parser Request) (''Content-LengthX'' @ CHR '':'' # []) =
        (ps, Some (16, ''Content-LengthX'')) \<and>
      \<not> matchesHeader pf ContentLength \<and> matchesHeader ps ContentLength"
proof -
  have "CHR '':'' \<notin> set ''Content-LengthX''" "nestedCo (init_parser Request) = 0" "tokenLength (init_parser Request) = 0"
    by (simp_all add: init_parser_def)
  from headerName_recognition [OF this, of TkHeaderName "[]"] obtain pf ps where
    proc: "process FHeaderName TkHeaderName (init_parser Request) (''Content-LengthX'' @ CHR '':'' # []) =
        (pf, Some (length ''Content-LengthX'' + 1, ''Content-LengthX''))"
      "processSlow FHeaderName TkHeaderName (init_parser Request) (''Content-LengthX'' @ CHR '':'' # []) =
        (ps, Some (length ''Content-LengthX'' + 1, ''Content-LengthX''))" and
    fast: "\<forall>h. matchesHeader pf h \<longleftrightarrow> map scHttpToLowerAscii ''Content-LengthX'' =
             map scHttpToLowerAscii (SC_HTTP_TRACKED_HEADERS ! header_index h)" and
    slow: "\<forall>h. matchesHeader ps h \<longleftrightarrow> ciPrefix (SC_HTTP_TRACKED_HEADERS ! header_index h) ''Content-LengthX''"
    by blast
  have "map scHttpToLowerAscii ''Content-LengthX'' \<noteq>
      map scHttpToLowerAscii (SC_HTTP_TRACKED_HEADERS ! header_index ContentLength)"
    "ciPrefix (SC_HTTP_TRACKED_HEADERS ! header_index ContentLength) ''Content-LengthX''"
    by code_simp+
  with proc fast slow show ?thesis
    by auto
qed

section \<open>Numbers\<close>

text \<open>The value a digit string denotes, and the 64 bit accumulator the code keeps of it.\<close>

definition decValue :: "char list \<Rightarrow> nat" where
  "decValue ds = foldl (\<lambda>a c. a * 10 + digitValue c) 0 ds"

definition accumulate :: "u64 \<Rightarrow> char list \<Rightarrow> u64" where
  "accumulate a ds = foldl (\<lambda>a c. a * 10 + of_nat (digitValue c)) a ds"

lemma accumulate_of_nat:
  "accumulate (of_nat a) ds = of_nat (foldl (\<lambda>a c. a * 10 + digitValue c) a ds)"
proof (induction ds arbitrary: a)
  case (Cons d ds)
  then show ?case
    using Cons.IH [of "a * 10 + digitValue d"] by (simp add: accumulate_def)
qed (simp add: accumulate_def)

lemma accumulate_decValue: "accumulate 0 ds = of_nat (decValue ds)"
  using accumulate_of_nat [of 0 ds] by (simp add: decValue_def)

lemma accumulate_simps [simp]:
  "accumulate a [] = a" "accumulate a (d # ds) = accumulate (a * 10 + of_nat (digitValue d)) ds"
  by (simp_all add: accumulate_def)

lemma isDigit_delimiters [simp]: "\<not> isDigit CR" "\<not> isDigit CHR '' ''"
  by (simp_all add: isDigit_def code_def)

lemmas number_steps = parseNumberValue_def numberValueLoop_def pushDigit_def yield_def reject_def
  finish_def dropLast_def dropFirst_def

lemma run_digits:
  assumes "\<forall>d\<in>set ds. isDigit d" and "nestedCo p = 697" and "matchIndex p + length ds \<le> 20"
    and "state p \<noteq> StResult"
  shows "runFunc parseNumberValue p n (ds @ CR # LF # rest) =
    (p\<lparr>tokenLength := tokenLength p + length ds, number := accumulate (number p) ds,
       matchIndex := matchIndex p + length ds, state := StResult, nestedCo := -1\<rparr>,
     n + length ds + 2, True)"
  using assms
proof (induction ds arbitrary: p n)
  case Nil
  then show ?case by (cases p) (simp add: number_steps)
next
  case (Cons d ds)
  let ?p = "p\<lparr>tokenLength := tokenLength p + 1, number := number p * 10 + of_nat (digitValue d),
      matchIndex := matchIndex p + 1, nestedCo := 697\<rparr>"
  have "runFunc parseNumberValue p n ((d # ds) @ CR # LF # rest) =
      runFunc parseNumberValue ?p (Suc n) (ds @ CR # LF # rest)"
    using Cons.prems by (cases p) (auto simp: number_steps)
  then show ?case
    using Cons.IH [of ?p "Suc n"] Cons.prems by simp
qed

lemma run_number_start:
  assumes "\<forall>d\<in>set ds. isDigit d" and "nestedCo p = 0 \<or> nestedCo p = 686" and "length ds \<le> 20"
    and "state p \<noteq> StResult" and "matchIndex p = 0"
  shows "runFunc parseNumberValue p n (ds @ CR # LF # rest) =
    (p\<lparr>tokenLength := tokenLength p + length ds, number := accumulate 0 ds,
       matchIndex := length ds, state := StResult, nestedCo := -1\<rparr>, n + length ds + 2, True)"
proof -
  have "runFunc parseNumberValue p n (ds @ CR # LF # rest) =
      runFunc parseNumberValue (p\<lparr>number := 0, nestedCo := 697\<rparr>) n (ds @ CR # LF # rest)"
    using assms by (cases p; cases ds) (auto simp: number_steps)
  then show ?thesis
    using run_digits [of ds "p\<lparr>number := 0, nestedCo := 697\<rparr>" n rest] assms by simp
qed

lemma run_number:
  assumes "\<forall>d\<in>set ds. isDigit d" and "nestedCo p = 0 \<or> nestedCo p = 686" and "length ds \<le> 20"
    and "state p \<noteq> StResult" and "matchIndex p = 0" and "tokenLength p = 0"
  shows "runFunc parseNumberValue p n (replicate k (CHR '' '') @ ds @ CR # LF # rest) =
    (p\<lparr>tokenStart := tokenStart p + k, tokenLength := length ds, number := accumulate 0 ds,
       matchIndex := length ds, state := StResult, nestedCo := -1\<rparr>, n + k + length ds + 2, True)"
  using assms
proof (induction k arbitrary: p n)
  case 0
  then show ?case
    using run_number_start [of ds p n rest] by simp
next
  case (Suc k)
  let ?p = "p\<lparr>tokenLength := 0, tokenStart := tokenStart p + 1, nestedCo := 686\<rparr>"
  have "runFunc parseNumberValue p n (replicate (Suc k) (CHR '' '') @ ds @ CR # LF # rest) =
      runFunc parseNumberValue ?p (Suc n) (replicate k (CHR '' '') @ ds @ CR # LF # rest)"
    using Suc.prems by (auto simp: number_steps)
  then show ?case
    using Suc.IH [of ?p "Suc n"] Suc.prems by simp
qed

section \<open>The Connection header\<close>

text \<open>\<open>matchIndex\<close> after the characters \<open>seen\<close> of the value.\<close>

definition connIndex :: "char list \<Rightarrow> nat" where
  "connIndex seen = (case trackState ''close'' seen of (left, valid) \<Rightarrow>
     if valid then 5 else if left = 0 then 6 else 5 - left)"

lemma lower_close [simp]: "i < 5 \<Longrightarrow> scHttpToLowerAscii (''close'' ! i) = ''close'' ! i"
  by (auto simp: less_Suc_eq numeral_eq_Suc scHttpToLowerAscii_def code_def)

lemma connIndex_snoc:
  "connIndex (seen @ [c]) =
     (if connIndex seen < 5 then
        (if scHttpToLowerAscii c = ''close'' ! connIndex seen then connIndex seen + 1 else 6)
      else connIndex seen)"
proof -
  have step: "trackState ''close'' (seen @ [c]) = trackChar (length seen) c ''close'' (trackState ''close'' seen)"
    by (simp add: trackChar_step)
  show ?thesis
  proof (cases "fst (trackState ''close'' seen) = 0")
    case True
    then show ?thesis
      by (auto simp: connIndex_def step trackChar_def split: prod.splits)
  next
    case False
    then have left: "trackState ''close'' seen = (5 - length seen, False)" and less: "length seen < 5"
      by (auto simp: trackState_def split: if_splits)
    then have index: "connIndex seen = length seen"
      by (simp add: connIndex_def)
    show ?thesis
      using less by (auto simp: connIndex_def [of "seen @ [c]"] step left trackChar_def index)
  qed
qed

lemma connIndex_Nil [simp]: "connIndex [] = 0"
  by (simp add: connIndex_def trackState_def ciPrefix_def)

lemma connIndex_close: "connIndex v = 5 \<longleftrightarrow> ciPrefix ''close'' v"
  by (auto simp: connIndex_def trackState_def split: if_splits)

lemmas connection_steps = parseConnectionValue_def connectionValueLoop_def yield_def reject_def
  finish_def dropLast_def dropFirst_def

lemma run_connection_tail:
  assumes "CR \<notin> set v" and "nestedCo p = 776" and "matchIndex p = connIndex seen" and "state p \<noteq> StResult"
  shows "runFunc parseConnectionValue p n (v @ CR # LF # rest) =
    (p\<lparr>tokenLength := tokenLength p + length v, matchIndex := connIndex (seen @ v), state := StResult,
       connectionKeepAlive := (if ciPrefix ''close'' (seen @ v) then False else connectionKeepAlive p),
       nestedCo := -1\<rparr>, n + length v + 2, True)"
  using assms
proof (induction v arbitrary: p n seen)
  case Nil
  then show ?case by (cases p) (simp add: connection_steps connIndex_close [symmetric])
next
  case (Cons c v)
  let ?p = "p\<lparr>tokenLength := tokenLength p + 1, matchIndex := connIndex (seen @ [c]), nestedCo := 776\<rparr>"
  have "runFunc parseConnectionValue p n ((c # v) @ CR # LF # rest) =
      runFunc parseConnectionValue ?p (Suc n) (v @ CR # LF # rest)"
    using Cons.prems by (cases p) (auto simp: connection_steps connIndex_snoc)
  then show ?case
    using Cons.IH [of ?p "seen @ [c]" "Suc n"] Cons.prems by simp
qed

lemma run_connection_text:
  assumes "CR \<notin> set v" and "v = [] \<or> hd v \<noteq> CHR '' ''" and "nestedCo p = 0 \<or> nestedCo p = 735"
    and "state p \<noteq> StResult"
  shows "runFunc parseConnectionValue p n (v @ CR # LF # rest) =
    (p\<lparr>tokenLength := tokenLength p + length v, matchIndex := connIndex v, state := StResult,
       connectionKeepAlive := (if ciPrefix ''close'' v then False else connectionKeepAlive p),
       nestedCo := -1\<rparr>, n + length v + 2, True)"
proof -
  have "runFunc parseConnectionValue p n (v @ CR # LF # rest) =
      runFunc parseConnectionValue (p\<lparr>matchIndex := 0, nestedCo := 776\<rparr>) n (v @ CR # LF # rest)"
    using assms by (cases p; cases v) (auto simp: connection_steps)
  then show ?thesis
    using run_connection_tail [of v "p\<lparr>matchIndex := 0, nestedCo := 776\<rparr>" "[]" n rest] assms by simp
qed

lemma run_connection:
  assumes "CR \<notin> set v" and "v = [] \<or> hd v \<noteq> CHR '' ''" and "nestedCo p = 0 \<or> nestedCo p = 735"
    and "state p \<noteq> StResult" and "tokenLength p = 0"
  shows "runFunc parseConnectionValue p n (replicate k (CHR '' '') @ v @ CR # LF # rest) =
    (p\<lparr>tokenStart := tokenStart p + k, tokenLength := length v, matchIndex := connIndex v, state := StResult,
       connectionKeepAlive := (if ciPrefix ''close'' v then False else connectionKeepAlive p),
       nestedCo := -1\<rparr>, n + k + length v + 2, True)"
  using assms
proof (induction k arbitrary: p n)
  case 0
  then show ?case
    using run_connection_text [of v p n rest] by simp
next
  case (Suc k)
  let ?p = "p\<lparr>tokenLength := 0, tokenStart := tokenStart p + 1, nestedCo := 735\<rparr>"
  have "runFunc parseConnectionValue p n (replicate (Suc k) (CHR '' '') @ v @ CR # LF # rest) =
      runFunc parseConnectionValue ?p (Suc n) (replicate k (CHR '' '') @ v @ CR # LF # rest)"
    using Suc.prems by (auto simp: connection_steps)
  then show ?case
    using Suc.IH [of ?p "Suc n"] Suc.prems by simp
qed

section \<open>The request line\<close>

fun methodName :: "Method \<Rightarrow> string" where
  "methodName HttpGET = ''GET''"
| "methodName HttpPUT = ''PUT''"
| "methodName HttpPOST = ''POST''"
| "methodName HttpHEAD = ''HEAD''"
| "methodName HttpPATCH = ''PATCH''"
| "methodName HttpDELETE = ''DELETE''"
| "methodName HttpOPTIONS = ''OPTIONS''"

lemmas method_steps = parseMethod_def Let_def either_def expect_def methodEnd_def yield_def reject_def
  finish_def dropLast_def

lemma run_method:
  assumes "nestedCo p = 0" and "state p \<noteq> StResult"
  shows "runFunc parseMethod p n (methodName m @ CHR '' '' # rest) =
    (p\<lparr>tokenLength := tokenLength p + length (methodName m), req_method := m, state := StResult, nestedCo := -1\<rparr>,
     n + length (methodName m) + 1, True)"
  using assms by (cases p; cases m) (simp_all add: method_steps)

lemma run_version:
  assumes "nestedCo p = 0" and "state p \<noteq> StResult"
  shows "runFunc (parseVersion False) p n (''HTTP/1.1'' @ CR # LF # rest) =
    (p\<lparr>tokenLength := tokenLength p + 8, state := StResult, nestedCo := -1\<rparr>, n + 10, True)"
  using assms
  by (cases p) (simp add: parseVersion_def Let_def either_def expect_def yield_def reject_def finish_def dropLast_def)

lemma run_headersEnd:
  assumes "nestedCo p = 0" and "state p \<noteq> StResult"
  shows "runFunc parseHeadersEnd p n (CR # LF # rest) =
    (p\<lparr>state := StResult, nestedCo := -1\<rparr>, n + 2, True)"
  using assms
  by (cases p) (simp add: parseHeadersEnd_def yield_def reject_def finish_def dropLast_def)

lemmas url_steps = parseUrl_def yield_def finish_def dropLast_def

lemma run_url_tail:
  assumes "CHR '' '' \<notin> set url" and "nestedCo p = 531" and "state p \<noteq> StResult"
  shows "runFunc parseUrl p n (url @ CHR '' '' # rest) =
    (p\<lparr>tokenLength := tokenLength p + length url, state := StResult, nestedCo := -1\<rparr>, n + length url + 1, True)"
  using assms
proof (induction url arbitrary: p n)
  case Nil
  then show ?case by (cases p) (simp add: url_steps)
next
  case (Cons c url)
  let ?p = "p\<lparr>tokenLength := tokenLength p + 1, nestedCo := 531\<rparr>"
  have "runFunc parseUrl p n ((c # url) @ CHR '' '' # rest) = runFunc parseUrl ?p (Suc n) (url @ CHR '' '' # rest)"
    using Cons.prems by (cases p) (auto simp: url_steps)
  then show ?case
    using Cons.IH [of ?p "Suc n"] Cons.prems by simp
qed

lemma run_url:
  assumes "CHR '' '' \<notin> set url" and "url \<noteq> []" and "hd url \<noteq> CHR ''*''" and "nestedCo p = 0"
    and "state p \<noteq> StResult"
  shows "runFunc parseUrl p n (url @ CHR '' '' # rest) =
    (p\<lparr>tokenLength := tokenLength p + length url, state := StResult, nestedCo := -1\<rparr>, n + length url + 1, True)"
proof -
  obtain c cs where url: "url = c # cs"
    using assms(2) by (cases url) auto
  have "runFunc parseUrl p n (url @ CHR '' '' # rest) =
      runFunc parseUrl (p\<lparr>nestedCo := 531\<rparr>) n (url @ CHR '' '' # rest)"
    using assms by (cases p) (auto simp: url url_steps)
  then show ?thesis
    using run_url_tail [of url "p\<lparr>nestedCo := 531\<rparr>" n rest] assms by simp
qed

end
