(* ===== verification/HttpParserParse.thy ===== *)
theory HttpParserParse
  imports HttpParserTokens
begin

text \<open>
  Theorems about whole calls of \<open>HttpParser::parse\<close>: the reachable parser states, the bounds
  on what a call reads and reports, progress, and the round trip of a printed request.
\<close>

section \<open>Reachable parsers\<close>

text \<open>
  A parser is reachable when it comes from the constructed one by successful calls of \<open>parse\<close>;
  after an error the callers drop the parser.
\<close>

inductive reachable :: "Type \<Rightarrow> parser \<Rightarrow> bool" for ty where
  start: "reachable ty (init_parser ty)"
| call: "reachable ty p \<Longrightarrow> parse p data = (p', Some r) \<Longrightarrow> reachable ty p'"

definition phases :: "int set" where
  "phases = {108, 121, 134, 147, 159, 172, 193, 249, 266, 282, 298}"

definition parser_inv :: "Type \<Rightarrow> parser \<Rightarrow> bool" where
  "parser_inv ty p \<longleftrightarrow> ptype p = ty \<and> topCo p \<in> phases \<union> {0, 230, -1} \<and>
     (topCo p = 0 \<longrightarrow> state p = StParsing) \<and>
     (topCo p \<in> phases \<longrightarrow> token p = snd (phaseFunc (topCo p)) \<and>
        (state p = StFinished \<longrightarrow> topCo p = 193 \<and> ty = Request)) \<and>
     (topCo p = 230 \<longrightarrow> ty = Response \<and> token p = TkBody \<and> state p = StParsing \<and>
        tokenLength p < unat (contentLength p)) \<and>
     (topCo p = -1 \<longrightarrow> ty = Response \<and> token p = TkBody \<and> state p \<noteq> StParsing)"

lemma phases_simps [simp]: "230 \<notin> phases" "- 1 \<notin> phases" "0 \<notin> phases" "193 \<in> phases"
  by (simp_all add: phases_def)

lemma phase_tokens:
  "l \<in> phases \<Longrightarrow> snd (phaseFunc l) \<noteq> TkBody" "l \<in> phases \<Longrightarrow> snd (phaseFunc l) = TkHeadersEnd \<longleftrightarrow> l = 193"
  by (auto simp: phases_def phaseFunc_def)

lemma parser_inv_init: "parser_inv ty (init_parser ty)"
  by (simp add: parser_inv_def init_parser_def phases_def)

text \<open>What \<open>process\<close> guarantees whenever it succeeds, on either path.\<close>

definition consumed_ok :: "char list \<Rightarrow> nat \<Rightarrow> char list \<Rightarrow> bool" where
  "consumed_ok data n tx \<longleftrightarrow> n \<le> length data \<and>
     (\<exists>off. off + length tx \<le> n \<and> tx = take (length tx) (drop off data))"

lemma consumed_okI:
  assumes "off + len \<le> n" and "n \<le> length data"
  shows "consumed_ok data n (take len (drop off data))"
proof -
  have "length (take len (drop off data)) = len"
    using assms by simp
  then show ?thesis
    using assms unfolding consumed_ok_def by (metis order_trans)
qed

lemma process_slow_ok:
  assumes "processSlow f t p data = (p', Some (n, tx))"
  shows "consumed_ok data n tx \<and> (data \<noteq> [] \<longrightarrow> 0 < n) \<and> token p' = t \<and> ptype p' = ptype p \<and>
    topCo p' = topCo p \<and> contentLength p' = contentLength p \<and> (state p' = StParsing \<or> state p' = StResult)"
proof -
  let ?p = "p\<lparr>token := t, state := StParsing\<rparr>"
  obtain q m b where run: "runFunc (call f) ?p 0 data = (q, m, b)"
    by (metis prod_cases3)
  with assms have b: "b" and del: "deliver p data q m = (p', Some (n, tx))"
    by (auto simp: processSlow_def split: if_splits)
  from run b have run: "runFunc (call f) ?p 0 data = (q, m, True)" by simp
  from fn.deliver_ok [OF run, of p] del
  obtain off len where *: "n = m" "tx = take len (drop off data)" "off + len \<le> m"
    "p' = q\<lparr>globalLength := globalLength q + m, nestedCo := (if state q = StResult then 0 else nestedCo q)\<rparr>"
    by auto
  have m: "m \<le> length data" and pos: "data \<noteq> [] \<longrightarrow> 0 < m"
  proof -
    show "m \<le> length data" using fn.run_count [OF run] by simp
    show "data \<noteq> [] \<longrightarrow> 0 < m"
    proof
      assume "data \<noteq> []"
      then obtain c cs where "data = c # cs" by (cases data) auto
      with run show "0 < m"
        using fn.run_count [of f _ "Suc 0" cs] by (fastforce split: prod.splits if_splits)
    qed
  qed
  show ?thesis
    using * m pos fn.run_keeps [OF run] fn.run_state [OF run] consumed_okI [of off len m data] by auto
qed

lemma fastHeaderName_deliver:
  assumes "fastHeaderName q data = Some (r, m)" and "tokenLength q = 0" and "tokenStart q = tokenStart p"
    and "tokenLength p = 0"
  shows "\<exists>len. m = len + 1 \<and> m \<le> length data \<and> tokenStart r = tokenStart q \<and> tokenLength r = len \<and>
    state r = StResult \<and> deliver p data r m = (r\<lparr>globalLength := globalLength r + m, nestedCo := 0\<rparr>, Some (m, take len data))"
proof -
  from assms(1) obtain len where len: "memchr (CHR '':'') data = Some len" "m = len + 1"
      "r = q\<lparr>matchingHeaderValid := map (\<lambda>t. trackedEquals t data len) SC_HTTP_TRACKED_HEADERS,
             tokenLength := len, state := StResult\<rparr>"
    by (auto simp: fastHeaderName_def split: option.splits)
  then have "len < length data"
    by (auto dest: bounds)
  with len assms show ?thesis
    by (simp add: deliver_def)
qed

lemma process_cases:
  "process f t p data = processSlow f t p data \<or>
   (f = FHeaderName \<and> nestedCo p = 0 \<and> tokenLength p = 0 \<and>
    (\<exists>r m. fastHeaderName (p\<lparr>token := t, state := StParsing\<rparr>) data = Some (r, m) \<and>
       process f t p data = deliver p data r m))"
proof (cases "f = FHeaderValue")
  case True
  then show ?thesis by (simp add: headerValue_paths_agree)
next
  case False
  then show ?thesis
    by (auto simp: process_def fastPath_def split: option.splits func.splits)
qed

lemma process_ok:
  assumes "process f t p data = (p', Some (n, tx))"
  shows "consumed_ok data n tx \<and> (data \<noteq> [] \<longrightarrow> 0 < n) \<and> token p' = t \<and> ptype p' = ptype p \<and>
    topCo p' = topCo p \<and> contentLength p' = contentLength p \<and> (state p' = StParsing \<or> state p' = StResult)"
  using process_cases [of f t p data]
proof
  assume "process f t p data = processSlow f t p data"
  then show ?thesis using assms process_slow_ok by metis
next
  assume "f = FHeaderName \<and> nestedCo p = 0 \<and> tokenLength p = 0 \<and>
    (\<exists>r m. fastHeaderName (p\<lparr>token := t, state := StParsing\<rparr>) data = Some (r, m) \<and>
       process f t p data = deliver p data r m)"
  then obtain r m where z: "tokenLength p = 0"
    and fast: "fastHeaderName (p\<lparr>token := t, state := StParsing\<rparr>) data = Some (r, m)"
    and del: "process f t p data = deliver p data r m"
    by blast
  obtain len where *: "m = len + 1" "m \<le> length data" "state r = StResult"
    "deliver p data r m = (r\<lparr>globalLength := globalLength r + m, nestedCo := 0\<rparr>, Some (m, take len data))"
    using fastHeaderName_deliver [OF fast, of p] z by auto
  have r: "token r = t" "ptype r = ptype p" "topCo r = topCo p" "contentLength r = contentLength p"
    using fast by (auto simp: fastHeaderName_def split: option.splits)
  show ?thesis
    using * r assms del consumed_okI [of 0 len m data] by auto
qed

section \<open>The invariant is kept\<close>

lemma phaseStore_simps [simp]:
  "ptype (phaseStore l p) = ptype p" "token (phaseStore l p) = token p" "state (phaseStore l p) = state p"
  "nestedCo (phaseStore l p) = nestedCo p" "connectionKeepAlive (phaseStore l p) = connectionKeepAlive p"
  "req_method (phaseStore l p) = req_method p" "matchingHeaderValid (phaseStore l p) = matchingHeaderValid p"
  "parsedContentLength (phaseStore l p) = parsedContentLength p"
  "parsedConnection (phaseStore l p) = parsedConnection p"
  "globalStart (phaseStore l p) = globalStart p" "globalLength (phaseStore l p) = globalLength p"
  "tokenStart (phaseStore l p) = tokenStart p" "tokenLength (phaseStore l p) = tokenLength p"
  by (simp_all add: phaseStore_def)

lemma beginToken_simps [simp]:
  "ptype (beginToken p) = ptype p" "tokenLength (beginToken p) = 0" "contentLength (beginToken p) = contentLength p"
  "topCo (beginToken p) = topCo p" "nestedCo (beginToken p) = nestedCo p" "globalLength (beginToken p) = 0"
  "globalStart (beginToken p) = globalStart p + globalLength p"
  "tokenStart (beginToken p) = globalStart p + globalLength p"
  "req_method (beginToken p) = req_method p" "connectionKeepAlive (beginToken p) = connectionKeepAlive p"
  "parsedContentLength (beginToken p) = parsedContentLength p"
  "parsedConnection (beginToken p) = parsedConnection p" "statusCode (beginToken p) = statusCode p"
  by (simp_all add: beginToken_def)

text \<open>What a successful call leaves behind and reports, whichever phase ran.\<close>

definition call_ok :: "Type \<Rightarrow> char list \<Rightarrow> parser \<Rightarrow> nat \<Rightarrow> char list \<Rightarrow> bool" where
  "call_ok ty data p' n tx \<longleftrightarrow> parser_inv ty p' \<and> consumed_ok data n tx \<and>
     (n = 0 \<longrightarrow> state p' = StFinished \<or> (ty = Response \<and> token p' = TkBody \<and> state p' = StResult))"

lemma runPhase_ok:
  assumes "runPhase l p data = (p', Some (n, tx))" and "l \<in> phases" and "ptype p = ty" and "data \<noteq> []"
  shows "call_ok ty data p' n tx"
proof -
  obtain f t where ft: "phaseFunc l = (f, t)" by fastforce
  then obtain q where q: "process f t p data = (q, Some (n, tx))"
      "p' = (phaseStore l q)\<lparr>topCo := l\<rparr>"
    using assms(1) by (auto simp: runPhase_def split: prod.splits option.splits)
  from process_ok [OF q(1)] show ?thesis
    using assms(2-4) q(2) ft by (auto simp: call_ok_def parser_inv_def phases_def)
qed

lemma enterPhase_ok:
  assumes "enterPhase l p data = (p', Some (n, tx))" and "l \<in> phases" and "ptype p = ty" and "data \<noteq> []"
  shows "call_ok ty data p' n tx"
  using assms runPhase_ok [of l "if l = 108 then beginToken p else (beginToken p)\<lparr>matchIndex := 0\<rparr>"]
  by (simp add: enterPhase_def split: if_splits)

lemma bodyLoop_ok:
  assumes "bodyLoop p data = (p', Some (n, tx))" and "ptype p = Response" and "token p = TkBody"
    and "state p = StParsing" and "tokenLength p \<le> unat (contentLength p)" and "data \<noteq> []"
  shows "call_ok Response data p' n tx"
proof -
  have "n \<le> length data"
    using assms by (auto simp: bodyLoop_def Let_def split: option.splits if_splits)
  moreover from this have "consumed_ok data n (take n data)"
    using consumed_okI [of 0 n n data] by simp
  moreover have "tx = take n data"
    using assms by (auto simp: bodyLoop_def Let_def sliceStartLength_def split: option.splits if_splits)
  moreover have "0 < length data"
    using assms(6) by simp
  ultimately show ?thesis
    using assms
    by (auto simp: call_ok_def parser_inv_def phases_def bodyLoop_def Let_def split: option.splits if_splits)
qed

lemma headersLoop_ok:
  assumes "headersLoop p data = (p', Some (n, tx))" and "ptype p = ty" and "data \<noteq> []"
  shows "call_ok ty data p' n tx"
  using assms enterPhase_ok [of _ p data p' n tx ty]
  by (auto simp: headersLoop_def phases_def split: if_splits)

lemma headerDispatch_ok:
  assumes "headerDispatch p data = (p', Some (n, tx))" and "ptype p = ty" and "data \<noteq> []"
  shows "call_ok ty data p' n tx"
  using assms enterPhase_ok [of _ p data p' n tx ty]
    enterPhase_ok [of 266 "p\<lparr>parsedContentLength := True\<rparr>" data p' n tx ty]
    enterPhase_ok [of 282 "p\<lparr>parsedConnection := True\<rparr>" data p' n tx ty]
  by (auto simp: headerDispatch_def phases_def split: if_splits)

lemma afterPhase_ok:
  assumes "afterPhase p data = (p', Some (n, tx))" and "topCo p \<in> phases \<union> {0}" and "data \<noteq> []"
    and "topCo p = 193 \<longrightarrow> ptype p = Response"
  shows "call_ok (ptype p) data p' n tx"
proof -
  have body: "call_ok Response data p' n tx" if "enterBody p data = (p', Some (n, tx))" "ptype p = Response"
    using that assms(3) bodyLoop_ok [of "(beginToken p)\<lparr>matchIndex := 0, state := StParsing, token := TkBody\<rparr>"]
    by (simp add: enterBody_def)
  note phase = enterPhase_ok [of _ p data p' n tx, OF _ _ refl assms(3)]
  note first = enterPhase_ok [of 108 p data p' n tx Request, OF _ _ _ assms(3)]
  note loop = headersLoop_ok [of p data p' n tx, OF _ refl assms(3)]
  note dispatch = headerDispatch_ok [of p data p' n tx, OF _ refl assms(3)]
  show ?thesis
    using assms(1,2,4)
    by (auto simp: afterPhase_def Let_def phases_def split: if_splits
        intro: body dispatch loop phase [unfolded phases_def] first [unfolded phases_def])
qed

text \<open>Which phase a reachable parser is in when it reports its last token.\<close>

lemma parser_inv_last:
  assumes "parser_inv ty p" and "state p = StResult"
  shows "token p = (if ptype p = Request then TkHeadersEnd else TkBody) \<longleftrightarrow>
    (topCo p = 193 \<and> ty = Request) \<or> topCo p = -1"
proof -
  have ty: "ptype p = ty" and "topCo p \<in> phases \<or> topCo p = -1"
    using assms by (auto simp: parser_inv_def)
  then show ?thesis
  proof (elim disjE)
    assume co: "topCo p \<in> phases"
    then have "token p = snd (phaseFunc (topCo p))" "topCo p \<noteq> -1"
      using assms by (auto simp: parser_inv_def phases_def)
    then show ?thesis
      using phase_tokens [OF co] ty by simp
  next
    assume "topCo p = -1"
    then show ?thesis
      using assms ty by (simp add: parser_inv_def)
  qed
qed

lemma resume_phases:
  "resume p data = (if topCo p = 230 then bodyLoop p data
     else if topCo p \<in> phases \<and> state p = StParsing then runPhase (topCo p) p data
     else afterPhase p data)"
  by (simp add: resume_def phases_def)

lemma parse_ok:
  assumes inv: "parser_inv ty p" and "parse p data = (p', Some (n, tx))"
  shows "call_ok ty data p' n tx"
proof (cases "state p = StResult \<and> token p = (if ptype p = Request then TkHeadersEnd else TkBody)")
  case True
  then have fin: "p' = p\<lparr>state := StFinished\<rparr>" "n = 0" "tx = []"
    using assms(2) by (simp_all add: parse_def)
  have "topCo p = 193 \<and> ty = Request \<or> topCo p = -1"
    using parser_inv_last [OF inv] True by blast
  then have "parser_inv ty p'"
    using inv fin(1) by (elim disjE) (simp_all add: parser_inv_def phases_def)
  moreover have "consumed_ok data 0 []"
    by (simp add: consumed_ok_def)
  ultimately show ?thesis
    using fin by (simp add: call_ok_def)
next
  case False
  then have res: "resume p data = (p', Some (n, tx))" and data: "data \<noteq> []" and nf: "state p \<noteq> StFinished"
    using assms(2) by (auto simp: parse_def split: if_splits)
  have ty: "ptype p = ty" and co: "topCo p \<in> phases \<union> {0, 230, -1}"
    using inv by (simp_all add: parser_inv_def)
  consider (body) "topCo p = 230" | (again) "topCo p \<in> phases" "state p = StParsing"
    | (after) "topCo p \<in> phases \<union> {0}" "topCo p \<in> phases \<longrightarrow> state p = StResult" | (over) "topCo p = -1"
    using co nf by (cases "state p") auto
  then show ?thesis
  proof cases
    case body
    then show ?thesis
      using inv res data bodyLoop_ok [of p data p' n tx] by (auto simp: resume_def parser_inv_def)
  next
    case again
    then have "topCo p \<noteq> 230"
      by auto
    then show ?thesis
      using again res data ty runPhase_ok [of "topCo p" p data p' n tx ty] by (simp add: resume_phases)
  next
    case after
    then have "topCo p \<noteq> 230" "\<not> (topCo p \<in> phases \<and> state p = StParsing)"
      by (metis State.distinct(1) Un_iff empty_iff insert_iff phases_simps(1) zero_neq_numeral)+
    then have "afterPhase p data = (p', Some (n, tx))"
      using res by (simp add: resume_phases split: if_splits)
    moreover have "topCo p = 193 \<longrightarrow> ptype p = Response"
      using False after(2) parser_inv_last [OF inv] ty by (cases ty) auto
    ultimately show ?thesis
      using afterPhase_ok [of p data p' n tx] after data ty by simp
  next
    case over
    then have "state p = StResult"
      using inv nf by (cases "state p") (auto simp: parser_inv_def)
    then show ?thesis
      using False over parser_inv_last [OF inv] by blast
  qed
qed

section \<open>Bounds, progress, termination\<close>

lemma reachable_inv: "reachable ty p \<Longrightarrow> parser_inv ty p"
proof (induction rule: reachable.induct)
  case start
  show ?case by (rule parser_inv_init)
next
  case (call p data p' r)
  obtain n tx where "r = (n, tx)" by fastforce
  then show ?case
    using call parse_ok [of ty p data p' n tx] by (simp add: call_ok_def)
qed

text \<open>
  C22: a successful call reads no more than the chunk it was given, and the text it reports lies
  inside the bytes it read, whatever the chunking up to here was.
\<close>

theorem parse_reads_within_chunk:
  assumes "reachable ty p" and "parse p data = (p', Some (n, tx))"
  shows "n \<le> length data \<and> (\<exists>off. off + length tx \<le> n \<and> tx = take (length tx) (drop off data))"
  using parse_ok [OF reachable_inv [OF assms(1)] assms(2)] by (simp add: call_ok_def consumed_ok_def)

theorem parse_reads_within_chunk_witness:
  "snd (parse (init_parser Request) ''GET /'') = Some (4, ''GET'') \<and> 4 \<le> length ''GET /'' \<and>
   (\<exists>off. off + length ''GET'' \<le> 4 \<and> ''GET'' = take (length ''GET'') (drop off ''GET /''))"
proof -
  have eq: "parse (init_parser Request) ''GET /'' =
      (fst (parse (init_parser Request) ''GET /''), Some (4, ''GET''))"
    by code_simp
  show ?thesis
    using parse_reads_within_chunk [OF reachable.start eq] eq by (metis snd_conv)
qed

text \<open>
  A successful call consumes at least one byte, unless it ends the message: a request or
  response that becomes finished, or a response whose announced body is complete.
\<close>

theorem parse_progress:
  assumes "reachable ty p" and "parse p data = (p', Some (n, tx))"
  shows "0 < n \<or> state p' = StFinished \<or> (ty = Response \<and> token p' = TkBody \<and> state p' = StResult)"
  using parse_ok [OF reachable_inv [OF assms(1)] assms(2)] by (auto simp: call_ok_def)

theorem parse_progress_witness:
  "snd (parse (init_parser Request) ''GET /'') = Some (4, ''GET'') \<and> (0::nat) < 4"
proof -
  have eq: "parse (init_parser Request) ''GET /'' =
      (fst (parse (init_parser Request) ''GET /''), Some (4, ''GET''))"
    by code_simp
  have "state (fst (parse (init_parser Request) ''GET /'')) \<noteq> StFinished"
    by code_simp
  with parse_progress [OF reachable.start eq] show ?thesis
    using eq by (metis Type.distinct(1) snd_conv)
qed

text \<open>
  The loop of a client that has the whole input: call \<open>parse\<close> on what is left until the parser
  is finished or refuses. \<open>None\<close> is a client that ran out of fuel.
\<close>

fun feed :: "nat \<Rightarrow> parser \<Rightarrow> char list \<Rightarrow> ((Token \<times> char list) list \<times> parser \<times> char list) option" where
  "feed 0 p data = None"
| "feed (Suc k) p data = (case parse p data of
     (p', None) \<Rightarrow> Some ([], p', data)
   | (p', Some (n, tx)) \<Rightarrow>
       if state p' = StFinished then Some ([], p', drop n data)
       else map_option (\<lambda>(ts, q, r). ((token p', tx) # ts, q, r)) (feed k p' (drop n data)))"

definition complete :: "Type \<Rightarrow> parser \<Rightarrow> bool" where
  "complete ty p \<longleftrightarrow> ty = Response \<and> token p = TkBody \<and> state p = StResult"

lemma parse_complete:
  assumes "parser_inv ty p" and "complete ty p"
  shows "parse p data = (p\<lparr>state := StFinished\<rparr>, Some (0, []))"
  using assms by (simp add: complete_def parse_def parser_inv_def)

text \<open>
  C23: the loop ends. The number of calls is at most the number of bytes plus two, on any input.
\<close>

theorem feed_terminates:
  assumes "reachable ty p" and "length data + 2 < k"
  shows "\<exists>r. feed k p data = Some r"
proof -
  have "length data + (if complete ty p then 1 else 2) < k \<Longrightarrow> reachable ty p \<Longrightarrow> \<exists>r. feed k p data = Some r"
    for k p data
  proof (induction k arbitrary: p data)
    case (Suc k)
    obtain p' o1 where eq: "parse p data = (p', o1)" by fastforce
    show ?case
    proof (cases o1)
      case None
      then show ?thesis using eq by simp
    next
      case (Some r)
      then obtain n tx where res: "parse p data = (p', Some (n, tx))"
        using eq by (cases r) auto
      have reach: "reachable ty p'"
        using Suc.prems(2) res by (rule reachable.call)
      show ?thesis
      proof (cases "state p' = StFinished")
        case True
        then show ?thesis using res by simp
      next
        case False
        have "\<not> complete ty p"
          using False res parse_complete [OF reachable_inv [OF Suc.prems(2)], of data] by auto
        then have "length (drop n data) + (if complete ty p' then 1 else 2) < k"
          using Suc.prems(1) False parse_ok [OF reachable_inv [OF Suc.prems(2)] res]
          by (auto simp: complete_def call_ok_def consumed_ok_def)
        then obtain u where "feed k p' (drop n data) = Some u"
          using Suc.IH reach by blast
        then show ?thesis using res False by (cases u) simp
      qed
    qed
  qed simp
  then show ?thesis using assms by (cases "complete ty p") auto
qed

theorem feed_terminates_witness:
  "\<exists>r. feed 20 (init_parser Response) ''HTTP/1.1 200'' = Some r"
proof -
  have "length ''HTTP/1.1 200'' + 2 < (20::nat)"
    by simp
  with reachable.start show ?thesis
    by (rule feed_terminates)
qed

section \<open>The round trip of a printed request\<close>

text \<open>
  \<open>readyT ty l p\<close>: the parser has just reported the complete token of phase \<open>l\<close> of a message.
  \<open>settings\<close> are the members a client reads at the end.
\<close>

definition readyT :: "Type \<Rightarrow> int \<Rightarrow> parser \<Rightarrow> bool" where
  "readyT ty l p \<longleftrightarrow> topCo p = l \<and> nestedCo p = 0 \<and> state p = StResult \<and> token p = snd (phaseFunc l) \<and> ptype p = ty"

abbreviation ready :: "int \<Rightarrow> parser \<Rightarrow> bool" where
  "ready \<equiv> readyT Request"

definition settings :: "parser \<Rightarrow> Method \<times> u64 \<times> bool \<times> bool \<times> bool" where
  "settings p = (req_method p, contentLength p, connectionKeepAlive p, parsedContentLength p, parsedConnection p)"

lemma processSlow_complete:
  assumes run: "runFunc (call f) (p\<lparr>token := t, state := StParsing\<rparr>) 0 data = (p', n, True)"
    and res: "state p' = StResult"
  shows "processSlow f t p data = (p'\<lparr>globalLength := globalLength p' + n, nestedCo := 0\<rparr>,
    Some (n, take (tokenLength p' - tokenLength p) (drop (tokenStart p' - tokenStart p) data)))"
  using fn.deliver_ok [OF run, of p] res by (auto simp: processSlow_def run)

lemma process_not_fast:
  "f \<noteq> FHeaderName \<Longrightarrow> process f t p data = processSlow f t p data"
  using process_cases [of f t p data] by auto

text \<open>\<open>enter l\<close> is the parser right before \<open>process\<close> in a freshly entered phase.\<close>

abbreviation entered :: "int \<Rightarrow> parser \<Rightarrow> parser" where
  "entered l p \<equiv> (if l = 108 then beginToken p else (beginToken p)\<lparr>matchIndex := 0\<rparr>)"

lemma enterPhase_complete:
  assumes run: "runFunc (call f) ((entered l p)\<lparr>token := t, state := StParsing\<rparr>) 0 data = (p', n, True)"
    and ft: "phaseFunc l = (f, t)" "f \<noteq> FHeaderName" and res: "state p' = StResult"
  shows "enterPhase l p data = ((phaseStore l (p'\<lparr>globalLength := globalLength p' + n, nestedCo := 0\<rparr>))\<lparr>topCo := l\<rparr>,
    Some (n, take (tokenLength p') (drop (tokenStart p' - (globalStart p + globalLength p)) data)))"
proof -
  have process_eq: "process f t (entered l p) data = processSlow f t (entered l p) data"
    using ft(2) by (rule process_not_fast)
  show ?thesis
    unfolding enterPhase_def runPhase_def ft(1) prod.case process_eq
      processSlow_complete [OF run res]
    by simp
qed

lemma parse_first:
  assumes "data \<noteq> []"
  shows "parse (init_parser Request) data = enterPhase 108 (init_parser Request) data"
  using assms by (simp add: parse_def resume_phases afterPhase_def init_parser_def)

lemma parse_ready:
  assumes "readyT ty l p" and "l \<in> phases" and "l \<noteq> 193" and "data \<noteq> []"
  shows "parse p data = afterPhase p data"
proof -
  have "token p \<noteq> TkHeadersEnd" "token p \<noteq> TkBody" "l \<noteq> 230"
    using assms phase_tokens [of l] by (auto simp: readyT_def)
  then show ?thesis
    using assms by (simp add: readyT_def parse_def resume_phases)
qed

lemma parse_method_token:
  "\<exists>p'. parse (init_parser Request) (methodName m @ CHR '' '' # rest) =
      (p', Some (length (methodName m) + 1, methodName m)) \<and> ready 108 p' \<and>
      settings p' = (m, 0, True, False, False)"
proof -
  let ?p = "(entered 108 (init_parser Request))\<lparr>token := TkMethod, state := StParsing\<rparr>"
  have data: "methodName m @ CHR '' '' # rest \<noteq> []"
    by simp
  have run: "runFunc (call FMethod) ?p 0 (methodName m @ CHR '' '' # rest) =
      (?p\<lparr>tokenLength := length (methodName m), req_method := m, state := StResult, nestedCo := -1\<rparr>,
       length (methodName m) + 1, True)"
    using run_method [of ?p 0 m rest] by (simp add: init_parser_def)
  show ?thesis
    unfolding parse_first [OF data]
    using enterPhase_complete [OF run] by (simp add: phaseFunc_def readyT_def settings_def phaseStore_def init_parser_def)
qed

lemma parse_url_token:
  assumes "ready 108 p" and "CHR '' '' \<notin> set url" and "url \<noteq> []" and "hd url \<noteq> CHR ''*''"
  shows "\<exists>p'. parse p (url @ CHR '' '' # rest) = (p', Some (length url + 1, url)) \<and> ready 121 p' \<and>
    settings p' = settings p"
proof -
  let ?p = "(entered 121 p)\<lparr>token := TkUrl, state := StParsing\<rparr>"
  have eq: "parse p (url @ CHR '' '' # rest) = enterPhase 121 p (url @ CHR '' '' # rest)"
    using assms(1) parse_ready [of _ 108 p] by (simp add: afterPhase_def readyT_def phases_def)
  have run: "runFunc (call FUrl) ?p 0 (url @ CHR '' '' # rest) =
      (?p\<lparr>tokenLength := length url, state := StResult, nestedCo := -1\<rparr>, length url + 1, True)"
    using run_url [of url ?p 0 rest] assms by (simp add: readyT_def)
  show ?thesis
    unfolding eq using enterPhase_complete [OF run] assms(1)
    by (simp add: phaseFunc_def readyT_def settings_def phaseStore_def)
qed

lemma parse_version_token:
  assumes "ready 121 p"
  shows "\<exists>p'. parse p (''HTTP/1.1'' @ CR # LF # rest) = (p', Some (10, ''HTTP/1.1'')) \<and> ready 134 p' \<and>
    settings p' = settings p"
proof -
  let ?p = "(entered 134 p)\<lparr>token := TkVersion, state := StParsing\<rparr>"
  have eq: "parse p (''HTTP/1.1'' @ CR # LF # rest) = enterPhase 134 p (''HTTP/1.1'' @ CR # LF # rest)"
    using assms(1) parse_ready [of _ 121 p] by (simp add: afterPhase_def readyT_def phases_def)
  have run: "runFunc (call (FVersion False)) ?p 0 (''HTTP/1.1'' @ CR # LF # rest) =
      (?p\<lparr>tokenLength := 8, state := StResult, nestedCo := -1\<rparr>, 10, True)"
    using run_version [of ?p 0 rest] assms by (simp add: readyT_def)
  show ?thesis
    unfolding eq using enterPhase_complete [OF run] assms(1)
    by (simp add: phaseFunc_def readyT_def settings_def phaseStore_def)
qed

text \<open>The tokens before the headers of a response.\<close>

lemma parse_first_response:
  assumes "data \<noteq> []"
  shows "parse (init_parser Response) data = enterPhase 147 (init_parser Response) data"
  using assms by (simp add: parse_def resume_phases afterPhase_def init_parser_def)

lemma run_version_space:
  assumes "nestedCo p = 0" and "state p \<noteq> StResult"
  shows "runFunc (parseVersion True) p n (''HTTP/1.1'' @ CHR '' '' # rest) =
    (p\<lparr>tokenLength := tokenLength p + 8, state := StResult, nestedCo := -1\<rparr>, n + 9, True)"
  using assms
  by (cases p) (simp add: parseVersion_def Let_def either_def expect_def yield_def reject_def finish_def dropLast_def)

lemma parse_response_version:
  "\<exists>p'. parse (init_parser Response) (''HTTP/1.1'' @ CHR '' '' # rest) = (p', Some (9, ''HTTP/1.1'')) \<and> readyT Response 147 p' \<and>
    settings p' = settings (init_parser Response)"
proof -
  let ?p = "(entered 147 (init_parser Response))\<lparr>token := TkVersion, state := StParsing\<rparr>"
  have data: "''HTTP/1.1'' @ CHR '' '' # rest \<noteq> []"
    by simp
  have run: "runFunc (call (FVersion True)) ?p 0 (''HTTP/1.1'' @ CHR '' '' # rest) =
      (?p\<lparr>tokenLength := 8, state := StResult, nestedCo := -1\<rparr>, 9, True)"
    using run_version_space [of ?p 0 rest] by (simp add: init_parser_def)
  show ?thesis
    unfolding parse_first_response [OF data]
    using enterPhase_complete [OF run] by (simp add: phaseFunc_def readyT_def settings_def phaseStore_def init_parser_def)
qed

lemmas status_steps = parseStatusCode_def statusCodeLoop_def pushDigit_def isDigit_def digitValue_def code_def Let_def
  yield_def reject_def finish_def dropLast_def dropFirst_def

lemma run_status_digits:
  assumes "\<forall>d\<in>set ds. isDigit d" and "nestedCo p = 662" and "matchIndex p + length ds \<le> 20" and "state p \<noteq> StResult"
  shows "runFunc parseStatusCode p n (ds @ CHR '' '' # rest) =
    (p\<lparr>tokenLength := tokenLength p + length ds, number := accumulate (number p) ds, matchIndex := matchIndex p + length ds,
       state := StResult, nestedCo := -1\<rparr>, n + length ds + 1, True)"
  using assms
proof (induction ds arbitrary: p n)
  case Nil
  then show ?case by (cases p) (simp add: status_steps)
next
  case (Cons d ds)
  let ?q = "p\<lparr>tokenLength := tokenLength p + 1, matchIndex := matchIndex p + 1, number := number p * 10 + of_nat (digitValue d)\<rparr>"
  have d: "isDigit d"
    using Cons.prems(1) by simp
  have "runFunc parseStatusCode p n ((d # ds) @ CHR '' '' # rest) = runFunc parseStatusCode ?q (n + 1) (ds @ CHR '' '' # rest)"
    using Cons.prems(2-4) d by (cases p) (simp add: parseStatusCode_def statusCodeLoop_def pushDigit_def Let_def yield_def)
  then show ?case
    using Cons.IH [of ?q "n + 1"] Cons.prems by (cases p) simp
qed

lemma run_status:
  assumes "ds \<noteq> []" "\<forall>d\<in>set ds. isDigit d" "nestedCo p = 0" "matchIndex p = 0" "length ds \<le> 20" "state p \<noteq> StResult"
  shows "runFunc parseStatusCode p n (ds @ CHR '' '' # rest) =
    (p\<lparr>tokenLength := tokenLength p + length ds, number := accumulate 0 ds, matchIndex := length ds,
       state := StResult, nestedCo := -1\<rparr>, n + length ds + 1, True)"
proof -
  obtain d ds' where ds: "ds = d # ds'"
    using assms(1) by (cases ds) auto
  have d: "isDigit d" "d \<noteq> CHR '' ''"
    using assms(2) ds by (auto simp: isDigit_def code_def)
  let ?q = "p\<lparr>tokenLength := tokenLength p + 1, matchIndex := 1, number := of_nat (digitValue d), nestedCo := 662\<rparr>"
  have "runFunc parseStatusCode p n (ds @ CHR '' '' # rest) = runFunc parseStatusCode ?q (n + 1) (ds' @ CHR '' '' # rest)"
    using assms(3,4,6) d by (cases p) (simp add: ds parseStatusCode_def statusCodeLoop_def pushDigit_def Let_def yield_def)
  then show ?thesis
    using run_status_digits [of ds' ?q "n + 1" rest] assms ds by (cases p) simp
qed

lemma parse_status_token:
  assumes "readyT Response 147 p" "ds \<noteq> []" "\<forall>d\<in>set ds. isDigit d" "length ds \<le> 20"
  shows "\<exists>p'. parse p (ds @ CHR '' '' # rest) = (p', Some (length ds + 1, ds)) \<and> readyT Response 159 p' \<and>
    settings p' = settings p \<and> statusCode p' = ucast (accumulate 0 ds)"
proof -
  let ?p = "(entered 159 p)\<lparr>token := TkStatusCode, state := StParsing\<rparr>"
  have eq: "parse p (ds @ CHR '' '' # rest) = enterPhase 159 p (ds @ CHR '' '' # rest)"
    using assms(1) parse_ready [of _ 147 p] by (simp add: afterPhase_def readyT_def phases_def)
  have run: "runFunc (call FStatusCode) ?p 0 (ds @ CHR '' '' # rest) =
      (?p\<lparr>tokenLength := length ds, number := accumulate 0 ds, matchIndex := length ds, state := StResult, nestedCo := -1\<rparr>,
       length ds + 1, True)"
    using run_status [of ds ?p 0 rest] assms by (simp add: readyT_def)
  show ?thesis
    unfolding eq using enterPhase_complete [OF run] assms(1)
    by (simp add: phaseFunc_def readyT_def settings_def phaseStore_def)
qed

lemma parse_reason_token:
  assumes "readyT Response 159 p" "CR \<notin> set v" "v = [] \<or> hd v \<noteq> CHR '' ''"
  shows "\<exists>p'. parse p (v @ CR # LF # rest) = (p', Some (length v + 2, v)) \<and> readyT Response 172 p' \<and>
    settings p' = settings p \<and> statusCode p' = statusCode p"
proof -
  let ?p = "(entered 172 p)\<lparr>token := TkStatusString, state := StParsing\<rparr>"
  have eq: "parse p (v @ CR # LF # rest) = enterPhase 172 p (v @ CR # LF # rest)"
    using assms(1) parse_ready [of _ 159 p] by (simp add: afterPhase_def readyT_def phases_def)
  have run: "runFunc (call FHeaderValue) ?p 0 (v @ CR # LF # rest) =
      (?p\<lparr>tokenStart := tokenStart ?p + 0, tokenLength := length v, state := StResult, nestedCo := -1\<rparr>, length v + 2, True)"
    using run_headerValue [of v ?p 0 0 rest] assms by (simp add: readyT_def)
  show ?thesis
    unfolding eq using enterPhase_complete [OF run] assms(1)
    by (simp add: phaseFunc_def readyT_def settings_def phaseStore_def)
qed

text \<open>Names are compared ignoring ASCII case. \<open>headerEffect\<close> is what one header does to the settings.\<close>

definition sameName :: "string \<Rightarrow> string \<Rightarrow> bool" where
  "sameName a b \<longleftrightarrow> map scHttpToLowerAscii a = map scHttpToLowerAscii b"

fun headerEffect :: "string \<times> string \<Rightarrow> Method \<times> u64 \<times> bool \<times> bool \<times> bool \<Rightarrow>
    Method \<times> u64 \<times> bool \<times> bool \<times> bool" where
  "headerEffect (name, v) (m, cl, keep, hasCL, hasConn) =
     (if sameName name ''Content-Length'' \<and> \<not> hasCL then (m, of_nat (decValue v), keep, True, hasConn)
      else if sameName name ''Connection'' \<and> \<not> hasConn
      then (m, cl, if ciPrefix ''close'' v then False else keep, hasCL, True)
      else (m, cl, keep, hasCL, hasConn))"

fun goodHeader :: "string \<times> string \<Rightarrow> bool" where
  "goodHeader (name, v) \<longleftrightarrow> CHR '':'' \<notin> set name \<and> (name = [] \<or> hd name \<noteq> CR) \<and>
     CR \<notin> set v \<and> (v = [] \<or> hd v \<noteq> CHR '' '') \<and>
     (sameName name ''Content-Length'' \<longrightarrow> (\<forall>d\<in>set v. isDigit d) \<and> length v \<le> 20)"

definition headerPhases :: "int set" where
  "headerPhases = {134, 172, 266, 282, 298}"

lemma headerPhases_phases: "l \<in> headerPhases \<Longrightarrow> l \<in> phases \<and> l \<noteq> 193"
  by (auto simp: headerPhases_def phases_def)

lemma parse_headers_state:
  assumes "readyT ty l p" and "l \<in> headerPhases" and "data \<noteq> []"
  shows "parse p data = headersLoop p data"
  using assms parse_ready [of ty l p data] headerPhases_phases [of l]
  by (auto simp: afterPhase_def readyT_def headerPhases_def)

lemma parse_headerName_token:
  assumes "readyT ty l p" and "l \<in> headerPhases" and "CHR '':'' \<notin> set name" and "name = [] \<or> hd name \<noteq> CR"
  shows "\<exists>p'. parse p (name @ CHR '':'' # rest) = (p', Some (length name + 1, name)) \<and> readyT ty 249 p' \<and>
    settings p' = settings p \<and> statusCode p' = statusCode p \<and>
    (\<forall>h. matchesHeader p' h \<longleftrightarrow> sameName name (SC_HTTP_TRACKED_HEADERS ! header_index h))"
proof -
  let ?data = "name @ CHR '':'' # rest"
  have "hd ?data \<noteq> CR"
    using assms(4) by (cases name) auto
  then have eq: "parse p ?data = enterPhase 249 p ?data"
    using parse_headers_state [OF assms(1,2), of ?data] by (simp add: headersLoop_def)
  let ?b = "(beginToken p)\<lparr>matchIndex := 0\<rparr>"
  let ?r = "?b\<lparr>token := TkHeaderName, state := StResult, tokenLength := length name,
     matchingHeaderValid := map (\<lambda>u. trackedEquals u ?data (length name)) SC_HTTP_TRACKED_HEADERS,
     globalLength := length name + 1, nestedCo := 0\<rparr>"
  have n0: "nestedCo p = 0"
    using assms(1) by (simp add: readyT_def)
  have fast: "fastPath FHeaderName (?b\<lparr>token := TkHeaderName, state := StParsing\<rparr>) ?data =
     Some (?b\<lparr>token := TkHeaderName, state := StResult, tokenLength := length name,
       matchingHeaderValid := map (\<lambda>u. trackedEquals u ?data (length name)) SC_HTTP_TRACKED_HEADERS\<rparr>,
       length name + 1)"
    using assms(3) n0 by (simp add: fastPath_def fastHeaderName_def)
  have proc: "process FHeaderName TkHeaderName ?b ?data = (?r, Some (length name + 1, name))"
    unfolding process_def fast by (simp add: deliver_def)
  have run: "enterPhase 249 p ?data = (?r\<lparr>topCo := 249\<rparr>, Some (length name + 1, name))"
    unfolding enterPhase_def runPhase_def using proc by (simp add: phaseFunc_def phaseStore_def)
  have match: "matchesHeader (?r\<lparr>topCo := 249\<rparr>) h \<longleftrightarrow>
      sameName name (SC_HTTP_TRACKED_HEADERS ! header_index h)" for h
    by (cases h) (auto simp: matchesHeader_def numMatches_def SC_HTTP_TRACKED_HEADERS_def sameName_def
        trackedEquals_iff [of _ name "CHR '':'' # rest"])
  have "readyT ty 249 (?r\<lparr>topCo := 249\<rparr>)" "settings (?r\<lparr>topCo := 249\<rparr>) = settings p"
      "statusCode (?r\<lparr>topCo := 249\<rparr>) = statusCode p"
    using assms(1) by (simp_all add: readyT_def settings_def phaseFunc_def)
  with match show ?thesis
    unfolding eq run by blast
qed

lemma matches_tracked:
  assumes "\<forall>h. matchesHeader p h \<longleftrightarrow> sameName name (SC_HTTP_TRACKED_HEADERS ! header_index h)"
  shows "matchesHeader p ContentLength \<longleftrightarrow> sameName name ''Content-Length''"
    "matchesHeader p Connection \<longleftrightarrow> sameName name ''Connection''"
  using assms by (simp_all add: SC_HTTP_TRACKED_HEADERS_def)

lemma parse_headerValue_token:
  assumes "readyT ty 249 p" and "goodHeader (name, v)"
    and match: "\<forall>h. matchesHeader p h \<longleftrightarrow> sameName name (SC_HTTP_TRACKED_HEADERS ! header_index h)"
  shows "\<exists>p' l. parse p (replicate k (CHR '' '') @ v @ CR # LF # rest) = (p', Some (k + length v + 2, v)) \<and>
    readyT ty l p' \<and> l \<in> headerPhases \<and> snd (phaseFunc l) = TkHeaderValue \<and>
    settings p' = headerEffect (name, v) (settings p) \<and> statusCode p' = statusCode p"
proof -
  let ?data = "replicate k (CHR '' '') @ v @ CR # LF # rest"
  have eq: "parse p ?data = headerDispatch p ?data"
    using assms(1) parse_ready [of _ 249 p ?data] by (simp add: afterPhase_def readyT_def phases_def)
  have v: "CR \<notin> set v" "v = [] \<or> hd v \<noteq> CHR '' ''"
    using assms(2) by simp_all
  consider (cl) "sameName name ''Content-Length'' \<and> \<not> parsedContentLength p"
    | (conn) "\<not> (sameName name ''Content-Length'' \<and> \<not> parsedContentLength p)"
      "sameName name ''Connection'' \<and> \<not> parsedConnection p"
    | (plain) "\<not> (sameName name ''Content-Length'' \<and> \<not> parsedContentLength p)"
      "\<not> (sameName name ''Connection'' \<and> \<not> parsedConnection p)"
    by blast
  then show ?thesis
  proof cases
    case cl
    let ?p = "(entered 266 (p\<lparr>parsedContentLength := True\<rparr>))\<lparr>token := TkHeaderValue, state := StParsing\<rparr>"
    have run: "runFunc (call FNumberValue) ?p 0 ?data = (?p\<lparr>tokenStart := tokenStart ?p + k,
        tokenLength := length v, number := accumulate 0 v, matchIndex := length v, state := StResult,
        nestedCo := -1\<rparr>, k + length v + 2, True)"
      using run_number [of v ?p 0 k rest] assms(1,2) cl by (simp add: readyT_def)
    show ?thesis
      unfolding eq headerDispatch_def using cl matches_tracked [OF match] enterPhase_complete [OF run] assms(1)
      by (auto simp: phaseFunc_def readyT_def settings_def phaseStore_def headerPhases_def accumulate_decValue)
  next
    case conn
    let ?p = "(entered 282 (p\<lparr>parsedConnection := True\<rparr>))\<lparr>token := TkHeaderValue, state := StParsing\<rparr>"
    have run: "runFunc (call FConnectionValue) ?p 0 ?data = (?p\<lparr>tokenStart := tokenStart ?p + k,
        tokenLength := length v, matchIndex := connIndex v, state := StResult,
        connectionKeepAlive := (if ciPrefix ''close'' v then False else connectionKeepAlive ?p),
        nestedCo := -1\<rparr>, k + length v + 2, True)"
      using run_connection [of v ?p 0 k rest] assms(1) v by (simp add: readyT_def)
    show ?thesis
      unfolding eq headerDispatch_def using conn matches_tracked [OF match] enterPhase_complete [OF run] assms(1)
      by (auto simp: phaseFunc_def readyT_def settings_def phaseStore_def headerPhases_def)
  next
    case plain
    let ?p = "(entered 298 p)\<lparr>token := TkHeaderValue, state := StParsing\<rparr>"
    have run: "runFunc (call FHeaderValue) ?p 0 ?data = (?p\<lparr>tokenStart := tokenStart ?p + k,
        tokenLength := length v, state := StResult, nestedCo := -1\<rparr>, k + length v + 2, True)"
      using run_headerValue [of v ?p 0 k rest] assms(1) v by (simp add: readyT_def)
    show ?thesis
      unfolding eq headerDispatch_def using plain matches_tracked [OF match] enterPhase_complete [OF run] assms(1)
      by (auto simp: phaseFunc_def readyT_def settings_def phaseStore_def headerPhases_def)
  qed
qed

lemma parse_headersEnd_token:
  assumes "readyT ty l p" and "l \<in> headerPhases"
  shows "\<exists>p'. parse p (CR # LF # rest) = (p', Some (2, [])) \<and> readyT ty 193 p' \<and> settings p' = settings p \<and>
    statusCode p' = statusCode p"
proof -
  let ?p = "(entered 193 p)\<lparr>token := TkHeadersEnd, state := StParsing\<rparr>"
  have eq: "parse p (CR # LF # rest) = enterPhase 193 p (CR # LF # rest)"
    using parse_headers_state [OF assms, of "CR # LF # rest"] by (simp add: headersLoop_def)
  have run: "runFunc (call FHeadersEnd) ?p 0 (CR # LF # rest) =
      (?p\<lparr>state := StResult, nestedCo := -1\<rparr>, 2, True)"
    using run_headersEnd [of ?p 0 rest] assms by (simp add: readyT_def)
  show ?thesis
    unfolding eq using enterPhase_complete [OF run] assms(1)
    by (simp add: phaseFunc_def readyT_def settings_def phaseStore_def)
qed

text \<open>The text of a request head, and the tokens a client sees of it.\<close>

fun printHeader :: "string \<times> string \<Rightarrow> string" where
  "printHeader (name, v) = name @ '': '' @ v @ [CR, LF]"

definition printRequest :: "Method \<Rightarrow> string \<Rightarrow> (string \<times> string) list \<Rightarrow> string" where
  "printRequest m url hs =
     methodName m @ '' '' @ url @ '' '' @ ''HTTP/1.1'' @ [CR, LF] @ concat (map printHeader hs) @ [CR, LF]"

fun headerTokens :: "string \<times> string \<Rightarrow> (Token \<times> string) list" where
  "headerTokens (name, v) = [(TkHeaderName, name), (TkHeaderValue, v)]"

definition requestTokens :: "Method \<Rightarrow> string \<Rightarrow> (string \<times> string) list \<Rightarrow> (Token \<times> string) list" where
  "requestTokens m url hs =
     [(TkMethod, methodName m), (TkUrl, url), (TkVersion, ''HTTP/1.1'')] @
     concat (map headerTokens hs) @ [(TkHeadersEnd, [])]"

lemma feed_step_ready:
  assumes "parse p data = (p', Some (n, tx))" and "ready l p'" and "drop n data = rest"
  shows "feed (Suc k) p data =
    map_option (\<lambda>(ts, q, r). ((snd (phaseFunc l), tx) # ts, q, r)) (feed k p' rest)"
  using assms by (simp add: readyT_def)

lemma feed_headersEnd:
  assumes "ready l p" and "l \<in> headerPhases"
  shows "\<exists>p'. feed (Suc (Suc k)) p (CR # LF # rest) = Some ([(TkHeadersEnd, [])], p', rest) \<and>
    state p' = StFinished \<and> settings p' = settings p"
proof -
  obtain q where q: "parse p (CR # LF # rest) = (q, Some (2, []))" "ready 193 q" "settings q = settings p"
    using parse_headersEnd_token [OF assms] by blast
  have "parse q rest = (q\<lparr>state := StFinished\<rparr>, Some (0, []))"
    using q(2) by (simp add: parse_def readyT_def phaseFunc_def)
  then have "feed (Suc k) q rest = Some ([], q\<lparr>state := StFinished\<rparr>, rest)"
    by simp
  with feed_step_ready [OF q(1,2), of rest "Suc k"] show ?thesis
    using q(3) by (simp add: phaseFunc_def settings_def del: feed.simps)
qed

lemma feed_header:
  assumes "ready l p" and "l \<in> headerPhases" and "goodHeader h"
  shows "\<exists>p' l'. ready l' p' \<and> l' \<in> headerPhases \<and> settings p' = headerEffect h (settings p) \<and>
    feed (Suc (Suc k)) p (printHeader h @ rest) =
      map_option (\<lambda>(ts, q, r). (headerTokens h @ ts, q, r)) (feed k p' rest)"
proof -
  obtain name v where h: "h = (name, v)" by fastforce
  let ?val = "replicate 1 (CHR '' '') @ v @ CR # LF # rest"
  have good: "CHR '':'' \<notin> set name" "name = [] \<or> hd name \<noteq> CR" "goodHeader (name, v)"
    using assms(3) h by simp_all
  obtain q where q: "parse p (name @ CHR '':'' # ?val) = (q, Some (length name + 1, name))" "ready 249 q"
      "settings q = settings p"
      "\<forall>h. matchesHeader q h \<longleftrightarrow> sameName name (SC_HTTP_TRACKED_HEADERS ! header_index h)"
    using parse_headerName_token [OF assms(1,2) good(1,2)] by blast
  obtain u l' where u: "parse q ?val = (u, Some (1 + length v + 2, v))" "ready l' u" "l' \<in> headerPhases"
      "snd (phaseFunc l') = TkHeaderValue" "settings u = headerEffect (name, v) (settings q)"
    using parse_headerValue_token [OF q(2) good(3) q(4)] by blast
  have val: "feed (Suc k) q ?val = map_option (\<lambda>(ts, q, r). ((TkHeaderValue, v) # ts, q, r)) (feed k u rest)"
    using feed_step_ready [OF u(1,2), of rest k] u(4) by simp
  have name: "feed (Suc (Suc k)) p (name @ CHR '':'' # ?val) =
      map_option (\<lambda>(ts, q, r). ((TkHeaderName, name) # ts, q, r)) (feed (Suc k) q ?val)"
    using feed_step_ready [OF q(1,2), of ?val "Suc k"] by (simp add: phaseFunc_def del: feed.simps)
  have "feed (Suc (Suc k)) p (printHeader h @ rest) =
      map_option (\<lambda>(ts, q, r). (headerTokens h @ ts, q, r)) (feed k u rest)"
    using name val h by (cases "feed k u rest") (simp_all add: split_beta del: feed.simps)
  then show ?thesis
    using u(2,3,5) q(3) h by metis
qed

lemma feed_headers:
  assumes "ready l p" and "l \<in> headerPhases" and "\<forall>h\<in>set hs. goodHeader h"
  shows "\<exists>p'. feed (2 * length hs + 2 + k) p (concat (map printHeader hs) @ CR # LF # rest) =
      Some (concat (map headerTokens hs) @ [(TkHeadersEnd, [])], p', rest) \<and>
    state p' = StFinished \<and> settings p' = fold headerEffect hs (settings p)"
  using assms
proof (induction hs arbitrary: l p)
  case Nil
  then show ?case
    using feed_headersEnd [of l p k rest] by simp
next
  case (Cons h hs)
  let ?rest = "concat (map printHeader hs) @ CR # LF # rest"
  obtain u l' where u: "ready l' u" "l' \<in> headerPhases" "settings u = headerEffect h (settings p)"
    "feed (Suc (Suc (2 * length hs + 2 + k))) p (printHeader h @ ?rest) =
      map_option (\<lambda>(ts, q, r). (headerTokens h @ ts, q, r)) (feed (2 * length hs + 2 + k) u ?rest)"
    using feed_header [of l p h "2 * length hs + 2 + k" ?rest] Cons.prems by auto
  have k: "2 * length (h # hs) + 2 + k = Suc (Suc (2 * length hs + 2 + k))"
    by simp
  have data: "concat (map printHeader (h # hs)) @ CR # LF # rest = printHeader h @ ?rest"
    by simp
  obtain p' where p': "feed (2 * length hs + 2 + k) u ?rest =
      Some (concat (map headerTokens hs) @ [(TkHeadersEnd, [])], p', rest)" "state p' = StFinished"
      "settings p' = fold headerEffect hs (settings u)"
    using Cons.IH [OF u(1,2)] Cons.prems by auto
  show ?case
    unfolding k data u(4) p'(1) using p'(2,3) u(3) by simp
qed

text \<open>
  C12: the round trip of a request. Parsing a printed request head from one buffer reports its
  method, target, version, every header name and value and the end of the head, with exactly the
  text that was printed; it stops right behind the head, whatever follows; and the method, the
  content length and the keep-alive flag are what the headers say: the first Content-Length is
  read as a 64 bit number, the first Connection header clears keep-alive when its value starts
  with close.
\<close>

theorem parse_request_roundtrip:
  assumes "CHR '' '' \<notin> set url" and "url \<noteq> []" and "hd url \<noteq> CHR ''*''"
    and "\<forall>h\<in>set hs. goodHeader h"
  shows "\<exists>p'. feed (2 * length hs + 5 + k) (init_parser Request) (printRequest m url hs @ rest) =
      Some (requestTokens m url hs, p', rest) \<and> state p' = StFinished \<and>
    settings p' = fold headerEffect hs (m, 0, True, False, False)"
proof -
  let ?hdrs = "concat (map printHeader hs) @ CR # LF # rest"
  let ?k = "2 * length hs + 2 + k"
  obtain p1 where p1: "parse (init_parser Request) (methodName m @ CHR '' '' # url @ CHR '' '' # ''HTTP/1.1'' @ CR # LF # ?hdrs) =
      (p1, Some (length (methodName m) + 1, methodName m))" "ready 108 p1" "settings p1 = (m, 0, True, False, False)"
    using parse_method_token by blast
  obtain p2 where p2: "parse p1 (url @ CHR '' '' # ''HTTP/1.1'' @ CR # LF # ?hdrs) = (p2, Some (length url + 1, url))"
      "ready 121 p2" "settings p2 = settings p1"
    using parse_url_token [OF p1(2) assms(1-3)] by blast
  obtain p3 where p3: "parse p2 (''HTTP/1.1'' @ CR # LF # ?hdrs) = (p3, Some (10, ''HTTP/1.1''))"
      "ready 134 p3" "settings p3 = settings p2"
    using parse_version_token [OF p2(2)] by blast
  obtain p4 where p4: "feed ?k p3 ?hdrs = Some (concat (map headerTokens hs) @ [(TkHeadersEnd, [])], p4, rest)"
      "state p4 = StFinished" "settings p4 = fold headerEffect hs (settings p3)"
    using feed_headers [OF p3(2) _ assms(4), of k rest] by (auto simp: headerPhases_def)
  have data: "printRequest m url hs @ rest =
      methodName m @ CHR '' '' # url @ CHR '' '' # ''HTTP/1.1'' @ CR # LF # ?hdrs"
    by (simp add: printRequest_def)
  have k: "2 * length hs + 5 + k = Suc (Suc (Suc ?k))"
    by simp
  have f3: "feed (Suc ?k) p2 (''HTTP/1.1'' @ CR # LF # ?hdrs) =
      map_option (\<lambda>(ts, q, r). ((TkVersion, ''HTTP/1.1'') # ts, q, r)) (feed ?k p3 ?hdrs)"
    using feed_step_ready [OF p3(1,2), of ?hdrs ?k] by (simp add: phaseFunc_def del: feed.simps)
  have f2: "feed (Suc (Suc ?k)) p1 (url @ CHR '' '' # ''HTTP/1.1'' @ CR # LF # ?hdrs) =
      map_option (\<lambda>(ts, q, r). ((TkUrl, url) # ts, q, r)) (feed (Suc ?k) p2 (''HTTP/1.1'' @ CR # LF # ?hdrs))"
    using feed_step_ready [OF p2(1,2), of _ "Suc ?k"] by (simp add: phaseFunc_def del: feed.simps)
  show ?thesis
    unfolding k data
    using feed_step_ready [OF p1(1,2), of "url @ CHR '' '' # ''HTTP/1.1'' @ CR # LF # ?hdrs" "Suc (Suc ?k)"]
      f2 f3 p4 p1(3) p2(3) p3(3)
    by (simp add: phaseFunc_def requestTokens_def del: feed.simps)
qed

theorem parse_request_roundtrip_witness:
  "\<exists>p'. feed 9 (init_parser Request)
       (printRequest HttpPOST ''/a?b'' [(''Content-Length'', ''12''), (''connection'', ''Close'')] @ ''body'') =
     Some (requestTokens HttpPOST ''/a?b'' [(''Content-Length'', ''12''), (''connection'', ''Close'')], p', ''body'') \<and>
   state p' = StFinished \<and> settings p' = (HttpPOST, 12, False, True, True)"
proof -
  have good: "\<forall>h\<in>set [(''Content-Length'', ''12''), (''connection'', ''Close'')]. goodHeader h"
    by code_simp
  have eff: "fold headerEffect [(''Content-Length'', ''12''), (''connection'', ''Close'')]
      (HttpPOST, 0, True, False, False) = (HttpPOST, 12, False, True, True)"
    by code_simp
  show ?thesis
    using parse_request_roundtrip [of "''/a?b''" _ 0 HttpPOST "''body''", OF _ _ _ good] eff by simp
qed

section \<open>Corner cases of a request\<close>

lemma run_digits_overlong:
  assumes "\<forall>d\<in>set ds. isDigit d" and "nestedCo p = 697" and "matchIndex p \<le> 20"
    and "20 < matchIndex p + length ds" and "state p \<noteq> StResult"
  shows "\<not> snd (snd (runFunc parseNumberValue p n (ds @ rest)))"
  using assms
proof (induction ds arbitrary: p n)
  case (Cons d ds)
  let ?p = "p\<lparr>tokenLength := tokenLength p + 1, number := number p * 10 + of_nat (digitValue d),
      matchIndex := matchIndex p + 1, nestedCo := 697\<rparr>"
  show ?case
  proof (cases "matchIndex p = 20")
    case True
    then show ?thesis
      using Cons.prems by (simp add: number_steps)
  next
    case False
    then have "runFunc parseNumberValue p n ((d # ds) @ rest) = runFunc parseNumberValue ?p (Suc n) (ds @ rest)"
      using Cons.prems by (cases p) (auto simp: number_steps)
    then show ?thesis
      using Cons.IH [of ?p "Suc n"] Cons.prems False by simp
  qed
qed simp

lemma run_number_overlong:
  assumes "\<forall>d\<in>set ds. isDigit d" and "nestedCo p = 0 \<or> nestedCo p = 686" and "20 < length ds"
    and "state p \<noteq> StResult" and "matchIndex p = 0" and "tokenLength p = 0"
  shows "\<not> snd (snd (runFunc parseNumberValue p n (replicate k (CHR '' '') @ ds @ rest)))"
  using assms
proof (induction k arbitrary: p n)
  case 0
  have "runFunc parseNumberValue p n (ds @ rest) =
      runFunc parseNumberValue (p\<lparr>number := 0, nestedCo := 697\<rparr>) n (ds @ rest)"
    using 0 by (cases p; cases ds) (auto simp: number_steps)
  then show ?case
    using run_digits_overlong [of ds "p\<lparr>number := 0, nestedCo := 697\<rparr>" n rest] 0 by simp
next
  case (Suc k)
  let ?p = "p\<lparr>tokenLength := 0, tokenStart := tokenStart p + 1, nestedCo := 686\<rparr>"
  have "runFunc parseNumberValue p n (replicate (Suc k) (CHR '' '') @ ds @ rest) =
      runFunc parseNumberValue ?p (Suc n) (replicate k (CHR '' '') @ ds @ rest)"
    using Suc.prems by (auto simp: number_steps)
  then show ?case
    using Suc.IH [of ?p "Suc n"] Suc.prems by simp
qed

text \<open>
  The value of Content-Length. A value of up to twenty digits is accepted and stored modulo
  two to the 64, so 18446744073709551616 is read as 0; a longer one is refused, even when it is
  all zeros.
\<close>

theorem contentLength_value:
  assumes "matchesHeader p ContentLength" and "\<not> parsedContentLength p" and "ready 249 p"
    and "\<forall>d\<in>set v. isDigit d"
  shows "case parse p (replicate k (CHR '' '') @ v @ CR # LF # rest) of
      (p', None) \<Rightarrow> 20 < length v
    | (p', Some (n, tx)) \<Rightarrow> length v \<le> 20 \<and> n = k + length v + 2 \<and> tx = v \<and>
        unat (contentLength p') = decValue v mod 2 ^ 64"
proof -
  let ?data = "replicate k (CHR '' '') @ v @ CR # LF # rest"
  let ?b = "entered 266 (p\<lparr>parsedContentLength := True\<rparr>)"
  let ?p = "?b\<lparr>token := TkHeaderValue, state := StParsing\<rparr>"
  have eq: "parse p ?data = enterPhase 266 (p\<lparr>parsedContentLength := True\<rparr>) ?data"
    using assms parse_ready [of _ 249 p ?data] by (simp add: afterPhase_def readyT_def phases_def headerDispatch_def)
  show ?thesis
  proof (cases "length v \<le> 20")
    case True
    have run: "runFunc (call FNumberValue) ?p 0 ?data = (?p\<lparr>tokenStart := tokenStart ?p + k,
        tokenLength := length v, number := accumulate 0 v, matchIndex := length v, state := StResult,
        nestedCo := -1\<rparr>, k + length v + 2, True)"
      using run_number [of v ?p 0 k rest] assms True by (simp add: readyT_def)
    show ?thesis
      unfolding eq using enterPhase_complete [OF run] True
      by (simp add: phaseFunc_def phaseStore_def accumulate_decValue unat_of_nat)
  next
    case False
    have "\<not> snd (snd (runFunc (call FNumberValue) ?p 0 ?data))"
      using run_number_overlong [of v ?p 0 k "CR # LF # rest"] assms False by (simp add: readyT_def)
    then have "snd (process FNumberValue TkHeaderValue ?b ?data) = None"
      by (auto simp: process_not_fast processSlow_def split: prod.splits)
    then have "snd (parse p ?data) = None"
      unfolding eq enterPhase_def runPhase_def by (auto simp: phaseFunc_def split: prod.splits option.splits)
    then show ?thesis
      using False by (cases "parse p ?data") simp
  qed
qed

text \<open>The parser after a list of chunks, each handed to one successful call.\<close>

definition afterCalls :: "Type \<Rightarrow> char list list \<Rightarrow> parser" where
  "afterCalls ty ds = fold (\<lambda>d p. fst (parse p d)) ds (init_parser ty)"

theorem contentLength_value_witness:
  "case parse (afterCalls Request [''GET '', ''/ '', ''HTTP/1.1'' @ [CR, LF], ''Content-Length:''])
        ('' 18446744073709551616'' @ CR # LF # ''x'') of
      (p', None) \<Rightarrow> False
    | (p', Some (n, tx)) \<Rightarrow> n = 23 \<and> tx = ''18446744073709551616'' \<and> contentLength p' = 0"
proof -
  let ?p = "afterCalls Request [''GET '', ''/ '', ''HTTP/1.1'' @ [CR, LF], ''Content-Length:'']"
  let ?v = "''18446744073709551616''"
  have p: "matchesHeader ?p ContentLength" "\<not> parsedContentLength ?p" "ready 249 ?p"
    by code_simp+
  have v: "\<forall>d\<in>set ?v. isDigit d"
    by (simp add: isDigit_def code_def)
  have wrap: "decValue ?v mod 2 ^ 64 = 0"
    by (simp add: decValue_def digitValue_def code_def)
  have len: "(1 :: nat) + length ?v + 2 = 23"
    by simp
  have data: "'' 18446744073709551616'' @ CR # LF # ''x'' = replicate 1 (CHR '' '') @ ?v @ CR # LF # ''x''"
    by simp
  show ?thesis
    unfolding data using contentLength_value [OF p v, where k = 1 and rest = "''x''", unfolded wrap len]
    by (cases "parse ?p (replicate 1 (CHR '' '') @ ?v @ CR # LF # ''x'')")
      (auto simp: unat_eq_0 split: option.splits)
qed

lemma parse_asterisk:
  assumes "ready 108 p"
  shows "\<exists>p'. parse p (CHR ''*'' # rest) = (p', Some (1, ''*'')) \<and> ready 121 p'"
proof -
  let ?p = "(entered 121 p)\<lparr>token := TkUrl, state := StParsing\<rparr>"
  have eq: "parse p (CHR ''*'' # rest) = enterPhase 121 p (CHR ''*'' # rest)"
    using assms(1) parse_ready [of _ 108 p] by (simp add: afterPhase_def readyT_def phases_def)
  have run: "runFunc (call FUrl) ?p 0 (CHR ''*'' # rest) =
      (?p\<lparr>tokenLength := 1, state := StResult, nestedCo := -1\<rparr>, 1, True)"
    using assms by (simp add: readyT_def url_steps)
  show ?thesis
    unfolding eq using enterPhase_complete [OF run] assms
    by (simp add: phaseFunc_def readyT_def phaseStore_def)
qed

lemma parse_version_space:
  assumes "ready 121 p"
  shows "\<exists>p'. parse p (CHR '' '' # rest) = (p', None)"
proof -
  have eq: "parse p (CHR '' '' # rest) = enterPhase 134 p (CHR '' '' # rest)"
    using assms(1) parse_ready [of _ 121 p] by (simp add: afterPhase_def readyT_def phases_def)
  have "snd (process (FVersion False) TkVersion (entered 134 p) (CHR '' '' # rest)) = None"
    using assms by (simp add: process_not_fast processSlow_def readyT_def parseVersion_def Let_def expect_def
        either_def reject_def)
  then have "snd (parse p (CHR '' '' # rest)) = None"
    unfolding eq enterPhase_def runPhase_def by (auto simp: phaseFunc_def split: prod.splits option.splits)
  then show ?thesis
    by (cases "parse p (CHR '' '' # rest)") simp
qed

text \<open>
  The asterisk target. \<open>parseUrl\<close> ends at the asterisk itself and leaves the space behind it
  in the stream, where \<open>parseVersion\<close> refuses it: a request line such as
  \<open>OPTIONS * HTTP/1.1\<close> is never accepted.
\<close>

theorem asterisk_target_refused:
  "\<exists>q. feed (Suc (Suc (Suc k))) (init_parser Request) (methodName m @ '' * '' @ rest) =
     Some ([(TkMethod, methodName m), (TkUrl, ''*'')], q, '' '' @ rest)"
proof -
  obtain p1 where p1: "parse (init_parser Request) (methodName m @ CHR '' '' # CHR ''*'' # CHR '' '' # rest) =
      (p1, Some (length (methodName m) + 1, methodName m))" "ready 108 p1"
    using parse_method_token by blast
  obtain p2 where p2: "parse p1 (CHR ''*'' # CHR '' '' # rest) = (p2, Some (1, ''*''))" "ready 121 p2"
    using parse_asterisk [OF p1(2)] by blast
  obtain p3 where "parse p2 (CHR '' '' # rest) = (p3, None)"
    using parse_version_space [OF p2(2)] by blast
  then have f: "feed (Suc k) p2 (CHR '' '' # rest) = Some ([], p3, CHR '' '' # rest)"
    by simp
  have "feed (Suc (Suc k)) p1 (CHR ''*'' # CHR '' '' # rest) = Some ([(TkUrl, ''*'')], p3, CHR '' '' # rest)"
    using feed_step_ready [OF p2, of "CHR '' '' # rest" "Suc k"] f by (simp add: phaseFunc_def del: feed.simps)
  then show ?thesis
    using feed_step_ready [OF p1, of "CHR ''*'' # CHR '' '' # rest" "Suc (Suc k)"]
    by (simp add: phaseFunc_def del: feed.simps)
qed

end
