(* ===== verification/HttpParserChunks.thy ===== *)
theory HttpParserChunks
  imports HttpParserParse
begin

text \<open>
  Chunking. A client may hand \<open>HttpParser::parse\<close> the stream in any pieces; this theory proves
  that a token cut in two is the token of the joined chunk: the same bytes are read, the two
  texts concatenate to the whole text, and the parser left behind is the same. The key is that
  every parser function goes through three stages - skipped leading spaces, text, delimiter -
  and never back (the locale \<open>staged_parser\<close>, an extension of \<open>token_parser\<close>).
\<close>

section \<open>The stages of a token\<close>

text \<open>The fields of the upper levels, which the two runs may hold differently.\<close>

definition retag :: "nat \<Rightarrow> u32 \<Rightarrow> u64 \<Rightarrow> int \<Rightarrow> parser \<Rightarrow> parser" where
  "retag g sc cl co p = p\<lparr>globalLength := g, statusCode := sc, contentLength := cl, topCo := co\<rparr>"

lemma retag_simps [simp]:
  "tokenStart (retag g sc cl co p) = tokenStart p" "tokenLength (retag g sc cl co p) = tokenLength p"
  "nestedCo (retag g sc cl co p) = nestedCo p" "state (retag g sc cl co p) = state p"
  "number (retag g sc cl co p) = number p" "matchIndex (retag g sc cl co p) = matchIndex p"
  "token (retag g sc cl co p) = token p" "ptype (retag g sc cl co p) = ptype p"
  "matchingHeader (retag g sc cl co p) = matchingHeader p"
  "matchingHeaderValid (retag g sc cl co p) = matchingHeaderValid p"
  "connectionKeepAlive (retag g sc cl co p) = connectionKeepAlive p"
  by (simp_all add: retag_def)

lemma retag_update [simp]:
  "(retag g sc cl co p)\<lparr>tokenLength := a\<rparr> = retag g sc cl co (p\<lparr>tokenLength := a\<rparr>)"
  "(retag g sc cl co p)\<lparr>tokenStart := a\<rparr> = retag g sc cl co (p\<lparr>tokenStart := a\<rparr>)"
  "(retag g sc cl co p)\<lparr>nestedCo := i\<rparr> = retag g sc cl co (p\<lparr>nestedCo := i\<rparr>)"
  "(retag g sc cl co p)\<lparr>state := s\<rparr> = retag g sc cl co (p\<lparr>state := s\<rparr>)"
  "(retag g sc cl co p)\<lparr>token := t\<rparr> = retag g sc cl co (p\<lparr>token := t\<rparr>)"
  "(retag g sc cl co p)\<lparr>number := n\<rparr> = retag g sc cl co (p\<lparr>number := n\<rparr>)"
  "(retag g sc cl co p)\<lparr>matchIndex := a\<rparr> = retag g sc cl co (p\<lparr>matchIndex := a\<rparr>)"
  "(retag g sc cl co p)\<lparr>matchingHeader := h\<rparr> = retag g sc cl co (p\<lparr>matchingHeader := h\<rparr>)"
  "(retag g sc cl co p)\<lparr>matchingHeaderValid := v\<rparr> = retag g sc cl co (p\<lparr>matchingHeaderValid := v\<rparr>)"
  "(retag g sc cl co p)\<lparr>connectionKeepAlive := b\<rparr> = retag g sc cl co (p\<lparr>connectionKeepAlive := b\<rparr>)"
  "(retag g sc cl co p)\<lparr>req_method := m\<rparr> = retag g sc cl co (p\<lparr>req_method := m\<rparr>)"
  by (cases p; simp add: retag_def)+

definition skips :: "parser \<Rightarrow> parser \<Rightarrow> bool" where
  "skips p q \<longleftrightarrow> tokenStart q = tokenStart p + 1 \<and> tokenLength q + 1 = tokenLength p"

definition holds :: "parser \<Rightarrow> parser \<Rightarrow> bool" where
  "holds p q \<longleftrightarrow> tokenStart q = tokenStart p \<and> tokenLength q = tokenLength p"

definition closes :: "parser \<Rightarrow> parser \<Rightarrow> bool" where
  "closes p q \<longleftrightarrow> tokenStart q = tokenStart p \<and> tokenLength q + 1 = tokenLength p"

text \<open>The characters that a run over a chunk adds to the token.\<close>

fun keptText :: "(parser \<Rightarrow> char \<Rightarrow> outcome) \<Rightarrow> parser \<Rightarrow> char list \<Rightarrow> char list" where
  "keptText f p [] = []"
| "keptText f p (c # cs) = (case f (p\<lparr>tokenLength := tokenLength p + 1\<rparr>) c of (q, good) \<Rightarrow>
     (if good \<and> tokenStart q = tokenStart p \<and> tokenLength q = tokenLength p + 1 then [c] else []) @
     (if good \<and> state q \<noteq> StResult then keptText f q cs else []))"

lemma keptText_append:
  "keptText f p (xs @ ys) = keptText f p xs @
     (case runFunc f p 0 xs of (q, m, good) \<Rightarrow> if good \<and> (xs = [] \<or> state q \<noteq> StResult) then keptText f q ys else [])"
proof (induction xs arbitrary: p)
  case (Cons c xs)
  obtain q good where q: "f (p\<lparr>tokenLength := tokenLength p + 1\<rparr>) c = (q, good)"
    by fastforce
  show ?case
    using Cons.IH [of q] q runFunc_shift [of f q 0 1 xs] by (auto split: prod.splits)
qed simp

locale staged_parser = token_parser +
  fixes leading closing :: "int set"
  assumes disjoint: "leading \<inter> closing = {}"
    and stage: "step p c = (q, True) \<Longrightarrow> 0 < tokenLength p \<Longrightarrow> nestedCo p \<noteq> -1 \<Longrightarrow>
      (nestedCo p \<in> leading \<and> nestedCo q \<in> leading \<and> skips p q) \<or>
      (nestedCo p \<notin> closing \<and> nestedCo q \<notin> leading \<and> nestedCo q \<notin> closing \<and> holds p q) \<or>
      (closes p q \<and> (nestedCo q \<in> closing \<or> state q = StResult))"
    and live: "step p c = (q, True) \<Longrightarrow> 0 < tokenLength p \<Longrightarrow> nestedCo p \<noteq> -1 \<Longrightarrow> nestedCo q = -1 \<Longrightarrow> state q = StResult"
    and blind: "step (retag g sc cl co p) c = (retag g sc cl co (fst (step p c)), snd (step p c))"
begin

lemma run_live:
  "runFunc step p n cs = (q, m, True) \<Longrightarrow> nestedCo p \<noteq> -1 \<Longrightarrow> state q \<noteq> StResult \<Longrightarrow> nestedCo q \<noteq> -1"
proof (induction cs arbitrary: p n)
  case (Cons c cs)
  let ?p = "p\<lparr>tokenLength := tokenLength p + 1\<rparr>"
  obtain r good where r: "step ?p c = (r, good)"
    by fastforce
  then show ?case
    using Cons.prems Cons.IH [of r "n + 1"] live [of ?p c r] by (auto split: if_splits)
qed simp

lemma run_blind:
  "runFunc step (retag g sc cl co p) n cs =
     (case runFunc step p n cs of (q, m, b) \<Rightarrow> (retag g sc cl co q, m, b))"
proof (induction cs arbitrary: p n)
  case (Cons c cs)
  then show ?case
    by (simp add: blind split_beta)
qed simp

text \<open>Past the last text character nothing is added; past the spaces the start stays.\<close>

lemma run_closing:
  "runFunc step p n cs = (q, m, True) \<Longrightarrow> nestedCo p \<noteq> -1 \<Longrightarrow> nestedCo p \<in> closing \<Longrightarrow>
     tokenStart q = tokenStart p \<and> tokenLength q = tokenLength p"
proof (induction cs arbitrary: p n)
  case (Cons c cs)
  let ?p = "p\<lparr>tokenLength := tokenLength p + 1\<rparr>"
  obtain r where r: "step ?p c = (r, True)"
    using Cons.prems(1) by (fastforce split: prod.splits if_splits)
  have cl: "closes ?p r" "nestedCo r \<in> closing \<or> state r = StResult"
    using stage [OF r] Cons.prems disjoint by auto
  show ?case
  proof (cases "state r = StResult")
    case True
    then show ?thesis
      using Cons.prems(1) r cl by (auto simp: closes_def)
  next
    case False
    then have "nestedCo r \<noteq> -1" "runFunc step r (n + 1) cs = (q, m, True)"
      using live [OF r] Cons.prems r by auto
    then show ?thesis
      using Cons.IH [of r "n + 1"] cl False by (auto simp: closes_def)
  qed
qed simp

lemma run_text:
  "runFunc step p n cs = (q, m, True) \<Longrightarrow> nestedCo p \<noteq> -1 \<Longrightarrow> nestedCo p \<notin> leading \<Longrightarrow>
     tokenStart q = tokenStart p"
proof (induction cs arbitrary: p n)
  case (Cons c cs)
  let ?p = "p\<lparr>tokenLength := tokenLength p + 1\<rparr>"
  obtain r where r: "step ?p c = (r, True)"
    using Cons.prems(1) by (fastforce split: prod.splits if_splits)
  have keep: "tokenStart r = tokenStart p" "nestedCo r \<notin> leading \<or> state r = StResult"
    using stage [OF r] Cons.prems disjoint by (auto simp: holds_def closes_def)
  show ?case
    using Cons.IH [of r "n + 1"] Cons.prems r live [OF r] keep by (auto split: if_splits)
qed simp

lemma run_closing_kept:
  "runFunc step p n cs = (q, m, True) \<Longrightarrow> nestedCo p \<noteq> -1 \<Longrightarrow> nestedCo p \<in> closing \<Longrightarrow> keptText step p cs = []"
proof (induction cs arbitrary: p n)
  case (Cons c cs)
  let ?p = "p\<lparr>tokenLength := tokenLength p + 1\<rparr>"
  obtain r where r: "step ?p c = (r, True)"
    using Cons.prems(1) by (fastforce split: prod.splits if_splits)
  have cl: "closes ?p r" "nestedCo r \<in> closing \<or> state r = StResult"
    using stage [OF r] Cons.prems disjoint by auto
  show ?case
    using Cons.IH [of r "n + 1"] Cons.prems r cl live [OF r] by (auto simp: closes_def split: if_splits)
qed simp

text \<open>The slice that \<open>process\<close> delivers is the kept text.\<close>

lemma run_kept:
  "runFunc step p n cs = (q, m, True) \<Longrightarrow> nestedCo p \<noteq> -1 \<Longrightarrow>
     take (tokenLength q - tokenLength p) (drop (tokenStart q - tokenStart p) cs) = keptText step p cs"
proof (induction cs arbitrary: p n)
  case (Cons c cs)
  let ?p = "p\<lparr>tokenLength := tokenLength p + 1\<rparr>"
  obtain r where r: "step ?p c = (r, True)"
    using Cons.prems(1) by (fastforce split: prod.splits if_splits)
  have rest: "state r \<noteq> StResult \<Longrightarrow> runFunc step r (n + 1) cs = (q, m, True) \<and> nestedCo r \<noteq> -1"
      "state r = StResult \<Longrightarrow> q = r"
    using Cons.prems r live [OF r] by auto
  consider (skip) "nestedCo r \<in> leading" "skips ?p r"
    | (keep) "nestedCo r \<notin> leading" "holds ?p r"
    | (close) "closes ?p r" "nestedCo r \<in> closing \<or> state r = StResult"
    using stage [OF r] Cons.prems(2) by auto
  then show ?case
  proof cases
    case skip
    have k: "keptText step p (c # cs) = (if state r \<noteq> StResult then keptText step r cs else [])"
      using r skip by (simp add: skips_def)
    show ?thesis
    proof (cases "state r = StResult")
      case True
      then show ?thesis
        using rest k skip by (simp add: skips_def)
    next
      case False
      have "tokenStart r \<le> tokenStart q"
        using run_window [of r "n + 1" cs q m True] rest(1) [OF False] by simp
      then have "tokenStart q - tokenStart p = Suc (tokenStart q - tokenStart r)" "tokenLength r = tokenLength p"
        using skip by (simp_all add: skips_def)
      then show ?thesis
        using Cons.IH [of r "n + 1"] rest(1) [OF False] False k by simp
    qed
  next
    case keep
    have k: "keptText step p (c # cs) = c # (if state r \<noteq> StResult then keptText step r cs else [])"
      using r keep by (simp add: holds_def)
    show ?thesis
    proof (cases "state r = StResult")
      case True
      then show ?thesis
        using rest k keep by (simp add: holds_def)
    next
      case False
      have "tokenLength r \<le> tokenLength q" "tokenStart q = tokenStart r"
        using run_window [of r "n + 1" cs q m True] run_text [of r "n + 1" cs q m] keep rest(1) [OF False] by simp_all
      then have "tokenLength q - tokenLength p = Suc (tokenLength q - tokenLength r)" "tokenStart q = tokenStart p"
        using keep by (simp_all add: holds_def)
      then show ?thesis
        using Cons.IH [of r "n + 1"] rest(1) [OF False] False k keep by (simp add: holds_def)
    qed
  next
    case close
    have k: "keptText step p (c # cs) = (if state r \<noteq> StResult then keptText step r cs else [])"
      using r close by (simp add: closes_def)
    show ?thesis
    proof (cases "state r = StResult")
      case True
      then show ?thesis
        using rest k close by (simp add: closes_def)
    next
      case False
      then have "tokenStart q = tokenStart r" "tokenLength q = tokenLength r" "keptText step r cs = []"
        using run_closing [of r "n + 1" cs q m] run_closing_kept [of r "n + 1" cs q m] rest(1) close by auto
      then show ?thesis
        using k close by (simp add: closes_def)
    qed
  qed
qed simp

end

section \<open>Every parser function has its stages\<close>

fun leadingCo :: "func \<Rightarrow> int set" where
  "leadingCo FHeaderValue = {0, 622}"
| "leadingCo FStatusCode = {0, 652}"
| "leadingCo FNumberValue = {0, 686}"
| "leadingCo FConnectionValue = {0, 735}"
| "leadingCo _ = {0}"

fun closingCo :: "func \<Rightarrow> int set" where
  "closingCo (FVersion _) = {568}"
| "closingCo FHeaderValue = {629}"
| "closingCo FNumberValue = {702}"
| "closingCo FConnectionValue = {744}"
| "closingCo FHeadersEnd = {790}"
| "closingCo _ = {}"

definition staged :: "func \<Rightarrow> parser \<Rightarrow> outcome \<Rightarrow> bool" where
  "staged f p r \<longleftrightarrow> (snd r \<longrightarrow>
     ((nestedCo p \<in> leadingCo f \<and> nestedCo (fst r) \<in> leadingCo f \<and> skips p (fst r)) \<or>
      (nestedCo p \<notin> closingCo f \<and> nestedCo (fst r) \<notin> leadingCo f \<and> nestedCo (fst r) \<notin> closingCo f \<and> holds p (fst r)) \<or>
      (closes p (fst r) \<and> (nestedCo (fst r) \<in> closingCo f \<or> state (fst r) = StResult))) \<and>
     (nestedCo (fst r) = -1 \<longrightarrow> state (fst r) = StResult))"

lemmas outcome_defs = yield_def reject_def finish_def expect_def dropLast_def dropFirst_def
lemmas stage_defs = staged_def skips_def holds_def closes_def

lemma staged_basic [simp]:
  "staged f p (reject q)"
  "0 < tokenLength p \<Longrightarrow> staged f p (finish (dropLast p))"
  "0 < tokenLength p \<Longrightarrow> l \<in> closingCo f \<Longrightarrow> l \<noteq> -1 \<Longrightarrow> staged f p (yield (dropLast p) l)"
  "0 < tokenLength p \<Longrightarrow> nestedCo p \<in> leadingCo f \<Longrightarrow> l \<in> leadingCo f \<Longrightarrow> l \<noteq> -1 \<Longrightarrow> staged f p (yield (dropFirst p) l)"
  "nestedCo p \<notin> closingCo f \<Longrightarrow> l \<notin> leadingCo f \<Longrightarrow> l \<notin> closingCo f \<Longrightarrow> l \<noteq> -1 \<Longrightarrow> staged f p (yield p l)"
  "nestedCo p \<notin> closingCo f \<Longrightarrow> l \<notin> leadingCo f \<Longrightarrow> l \<notin> closingCo f \<Longrightarrow> l \<noteq> -1 \<Longrightarrow> staged f p (expect p b l)"
  by (simp_all add: stage_defs outcome_defs)

lemma staged_scratch [simp]:
  "staged f p (yield (p\<lparr>number := x, matchIndex := i\<rparr>) l) = staged f p (yield p l)"
  "staged f p (yield (p\<lparr>matchIndex := i\<rparr>) l) = staged f p (yield p l)"
  "staged f p (yield (p\<lparr>matchingHeader := h, matchingHeaderValid := v, matchIndex := i\<rparr>) l) = staged f p (yield p l)"
  "staged f p (yield (dropFirst (p\<lparr>number := x\<rparr>)) l) = staged f p (yield (dropFirst p) l)"
  "staged f p (finish ((dropLast p)\<lparr>connectionKeepAlive := k\<rparr>)) = staged f p (finish (dropLast p))"
  "staged f p (finish ((dropLast p)\<lparr>req_method := m\<rparr>)) = staged f p (finish (dropLast p))"
  "staged f (p\<lparr>number := x\<rparr>) r \<longleftrightarrow> staged f p r" "staged f (p\<lparr>matchIndex := i\<rparr>) r \<longleftrightarrow> staged f p r"
  "staged f (p\<lparr>matchIndex := i, matchingHeader := h, matchingHeaderValid := v\<rparr>) r \<longleftrightarrow> staged f p r"
  by (simp_all add: stage_defs outcome_defs)

lemma staged_if [simp]:
  "staged f p (if b then x else y) \<longleftrightarrow> (b \<longrightarrow> staged f p x) \<and> (\<not> b \<longrightarrow> staged f p y)"
  by simp

lemma staged_stay: "nestedCo p \<notin> leadingCo f \<Longrightarrow> nestedCo p \<notin> closingCo f \<Longrightarrow> nestedCo p \<noteq> -1 \<Longrightarrow> staged f p (p, True)"
  by (simp add: stage_defs)

lemma staged_methodEnd [simp]: "0 < tokenLength p \<Longrightarrow> staged f p (methodEnd p c m)"
  by (simp add: methodEnd_def)

lemma staged_pushDigit [simp]:
  "nestedCo p \<notin> closingCo f \<Longrightarrow> l \<notin> leadingCo f \<Longrightarrow> l \<notin> closingCo f \<Longrightarrow> l \<noteq> -1 \<Longrightarrow> staged f p (pushDigit p c l)"
  by (simp add: pushDigit_def)

lemma staged_parseMethod: "0 < tokenLength p \<Longrightarrow> nestedCo p \<noteq> -1 \<Longrightarrow> staged FMethod p (parseMethod p c)"
  by (simp add: parseMethod_def Let_def staged_stay)

lemma staged_parseUrl: "0 < tokenLength p \<Longrightarrow> nestedCo p \<noteq> -1 \<Longrightarrow> staged FUrl p (parseUrl p c)"
  by (simp add: parseUrl_def Let_def staged_stay) (simp add: stage_defs outcome_defs)

lemma staged_parseVersion: "0 < tokenLength p \<Longrightarrow> nestedCo p \<noteq> -1 \<Longrightarrow> staged (FVersion s) p (parseVersion s p c)"
  by (simp add: parseVersion_def Let_def staged_stay)

lemma staged_headerName: "0 < tokenLength p \<Longrightarrow> staged FHeaderName p (headerNameLoop p c)"
  by (simp add: headerNameLoop_def)

lemma staged_parseHeaderName: "0 < tokenLength p \<Longrightarrow> nestedCo p \<noteq> -1 \<Longrightarrow> staged FHeaderName p (parseHeaderName p c)"
  using staged_headerName [of "p\<lparr>matchIndex := 0, matchingHeader := map length SC_HTTP_TRACKED_HEADERS,
     matchingHeaderValid := map (\<lambda>_. False) SC_HTTP_TRACKED_HEADERS\<rparr>" c]
  by (simp add: parseHeaderName_def Let_def staged_stay staged_headerName)

lemma staged_parseHeaderValue: "0 < tokenLength p \<Longrightarrow> nestedCo p \<noteq> -1 \<Longrightarrow> staged FHeaderValue p (parseHeaderValue p c)"
  by (simp add: parseHeaderValue_def headerValueLoop_def Let_def staged_stay)

lemma staged_statusCode: "0 < tokenLength p \<Longrightarrow> staged FStatusCode p (statusCodeLoop p c)"
  by (simp add: statusCodeLoop_def)

lemma staged_parseStatusCode: "0 < tokenLength p \<Longrightarrow> nestedCo p \<noteq> -1 \<Longrightarrow> staged FStatusCode p (parseStatusCode p c)"
  using staged_statusCode [of "p\<lparr>number := 0\<rparr>" c]
  by (simp add: parseStatusCode_def Let_def staged_stay staged_statusCode)

lemma staged_numberValue:
  "0 < tokenLength p \<Longrightarrow> nestedCo p \<noteq> 702 \<Longrightarrow> staged FNumberValue p (numberValueLoop p c)"
  by (simp add: numberValueLoop_def)

lemma staged_parseNumberValue: "0 < tokenLength p \<Longrightarrow> nestedCo p \<noteq> -1 \<Longrightarrow> staged FNumberValue p (parseNumberValue p c)"
  using staged_numberValue [of "p\<lparr>number := 0\<rparr>" c]
  by (simp add: parseNumberValue_def Let_def staged_stay staged_numberValue)

lemma staged_connectionValue:
  "0 < tokenLength p \<Longrightarrow> nestedCo p \<noteq> 744 \<Longrightarrow> staged FConnectionValue p (connectionValueLoop p c)"
  by (simp add: connectionValueLoop_def)

lemma staged_parseConnectionValue:
  "0 < tokenLength p \<Longrightarrow> nestedCo p \<noteq> -1 \<Longrightarrow> staged FConnectionValue p (parseConnectionValue p c)"
  using staged_connectionValue [of "p\<lparr>matchIndex := 0\<rparr>" c]
  by (simp add: parseConnectionValue_def Let_def staged_stay staged_connectionValue)

lemma staged_parseHeadersEnd: "0 < tokenLength p \<Longrightarrow> nestedCo p \<noteq> -1 \<Longrightarrow> staged FHeadersEnd p (parseHeadersEnd p c)"
  by (simp add: parseHeadersEnd_def Let_def staged_stay)

lemma staged_call: "0 < tokenLength p \<Longrightarrow> nestedCo p \<noteq> -1 \<Longrightarrow> staged f p (call f p c)"
  by (cases f) (simp_all add: staged_parseMethod staged_parseUrl staged_parseVersion staged_parseHeaderName
      staged_parseHeaderValue staged_parseStatusCode staged_parseNumberValue staged_parseConnectionValue
      staged_parseHeadersEnd)

definition blindStep :: "(parser \<Rightarrow> outcome) \<Rightarrow> bool" where
  "blindStep f \<longleftrightarrow> (\<forall>p g sc cl co. f (retag g sc cl co p) = (retag g sc cl co (fst (f p)), snd (f p)))"

lemma blindStepD: "blindStep f \<Longrightarrow> f (retag g sc cl co p) = (retag g sc cl co (fst (f p)), snd (f p))"
  by (simp add: blindStep_def)

lemmas loop_defs = headerNameLoop_def headerValueLoop_def statusCodeLoop_def numberValueLoop_def
  connectionValueLoop_def pushDigit_def methodEnd_def trackAll_def

lemma blind_call: "blindStep (\<lambda>p. call f p c)"
  unfolding blindStep_def
proof (intro allI)
  fix p g sc cl co
  show "call f (retag g sc cl co p) c = (retag g sc cl co (fst (call f p c)), snd (call f p c))"
  proof (cases f)
    case FMethod
    then show ?thesis by (simp add: parseMethod_def Let_def outcome_defs loop_defs)
  next
    case FUrl
    then show ?thesis by (simp add: parseUrl_def Let_def outcome_defs loop_defs)
  next
    case (FVersion s)
    then show ?thesis by (simp add: parseVersion_def Let_def outcome_defs loop_defs)
  next
    case FHeaderName
    then show ?thesis by (simp add: parseHeaderName_def Let_def outcome_defs loop_defs)
  next
    case FHeaderValue
    then show ?thesis by (simp add: parseHeaderValue_def Let_def outcome_defs loop_defs)
  next
    case FStatusCode
    then show ?thesis by (simp add: parseStatusCode_def Let_def outcome_defs loop_defs)
  next
    case FNumberValue
    then show ?thesis by (simp add: parseNumberValue_def Let_def outcome_defs loop_defs)
  next
    case FConnectionValue
    then show ?thesis by (simp add: parseConnectionValue_def Let_def outcome_defs loop_defs)
  next
    case FHeadersEnd
    then show ?thesis by (simp add: parseHeadersEnd_def Let_def outcome_defs loop_defs)
  qed
qed

interpretation fn: staged_parser "call f" "leadingCo f" "closingCo f" for f
proof
  show "leadingCo f \<inter> closingCo f = {}"
    by (cases f) simp_all
  fix p c q
  assume "call f p c = (q, True)" "0 < tokenLength p" "nestedCo p \<noteq> -1"
  then show "(nestedCo p \<in> leadingCo f \<and> nestedCo q \<in> leadingCo f \<and> skips p q) \<or>
      (nestedCo p \<notin> closingCo f \<and> nestedCo q \<notin> leadingCo f \<and> nestedCo q \<notin> closingCo f \<and> holds p q) \<or>
      (closes p q \<and> (nestedCo q \<in> closingCo f \<or> state q = StResult))"
    using staged_call [of p f c] by (simp add: staged_def)
next
  fix p c q
  assume "call f p c = (q, True)" "0 < tokenLength p" "nestedCo p \<noteq> -1" "nestedCo q = -1"
  then show "state q = StResult"
    using staged_call [of p f c] by (simp add: staged_def)
next
  fix g sc cl co p c
  show "call f (retag g sc cl co p) c = (retag g sc cl co (fst (call f p c)), snd (call f p c))"
    by (rule blindStepD [OF blind_call])
qed

section \<open>Cutting a chunk in two\<close>

lemma processSlow_shape:
  assumes "processSlow f t p data = (p', Some (n, tx))" and "nestedCo p \<noteq> -1"
  shows "\<exists>q. runFunc (call f) (p\<lparr>token := t, state := StParsing\<rparr>) 0 data = (q, n, True) \<and>
    p' = q\<lparr>globalLength := globalLength p + n, nestedCo := (if state q = StResult then 0 else nestedCo q)\<rparr> \<and>
    tx = keptText (call f) (p\<lparr>token := t, state := StParsing\<rparr>) data"
proof -
  let ?p = "p\<lparr>token := t, state := StParsing\<rparr>"
  obtain q m b where run: "runFunc (call f) ?p 0 data = (q, m, b)"
    by (metis prod_cases3)
  with assms have b: "b" and del: "deliver p data q m = (p', Some (n, tx))"
    by (auto simp: processSlow_def split: if_splits)
  from run b have run: "runFunc (call f) ?p 0 data = (q, m, True)" by simp
  have "nestedCo ?p \<noteq> -1"
    using assms(2) by simp
  from fn.run_kept [OF run this] fn.deliver_ok [OF run, of p] del fn.run_keeps [OF run] run show ?thesis
    by auto
qed

lemma processSlow_success:
  assumes "runFunc (call f) (p\<lparr>token := t, state := StParsing\<rparr>) 0 data = (q, n, True)" and "nestedCo p \<noteq> -1"
  shows "processSlow f t p data =
    (q\<lparr>globalLength := globalLength p + n, nestedCo := (if state q = StResult then 0 else nestedCo q)\<rparr>,
     Some (n, keptText (call f) (p\<lparr>token := t, state := StParsing\<rparr>) data))"
proof -
  obtain u off len where "deliver p data q n = (u, Some (n, take len (drop off data)))"
    using fn.deliver_ok [OF assms(1), of p] by auto
  then have "processSlow f t p data = (u, Some (n, take len (drop off data)))"
    using assms(1) by (simp add: processSlow_def)
  with processSlow_shape [OF this assms(2)] assms(1) show ?thesis
    by auto
qed

lemma processSlow_failure:
  "snd (processSlow f t p data) = None \<longleftrightarrow>
     \<not> snd (snd (runFunc (call f) (p\<lparr>token := t, state := StParsing\<rparr>) 0 data))"
proof -
  obtain q n b where run: "runFunc (call f) (p\<lparr>token := t, state := StParsing\<rparr>) 0 data = (q, n, b)"
    by (metis prod_cases3)
  show ?thesis
  proof (cases b)
    case True
    then show ?thesis
      using run fn.deliver_ok [of f "p\<lparr>token := t, state := StParsing\<rparr>" data q n p]
      by (auto simp: processSlow_def)
  next
    case False
    then show ?thesis
      using run by (simp add: processSlow_def)
  qed
qed

text \<open>A kept text does not depend on the fields of the upper levels either.\<close>

lemma keptText_blind: "keptText (call f) (retag g sc cl co p) cs = keptText (call f) p cs"
proof (induction cs arbitrary: p)
  case (Cons c cs)
  show ?case
    using Cons.IH by (simp add: fn.blind split_beta)
qed simp

text \<open>
  One token over two chunks. \<open>sc\<close>, \<open>cl\<close> and \<open>co\<close> are what \<open>parse\<close> stores in between.
\<close>

definition joined :: "nat \<Rightarrow> char list \<Rightarrow> parser \<times> (nat \<times> char list) option \<Rightarrow>
    parser \<times> (nat \<times> char list) option \<Rightarrow> bool" where
  "joined n1 t1 second whole \<longleftrightarrow> (case snd second of
       None \<Rightarrow> snd whole = None
     | Some (n2, t2) \<Rightarrow> whole = (fst second, Some (n1 + n2, t1 @ t2)))"

lemma processSlow_join:
  assumes first: "processSlow f t p d1 = (p1, Some (n1, t1))" and "nestedCo p \<noteq> -1" and "state p1 = StParsing"
  shows "case processSlow f t (p1\<lparr>statusCode := sc, contentLength := cl, topCo := co\<rparr>) d2 of
      (p2, None) \<Rightarrow> snd (processSlow f t p (d1 @ d2)) = None
    | (p2, Some (n2, t2)) \<Rightarrow> (\<exists>q. processSlow f t p (d1 @ d2) = (q, Some (n1 + n2, t1 @ t2)) \<and>
        p2 = q\<lparr>statusCode := sc, contentLength := cl, topCo := co\<rparr>)"
proof -
  let ?p = "p\<lparr>token := t, state := StParsing\<rparr>"
  obtain q where q: "runFunc (call f) ?p 0 d1 = (q, n1, True)" "t1 = keptText (call f) ?p d1"
    "p1 = q\<lparr>globalLength := globalLength p + n1, nestedCo := (if state q = StResult then 0 else nestedCo q)\<rparr>"
    using processSlow_shape [OF first assms(2)] by blast
  have sq: "state q = StParsing" "state q \<noteq> StResult" and "token q = t"
    using q(3) assms(3) fn.run_keeps [OF q(1)] by simp_all
  have live: "nestedCo q \<noteq> -1"
    using fn.run_live [OF q(1)] assms(2) sq by simp
  let ?p1 = "p1\<lparr>statusCode := sc, contentLength := cl, topCo := co\<rparr>"
  have p1: "?p1\<lparr>token := t, state := StParsing\<rparr> = retag (globalLength p + n1) sc cl co q"
    using q(3) sq \<open>token q = t\<close> by (cases q) (simp add: retag_def)
  obtain r k b where r: "runFunc (call f) q 0 d2 = (r, k, b)"
    by (metis prod_cases3)
  have second: "runFunc (call f) (?p1\<lparr>token := t, state := StParsing\<rparr>) 0 d2 =
      (retag (globalLength p + n1) sc cl co r, k, b)"
    unfolding p1 using fn.run_blind [of f] r by simp
  have whole: "runFunc (call f) ?p 0 (d1 @ d2) = (r, k + n1, b)"
    using runFunc_split [of ?p "call f" d1 q n1 d2] q(1) sq r by simp
  have kept: "keptText (call f) ?p (d1 @ d2) =
      t1 @ keptText (call f) (?p1\<lparr>token := t, state := StParsing\<rparr>) d2"
    unfolding p1 keptText_blind using keptText_append [of "call f" ?p d1 d2] q(1,2) sq by simp
  show ?thesis
  proof (cases b)
    case True
    have second': "runFunc (call f) (?p1\<lparr>token := t, state := StParsing\<rparr>) 0 d2 =
        (retag (globalLength p + n1) sc cl co r, k, True)"
      and whole': "runFunc (call f) ?p 0 (d1 @ d2) = (r, k + n1, True)"
      using second whole True by simp_all
    have gl: "globalLength ?p1 = globalLength p + n1" and nc: "nestedCo ?p1 \<noteq> -1"
      using q(3) live by simp_all
    show ?thesis
      unfolding processSlow_success [OF second' nc]
        processSlow_success [OF whole' assms(2)] gl kept
      by (cases r) (simp add: retag_def add.assoc add.commute)
  next
    case False
    then have "snd (processSlow f t ?p1 d2) = None" "snd (processSlow f t p (d1 @ d2)) = None"
      using processSlow_failure [of f t ?p1 d2] processSlow_failure [of f t p "d1 @ d2"] second whole by simp_all
    then show ?thesis
      by (cases "processSlow f t ?p1 d2") simp
  qed
qed

lemma run_keeps_stored:
  assumes "runFunc (call f) p n cs = (q, m, b)"
  shows "statusCode q = statusCode p \<and> contentLength q = contentLength p \<and> topCo q = topCo p"
proof -
  have "retag (globalLength p) (statusCode p) (contentLength p) (topCo p) p = p"
    by (simp add: retag_def)
  then have "(q, m, b) = (retag (globalLength p) (statusCode p) (contentLength p) (topCo p) q, m, b)"
    using fn.run_blind [of f "globalLength p" "statusCode p" "contentLength p" "topCo p" p n cs] assms by simp
  then have eq: "q = retag (globalLength p) (statusCode p) (contentLength p) (topCo p) q"
    by simp
  show ?thesis
    using arg_cong [OF eq, of statusCode] arg_cong [OF eq, of contentLength] arg_cong [OF eq, of topCo]
    by (simp add: retag_def)
qed

text \<open>\<open>splits F\<close>: one entry of \<open>parse\<close>, as a function of the chunk, may be cut in two.\<close>

definition splits :: "(char list \<Rightarrow> parser \<times> (nat \<times> char list) option) \<Rightarrow> bool" where
  "splits F \<longleftrightarrow> (\<forall>d1 d2 p1 n1 t1. d1 \<noteq> [] \<longrightarrow> d2 \<noteq> [] \<longrightarrow> F d1 = (p1, Some (n1, t1)) \<longrightarrow>
     state p1 = StParsing \<longrightarrow> token p1 \<noteq> TkHeaderName \<longrightarrow>
     n1 = length d1 \<and> joined n1 t1 (parse p1 d2) (F (d1 @ d2)))"

lemma splits_if: "splits F \<Longrightarrow> splits G \<Longrightarrow> splits (\<lambda>d. if b then F d else G d)"
  by (cases b) simp_all

lemma splits_done: "state q \<noteq> StParsing \<Longrightarrow> splits (\<lambda>d. (q, r))"
  by (simp add: splits_def)

lemma parse_again:
  assumes "topCo p \<in> phases" and "state p = StParsing" and "data \<noteq> []"
  shows "parse p data = runPhase (topCo p) p data"
  using assms by (auto simp: parse_def resume_phases)

lemma processSlow_stored:
  assumes "processSlow f t p data = (p', Some r)" and "nestedCo p \<noteq> -1"
  shows "statusCode p' = statusCode p \<and> contentLength p' = contentLength p \<and> topCo p' = topCo p \<and>
    token p' = t \<and> nestedCo p' \<noteq> -1 \<and> (state p' = StParsing \<longrightarrow> fst r = length data)"
proof -
  obtain n tx where r: "r = (n, tx)" by fastforce
  obtain q where q: "runFunc (call f) (p\<lparr>token := t, state := StParsing\<rparr>) 0 data = (q, n, True)"
    "p' = q\<lparr>globalLength := globalLength p + n, nestedCo := (if state q = StResult then 0 else nestedCo q)\<rparr>"
    using processSlow_shape [of f t p data p' n tx] assms r by auto
  show ?thesis
    using q(2) r run_keeps_stored [OF q(1)] fn.run_keeps [OF q(1)] fn.run_live [OF q(1)] assms(2)
      fn.run_exhausts [OF q(1)] by simp
qed

lemma splits_runPhase:
  assumes "l \<in> phases" and "nestedCo q \<noteq> -1"
  shows "splits (runPhase l q)"
  unfolding splits_def
proof (intro allI impI)
  fix d1 d2 p1 n1 t1
  assume ne: "d1 \<noteq> []" "d2 \<noteq> ([] :: char list)" and run: "runPhase l q d1 = (p1, Some (n1, t1))"
    and parsing: "state p1 = StParsing" and name: "token p1 \<noteq> TkHeaderName"
  obtain f t where ft: "phaseFunc l = (f, t)" by fastforce
  obtain u where u: "process f t q d1 = (u, Some (n1, t1))" "p1 = (phaseStore l u)\<lparr>topCo := l\<rparr>"
    using run ft by (auto simp: runPhase_def split: prod.splits option.splits)
  have "token u = t"
    using process_ok [OF u(1)] by simp
  then have "f \<noteq> FHeaderName"
    using name u(2) ft by (auto simp: phaseFunc_def split: if_splits)
  then have slow: "process f t p d = processSlow f t p d" for p d
    by (rule process_not_fast)
  let ?sc = "statusCode (phaseStore l u)" and ?cl = "contentLength (phaseStore l u)"
  have p1: "p1 = u\<lparr>statusCode := ?sc, contentLength := ?cl, topCo := l\<rparr>"
    using u(2) by (cases u) (simp add: phaseStore_def)
  have u': "processSlow f t q d1 = (u, Some (n1, t1))" "state u = StParsing"
    using u slow parsing by simp_all
  have n1: "n1 = length d1"
    using processSlow_stored [OF u'(1) assms(2)] u'(2) by simp
  have second: "parse p1 d2 = runPhase l p1 d2"
    using parse_again [of p1 d2] p1 assms(1) parsing ne(2) by simp
  note join = processSlow_join [OF u'(1) assms(2) u'(2), where sc = ?sc and cl = ?cl and co = l and ?d2.0 = d2]
  show "n1 = length d1 \<and> joined n1 t1 (parse p1 d2) (runPhase l q (d1 @ d2))"
  proof (cases "processSlow f t p1 d2")
    case (Pair p2 o2)
    show ?thesis
    proof (cases o2)
      case None
      then have "snd (processSlow f t q (d1 @ d2)) = None"
        using join Pair p1 by simp
      then show ?thesis
        using n1 second Pair None ft by (simp add: joined_def runPhase_def slow split_beta)
    next
      case (Some r2)
      obtain n2 t2 where r2: "r2 = (n2, t2)" by fastforce
      obtain w where w: "processSlow f t q (d1 @ d2) = (w, Some (n1 + n2, t1 @ t2))"
        "p2 = w\<lparr>statusCode := ?sc, contentLength := ?cl, topCo := l\<rparr>"
        using join Pair Some r2 p1 by auto
      have keep: "statusCode w = statusCode q" "contentLength w = contentLength q"
        "statusCode u = statusCode q" "contentLength u = contentLength q"
        using processSlow_stored [OF w(1) assms(2)] processSlow_stored [OF u'(1) assms(2)] by simp_all
      have "(phaseStore l p2)\<lparr>topCo := l\<rparr> = (phaseStore l w)\<lparr>topCo := l\<rparr>"
        using w(2) keep by (cases w) (simp add: phaseStore_def)
      then show ?thesis
        using n1 second Pair Some r2 w(1) ft by (simp add: joined_def runPhase_def slow)
    qed
  qed
qed

lemma splits_bodyLoop:
  assumes "tokenLength q \<le> unat (contentLength q)"
  shows "splits (bodyLoop q)"
  unfolding splits_def
proof (intro allI impI)
  fix d1 d2 p1 n1 t1
  assume ne: "d1 \<noteq> []" "d2 \<noteq> ([] :: char list)" and run: "bodyLoop q d1 = (p1, Some (n1, t1))" and parsing: "state p1 = StParsing"
  have inside: "tokenLength q + length d1 < unat (contentLength q)" and
    p1: "p1 = q\<lparr>tokenLength := tokenLength q + length d1, topCo := 230\<rparr>" "n1 = length d1" "t1 = d1"
    using run parsing assms by (auto simp: bodyLoop_def Let_def split: option.splits if_splits)
  have "parse p1 d2 = bodyLoop p1 d2"
    using p1 parsing ne(2) by (simp add: parse_def resume_def)
  then show "n1 = length d1 \<and> joined n1 t1 (parse p1 d2) (bodyLoop q (d1 @ d2))"
    using inside p1(2,3) unfolding p1(1)
    by (cases q) (auto simp: joined_def bodyLoop_def Let_def)
qed

lemma splits_enterPhase: "l \<in> phases \<Longrightarrow> nestedCo p \<noteq> -1 \<Longrightarrow> splits (enterPhase l p)"
  using splits_runPhase [of l "if l = 108 then beginToken p else (beginToken p)\<lparr>matchIndex := 0\<rparr>"]
  by (simp add: enterPhase_def [abs_def])

lemma splits_hd:
  assumes "splits F" and "splits G"
  shows "splits (\<lambda>d. if hd d = c then F d else G d)"
  unfolding splits_def
proof (intro allI impI)
  fix d1 d2 p1 n1 t1
  assume *: "d1 \<noteq> []" "d2 \<noteq> ([] :: char list)" "(if hd d1 = c then F d1 else G d1) = (p1, Some (n1, t1))"
    "state p1 = StParsing" "token p1 \<noteq> TkHeaderName"
  have "hd (d1 @ d2) = hd d1"
    using *(1) by simp
  then show "n1 = length d1 \<and> joined n1 t1 (parse p1 d2) (if hd (d1 @ d2) = c then F (d1 @ d2) else G (d1 @ d2))"
    using * assms unfolding splits_def by (cases "hd d1 = c") simp_all
qed

lemma splits_headersLoop: "nestedCo p \<noteq> -1 \<Longrightarrow> splits (headersLoop p)"
  unfolding headersLoop_def [abs_def] by (intro splits_hd splits_enterPhase) (simp_all add: phases_def)

lemma splits_headerDispatch: "nestedCo p \<noteq> -1 \<Longrightarrow> splits (headerDispatch p)"
  unfolding headerDispatch_def [abs_def] by (intro splits_if splits_enterPhase) (simp_all add: phases_def)

lemma splits_enterBody: "splits (enterBody p)"
  unfolding enterBody_def [abs_def] by (intro splits_bodyLoop) simp

lemma splits_afterPhase:
  assumes "nestedCo p \<noteq> -1" and "topCo p = 193 \<or> topCo p \<notin> phases \<union> {0} \<Longrightarrow> state p \<noteq> StParsing"
  shows "splits (afterPhase p)"
proof -
  note phase = splits_enterPhase [OF _ assms(1)]
  note rest = splits_headersLoop [OF assms(1)] splits_headerDispatch [OF assms(1)] splits_enterBody
  have final: "topCo p \<notin> phases \<union> {0} \<Longrightarrow> splits (\<lambda>d. (p, Some (0, [])))"
    using assms(2) by (intro splits_done) simp
  have request: "topCo p = 193 \<Longrightarrow> splits (\<lambda>d. if ptype p = Request then (p\<lparr>topCo := -1\<rparr>, Some (0, [])) else enterBody p d)"
    using assms(2) by (intro splits_if splits_done splits_enterBody) simp
  have first: "splits (\<lambda>d. if ptype p = Request then enterPhase 108 p d else enterPhase 147 p d)"
    by (intro splits_if phase) (simp_all add: phases_def)
  show ?thesis
  proof (cases "topCo p \<in> phases \<union> {0}")
    case True
    then show ?thesis
      unfolding afterPhase_def [abs_def] Let_def phases_def
      by (elim UnE insertE emptyE) (simp_all add: phase rest request first phases_def)
  next
    case False
    then have "afterPhase p = (\<lambda>d. (p, Some (0, [])))"
      by (simp add: afterPhase_def [abs_def] phases_def)
    then show ?thesis
      using final False by simp
  qed
qed

definition lives :: "(char list \<Rightarrow> parser \<times> (nat \<times> char list) option) \<Rightarrow> bool" where
  "lives F \<longleftrightarrow> (\<forall>d p' r. F d = (p', Some r) \<longrightarrow> nestedCo p' \<noteq> -1)"

lemma lives_process:
  assumes "nestedCo p \<noteq> -1" and "process f t p d = (p', Some r)"
  shows "nestedCo p' \<noteq> -1"
  using process_cases [of f t p d]
proof
  assume "process f t p d = processSlow f t p d"
  then show ?thesis
    using assms processSlow_stored [of f t p d p' r] by simp
next
  assume "f = FHeaderName \<and> nestedCo p = 0 \<and> tokenLength p = 0 \<and>
    (\<exists>r m. fastHeaderName (p\<lparr>token := t, state := StParsing\<rparr>) d = Some (r, m) \<and>
       process f t p d = deliver p d r m)"
  then obtain q m where fast: "fastHeaderName (p\<lparr>token := t, state := StParsing\<rparr>) d = Some (q, m)"
    and del: "process f t p d = deliver p d q m" and "tokenLength p = 0"
    by blast
  then show ?thesis
    using fastHeaderName_deliver [OF fast, of p] assms(2) by auto
qed

lemma lives_runPhase:
  assumes "nestedCo p \<noteq> -1"
  shows "lives (runPhase l p)"
  unfolding lives_def
proof (intro allI impI)
  fix d p' r
  assume run: "runPhase l p d = (p', Some r)"
  obtain f t where ft: "phaseFunc l = (f, t)" by fastforce
  with run obtain q where "process f t p d = (q, Some r)" "p' = (phaseStore l q)\<lparr>topCo := l\<rparr>"
    by (auto simp: runPhase_def split: prod.splits option.splits)
  then show "nestedCo p' \<noteq> -1"
    using lives_process [OF assms] by simp
qed

lemma lives_enterPhase: "nestedCo p \<noteq> -1 \<Longrightarrow> lives (enterPhase l p)"
  using lives_runPhase [of "if l = 108 then beginToken p else (beginToken p)\<lparr>matchIndex := 0\<rparr>"]
  by (simp add: enterPhase_def [abs_def])

lemma lives_if: "lives F \<Longrightarrow> lives G \<Longrightarrow> lives (\<lambda>d. if P d then F d else G d)"
  by (simp add: lives_def)

lemma lives_done: "nestedCo p \<noteq> -1 \<Longrightarrow> lives (\<lambda>d. (p, r))"
  by (simp add: lives_def)

lemma lives_bodyLoop: "nestedCo p \<noteq> -1 \<Longrightarrow> lives (bodyLoop p)"
  by (auto simp: lives_def bodyLoop_def Let_def split: option.splits if_splits)

lemma lives_parse:
  assumes "nestedCo p \<noteq> -1"
  shows "lives (parse p)"
proof -
  have after: "lives (afterPhase p)"
    unfolding afterPhase_def [abs_def] Let_def headersLoop_def [abs_def] headerDispatch_def [abs_def]
      enterBody_def [abs_def]
    using assms by (intro lives_if lives_enterPhase lives_bodyLoop lives_done) simp_all
  show ?thesis
    unfolding parse_def [abs_def] resume_def [abs_def]
    using assms by (intro lives_if lives_runPhase lives_bodyLoop lives_done after) simp_all
qed

lemma reachable_live: "reachable ty p \<Longrightarrow> nestedCo p \<noteq> -1"
proof (induction rule: reachable.induct)
  case start
  show ?case by (simp add: init_parser_def)
next
  case (call p data p' r)
  then show ?case
    using lives_parse [of p, unfolded lives_def] by blast
qed

lemma splits_parse:
  assumes inv: "parser_inv ty p" and live: "nestedCo p \<noteq> -1"
  shows "splits (parse p)"
proof -
  have body: "topCo p = 230 \<Longrightarrow> splits (bodyLoop p)"
    using inv by (intro splits_bodyLoop) (simp add: parser_inv_def)
  have phase: "topCo p \<in> phases \<Longrightarrow> splits (runPhase (topCo p) p)"
    using live by (intro splits_runPhase)
  have after: "\<not> (topCo p \<in> phases \<and> state p = StParsing) \<Longrightarrow> topCo p \<noteq> 230 \<Longrightarrow> splits (afterPhase p)"
    using inv live by (intro splits_afterPhase) (auto simp: parser_inv_def phases_def)
  have resume: "splits (resume p)"
    unfolding resume_phases [abs_def] using body phase after
    by (cases "topCo p = 230"; cases "topCo p \<in> phases"; cases "state p = StParsing") simp_all
  show ?thesis
    unfolding splits_def
  proof (intro allI impI)
    fix d1 d2 p1 n1 t1
    assume ne: "d1 \<noteq> []" "d2 \<noteq> ([] :: char list)" and run: "parse p d1 = (p1, Some (n1, t1))"
      and parsing: "state p1 = StParsing" and name: "token p1 \<noteq> TkHeaderName"
    have "parse p d1 = resume p d1 \<and> parse p (d1 @ d2) = resume p (d1 @ d2)"
      using run parsing ne by (auto simp: parse_def split: if_splits)
    then show "n1 = length d1 \<and> joined n1 t1 (parse p1 d2) (parse p (d1 @ d2))"
      using resume ne run parsing name unfolding splits_def by metis
  qed
qed

text \<open>
  C13: chunking does not matter. When a call has consumed its chunk in the middle of a token,
  handing the next chunk to the next call is the same as one call on the two chunks joined:
  refused or accepted together, the same bytes read in total, the reported texts concatenate to
  the text of the whole, and the parser left behind is the same. The one exception is a header
  name, whose recognition differs (see \<open>headerName_recognition\<close>).
\<close>

theorem parse_chunks:
  assumes "reachable ty p" and "parse p d1 = (p1, Some (n1, t1))" and "state p1 = StParsing"
    and "token p1 \<noteq> TkHeaderName" and "d1 \<noteq> []" and "d2 \<noteq> []"
  shows "n1 = length d1 \<and> (case parse p1 d2 of
      (p2, None) \<Rightarrow> snd (parse p (d1 @ d2)) = None
    | (p2, Some (n2, t2)) \<Rightarrow> parse p (d1 @ d2) = (p2, Some (n1 + n2, t1 @ t2)))"
proof -
  have "n1 = length d1 \<and> joined n1 t1 (parse p1 d2) (parse p (d1 @ d2))"
    using splits_parse [OF reachable_inv [OF assms(1)] reachable_live [OF assms(1)]] assms(2-6)
    unfolding splits_def by blast
  then show ?thesis
    by (cases "parse p1 d2") (auto simp: joined_def split: option.splits)
qed

theorem parse_chunks_witness:
  "snd (parse (init_parser Response) (''HTT'' @ ''P/1.1 20'')) = Some (9, ''HTTP/1.1'')"
proof -
  let ?p1 = "fst (parse (init_parser Response) ''HTT'')"
  have eq: "parse (init_parser Response) ''HTT'' = (?p1, Some (3, ''HTT''))"
    by code_simp
  have st: "state ?p1 = StParsing" and tk: "token ?p1 \<noteq> TkHeaderName"
    by code_simp+
  obtain p2 where second: "parse ?p1 ''P/1.1 20'' = (p2, Some (6, ''P/1.1''))"
  proof
    show "parse ?p1 ''P/1.1 20'' = (fst (parse ?p1 ''P/1.1 20''), Some (6, ''P/1.1''))"
      by code_simp
  qed
  have "''HTT'' \<noteq> []" "''P/1.1 20'' \<noteq> []"
    by simp_all
  note parse_chunks [OF reachable.start eq st tk this, unfolded second prod.case option.case]
  then have "parse (init_parser Response) (''HTT'' @ ''P/1.1 20'') = (p2, Some (3 + 6, ''HTT'' @ ''P/1.1''))"
    by blast
  then show ?thesis
    by simp
qed

end
