(* ===== verification/HttpText.thy ===== *)
theory HttpText
  imports Common
begin

text \<open>
  \<open>Libraries/Http/Internal/HttpStringIterator.h\<close>: the cursor over the bytes of a string view
  that the URL parser is written with. The three pointers \<open>start\<close>, \<open>it\<close> and \<open>end\<close> are the
  text and the index of \<open>it\<close> in it; \<open>end\<close> is the length. All views of the Http library carry
  bytes of an ASCII compatible encoding, which the operations copy and never read, so the
  encoding has no component here.
\<close>

record iter =
  buf :: "char list"
  it :: nat

definition iter_of :: "char list \<Rightarrow> iter" where
  "iter_of s = \<lparr>buf = s, it = 0\<rparr>"

definition iter_ok :: "iter \<Rightarrow> bool" where
  "iter_ok i \<longleftrightarrow> it i \<le> length (buf i)"

text \<open>\<open>tolower\<close> of the C locale.\<close>

definition tolower :: "char \<Rightarrow> char" where
  "tolower c = (if 65 \<le> code c \<and> code c \<le> 90 then char_of (code c + 32) else c)"

section \<open>Operations\<close>

text \<open>An operation returns the moved iterator and the boolean of the source.\<close>

definition advanceUntilMatches :: "char \<Rightarrow> iter \<Rightarrow> iter \<times> bool" where
  "advanceUntilMatches c i =
     (if it i = length (buf i) then (i, False)
      else case memchr c (drop (it i) (buf i)) of
             Some k \<Rightarrow> (i\<lparr>it := it i + k\<rparr>, True)
           | None \<Rightarrow> (i\<lparr>it := length (buf i)\<rparr>, False))"

definition advanceIfMatches :: "char \<Rightarrow> iter \<Rightarrow> iter \<times> bool" where
  "advanceIfMatches c i =
     (if it i = length (buf i) then (i, False)
      else if buf i ! it i = c then (i\<lparr>it := it i + 1\<rparr>, True) else (i, False))"

definition iter_match :: "char \<Rightarrow> iter \<Rightarrow> bool" where
  "iter_match c i = (if it i \<noteq> length (buf i) then buf i ! it i = c else False)"

definition isAtEnd :: "iter \<Rightarrow> bool" where
  "isAtEnd i \<longleftrightarrow> it i = length (buf i)"

text \<open>The scanning loops, on what is left of the text: how far to move, and the match if any.\<close>

fun findAny :: "char list \<Rightarrow> char list \<Rightarrow> nat \<times> char option" where
  "findAny anyOf [] = (0, None)"
| "findAny anyOf (c # cs) =
     (if c \<in> set anyOf then (0, Some c) else (case findAny anyOf cs of (n, m) \<Rightarrow> (n + 1, m)))"

definition advanceUntilMatchesAny :: "char list \<Rightarrow> iter \<Rightarrow> iter \<times> char option" where
  "advanceUntilMatchesAny anyOf i =
     (case findAny anyOf (drop (it i) (buf i)) of (n, m) \<Rightarrow> (i\<lparr>it := it i + n\<rparr>, m))"

definition stepForward :: "iter \<Rightarrow> iter \<times> bool" where
  "stepForward i = (if it i \<noteq> length (buf i) then (i\<lparr>it := it i + 1\<rparr>, True) else (i, False))"

definition setToEnd :: "iter \<Rightarrow> iter" where
  "setToEnd i = i\<lparr>it := length (buf i)\<rparr>"

text \<open>The loop of \<open>reverseAdvanceUntilMatches\<close> once it stands on index \<open>k\<close>.\<close>

fun reverseScan :: "char \<Rightarrow> char list \<Rightarrow> nat \<Rightarrow> nat \<times> bool" where
  "reverseScan c s 0 = (if s ! 0 = c then (0, True) else (0, False))"
| "reverseScan c s (Suc k) = (if s ! Suc k = c then (Suc k, True) else reverseScan c s k)"

definition reverseAdvanceUntilMatches :: "char \<Rightarrow> iter \<Rightarrow> iter \<times> bool" where
  "reverseAdvanceUntilMatches c i =
     (if it i = 0 then (i, False)
      else case reverseScan c (buf i) (it i - 1) of (k, found) \<Rightarrow> (i\<lparr>it := k\<rparr>, found))"

definition advanceRead :: "iter \<Rightarrow> iter \<times> char option" where
  "advanceRead i =
     (if it i \<noteq> length (buf i) then (i\<lparr>it := it i + 1\<rparr>, Some (buf i ! it i)) else (i, None))"

text \<open>Views between iterators of the same text.\<close>

definition fromIterators :: "iter \<Rightarrow> iter \<Rightarrow> char list" where
  "fromIterators i1 i2 = (if it i2 < it i1 then [] else take (it i2 - it i1) (drop (it i1) (buf i1)))"

definition fromIteratorFromStart :: "iter \<Rightarrow> char list" where
  "fromIteratorFromStart i = take (it i) (buf i)"

definition fromIteratorUntilEnd :: "iter \<Rightarrow> char list" where
  "fromIteratorUntilEnd i = drop (it i) (buf i)"

text \<open>The comparison loops read both texts in step and stop at the end of the shorter one.\<close>

fun sameLowered :: "char list \<Rightarrow> char list \<Rightarrow> bool" where
  "sameLowered (a # as) (b # bs) = (if tolower a \<noteq> tolower b then False else sameLowered as bs)"
| "sameLowered _ _ = True"

definition equalsIgnoreCase :: "char list \<Rightarrow> char list \<Rightarrow> bool" where
  "equalsIgnoreCase a b = (if length a \<noteq> length b then False else sameLowered a b)"

definition startsWith :: "char list \<Rightarrow> char list \<Rightarrow> bool" where
  "startsWith s prefix = (if length s < length prefix then False else take (length prefix) s = prefix)"

definition startsWithIgnoreCase :: "char list \<Rightarrow> char list \<Rightarrow> bool" where
  "startsWithIgnoreCase s prefix = (if length s < length prefix then False else sameLowered s prefix)"

definition endsWith :: "char list \<Rightarrow> char list \<Rightarrow> bool" where
  "endsWith s suffix =
     (if length s < length suffix then False else drop (length s - length suffix) s = suffix)"

definition containsCodePoint :: "char list \<Rightarrow> char \<Rightarrow> bool" where
  "containsCodePoint s c = (memchr c s \<noteq> None)"

definition text_sliceStart :: "char list \<Rightarrow> nat \<Rightarrow> char list" where
  "text_sliceStart s n = (if length s < n then [] else drop n s)"

text \<open>The search loop of \<open>advanceUntilMatchesIgnoreCase\<close> on what is left of the text.\<close>

fun findIgnoreCase :: "char list \<Rightarrow> char list \<Rightarrow> nat option" where
  "findIgnoreCase needle s =
     (if length s < length needle then None
      else if startsWithIgnoreCase (take (length needle) s) needle then Some 0
      else case s of [] \<Rightarrow> None | _ # t \<Rightarrow> map_option Suc (findIgnoreCase needle t))"

declare findIgnoreCase.simps [simp del]

definition advanceUntilMatchesIgnoreCase :: "char list \<Rightarrow> iter \<Rightarrow> iter \<times> bool" where
  "advanceUntilMatchesIgnoreCase needle i =
     (case findIgnoreCase needle (drop (it i) (buf i)) of
        Some k \<Rightarrow> (i\<lparr>it := it i + k\<rparr>, True)
      | None \<Rightarrow> (i\<lparr>it := length (buf i)\<rparr>, False))"

text \<open>
  \<open>strtol\<close> with base 10 on a text of at most eleven bytes, where \<open>long\<close> cannot overflow: leading
  white space, an optional sign, then the longest run of digits. \<open>None\<close> when there is no digit
  (\<open>endText\<close> is then the start of the text).
\<close>

definition isspace :: "char \<Rightarrow> bool" where
  "isspace c \<longleftrightarrow> c = CHR '' '' \<or> (9 \<le> code c \<and> code c \<le> 13)"

definition isdigit :: "char \<Rightarrow> bool" where
  "isdigit c \<longleftrightarrow> 48 \<le> code c \<and> code c \<le> 57"

definition digits_value :: "char list \<Rightarrow> int" where
  "digits_value ds = foldl (\<lambda>a c. a * 10 + (int (code c) - 48)) 0 ds"

definition strtol10 :: "char list \<Rightarrow> int option" where
  "strtol10 s =
     (let s1 = dropWhile isspace s;
          neg = (s1 \<noteq> [] \<and> hd s1 = CHR ''-'');
          s2 = (if s1 \<noteq> [] \<and> (hd s1 = CHR ''-'' \<or> hd s1 = CHR ''+'') then tl s1 else s1);
          ds = takeWhile isdigit s2 in
      if ds = [] then None else Some (if neg then - digits_value ds else digits_value ds))"

text \<open>\<open>parseInt32\<close> of a view that is not null terminated; the 12 byte buffer holds a copy.\<close>

definition parseInt32 :: "char list \<Rightarrow> int option" where
  "parseInt32 other =
     (if length other \<ge> 12 then None
      else case strtol10 (takeWhile (\<lambda>c. c \<noteq> CHR 0x00) other) of
             None \<Rightarrow> None
           | Some parsed \<Rightarrow> if - (2 ^ 31) \<le> parsed \<and> parsed \<le> 2 ^ 31 - 1 then Some parsed else None)"

definition parseNameExtension :: "char list \<Rightarrow> char list \<times> char list \<times> bool" where
  "parseNameExtension input =
     (let start = iter_of input;
          (i, found) = reverseAdvanceUntilMatches CHR ''.'' (setToEnd start);
          name = (if found then fromIterators start i else input);
          extension = (if found then fromIteratorUntilEnd (fst (stepForward i)) else [])
      in (name, extension, \<not> (name = [] \<and> extension = [])))"

section \<open>What they do\<close>

lemma iter_of_simps [simp]: "buf (iter_of s) = s" "it (iter_of s) = 0"
  by (simp_all add: iter_of_def)

text \<open>An iterator that has read \<open>pre\<close> and has \<open>post\<close> left.\<close>

definition at :: "char list \<Rightarrow> char list \<Rightarrow> iter" where
  "at pre post = \<lparr>buf = pre @ post, it = length pre\<rparr>"

lemma at_simps [simp]: "buf (at pre post) = pre @ post" "it (at pre post) = length pre"
  by (simp_all add: at_def)

lemma at_move: "(at pre (xs @ post))\<lparr>it := length pre + length xs\<rparr> = at (pre @ xs) post"
  by (simp add: at_def)

lemma iter_of_at: "iter_of s = at [] s"
  by (simp add: iter_of_def at_def)

lemma iter_ok_at: "iter_ok i \<Longrightarrow> i = at (take (it i) (buf i)) (drop (it i) (buf i))"
  by (cases i) (simp add: iter_ok_def at_def min_def)

lemma advanceUntilMatches_found [simp]:
  "c \<notin> set xs \<Longrightarrow> advanceUntilMatches c (at pre (xs @ c # post)) = (at (pre @ xs) (c # post), True)"
  by (simp add: advanceUntilMatches_def at_move [symmetric])

lemma advanceUntilMatches_found_hd [simp]:
  "advanceUntilMatches c (at pre (c # post)) = (at pre (c # post), True)"
  using advanceUntilMatches_found [of c "[]" pre post] by simp

lemma advanceUntilMatches_missing [simp]:
  "c \<notin> set post \<Longrightarrow> advanceUntilMatches c (at pre post) = (at (pre @ post) [], False)"
  by (cases post) (auto simp: advanceUntilMatches_def at_def memchr_def)

lemma advanceIfMatches_at [simp]:
  "advanceIfMatches c (at pre (c # post)) = (at (pre @ [c]) post, True)"
  by (simp add: advanceIfMatches_def at_def)

lemma advanceIfMatches_not [simp]:
  "d \<noteq> c \<Longrightarrow> advanceIfMatches c (at pre (d # post)) = (at pre (d # post), False)"
  "advanceIfMatches c (at pre []) = (at pre [], False)"
  by (simp_all add: advanceIfMatches_def)

lemma iter_match_at [simp]:
  "iter_match c (at pre (d # post)) \<longleftrightarrow> d = c" "iter_match c (at pre []) \<longleftrightarrow> False"
  by (simp_all add: iter_match_def)

lemma isAtEnd_at [simp]: "isAtEnd (at pre post) \<longleftrightarrow> post = []"
  by (simp add: isAtEnd_def)

lemma stepForward_at [simp]:
  "stepForward (at pre (c # post)) = (at (pre @ [c]) post, True)" "stepForward (at pre []) = (at pre [], False)"
  by (simp_all add: stepForward_def at_def)

lemma advanceRead_at [simp]:
  "advanceRead (at pre (c # post)) = (at (pre @ [c]) post, Some c)" "advanceRead (at pre []) = (at pre [], None)"
  by (simp_all add: advanceRead_def at_def)

lemma fromIterators_at [simp]:
  "fromIterators (at pre (xs @ post)) (at (pre @ xs) post) = xs"
  by (simp add: fromIterators_def)

lemma from_at [simp]:
  "fromIteratorFromStart (at pre post) = pre" "fromIteratorUntilEnd (at pre post) = post"
  by (simp_all add: fromIteratorFromStart_def fromIteratorUntilEnd_def)

lemma findAny_found:
  "set xs \<inter> set anyOf = {} \<Longrightarrow> c \<in> set anyOf \<Longrightarrow> findAny anyOf (xs @ c # post) = (length xs, Some c)"
  by (induction xs) auto

lemma findAny_missing: "set xs \<inter> set anyOf = {} \<Longrightarrow> findAny anyOf xs = (length xs, None)"
  by (induction xs) auto

lemma advanceUntilMatchesAny_found [simp]:
  "set xs \<inter> set anyOf = {} \<Longrightarrow> c \<in> set anyOf \<Longrightarrow>
     advanceUntilMatchesAny anyOf (at pre (xs @ c # post)) = (at (pre @ xs) (c # post), Some c)"
  by (simp add: advanceUntilMatchesAny_def findAny_found at_move [symmetric])

lemma advanceUntilMatchesAny_missing [simp]:
  "set post \<inter> set anyOf = {} \<Longrightarrow> advanceUntilMatchesAny anyOf (at pre post) = (at (pre @ post) [], None)"
  by (simp add: advanceUntilMatchesAny_def findAny_missing at_def)

lemma sameLowered_iff: "length a = length b \<Longrightarrow> sameLowered a b \<longleftrightarrow> map tolower a = map tolower b"
  by (induction a b rule: list_induct2) auto

lemma equalsIgnoreCase_iff: "equalsIgnoreCase a b \<longleftrightarrow> map tolower a = map tolower b"
  by (auto simp: equalsIgnoreCase_def sameLowered_iff dest: map_eq_imp_length_eq)

section \<open>Searching backwards: name and extension\<close>

lemma reverseScan_found:
  "c \<notin> set e \<Longrightarrow> reverseScan c (n @ c # e @ f) (length n + length e) = (length n, True)"
proof (induction e arbitrary: f rule: rev_induct)
  case Nil
  then show ?case by (cases n) simp_all
next
  case (snoc x e)
  have "(n @ c # (e @ [x]) @ f) ! Suc (length n + length e) = x"
    by (simp add: nth_append)
  then show ?case
    using snoc.IH [of "x # f"] snoc.prems by auto
qed

lemma reverseScan_missing: "c \<notin> set s \<Longrightarrow> k < length s \<Longrightarrow> reverseScan c s k = (0, False)"
proof (induction k)
  case 0
  then show ?case by (metis nth_mem reverseScan.simps(1))
next
  case (Suc k)
  then have "s ! Suc k \<noteq> c" by (metis nth_mem)
  then show ?case using Suc by simp
qed

text \<open>
  Splitting a file name. The extension is what follows the last dot and the name what
  precedes it; without a dot everything is the name. The result is refused only for the empty
  text and for the text that is a single dot.
\<close>

theorem parseNameExtension_last_dot:
  "parseNameExtension input =
     (if CHR ''.'' \<in> set input
      then (let e = rev (takeWhile (\<lambda>c. c \<noteq> CHR ''.'') (rev input)) in
            (take (length input - length e - 1) input, e, input \<noteq> ''.''))
      else (input, [], input \<noteq> []))"
proof (cases "CHR ''.'' \<in> set input")
  case True
  then obtain n e where input: "input = n @ CHR ''.'' # e" "CHR ''.'' \<notin> set e"
    using split_list_last by metis
  have rev: "rev (takeWhile (\<lambda>c. c \<noteq> CHR ''.'') (rev input)) = e"
    using takeWhile_neq_append [of "CHR ''.''" "rev e" "rev n"] input by simp
  have "reverseAdvanceUntilMatches CHR ''.'' (setToEnd (iter_of input)) =
      (at n (CHR ''.'' # e), True)"
    using reverseScan_found [OF input(2), of n "[]"] input(1)
    by (simp add: reverseAdvanceUntilMatches_def setToEnd_def at_def iter_of_def)
  then have "parseNameExtension input = (n, e, \<not> (n = [] \<and> e = []))"
    using fromIterators_at [of "[]" n "CHR ''.'' # e"] input(1)
    by (simp add: parseNameExtension_def iter_of_at)
  then show ?thesis
    using True rev input(1) by (cases n) (auto simp: Let_def)
next
  case False
  then have "snd (reverseAdvanceUntilMatches CHR ''.'' (setToEnd (iter_of input))) = False"
    by (simp add: reverseAdvanceUntilMatches_def setToEnd_def reverseScan_missing)
  then show ?thesis
    using False by (cases "input = []") (simp_all add: parseNameExtension_def Let_def split_beta)
qed

section \<open>Decimal numbers\<close>

text \<open>The decimal text of a number.\<close>

fun showNat :: "nat \<Rightarrow> char list" where
  "showNat n = (if n < 10 then [char_of (48 + n)] else showNat (n div 10) @ [char_of (48 + n mod 10)])"

declare showNat.simps [simp del]

lemma code_digit: "d < 10 \<Longrightarrow> code (char_of (48 + d)) = 48 + d" for d :: nat
  by (simp add: code_def of_char_of)

lemma showNat_digits: "\<forall>c\<in>set (showNat n). isdigit c"
proof (induction n rule: showNat.induct)
  case (1 n)
  then show ?case
    by (subst showNat.simps) (auto simp: isdigit_def code_digit)
qed

lemma showNat_ne [simp]: "showNat n \<noteq> []"
  by (subst showNat.simps) simp

lemma digits_value_snoc: "digits_value (ds @ [d]) = digits_value ds * 10 + (int (code d) - 48)"
  by (simp add: digits_value_def)

lemma digits_value_showNat: "digits_value (showNat n) = int n"
proof (induction n rule: showNat.induct)
  case (1 n)
  show ?case
  proof (cases "n < 10")
    case True
    then show ?thesis
      by (subst showNat.simps) (simp add: digits_value_def code_digit)
  next
    case False
    then have "digits_value (showNat n) = int (n div 10) * 10 + int (n mod 10)"
      using 1 by (subst showNat.simps) (simp add: digits_value_snoc code_digit)
    then show ?thesis
      by presburger
  qed
qed

lemma length_showNat: "n < 10 ^ k \<Longrightarrow> 0 < k \<Longrightarrow> length (showNat n) \<le> k"
proof (induction k arbitrary: n)
  case (Suc k)
  show ?case
  proof (cases "n < 10")
    case True
    then show ?thesis
      by (subst showNat.simps) simp
  next
    case False
    then have "0 < k"
      using Suc.prems by (cases k) auto
    moreover have "n div 10 < 10 ^ k"
      using Suc.prems by (simp add: less_mult_imp_div_less mult.commute)
    ultimately show ?thesis
      using Suc.IH [of "n div 10"] False by (subst showNat.simps) simp
  qed
qed simp

lemma isdigit_not: "isdigit c \<Longrightarrow> \<not> isspace c" "isdigit c \<Longrightarrow> c \<noteq> CHR ''-''" "isdigit c \<Longrightarrow> c \<noteq> CHR ''+''"
  "isdigit c \<Longrightarrow> c \<noteq> CHR 0x00"
  by (auto simp: isdigit_def isspace_def code_def)

lemma strtol10_digits:
  assumes "\<forall>c\<in>set ds. isdigit c" and "ds \<noteq> []" and "rest = [] \<or> \<not> isdigit (hd rest)"
  shows "strtol10 (ds @ rest) = Some (digits_value ds)"
proof -
  obtain d es where ds: "ds = d # es"
    using assms(2) by (cases ds) auto
  have take: "takeWhile isdigit (ds @ rest) = ds"
    using assms by (cases rest) auto
  have "dropWhile isspace (ds @ rest) = ds @ rest"
    using assms(1) ds isdigit_not by simp
  then show ?thesis
    using assms take ds isdigit_not(2,3) [of d] by (simp add: strtol10_def)
qed

lemma parseInt32_printed:
  assumes "n < 2 ^ 31" and "length (showNat n @ junk) < 12" and "junk = [] \<or> \<not> isdigit (hd junk)"
  shows "parseInt32 (showNat n @ junk) = Some (int n)"
proof -
  have "takeWhile (\<lambda>c. c \<noteq> CHR 0x00) (showNat n @ junk) = showNat n @ takeWhile (\<lambda>c. c \<noteq> CHR 0x00) junk"
    using showNat_digits [of n] isdigit_not(4) by auto
  moreover have "takeWhile (\<lambda>c. c \<noteq> CHR 0x00) junk = [] \<or> \<not> isdigit (hd (takeWhile (\<lambda>c. c \<noteq> CHR 0x00) junk))"
    using assms(3) by (cases junk) auto
  ultimately have "strtol10 (takeWhile (\<lambda>c. c \<noteq> CHR 0x00) (showNat n @ junk)) = Some (int n)"
    using strtol10_digits [OF showNat_digits showNat_ne] digits_value_showNat by metis
  then show ?thesis
    using assms by (simp add: parseInt32_def)
qed

text \<open>
  \<open>parseInt32\<close> reads back every printed number that fits its buffer and the 32 bits, and
  ignores what follows the digits: a text like \<open>80abc\<close> is the number 80.
\<close>

theorem parseInt32_showNat:
  assumes "n < 2 ^ 31" and "length (showNat n @ junk) < 12" and "junk = [] \<or> \<not> isdigit (hd junk)"
  shows "parseInt32 (showNat n @ junk) = Some (int n)"
  using assms by (rule parseInt32_printed)

theorem parseInt32_showNat_witness: "parseInt32 ''80abc'' = Some 80"
proof -
  have s: "showNat 80 = ''80''"
    by code_simp
  show ?thesis
    using parseInt32_showNat [of 80 "''abc''"] by (simp add: s isdigit_def code_def)
qed

end
