(* ===== verification/HttpUrl.thy ===== *)
theory HttpUrl
  imports HttpText
begin

text \<open>
  \<open>Libraries/Http/HttpURLParser.h\<close> and \<open>HttpURLParser.cpp\<close>: the iterators over query strings and
  form bodies, percent decoding, the view of an origin-form request target and the URL parser.
  A \<open>Result\<close> is a sum: \<open>Inl\<close> carries the message of the source (empty for a plain
  \<open>Result(false)\<close>).
\<close>

section \<open>Scanning loops\<close>

text \<open>\<open>while (cursor < size and not P(data[cursor])) cursor++\<close>\<close>

function scanUntil :: "('a \<Rightarrow> bool) \<Rightarrow> 'a list \<Rightarrow> nat \<Rightarrow> nat" where
  "scanUntil P s i = (if i < length s \<and> \<not> P (s ! i) then scanUntil P s (i + 1) else i)"
  by pat_completeness auto
termination
  by (relation "measure (\<lambda>(P, s, i). length s - i)") auto

declare scanUntil.simps [simp del]

lemma scanUntil_eq: "scanUntil P s i = i + length (takeWhile (\<lambda>x. \<not> P x) (drop i s))"
proof (induction P s i rule: scanUntil.induct)
  case (1 P s i)
  show ?case
  proof (cases "i < length s \<and> \<not> P (s ! i)")
    case True
    then have "drop i s = s ! i # drop (i + 1) s"
      by (simp add: Cons_nth_drop_Suc)
    then show ?thesis
      using 1 True by (subst scanUntil.simps) simp
  next
    case False
    have "takeWhile (\<lambda>x. \<not> P x) (drop i s) = []"
    proof (cases "i < length s")
      case True
      then have "drop i s = s ! i # drop (i + 1) s"
        by (simp add: Cons_nth_drop_Suc)
      then show ?thesis
        using False True by simp
    qed simp
    then show ?thesis
      using False by (subst scanUntil.simps) auto
  qed
qed

section \<open>Query strings and form bodies\<close>

record urlItem =
  itemName :: "char list"
  itemValue :: "char list"
  hasValue :: bool

record queryIter =
  search_text :: "char list"
  query_cursor :: nat

definition HttpURLQueryIterator :: "char list \<Rightarrow> queryIter" where
  "HttpURLQueryIterator query =
     \<lparr>search_text = query,
      query_cursor = (if length query > 0 \<and> query ! 0 = CHR ''?'' then 1 else 0)\<rparr>"

text \<open>\<open>None\<close> is \<open>false\<close>, which leaves the iterator alone and the item empty.\<close>

definition query_next :: "queryIter \<Rightarrow> (queryIter \<times> urlItem) option" where
  "query_next i =
     (let data = search_text i; nameStart = query_cursor i in
      if nameStart \<ge> length data then None
      else
        (let nameEnd = scanUntil (\<lambda>c. c = CHR ''='' \<or> c = CHR ''&'') data nameStart;
             hasVal = (nameEnd < length data \<and> data ! nameEnd = CHR ''='');
             valueStart = (if hasVal then nameEnd + 1 else nameEnd);
             valueEnd = scanUntil (\<lambda>c. c = CHR ''&'') data valueStart;
             cursor = (if valueEnd < length data \<and> data ! valueEnd = CHR ''&'' then valueEnd + 1 else valueEnd) in
         Some (i\<lparr>query_cursor := cursor\<rparr>,
               \<lparr>itemName = take (nameEnd - nameStart) (drop nameStart data),
                itemValue = take (valueEnd - valueStart) (drop valueStart data), hasValue = hasVal\<rparr>)))"

record formIter =
  body_text :: "char list"
  form_cursor :: nat

definition HttpFormUrlEncodedIterator :: "char list \<Rightarrow> formIter" where
  "HttpFormUrlEncodedIterator formBody = \<lparr>body_text = formBody, form_cursor = 0\<rparr>"

definition form_next :: "formIter \<Rightarrow> (formIter \<times> urlItem) option" where
  "form_next i =
     (let data = body_text i; nameStart = form_cursor i in
      if nameStart \<ge> length data then None
      else
        (let nameEnd = scanUntil (\<lambda>c. c = CHR ''='' \<or> c = CHR ''&'') data nameStart;
             hasVal = (nameEnd < length data \<and> data ! nameEnd = CHR ''='');
             valueStart = (if hasVal then nameEnd + 1 else nameEnd);
             valueEnd = scanUntil (\<lambda>c. c = CHR ''&'') data valueStart;
             cursor = (if valueEnd < length data \<and> data ! valueEnd = CHR ''&'' then valueEnd + 1 else valueEnd) in
         Some (i\<lparr>form_cursor := cursor\<rparr>,
               \<lparr>itemName = take (nameEnd - nameStart) (drop nameStart data),
                itemValue = take (valueEnd - valueStart) (drop valueStart data), hasValue = hasVal\<rparr>)))"

text \<open>
  The loops \<open>while (it.next(item))\<close> of the \<open>get...Value\<close> functions. \<open>None\<close> is a loop that has
  not ended within the fuel; \<open>Some v\<close> is its return value.
\<close>

fun findValue :: "nat \<Rightarrow> ('s \<Rightarrow> ('s \<times> urlItem) option) \<Rightarrow> char list \<Rightarrow> 's \<Rightarrow> char list option option" where
  "findValue 0 nxt name s = None"
| "findValue (Suc k) nxt name s =
     (case nxt s of None \<Rightarrow> Some None
      | Some (s', item) \<Rightarrow> if itemName item = name then Some (Some (itemValue item)) else findValue k nxt name s')"

definition form_getValue :: "char list \<Rightarrow> char list \<Rightarrow> char list option option" where
  "form_getValue body name = findValue (length body + 1) form_next name (HttpFormUrlEncodedIterator body)"

definition url_getQueryValue :: "char list \<Rightarrow> char list \<Rightarrow> char list option option" where
  "url_getQueryValue query name = findValue (length query + 1) query_next name (HttpURLQueryIterator query)"

section \<open>Percent decoding\<close>

definition scHttpHexValue :: "char \<Rightarrow> int" where
  "scHttpHexValue v =
     (if 48 \<le> code v \<and> code v \<le> 57 then int (code v) - 48
      else if 65 \<le> code v \<and> code v \<le> 70 then int (code v) - 65 + 10
      else if 97 \<le> code v \<and> code v \<le> 102 then int (code v) - 97 + 10
      else -1)"

text \<open>
  The loop of \<open>scHttpDecodeComponent\<close> on the bytes not read yet; \<open>out\<close> are the bytes written,
  \<open>cap\<close> the size of the storage.
\<close>

fun decodeLoop :: "bool \<Rightarrow> nat \<Rightarrow> char list \<Rightarrow> char list \<Rightarrow> string + char list" where
  "decodeLoop plusAsSpace cap out [] = Inr out"
| "decodeLoop plusAsSpace cap out (c # cs) =
     (if c = CHR ''%'' then
        (case cs of
           h # l # rest \<Rightarrow>
             (if scHttpHexValue h \<ge> 0 \<and> scHttpHexValue l \<ge> 0 then
                (if length out < cap
                 then decodeLoop plusAsSpace cap (out @ [char_of (nat (scHttpHexValue h * 16 + scHttpHexValue l))]) rest
                 else Inl ''Decoded output buffer is too small'')
              else Inl ''Malformed percent escape'')
         | _ \<Rightarrow> Inl ''Malformed percent escape'')
      else if length out < cap
           then decodeLoop plusAsSpace cap (out @ [if plusAsSpace \<and> c = CHR ''+'' then CHR '' '' else c]) cs
           else Inl ''Decoded output buffer is too small'')"

definition scHttpDecodeComponent :: "char list \<Rightarrow> nat \<Rightarrow> bool \<Rightarrow> string + char list" where
  "scHttpDecodeComponent input storage plusAsSpace = decodeLoop plusAsSpace storage [] input"

definition HttpPercentDecode :: "char list \<Rightarrow> nat \<Rightarrow> string + char list" where
  "HttpPercentDecode input storage = scHttpDecodeComponent input storage False"

definition HttpFormUrlDecode :: "char list \<Rightarrow> nat \<Rightarrow> string + char list" where
  "HttpFormUrlDecode input storage = scHttpDecodeComponent input storage True"

definition scHttpUrlContainsInvalidWhitespace :: "char list \<Rightarrow> bool" where
  "scHttpUrlContainsInvalidWhitespace v = list_ex (\<lambda>c. code c \<le> 32) v"

section \<open>Request targets\<close>

record targetView =
  raw :: "char list"
  target_path :: "char list"
  target_search :: "char list"
  target_hash :: "char list"

definition empty_target :: targetView where
  "empty_target = \<lparr>raw = [], target_path = [], target_search = [], target_hash = []\<rparr>"

text \<open>The loop that looks for the first \<open>?\<close> before any \<open>#\<close>, and the first \<open>#\<close>.\<close>

definition markSeparator :: "char list \<Rightarrow> nat \<Rightarrow> nat \<times> nat \<Rightarrow> nat \<times> nat" where
  "markSeparator data idx = (\<lambda>(queryStart, hashStart).
     if data ! idx = CHR ''?'' \<and> queryStart = length data \<and> hashStart = length data then (idx, hashStart)
     else if data ! idx = CHR ''#'' \<and> hashStart = length data then (queryStart, idx)
     else (queryStart, hashStart))"

definition separators :: "char list \<Rightarrow> nat \<times> nat" where
  "separators data = fold (markSeparator data) [0..<length data] (length data, length data)"

definition target_parse :: "char list \<Rightarrow> string + targetView" where
  "target_parse requestTarget =
     (if requestTarget = [] then Inl ''HttpRequestTargetView empty request target''
      else if scHttpUrlContainsInvalidWhitespace requestTarget
      then Inl ''HttpRequestTargetView request target contains invalid whitespace''
      else if length requestTarget = 1 \<and> requestTarget ! 0 = CHR ''*''
      then Inr (empty_target\<lparr>raw := requestTarget, target_path := requestTarget\<rparr>)
      else if requestTarget ! 0 \<noteq> CHR ''/''
      then Inl ''HttpRequestTargetView only supports origin-form request targets''
      else
        (let n = length requestTarget;
             (queryStart, hashStart) = separators requestTarget;
             pathEnd = (if queryStart < hashStart then queryStart else hashStart);
             searchEnd = hashStart in
         Inr \<lparr>raw = requestTarget, target_path = take pathEnd requestTarget,
              target_search = (if queryStart < n then take (searchEnd - queryStart) (drop queryStart requestTarget) else []),
              target_hash = (if hashStart < n then drop hashStart requestTarget else [])\<rparr>))"

definition target_getQueryValue :: "targetView \<Rightarrow> char list \<Rightarrow> char list option option" where
  "target_getQueryValue t name = url_getQueryValue (target_search t) name"

section \<open>URLs\<close>

record url =
  protocol :: "char list"
  username :: "char list"
  password :: "char list"
  hostname :: "char list"
  port :: u16
  host :: "char list"
  pathname :: "char list"
  path :: "char list"
  search :: "char list"
  hash :: "char list"

definition empty_url :: url where
  "empty_url = \<lparr>protocol = [], username = [], password = [], hostname = [], port = 0, host = [],
     pathname = [], path = [], search = [], hash = []\<rparr>"

text \<open>The private steps return the members as they leave them, and the \<open>Result\<close>.\<close>

definition validateProtocol :: "url \<Rightarrow> url \<times> bool" where
  "validateProtocol u =
     (if equalsIgnoreCase (protocol u) ''http'' then (u\<lparr>port := 80\<rparr>, True)
      else if equalsIgnoreCase (protocol u) ''https'' then (u\<lparr>port := 443\<rparr>, True)
      else (u, False))"

definition validatePath :: "url \<Rightarrow> bool" where
  "validatePath u \<longleftrightarrow> \<not> scHttpUrlContainsInvalidWhitespace (pathname u) \<and>
     \<not> scHttpUrlContainsInvalidWhitespace (search u) \<and> \<not> scHttpUrlContainsInvalidWhitespace (hash u)"

definition validateHost :: "url \<Rightarrow> bool" where
  "validateHost u \<longleftrightarrow> host u \<noteq> [] \<and> \<not> scHttpUrlContainsInvalidWhitespace (host u) \<and>
     ((startsWith (hostname u) ''['' \<and> endsWith (hostname u) '']'') \<or>
      containsCodePoint (host u) CHR ''.'' \<or> hostname u = ''localhost'')"

definition parseUserPassword :: "char list \<Rightarrow> url \<Rightarrow> url \<times> bool" where
  "parseUserPassword userPassword u =
     (if scHttpUrlContainsInvalidWhitespace userPassword then (u, False)
      else
        (let start = iter_of userPassword; (i, found) = advanceUntilMatches CHR '':'' start in
         if found
         then (u\<lparr>username := fromIterators start i, password := fromIteratorUntilEnd (fst (stepForward i))\<rparr>, True)
         else (u\<lparr>username := userPassword, password := []\<rparr>, True)))"

text \<open>The port, parsed the same way behind a bracketed and behind a plain host name.\<close>

definition parsePort :: "char list \<Rightarrow> u16 option" where
  "parsePort portString =
     (if portString = [] then None
      else case parseInt32 portString of
             None \<Rightarrow> None
           | Some v \<Rightarrow> if v < 0 \<or> v > 65535 then None else Some (word_of_int v))"

text \<open>
  \<open>hostnamePart\<close> views the same memory as \<open>host\<close> behind the user information, so the source's
  \<open>fromIterators(start, it2)\<close> with \<open>start\<close> in \<open>host\<close> is the view from \<open>start2\<close>.
\<close>

definition parseHostname :: "char list \<Rightarrow> url \<Rightarrow> url \<times> bool" where
  "parseHostname hostnamePart u =
     (let start2 = iter_of hostnamePart; (j, firstChar) = advanceRead start2 in
      if firstChar = Some CHR ''['' then
        (let (j1, closed) = advanceUntilMatches CHR '']'' j in
         if \<not> closed then (u, False)
         else
           (let j2 = fst (stepForward j1); u2 = u\<lparr>hostname := fromIterators start2 j2\<rparr> in
            if iter_match CHR '':'' j2 then
              (let j3 = fst (stepForward j2) in
               case parsePort (fromIteratorUntilEnd j3) of
                 None \<Rightarrow> (u2, False)
               | Some v \<Rightarrow> (let u3 = u2\<lparr>port := v, host := fromIterators start2 j3\<rparr> in (u3, validateHost u3)))
            else if \<not> isAtEnd j2 then (u2, False)
            else (let u3 = u2\<lparr>host := fromIterators start2 j2\<rparr> in (u3, validateHost u3))))
      else
        (let (j1, colon) = advanceUntilMatches CHR '':'' start2 in
         if colon then
           (let u2 = u\<lparr>hostname := fromIterators start2 j1\<rparr>; j2 = fst (stepForward j1) in
            case parsePort (fromIteratorUntilEnd j2) of
              None \<Rightarrow> (u2, False)
            | Some v \<Rightarrow>
                (let u3 = u2\<lparr>port := v, host := fromIterators start2 (setToEnd j2)\<rparr> in (u3, validateHost u3)))
         else (let u2 = u\<lparr>hostname := hostnamePart, host := hostnamePart\<rparr> in (u2, validateHost u2))))"

definition parseHost :: "url \<Rightarrow> url \<times> bool" where
  "parseHost u =
     (let start = iter_of (host u); (i, found) = advanceUntilMatches CHR ''@'' start in
      if found then
        (case parseUserPassword (fromIterators start i) u of
           (u1, False) \<Rightarrow> (u1, False)
         | (u1, True) \<Rightarrow> parseHostname (fromIteratorUntilEnd (fst (stepForward i))) u1)
      else parseHostname (fromIteratorUntilEnd start) u)"

definition parsePath :: "url \<Rightarrow> url \<times> bool" where
  "parsePath u =
     (let (i, found) = advanceUntilMatches CHR ''?'' (iter_of (path u));
          u' = (if found then u\<lparr>pathname := fromIteratorFromStart i, search := fromIteratorUntilEnd i\<rparr>
                else u\<lparr>pathname := path u\<rparr>)
      in (u', validatePath u'))"

text \<open>The part of \<open>parse\<close> behind the host when the URL has no slash behind the authority.\<close>

definition parseNoPath :: "iter \<Rightarrow> char option \<Rightarrow> url \<Rightarrow> url \<times> bool" where
  "parseNoPath hostIt separator u =
     (let u1 = (case separator of
          Some c \<Rightarrow>
            (if c = CHR ''?'' then
               (let u2 = u\<lparr>pathname := ''/'', path := ''/'', search := fromIteratorUntilEnd hostIt\<rparr>;
                    (queryIt, found) = advanceUntilMatches CHR ''#'' hostIt
                in if found then u2\<lparr>hash := fromIteratorUntilEnd queryIt\<rparr> else u2)
             else u\<lparr>pathname := ''/'', path := ''/'', hash := fromIteratorUntilEnd hostIt\<rparr>)
        | None \<Rightarrow> u\<lparr>path := ''/'', pathname := ''/''\<rparr>)
      in (u1, validatePath u1))"

text \<open>The part behind the host when there is one; \<open>i\<close> stands on the slash.\<close>

definition parseWithPath :: "iter \<Rightarrow> url \<Rightarrow> url \<times> bool" where
  "parseWithPath i u =
     (let (j, hasHref) = advanceUntilMatches CHR ''#'' i in
      case parsePath (u\<lparr>path := fromIterators i j\<rparr>) of
        (u1, False) \<Rightarrow> (u1, False)
      | (u1, True) \<Rightarrow>
          if hasHref then (let u2 = u1\<lparr>hash := fromIteratorUntilEnd j\<rparr> in (u2, validatePath u2))
          else (u1, True))"

text \<open>The part behind \<open>://\<close>.\<close>

definition parseAuthority :: "iter \<Rightarrow> url \<Rightarrow> url \<times> bool" where
  "parseAuthority start u =
     (let (i, hasPath) = advanceUntilMatches CHR ''/'' start;
          originalHost = fromIterators start i;
          (hostIt, separator) = advanceUntilMatchesAny [CHR ''?'', CHR ''#''] (iter_of originalHost);
          u1 = u\<lparr>host := (if \<not> hasPath \<and> separator \<noteq> None then fromIteratorFromStart hostIt else originalHost)\<rparr>
      in case parseHost u1 of
           (u2, False) \<Rightarrow> (u2, False)
         | (u2, True) \<Rightarrow> if hasPath then parseWithPath i u2 else parseNoPath hostIt separator u2)"

definition url_parse :: "char list \<Rightarrow> url \<times> bool" where
  "url_parse s =
     (let start = iter_of s; (i, colon) = advanceUntilMatches CHR '':'' start in
      if \<not> colon then (empty_url, False)
      else
        (case validateProtocol (empty_url\<lparr>protocol := fromIterators start i\<rparr>) of
           (u, False) \<Rightarrow> (u, False)
         | (u, True) \<Rightarrow>
             (case advanceIfMatches CHR '':'' i of
                (_, False) \<Rightarrow> (u, False)
              | (i1, True) \<Rightarrow>
                  (case advanceIfMatches CHR ''/'' i1 of
                     (_, False) \<Rightarrow> (u, False)
                   | (i2, True) \<Rightarrow>
                       (case advanceIfMatches CHR ''/'' i2 of
                          (_, False) \<Rightarrow> (u, False)
                        | (i3, True) \<Rightarrow> parseAuthority i3 u)))))"

definition url_getValue :: "url \<Rightarrow> char list \<Rightarrow> char list option option" where
  "url_getValue u name = url_getQueryValue (search u) name"

end
