(* ===== verification/Cursors.thy ===== *)
theory Cursors
  imports Prelude
begin

text \<open>
  Cursors over separated text. Query strings, form bodies and router paths are all read by an
  iterator that cuts the text at a separator, without producing a last empty piece. The locale
  states that contract once; it is interpreted on the three iterators of the code.
\<close>

text \<open>The pieces of a text: a trailing separator does not start another piece.\<close>

function pieces :: "'a \<Rightarrow> 'a list \<Rightarrow> 'a list list" where
  "pieces c [] = []"
| "pieces c (x # xs) =
     takeWhile (\<lambda>y. y \<noteq> c) (x # xs) # pieces c (drop 1 (dropWhile (\<lambda>y. y \<noteq> c) (x # xs)))"
  by pat_completeness auto
termination
proof (relation "measure (\<lambda>(c, xs). length xs)")
  fix c x and xs :: "'a list"
  have "length (dropWhile (\<lambda>y. y \<noteq> c) (x # xs)) \<le> length (x # xs)"
    by (rule length_dropWhile_le)
  then show "((c, drop 1 (dropWhile (\<lambda>y. y \<noteq> c) (x # xs))), c, x # xs) \<in> measure (\<lambda>(c, xs). length xs)"
    by simp
qed simp

declare pieces.simps(2) [simp del]

lemma pieces_ne: "xs \<noteq> [] \<Longrightarrow>
    pieces c xs = takeWhile (\<lambda>y. y \<noteq> c) xs # pieces c (drop 1 (dropWhile (\<lambda>y. y \<noteq> c) xs))"
  by (cases xs) (simp_all add: pieces.simps(2))

lemma pieces_no_sep: "c \<notin> set xs \<Longrightarrow> xs \<noteq> [] \<Longrightarrow> pieces c xs = [xs]"
proof -
  assume *: "c \<notin> set xs" "xs \<noteq> []"
  have all: "dropWhile (\<lambda>y. y \<noteq> c) xs = []" "takeWhile (\<lambda>y. y \<noteq> c) xs = xs"
    using * by (auto simp: dropWhile_eq_Nil_conv takeWhile_eq_all_conv)
  show ?thesis
    unfolding pieces_ne [OF *(2)] all by simp
qed

lemma pieces_cons: "c \<notin> set p \<Longrightarrow> pieces c (p @ c # rest) = p # pieces c rest"
  by (subst pieces_ne) simp_all

text \<open>Texts joined with the separator are cut back into themselves.\<close>

fun join :: "'a \<Rightarrow> 'a list list \<Rightarrow> 'a list" where
  "join c [] = []"
| "join c [p] = p"
| "join c (p # q # ps) = p @ c # join c (q # ps)"

lemma pieces_join:
  "\<forall>p\<in>set ps. c \<notin> set p \<Longrightarrow> ps = [] \<or> last ps \<noteq> [] \<Longrightarrow> pieces c (join c ps) = ps"
  by (induction c ps rule: join.induct) (auto simp: pieces_cons pieces_no_sep split: if_splits)

lemma join_pieces:
  "join c (pieces c xs) = (if xs \<noteq> [] \<and> last xs = c then butlast xs else xs)"
proof (induction c xs rule: pieces.induct)
  case (2 c x xs)
  let ?s = "x # xs"
  show ?case
  proof (cases "c \<in> set ?s")
    case False
    then show ?thesis
      by (auto simp: pieces_no_sep)
  next
    case True
    then obtain p rest where s: "?s = p @ c # rest" "c \<notin> set p"
      using split_list_first by metis
    have rest: "drop 1 (dropWhile (\<lambda>y. y \<noteq> c) ?s) = rest"
      unfolding s(1) using s(2) by simp
    have ih: "join c (pieces c rest) = (if rest \<noteq> [] \<and> last rest = c then butlast rest else rest)"
      using 2 unfolding rest .
    have p: "pieces c ?s = p # pieces c rest"
      unfolding s(1) using s(2) by (rule pieces_cons)
    show ?thesis
    proof (cases "rest = []")
      case True
      then show ?thesis
        unfolding p unfolding s(1) by simp
    next
      case False
      then obtain q qs where "pieces c rest = q # qs"
        by (cases rest) (simp_all add: pieces.simps(2))
      then show ?thesis
        unfolding p unfolding s(1) using ih False by (auto simp: butlast_append)
    qed
  qed
qed simp

text \<open>Running an iterator to its end; \<open>None\<close> is a run that is not over within the fuel.\<close>

fun collect :: "nat \<Rightarrow> ('s \<Rightarrow> ('s \<times> 'a) option) \<Rightarrow> 's \<Rightarrow> 'a list option" where
  "collect 0 nxt s = None"
| "collect (Suc k) nxt s =
     (case nxt s of None \<Rightarrow> Some [] | Some (s', a) \<Rightarrow> map_option ((#) a) (collect k nxt s'))"

locale cursor_iterator =
  fixes nxt :: "'s \<Rightarrow> ('s \<times> 'a) option"
    and remaining :: "'s \<Rightarrow> 'c list"
    and sep :: 'c
    and decode :: "'c list \<Rightarrow> 'a"
  assumes over: "remaining s = [] \<Longrightarrow> nxt s = None"
    and piece: "remaining s \<noteq> [] \<Longrightarrow> \<exists>s'. nxt s = Some (s', decode (takeWhile (\<lambda>y. y \<noteq> sep) (remaining s))) \<and>
      remaining s' = drop 1 (dropWhile (\<lambda>y. y \<noteq> sep) (remaining s))"
begin

lemma remaining_decreases:
  assumes "nxt s = Some (s', a)"
  shows "length (remaining s') < length (remaining s)"
proof -
  have ne: "remaining s \<noteq> []"
    using assms over [of s] by auto
  then have "length (remaining s) > 0"
    by simp
  moreover have "length (dropWhile (\<lambda>y. y \<noteq> sep) (remaining s)) \<le> length (remaining s)"
    by (rule length_dropWhile_le)
  moreover have "remaining s' = drop 1 (dropWhile (\<lambda>y. y \<noteq> sep) (remaining s))"
    using assms piece [OF ne] by auto
  ultimately show ?thesis
    by (simp only: length_drop)
qed

lemma collect_pieces:
  "length (remaining s) < k \<Longrightarrow> collect k nxt s = Some (map decode (pieces sep (remaining s)))"
proof (induction k arbitrary: s)
  case (Suc k)
  show ?case
  proof (cases "remaining s = []")
    case True
    then show ?thesis
      using over by simp
  next
    case False
    then obtain s' where s': "nxt s = Some (s', decode (takeWhile (\<lambda>y. y \<noteq> sep) (remaining s)))"
      "remaining s' = drop 1 (dropWhile (\<lambda>y. y \<noteq> sep) (remaining s))"
      using piece by blast
    then show ?thesis
      using Suc remaining_decreases [OF s'(1)] False by (simp add: pieces_ne)
  qed
qed simp

text \<open>The first element with a property, as a loop over the iterator finds it.\<close>

lemma collect_Cons:
  assumes "remaining s \<noteq> []"
  shows "\<exists>s'. nxt s = Some (s', decode (hd (pieces sep (remaining s)))) \<and>
    pieces sep (remaining s') = tl (pieces sep (remaining s))"
  using piece [OF assms] assms by (auto simp: pieces_ne)

end

end
