(* ===== verification/HttpUrlProps.thy ===== *)
theory HttpUrlProps
  imports HttpUrl Cursors
begin

text \<open>
  What the URL code promises: the two iterators are cursors over \<open>&\<close> separated pairs, decoding
  inverts every percent encoding and nothing else, request targets and URLs are cut into
  components that print back to the input.
\<close>

section \<open>Query strings and form bodies\<close>

definition decodePair :: "char list \<Rightarrow> urlItem" where
  "decodePair p = \<lparr>itemName = takeWhile (\<lambda>c. c \<noteq> CHR ''='') p,
     itemValue = drop 1 (dropWhile (\<lambda>c. c \<noteq> CHR ''='') p), hasValue = (CHR ''='' \<in> set p)\<rparr>"

text \<open>What both \<open>next\<close> functions compute from the text and the cursor.\<close>

definition pairStep :: "char list \<Rightarrow> nat \<Rightarrow> nat \<times> urlItem" where
  "pairStep data nameStart =
     (let nameEnd = scanUntil (\<lambda>c. c = CHR ''='' \<or> c = CHR ''&'') data nameStart;
          hasVal = (nameEnd < length data \<and> data ! nameEnd = CHR ''='');
          valueStart = (if hasVal then nameEnd + 1 else nameEnd);
          valueEnd = scanUntil (\<lambda>c. c = CHR ''&'') data valueStart;
          cursor = (if valueEnd < length data \<and> data ! valueEnd = CHR ''&'' then valueEnd + 1 else valueEnd) in
      (cursor, \<lparr>itemName = take (nameEnd - nameStart) (drop nameStart data),
                itemValue = take (valueEnd - valueStart) (drop valueStart data), hasValue = hasVal\<rparr>))"

lemma query_next_pairStep:
  "query_next i = (if query_cursor i \<ge> length (search_text i) then None
     else (case pairStep (search_text i) (query_cursor i) of (c, item) \<Rightarrow> Some (i\<lparr>query_cursor := c\<rparr>, item)))"
  by (simp add: query_next_def pairStep_def Let_def)

lemma form_next_pairStep:
  "form_next i = (if form_cursor i \<ge> length (body_text i) then None
     else (case pairStep (body_text i) (form_cursor i) of (c, item) \<Rightarrow> Some (i\<lparr>form_cursor := c\<rparr>, item)))"
  by (simp add: form_next_def pairStep_def Let_def)

lemma scan_append:
  "\<forall>x\<in>set p. \<not> P x \<Longrightarrow> tail = [] \<or> P (hd tail) \<Longrightarrow> scanUntil P (pre @ p @ tail) (length pre) = length pre + length p"
proof -
  assume "\<forall>x\<in>set p. \<not> P x" "tail = [] \<or> P (hd tail)"
  then have "takeWhile (\<lambda>x. \<not> P x) (p @ tail) = p"
    by (cases tail) (auto simp: takeWhile_append takeWhile_eq_all_conv)
  then show ?thesis
    by (simp add: scanUntil_eq)
qed

lemma pairStep_piece:
  assumes "CHR ''&'' \<notin> set p" and "tail = [] \<or> hd tail = CHR ''&''"
  shows "pairStep (pre @ p @ tail) (length pre) =
    (length pre + length p + (if tail = [] then 0 else 1), decodePair p)"
proof (cases "CHR ''='' \<in> set p")
  case True
  then obtain n v where p: "p = n @ CHR ''='' # v" "CHR ''='' \<notin> set n"
    using split_list_first by metis
  have e1: "scanUntil (\<lambda>c. c = CHR ''='' \<or> c = CHR ''&'') (pre @ p @ tail) (length pre) = length pre + length n"
    using scan_append [of n "\<lambda>c. c = CHR ''='' \<or> c = CHR ''&''" "CHR ''='' # v @ tail" pre] assms p by auto
  have e2: "scanUntil (\<lambda>c. c = CHR ''&'') (pre @ p @ tail) (length pre + length n + 1) =
      length pre + length n + 1 + length v"
    using scan_append [of v "\<lambda>c. c = CHR ''&''" tail "pre @ n @ [CHR ''='']"] assms p by auto
  have "(pre @ p @ tail) ! (length pre + length n) = CHR ''=''"
    by (simp add: p nth_append)
  moreover have "tail \<noteq> [] \<Longrightarrow> (pre @ p @ tail) ! (length pre + length n + 1 + length v) = CHR ''&''"
    using assms(2) nth_append_length [of "pre @ n @ CHR ''='' # v" "CHR ''&''" "tl tail"] p
    by (cases tail) (simp_all add: add.assoc)
  ultimately show ?thesis
    unfolding pairStep_def Let_def e1 using e2 p by (cases tail) (auto simp: decodePair_def)
next
  case False
  have e1: "scanUntil (\<lambda>c. c = CHR ''='' \<or> c = CHR ''&'') (pre @ p @ tail) (length pre) = length pre + length p"
    using scan_append [of p "\<lambda>c. c = CHR ''='' \<or> c = CHR ''&''" tail pre] assms False by auto
  have e2: "scanUntil (\<lambda>c. c = CHR ''&'') (pre @ p @ tail) (length pre + length p) = length pre + length p"
    using scan_append [of "[]" "\<lambda>c. c = CHR ''&''" tail "pre @ p"] assms by auto
  have all: "takeWhile (\<lambda>c. c \<noteq> CHR ''='') p = p" "dropWhile (\<lambda>c. c \<noteq> CHR ''='') p = []"
    using False by (auto simp: takeWhile_eq_all_conv dropWhile_eq_Nil_conv)
  have "decodePair p = \<lparr>itemName = p, itemValue = [], hasValue = False\<rparr>"
    unfolding decodePair_def all using False by simp
  moreover have "tail \<noteq> [] \<Longrightarrow> (pre @ p @ tail) ! (length pre + length p) = CHR ''&''"
    using assms(2) by (cases tail) (simp_all add: nth_append)
  ultimately show ?thesis
    unfolding pairStep_def Let_def e1 using e2 by (cases tail) auto
qed

lemma pairStep_next:
  assumes "cursor < length data"
  shows "\<exists>c. pairStep data cursor = (c, decodePair (takeWhile (\<lambda>y. y \<noteq> CHR ''&'') (drop cursor data))) \<and>
    drop c data = drop 1 (dropWhile (\<lambda>y. y \<noteq> CHR ''&'') (drop cursor data))"
proof -
  let ?pre = "take cursor data" and ?rest = "drop cursor data"
  let ?p = "takeWhile (\<lambda>y. y \<noteq> CHR ''&'') ?rest" and ?tail = "dropWhile (\<lambda>y. y \<noteq> CHR ''&'') ?rest"
  have data: "data = ?pre @ ?p @ ?tail" and len: "length ?pre = cursor"
    using assms by simp_all
  have p: "CHR ''&'' \<notin> set ?p"
    by (auto dest: set_takeWhileD)
  have tail: "?tail = [] \<or> hd ?tail = CHR ''&''"
    using hd_dropWhile [of "\<lambda>y. y \<noteq> CHR ''&''" ?rest] by blast
  have "pairStep data cursor = (cursor + length ?p + (if ?tail = [] then 0 else 1), decodePair ?p)"
    using pairStep_piece [OF p tail, of ?pre] unfolding data [symmetric] len .
  moreover have "drop (cursor + length ?p + (if ?tail = [] then 0 else 1)) data = drop 1 ?tail"
  proof -
    have "drop (cursor + length ?p) data = ?tail"
      by (simp add: dropWhile_eq_drop add.commute)
    then have move: "drop (cursor + length ?p + k) data = drop k ?tail" for k
      by (metis drop_drop add.commute)
    show ?thesis
    proof (cases "?tail = []")
      case True
      then show ?thesis
        using move [of 0] by (simp only: True if_True drop_Nil)
    next
      case False
      then show ?thesis
        using move [of 1] by (simp only: False if_False)
    qed
  qed
  ultimately show ?thesis
    by blast
qed

interpretation queryCursor: cursor_iterator query_next "\<lambda>i. drop (query_cursor i) (search_text i)" "CHR ''&''" decodePair
proof
  fix i :: queryIter
  assume "drop (query_cursor i) (search_text i) = []"
  then show "query_next i = None"
    by (simp add: query_next_pairStep)
next
  fix i :: queryIter
  assume "drop (query_cursor i) (search_text i) \<noteq> []"
  then show "\<exists>s'. query_next i = Some (s', decodePair (takeWhile (\<lambda>y. y \<noteq> CHR ''&'') (drop (query_cursor i) (search_text i)))) \<and>
      drop (query_cursor s') (search_text s') = drop 1 (dropWhile (\<lambda>y. y \<noteq> CHR ''&'') (drop (query_cursor i) (search_text i)))"
    using pairStep_next [of "query_cursor i" "search_text i"] by (auto simp: query_next_pairStep)
qed

interpretation formCursor: cursor_iterator form_next "\<lambda>i. drop (form_cursor i) (body_text i)" "CHR ''&''" decodePair
proof
  fix i :: formIter
  assume "drop (form_cursor i) (body_text i) = []"
  then show "form_next i = None"
    by (simp add: form_next_pairStep)
next
  fix i :: formIter
  assume "drop (form_cursor i) (body_text i) \<noteq> []"
  then show "\<exists>s'. form_next i = Some (s', decodePair (takeWhile (\<lambda>y. y \<noteq> CHR ''&'') (drop (form_cursor i) (body_text i)))) \<and>
      drop (form_cursor s') (body_text s') = drop 1 (dropWhile (\<lambda>y. y \<noteq> CHR ''&'') (drop (form_cursor i) (body_text i)))"
    using pairStep_next [of "form_cursor i" "body_text i"] by (auto simp: form_next_pairStep)
qed

fun printPair :: "char list \<times> char list option \<Rightarrow> char list" where
  "printPair (n, None) = n"
| "printPair (n, Some v) = n @ CHR ''='' # v"

fun pairItem :: "char list \<times> char list option \<Rightarrow> urlItem" where
  "pairItem (n, None) = \<lparr>itemName = n, itemValue = [], hasValue = False\<rparr>"
| "pairItem (n, Some v) = \<lparr>itemName = n, itemValue = v, hasValue = True\<rparr>"

fun plainPair :: "char list \<times> char list option \<Rightarrow> bool" where
  "plainPair (n, v) \<longleftrightarrow> CHR ''='' \<notin> set n \<and> CHR ''&'' \<notin> set n \<and>
     (case v of None \<Rightarrow> True | Some w \<Rightarrow> CHR ''&'' \<notin> set w)"

lemma decodePair_printPair: "plainPair p \<Longrightarrow> decodePair (printPair p) = pairItem p"
proof (cases p)
  case (Pair n v)
  assume plain: "plainPair p"
  show ?thesis
  proof (cases v)
    case None
    have all: "takeWhile (\<lambda>c. c \<noteq> CHR ''='') n = n" "dropWhile (\<lambda>c. c \<noteq> CHR ''='') n = []"
      using plain Pair by (auto simp: takeWhile_eq_all_conv dropWhile_eq_Nil_conv)
    show ?thesis
      using plain unfolding Pair None printPair.simps decodePair_def all by simp
  next
    case (Some w)
    then show ?thesis
      using plain Pair by (simp add: decodePair_def)
  qed
qed

lemma printPair_plain: "plainPair p \<Longrightarrow> CHR ''&'' \<notin> set (printPair p)"
  by (cases p rule: printPair.cases) simp_all

text \<open>
  The round trip of a form body. Iterating over printed pairs gives exactly these pairs, with
  a pair without an equals sign told apart from one with an empty value, and the loop ends.
\<close>

theorem form_roundtrip:
  assumes "\<forall>p\<in>set ps. plainPair p" and "ps = [] \<or> printPair (last ps) \<noteq> []"
    and "body = join CHR ''&'' (map printPair ps)"
  shows "collect (length body + 1) form_next (HttpFormUrlEncodedIterator body) = Some (map pairItem ps)"
proof -
  have "pieces (CHR ''&'') body = map printPair ps"
    unfolding assms(3) using assms(1,2) printPair_plain by (intro pieces_join) (auto simp: last_map)
  moreover have "map decodePair (map printPair ps) = map pairItem ps"
    using assms(1) decodePair_printPair by simp
  ultimately show ?thesis
    using formCursor.collect_pieces [of "HttpFormUrlEncodedIterator body" "length body + 1"]
    by (simp add: HttpFormUrlEncodedIterator_def del: collect.simps)
qed

theorem form_roundtrip_witness:
  "collect (length ''a=1&b&&c=x='' + 1) form_next (HttpFormUrlEncodedIterator ''a=1&b&&c=x='') =
     Some [\<lparr>itemName = ''a'', itemValue = ''1'', hasValue = True\<rparr>, \<lparr>itemName = ''b'', itemValue = [], hasValue = False\<rparr>,
           \<lparr>itemName = [], itemValue = [], hasValue = False\<rparr>, \<lparr>itemName = ''c'', itemValue = ''x='', hasValue = True\<rparr>]"
proof -
  let ?ps = "[(''a'', Some ''1''), (''b'', None), ([], None), (''c'', Some ''x='')]"
  have "\<forall>p\<in>set ?ps. plainPair p" "?ps = [] \<or> printPair (last ?ps) \<noteq> []"
    "''a=1&b&&c=x='' = join CHR ''&'' (map printPair ?ps)"
    by simp_all
  from form_roundtrip [OF this] show ?thesis
    by (simp del: collect.simps)
qed

lemma findValue_collect:
  "collect k nxt s = Some xs \<Longrightarrow>
     findValue k nxt name s = Some (map_option itemValue (find (\<lambda>i. itemName i = name) xs))"
proof (induction k arbitrary: s xs)
  case (Suc k)
  then show ?case
    by (auto split: option.splits)
qed simp

text \<open>
  Looking up a value. Both \<open>get...Value\<close> functions end on every input and return the value
  of the first pair with that name, in the text cut at \<open>&\<close>; a query is read without its
  question mark.
\<close>

theorem getValue_first:
  "form_getValue body name =
     Some (map_option itemValue (find (\<lambda>i. itemName i = name) (map decodePair (pieces CHR ''&'' body)))) \<and>
   url_getQueryValue query name =
     Some (map_option itemValue (find (\<lambda>i. itemName i = name)
       (map decodePair (pieces CHR ''&'' (if query \<noteq> [] \<and> hd query = CHR ''?'' then tl query else query)))))"
proof
  show "form_getValue body name =
      Some (map_option itemValue (find (\<lambda>i. itemName i = name) (map decodePair (pieces CHR ''&'' body))))"
    unfolding form_getValue_def
    using formCursor.collect_pieces [of "HttpFormUrlEncodedIterator body" "length body + 1"]
    by (intro findValue_collect) (simp add: HttpFormUrlEncodedIterator_def del: collect.simps)
  have "drop (query_cursor (HttpURLQueryIterator query)) (search_text (HttpURLQueryIterator query)) =
      (if query \<noteq> [] \<and> hd query = CHR ''?'' then tl query else query)"
    by (cases query) (simp_all add: HttpURLQueryIterator_def)
  then show "url_getQueryValue query name =
      Some (map_option itemValue (find (\<lambda>i. itemName i = name)
        (map decodePair (pieces CHR ''&'' (if query \<noteq> [] \<and> hd query = CHR ''?'' then tl query else query)))))"
    unfolding url_getQueryValue_def
    using queryCursor.collect_pieces [of "HttpURLQueryIterator query" "length query + 1"]
    by (intro findValue_collect, cases "query = []") (simp_all del: collect.simps)
qed

section \<open>Percent decoding\<close>

text \<open>\<open>encodes plus s t\<close>: the text \<open>t\<close> is an encoding of the bytes \<open>s\<close>.\<close>

inductive encodes :: "bool \<Rightarrow> char list \<Rightarrow> char list \<Rightarrow> bool" for plusAsSpace where
  stop: "encodes plusAsSpace [] []"
| literal: "encodes plusAsSpace s t \<Longrightarrow> c \<noteq> CHR ''%'' \<Longrightarrow> \<not> (plusAsSpace \<and> c = CHR ''+'') \<Longrightarrow>
    encodes plusAsSpace (c # s) (c # t)"
| space: "encodes plusAsSpace s t \<Longrightarrow> plusAsSpace \<Longrightarrow> encodes plusAsSpace (CHR '' '' # s) (CHR ''+'' # t)"
| escape: "encodes plusAsSpace s t \<Longrightarrow> 0 \<le> scHttpHexValue h \<Longrightarrow> 0 \<le> scHttpHexValue l \<Longrightarrow>
    encodes plusAsSpace (char_of (nat (scHttpHexValue h * 16 + scHttpHexValue l)) # s) (CHR ''%'' # h # l # t)"

inductive_simps encodes_Nil [simp]: "encodes plusAsSpace s []"
inductive_simps encodes_Cons: "encodes plusAsSpace s (c # t)"

lemma decodeLoop_iff:
  "decodeLoop plusAsSpace cap out t = Inr r \<longleftrightarrow>
     (\<exists>s. r = out @ s \<and> encodes plusAsSpace s t \<and> (s = [] \<or> length out + length s \<le> cap))"
proof (induction plusAsSpace cap out t arbitrary: r rule: decodeLoop.induct)
  case (1 plusAsSpace cap out)
  then show ?case by auto
next
  case (2 plusAsSpace cap out c cs)
  show ?case
  proof (cases "c = CHR ''%''")
    case True
    show ?thesis
    proof (cases "\<exists>h l rest. cs = h # l # rest \<and> scHttpHexValue h \<ge> 0 \<and> scHttpHexValue l \<ge> 0")
      case False
      then have "\<not> (\<exists>s. encodes plusAsSpace s (c # cs))"
        using True by (auto simp: encodes_Cons)
      moreover have "decodeLoop plusAsSpace cap out (c # cs) = Inl ''Malformed percent escape''"
        using True False by (auto split: list.splits)
      ultimately show ?thesis
        by auto
    next
      case valid: True
      then obtain h l rest where cs: "cs = h # l # rest" "scHttpHexValue h \<ge> 0" "scHttpHexValue l \<ge> 0"
        by blast
      let ?d = "char_of (nat (scHttpHexValue h * 16 + scHttpHexValue l)) :: char"
      have enc: "encodes plusAsSpace s (c # cs) \<longleftrightarrow> (\<exists>s'. s = ?d # s' \<and> encodes plusAsSpace s' rest)" for s
        using True cs by (auto simp: encodes_Cons)
      show ?thesis
      proof (cases "length out < cap")
        case fits: True
        have ih: "decodeLoop plusAsSpace cap (out @ [?d]) rest = Inr r \<longleftrightarrow>
            (\<exists>s. r = (out @ [?d]) @ s \<and> encodes plusAsSpace s rest \<and> (s = [] \<or> length (out @ [?d]) + length s \<le> cap))"
          using 2(1) [of h "l # rest" l rest] True cs fits by blast
        show ?thesis
          using True cs fits unfolding enc by (auto simp: ih)
      qed (use True cs enc in auto)
    qed
  next
    case False
    let ?d = "if plusAsSpace \<and> c = CHR ''+'' then CHR '' '' else c"
    have enc: "encodes plusAsSpace s (c # cs) \<longleftrightarrow> (\<exists>s'. s = ?d # s' \<and> encodes plusAsSpace s' cs)" for s
      using False by (auto simp: encodes_Cons)
    show ?thesis
    proof (cases "length out < cap")
      case fits: True
      have ih: "decodeLoop plusAsSpace cap (out @ [?d]) cs = Inr r \<longleftrightarrow>
          (\<exists>s. r = (out @ [?d]) @ s \<and> encodes plusAsSpace s cs \<and> (s = [] \<or> length (out @ [?d]) + length s \<le> cap))"
        using 2(2) False fits by blast
      show ?thesis
        using False fits unfolding enc by (auto simp: ih)
    qed (use False enc in auto)
  qed
qed

text \<open>
  Percent decoding is exact. It succeeds with \<open>s\<close> if and only if the input is an encoding of
  \<open>s\<close> (hexadecimal digits of either case, for forms plus as space) and \<open>s\<close> fits the storage, so
  no input is accepted with a truncated result and none has two results.
\<close>

theorem percentDecode_exact:
  "(HttpPercentDecode t cap = Inr s \<longleftrightarrow> encodes False s t \<and> length s \<le> cap) \<and>
   (HttpFormUrlDecode t cap = Inr s \<longleftrightarrow> encodes True s t \<and> length s \<le> cap)"
  by (auto simp: HttpPercentDecode_def HttpFormUrlDecode_def scHttpDecodeComponent_def decodeLoop_iff)

section \<open>Request targets\<close>

text \<open>The index of the first \<open>c\<close>.\<close>

definition first :: "char \<Rightarrow> char list \<Rightarrow> nat" where
  "first c s = length (takeWhile (\<lambda>x. x \<noteq> c) s)"

lemma takeWhile_snoc:
  "takeWhile P (xs @ [y]) = (if \<forall>x\<in>set xs. P x then xs @ (if P y then [y] else []) else takeWhile P xs)"
  by (induction xs) auto

lemma first_less: "c \<in> set s \<Longrightarrow> first c s < length s"
  unfolding first_def by (induction s) auto

lemma first_snoc: "first c (s @ [y]) = (if c \<in> set s then first c s else if y = c then length s else length s + 1)"
  by (auto simp: first_def takeWhile_snoc)

definition marks :: "nat \<Rightarrow> char list \<Rightarrow> nat \<times> nat" where
  "marks n xs =
    (if CHR ''?'' \<in> set (takeWhile (\<lambda>x. x \<noteq> CHR ''#'') xs) then first CHR ''?'' xs else n,
     if CHR ''#'' \<in> set xs then first CHR ''#'' xs else n)"

lemma marks_snoc:
  assumes "length xs < n" and "data ! length xs = y" and "length data = n"
  shows "markSeparator data (length xs) (marks n xs) = marks n (xs @ [y])"
proof -
  have bound: "c \<in> set xs \<Longrightarrow> first c xs \<noteq> n" for c
    using first_less [of c xs] assms(1) by simp
  have sub: "c \<in> set (takeWhile P xs) \<Longrightarrow> c \<in> set xs" for c and P :: "char \<Rightarrow> bool"
    by (auto dest: set_takeWhileD)
  show ?thesis
  proof (cases "CHR ''#'' \<in> set xs")
    case True
    then have "takeWhile (\<lambda>x. x \<noteq> CHR ''#'') (xs @ [y]) = takeWhile (\<lambda>x. x \<noteq> CHR ''#'') xs"
      by (auto simp: takeWhile_snoc)
    then show ?thesis
      using True bound [of "CHR ''#''"] sub [of "CHR ''?''"] assms
      by (auto simp: marks_def markSeparator_def first_snoc)
  next
    case False
    then have tw: "takeWhile (\<lambda>x. x \<noteq> CHR ''#'') xs = xs"
      "takeWhile (\<lambda>x. x \<noteq> CHR ''#'') (xs @ [y]) = xs @ (if y \<noteq> CHR ''#'' then [y] else [])"
      by (auto simp: takeWhile_snoc takeWhile_eq_all_conv)
    show ?thesis
      unfolding marks_def tw using False bound [of "CHR ''?''"] assms
      by (auto simp: markSeparator_def first_snoc)
  qed
qed

lemma separators_prefix:
  "k \<le> length data \<Longrightarrow> fold (markSeparator data) [0..<k] (length data, length data) = marks (length data) (take k data)"
proof (induction k)
  case 0
  show ?case by (simp add: marks_def)
next
  case (Suc k)
  then have "markSeparator data (length (take k data)) (marks (length data) (take k data)) =
      marks (length data) (take k data @ [data ! k])"
    by (intro marks_snoc) simp_all
  then show ?case
    using Suc by (simp add: take_Suc_snoc)
qed

lemma separators_eq: "separators data = marks (length data) data"
  using separators_prefix [of "length data" data] by (simp add: separators_def)

text \<open>
  The components of a request target. A target that starts with a slash and has no control
  character or space is cut at the first question mark before any hash, and at the first hash:
  the path ends at the first of the two, the search starts with its question mark and ends at
  the hash, the hash is the rest. Together they are the whole target.
\<close>

theorem target_parse_components:
  assumes "t \<noteq> []" and "hd t = CHR ''/''" and "\<not> scHttpUrlContainsInvalidWhitespace t"
  shows "\<exists>p q h. t = p @ q @ h \<and>
      target_parse t = Inr \<lparr>raw = t, target_path = p, target_search = q, target_hash = h\<rparr> \<and>
      CHR ''?'' \<notin> set p \<and> CHR ''#'' \<notin> set p \<and> CHR ''#'' \<notin> set q \<and>
      (q = [] \<or> hd q = CHR ''?'') \<and> (h = [] \<or> hd h = CHR ''#'')"
proof -
  have start: "t ! 0 = CHR ''/''"
    using assms(1,2) by (simp add: hd_conv_nth)
  obtain u h where t: "t = u @ h" "CHR ''#'' \<notin> set u" "h = [] \<or> hd h = CHR ''#''"
  proof (cases "CHR ''#'' \<in> set t")
    case True
    then obtain a b where "t = a @ CHR ''#'' # b" "CHR ''#'' \<notin> set a"
      using split_list_first by metis
    then show ?thesis
      using that [of a "CHR ''#'' # b"] by simp
  next
    case False
    then show ?thesis
      using that [of t "[]"] by simp
  qed
  obtain p q where u: "u = p @ q" "CHR ''?'' \<notin> set p" "q = [] \<or> hd q = CHR ''?''"
  proof (cases "CHR ''?'' \<in> set u")
    case True
    then obtain a b where "u = a @ CHR ''?'' # b" "CHR ''?'' \<notin> set a"
      using split_list_first by metis
    then show ?thesis
      using that [of a "CHR ''?'' # b"] by simp
  next
    case False
    then show ?thesis
      using that [of u "[]"] by simp
  qed
  have tw: "takeWhile (\<lambda>x. x \<noteq> CHR ''#'') t = u"
    using t by (cases h) (auto simp: takeWhile_append takeWhile_eq_all_conv)
  have twq: "q \<noteq> [] \<Longrightarrow> takeWhile (\<lambda>x. x \<noteq> CHR ''?'') t = p"
    using t u by (cases q) (auto simp: takeWhile_append)
  have sep: "separators t = (if q = [] then length t else length p, if h = [] then length t else length u)"
  proof -
    have "CHR ''?'' \<in> set u \<longleftrightarrow> q \<noteq> []" "CHR ''#'' \<in> set t \<longleftrightarrow> h \<noteq> []"
      using t u by (cases q; cases h; auto)+
    then show ?thesis
      unfolding separators_eq marks_def tw using twq by (simp add: first_def tw)
  qed
  have "target_parse t = Inr \<lparr>raw = t, target_path = p, target_search = q, target_hash = h\<rparr>"
    unfolding target_parse_def sep using assms start t(1) u(1) by (cases q; cases h) auto
  then show ?thesis
    using t u by (intro exI [of _ p] exI [of _ q] exI [of _ h]) auto
qed

theorem target_parse_components_witness:
  "\<exists>p q h. ''/a?b#c'' = p @ q @ h \<and>
     target_parse ''/a?b#c'' = Inr \<lparr>raw = ''/a?b#c'', target_path = p, target_search = q, target_hash = h\<rparr>"
proof -
  have "''/a?b#c'' \<noteq> []" "hd ''/a?b#c'' = CHR ''/''" "\<not> scHttpUrlContainsInvalidWhitespace ''/a?b#c''"
    by (simp_all add: scHttpUrlContainsInvalidWhitespace_def code_def)
  from target_parse_components [OF this] show ?thesis
    by blast
qed

section \<open>URLs\<close>

fun printUser :: "(char list \<times> char list option) option \<Rightarrow> char list" where
  "printUser None = []"
| "printUser (Some (user, None)) = user @ ''@''"
| "printUser (Some (user, Some pw)) = user @ '':'' @ pw @ ''@''"

fun printPort :: "nat option \<Rightarrow> char list" where
  "printPort None = []"
| "printPort (Some n) = CHR '':'' # showNat n"

definition printable :: "char list \<Rightarrow> bool" where
  "printable s \<longleftrightarrow> \<not> scHttpUrlContainsInvalidWhitespace s"

lemma printable_simps [simp]:
  "printable []" "printable (a @ b) \<longleftrightarrow> printable a \<and> printable b"
  "printable (c # s) \<longleftrightarrow> 32 < code c \<and> printable s"
  by (auto simp: printable_def scHttpUrlContainsInvalidWhitespace_def)

lemma printable_fold: "\<not> scHttpUrlContainsInvalidWhitespace s \<longleftrightarrow> printable s"
  "scHttpUrlContainsInvalidWhitespace s \<longleftrightarrow> \<not> printable s"
  by (simp_all add: printable_def)

lemma printable_digits: "\<forall>c\<in>set ds. isdigit c \<Longrightarrow> printable ds"
  by (induction ds) (auto simp: isdigit_def)

fun goodUser :: "(char list \<times> char list option) option \<Rightarrow> bool" where
  "goodUser None \<longleftrightarrow> True"
| "goodUser (Some (user, pw)) \<longleftrightarrow> printable user \<and> CHR ''@'' \<notin> set user \<and> CHR ''/'' \<notin> set user \<and>
     CHR '':'' \<notin> set user \<and>
     (case pw of None \<Rightarrow> True | Some p \<Rightarrow> printable p \<and> CHR ''@'' \<notin> set p \<and> CHR ''/'' \<notin> set p)"

definition goodHost :: "char list \<Rightarrow> bool" where
  "goodHost h \<longleftrightarrow> h \<noteq> [] \<and> printable h \<and> hd h \<noteq> CHR ''['' \<and> CHR '':'' \<notin> set h \<and> CHR ''@'' \<notin> set h \<and>
     CHR ''/'' \<notin> set h \<and> (CHR ''.'' \<in> set h \<or> h = ''localhost'')"

fun userOf :: "(char list \<times> char list option) option \<Rightarrow> url \<Rightarrow> url" where
  "userOf None u = u"
| "userOf (Some (user, None)) u = u\<lparr>username := user, password := []\<rparr>"
| "userOf (Some (user, Some pw)) u = u\<lparr>username := user, password := pw\<rparr>"

fun portOf :: "nat option \<Rightarrow> url \<Rightarrow> url" where
  "portOf None u = u"
| "portOf (Some n) u = u\<lparr>port := of_nat n\<rparr>"

lemma showNat_only: "\<not> isdigit c \<Longrightarrow> c \<notin> set (showNat n)"
  using showNat_digits by blast

lemma parsePort_showNat: "n \<le> 65535 \<Longrightarrow> parsePort (showNat n) = Some (of_nat n)"
proof -
  assume n: "n \<le> 65535"
  then have "length (showNat n) \<le> 5"
    by (intro length_showNat) simp_all
  then have "parseInt32 (showNat n) = Some (int n)"
    using parseInt32_printed [of n "[]"] n by simp
  then show ?thesis
    using n by (simp add: parsePort_def)
qed

lemma parseHostname_good:
  assumes "goodHost hn" and "case prt of None \<Rightarrow> True | Some n \<Rightarrow> n \<le> 65535"
  shows "parseHostname (hn @ printPort prt) u =
    ((portOf prt u)\<lparr>hostname := hn, host := hn @ printPort prt\<rparr>, True)"
proof -
  obtain c cs where hn: "hn = c # cs" "c \<noteq> CHR ''[''"
    using assms(1) by (cases hn) (auto simp: goodHost_def)
  have colon: "CHR '':'' \<notin> set hn"
    using assms(1) by (simp add: goodHost_def)
  have first: "advanceRead (iter_of (hn @ printPort prt)) = (at [c] (cs @ printPort prt), Some c)"
    using hn by (simp add: iter_of_at)
  show ?thesis
  proof (cases prt)
    case None
    have find: "advanceUntilMatches CHR '':'' (iter_of hn) = (at hn [], False)"
      using advanceUntilMatches_missing [OF colon, of "[]"] by (simp add: iter_of_at)
    have "validateHost (u\<lparr>hostname := hn, host := hn\<rparr>)"
      using assms(1) by (auto simp: validateHost_def goodHost_def printable_fold containsCodePoint_def)
    then show ?thesis
      using first hn(2) None find by (simp add: parseHostname_def)
  next
    case (Some n)
    let ?v = "u\<lparr>hostname := hn, port := of_nat n, host := hn @ CHR '':'' # showNat n\<rparr>"
    have find: "advanceUntilMatches CHR '':'' (iter_of (hn @ CHR '':'' # showNat n)) = (at hn (CHR '':'' # showNat n), True)"
      using advanceUntilMatches_found [OF colon, of "[]"] by (simp add: iter_of_at)
    have views: "fromIterators (iter_of (hn @ CHR '':'' # showNat n)) (at hn (CHR '':'' # showNat n)) = hn"
      "fromIterators (iter_of (hn @ CHR '':'' # showNat n)) (setToEnd (at (hn @ '':'') (showNat n))) = hn @ CHR '':'' # showNat n"
      by (simp_all add: fromIterators_def iter_of_def at_def setToEnd_def)
    have "printable (hn @ CHR '':'' # showNat n)"
      using assms(1) printable_digits [OF showNat_digits] by (simp add: goodHost_def code_def)
    then have "validateHost ?v"
      using assms(1) by (auto simp: validateHost_def goodHost_def printable_fold containsCodePoint_def)
    then show ?thesis
      using first hn(2) Some find views parsePort_showNat [of n] assms(2)
      by (cases u) (simp add: parseHostname_def)
  qed
qed

lemma parseUserPassword_good:
  assumes "goodUser (Some (user, pw))"
  shows "parseUserPassword (user @ (case pw of None \<Rightarrow> [] | Some p \<Rightarrow> CHR '':'' # p)) u =
    (userOf (Some (user, pw)) u, True)"
proof (cases pw)
  case None
  have "advanceUntilMatches CHR '':'' (iter_of user) = (at user [], False)"
    using advanceUntilMatches_missing [of "CHR '':''" user "[]"] assms by (simp add: iter_of_at)
  then show ?thesis
    using assms None by (simp add: parseUserPassword_def printable_fold)
next
  case (Some p)
  have "advanceUntilMatches CHR '':'' (iter_of (user @ CHR '':'' # p)) = (at user (CHR '':'' # p), True)"
    using advanceUntilMatches_found [of "CHR '':''" user "[]" p] assms by (simp add: iter_of_at)
  then show ?thesis
    using assms Some fromIterators_at [of "[]" user "CHR '':'' # p"]
    by (simp add: parseUserPassword_def printable_fold iter_of_at code_def)
qed

lemma parseHost_good:
  assumes "goodUser us" and "goodHost hn" and "case prt of None \<Rightarrow> True | Some n \<Rightarrow> n \<le> 65535"
    and "host u = printUser us @ hn @ printPort prt"
  shows "parseHost u = ((portOf prt (userOf us u))\<lparr>hostname := hn, host := hn @ printPort prt\<rparr>, True)"
proof -
  have noat: "CHR ''@'' \<notin> set (hn @ printPort prt)"
    using assms(2) showNat_only [of "CHR ''@''"] by (cases prt) (auto simp: goodHost_def isdigit_def code_def)
  show ?thesis
  proof (cases us)
    case None
    have "advanceUntilMatches CHR ''@'' (iter_of (host u)) = (at (hn @ printPort prt) [], False)"
      using advanceUntilMatches_missing [OF noat, of "[]"] assms(4) None by (simp add: iter_of_at)
    then show ?thesis
      using parseHostname_good [OF assms(2,3)] assms(4) None
      by (simp add: parseHost_def iter_of_at)
  next
    case (Some up)
    obtain user pw where up: "up = (user, pw)" by fastforce
    let ?ui = "user @ (case pw of None \<Rightarrow> [] | Some p \<Rightarrow> CHR '':'' # p)"
    have ui: "printUser us = ?ui @ ''@''"
      using Some up by (cases pw) simp_all
    have "CHR ''@'' \<notin> set ?ui"
      using assms(1) Some up by (cases pw) auto
    then have "advanceUntilMatches CHR ''@'' (iter_of (host u)) = (at ?ui (CHR ''@'' # hn @ printPort prt), True)"
      using advanceUntilMatches_found [of "CHR ''@''" ?ui "[]" "hn @ printPort prt"] assms(4) ui
      by (simp add: iter_of_at)
    moreover have "fromIterators (iter_of (host u)) (at ?ui (CHR ''@'' # hn @ printPort prt)) = ?ui"
      using fromIterators_at [of "[]" ?ui "CHR ''@'' # hn @ printPort prt"] assms(4) ui by (simp add: iter_of_at)
    moreover have "parseUserPassword ?ui u = (userOf us u, True)"
      using parseUserPassword_good [of user pw u] assms(1) Some up by simp
    ultimately show ?thesis
      using parseHostname_good [OF assms(2,3)] by (simp add: parseHost_def)
  qed
qed

lemma parseWithPath_good:
  assumes "printable p" and "printable q" and "printable h" and "CHR ''?'' \<notin> set p" and "CHR ''#'' \<notin> set p"
    and "CHR ''#'' \<notin> set q" and "q = [] \<or> hd q = CHR ''?''" and "h = [] \<or> hd h = CHR ''#''"
    and "search u = []" and "hash u = []"
  shows "parseWithPath (at pre (p @ q @ h)) u =
    (u\<lparr>path := p @ q, pathname := p, search := q, hash := h\<rparr>, True)"
proof -
  have find: "advanceUntilMatches CHR ''#'' (at pre (p @ q @ h)) = (at (pre @ p @ q) h, h \<noteq> [])"
    using assms(5,6,8) advanceUntilMatches_missing [of "CHR ''#''" "p @ q" pre]
      advanceUntilMatches_found [of "CHR ''#''" "p @ q" pre "tl h"] by (cases h) auto
  have view: "fromIterators (at pre (p @ q @ h)) (at (pre @ p @ q) h) = p @ q"
    using fromIterators_at [of pre "p @ q" h] by simp
  let ?u = "u\<lparr>path := p @ q, pathname := p, search := q\<rparr>"
  have "advanceUntilMatches CHR ''?'' (iter_of (p @ q)) = (at p q, q \<noteq> [])"
    using assms(4,7) advanceUntilMatches_missing [of "CHR ''?''" p "[]"]
      advanceUntilMatches_found [of "CHR ''?''" p "[]" "tl q"] by (cases q) (auto simp: iter_of_at)
  then have pp: "parsePath (u\<lparr>path := p @ q\<rparr>) = (?u, True)"
    using assms(1,2,9,10) by (cases u; cases "q = []") (auto simp: parsePath_def validatePath_def printable_fold)
  have valid: "validatePath (?u\<lparr>hash := h\<rparr>)"
    using assms(1-3) by (simp add: validatePath_def printable_fold)
  have "parseWithPath (at pre (p @ q @ h)) u = (if h \<noteq> [] then (?u\<lparr>hash := h\<rparr>, True) else (?u, True))"
    using valid by (simp add: parseWithPath_def find view pp)
  then show ?thesis
    using assms(9,10) by (cases u) simp
qed

lemma parseAuthority_path:
  assumes "goodUser us" and "goodHost hn" and "case prt of None \<Rightarrow> True | Some n \<Rightarrow> n \<le> 65535"
    and "a = printUser us @ hn @ printPort prt"
  shows "parseAuthority (at pre (a @ CHR ''/'' # rest)) u =
    parseWithPath (at (pre @ a) (CHR ''/'' # rest))
      ((portOf prt (userOf us u))\<lparr>hostname := hn, host := hn @ printPort prt\<rparr>)"
proof -
  have "CHR ''/'' \<notin> set a"
    using assms showNat_only [of "CHR ''/''"]
    by (cases us rule: printUser.cases; cases prt) (auto simp: goodHost_def isdigit_def code_def)
  then have find: "advanceUntilMatches CHR ''/'' (at pre (a @ CHR ''/'' # rest)) = (at (pre @ a) (CHR ''/'' # rest), True)"
    by simp
  have host: "parseHost (u\<lparr>host := a\<rparr>) = ((portOf prt (userOf us u))\<lparr>hostname := hn, host := hn @ printPort prt\<rparr>, True)"
    using parseHost_good [OF assms(1-3), of "u\<lparr>host := a\<rparr>"] assms(4)
    by (cases u; cases us rule: printUser.cases; cases prt) simp_all
  show ?thesis
    by (simp add: parseAuthority_def find host split_beta)
qed

text \<open>
  C31: the round trip of a URL. A URL printed from a scheme, optional user information, a host
  name, an optional port up to 65535, a path and optional query and fragment is accepted, and
  every component comes back as it was printed; without a port the scheme's default is taken,
  and \<open>host\<close> and \<open>path\<close> are the joined components.
\<close>

theorem url_roundtrip:
  assumes "scheme = ''http'' \<or> scheme = ''https''" and "goodUser us" and "goodHost hn"
    and "case prt of None \<Rightarrow> True | Some n \<Rightarrow> n \<le> 65535"
    and "printable p" and "hd p = CHR ''/''" and "p \<noteq> []" and "printable q" and "printable h"
    and "CHR ''?'' \<notin> set p" and "CHR ''#'' \<notin> set p" and "CHR ''#'' \<notin> set q"
    and "q = [] \<or> hd q = CHR ''?''" and "h = [] \<or> hd h = CHR ''#''"
  shows "url_parse (scheme @ ''://'' @ printUser us @ hn @ printPort prt @ p @ q @ h) =
    (\<lparr>protocol = scheme, username = username (userOf us empty_url), password = password (userOf us empty_url),
      hostname = hn, port = (case prt of None \<Rightarrow> if scheme = ''http'' then 80 else 443 | Some n \<Rightarrow> of_nat n),
      host = hn @ printPort prt, pathname = p, path = p @ q, search = q, hash = h\<rparr>, True)"
proof -
  let ?a = "printUser us @ hn @ printPort prt"
  let ?u = "empty_url\<lparr>protocol := scheme, port := (if scheme = ''http'' then 80 else 443)\<rparr>"
  obtain p' where p': "p = CHR ''/'' # p'"
    using assms(6,7) by (cases p) auto
  have scheme: "CHR '':'' \<notin> set scheme"
    using assms(1) by auto
  have "url_parse (scheme @ CHR '':'' # CHR ''/'' # CHR ''/'' # ?a @ p @ q @ h) =
      parseAuthority (at (scheme @ ''://'') (?a @ p @ q @ h)) ?u"
    using scheme assms(1) fromIterators_at [of "[]" scheme]
    by (auto simp: url_parse_def iter_of_at validateProtocol_def equalsIgnoreCase_def tolower_def code_def)
  moreover have "parseAuthority (at (scheme @ ''://'') (?a @ p @ q @ h)) ?u =
      parseWithPath (at (scheme @ ''://'' @ ?a) (p @ q @ h))
        ((portOf prt (userOf us ?u))\<lparr>hostname := hn, host := hn @ printPort prt\<rparr>)"
    using parseAuthority_path [OF assms(2-4) refl, of "scheme @ ''://''" "p' @ q @ h" ?u] p' by simp
  moreover have "search (portOf prt (userOf us ?u)) = []" "hash (portOf prt (userOf us ?u)) = []"
    by (cases us rule: printUser.cases; cases prt; simp add: empty_url_def)+
  ultimately show ?thesis
    using parseWithPath_good [OF assms(5,8-14), of _ "scheme @ ''://'' @ ?a"]
    by (cases us rule: printUser.cases; cases prt) (simp_all add: empty_url_def)
qed

theorem url_roundtrip_witness:
  "url_parse ''http://user:pw@site.com:81/pa/th?q=v#h'' =
    (\<lparr>protocol = ''http'', username = ''user'', password = ''pw'', hostname = ''site.com'', port = 81,
      host = ''site.com:81'', pathname = ''/pa/th'', path = ''/pa/th?q=v'', search = ''?q=v'', hash = ''#h''\<rparr>, True)"
proof -
  have *: "showNat 81 = ''81''"
    by code_simp
  have good: "goodUser (Some (''user'', Some ''pw''))" "goodHost ''site.com''"
    by (simp_all add: goodHost_def code_def)
  show ?thesis
    using url_roundtrip [of "''http''" "Some (''user'', Some ''pw'')" "''site.com''" "Some 81" "''/pa/th''" "''?q=v''" "''#h''"]
      good by (simp add: * code_def empty_url_def)
qed

section \<open>Corner cases of URLs\<close>

lemma parsePort_junk:
  assumes "n \<le> 65535" and "length (showNat n @ junk) < 12" and "junk = [] \<or> \<not> isdigit (hd junk)"
  shows "parsePort (showNat n @ junk) = Some (of_nat n)"
  using parseInt32_printed [of n junk] assms by (simp add: parsePort_def)

text \<open>
  The host of a bracketed address. With a port behind the bracket the address and the port
  number are right, but \<open>host\<close> ends at the colon: the branch does not move its iterator to the
  end of the port as the branch for plain names does.
\<close>

theorem url_ipv6_host_without_port:
  assumes "printable x" and "CHR '']'' \<notin> set x" and "n \<le> 65535"
  shows "parseHostname (''['' @ x @ '']:'' @ showNat n) u =
    (u\<lparr>hostname := ''['' @ x @ '']'', port := of_nat n, host := ''['' @ x @ '']:''\<rparr>, True)"
proof -
  let ?s = "''['' @ x @ '']:'' @ showNat n"
  have first: "advanceRead (iter_of ?s) = (at ''['' (x @ CHR '']'' # CHR '':'' # showNat n), Some CHR ''['')"
    by (simp add: iter_of_at)
  have close: "advanceUntilMatches CHR '']'' (at ''['' (x @ CHR '']'' # CHR '':'' # showNat n)) =
      (at (CHR ''['' # x) (CHR '']'' # CHR '':'' # showNat n), True)"
    using advanceUntilMatches_found [OF assms(2), of "''[''"] by simp
  have views: "fromIterators (iter_of ?s) (at (CHR ''['' # x @ '']'') (CHR '':'' # showNat n)) = ''['' @ x @ '']''"
    "fromIterators (iter_of ?s) (at (CHR ''['' # x @ '']:'') (showNat n)) = ''['' @ x @ '']:''"
    by (simp_all add: fromIterators_def iter_of_def at_def)
  have "validateHost (u\<lparr>hostname := ''['' @ x @ '']'', port := of_nat n, host := ''['' @ x @ '']:''\<rparr>)"
    using assms(1) by (simp add: validateHost_def printable_fold startsWith_def endsWith_def code_def)
  then show ?thesis
    using first close views parsePort_showNat [OF assms(3)]
    by (cases u) (simp add: parseHostname_def)
qed

theorem url_ipv6_host_without_port_witness:
  "parseHostname ''[::1]:81'' empty_url =
     (empty_url\<lparr>hostname := ''[::1]'', port := 81, host := ''[::1]:''\<rparr>, True)"
proof -
  have "showNat 81 = ''81''"
    by code_simp
  then show ?thesis
    using url_ipv6_host_without_port [of "''::1''" 81 empty_url] by (simp add: code_def)
qed

text \<open>
  What stands behind the digits of a port is not looked at. A short suffix that does not
  start with a digit is accepted, ignored for the number and kept in \<open>host\<close>.
\<close>

theorem url_port_suffix_ignored:
  assumes "goodHost hn" and "n \<le> 65535" and "printable junk" and "length (showNat n @ junk) < 12"
    and "junk = [] \<or> \<not> isdigit (hd junk)"
  shows "parseHostname (hn @ CHR '':'' # showNat n @ junk) u =
    (u\<lparr>hostname := hn, port := of_nat n, host := hn @ CHR '':'' # showNat n @ junk\<rparr>, True)"
proof -
  let ?t = "showNat n @ junk"
  obtain c cs where hn: "hn = c # cs" "c \<noteq> CHR ''[''"
    using assms(1) by (cases hn) (auto simp: goodHost_def)
  have colon: "CHR '':'' \<notin> set hn"
    using assms(1) by (simp add: goodHost_def)
  have first: "advanceRead (iter_of (hn @ CHR '':'' # ?t)) = (at [c] (cs @ CHR '':'' # ?t), Some c)"
    using hn by (simp add: iter_of_at)
  have find: "advanceUntilMatches CHR '':'' (iter_of (hn @ CHR '':'' # ?t)) = (at hn (CHR '':'' # ?t), True)"
    using advanceUntilMatches_found [OF colon, of "[]"] by (simp add: iter_of_at)
  have views: "fromIterators (iter_of (hn @ CHR '':'' # ?t)) (at hn (CHR '':'' # ?t)) = hn"
    "fromIterators (iter_of (hn @ CHR '':'' # ?t)) (setToEnd (at (hn @ '':'') ?t)) = hn @ CHR '':'' # ?t"
    by (simp_all add: fromIterators_def iter_of_def at_def setToEnd_def)
  have "validateHost (u\<lparr>hostname := hn, port := of_nat n, host := hn @ CHR '':'' # ?t\<rparr>)"
    using assms(1,3) printable_digits [OF showNat_digits]
    by (auto simp: validateHost_def goodHost_def printable_fold containsCodePoint_def code_def)
  then show ?thesis
    using first hn(2) find views parsePort_junk [OF assms(2,4,5)]
    by (cases u) (simp add: parseHostname_def)
qed

theorem url_port_suffix_ignored_witness:
  "parseHostname ''site.com:80abc'' empty_url =
     (empty_url\<lparr>hostname := ''site.com'', port := 80, host := ''site.com:80abc''\<rparr>, True)"
proof -
  have "showNat 80 = ''80''"
    by code_simp
  moreover have "goodHost ''site.com''" "\<not> isdigit CHR ''a''"
    by (simp_all add: goodHost_def isdigit_def code_def)
  ultimately show ?thesis
    using url_port_suffix_ignored [of "''site.com''" 80 "''abc''" empty_url] by (simp add: code_def)
qed

text \<open>
  A URL without a path. The path is a single slash; a query goes to \<open>search\<close>, but with the
  fragment still attached to it, while with a path \<open>search\<close> ends at the hash.
\<close>

theorem url_without_path:
  assumes "goodUser us" and "goodHost hn" and "case prt of None \<Rightarrow> True | Some n \<Rightarrow> n \<le> 65535"
    and "printable q" and "printable h" and "CHR ''/'' \<notin> set (q @ h)" and "CHR ''#'' \<notin> set q"
    and "hd q = CHR ''?''" and "q \<noteq> []" and "h = [] \<or> hd h = CHR ''#''"
    and "CHR ''?'' \<notin> set (printUser us @ hn)" and "CHR ''#'' \<notin> set (printUser us @ hn)" and "hash u = []"
  shows "parseAuthority (at pre (printUser us @ hn @ printPort prt @ q @ h)) u =
    ((portOf prt (userOf us u))\<lparr>hostname := hn, host := hn @ printPort prt, path := ''/'', pathname := ''/'',
       search := q @ h, hash := h\<rparr>, True)"
proof -
  let ?a = "printUser us @ hn @ printPort prt"
  obtain q' where q: "q = CHR ''?'' # q'"
    using assms(8,9) by (cases q) auto
  have digits: "CHR ''/'' \<notin> set (printPort prt)" "CHR ''?'' \<notin> set (printPort prt)" "CHR ''#'' \<notin> set (printPort prt)"
    using showNat_only [of "CHR ''/''"] showNat_only [of "CHR ''?''"] showNat_only [of "CHR ''#''"]
    by (cases prt; simp add: isdigit_def code_def)+
  have "CHR ''/'' \<notin> set (?a @ q @ h)"
    using assms(1,2,6) digits by (cases us rule: printUser.cases) (auto simp: goodHost_def)
  then have find: "advanceUntilMatches CHR ''/'' (at pre (?a @ q @ h)) = (at (pre @ ?a @ q @ h) [], False)"
    using advanceUntilMatches_missing [of "CHR ''/''" "?a @ q @ h" pre] by simp
  have view: "fromIterators (at pre (?a @ q @ h)) (at (pre @ ?a @ q @ h) []) = ?a @ q @ h"
    using fromIterators_at [of pre "?a @ q @ h" "[]"] by simp
  have any: "advanceUntilMatchesAny [CHR ''?'', CHR ''#''] (iter_of (?a @ q @ h)) = (at ?a (q @ h), Some CHR ''?'')"
    using advanceUntilMatchesAny_found [of ?a "[CHR ''?'', CHR ''#'']" "CHR ''?''" "[]" "q' @ h"] assms(11,12) digits
    by (auto simp: iter_of_at q)
  have host: "parseHost (u\<lparr>host := ?a\<rparr>) = ((portOf prt (userOf us u))\<lparr>hostname := hn, host := hn @ printPort prt\<rparr>, True)"
    using parseHost_good [OF assms(1-3), of "u\<lparr>host := ?a\<rparr>"]
    by (cases u; cases us rule: printUser.cases; cases prt) simp_all
  have hsh: "advanceUntilMatches CHR ''#'' (at ?a (q @ h)) = (at (?a @ q) h, h \<noteq> [])"
    using assms(7,10) advanceUntilMatches_missing [of "CHR ''#''" q ?a]
      advanceUntilMatches_found [of "CHR ''#''" q ?a "tl h"] by (cases h) auto
  let ?v = "(portOf prt (userOf us u))\<lparr>hostname := hn, host := hn @ printPort prt\<rparr>"
  have "hash ?v = []"
    using assms(13) by (cases us rule: printUser.cases; cases prt) simp_all
  then have tail: "parseNoPath (at ?a (q @ h)) (Some CHR ''?'') ?v =
      (?v\<lparr>path := ''/'', pathname := ''/'', search := q @ h, hash := h\<rparr>, True)"
    unfolding parseNoPath_def hsh
    using assms(4,5) by (cases ?v; cases "h = []") (auto simp: validatePath_def printable_fold code_def)
  have "parseAuthority (at pre (?a @ q @ h)) u = parseNoPath (at ?a (q @ h)) (Some CHR ''?'') ?v"
    using host by (simp add: parseAuthority_def find [simplified] view [simplified] any [simplified])
  then show ?thesis
    using tail by simp
qed

theorem url_without_path_witness:
  "parseAuthority (at ''http://'' ''h.com?x=1#f'') empty_url =
     (empty_url\<lparr>hostname := ''h.com'', host := ''h.com'', path := ''/'', pathname := ''/'',
        search := ''?x=1#f'', hash := ''#f''\<rparr>, True)"
proof -
  have "goodHost ''h.com''"
    by (simp add: goodHost_def code_def)
  then show ?thesis
    using url_without_path [of None "''h.com''" None "''?x=1''" "''#f''" empty_url "''http://''"]
    by (simp add: code_def empty_url_def)
qed

end
