(* ===== verification/HttpRouter.thy ===== *)
theory HttpRouter
  imports HttpUrl Cursors HttpParser
begin

text \<open>
  \<open>Libraries/Http/HttpRouter.h\<close> and \<open>HttpRouter.cpp\<close>: matching a request target against a list
  of routes, and the value of the Allow header. The caller's \<open>params\<close> array is a list of fixed
  length that the operations return updated.
\<close>

datatype RouteStatus = Matched | MethodNotAllowed | NotFound | TooManyParams

record routeParam =
  param_name :: "char list"
  param_value :: "char list"

record route =
  route_method :: Method
  pathPattern :: "char list"

text \<open>\<open>route\<close> points into the caller's routes: it is the index of the route.\<close>

record routeMatch =
  match_status :: RouteStatus
  match_route :: "nat option"
  match_numParams :: nat

definition empty_match :: routeMatch where
  "empty_match = \<lparr>match_status = NotFound, match_route = None, match_numParams = 0\<rparr>"

section \<open>Paths\<close>

definition trimLeadingSlash :: "char list \<Rightarrow> char list" where
  "trimLeadingSlash pth = (if length pth > 0 \<and> pth ! 0 = CHR ''/'' then drop 1 pth else pth)"

text \<open>The cursor left behind, and the segment when the function returns \<open>true\<close>.\<close>

definition nextSegment :: "char list \<Rightarrow> nat \<Rightarrow> nat \<times> char list option" where
  "nextSegment pth cursor =
     (if cursor > length pth then (cursor, None)
      else if cursor = length pth then (cursor + 1, None)
      else
        (let e = scanUntil (\<lambda>c. c = CHR ''/'') pth cursor in
         (if e < length pth \<and> pth ! e = CHR ''/'' then e + 1 else e, Some (take (e - cursor) (drop cursor pth)))))"

definition isParamSegment :: "char list \<Rightarrow> bool" where
  "isParamSegment segment \<longleftrightarrow> length segment > 1 \<and> segment ! 0 = CHR '':''"

fun router_methodName :: "Method \<Rightarrow> char list" where
  "router_methodName HttpGET = ''GET''"
| "router_methodName HttpPUT = ''PUT''"
| "router_methodName HttpPOST = ''POST''"
| "router_methodName HttpHEAD = ''HEAD''"
| "router_methodName HttpPATCH = ''PATCH''"
| "router_methodName HttpDELETE = ''DELETE''"
| "router_methodName HttpOPTIONS = ''OPTIONS''"

text \<open>\<open>append\<close> into a storage of \<open>cap\<close> bytes of which \<open>out\<close> is written.\<close>

definition append_text :: "nat \<Rightarrow> char list \<Rightarrow> char list \<Rightarrow> char list option" where
  "append_text cap out v = (if length out + length v > cap then None else Some (out @ v))"

lemma nextSegment_bounds:
  "nextSegment pth cursor = (c, Some s) \<Longrightarrow> cursor < c \<and> c \<le> length pth"
proof -
  assume "nextSegment pth cursor = (c, Some s)"
  then have lt: "cursor < length pth"
    and c: "c = (let e = scanUntil (\<lambda>c. c = CHR ''/'') pth cursor in
      if e < length pth \<and> pth ! e = CHR ''/'' then e + 1 else e)"
    by (auto simp: nextSegment_def Let_def split: if_splits)
  let ?w = "takeWhile (\<lambda>x. x \<noteq> CHR ''/'') (drop cursor pth)"
  have e: "scanUntil (\<lambda>c. c = CHR ''/'') pth cursor = cursor + length ?w"
    by (simp add: scanUntil_eq)
  have le: "length ?w \<le> length pth - cursor"
    using length_takeWhile_le [of "\<lambda>x. x \<noteq> CHR ''/''" "drop cursor pth"] by simp
  show ?thesis
  proof (cases "length ?w = 0")
    case True
    then have "pth ! cursor = CHR ''/''"
      using lt by (cases "drop cursor pth") (auto simp: nth_via_drop split: if_splits)
    then show ?thesis
      using c e True lt by (simp add: Let_def)
  next
    case False
    then show ?thesis
      using c e le lt by (auto simp: Let_def split: if_splits)
  qed
qed

text \<open>The loop of \<open>matchPath\<close>: the status, the params and \<open>numParams\<close>.\<close>

function matchLoop :: "char list \<Rightarrow> char list \<Rightarrow> nat \<Rightarrow> nat \<Rightarrow> routeParam list \<Rightarrow> nat \<Rightarrow>
    RouteStatus \<times> routeParam list \<times> nat" where
  "matchLoop pattern requestPath patternCursor pathCursor params numParams =
     (case nextSegment pattern patternCursor of
        (_, None) \<Rightarrow>
          (case nextSegment requestPath pathCursor of
             (_, None) \<Rightarrow> (Matched, params, numParams)
           | (_, Some _) \<Rightarrow> (NotFound, params, numParams))
      | (patternCursor', Some patternSegment) \<Rightarrow>
          (case nextSegment requestPath pathCursor of
             (_, None) \<Rightarrow> (NotFound, params, numParams)
           | (pathCursor', Some pathSegment) \<Rightarrow>
               if isParamSegment patternSegment then
                 (if numParams \<ge> length params then (TooManyParams, params, numParams)
                  else matchLoop pattern requestPath patternCursor' pathCursor'
                         (params[numParams := \<lparr>param_name = drop 1 patternSegment, param_value = pathSegment\<rparr>])
                         (numParams + 1))
               else if patternSegment \<noteq> pathSegment then (NotFound, params, numParams)
               else matchLoop pattern requestPath patternCursor' pathCursor' params numParams))"
  by pat_completeness auto
termination
  by (relation "measure (\<lambda>(pattern, requestPath, patternCursor, _). length pattern - patternCursor)")
    (auto dest!: nextSegment_bounds [OF sym])

declare matchLoop.simps [simp del]

definition matchPath :: "char list \<Rightarrow> char list \<Rightarrow> routeParam list \<Rightarrow> RouteStatus \<times> routeParam list \<times> nat" where
  "matchPath pattern requestPath params =
     matchLoop (trimLeadingSlash pattern) (trimLeadingSlash requestPath) 0 0 params 0"

section \<open>The router\<close>

text \<open>The loop over the routes from index \<open>idx\<close> on.\<close>

fun matchRoutes :: "Method \<Rightarrow> char list \<Rightarrow> nat \<Rightarrow> route list \<Rightarrow> routeParam list \<Rightarrow> bool \<Rightarrow>
    routeMatch \<times> routeParam list" where
  "matchRoutes m requestPath idx [] params pathMatched =
     (empty_match\<lparr>match_status := (if pathMatched then MethodNotAllowed else NotFound)\<rparr>, params)"
| "matchRoutes m requestPath idx (r # routes) params pathMatched =
     (case matchPath (pathPattern r) requestPath params of (status, params', numParams) \<Rightarrow>
        if status = TooManyParams then (empty_match\<lparr>match_status := status\<rparr>, params')
        else if status \<noteq> Matched then matchRoutes m requestPath (idx + 1) routes params' pathMatched
        else if route_method r = m
        then (\<lparr>match_status = Matched, match_route = Some idx, match_numParams = numParams\<rparr>, params')
        else matchRoutes m requestPath (idx + 1) routes params' True)"

definition router_match :: "route list \<Rightarrow> Method \<Rightarrow> char list \<Rightarrow> routeParam list \<Rightarrow>
    string + routeMatch \<times> routeParam list" where
  "router_match routes m requestTarget params =
     (case target_parse requestTarget of
        Inl e \<Rightarrow> Inl e
      | Inr target \<Rightarrow> Inr (matchRoutes m (target_path target) 0 routes params False))"

fun containsMethod :: "Method list \<Rightarrow> Method \<Rightarrow> bool" where
  "containsMethod [] m = False"
| "containsMethod (x # xs) m = (if x = m then True else containsMethod xs m)"

text \<open>The \<open>methods\<close> array filled so far; \<open>params\<close> is the local array of eight.\<close>

fun allowedMethods :: "char list \<Rightarrow> route list \<Rightarrow> routeParam list \<Rightarrow> Method list \<Rightarrow> Method list" where
  "allowedMethods requestPath [] params methods = methods"
| "allowedMethods requestPath (r # routes) params methods =
     (case matchPath (pathPattern r) requestPath params of (status, params', numParams) \<Rightarrow>
        allowedMethods requestPath routes params'
          (if status = Matched \<and> \<not> containsMethod methods (route_method r)
           then methods @ [route_method r] else methods))"

fun printMethods :: "nat \<Rightarrow> nat \<Rightarrow> char list \<Rightarrow> Method list \<Rightarrow> char list option" where
  "printMethods cap idx out [] = Some out"
| "printMethods cap idx out (m # ms) =
     (case (if idx > 0 then append_text cap out '', '' else Some out) of
        None \<Rightarrow> None
      | Some out1 \<Rightarrow>
          (case append_text cap out1 (router_methodName m) of
             None \<Rightarrow> None
           | Some out2 \<Rightarrow> printMethods cap (idx + 1) out2 ms))"

definition allow_params :: "routeParam list" where
  "allow_params = replicate 8 \<lparr>param_name = [], param_value = []\<rparr>"

definition formatAllowHeader :: "route list \<Rightarrow> char list \<Rightarrow> nat \<Rightarrow> string + char list" where
  "formatAllowHeader routes requestTarget storage =
     (case target_parse requestTarget of
        Inl e \<Rightarrow> Inl e
      | Inr target \<Rightarrow>
          (case printMethods storage 0 [] (allowedMethods (target_path target) routes allow_params []) of
             None \<Rightarrow> Inl ''HttpRouter Allow output buffer is too small''
           | Some allow \<Rightarrow> Inr allow))"

end
