(* ===== verification/HttpRouterProps.thy ===== *)
theory HttpRouterProps
  imports HttpRouter
begin

text \<open>
  What the router promises: a pattern matches segment by segment, a match is the first route that
  fits, and the Allow header lists each method that would have matched once.
\<close>

section \<open>Segments\<close>

definition segments :: "char list \<Rightarrow> char list list" where
  "segments p = pieces CHR ''/'' (trimLeadingSlash p)"

definition segment_next :: "char list \<times> nat \<Rightarrow> ((char list \<times> nat) \<times> char list) option" where
  "segment_next pc = (case nextSegment (fst pc) (snd pc) of
     (c, Some s) \<Rightarrow> Some ((fst pc, c), s) | (c, None) \<Rightarrow> None)"

lemma nextSegment_piece:
  assumes "drop c p \<noteq> []"
  shows "\<exists>c'. nextSegment p c = (c', Some (takeWhile (\<lambda>y. y \<noteq> CHR ''/'') (drop c p))) \<and>
    drop c' p = drop 1 (dropWhile (\<lambda>y. y \<noteq> CHR ''/'') (drop c p))"
proof -
  let ?w = "takeWhile (\<lambda>y. y \<noteq> CHR ''/'') (drop c p)" and ?t = "dropWhile (\<lambda>y. y \<noteq> CHR ''/'') (drop c p)"
  have less: "c < length p"
    using assms by simp
  have e: "scanUntil (\<lambda>c. c = CHR ''/'') p c = c + length ?w"
    by (simp add: scanUntil_eq)
  have tail: "drop (c + length ?w) p = ?t"
    by (simp add: dropWhile_eq_drop add.commute)
  have at_end: "c + length ?w < length p \<longleftrightarrow> ?t \<noteq> []"
    using tail by (metis drop_eq_Nil not_le)
  have slash: "?t \<noteq> [] \<Longrightarrow> p ! (c + length ?w) = CHR ''/''"
  proof -
    assume "?t \<noteq> []"
    then have "p ! (c + length ?w) = hd ?t" "hd ?t = CHR ''/''"
      using tail at_end hd_dropWhile [of "\<lambda>y. y \<noteq> CHR ''/''" "drop c p"] by (metis hd_drop_conv_nth, blast)
    then show ?thesis by simp
  qed
  have seg: "take (length ?w) (drop c p) = ?w"
    by (metis takeWhile_eq_take)
  show ?thesis
  proof (cases "?t = []")
    case True
    then have "nextSegment p c = (c + length ?w, Some ?w)"
      using less at_end seg unfolding nextSegment_def e Let_def by simp
    then show ?thesis
      using tail True by (metis drop_Nil)
  next
    case False
    then have "nextSegment p c = (c + length ?w + 1, Some ?w)"
      using less at_end slash seg unfolding nextSegment_def e Let_def by simp
    moreover have "drop (c + length ?w + 1) p = drop 1 ?t"
      using tail by (metis drop_drop add.commute)
    ultimately show ?thesis
      by blast
  qed
qed

lemma nextSegment_over: "drop c p = [] \<Longrightarrow> snd (nextSegment p c) = None"
  by (auto simp: nextSegment_def)

interpretation segmentCursor: cursor_iterator segment_next "\<lambda>(p, c). drop c p" "CHR ''/''" "\<lambda>s. s"
proof
  fix s :: "char list \<times> nat"
  assume "(case s of (p, c) \<Rightarrow> drop c p) = []"
  then show "segment_next s = None"
    using nextSegment_over [of "snd s" "fst s"] by (cases s) (auto simp: segment_next_def split: prod.splits)
next
  fix s :: "char list \<times> nat"
  assume "(case s of (p, c) \<Rightarrow> drop c p) \<noteq> []"
  then show "\<exists>s'. segment_next s = Some (s', takeWhile (\<lambda>y. y \<noteq> CHR ''/'') (case s of (p, c) \<Rightarrow> drop c p)) \<and>
      (case s' of (p, c) \<Rightarrow> drop c p) = drop 1 (dropWhile (\<lambda>y. y \<noteq> CHR ''/'') (case s of (p, c) \<Rightarrow> drop c p))"
    using nextSegment_piece [of "snd s" "fst s"] by (cases s) (auto simp: segment_next_def)
qed

text \<open>The matching loop on segments instead of cursors.\<close>

fun segMatch :: "char list list \<Rightarrow> char list list \<Rightarrow> routeParam list \<Rightarrow> nat \<Rightarrow> RouteStatus \<times> routeParam list \<times> nat" where
  "segMatch [] [] params n = (Matched, params, n)"
| "segMatch (p # ps) (q # qs) params n =
     (if isParamSegment p then
        (if n \<ge> length params then (TooManyParams, params, n)
         else segMatch ps qs (params[n := \<lparr>param_name = drop 1 p, param_value = q\<rparr>]) (n + 1))
      else if p \<noteq> q then (NotFound, params, n)
      else segMatch ps qs params n)"
| "segMatch _ _ params n = (NotFound, params, n)"

lemma next_cases:
  obtains (over) c' where "nextSegment p c = (c', None)" "pieces CHR ''/'' (drop c p) = []"
  | (segment) c' s where "nextSegment p c = (c', Some s)" "pieces CHR ''/'' (drop c p) = s # pieces CHR ''/'' (drop c' p)"
proof (cases "drop c p = []")
  case True
  then show ?thesis
    using that(1) nextSegment_over [OF True] by (cases "nextSegment p c") simp
next
  case False
  then obtain c' where "nextSegment p c = (c', Some (takeWhile (\<lambda>y. y \<noteq> CHR ''/'') (drop c p)))"
    "drop c' p = drop 1 (dropWhile (\<lambda>y. y \<noteq> CHR ''/'') (drop c p))"
    using nextSegment_piece by blast
  then show ?thesis
    using that(2) False by (simp add: pieces_ne)
qed

lemma matchLoop_segMatch:
  "matchLoop pattern p pc qc params n = segMatch (pieces CHR ''/'' (drop pc pattern)) (pieces CHR ''/'' (drop qc p)) params n"
proof (induction pattern p pc qc params n rule: matchLoop.induct)
  case (1 pattern p pc qc params n)
  show ?case
  proof (cases rule: next_cases [of pattern pc])
    case (over c1)
    then show ?thesis
      by (cases rule: next_cases [of p qc]) (simp_all add: matchLoop.simps)
  next
    case (segment c1 s1)
    note left = segment
    show ?thesis
    proof (cases rule: next_cases [of p qc])
      case (over c2)
      then show ?thesis
        using left by (simp add: matchLoop.simps)
    next
      case (segment c2 s2)
      then show ?thesis
        using left 1 by (subst matchLoop.simps) auto
    qed
  qed
qed

lemma matchPath_segMatch: "matchPath pattern p params = segMatch (segments pattern) (segments p) params 0"
  by (simp add: matchPath_def matchLoop_segMatch segments_def)

text \<open>The bindings of a pattern that fits.\<close>

definition fits :: "char list list \<Rightarrow> char list list \<Rightarrow> bool" where
  "fits ps qs \<longleftrightarrow> list_all2 (\<lambda>p q. isParamSegment p \<or> p = q) ps qs"

definition bindings :: "char list list \<Rightarrow> char list list \<Rightarrow> routeParam list" where
  "bindings ps qs = [\<lparr>param_name = drop 1 (fst x), param_value = snd x\<rparr>. x \<leftarrow> zip ps qs, isParamSegment (fst x)]"

lemma bindings_simps [simp]:
  "bindings [] qs = []"
  "bindings (p # ps) (q # qs) =
     (if isParamSegment p then [\<lparr>param_name = drop 1 p, param_value = q\<rparr>] else []) @ bindings ps qs"
  by (simp_all add: bindings_def)

lemma fits_simps [simp]:
  "fits [] qs \<longleftrightarrow> qs = []" "fits ps [] \<longleftrightarrow> ps = []"
  "fits (p # ps) (q # qs) \<longleftrightarrow> (isParamSegment p \<or> p = q) \<and> fits ps qs"
  by (auto simp: fits_def)

lemma segMatch_spec:
  "n \<le> length params \<Longrightarrow> segMatch ps qs params n = (st, params', n') \<Longrightarrow>
     length params' = length params \<and>
     (st = Matched \<longleftrightarrow> fits ps qs \<and> n + length (bindings ps qs) \<le> length params) \<and>
     (st = TooManyParams \<longrightarrow> length params < n + length (bindings ps qs)) \<and> st \<noteq> MethodNotAllowed \<and>
     (st = Matched \<longrightarrow> n' = n + length (bindings ps qs) \<and> take n' params' = take n params @ bindings ps qs)"
proof (induction ps qs params n arbitrary: st params' n' rule: segMatch.induct)
  case (2 p ps q qs params n)
  show ?case
  proof (cases "isParamSegment p")
    case True
    show ?thesis
    proof (cases "length params \<le> n")
      case over: True
      then show ?thesis
        using 2(3,4) True by auto
    next
      case False
      let ?b = "\<lparr>param_name = drop 1 p, param_value = q\<rparr>"
      have pre: "take (n + 1) (params[n := ?b]) = take n params @ [?b]"
        using False by (simp add: take_Suc_snoc)
      have run: "segMatch ps qs (params[n := ?b]) (n + 1) = (st, params', n')"
        using 2(4) True False by simp
      have "n + 1 \<le> length (params[n := ?b])"
        using False by simp
      note ih = 2(1) [OF True False this run, unfolded pre]
      have b: "bindings (p # ps) (q # qs) = ?b # bindings ps qs" "fits (p # ps) (q # qs) \<longleftrightarrow> fits ps qs"
        using True by simp_all
      show ?thesis
        unfolding b using ih by (cases "st = Matched") auto
    qed
  next
    case False
    show ?thesis
    proof (cases "p = q")
      case True
      have run: "segMatch ps qs params n = (st, params', n')"
        using 2(4) True False by simp
      show ?thesis
        using 2(2) [OF False _ 2(3) run] True False by auto
    next
      case neq: False
      then show ?thesis
        using 2(4) False by auto
    qed
  qed
qed auto

text \<open>
  Matching a path. The status is \<open>Matched\<close> exactly when the pattern and the path have the
  same number of segments, every segment that is not a parameter is equal, and the parameters fit
  the array; then the array starts with the bound names and values, in order. Leading slashes and
  one trailing slash make no difference.
\<close>

theorem matchPath_exact:
  "case matchPath pattern p params of (st, params', n) \<Rightarrow>
     (st = Matched \<longleftrightarrow> list_all2 (\<lambda>a b. isParamSegment a \<or> a = b) (segments pattern) (segments p) \<and>
        length (bindings (segments pattern) (segments p)) \<le> length params) \<and>
     (st = Matched \<longrightarrow> take n params' = bindings (segments pattern) (segments p)) \<and>
     length params' = length params"
proof -
  obtain st params' n where eq: "segMatch (segments pattern) (segments p) params 0 = (st, params', n)"
    by (metis prod_cases3)
  show ?thesis
    using segMatch_spec [OF _ eq] by (auto simp: matchPath_segMatch eq fits_def)
qed

theorem matchPath_exact_witness:
  "case matchPath ''/a/:id/'' ''/a/7'' [\<lparr>param_name = [], param_value = []\<rparr>] of (st, params', n) \<Rightarrow>
     st = Matched \<and> take n params' = [\<lparr>param_name = ''id'', param_value = ''7''\<rparr>]"
proof -
  have seg: "segments ''/a/:id/'' = [''a'', '':id'']" "segments ''/a/7'' = [''a'', ''7'']"
    by code_simp+
  show ?thesis
    using matchPath_exact [of "''/a/:id/''" "''/a/7''" "[\<lparr>param_name = [], param_value = []\<rparr>]"]
    by (auto simp: seg isParamSegment_def split: prod.splits)
qed

section \<open>The first route that fits\<close>

text \<open>The status of a pattern does not depend on what the array of params holds.\<close>

lemma segMatch_status:
  "length params = length params2 \<Longrightarrow> fst (segMatch ps qs params n) = fst (segMatch ps qs params2 n)"
proof (induction ps qs params n arbitrary: params2 rule: segMatch.induct)
  case (2 p ps q qs params n)
  show ?case
  proof (cases "isParamSegment p")
    case True
    show ?thesis
    proof (cases "length params \<le> n")
      case False
      then show ?thesis
        using 2(1) [OF True False, of "params2[n := \<lparr>param_name = drop 1 p, param_value = q\<rparr>]"] 2(3) True by simp
    qed (use 2(3) True in simp)
  next
    case False
    then show ?thesis
      using 2(2) [OF False _ 2(3)] by simp
  qed
qed simp_all

definition pathStatus :: "nat \<Rightarrow> char list \<Rightarrow> route \<Rightarrow> RouteStatus" where
  "pathStatus cap p r = fst (matchPath (pathPattern r) p (replicate cap \<lparr>param_name = [], param_value = []\<rparr>))"

lemma matchPath_status:
  "matchPath (pathPattern r) p params = (st, params', n) \<Longrightarrow> st = pathStatus (length params) p r"
  using segMatch_status [of params "replicate (length params) \<lparr>param_name = [], param_value = []\<rparr>"]
  by (simp add: matchPath_segMatch pathStatus_def) (metis fst_conv length_replicate)

lemma matchPath_length: "matchPath pattern p params = (st, params', n) \<Longrightarrow> length params' = length params"
  using segMatch_spec [of 0 params "segments pattern" "segments p"] by (simp add: matchPath_segMatch)

lemma matchPath_bound:
  assumes "matchPath pattern p params = (Matched, params', n)"
  shows "n \<le> length params \<and> take n params' = bindings (segments pattern) (segments p)"
  using segMatch_spec [of 0 params "segments pattern" "segments p" Matched params' n] assms
  by (auto simp: matchPath_segMatch)

lemma pathStatus_cases: "pathStatus cap p r \<noteq> MethodNotAllowed"
proof -
  obtain st params' n where "matchPath (pathPattern r) p (replicate cap \<lparr>param_name = [], param_value = []\<rparr>) = (st, params', n)"
    by (metis prod_cases3)
  then show ?thesis
    using segMatch_spec [of 0 _ "segments (pathPattern r)" "segments p" st params' n]
    by (simp add: pathStatus_def matchPath_segMatch)
qed

text \<open>A route the loop passes over.\<close>

definition passed :: "nat \<Rightarrow> char list \<Rightarrow> Method \<Rightarrow> route \<Rightarrow> bool" where
  "passed cap p m r \<longleftrightarrow> pathStatus cap p r \<noteq> TooManyParams \<and>
     (pathStatus cap p r = Matched \<longrightarrow> route_method r \<noteq> m)"

definition match_ok :: "nat \<Rightarrow> char list \<Rightarrow> Method \<Rightarrow> nat \<Rightarrow> route list \<Rightarrow> bool \<Rightarrow> routeMatch \<times> routeParam list \<Rightarrow> bool" where
  "match_ok cap p m idx routes before r \<longleftrightarrow> length (snd r) = cap \<and>
     (case match_status (fst r) of
        Matched \<Rightarrow> (\<exists>i < length routes. match_route (fst r) = Some (idx + i) \<and> (\<forall>j < i. passed cap p m (routes ! j)) \<and>
            pathStatus cap p (routes ! i) = Matched \<and> route_method (routes ! i) = m \<and>
            take (match_numParams (fst r)) (snd r) = bindings (segments (pathPattern (routes ! i))) (segments p))
      | TooManyParams \<Rightarrow> match_route (fst r) = None \<and>
          (\<exists>i < length routes. (\<forall>j < i. passed cap p m (routes ! j)) \<and> pathStatus cap p (routes ! i) = TooManyParams)
      | MethodNotAllowed \<Rightarrow> match_route (fst r) = None \<and> (\<forall>x\<in>set routes. passed cap p m x) \<and>
          (before \<or> (\<exists>x\<in>set routes. pathStatus cap p x = Matched))
      | NotFound \<Rightarrow> match_route (fst r) = None \<and> \<not> before \<and> (\<forall>x\<in>set routes. pathStatus cap p x = NotFound))"

lemma match_ok_skip:
  assumes "match_ok cap p m (Suc idx) routes before r" and "passed cap p m x"
    and "before = (b \<or> pathStatus cap p x = Matched)"
  shows "match_ok cap p m idx (x # routes) b r"
proof (cases "match_status (fst r)")
  case Matched
  then obtain i where i: "i < length routes" "match_route (fst r) = Some (Suc idx + i)" "\<forall>j < i. passed cap p m (routes ! j)"
    "pathStatus cap p (routes ! i) = Matched" "route_method (routes ! i) = m"
    "take (match_numParams (fst r)) (snd r) = bindings (segments (pathPattern (routes ! i))) (segments p)"
    using assms(1) by (auto simp: match_ok_def)
  have "\<forall>j < Suc i. passed cap p m ((x # routes) ! j)"
    using i(3) assms(2) by (auto simp: less_Suc_eq_0_disj)
  then show ?thesis
    using i Matched assms(1) by (auto simp: match_ok_def intro!: exI [of _ "Suc i"])
next
  case TooManyParams
  then obtain i where i: "i < length routes" "\<forall>j < i. passed cap p m (routes ! j)"
    "pathStatus cap p (routes ! i) = TooManyParams"
    using assms(1) by (auto simp: match_ok_def)
  have "\<forall>j < Suc i. passed cap p m ((x # routes) ! j)"
    using i(2) assms(2) by (auto simp: less_Suc_eq_0_disj)
  then show ?thesis
    using i TooManyParams assms(1) by (auto simp: match_ok_def intro!: exI [of _ "Suc i"])
next
  case MethodNotAllowed
  then show ?thesis
    using assms by (auto simp: match_ok_def)
next
  case NotFound
  then show ?thesis
    using assms pathStatus_cases [of cap p x] by (cases "pathStatus cap p x") (auto simp: match_ok_def passed_def)
qed

lemma matchRoutes_ok: "match_ok (length params) p m idx routes before (matchRoutes m p idx routes params before)"
proof (induction routes arbitrary: idx params before)
  case Nil
  then show ?case
    by (simp add: match_ok_def empty_match_def)
next
  case (Cons r routes)
  obtain st params' n where eq: "matchPath (pathPattern r) p params = (st, params', n)"
    by (metis prod_cases3)
  have st: "pathStatus (length params) p r = st" and len: "length params' = length params"
    using matchPath_status [OF eq] matchPath_length [OF eq] by simp_all
  show ?case
  proof (cases "st = TooManyParams \<or> (st = Matched \<and> route_method r = m)")
    case True
    then show ?thesis
      using eq st len matchPath_bound [of "pathPattern r" p params params' n]
      by (auto simp: match_ok_def empty_match_def intro!: exI [of _ 0])
  next
    case False
    then have pass: "passed (length params) p m r"
      using st by (simp add: passed_def)
    show ?thesis
      using Cons.IH [of params' "Suc idx" "before \<or> st = Matched"] False eq st len pass
      by (auto intro!: match_ok_skip [OF _ pass] split: if_splits)
  qed
qed

text \<open>
  C32: the result of matching. A match is the first route whose method is the requested one and
  whose pattern fits, with its bindings in front of the params; a route whose pattern has more
  parameters than the array stops the search; \<open>MethodNotAllowed\<close> says that some pattern fits but
  none with that method, \<open>NotFound\<close> that none fits.
\<close>

theorem router_match_first:
  assumes "router_match routes m t params = Inr (r, params')"
  shows "\<exists>v. target_parse t = Inr v \<and> length params' = length params \<and>
    (let status = pathStatus (length params) (target_path v) in
     case match_status r of
       Matched \<Rightarrow> (\<exists>i < length routes. match_route r = Some i \<and> status (routes ! i) = Matched \<and>
           route_method (routes ! i) = m \<and>
           (\<forall>j < i. status (routes ! j) \<noteq> TooManyParams \<and> (status (routes ! j) = Matched \<longrightarrow> route_method (routes ! j) \<noteq> m)) \<and>
           take (match_numParams r) params' = bindings (segments (pathPattern (routes ! i))) (segments (target_path v)))
     | TooManyParams \<Rightarrow> (\<exists>i < length routes. status (routes ! i) = TooManyParams \<and>
           (\<forall>j < i. status (routes ! j) = Matched \<longrightarrow> route_method (routes ! j) \<noteq> m))
     | MethodNotAllowed \<Rightarrow> (\<exists>x\<in>set routes. status x = Matched) \<and>
           (\<forall>x\<in>set routes. status x = Matched \<longrightarrow> route_method x \<noteq> m)
     | NotFound \<Rightarrow> (\<forall>x\<in>set routes. status x = NotFound))"
proof -
  obtain v where v: "target_parse t = Inr v" "matchRoutes m (target_path v) 0 routes params False = (r, params')"
    using assms by (auto simp: router_match_def split: sum.splits)
  have "match_ok (length params) (target_path v) m 0 routes False (r, params')"
    using matchRoutes_ok [of params "target_path v" m 0 routes False] v(2) by simp
  then show ?thesis
    using v(1) by (cases "match_status r") (auto simp: match_ok_def passed_def Let_def)
qed

theorem router_match_first_witness:
  "\<exists>r params'. router_match [\<lparr>route_method = HttpPUT, pathPattern = ''/a/:id''\<rparr>, \<lparr>route_method = HttpGET, pathPattern = ''/a/:id''\<rparr>]
       HttpGET ''/a/7?x'' [\<lparr>param_name = [], param_value = []\<rparr>] = Inr (r, params') \<and>
     match_route r = Some 1 \<and> take (match_numParams r) params' = [\<lparr>param_name = ''id'', param_value = ''7''\<rparr>]"
proof -
  let ?routes = "[\<lparr>route_method = HttpPUT, pathPattern = ''/a/:id''\<rparr>, \<lparr>route_method = HttpGET, pathPattern = ''/a/:id''\<rparr>]"
  let ?r = "\<lparr>match_status = Matched, match_route = Some 1, match_numParams = 1\<rparr>"
  have eq: "router_match ?routes HttpGET ''/a/7?x'' [\<lparr>param_name = [], param_value = []\<rparr>] =
      Inr (?r, [\<lparr>param_name = ''id'', param_value = ''7''\<rparr>])"
    by code_simp
  show ?thesis
    using router_match_first [OF eq] eq by auto
qed

section \<open>The Allow header\<close>

lemma containsMethod_set [simp]: "containsMethod xs m \<longleftrightarrow> m \<in> set xs"
  by (induction xs) auto

lemma allowedMethods_spec:
  "distinct ms \<Longrightarrow> distinct (allowedMethods p routes params ms) \<and>
     set (allowedMethods p routes params ms) =
       set ms \<union> {route_method r |r. r \<in> set routes \<and> pathStatus (length params) p r = Matched}"
proof (induction routes arbitrary: params ms)
  case (Cons r routes)
  obtain st params' n where eq: "matchPath (pathPattern r) p params = (st, params', n)"
    by (metis prod_cases3)
  have st: "pathStatus (length params) p r = st" and len: "length params' = length params"
    using matchPath_status [OF eq] matchPath_length [OF eq] by simp_all
  let ?ms = "if st = Matched \<and> route_method r \<notin> set ms then ms @ [route_method r] else ms"
  have "distinct ?ms"
    using Cons.prems by simp
  note ih = Cons.IH [OF this, of params']
  have step: "allowedMethods p (r # routes) params ms = allowedMethods p routes params' ?ms"
    using eq by simp
  have "set ?ms \<union> {route_method x |x. x \<in> set routes \<and> pathStatus (length params) p x = Matched} =
      set ms \<union> {route_method x |x. x \<in> set (r # routes) \<and> pathStatus (length params) p x = Matched}"
    using st by (auto split: if_splits)
  then show ?case
    unfolding step using ih len by simp
qed simp

lemma length_distinct_methods: "distinct (ms :: Method list) \<Longrightarrow> length ms \<le> 7"
proof -
  assume "distinct ms"
  then have "length ms = card (set ms)"
    by (simp add: distinct_card)
  also have "\<dots> \<le> card {HttpGET, HttpPUT, HttpPOST, HttpHEAD, HttpPATCH, HttpDELETE, HttpOPTIONS}"
    by (rule card_mono) (auto intro: Method.exhaust)
  finally show ?thesis
    by simp
qed

fun joinNames :: "nat \<Rightarrow> Method list \<Rightarrow> char list" where
  "joinNames idx [] = []"
| "joinNames idx (m # ms) = (if idx > 0 then '', '' else []) @ router_methodName m @ joinNames (idx + 1) ms"

lemma printMethods_eq:
  "length out \<le> cap \<Longrightarrow> printMethods cap idx out ms =
     (if length (out @ joinNames idx ms) \<le> cap then Some (out @ joinNames idx ms) else None)"
proof (induction ms arbitrary: idx out)
  case (Cons m ms)
  show ?case
    using Cons.IH [of "out @ (if idx > 0 then '', '' else []) @ router_methodName m" "idx + 1"]
    by (auto simp: append_text_def)
qed simp

text \<open>
  The Allow header. The fixed array of seven methods never overflows; the header lists the
  methods of the routes whose pattern fits the path (with up to eight parameters), each once, and
  is refused only when it does not fit the storage. It agrees with \<open>match\<close>: with eight params a
  refused method is not in it and it is not empty, an accepted one is.
\<close>

theorem allow_header_exact:
  assumes "target_parse t = Inr v" and "length params = 8"
  shows "\<exists>ms. length ms \<le> 7 \<and> distinct ms \<and>
    set ms = {route_method r |r. r \<in> set routes \<and> pathStatus 8 (target_path v) r = Matched} \<and>
    formatAllowHeader routes t cap =
      (if length (joinNames 0 ms) \<le> cap then Inr (joinNames 0 ms)
       else Inl ''HttpRouter Allow output buffer is too small'') \<and>
    (\<forall>r params'. router_match routes m t params = Inr (r, params') \<longrightarrow>
       (match_status r = MethodNotAllowed \<longrightarrow> ms \<noteq> [] \<and> m \<notin> set ms) \<and> (match_status r = Matched \<longrightarrow> m \<in> set ms))"
proof -
  let ?ms = "allowedMethods (target_path v) routes allow_params []"
  have len: "length allow_params = 8"
    by (simp add: allow_params_def)
  have ms: "distinct ?ms"
    "set ?ms = {route_method r |r. r \<in> set routes \<and> pathStatus 8 (target_path v) r = Matched}"
    using allowedMethods_spec [of "[]" "target_path v" routes allow_params] by (simp_all add: len)
  have fmt: "formatAllowHeader routes t cap =
      (if length (joinNames 0 ?ms) \<le> cap then Inr (joinNames 0 ?ms)
       else Inl ''HttpRouter Allow output buffer is too small'')"
    using printMethods_eq [of "[]" cap 0 ?ms] by (simp add: formatAllowHeader_def assms(1))
  have agree: "(match_status r = MethodNotAllowed \<longrightarrow> ?ms \<noteq> [] \<and> m \<notin> set ?ms) \<and> (match_status r = Matched \<longrightarrow> m \<in> set ?ms)"
    if "router_match routes m t params = Inr (r, params')" for r params'
  proof -
    have "matchRoutes m (target_path v) 0 routes params False = (r, params')"
      using that assms(1) by (simp add: router_match_def)
    then have ok: "match_ok 8 (target_path v) m 0 routes False (r, params')"
      using matchRoutes_ok [of params "target_path v" m 0 routes False] assms(2) by simp
    show ?thesis
    proof (cases "match_status r")
      case MethodNotAllowed
      then have "\<exists>x\<in>set routes. pathStatus 8 (target_path v) x = Matched"
        "\<forall>x\<in>set routes. pathStatus 8 (target_path v) x = Matched \<longrightarrow> route_method x \<noteq> m"
        using ok by (auto simp: match_ok_def passed_def)
      then have "set ?ms \<noteq> {}" "m \<notin> set ?ms"
        unfolding ms(2) by auto
      then show ?thesis
        using MethodNotAllowed by auto
    next
      case Matched
      then have "m \<in> set ?ms"
        using ok unfolding ms(2) by (auto simp: match_ok_def)
      then show ?thesis
        using Matched by auto
    qed auto
  qed
  show ?thesis
    using ms fmt agree length_distinct_methods [OF ms(1)] by (intro exI [of _ ?ms]) blast
qed

theorem allow_header_exact_witness:
  "\<exists>ms. set ms = {HttpPUT, HttpGET} \<and>
     formatAllowHeader [\<lparr>route_method = HttpPUT, pathPattern = ''/a''\<rparr>, \<lparr>route_method = HttpGET, pathPattern = ''/:x''\<rparr>] ''/a'' 20 =
       (if length (joinNames 0 ms) \<le> 20 then Inr (joinNames 0 ms) else Inl ''HttpRouter Allow output buffer is too small'')"
proof -
  let ?routes = "[\<lparr>route_method = HttpPUT, pathPattern = ''/a''\<rparr>, \<lparr>route_method = HttpGET, pathPattern = ''/:x''\<rparr>]"
  have t: "target_parse ''/a'' = Inr \<lparr>raw = ''/a'', target_path = ''/a'', target_search = [], target_hash = []\<rparr>"
    by code_simp
  have st: "pathStatus 8 ''/a'' (?routes ! 0) = Matched" "pathStatus 8 ''/a'' (?routes ! 1) = Matched"
    by code_simp+
  have two: "{route_method r |r. r \<in> set [a, b] \<and> pathStatus 8 p r = Matched} = {route_method a, route_method b}"
    if "pathStatus 8 p a = Matched" "pathStatus 8 p b = Matched" for a b p
    using that by auto
  have "{route_method r |r. r \<in> set ?routes \<and> pathStatus 8 ''/a'' r = Matched} = {HttpPUT, HttpGET}"
    using two [OF st [simplified]] by simp
  then show ?thesis
    using allow_header_exact [OF t, of allow_params ?routes 20 HttpGET] by (auto simp: allow_params_def)
qed

end
