(* ===== verification/HttpWebSocketFrames.thy ===== *)
theory HttpWebSocketFrames
  imports Common
begin

unbundle bit_operations_syntax

text \<open>
  \<open>Libraries/Http/HttpWebSocket.h\<close> and \<open>HttpWebSocket.cpp\<close>, the frame layer: masking, the
  incremental frame reader and the frame writer. Bytes are 8 bit words, the payload counters keep
  their 64 bits; the opcode is the byte of the wire because the source casts any nibble to the
  enumeration. The callbacks of the reader are functions on the state of whoever installed them;
  a callback that is not installed leaves the state alone.

  A \<open>Result\<close> is a sum whose \<open>Inl\<close> carries the message; the state in which a failing call of \<open>parse\<close>
  leaves the reader and the owner of the callbacks is given by definitions of its own, whose names end
  in \<open>_left\<close> (not \<open>consumedBytes\<close>, which the pump does not read then). The bytes the reader unmasks in
  place are the payload it hands to the callback.
\<close>

section \<open>Frames\<close>

definition OpContinuation :: byte where "OpContinuation = 0x0"
definition OpText :: byte where "OpText = 0x1"
definition OpBinary :: byte where "OpBinary = 0x2"
definition OpClose :: byte where "OpClose = 0x8"
definition OpPing :: byte where "OpPing = 0x9"
definition OpPong :: byte where "OpPong = 0xA"

lemmas opcode_defs = OpContinuation_def OpText_def OpBinary_def OpClose_def OpPing_def OpPong_def

datatype role = Client | Server

record frame =
  opcode :: byte
  fin :: bool
  masked :: bool
  payloadLength :: u64
  maskKey :: "byte list"

definition empty_frame :: frame where
  "empty_frame = \<lparr>opcode = OpText, fin = True, masked = False, payloadLength = 0, maskKey = [0, 0, 0, 0]\<rparr>"

definition isControlFrame :: "frame \<Rightarrow> bool" where
  "isControlFrame f \<longleftrightarrow> opcode f \<ge> OpClose"

definition isSupportedOpcode :: "byte \<Rightarrow> bool" where
  "isSupportedOpcode op \<longleftrightarrow> op \<in> {OpContinuation, OpText, OpBinary, OpClose, OpPing, OpPong}"

definition requiresIncomingMask :: "role \<Rightarrow> bool" where
  "requiresIncomingMask r \<longleftrightarrow> r = Server"

definition requiresOutgoingMask :: "role \<Rightarrow> bool" where
  "requiresOutgoingMask r \<longleftrightarrow> r = Client"

definition applyMask :: "byte list \<Rightarrow> byte list \<Rightarrow> u64 \<Rightarrow> byte list" where
  "applyMask payload key payloadOffset =
     map (\<lambda>idx. payload ! idx XOR key ! unat ((payloadOffset + of_nat idx) AND 3)) [0..<length payload]"

text \<open>\<open>SC_TRY_MSG\<close> and \<open>SC_TRY\<close>.\<close>

definition require :: "bool \<Rightarrow> string \<Rightarrow> string + 'a \<Rightarrow> string + 'a" where
  "require b msg k = (if b then k else Inl msg)"

definition attempt :: "string + 'a \<Rightarrow> ('a \<Rightarrow> string + 'b) \<Rightarrow> string + 'b" where
  "attempt r k = (case r of Inl e \<Rightarrow> Inl e | Inr a \<Rightarrow> k a)"

lemma attempt_simps [simp]: "attempt (Inl e) k = Inl e" "attempt (Inr a) k = k a"
  by (simp_all add: attempt_def)

lemma attempt_return [simp]: "attempt r Inr = r" "attempt r (\<lambda>a. Inr a) = r"
  by (cases r; simp)+

lemma attempt_assoc: "attempt (attempt r f) g = attempt r (\<lambda>a. attempt (f a) g)"
  by (cases r) simp_all

lemma require_simps [simp]: "require True msg k = k" "require False msg k = Inl msg"
  by (simp_all add: require_def)

lemma require_Inr: "require b msg k = Inr a \<longleftrightarrow> b \<and> k = Inr a"
  by (simp add: require_def)

lemma attempt_Inr: "attempt r k = Inr b \<longleftrightarrow> (\<exists>a. r = Inr a \<and> k a = Inr b)"
  by (cases r) simp_all

lemma attempt_require: "attempt (require b msg k) f = require b msg (attempt k f)"
  by (simp add: require_def)

section \<open>The reader\<close>

datatype readerState = HeaderByte0 | HeaderByte1 | ExtendedLength | MaskKey | Payload

record reader =
  r_role :: role
  r_frame :: frame
  r_state :: readerState
  r_fragmented :: bool
  headerByte0 :: byte
  extendedLengthBytesExpected :: nat
  extendedLengthBytesRead :: nat
  maskBytesRead :: nat
  extendedLengthAccumulator :: u64
  r_remaining :: u64
  r_consumed :: u64

definition reader_reset :: "role \<Rightarrow> reader" where
  "reader_reset ro = \<lparr>r_role = ro, r_frame = empty_frame, r_state = HeaderByte0, r_fragmented = False,
     headerByte0 = 0, extendedLengthBytesExpected = 0, extendedLengthBytesRead = 0, maskBytesRead = 0,
     extendedLengthAccumulator = 0, r_remaining = 0, r_consumed = 0\<rparr>"

record 's handler =
  onFrameHeader :: "'s \<Rightarrow> frame \<Rightarrow> string + 's"
  onFramePayload :: "'s \<Rightarrow> byte list \<Rightarrow> bool \<Rightarrow> string + 's"

definition finishCurrentFrame :: "reader \<Rightarrow> reader" where
  "finishCurrentFrame r =
     (let r1 = (if \<not> isControlFrame (r_frame r) then r\<lparr>r_fragmented := \<not> fin (r_frame r)\<rparr> else r) in
      r1\<lparr>r_state := HeaderByte0, extendedLengthBytesExpected := 0, extendedLengthBytesRead := 0,
         maskBytesRead := 0, r_remaining := 0, r_consumed := 0, extendedLengthAccumulator := 0\<rparr>)"

text \<open>The checks on a complete header, the same for reading and writing.\<close>

definition onHeaderReady :: "'s handler \<Rightarrow> reader \<Rightarrow> 's \<Rightarrow> string + reader \<times> 's" where
  "onHeaderReady h r s =
     (let f = r_frame r in
      require (masked f = requiresIncomingMask (r_role r))
        ''HttpWebSocketFrameReader invalid frame masking for endpoint role''
      (let deliver =
         attempt (onFrameHeader h s f)
           (\<lambda>s'. let r1 = r\<lparr>r_remaining := payloadLength f, r_consumed := 0\<rparr> in
              if r_remaining r1 = 0 then Inr (finishCurrentFrame r1, s')
              else Inr (r1\<lparr>r_state := Payload\<rparr>, s'))
       in
       if isControlFrame f then
         require (fin f) ''HttpWebSocketFrameReader control frames must not be fragmented''
           (require (payloadLength f \<le> 125) ''HttpWebSocketFrameReader control frame payload too large'' deliver)
       else if opcode f = OpContinuation then
         require (r_fragmented r) ''HttpWebSocketFrameReader unexpected continuation frame'' deliver
       else require (\<not> r_fragmented r) ''HttpWebSocketFrameReader expected continuation frame'' deliver))"

text \<open>
  One iteration of the loop of \<open>parse\<close> on the bytes that are left (at least one). The \<open>nat\<close> is
  what the iteration adds to \<open>consumedBytes\<close>.
\<close>

definition readByte1 :: "'s handler \<Rightarrow> reader \<Rightarrow> 's \<Rightarrow> byte \<Rightarrow> string + reader \<times> 's" where
  "readByte1 h r s current =
     require (headerByte0 r AND 0x70 = 0) ''HttpWebSocketFrameReader RSV bits are not supported''
       (let f = empty_frame\<lparr>fin := (headerByte0 r AND 0x80 \<noteq> 0), opcode := headerByte0 r AND 0x0F\<rparr> in
        require (isSupportedOpcode (opcode f)) ''HttpWebSocketFrameReader unsupported opcode''
          (let isMasked = (current AND 0x80 \<noteq> 0);
               payloadLengthField = current AND 0x7F;
               r1 = r\<lparr>r_frame := f\<lparr>masked := isMasked\<rparr>, extendedLengthAccumulator := 0,
                      extendedLengthBytesRead := 0, maskBytesRead := 0\<rparr> in
           if payloadLengthField < 126 then
             (let r2 = r1\<lparr>r_frame := (r_frame r1)\<lparr>payloadLength := ucast payloadLengthField\<rparr>\<rparr> in
              if isMasked then Inr (r2\<lparr>r_state := MaskKey\<rparr>, s) else onHeaderReady h r2 s)
           else
             Inr (r1\<lparr>extendedLengthBytesExpected := (if payloadLengthField = 126 then 2 else 8),
                     r_state := ExtendedLength\<rparr>, s)))"

definition readExtended :: "'s handler \<Rightarrow> reader \<Rightarrow> 's \<Rightarrow> byte \<Rightarrow> string + reader \<times> 's" where
  "readExtended h r s current =
     require (\<not> (extendedLengthBytesExpected r = 8 \<and> extendedLengthBytesRead r = 0 \<and> current AND 0x80 \<noteq> 0))
       ''HttpWebSocketFrameReader invalid 64-bit payload length''
       (let r1 = r\<lparr>extendedLengthAccumulator := (push_bit 8 (extendedLengthAccumulator r)) OR ucast current,
                    extendedLengthBytesRead := extendedLengthBytesRead r + 1\<rparr> in
        if extendedLengthBytesRead r1 = extendedLengthBytesExpected r1 then
          (let r2 = r1\<lparr>r_frame := (r_frame r1)\<lparr>payloadLength := extendedLengthAccumulator r1\<rparr>\<rparr> in
           if masked (r_frame r2) then Inr (r2\<lparr>r_state := MaskKey\<rparr>, s) else onHeaderReady h r2 s)
        else Inr (r1, s))"

definition readMask :: "'s handler \<Rightarrow> reader \<Rightarrow> 's \<Rightarrow> byte \<Rightarrow> string + reader \<times> 's" where
  "readMask h r s current =
     (let r1 = r\<lparr>r_frame := (r_frame r)\<lparr>maskKey := (maskKey (r_frame r))[maskBytesRead r := current]\<rparr>,
                 maskBytesRead := maskBytesRead r + 1\<rparr> in
      if maskBytesRead r1 = 4 then onHeaderReady h r1 s else Inr (r1, s))"

definition readPayload :: "'s handler \<Rightarrow> reader \<Rightarrow> 's \<Rightarrow> byte list \<Rightarrow> string + reader \<times> 's \<times> nat" where
  "readPayload h r s data =
     (let availableBytes = length data;
          toConsume = (if availableBytes < unat (r_remaining r) then availableBytes else unat (r_remaining r)) in
      require (toConsume > 0) ''HttpWebSocketFrameReader invalid payload progress''
        (let raw = take toConsume data;
             payload = (if masked (r_frame r) then applyMask raw (maskKey (r_frame r)) (r_consumed r) else raw);
             remaining = r_remaining r - of_nat toConsume;
             frameFinished = (remaining = 0) in
         attempt (onFramePayload h s payload frameFinished)
           (\<lambda>s'. let r1 = r\<lparr>r_remaining := remaining, r_consumed := r_consumed r + of_nat toConsume\<rparr> in
              Inr (if frameFinished then finishCurrentFrame r1 else r1, s', toConsume))))"

definition readerStep :: "'s handler \<Rightarrow> reader \<Rightarrow> 's \<Rightarrow> byte list \<Rightarrow> string + reader \<times> 's \<times> nat" where
  "readerStep h r s data =
     (let current = hd data; one = map_sum id (\<lambda>(r', s'). (r', s', 1 :: nat)) in
      case r_state r of
        HeaderByte0 \<Rightarrow> Inr (r\<lparr>headerByte0 := current, r_state := HeaderByte1\<rparr>, s, 1)
      | HeaderByte1 \<Rightarrow> one (readByte1 h r s current)
      | ExtendedLength \<Rightarrow> one (readExtended h r s current)
      | MaskKey \<Rightarrow> one (readMask h r s current)
      | Payload \<Rightarrow> readPayload h r s data)"

lemma readerStep_progress:
  assumes "readerStep h r s data = Inr (r', s', k)" and "data \<noteq> []"
  shows "0 < k \<and> k \<le> length data"
proof (cases "r_state r = Payload")
  case True
  then have "readPayload h r s data = Inr (r', s', k)"
    using assms(1) by (simp add: readerStep_def)
  then show ?thesis
    by (auto simp: readPayload_def Let_def require_Inr attempt_Inr split: if_splits)
next
  case False
  moreover have "Suc 0 \<le> length data"
    using assms(2) by (cases data) simp_all
  ultimately show ?thesis
    using assms(1) by (cases "r_state r") (auto simp: readerStep_def Let_def map_sum_def split: sum.splits)
qed

text \<open>The loop: the reader, the state of the callbacks and \<open>consumedBytes\<close>.\<close>

function readerLoop :: "'s handler \<Rightarrow> reader \<Rightarrow> 's \<Rightarrow> nat \<Rightarrow> byte list \<Rightarrow> string + reader \<times> 's \<times> nat" where
  "readerLoop h r s consumed data =
     (if data = [] then Inr (r, s, consumed)
      else (case readerStep h r s data of
              Inl e \<Rightarrow> Inl e
            | Inr (r', s', k) \<Rightarrow> readerLoop h r' s' (consumed + k) (drop k data)))"
  by pat_completeness auto
termination
  by (relation "measure (\<lambda>(h, r, s, n, data). length data)") (auto dest!: readerStep_progress)

declare readerLoop.simps [simp del]

definition reader_parse :: "'s handler \<Rightarrow> reader \<Rightarrow> 's \<Rightarrow> byte list \<Rightarrow> string + reader \<times> 's \<times> nat" where
  "reader_parse h r s data = readerLoop h r s 0 data"

section \<open>What a failing call leaves\<close>

text \<open>
  The reader and the state of the callbacks when \<open>parse\<close> returns an error. A record says in which state
  a callback that fails leaves its owner. Everything a step has written before the check that fails, or
  before the callback, stays: the state of the reader is set only after the header callback has
  succeeded, \<open>payloadBytesRemaining\<close> is counted down before the payload callback, \<open>payloadBytesConsumed\<close>
  after it.
\<close>

record 's leftovers =
  leftHeader :: "'s \<Rightarrow> frame \<Rightarrow> 's"
  leftPayload :: "'s \<Rightarrow> byte list \<Rightarrow> bool \<Rightarrow> 's"

definition onHeaderReady_left :: "'s leftovers \<Rightarrow> reader \<Rightarrow> 's \<Rightarrow> reader \<times> 's" where
  "onHeaderReady_left l r s =
     (let f = r_frame r;
          called = (masked f = requiresIncomingMask (r_role r) \<and>
            (if isControlFrame f then fin f \<and> payloadLength f \<le> 125
             else if opcode f = OpContinuation then r_fragmented r else \<not> r_fragmented r)) in
      (r, if called then leftHeader l s f else s))"

definition readByte1_left :: "'s leftovers \<Rightarrow> reader \<Rightarrow> 's \<Rightarrow> byte \<Rightarrow> reader \<times> 's" where
  "readByte1_left l r s current =
     (if headerByte0 r AND 0x70 \<noteq> 0 then (r, s)
      else
        (let f = empty_frame\<lparr>fin := (headerByte0 r AND 0x80 \<noteq> 0), opcode := headerByte0 r AND 0x0F\<rparr> in
         if \<not> isSupportedOpcode (opcode f) then (r\<lparr>r_frame := f\<rparr>, s)
         else
           (let r1 = r\<lparr>r_frame := f\<lparr>masked := (current AND 0x80 \<noteq> 0)\<rparr>, extendedLengthAccumulator := 0,
                       extendedLengthBytesRead := 0, maskBytesRead := 0\<rparr> in
            onHeaderReady_left l (r1\<lparr>r_frame := (r_frame r1)\<lparr>payloadLength := ucast (current AND 0x7F)\<rparr>\<rparr>) s)))"

definition readExtended_left :: "'s leftovers \<Rightarrow> reader \<Rightarrow> 's \<Rightarrow> byte \<Rightarrow> reader \<times> 's" where
  "readExtended_left l r s current =
     (if extendedLengthBytesExpected r = 8 \<and> extendedLengthBytesRead r = 0 \<and> current AND 0x80 \<noteq> 0 then (r, s)
      else
        (let r1 = r\<lparr>extendedLengthAccumulator := (push_bit 8 (extendedLengthAccumulator r)) OR ucast current,
                    extendedLengthBytesRead := extendedLengthBytesRead r + 1\<rparr> in
         onHeaderReady_left l (r1\<lparr>r_frame := (r_frame r1)\<lparr>payloadLength := extendedLengthAccumulator r1\<rparr>\<rparr>) s))"

definition readMask_left :: "'s leftovers \<Rightarrow> reader \<Rightarrow> 's \<Rightarrow> byte \<Rightarrow> reader \<times> 's" where
  "readMask_left l r s current =
     onHeaderReady_left l
       (r\<lparr>r_frame := (r_frame r)\<lparr>maskKey := (maskKey (r_frame r))[maskBytesRead r := current]\<rparr>,
          maskBytesRead := maskBytesRead r + 1\<rparr>) s"

definition readPayload_left :: "'s leftovers \<Rightarrow> reader \<Rightarrow> 's \<Rightarrow> byte list \<Rightarrow> reader \<times> 's" where
  "readPayload_left l r s data =
     (let availableBytes = length data;
          toConsume = (if availableBytes < unat (r_remaining r) then availableBytes else unat (r_remaining r)) in
      if toConsume = 0 then (r, s)
      else
        (let raw = take toConsume data;
             payload = (if masked (r_frame r) then applyMask raw (maskKey (r_frame r)) (r_consumed r) else raw);
             remaining = r_remaining r - of_nat toConsume in
         (r\<lparr>r_remaining := remaining\<rparr>, leftPayload l s payload (remaining = 0))))"

definition readerStep_left :: "'s leftovers \<Rightarrow> reader \<Rightarrow> 's \<Rightarrow> byte list \<Rightarrow> reader \<times> 's" where
  "readerStep_left l r s data =
     (case r_state r of
        HeaderByte0 \<Rightarrow> (r\<lparr>headerByte0 := hd data, r_state := HeaderByte1\<rparr>, s)
      | HeaderByte1 \<Rightarrow> readByte1_left l r s (hd data)
      | ExtendedLength \<Rightarrow> readExtended_left l r s (hd data)
      | MaskKey \<Rightarrow> readMask_left l r s (hd data)
      | Payload \<Rightarrow> readPayload_left l r s data)"

text \<open>The iterations before the failing one succeed, and are those of \<open>readerLoop\<close>.\<close>

function readerLoop_left :: "'s handler \<Rightarrow> 's leftovers \<Rightarrow> reader \<Rightarrow> 's \<Rightarrow> byte list \<Rightarrow> reader \<times> 's" where
  "readerLoop_left h l r s data =
     (if data = [] then (r, s)
      else (case readerStep h r s data of
              Inl e \<Rightarrow> readerStep_left l r s data
            | Inr (r', s', k) \<Rightarrow> readerLoop_left h l r' s' (drop k data)))"
  by pat_completeness auto
termination
  by (relation "measure (\<lambda>(h, l, r, s, data). length data)") (auto dest!: readerStep_progress)

declare readerLoop_left.simps [simp del]

section \<open>The writer\<close>

record writer =
  w_role :: role
  w_frame :: frame
  frameInProgress :: bool
  w_fragmented :: bool
  w_remaining :: u64
  w_written :: u64

definition writer_reset :: "role \<Rightarrow> writer" where
  "writer_reset ro = \<lparr>w_role = ro, w_frame = empty_frame, frameInProgress = False, w_fragmented = False,
     w_remaining = 0, w_written = 0\<rparr>"

definition encodedLength :: "frame \<Rightarrow> nat" where
  "encodedLength f = 2 + (if payloadLength f < 126 then 0 else if payloadLength f \<le> 0xFFFF then 2 else 8) +
     (if masked f then 4 else 0)"

definition lengthBytes :: "frame \<Rightarrow> byte list" where
  "lengthBytes f =
     (let m = (if masked f then 0x80 else 0) :: byte in
      if payloadLength f < 126 then [m OR ucast (payloadLength f)]
      else if payloadLength f \<le> 0xFFFF then
        [m OR 126, ucast (drop_bit 8 (payloadLength f) AND 0xFF), ucast (payloadLength f AND 0xFF)]
      else (m OR 127) # map (\<lambda>shift. ucast (drop_bit shift (payloadLength f) AND 0xFF)) [56, 48, 40, 32, 24, 16, 8, 0])"

definition headerBytes :: "frame \<Rightarrow> byte list" where
  "headerBytes f = ((if fin f then 0x80 else 0) OR opcode f) # lengthBytes f @ (if masked f then maskKey f else [])"

text \<open>
  The operations return the writer and, on success, the header bytes written to the storage (of
  which only the size matters), respectively the masked payload.
\<close>

definition beginFrame :: "frame \<Rightarrow> nat \<Rightarrow> writer \<Rightarrow> writer \<times> (string + byte list)" where
  "beginFrame f storage w =
     (let accept = (if storage \<ge> encodedLength f
           then (w\<lparr>w_frame := f, frameInProgress := True, w_remaining := payloadLength f, w_written := 0\<rparr>,
                 Inr (headerBytes f))
           else (w, Inl ''HttpWebSocketFrameWriter header buffer too small''));
          checked = (if masked f = requiresOutgoingMask (w_role w) then accept
                     else (w, Inl ''HttpWebSocketFrameWriter invalid frame masking for endpoint role'')) in
      if frameInProgress w then (w, Inl ''HttpWebSocketFrameWriter frame already in progress'')
      else if \<not> isSupportedOpcode (opcode f) then (w, Inl ''HttpWebSocketFrameWriter unsupported opcode'')
      else if isControlFrame f then
        (if \<not> fin f then (w, Inl ''HttpWebSocketFrameWriter control frames must not be fragmented'')
         else if \<not> payloadLength f \<le> 125 then (w, Inl ''HttpWebSocketFrameWriter control frame payload too large'')
         else checked)
      else if opcode f = OpContinuation then
        (if w_fragmented w then checked else (w, Inl ''HttpWebSocketFrameWriter unexpected continuation frame''))
      else (if \<not> w_fragmented w then checked else (w, Inl ''HttpWebSocketFrameWriter expected continuation frame'')))"

definition writePayload :: "byte list \<Rightarrow> writer \<Rightarrow> writer \<times> (string + byte list)" where
  "writePayload payload w =
     (if \<not> frameInProgress w then (w, Inl ''HttpWebSocketFrameWriter no frame in progress'')
      else if \<not> length payload \<le> unat (w_remaining w)
      then (w, Inl ''HttpWebSocketFrameWriter payload exceeds declared frame length'')
      else
        (w\<lparr>w_written := w_written w + of_nat (length payload), w_remaining := w_remaining w - of_nat (length payload)\<rparr>,
         Inr (if masked (w_frame w) \<and> payload \<noteq> [] then applyMask payload (maskKey (w_frame w)) (w_written w)
              else payload)))"

definition finishFrame :: "writer \<Rightarrow> writer \<times> (string + unit)" where
  "finishFrame w =
     (if \<not> frameInProgress w then (w, Inl ''HttpWebSocketFrameWriter no frame in progress'')
      else if w_remaining w \<noteq> 0 then (w, Inl ''HttpWebSocketFrameWriter frame payload incomplete'')
      else
        (let w1 = (if \<not> isControlFrame (w_frame w) then w\<lparr>w_fragmented := \<not> fin (w_frame w)\<rparr> else w) in
         (w1\<lparr>w_frame := empty_frame, frameInProgress := False, w_written := 0\<rparr>, Inr ())))"

end
