(* ===== verification/HttpWebSocketEndpoint.thy ===== *)
theory HttpWebSocketEndpoint
  imports HttpWebSocketFrames
begin

text \<open>
  \<open>Libraries/Http/HttpWebSocket.cpp\<close>, the message layer: the message assembler, the endpoint
  that answers control frames by itself, and the hub that fans one frame out to many clients.
  The callbacks the application installs are functions on a state \<open>'u\<close> of its own; they do not
  call back into the object that runs them. A callback that is not installed is \<open>Inr\<close>.
\<close>

section \<open>The message assembler\<close>

record 'u assembler =
  messageStorage :: "byte list"
  a_frame :: frame
  messageOpcode :: byte
  messageSize :: nat
  assemblingMessage :: bool
  ignoringFrame :: bool
  a_user :: 'u

text \<open>\<open>memcpy\<close> into a buffer.\<close>

definition overwrite :: "byte list \<Rightarrow> nat \<Rightarrow> byte list \<Rightarrow> byte list" where
  "overwrite xs off ys = take off xs @ ys @ drop (off + length ys) xs"

definition assembler_reset :: "byte list \<Rightarrow> 'u \<Rightarrow> 'u assembler" where
  "assembler_reset storage u = \<lparr>messageStorage = storage, a_frame = empty_frame, messageOpcode = OpText,
     messageSize = 0, assemblingMessage = False, ignoringFrame = False, a_user = u\<rparr>"

definition deliverMessage :: "('u \<Rightarrow> byte \<Rightarrow> byte list \<Rightarrow> string + 'u) \<Rightarrow> 'u assembler \<Rightarrow> string + 'u assembler" where
  "deliverMessage onMessage a =
     attempt (onMessage (a_user a) (messageOpcode a) (take (messageSize a) (messageStorage a)))
       (\<lambda>u. Inr (a\<lparr>a_user := u, assemblingMessage := False, messageSize := 0\<rparr>))"

definition assembler_onFrameHeader ::
  "('u \<Rightarrow> byte \<Rightarrow> byte list \<Rightarrow> string + 'u) \<Rightarrow> 'u assembler \<Rightarrow> frame \<Rightarrow> string + 'u assembler" where
  "assembler_onFrameHeader onMessage a f =
     (let a1 = a\<lparr>a_frame := f, ignoringFrame := isControlFrame f\<rparr>;
          finishHeader = (\<lambda>a2. if payloadLength f = 0 \<and> fin f then deliverMessage onMessage a2 else Inr a2) in
      if isControlFrame f then Inr a1
      else if opcode f = OpContinuation then
        require (assemblingMessage a1) ''HttpWebSocketMessageAssembler unexpected continuation'' (finishHeader a1)
      else
        require (\<not> assemblingMessage a1) ''HttpWebSocketMessageAssembler new message before final continuation''
          (finishHeader (a1\<lparr>messageOpcode := opcode f, messageSize := 0, assemblingMessage := True\<rparr>)))"

definition assembler_onFramePayload ::
  "('u \<Rightarrow> byte \<Rightarrow> byte list \<Rightarrow> string + 'u) \<Rightarrow> 'u assembler \<Rightarrow> byte list \<Rightarrow> bool \<Rightarrow> string + 'u assembler" where
  "assembler_onFramePayload onMessage a payload frameFinished =
     (if ignoringFrame a then Inr a
      else
        require (assemblingMessage a) ''HttpWebSocketMessageAssembler payload without message''
          (require (messageSize a + length payload \<le> length (messageStorage a))
             ''HttpWebSocketMessageAssembler message storage too small''
             (let a1 = (if length payload > 0
                        then a\<lparr>messageStorage := overwrite (messageStorage a) (messageSize a) payload,
                               messageSize := messageSize a + length payload\<rparr>
                        else a) in
              if frameFinished \<and> fin (a_frame a1) then deliverMessage onMessage a1 else Inr a1)))"

text \<open>The assembler bound to the callbacks of a reader, as the library's applications do.\<close>

definition assembler_handler :: "('u \<Rightarrow> byte \<Rightarrow> byte list \<Rightarrow> string + 'u) \<Rightarrow> 'u assembler handler" where
  "assembler_handler onMessage =
     \<lparr>onFrameHeader = assembler_onFrameHeader onMessage, onFramePayload = assembler_onFramePayload onMessage\<rparr>"

section \<open>The endpoint\<close>

record 'u callbacks =
  cbFrameHeader :: "'u \<Rightarrow> frame \<Rightarrow> string + 'u"
  cbDataFramePayload :: "'u \<Rightarrow> byte \<Rightarrow> byte list \<Rightarrow> bool \<Rightarrow> string + 'u"
  cbPing :: "'u \<Rightarrow> byte list \<Rightarrow> string + 'u"
  cbPong :: "'u \<Rightarrow> byte list \<Rightarrow> string + 'u"
  cbClose :: "'u \<Rightarrow> u16 \<Rightarrow> byte list \<Rightarrow> string + 'u"

text \<open>
  The endpoint's reader runs the endpoint's own callbacks, which never touch the reader: the
  object is the pair of the reader and the other fields. \<open>automaticMaskKey\<close> and its flag are one
  option. The pending frame is a span of \<open>automaticControlStorage\<close>, which is only written when
  there is no pending frame.
\<close>

record 'u endpoint =
  endpointRole :: role
  e_writer :: writer
  e_frame :: frame
  controlPayload :: "byte list"
  controlPayloadSize :: nat
  pendingControlFrame :: "byte list"
  automaticMaskKey :: "byte list option"
  closeSent :: bool
  closeReceived :: bool
  e_user :: 'u

definition endpoint_reset :: "role \<Rightarrow> byte list \<Rightarrow> 'u \<Rightarrow> reader \<times> 'u endpoint" where
  "endpoint_reset ro storage u = (reader_reset ro, \<lparr>endpointRole = ro, e_writer = writer_reset ro,
     e_frame = empty_frame, controlPayload = storage, controlPayloadSize = 0, pendingControlFrame = [],
     automaticMaskKey = None, closeSent = False, closeReceived = False, e_user = u\<rparr>)"

definition setAutomaticMaskKey :: "byte list \<Rightarrow> 'u endpoint \<Rightarrow> 'u endpoint" where
  "setAutomaticMaskKey key e = e\<lparr>automaticMaskKey := Some (take 4 key)\<rparr>"

definition hasPendingControlFrame :: "'u endpoint \<Rightarrow> bool" where
  "hasPendingControlFrame e \<longleftrightarrow> length (pendingControlFrame e) > 0"

definition getPendingControlFrame :: "'u endpoint \<Rightarrow> string + byte list" where
  "getPendingControlFrame e = require (hasPendingControlFrame e) ''HttpWebSocketEndpoint no pending control frame''
     (Inr (pendingControlFrame e))"

definition clearPendingControlFrame :: "'u endpoint \<Rightarrow> 'u endpoint" where
  "clearPendingControlFrame e = e\<lparr>pendingControlFrame := []\<rparr>"

text \<open>The mask key pointer of the caller is an option.\<close>

definition applyOutgoingMask :: "role \<Rightarrow> byte list option \<Rightarrow> frame \<Rightarrow> string + frame" where
  "applyOutgoingMask ro key header =
     (let h1 = header\<lparr>masked := requiresOutgoingMask ro\<rparr> in
      if requiresOutgoingMask ro then
        (case key of None \<Rightarrow> Inl ''HttpWebSocketEndpoint mask key required for client frames''
         | Some k \<Rightarrow> Inr (h1\<lparr>maskKey := take 4 k\<rparr>))
      else Inr (h1\<lparr>maskKey := [0, 0, 0, 0]\<rparr>))"

text \<open>
  Writing one whole frame, by the endpoint's writer in \<open>sendFrame\<close> and by a writer of its own in
  \<open>queueAutomaticControl\<close>. The writer keeps the state the failing call left it in.
\<close>

definition encodeFrame :: "string \<Rightarrow> frame \<Rightarrow> byte list \<Rightarrow> nat \<Rightarrow> writer \<Rightarrow> writer \<times> (string + byte list)" where
  "encodeFrame tooSmall header payload storage w =
     (case beginFrame header storage w of
        (w1, Inl e) \<Rightarrow> (w1, Inl e)
      | (w1, Inr encodedHeader) \<Rightarrow>
          if \<not> storage \<ge> length encodedHeader + length payload then (w1, Inl tooSmall)
          else
            (case (if length payload > 0 then writePayload payload w1 else (w1, Inr [])) of
               (w2, Inl e) \<Rightarrow> (w2, Inl e)
             | (w2, Inr body) \<Rightarrow>
                 (case finishFrame w2 of
                    (w3, Inl e) \<Rightarrow> (w3, Inl e)
                  | (w3, Inr _) \<Rightarrow> (w3, Inr (encodedHeader @ body)))))"

definition sendFrame :: "frame \<Rightarrow> byte list \<Rightarrow> nat \<Rightarrow> 'u endpoint \<Rightarrow> 'u endpoint \<times> (string + byte list)" where
  "sendFrame header payload storage e =
     (if payloadLength header \<noteq> of_nat (length payload)
      then (e, Inl ''HttpWebSocketEndpoint payload does not match frame length'')
      else (case encodeFrame ''HttpWebSocketEndpoint frame storage too small'' header payload storage (e_writer e) of
              (w, res) \<Rightarrow> (e\<lparr>e_writer := w\<rparr>, res)))"

definition sendMasked :: "byte \<Rightarrow> bool \<Rightarrow> byte list \<Rightarrow> byte list option \<Rightarrow> nat \<Rightarrow> 'u endpoint \<Rightarrow>
    'u endpoint \<times> (string + byte list)" where
  "sendMasked op fi payload key storage e =
     (case applyOutgoingMask (endpointRole e) key
             (empty_frame\<lparr>opcode := op, fin := fi, payloadLength := of_nat (length payload)\<rparr>) of
        Inl m \<Rightarrow> (e, Inl m)
      | Inr header \<Rightarrow> sendFrame header payload storage e)"

definition sendData :: "byte \<Rightarrow> byte list \<Rightarrow> bool \<Rightarrow> byte list option \<Rightarrow> nat \<Rightarrow> 'u endpoint \<Rightarrow>
    'u endpoint \<times> (string + byte list)" where
  "sendData op payload fi key storage e =
     (if op = OpText \<or> op = OpBinary \<or> op = OpContinuation then sendMasked op fi payload key storage e
      else (e, Inl ''HttpWebSocketEndpoint sendData requires a data opcode''))"

definition sendPing :: "byte list \<Rightarrow> byte list option \<Rightarrow> nat \<Rightarrow> 'u endpoint \<Rightarrow> 'u endpoint \<times> (string + byte list)" where
  "sendPing payload key storage e =
     (if length payload \<le> 125 then sendMasked OpPing True payload key storage e
      else (e, Inl ''HttpWebSocketEndpoint ping payload too large''))"

definition sendPong :: "byte list \<Rightarrow> byte list option \<Rightarrow> nat \<Rightarrow> 'u endpoint \<Rightarrow> 'u endpoint \<times> (string + byte list)" where
  "sendPong payload key storage e =
     (if length payload \<le> 125 then sendMasked OpPong True payload key storage e
      else (e, Inl ''HttpWebSocketEndpoint pong payload too large''))"

definition closeBytes :: "u16 \<Rightarrow> byte list" where
  "closeBytes statusCode = [ucast (drop_bit 8 statusCode AND 0xFF), ucast (statusCode AND 0xFF)]"

definition sendClose :: "u16 \<Rightarrow> byte list \<Rightarrow> byte list option \<Rightarrow> nat \<Rightarrow> 'u endpoint \<Rightarrow>
    'u endpoint \<times> (string + byte list)" where
  "sendClose statusCode reason key storage e =
     (if \<not> (statusCode \<noteq> 0 \<or> reason = []) then (e, Inl ''HttpWebSocketEndpoint close reason requires a status code'')
      else if \<not> length reason + (if statusCode = 0 then 0 else 2) \<le> 125
      then (e, Inl ''HttpWebSocketEndpoint close payload too large'')
      else
        (let closePayload = (if statusCode \<noteq> 0 then closeBytes statusCode else []) @ reason in
         case sendMasked OpClose True closePayload key storage e of
           (e1, Inl m) \<Rightarrow> (e1, Inl m)
         | (e1, Inr bytes) \<Rightarrow> (e1\<lparr>closeSent := True\<rparr>, Inr bytes)))"

text \<open>Answering control frames. The storage of the answer has room for \<open>2 + 8 + 4 + 125\<close> bytes.\<close>

definition queueAutomaticControl :: "byte \<Rightarrow> byte list \<Rightarrow> 'u endpoint \<Rightarrow> string + 'u endpoint" where
  "queueAutomaticControl op payload e =
     require (\<not> hasPendingControlFrame e) ''HttpWebSocketEndpoint pending control frame backpressure''
       (attempt (applyOutgoingMask (endpointRole e) (automaticMaskKey e)
           (empty_frame\<lparr>opcode := op, fin := True, payloadLength := of_nat (length payload)\<rparr>))
         (\<lambda>header. attempt (snd (encodeFrame ''HttpWebSocketEndpoint automatic control storage too small''
                                  header payload (2 + 8 + 4 + 125) (writer_reset (endpointRole e))))
            (\<lambda>bytes. Inr (e\<lparr>pendingControlFrame := bytes\<rparr>))))"

definition handleControlFrame :: "'u callbacks \<Rightarrow> byte list \<Rightarrow> 'u endpoint \<Rightarrow> string + 'u endpoint" where
  "handleControlFrame cb payload e =
     (if opcode (e_frame e) = OpPing then
        attempt (cbPing cb (e_user e) payload) (\<lambda>u. queueAutomaticControl OpPong payload (e\<lparr>e_user := u\<rparr>))
      else if opcode (e_frame e) = OpPong then
        attempt (cbPong cb (e_user e) payload) (\<lambda>u. Inr (e\<lparr>e_user := u\<rparr>))
      else if opcode (e_frame e) = OpClose then
        require (length payload \<noteq> 1) ''HttpWebSocketEndpoint malformed close payload''
          (let statusCode = (if length payload \<ge> 2
                             then (push_bit 8 (ucast (payload ! 0)) OR ucast (payload ! 1) :: u16) else 0);
               reason = (if length payload \<ge> 2 then drop 2 payload else []) in
           attempt (cbClose cb (e_user e) statusCode reason)
             (\<lambda>u. let e1 = e\<lparr>closeReceived := True, e_user := u\<rparr> in
                if \<not> closeSent e1 then
                  attempt (queueAutomaticControl OpClose payload e1) (\<lambda>e2. Inr (e2\<lparr>closeSent := True\<rparr>))
                else Inr e1))
      else Inr e)"

definition onReaderFrameHeader :: "'u callbacks \<Rightarrow> 'u endpoint \<Rightarrow> frame \<Rightarrow> string + 'u endpoint" where
  "onReaderFrameHeader cb e header =
     (let e1 = e\<lparr>e_frame := header\<rparr>;
          e2 = (if isControlFrame header then e1\<lparr>controlPayloadSize := 0\<rparr> else e1) in
      attempt (cbFrameHeader cb (e_user e2) header)
        (\<lambda>u. let e3 = e2\<lparr>e_user := u\<rparr> in
           if isControlFrame header \<and> payloadLength header = 0 then handleControlFrame cb [] e3 else Inr e3))"

definition onReaderPayload :: "'u callbacks \<Rightarrow> 'u endpoint \<Rightarrow> byte list \<Rightarrow> bool \<Rightarrow> string + 'u endpoint" where
  "onReaderPayload cb e payload frameFinished =
     (if isControlFrame (e_frame e) then
        require (controlPayloadSize e + length payload \<le> 125) ''HttpWebSocketEndpoint control payload too large''
          (let e1 = (if length payload > 0
                     then e\<lparr>controlPayload := overwrite (controlPayload e) (controlPayloadSize e) payload,
                            controlPayloadSize := controlPayloadSize e + length payload\<rparr>
                     else e) in
           if frameFinished then handleControlFrame cb (take (controlPayloadSize e1) (controlPayload e1)) e1 else Inr e1)
      else
        attempt (cbDataFramePayload cb (e_user e) (opcode (e_frame e)) payload frameFinished)
          (\<lambda>u. Inr (e\<lparr>e_user := u\<rparr>)))"

definition endpoint_handler :: "'u callbacks \<Rightarrow> 'u endpoint handler" where
  "endpoint_handler cb = \<lparr>onFrameHeader = onReaderFrameHeader cb, onFramePayload = onReaderPayload cb\<rparr>"

definition receive :: "'u callbacks \<Rightarrow> byte list \<Rightarrow> reader \<times> 'u endpoint \<Rightarrow> string + (reader \<times> 'u endpoint) \<times> nat" where
  "receive cb data re =
     attempt (reader_parse (endpoint_handler cb) (fst re) (snd re) data) (\<lambda>(r, e, consumedBytes). Inr ((r, e), consumedBytes))"

text \<open>
  What a failing \<open>receive\<close> leaves. \<open>closeReceived\<close> is set before the close callback and before the answer
  is queued, \<open>closeSent\<close> after it. A callback of the application that fails is taken to leave the
  application's own state alone, which the application may change at any time.
\<close>

definition handleControlFrame_left :: "'u callbacks \<Rightarrow> byte list \<Rightarrow> 'u endpoint \<Rightarrow> 'u endpoint" where
  "handleControlFrame_left cb payload e =
     (if opcode (e_frame e) = OpPing then
        (case cbPing cb (e_user e) payload of Inl m \<Rightarrow> e | Inr u \<Rightarrow> e\<lparr>e_user := u\<rparr>)
      else if opcode (e_frame e) = OpClose \<and> length payload \<noteq> 1 then
        (let statusCode = (if length payload \<ge> 2
                           then (push_bit 8 (ucast (payload ! 0)) OR ucast (payload ! 1) :: u16) else 0);
             reason = (if length payload \<ge> 2 then drop 2 payload else []) in
         case cbClose cb (e_user e) statusCode reason of
           Inl m \<Rightarrow> e\<lparr>closeReceived := True\<rparr>
         | Inr u \<Rightarrow> e\<lparr>closeReceived := True, e_user := u\<rparr>)
      else e)"

definition onReaderFrameHeader_left :: "'u callbacks \<Rightarrow> 'u endpoint \<Rightarrow> frame \<Rightarrow> 'u endpoint" where
  "onReaderFrameHeader_left cb e header =
     (let e1 = e\<lparr>e_frame := header\<rparr>;
          e2 = (if isControlFrame header then e1\<lparr>controlPayloadSize := 0\<rparr> else e1) in
      case cbFrameHeader cb (e_user e2) header of
        Inl m \<Rightarrow> e2
      | Inr u \<Rightarrow> handleControlFrame_left cb [] (e2\<lparr>e_user := u\<rparr>))"

definition onReaderPayload_left :: "'u callbacks \<Rightarrow> 'u endpoint \<Rightarrow> byte list \<Rightarrow> bool \<Rightarrow> 'u endpoint" where
  "onReaderPayload_left cb e payload frameFinished =
     (if isControlFrame (e_frame e) \<and> controlPayloadSize e + length payload \<le> 125 then
        (let e1 = (if length payload > 0
                   then e\<lparr>controlPayload := overwrite (controlPayload e) (controlPayloadSize e) payload,
                          controlPayloadSize := controlPayloadSize e + length payload\<rparr>
                   else e) in
         handleControlFrame_left cb (take (controlPayloadSize e1) (controlPayload e1)) e1)
      else e)"

definition endpoint_left :: "'u callbacks \<Rightarrow> 'u endpoint leftovers" where
  "endpoint_left cb = \<lparr>leftHeader = onReaderFrameHeader_left cb, leftPayload = onReaderPayload_left cb\<rparr>"

definition receive_left :: "'u callbacks \<Rightarrow> byte list \<Rightarrow> reader \<times> 'u endpoint \<Rightarrow> reader \<times> 'u endpoint" where
  "receive_left cb data re = readerLoop_left (endpoint_handler cb) (endpoint_left cb) (fst re) (snd re) data"

end
