(* ===== verification/HttpWebSocketFramesProps.thy ===== *)
theory HttpWebSocketFramesProps
  imports HttpWebSocketFrames
begin

text \<open>
  The frame layer of the WebSocket: masking is an involution, the reader's result does not depend
  on how the stream is cut (for every consumer that accepts payload in pieces, the locale
  \<open>frame_sink\<close>), and it reads back every frame the writer emits, with both sides agreeing on
  message fragmentation.
\<close>

section \<open>Masks\<close>

lemma length_applyMask [simp]: "length (applyMask p k off) = length p"
  by (simp add: applyMask_def)

lemma applyMask_Nil [simp]: "applyMask [] k off = []"
  by (simp add: applyMask_def)

lemma nth_applyMask: "i < length p \<Longrightarrow> applyMask p k off ! i = p ! i XOR k ! unat ((off + of_nat i) AND 3)"
  by (simp add: applyMask_def)

lemma applyMask_involution: "applyMask (applyMask p k off) k off = p"
  by (rule nth_equalityI) (simp_all add: nth_applyMask xor.assoc)

lemma applyMask_append:
  "applyMask (a @ b) k off = applyMask a k off @ applyMask b k (off + of_nat (length a))"
proof (rule nth_equalityI)
  fix i
  assume "i < length (applyMask (a @ b) k off)"
  then have i: "i < length a + length b"
    by simp
  show "applyMask (a @ b) k off ! i = (applyMask a k off @ applyMask b k (off + of_nat (length a))) ! i"
  proof (cases "i < length a")
    case True
    then show ?thesis
      by (simp add: nth_applyMask nth_append)
  next
    case False
    then have "of_nat i = (of_nat (length a) + of_nat (i - length a) :: u64)"
      by (metis le_add_diff_inverse linorder_not_less of_nat_add)
    then show ?thesis
      using i False by (simp add: nth_applyMask nth_append add.assoc)
  qed
qed simp

section \<open>Bits of a header\<close>

lemma take_bit_word_self: "unat x < 2 ^ n \<Longrightarrow> take_bit n x = x" for x :: "'a::len word"
  by (simp add: word_unat_eq_iff unsigned_take_bit_eq take_bit_nat_eq_self_iff)

lemma byte_consts: "(0xFF :: u64) = mask 8"
  by (simp add: mask_eq_exp_minus_1)

lemma bit_0x80: "bit (0x80 :: byte) n \<longleftrightarrow> n = 7"
  using bit_exp_iff [of 7 n, where 'a = byte] by (auto dest: bit_imp_le_length)

lemma bit_0x7F: "bit (0x7F :: byte) n \<longleftrightarrow> n < 7"
  using bit_mask_iff [of 7 n, where 'a = byte] by (auto simp: mask_eq_exp_minus_1 dest: bit_imp_le_length)

lemma field_bits:
  assumes "x < (0x80 :: byte)"
  shows "(0x80 OR x) AND 0x7F = x" "(0x80 OR x) AND 0x80 = 0x80" "x AND 0x7F = x" "x AND 0x80 = 0"
proof -
  have "take_bit 7 x = x"
    using assms by (intro take_bit_word_self) (simp add: word_less_nat_alt)
  then have b: "bit x n \<Longrightarrow> n < 7" for n
    by (metis bit_take_bit_iff)
  show "(0x80 OR x) AND 0x7F = x" "(0x80 OR x) AND 0x80 = 0x80" "x AND 0x7F = x" "x AND 0x80 = 0"
    by (rule bit_word_eqI; auto simp: bit_and_iff bit_or_iff bit_0x80 bit_0x7F simp del: bit_numeral_word_iff dest: b)+
qed

lemma opcode_bits:
  assumes "isSupportedOpcode op"
  shows "((if b then 0x80 else 0) OR op) AND 0x70 = 0" "((if b then 0x80 else 0) OR op) AND 0x0F = op"
    "(((if b then 0x80 else 0) OR op) AND 0x80 \<noteq> 0) = b"
  using assms by (auto simp: isSupportedOpcode_def opcode_defs)

text \<open>Reading a big endian number byte by byte.\<close>

lemma accumulate_byte:
  "push_bit 8 (drop_bit (8 + s) x) OR ucast (ucast (drop_bit s x AND 0xFF) :: byte) = drop_bit s x" for x :: u64
proof -
  show ?thesis
    unfolding byte_consts
  proof (rule bit_word_eqI)
    fix n
    assume n: "n < LENGTH(64)"
    show "bit (push_bit 8 (drop_bit (8 + s) x) OR ucast (ucast (drop_bit s x AND mask 8) :: byte)) n = bit (drop_bit s x) n"
    proof (cases "n < 8")
      case True
      then show ?thesis
        using n by (simp add: bit_simps)
    next
      case False
      then have "8 + s + (n - 8) = s + n"
        by simp
      then show ?thesis
        using n False by (simp add: bit_simps)
    qed
  qed
qed

lemma accumulate_small:
  "x \<le> 0xFFFF \<Longrightarrow> push_bit 8 (ucast (ucast (drop_bit 8 x AND 0xFF) :: byte)) OR ucast (ucast (x AND 0xFF) :: byte) = (x :: u64)"
proof -
  assume "x \<le> 0xFFFF"
  then have "take_bit 16 x = x"
    by (intro take_bit_word_self) (simp add: word_le_nat_alt)
  then have b: "bit x n \<Longrightarrow> n < 16" for n
    by (metis bit_take_bit_iff)
  show ?thesis
    unfolding byte_consts
  proof (rule bit_word_eqI)
    fix n
    assume n: "n < LENGTH(64)"
    show "bit (push_bit 8 (ucast (ucast (drop_bit 8 x AND mask 8) :: byte)) OR ucast (ucast (x AND mask 8) :: byte) :: u64) n = bit x n"
      using n b [of n] by (cases "n < 8") (auto simp: bit_simps)
  qed
qed

section \<open>Cutting the stream\<close>

text \<open>A reader between two calls of \<open>parse\<close>: it waits for payload only while some is missing.\<close>

definition reader_ok :: "reader \<Rightarrow> bool" where
  "reader_ok r \<longleftrightarrow> (r_state r = Payload \<longrightarrow> r_remaining r \<noteq> 0)"

lemma reader_ok_reset: "reader_ok (reader_reset ro)"
  by (simp add: reader_ok_def reader_reset_def)

lemma finishCurrentFrame_simps [simp]:
  "r_state (finishCurrentFrame r) = HeaderByte0" "r_role (finishCurrentFrame r) = r_role r"
  "r_fragmented (finishCurrentFrame r) = (if isControlFrame (r_frame r) then r_fragmented r else \<not> fin (r_frame r))"
  by (simp_all add: finishCurrentFrame_def Let_def)

text \<open>What \<open>onHeaderReady\<close> checks, and the reader after an accepted header.\<close>

definition acceptsHeader :: "reader \<Rightarrow> bool" where
  "acceptsHeader r \<longleftrightarrow> (let f = r_frame r in masked f = requiresIncomingMask (r_role r) \<and>
     (if isControlFrame f then fin f \<and> payloadLength f \<le> 125
      else r_fragmented r = (opcode f = OpContinuation)))"

definition afterHeader :: "reader \<Rightarrow> reader" where
  "afterHeader r = (let r1 = r\<lparr>r_remaining := payloadLength (r_frame r), r_consumed := 0\<rparr> in
     if payloadLength (r_frame r) = 0 then finishCurrentFrame r1 else r1\<lparr>r_state := Payload\<rparr>)"

lemma onHeaderReady_accepts:
  "acceptsHeader r \<Longrightarrow>
     onHeaderReady h r s = attempt (onFrameHeader h s (r_frame r)) (\<lambda>s'. Inr (afterHeader r, s'))"
  by (cases "payloadLength (r_frame r) = 0")
    (auto simp: onHeaderReady_def acceptsHeader_def afterHeader_def Let_def require_def split: if_splits)

lemma onHeaderReady_rejects: "\<not> acceptsHeader r \<Longrightarrow> \<exists>e. onHeaderReady h r s = Inl e"
  by (auto simp: onHeaderReady_def acceptsHeader_def Let_def require_def split: if_splits)

lemma afterHeader_ok: "reader_ok (afterHeader r)"
  by (simp add: afterHeader_def reader_ok_def Let_def)

lemma onHeaderReady_ok: "onHeaderReady h r s = Inr (r', s') \<Longrightarrow> reader_ok r'"
  using onHeaderReady_accepts [of r h s] onHeaderReady_rejects [of r h s] afterHeader_ok [of r]
  by (cases "acceptsHeader r") (auto simp: attempt_Inr)

lemma readerStep_ok:
  assumes "readerStep h r s data = Inr (r', s', k)" and "reader_ok r"
  shows "reader_ok r'"
proof (cases "r_state r")
  case HeaderByte0
  then show ?thesis
    using assms by (auto simp: readerStep_def Let_def reader_ok_def)
next
  case HeaderByte1
  then have "readByte1 h r s (hd data) = Inr (r', s')"
    using assms by (auto simp: readerStep_def Let_def map_sum_def split: sum.splits)
  then show ?thesis
    by (auto simp: readByte1_def Let_def require_Inr reader_ok_def split: if_splits dest!: onHeaderReady_ok)
next
  case ExtendedLength
  then have "readExtended h r s (hd data) = Inr (r', s')"
    using assms by (auto simp: readerStep_def Let_def map_sum_def split: sum.splits)
  then show ?thesis
    using ExtendedLength
    by (auto simp: readExtended_def Let_def require_Inr reader_ok_def split: if_splits dest!: onHeaderReady_ok)
next
  case MaskKey
  then have "readMask h r s (hd data) = Inr (r', s')"
    using assms by (auto simp: readerStep_def Let_def map_sum_def split: sum.splits)
  then show ?thesis
    using MaskKey by (auto simp: readMask_def Let_def reader_ok_def split: if_splits dest!: onHeaderReady_ok)
next
  case Payload
  then have "readPayload h r s data = Inr (r', s', k)"
    using assms by (simp add: readerStep_def)
  then show ?thesis
    using Payload by (auto simp: readPayload_def Let_def require_Inr attempt_Inr reader_ok_def split: if_splits)
qed

text \<open>What an iteration on payload delivers and how it moves the reader.\<close>

definition unmasked :: "reader \<Rightarrow> byte list \<Rightarrow> byte list" where
  "unmasked r x = (if masked (r_frame r) then applyMask x (maskKey (r_frame r)) (r_consumed r) else x)"

definition advance :: "reader \<Rightarrow> nat \<Rightarrow> reader" where
  "advance r t = (let r1 = r\<lparr>r_remaining := r_remaining r - of_nat t, r_consumed := r_consumed r + of_nat t\<rparr> in
     if r_remaining r - of_nat t = 0 then finishCurrentFrame r1 else r1)"

lemma readPayload_value:
  assumes "t = (if length data < unat (r_remaining r) then length data else unat (r_remaining r))" and "0 < t"
  shows "readPayload h r s data =
    attempt (onFramePayload h s (unmasked r (take t data)) (r_remaining r - of_nat t = 0)) (\<lambda>s'. Inr (advance r t, s', t))"
  using assms(2) unfolding readPayload_def Let_def assms(1) [symmetric] by (simp add: unmasked_def advance_def)

lemma unmasked_nonempty: "unmasked r x \<noteq> [] \<longleftrightarrow> x \<noteq> []"
  by (auto simp: unmasked_def applyMask_def)

lemma unmasked_append: "unmasked r (a @ b) =
    unmasked r a @ unmasked (r\<lparr>r_remaining := m, r_consumed := r_consumed r + of_nat (length a)\<rparr>) b"
  by (simp add: unmasked_def applyMask_append)

text \<open>A property of the state of the callbacks that both callbacks keep is kept by the reader.\<close>

locale handler_invariant =
  fixes h :: "'s handler" and inv :: "'s \<Rightarrow> bool"
  assumes header_inv: "inv s \<Longrightarrow> onFrameHeader h s f = Inr s' \<Longrightarrow> inv s'"
    and payload_inv: "inv s \<Longrightarrow> onFramePayload h s p fi = Inr s' \<Longrightarrow> inv s'"
begin

lemma onHeaderReady_inv: "onHeaderReady h r s = Inr (r', s') \<Longrightarrow> inv s \<Longrightarrow> inv s'"
  using onHeaderReady_accepts [of r h s] onHeaderReady_rejects [of r h s] header_inv
  by (cases "acceptsHeader r") (auto simp: attempt_Inr)

lemma readerStep_inv:
  assumes "readerStep h r s data = Inr (r', s', k)" and "inv s"
  shows "inv s'"
proof (cases "r_state r")
  case HeaderByte1
  then have "readByte1 h r s (hd data) = Inr (r', s')"
    using assms(1) by (auto simp: readerStep_def Let_def map_sum_def split: sum.splits)
  then show ?thesis
    using assms(2) by (auto simp: readByte1_def Let_def require_Inr split: if_splits dest: onHeaderReady_inv)
next
  case ExtendedLength
  then have "readExtended h r s (hd data) = Inr (r', s')"
    using assms(1) by (auto simp: readerStep_def Let_def map_sum_def split: sum.splits)
  then show ?thesis
    using assms(2) by (auto simp: readExtended_def Let_def require_Inr split: if_splits dest: onHeaderReady_inv)
next
  case MaskKey
  then have "readMask h r s (hd data) = Inr (r', s')"
    using assms(1) by (auto simp: readerStep_def Let_def map_sum_def split: sum.splits)
  then show ?thesis
    using assms(2) by (auto simp: readMask_def Let_def split: if_splits dest: onHeaderReady_inv)
next
  case Payload
  then have "readPayload h r s data = Inr (r', s', k)"
    using assms(1) by (simp add: readerStep_def)
  then show ?thesis
    using assms(2) payload_inv by (auto simp: readPayload_def Let_def require_Inr attempt_Inr)
qed (use assms in \<open>simp add: readerStep_def\<close>)

lemma readerLoop_inv: "readerLoop h r s n data = Inr (r', s', m) \<Longrightarrow> inv s \<Longrightarrow> inv s'"
proof (induction "length data" arbitrary: r s n data rule: less_induct)
  case less
  show ?case
  proof (cases "data = []")
    case True
    then show ?thesis
      using less.prems by (simp add: readerLoop.simps)
  next
    case False
    then obtain r1 s1 k where step: "readerStep h r s data = Inr (r1, s1, k)"
      and loop: "readerLoop h r1 s1 (n + k) (drop k data) = Inr (r', s', m)"
      using less.prems(1) by (auto simp: readerLoop.simps [of h r s n data] split: sum.splits)
    have "length (drop k data) < length data"
      using readerStep_progress [OF step False] False by simp
    then show ?thesis
      using less.hyps loop readerStep_inv [OF step less.prems(2)] by blast
  qed
qed

lemma reader_parse_inv: "reader_parse h r s data = Inr (r', s', m) \<Longrightarrow> inv s \<Longrightarrow> inv s'"
  unfolding reader_parse_def by (rule readerLoop_inv)

end

text \<open>
  Callbacks that keep a property when they succeed, and leave a weaker one when they fail: so does the
  reader.
\<close>

locale failing_handler = handler_invariant +
  fixes l :: "'s leftovers" and kept :: "'s \<Rightarrow> bool"
  assumes inv_kept: "inv s \<Longrightarrow> kept s"
    and header_left: "inv s \<Longrightarrow> onFrameHeader h s f = Inl m \<Longrightarrow> kept (leftHeader l s f)"
    and payload_left: "inv s \<Longrightarrow> onFramePayload h s p fi = Inl m \<Longrightarrow> kept (leftPayload l s p fi)"
begin

lemma onHeaderReady_kept:
  assumes "onHeaderReady h r s = Inl m" and "inv s"
  shows "kept (snd (onHeaderReady_left l r s))"
proof (cases "acceptsHeader r")
  case True
  then have "onFrameHeader h s (r_frame r) = Inl m"
    using assms(1) onHeaderReady_accepts [OF True, of h s] by (cases "onFrameHeader h s (r_frame r)") auto
  then show ?thesis
    using header_left [OF assms(2)] inv_kept [OF assms(2)] by (simp add: onHeaderReady_left_def Let_def)
next
  case False
  then show ?thesis
    using inv_kept [OF assms(2)] by (auto simp: onHeaderReady_left_def acceptsHeader_def Let_def split: if_splits)
qed

lemma readerStep_kept:
  assumes "readerStep h r s data = Inl m" and "inv s"
  shows "kept (snd (readerStep_left l r s data))"
proof (cases "r_state r")
  case HeaderByte1
  then have "readByte1 h r s (hd data) = Inl m"
    using assms(1) by (auto simp: readerStep_def Let_def map_sum_def split: sum.splits)
  then show ?thesis
    using HeaderByte1 inv_kept [OF assms(2)] onHeaderReady_kept [OF _ assms(2)]
    by (auto simp: readerStep_left_def readByte1_left_def readByte1_def Let_def require_def split: if_splits)
next
  case ExtendedLength
  then have "readExtended h r s (hd data) = Inl m"
    using assms(1) by (auto simp: readerStep_def Let_def map_sum_def split: sum.splits)
  then show ?thesis
    using ExtendedLength inv_kept [OF assms(2)] onHeaderReady_kept [OF _ assms(2)]
    by (auto simp: readerStep_left_def readExtended_left_def readExtended_def Let_def require_def split: if_splits)
next
  case MaskKey
  then have "readMask h r s (hd data) = Inl m"
    using assms(1) by (auto simp: readerStep_def Let_def map_sum_def split: sum.splits)
  then show ?thesis
    using MaskKey onHeaderReady_kept [OF _ assms(2)]
    by (auto simp: readerStep_left_def readMask_left_def readMask_def Let_def split: if_splits)
next
  case Payload
  then have "readPayload h r s data = Inl m"
    using assms(1) by (simp add: readerStep_def)
  then show ?thesis
    using Payload inv_kept [OF assms(2)] payload_left [OF assms(2)]
    by (auto simp: readerStep_left_def readPayload_left_def readPayload_def Let_def require_def attempt_def split: if_splits sum.splits)
qed (use assms in \<open>simp add: readerStep_def\<close>)

lemma readerLoop_kept: "readerLoop h r s n data = Inl m \<Longrightarrow> inv s \<Longrightarrow> kept (snd (readerLoop_left h l r s data))"
proof (induction "length data" arbitrary: r s n data rule: less_induct)
  case less
  have ne: "data \<noteq> []"
    using less.prems(1) by (auto simp: readerLoop.simps)
  show ?case
  proof (cases "readerStep h r s data")
    case (Inl e)
    then show ?thesis
      using readerStep_kept [OF Inl less.prems(2)] ne by (simp add: readerLoop_left.simps [of h l r s data])
  next
    case (Inr x)
    obtain r1 s1 k where x: "x = (r1, s1, k)" by (cases x)
    have "length (drop k data) < length data"
      using readerStep_progress [OF Inr [unfolded x] ne] ne by simp
    moreover have "readerLoop h r1 s1 (n + k) (drop k data) = Inl m"
      using less.prems(1) Inr x ne by (simp add: readerLoop.simps [of h r s n data])
    ultimately show ?thesis
      using less.hyps readerStep_inv [OF Inr [unfolded x] less.prems(2)] Inr x ne
      by (simp add: readerLoop_left.simps [of h l r s data])
  qed
qed

end

text \<open>
  The mask key has its four bytes, and the reader waits for one of them only while one is missing; after
  a failure it may have all of them and still be in the state in which it reads the key.
\<close>

definition mask_left :: "reader \<Rightarrow> bool" where
  "mask_left r \<longleftrightarrow> length (maskKey (r_frame r)) = 4 \<and> (r_state r = ExtendedLength \<longrightarrow> maskBytesRead r = 0) \<and>
     (r_state r = MaskKey \<longrightarrow> maskBytesRead r \<le> 4)"

definition mask_ok :: "reader \<Rightarrow> bool" where
  "mask_ok r \<longleftrightarrow> mask_left r \<and> (r_state r = MaskKey \<longrightarrow> maskBytesRead r \<noteq> 4)"

lemma mask_ok_reset: "mask_ok (reader_reset ro)"
  by (simp add: mask_ok_def mask_left_def reader_reset_def empty_frame_def)

lemma onHeaderReady_mask: "onHeaderReady h r s = Inr (r', s') \<Longrightarrow> length (maskKey (r_frame r)) = 4 \<Longrightarrow> mask_ok r'"
  using onHeaderReady_accepts [of r h s] onHeaderReady_rejects [of r h s]
  by (cases "acceptsHeader r")
    (auto simp: attempt_Inr afterHeader_def Let_def mask_ok_def mask_left_def finishCurrentFrame_def split: if_splits)

lemma readerStep_mask:
  assumes "readerStep h r s data = Inr (r', s', k)" and "mask_ok r"
  shows "mask_ok r'"
proof (cases "r_state r")
  case HeaderByte0
  then show ?thesis
    using assms by (auto simp: readerStep_def Let_def mask_ok_def mask_left_def)
next
  case HeaderByte1
  then have "readByte1 h r s (hd data) = Inr (r', s')"
    using assms by (auto simp: readerStep_def Let_def map_sum_def split: sum.splits)
  then show ?thesis
    by (auto simp: readByte1_def Let_def require_Inr mask_ok_def mask_left_def empty_frame_def split: if_splits
        dest!: onHeaderReady_mask)
next
  case ExtendedLength
  then have "readExtended h r s (hd data) = Inr (r', s')"
    using assms by (auto simp: readerStep_def Let_def map_sum_def split: sum.splits)
  then show ?thesis
    using ExtendedLength assms(2)
    by (auto simp: readExtended_def Let_def require_Inr mask_ok_def mask_left_def split: if_splits dest!: onHeaderReady_mask)
next
  case MaskKey
  then have "readMask h r s (hd data) = Inr (r', s')"
    using assms by (auto simp: readerStep_def Let_def map_sum_def split: sum.splits)
  then show ?thesis
    using MaskKey assms(2) by (auto simp: readMask_def Let_def mask_ok_def mask_left_def split: if_splits dest!: onHeaderReady_mask)
next
  case Payload
  then have "readPayload h r s data = Inr (r', s', k)"
    using assms by (simp add: readerStep_def)
  then show ?thesis
    using Payload assms(2)
    by (auto simp: readPayload_def Let_def require_Inr attempt_Inr mask_ok_def mask_left_def finishCurrentFrame_def split: if_splits)
qed

lemma readerStep_mask_left:
  assumes "mask_ok r"
  shows "mask_left (fst (readerStep_left l r s data))"
  using assms
  by (cases "r_state r")
    (auto simp: readerStep_left_def readByte1_left_def readExtended_left_def readMask_left_def readPayload_left_def onHeaderReady_left_def
      Let_def mask_ok_def mask_left_def empty_frame_def)

lemma readerLoop_mask:
  "mask_ok r \<Longrightarrow> (\<forall>r' s' m. readerLoop h r s n data = Inr (r', s', m) \<longrightarrow> mask_ok r') \<and>
    mask_left (fst (readerLoop_left h l r s data))"
proof (induction "length data" arbitrary: r s n data rule: less_induct)
  case less
  show ?case
  proof (cases "data = []")
    case True
    then show ?thesis
      using less.prems by (simp add: readerLoop.simps readerLoop_left.simps mask_ok_def)
  next
    case ne: False
    show ?thesis
    proof (cases "readerStep h r s data")
      case (Inl e)
      then show ?thesis
        using readerStep_mask_left [OF less.prems] ne by (simp add: readerLoop.simps [of h r s n data] readerLoop_left.simps [of h l r s data])
    next
      case (Inr x)
      obtain r1 s1 k where x: "x = (r1, s1, k)" by (cases x)
      have "length (drop k data) < length data"
        using readerStep_progress [OF Inr [unfolded x] ne] ne by simp
      from less.hyps [OF this readerStep_mask [OF Inr [unfolded x] less.prems], of s1 "n + k"] show ?thesis
        using Inr x ne by (simp add: readerLoop.simps [of h r s n data] readerLoop_left.simps [of h l r s data])
    qed
  qed
qed

text \<open>
  A consumer of frames that takes the payload in pieces of any size, like the message assembler
  and the control frames of the endpoint.
\<close>

locale frame_sink = handler_invariant +
  assumes pieces: "inv s \<Longrightarrow> a \<noteq> [] \<Longrightarrow> b \<noteq> [] \<Longrightarrow>
    onFramePayload h s (a @ b) f = attempt (onFramePayload h s a False) (\<lambda>s'. onFramePayload h s' b f)"
begin

lemma readPayload_split:
  assumes "a \<noteq> []" and "b \<noteq> []" and "length a < unat (r_remaining r)" and "inv s"
  shows "readPayload h r s (a @ b) = attempt (readPayload h r s a)
    (\<lambda>(r', s', k). attempt (readPayload h r' s' b) (\<lambda>(r2, s2, k2). Inr (r2, s2, k + k2)))"
proof -
  let ?m = "unat (r_remaining r)"
  obtain t where t: "t = (if length b < ?m - length a then length b else ?m - length a)"
    by simp
  let ?r1 = "r\<lparr>r_remaining := r_remaining r - of_nat (length a), r_consumed := r_consumed r + of_nat (length a)\<rparr>"
  have un: "unat (of_nat (length a) :: u64) = length a"
    using assms(3) unsigned_less [of "r_remaining r", where 'a = nat] by (simp add: unat_of_nat)
  have rem1: "unat (r_remaining r - of_nat (length a)) = ?m - length a"
    using assms(3) un by (simp add: unat_sub word_le_nat_alt)
  have ne: "r_remaining r - of_nat (length a) \<noteq> 0"
    using rem1 assms(3) by (metis unsigned_0 zero_less_diff less_numeral_extra(3))
  have t2: "0 < t"
    using assms(2,3) t by simp
  have total: "length a + t = (if length (a @ b) < ?m then length (a @ b) else ?m)"
    using assms(3) t by (cases "length b < ?m - length a") auto
  have taken: "take (length a + t) (a @ b) = a @ take t b" "take t b \<noteq> []"
    using t2 assms(2) by simp_all
  have sum: "r_remaining r - of_nat (length a + t) = r_remaining r - of_nat (length a) - of_nat t"
    "r_consumed r + of_nat (length a + t) = r_consumed r + of_nat (length a) + of_nat t"
    by (simp_all only: of_nat_add diff_diff_eq add.assoc)
  have first: "readPayload h r s a = attempt (onFramePayload h s (unmasked r a) False) (\<lambda>s'. Inr (?r1, s', length a))"
    using readPayload_value [of "length a" a r h s] assms(1,3) ne by (simp add: advance_def)
  have second: "readPayload h ?r1 s' b =
      attempt (onFramePayload h s' (unmasked ?r1 (take t b)) (r_remaining r - of_nat (length a) - of_nat t = 0))
        (\<lambda>s''. Inr (advance ?r1 t, s'', t))" for s'
    using readPayload_value [of t b ?r1 h s'] t t2 rem1 by simp
  have adv: "advance ?r1 t = advance r (length a + t)"
    unfolding advance_def Let_def by (cases r) (simp add: algebra_simps)
  have nonempty: "unmasked r a \<noteq> []" "unmasked ?r1 (take t b) \<noteq> []"
    using assms(1) taken(2) unfolding unmasked_nonempty .
  have whole: "readPayload h r s (a @ b) =
      attempt (onFramePayload h s (unmasked r a @ unmasked ?r1 (take t b)) (r_remaining r - of_nat (length a) - of_nat t = 0))
        (\<lambda>s''. Inr (advance r (length a + t), s'', length a + t))"
    using readPayload_value [OF total, of h s] t2 unfolding taken(1) sum(1)
    by (simp add: unmasked_append [of r a "take t b" "r_remaining r - of_nat (length a)"])
  show ?thesis
    unfolding whole pieces [OF assms(4) nonempty] first
    by (simp only: attempt_assoc attempt_simps prod.case second adv)
qed

lemma readPayload_enough:
  assumes "unat (r_remaining r) \<le> length a"
  shows "readPayload h r s (a @ b) = readPayload h r s a"
  using assms by (simp add: readPayload_def Let_def)

lemma readPayload_all:
  assumes "readPayload h r s a = Inr (r', s', k)" and "length a < unat (r_remaining r)"
  shows "k = length a \<and> r_state r' = r_state r"
proof -
  have "unat (of_nat (length a) :: u64) = length a"
    using assms(2) unsigned_less [of "r_remaining r", where 'a = nat] by (simp add: unat_of_nat)
  then have "unat (r_remaining r - of_nat (length a)) = unat (r_remaining r) - length a"
    using assms(2) by (simp add: unat_sub word_le_nat_alt)
  then have "r_remaining r - of_nat (length a) \<noteq> 0"
    using assms(2) by (metis unsigned_0 zero_less_diff less_numeral_extra(3))
  then show ?thesis
    using assms by (auto simp: readPayload_def Let_def require_Inr attempt_Inr)
qed

lemma readerStep_one:
  assumes "r_state r \<noteq> Payload" and "a \<noteq> []"
  shows "readerStep h r s (a @ b) = readerStep h r s a"
    "readerStep h r s a = Inr (r', s', k) \<Longrightarrow> k = 1"
  using assms
  by (cases "r_state r"; auto simp: readerStep_def Let_def map_sum_def split: sum.splits)+

text \<open>The loop over two chunks is the loop over the joined one.\<close>

lemma readerLoop_append:
  "reader_ok r \<Longrightarrow> inv s \<Longrightarrow> readerLoop h r s n (a @ b) =
     attempt (readerLoop h r s n a) (\<lambda>(r', s', m). readerLoop h r' s' m b)"
proof (induction "length a" arbitrary: a r s n rule: less_induct)
  case less
  show ?case
  proof (cases "a = []")
    case True
    then show ?thesis
      by (simp add: readerLoop.simps [of h r s n "[]"])
  next
    case ne: False
    note loop_a = readerLoop.simps [of h r s n a] and loop_ab = readerLoop.simps [of h r s n "a @ b"]
    have rest: "attempt (readerStep h r s a) (\<lambda>(r', s', k). readerLoop h r' s' (n + k) (drop k a @ b)) =
        attempt (readerLoop h r s n a) (\<lambda>(r', s', m). readerLoop h r' s' m b)"
    proof (cases "readerStep h r s a")
      case (Inr x)
      obtain r' s' k where x: "x = (r', s', k)" by (cases x)
      have "0 < k" "k \<le> length a" "reader_ok r'" "inv s'"
        using readerStep_progress [of h r s a r' s' k] readerStep_ok [of h r s a r' s' k]
          readerStep_inv [of r s a r' s' k] Inr x ne less.prems by auto
      then have "readerLoop h r' s' (n + k) (drop k a @ b) =
          attempt (readerLoop h r' s' (n + k) (drop k a)) (\<lambda>(r', s', m). readerLoop h r' s' m b)"
        using less.hyps [of "drop k a" r' s'] ne by simp
      then show ?thesis
        using Inr x ne by (simp add: loop_a)
    qed (use ne in \<open>simp add: loop_a\<close>)
    show ?thesis
    proof (cases "r_state r = Payload \<and> length a < unat (r_remaining r)")
      case True
      then have pay: "r_state r = Payload" "length a < unat (r_remaining r)"
        by simp_all
      show ?thesis
      proof (cases "b = []")
        case True
        then show ?thesis
          by (cases "readerLoop h r s n a") (auto simp: readerLoop.simps [of _ _ _ _ "[]"])
      next
        case b: False
        have step: "readerStep h r s (a @ b) = attempt (readerStep h r s a)
            (\<lambda>(r', s', k). attempt (readerStep h r' s' b) (\<lambda>(r2, s2, k2). Inr (r2, s2, k + k2)))"
        proof (cases "readPayload h r s a")
          case (Inr x)
          then obtain r' s' k where x: "x = (r', s', k)" by (cases x)
          then have "r_state r' = Payload"
            using readPayload_all [of r s a r' s' k] Inr pay by simp
          then show ?thesis
            using readPayload_split [OF ne b pay(2) less.prems(2)] Inr x pay(1) by (simp add: readerStep_def)
        qed (use readPayload_split [OF ne b pay(2) less.prems(2)] pay(1) in \<open>simp add: readerStep_def\<close>)
        show ?thesis
        proof (cases "readerStep h r s a")
          case (Inl e)
          then show ?thesis
            using step ne by (simp add: loop_a loop_ab)
        next
          case (Inr x)
          obtain r' s' k where x: "x = (r', s', k)" by (cases x)
          have k: "k = length a"
            using readPayload_all [of r s a r' s' k] Inr x pay by (simp add: readerStep_def)
          have "readerLoop h r s n a = Inr (r', s', n + length a)"
            using Inr x k ne by (simp add: loop_a readerLoop.simps [of _ _ _ _ "[]"])
          moreover have "readerLoop h r s n (a @ b) = readerLoop h r' s' (n + length a) b"
            using step Inr x k ne b readerLoop.simps [of h r' s' "n + length a" b]
            by (cases "readerStep h r' s' b") (auto simp: loop_ab add.assoc)
          ultimately show ?thesis
            by simp
        qed
      qed
    next
      case False
      have "readerStep h r s (a @ b) = readerStep h r s a"
      proof (cases "r_state r = Payload")
        case True
        then show ?thesis
          using False readPayload_enough [of r a s b] by (simp add: readerStep_def)
      next
        case other: False
        then show ?thesis
          using readerStep_one(1) ne by blast
      qed
      then have "readerLoop h r s n (a @ b) =
          attempt (readerStep h r s a) (\<lambda>(r', s', k). readerLoop h r' s' (n + k) (drop k (a @ b)))"
        using ne by (cases "readerStep h r s a") (auto simp: loop_ab)
      also have "\<dots> = attempt (readerStep h r s a) (\<lambda>(r', s', k). readerLoop h r' s' (n + k) (drop k a @ b))"
        using readerStep_progress [of h r s a] ne by (cases "readerStep h r s a") auto
      finally show ?thesis
        using rest by simp
    qed
  qed
qed

end

lemma readerLoop_Nil: "readerLoop h r s n [] = Inr (r, s, n)"
  by (simp add: readerLoop.simps)

lemma readerLoop_consumes: "readerLoop h r s n data = Inr (r', s', m) \<Longrightarrow> m = n + length data"
proof (induction h r s n data rule: readerLoop.induct)
  case (1 h r s n data)
  show ?case
  proof (cases "data = []")
    case True
    then show ?thesis
      using 1(2) by (simp add: readerLoop_Nil)
  next
    case False
    then obtain r1 s1 k where step: "readerStep h r s data = Inr (r1, s1, k)"
      and loop: "readerLoop h r1 s1 (n + k) (drop k data) = Inr (r', s', m)"
      using 1(2) by (auto simp: readerLoop.simps [of h r s n data] split: sum.splits)
    have "m = n + k + length (drop k data)"
      using 1(1) [OF False step refl refl loop] .
    then show ?thesis
      using readerStep_progress [OF step False] by simp
  qed
qed

lemma readerLoop_ok: "readerLoop h r s n data = Inr (r', s', m) \<Longrightarrow> reader_ok r \<Longrightarrow> reader_ok r'"
proof (induction h r s n data rule: readerLoop.induct)
  case (1 h r s n data)
  show ?case
  proof (cases "data = []")
    case True
    then show ?thesis
      using 1(2,3) by (simp add: readerLoop_Nil)
  next
    case False
    then obtain r1 s1 k where step: "readerStep h r s data = Inr (r1, s1, k)"
      and loop: "readerLoop h r1 s1 (n + k) (drop k data) = Inr (r', s', m)"
      using 1(2) by (auto simp: readerLoop.simps [of h r s n data] split: sum.splits)
    show ?thesis
      using 1(1) [OF False step refl refl loop] readerStep_ok [OF step 1(3)] by simp
  qed
qed

lemma readerLoop_shift:
  "readerLoop h r s (c + n) data = map_sum id (\<lambda>(r', s', m). (r', s', c + m)) (readerLoop h r s n data)"
proof (induction h r s n data rule: readerLoop.induct)
  case (1 h r s n data)
  show ?case
  proof (cases "data = []")
    case True
    then show ?thesis
      by (simp add: readerLoop_Nil)
  next
    case ne: False
    show ?thesis
    proof (cases "readerStep h r s data")
      case (Inl e)
      then show ?thesis
        using ne by (simp add: readerLoop.simps [of h r s _ data])
    next
      case (Inr x)
      obtain r1 s1 k where x: "x = (r1, s1, k)" by (cases x)
      have "readerLoop h r1 s1 (c + (n + k)) (drop k data) =
          map_sum id (\<lambda>(r', s', m). (r', s', c + m)) (readerLoop h r1 s1 (n + k) (drop k data))"
        using 1(1) [OF ne Inr] x by (simp add: id_def)
      then show ?thesis
        using ne Inr x by (simp add: readerLoop.simps [of h r s _ data] add.assoc id_def)
    qed
  qed
qed

text \<open>A connection: the chunks of the stream as they arrive, one call of \<open>parse\<close> for each.\<close>

primrec parseChunks :: "'s handler \<Rightarrow> reader \<Rightarrow> 's \<Rightarrow> byte list list \<Rightarrow> string + reader \<times> 's" where
  "parseChunks h r s [] = Inr (r, s)"
| "parseChunks h r s (c # cs) = attempt (reader_parse h r s c) (\<lambda>(r', s', n). parseChunks h r' s' cs)"

lemma reader_parse_Nil [simp]: "reader_parse h r s [] = Inr (r, s, 0)"
  by (simp add: reader_parse_def readerLoop.simps)

lemma reader_parse_ok: "reader_parse h r s data = Inr (r', s', n) \<Longrightarrow> reader_ok r \<Longrightarrow> reader_ok r' \<and> n = length data"
  using readerLoop_ok [of h r s 0 data r' s' n] readerLoop_consumes [of h r s 0 data r' s' n]
  by (simp add: reader_parse_def)

context frame_sink
begin

lemma reader_parse_append:
  assumes "reader_ok r" and "inv s"
  shows "reader_parse h r s (a @ b) =
    attempt (reader_parse h r s a) (\<lambda>(r', s', n). map_sum id (\<lambda>(r2, s2, m). (r2, s2, n + m)) (reader_parse h r' s' b))"
proof -
  have shift: "readerLoop h r' s' n b = map_sum id (\<lambda>(r2, s2, m). (r2, s2, n + m)) (readerLoop h r' s' 0 b)" for r' s' n
    using readerLoop_shift [of h r' s' n 0 b] by simp
  show ?thesis
  proof (cases "readerLoop h r s 0 a")
    case (Inr x)
    obtain r' s' n where x: "x = (r', s', n)" by (cases x)
    show ?thesis
      unfolding reader_parse_def readerLoop_append [OF assms] Inr x attempt_simps prod.case by (rule shift)
  qed (simp add: reader_parse_def readerLoop_append [OF assms])
qed

lemma parseChunks_concat:
  "reader_ok r \<Longrightarrow> inv s \<Longrightarrow> parseChunks h r s cs = map_sum id (\<lambda>(r', s', n). (r', s')) (reader_parse h r s (concat cs))"
proof (induction cs arbitrary: r s)
  case (Cons c cs)
  show ?case
  proof (cases "reader_parse h r s c")
    case (Inr x)
    obtain r' s' n where x: "x = (r', s', n)" by (cases x)
    have "parseChunks h r' s' cs = map_sum id (\<lambda>(r', s', n). (r', s')) (reader_parse h r' s' (concat cs))"
      using Cons.IH Inr x reader_parse_ok [of h r s c] reader_parse_inv [of r s c] Cons.prems by blast
    then show ?thesis
      using reader_parse_append [OF Cons.prems, of c "concat cs"] Inr x
      by (cases "reader_parse h r' s' (concat cs)") auto
  qed (use reader_parse_append [OF Cons.prems, of c "concat cs"] in simp)
qed simp

end

section \<open>Reading a written frame\<close>

lemma loop_header:
  assumes "r_state r \<noteq> Payload"
  shows "readerLoop h r s n (b # rest) =
    attempt (readerStep h r s [b]) (\<lambda>(r', s', k). readerLoop h r' s' (n + 1) rest)"
proof -
  have "readerStep h r s (b # rest) = readerStep h r s [b]"
    using assms by (cases "r_state r") (simp_all add: readerStep_def)
  moreover have "readerStep h r s [b] = Inr (r', s', k) \<Longrightarrow> k = 1" for r' s' k
    using readerStep_progress [of h r s "[b]" r' s' k] by simp
  ultimately show ?thesis
    by (cases "readerStep h r s [b]") (auto simp: readerLoop.simps [of h r s n])
qed

text \<open>What is left of the extended length, most significant byte first.\<close>

definition bigEndian :: "nat \<Rightarrow> u64 \<Rightarrow> byte list" where
  "bigEndian k x = map (\<lambda>i. ucast (drop_bit (8 * i) x AND 0xFF)) (rev [0..<k])"

lemma bigEndian_simps [simp]:
  "bigEndian 0 x = []" "bigEndian (Suc k) x = ucast (drop_bit (8 * k) x AND 0xFF) # bigEndian k x"
  by (simp_all add: bigEndian_def)

lemma lengthBytes_bigEndian:
  "lengthBytes f = (let m = (if masked f then 0x80 else 0) in
     if payloadLength f < 126 then [m OR ucast (payloadLength f)]
     else if payloadLength f \<le> 0xFFFF then (m OR 126) # bigEndian 2 (payloadLength f)
     else (m OR 127) # bigEndian 8 (payloadLength f))"
  by (simp add: lengthBytes_def bigEndian_def Let_def numeral_eq_Suc)

text \<open>A complete length field continues with the mask key or with the checks.\<close>

definition lengthKnown :: "'s handler \<Rightarrow> reader \<Rightarrow> 's \<Rightarrow> string + reader \<times> 's" where
  "lengthKnown h r s = (if masked (r_frame r) then Inr (r\<lparr>r_state := MaskKey\<rparr>, s) else onHeaderReady h r s)"

lemma loop_extended:
  assumes "r_state r = ExtendedLength" and "extendedLengthBytesExpected r = E" and "0 < k" and "k \<le> E"
    and "extendedLengthBytesRead r = E - k" and "extendedLengthAccumulator r = drop_bit (8 * k) x"
    and "E = 8 \<Longrightarrow> ucast (drop_bit 56 x AND 0xFF) AND (0x80 :: byte) = 0"
  shows "readerLoop h r s n (bigEndian k x @ rest) =
    attempt (lengthKnown h (r\<lparr>extendedLengthAccumulator := x, extendedLengthBytesRead := E,
        r_frame := (r_frame r)\<lparr>payloadLength := x\<rparr>\<rparr>) s)
      (\<lambda>(r', s'). readerLoop h r' s' (n + k) rest)"
  using assms
proof (induction k arbitrary: r n)
  case (Suc k)
  let ?b = "ucast (drop_bit (8 * k) x AND 0xFF) :: byte"
  let ?r = "r\<lparr>extendedLengthAccumulator := drop_bit (8 * k) x, extendedLengthBytesRead := E - k\<rparr>"
  have acc: "push_bit 8 (extendedLengthAccumulator r) OR ucast ?b = drop_bit (8 * k) x"
    using accumulate_byte [of "8 * k" x] Suc.prems(6) by simp
  have top: "\<not> (E = 8 \<and> E - Suc k = 0 \<and> ?b AND 0x80 \<noteq> 0)"
    using Suc.prems(4,7) by (auto simp: le_antisym)
  have read: "extendedLengthBytesRead r + 1 = E - k"
    using Suc.prems(4,5) by simp
  have more: "k \<noteq> 0 \<Longrightarrow> E - k \<noteq> E"
    using Suc.prems(4) by simp
  have step: "readerStep h r s [?b] = map_sum id (\<lambda>(r', s'). (r', s', 1))
      (if k = 0 then lengthKnown h (r\<lparr>extendedLengthAccumulator := x, extendedLengthBytesRead := E,
        r_frame := (r_frame r)\<lparr>payloadLength := x\<rparr>\<rparr>) s else Inr (?r, s))"
  proof -
    have "readExtended h r s ?b = (if k = 0 then lengthKnown h (r\<lparr>extendedLengthAccumulator := x,
        extendedLengthBytesRead := E, r_frame := (r_frame r)\<lparr>payloadLength := x\<rparr>\<rparr>) s else Inr (?r, s))"
      unfolding readExtended_def Let_def acc Suc.prems(2,5) require_def
      using top read Suc.prems(2,4,5) more by (cases "k = 0") (simp_all add: lengthKnown_def)
    then show ?thesis
      using Suc.prems(1) by (simp add: readerStep_def)
  qed
  show ?case
  proof (cases "k = 0")
    case True
    then show ?thesis
      using step Suc.prems(1)
      by (cases "lengthKnown h (r\<lparr>extendedLengthAccumulator := x, extendedLengthBytesRead := E,
        r_frame := (r_frame r)\<lparr>payloadLength := x\<rparr>\<rparr>) s") (auto simp: loop_header)
  next
    case False
    have "readerLoop h ?r s (n + 1) (bigEndian k x @ rest) =
      attempt (lengthKnown h (?r\<lparr>extendedLengthAccumulator := x, extendedLengthBytesRead := E,
          r_frame := (r_frame ?r)\<lparr>payloadLength := x\<rparr>\<rparr>) s)
        (\<lambda>(r', s'). readerLoop h r' s' (n + 1 + k) rest)"
      using Suc.IH [of ?r "n + 1"] Suc.prems False by simp
    then show ?thesis
      using step Suc.prems(1) False by (simp add: loop_header)
  qed
qed simp

lemma length_4_conv: "length k = 4 \<Longrightarrow> \<exists>a b c d. k = [a, b, c, d]"
  by (cases k; cases "tl k"; cases "tl (tl k)"; cases "tl (tl (tl k))") auto

lemma loop_mask:
  assumes "r_state r = MaskKey" and "maskBytesRead r = 0" and "length (maskKey (r_frame r)) = 4" and "length k = 4"
  shows "readerLoop h r s n (k @ rest) =
    attempt (onHeaderReady h (r\<lparr>r_frame := (r_frame r)\<lparr>maskKey := k\<rparr>, maskBytesRead := 4\<rparr>) s)
      (\<lambda>(r', s'). readerLoop h r' s' (n + 4) rest)"
proof -
  obtain a b c d where k: "k = [a, b, c, d]"
    using length_4_conv [OF assms(4)] by blast
  obtain a0 b0 c0 d0 where k0: "maskKey (r_frame r) = [a0, b0, c0, d0]"
    using length_4_conv [OF assms(3)] by blast
  let ?R = "r\<lparr>r_frame := (r_frame r)\<lparr>maskKey := [a, b, c, d]\<rparr>, maskBytesRead := 4\<rparr>"
  have step: "readerStep h r' s [x] = map_sum id (\<lambda>(r', s'). (r', s', 1)) (readMask h r' s x)"
    if "r_state r' = MaskKey" for r' x
    using that by (simp add: readerStep_def Let_def)
  show ?thesis
    using assms(1,2) k0
    by (cases "onHeaderReady h ?R s") (auto simp: k loop_header step readMask_def Let_def numeral_eq_Suc)
qed

text \<open>A frame that can stand on the wire as it is: what a masked or unmasked header can carry.\<close>

definition wireFrame :: "frame \<Rightarrow> bool" where
  "wireFrame f \<longleftrightarrow> isSupportedOpcode (opcode f) \<and> payloadLength f < 0x8000000000000000 \<and> length (maskKey f) = 4 \<and>
     (\<not> masked f \<longrightarrow> maskKey f = [0, 0, 0, 0])"

definition headerRead :: "reader \<Rightarrow> frame \<Rightarrow> reader \<Rightarrow> bool" where
  "headerRead r f R \<longleftrightarrow> r_frame R = f \<and> r_role R = r_role r \<and> r_fragmented R = r_fragmented r \<and>
     headerByte0 R = hd (headerBytes f)"

lemma ucast_byte_u64:
  assumes "x < (0x80 :: u64)"
  shows "ucast (ucast x :: byte) = x" "(ucast x :: byte) < 0x80" "(ucast x :: byte) < 126 \<longleftrightarrow> x < 126"
proof -
  have x: "unat x < 128"
    using assms by (simp add: word_less_nat_alt)
  then have u: "unat (ucast x :: byte) = unat x"
    by (simp add: unsigned_ucast_eq unsigned_take_bit_eq take_bit_nat_eq_self_iff)
  show "ucast (ucast x :: byte) = x"
    using x by (simp add: word_unat_eq_iff unsigned_ucast_eq unsigned_take_bit_eq take_bit_nat_eq_self_iff)
  show "(ucast x :: byte) < 0x80" "(ucast x :: byte) < 126 \<longleftrightarrow> x < 126"
    using x by (simp_all add: word_less_nat_alt u)
qed

lemma readByte1_fields:
  assumes "headerByte0 r AND 0x70 = 0" and "headerByte0 r AND 0x0F = op" and "(headerByte0 r AND 0x80 \<noteq> 0) = fi"
    and "isSupportedOpcode op" and "c AND 0x7F = x" and "(c AND 0x80 \<noteq> 0) = m"
  shows "readByte1 h r s c =
    (let F = empty_frame\<lparr>fin := fi, opcode := op, masked := m\<rparr>;
         r2 = r\<lparr>r_frame := F, extendedLengthAccumulator := 0, extendedLengthBytesRead := 0, maskBytesRead := 0\<rparr> in
     if x < 126 then lengthKnown h (r2\<lparr>r_frame := F\<lparr>payloadLength := ucast x\<rparr>\<rparr>) s
     else Inr (r2\<lparr>extendedLengthBytesExpected := (if x = 126 then 2 else 8), r_state := ExtendedLength\<rparr>, s))"
  unfolding readByte1_def Let_def assms(2,3,5,6) using assms(1,4) by (simp add: require_def lengthKnown_def)

lemma top_bit_clear:
  assumes "x < (0x8000000000000000 :: u64)"
  shows "ucast (drop_bit 56 x AND 0xFF) AND (0x80 :: byte) = 0"
proof (rule bit_word_eqI)
  fix n
  have "take_bit 63 x = x"
    using assms by (intro take_bit_word_self) (simp add: word_less_nat_alt)
  then have "\<not> bit x 63"
    by (metis bit_take_bit_iff less_irrefl)
  then show "bit (ucast (drop_bit 56 x AND 0xFF) AND (0x80 :: byte)) n = bit (0 :: byte) n"
    unfolding bit_and_iff bit_0x80 by (auto simp: bit_simps)
qed

text \<open>The reader after the two fixed bytes, and its loop over them.\<close>

definition fixedRead :: "reader \<Rightarrow> frame \<Rightarrow> reader" where
  "fixedRead r f = r\<lparr>headerByte0 := hd (headerBytes f), r_state := HeaderByte1,
     r_frame := empty_frame\<lparr>fin := fin f, opcode := opcode f, masked := masked f\<rparr>,
     extendedLengthAccumulator := 0, extendedLengthBytesRead := 0, maskBytesRead := 0\<rparr>"

lemma loop_fixed:
  assumes "isSupportedOpcode (opcode f)" and "r_state r = HeaderByte0" and "c AND 0x7F = x" and "(c AND 0x80 \<noteq> 0) = masked f"
  shows "readerLoop h r s n (hd (headerBytes f) # c # bs) =
     (if x < 126 then attempt (lengthKnown h ((fixedRead r f)\<lparr>r_frame := (r_frame (fixedRead r f))\<lparr>payloadLength := ucast x\<rparr>\<rparr>) s)
         (\<lambda>(r', s'). readerLoop h r' s' (n + 2) bs)
      else readerLoop h ((fixedRead r f)\<lparr>extendedLengthBytesExpected := (if x = 126 then 2 else 8),
         r_state := ExtendedLength\<rparr>) s (n + 2) bs)"
proof -
  let ?b0 = "(if fin f then 0x80 else 0) OR opcode f :: byte"
  let ?r1 = "r\<lparr>headerByte0 := ?b0, r_state := HeaderByte1\<rparr>"
  have "readByte1 h ?r1 s c = (if x < 126
      then lengthKnown h ((fixedRead r f)\<lparr>r_frame := (r_frame (fixedRead r f))\<lparr>payloadLength := ucast x\<rparr>\<rparr>) s
      else Inr ((fixedRead r f)\<lparr>extendedLengthBytesExpected := (if x = 126 then 2 else 8), r_state := ExtendedLength\<rparr>, s))"
    using readByte1_fields [of ?r1 "opcode f" "fin f" c x "masked f" h s] opcode_bits [OF assms(1), of "fin f"] assms(1,3,4)
    by (simp add: fixedRead_def Let_def headerBytes_def)
  then have step: "readerStep h ?r1 s [c] = map_sum id (\<lambda>(r', s'). (r', s', 1)) (if x < 126
      then lengthKnown h ((fixedRead r f)\<lparr>r_frame := (r_frame (fixedRead r f))\<lparr>payloadLength := ucast x\<rparr>\<rparr>) s
      else Inr ((fixedRead r f)\<lparr>extendedLengthBytesExpected := (if x = 126 then 2 else 8), r_state := ExtendedLength\<rparr>, s))"
    by (simp add: readerStep_def)
  have "readerLoop h r s n (hd (headerBytes f) # c # bs) = readerLoop h ?r1 s (n + 1) (c # bs)"
    using assms(2) by (simp add: loop_header [of r] readerStep_def headerBytes_def)
  also have "\<dots> = attempt (readerStep h ?r1 s [c]) (\<lambda>(r', s', k). readerLoop h r' s' (n + 1 + 1) bs)"
    by (rule loop_header) simp
  finally show ?thesis
    unfolding step
    by (cases "x < 126"; cases "lengthKnown h ((fixedRead r f)\<lparr>r_frame := (r_frame (fixedRead r f))\<lparr>payloadLength := ucast x\<rparr>\<rparr>) s") auto
qed

lemma loop_lengthBytes:
  assumes "wireFrame f" and "r_state r = HeaderByte0"
  shows "\<exists>R. readerLoop h r s n (hd (headerBytes f) # lengthBytes f @ rest) =
      attempt (lengthKnown h R s) (\<lambda>(r', s'). readerLoop h r' s' (n + 1 + length (lengthBytes f)) rest) \<and>
    headerRead r f (R\<lparr>r_frame := (r_frame R)\<lparr>maskKey := maskKey f\<rparr>\<rparr>) \<and> maskKey (r_frame R) = [0, 0, 0, 0] \<and>
    maskBytesRead R = 0"
proof -
  have op: "isSupportedOpcode (opcode f)" and big: "payloadLength f < 0x8000000000000000"
    using assms(1) by (simp_all add: wireFrame_def)
  let ?m = "(if masked f then 0x80 else 0) :: byte"
  have field: "(?m OR x) AND 0x7F = x" "((?m OR x) AND 0x80 \<noteq> 0) = masked f" if "x < 0x80" for x
    using field_bits [OF that] by simp_all
  have fixed: "headerRead r f (R\<lparr>r_frame := (r_frame R)\<lparr>maskKey := maskKey f\<rparr>\<rparr>) \<and> maskKey (r_frame R) = [0, 0, 0, 0] \<and>
      maskBytesRead R = 0" if "r_frame R = (r_frame (fixedRead r f))\<lparr>payloadLength := payloadLength f\<rparr>"
      "r_role R = r_role r" "r_fragmented R = r_fragmented r" "headerByte0 R = hd (headerBytes f)" "maskBytesRead R = 0" for R
    using that by (cases f) (simp add: headerRead_def fixedRead_def empty_frame_def)
  consider (small) "payloadLength f < 126" | (medium) "\<not> payloadLength f < 126" "payloadLength f \<le> 0xFFFF"
    | (large) "\<not> payloadLength f < 126" "\<not> payloadLength f \<le> 0xFFFF"
    by blast
  then show ?thesis
  proof cases
    case small
    then have lt: "payloadLength f < 0x80"
      by (rule less_trans) simp
    note u = ucast_byte_u64 [OF lt]
    let ?R = "(fixedRead r f)\<lparr>r_frame := (r_frame (fixedRead r f))\<lparr>payloadLength := payloadLength f\<rparr>\<rparr>"
    have "readerLoop h r s n (hd (headerBytes f) # lengthBytes f @ rest) =
        attempt (lengthKnown h ?R s) (\<lambda>(r', s'). readerLoop h r' s' (n + 1 + length (lengthBytes f)) rest)"
      using loop_fixed [OF op assms(2) field [OF u(2)], of h s n rest] small u by (simp add: lengthBytes_bigEndian)
    then show ?thesis
      using fixed [of ?R] by (auto simp: fixedRead_def intro!: exI [of _ ?R])
  next
    case medium
    let ?E = "(fixedRead r f)\<lparr>extendedLengthBytesExpected := 2, r_state := ExtendedLength\<rparr>"
    let ?R = "?E\<lparr>extendedLengthAccumulator := payloadLength f, extendedLengthBytesRead := 2,
      r_frame := (r_frame ?E)\<lparr>payloadLength := payloadLength f\<rparr>\<rparr>"
    have "unat (payloadLength f) < 2 ^ 16"
      using medium by (simp add: word_le_nat_alt)
    then have "drop_bit 16 (payloadLength f) = 0"
      by (simp add: word_unat_eq_iff unsigned_drop_bit_eq drop_bit_nat_def take_bit_nat_def)
    then have "readerLoop h ?E s (n + 2) (bigEndian 2 (payloadLength f) @ rest) =
        attempt (lengthKnown h ?R s) (\<lambda>(r', s'). readerLoop h r' s' (n + 2 + 2) rest)"
      by (intro loop_extended) (simp_all add: fixedRead_def)
    then have "readerLoop h r s n (hd (headerBytes f) # lengthBytes f @ rest) =
        attempt (lengthKnown h ?R s) (\<lambda>(r', s'). readerLoop h r' s' (n + 2 + 2) rest)"
      using loop_fixed [OF op assms(2) field [of 126], of h s n "bigEndian 2 (payloadLength f) @ rest"] medium
      by (simp add: lengthBytes_bigEndian del: bigEndian_simps)
    moreover have "n + 2 + 2 = n + 1 + length (lengthBytes f)"
      using medium by (simp add: lengthBytes_bigEndian bigEndian_def)
    ultimately have "readerLoop h r s n (hd (headerBytes f) # lengthBytes f @ rest) =
        attempt (lengthKnown h ?R s) (\<lambda>(r', s'). readerLoop h r' s' (n + 1 + length (lengthBytes f)) rest)"
      by (simp only:)
    then show ?thesis
      using fixed [of ?R] by (auto simp: fixedRead_def intro!: exI [of _ ?R])
  next
    case large
    let ?E = "(fixedRead r f)\<lparr>extendedLengthBytesExpected := 8, r_state := ExtendedLength\<rparr>"
    let ?R = "?E\<lparr>extendedLengthAccumulator := payloadLength f, extendedLengthBytesRead := 8,
      r_frame := (r_frame ?E)\<lparr>payloadLength := payloadLength f\<rparr>\<rparr>"
    have "readerLoop h ?E s (n + 2) (bigEndian 8 (payloadLength f) @ rest) =
        attempt (lengthKnown h ?R s) (\<lambda>(r', s'). readerLoop h r' s' (n + 2 + 8) rest)"
      by (intro loop_extended) (use top_bit_clear [OF big] in \<open>simp_all add: fixedRead_def\<close>)
    then have "readerLoop h r s n (hd (headerBytes f) # lengthBytes f @ rest) =
        attempt (lengthKnown h ?R s) (\<lambda>(r', s'). readerLoop h r' s' (n + 2 + 8) rest)"
      using loop_fixed [OF op assms(2) field [of 127], of h s n "bigEndian 8 (payloadLength f) @ rest"] large
      by (simp add: lengthBytes_bigEndian del: bigEndian_simps)
    moreover have "n + 2 + 8 = n + 1 + length (lengthBytes f)"
      using large by (simp add: lengthBytes_bigEndian bigEndian_def)
    ultimately have "readerLoop h r s n (hd (headerBytes f) # lengthBytes f @ rest) =
        attempt (lengthKnown h ?R s) (\<lambda>(r', s'). readerLoop h r' s' (n + 1 + length (lengthBytes f)) rest)"
      by (simp only:)
    then show ?thesis
      using fixed [of ?R] by (auto simp: fixedRead_def intro!: exI [of _ ?R])
  qed
qed

lemma loop_headerBytes:
  assumes "wireFrame f" and "r_state r = HeaderByte0"
  shows "\<exists>R. readerLoop h r s n (headerBytes f @ rest) =
      attempt (onHeaderReady h R s) (\<lambda>(r', s'). readerLoop h r' s' (n + length (headerBytes f)) rest) \<and> headerRead r f R"
proof -
  let ?k = "if masked f then maskKey f else []"
  obtain R where R: "readerLoop h r s n (hd (headerBytes f) # lengthBytes f @ ?k @ rest) =
      attempt (lengthKnown h R s) (\<lambda>(r', s'). readerLoop h r' s' (n + 1 + length (lengthBytes f)) (?k @ rest))"
    "headerRead r f (R\<lparr>r_frame := (r_frame R)\<lparr>maskKey := maskKey f\<rparr>\<rparr>)" "maskKey (r_frame R) = [0, 0, 0, 0]" "maskBytesRead R = 0"
    using loop_lengthBytes [OF assms, of h s n "?k @ rest"] by blast
  have split: "headerBytes f @ rest = hd (headerBytes f) # lengthBytes f @ ?k @ rest"
    by (simp add: headerBytes_def)
  have "(r_frame R)\<lparr>maskKey := maskKey f\<rparr> = f"
    using R(2) by (simp add: headerRead_def)
  then have "masked ((r_frame R)\<lparr>maskKey := maskKey f\<rparr>) = masked f"
    by (simp only:)
  then have m: "masked (r_frame R) = masked f"
    by simp
  show ?thesis
  proof (cases "masked f")
    case True
    let ?R = "R\<lparr>r_state := MaskKey, r_frame := (r_frame R)\<lparr>maskKey := maskKey f\<rparr>, maskBytesRead := 4\<rparr>"
    have "headerRead r f ?R"
      using R(2) by (simp add: headerRead_def)
    moreover have "readerLoop h r s n (headerBytes f @ rest) =
        attempt (onHeaderReady h ?R s) (\<lambda>(r', s'). readerLoop h r' s' (n + length (headerBytes f)) rest)"
      using R(1,3,4) True m assms(1) loop_mask [of "R\<lparr>r_state := MaskKey\<rparr>" "maskKey f" h s "n + 1 + length (lengthBytes f)" rest]
      unfolding split by (simp add: lengthKnown_def wireFrame_def headerBytes_def ac_simps)
    ultimately show ?thesis
      by blast
  next
    case False
    then have "R\<lparr>r_frame := (r_frame R)\<lparr>maskKey := maskKey f\<rparr>\<rparr> = R"
      using R(3) assms(1) by (simp add: wireFrame_def)
    then have "headerRead r f R"
      using R(2) by simp
    moreover have "readerLoop h r s n (headerBytes f @ rest) =
        attempt (onHeaderReady h R s) (\<lambda>(r', s'). readerLoop h r' s' (n + length (headerBytes f)) rest)"
      using R(1) False m unfolding split by (simp add: lengthKnown_def headerBytes_def)
    ultimately show ?thesis
      by blast
  qed
qed

text \<open>The frames an idle reader takes, and the idle reader after one.\<close>

definition acceptable :: "reader \<Rightarrow> frame \<Rightarrow> bool" where
  "acceptable r f \<longleftrightarrow> wireFrame f \<and> masked f = requiresIncomingMask (r_role r) \<and>
     (if isControlFrame f then fin f \<and> payloadLength f \<le> 125 else r_fragmented r = (opcode f = OpContinuation))"

definition afterFrame :: "reader \<Rightarrow> frame \<Rightarrow> reader" where
  "afterFrame r f = \<lparr>r_role = r_role r, r_frame = f, r_state = HeaderByte0,
     r_fragmented = (if isControlFrame f then r_fragmented r else \<not> fin f), headerByte0 = hd (headerBytes f),
     extendedLengthBytesExpected = 0, extendedLengthBytesRead = 0, maskBytesRead = 0, extendedLengthAccumulator = 0,
     r_remaining = 0, r_consumed = 0\<rparr>"

definition wirePayload :: "frame \<Rightarrow> byte list \<Rightarrow> byte list" where
  "wirePayload f payload = (if masked f then applyMask payload (maskKey f) 0 else payload)"

lemma finish_headerRead: "headerRead r f R \<Longrightarrow> finishCurrentFrame R = afterFrame r f"
  by (cases R) (simp add: finishCurrentFrame_def headerRead_def afterFrame_def Let_def)

lemma loop_written:
  assumes "acceptable r f" and "r_state r = HeaderByte0" and "unat (payloadLength f) = length payload"
  shows "readerLoop h r s n (headerBytes f @ wirePayload f payload @ rest) =
    attempt (onFrameHeader h s f)
      (\<lambda>s'. attempt (if payload = [] then Inr s' else onFramePayload h s' payload True)
        (\<lambda>s''. readerLoop h (afterFrame r f) s'' (n + length (headerBytes f) + length payload) rest))"
proof -
  obtain R where R: "readerLoop h r s n (headerBytes f @ wirePayload f payload @ rest) =
      attempt (onHeaderReady h R s)
        (\<lambda>(r', s'). readerLoop h r' s' (n + length (headerBytes f)) (wirePayload f payload @ rest))" "headerRead r f R"
    using loop_headerBytes [of f r h s n "wirePayload f payload @ rest"] assms(1,2) by (auto simp: acceptable_def)
  have "acceptsHeader R"
    using R(2) assms(1) by (simp add: acceptsHeader_def acceptable_def headerRead_def Let_def)
  then have ready: "onHeaderReady h R s = attempt (onFrameHeader h s f) (\<lambda>s'. Inr (afterHeader R, s'))"
    using onHeaderReady_accepts [of R h s] R(2) by (simp add: headerRead_def)
  show ?thesis
  proof (cases "payload = []")
    case True
    then have "payloadLength f = 0"
      using assms(3) by (simp add: unsigned_eq_0_iff)
    then have "afterHeader R = afterFrame r f"
      using R(2) finish_headerRead [of r f "R\<lparr>r_remaining := payloadLength f, r_consumed := 0\<rparr>"]
      by (simp add: afterHeader_def headerRead_def)
    then show ?thesis
      unfolding R(1) ready using True
      by (cases "onFrameHeader h s f") (simp_all add: wirePayload_def)
  next
    case False
    let ?R = "R\<lparr>r_remaining := payloadLength f, r_consumed := 0, r_state := Payload\<rparr>"
    have nz: "payloadLength f \<noteq> 0"
      using False assms(3) by auto
    have ah: "afterHeader R = ?R"
      using R(2) nz by (simp add: afterHeader_def headerRead_def)
    have len: "length payload < 2 ^ 64" "of_nat (length payload) = payloadLength f"
      using assms(3) unsigned_less [of "payloadLength f", where 'a = nat] by (auto simp: word_unat_eq_iff simp flip: assms(3))
    have adv: "advance ?R (length payload) = afterFrame r f"
      using len(2) finish_headerRead [of r f "?R\<lparr>r_remaining := payloadLength f - of_nat (length payload), r_consumed := of_nat (length payload)\<rparr>"] R(2)
      by (simp add: advance_def headerRead_def)
    have un: "unmasked ?R (wirePayload f payload) = payload"
      using R(2) by (auto simp: unmasked_def wirePayload_def headerRead_def applyMask_involution)
    have pl: "length (wirePayload f payload) = length payload"
      by (simp add: wirePayload_def)
    have "readPayload h ?R s' (wirePayload f payload @ rest) =
        attempt (onFramePayload h s' payload True) (\<lambda>s''. Inr (afterFrame r f, s'', length payload))" for s'
      using readPayload_value [of "length payload" "wirePayload f payload @ rest" ?R h s'] False assms(3) pl un adv len
      by (simp add: unsigned_eq_0_iff)
    then have "readerLoop h ?R s' m (wirePayload f payload @ rest) =
        attempt (onFramePayload h s' payload True)
          (\<lambda>s''. readerLoop h (afterFrame r f) s'' (m + length payload) rest)" for s' m
      using False pl by (cases "onFramePayload h s' payload True")
        (auto simp: readerLoop.simps [of h ?R s' m] readerStep_def wirePayload_def)
    then show ?thesis
      unfolding R(1) ready ah using False
      by (cases "onFrameHeader h s f") simp_all
  qed
qed

end
