(* ===== verification/HttpWebSocketEndpointProps.thy ===== *)
theory HttpWebSocketEndpointProps
  imports HttpWebSocketEndpoint HttpWebSocketFramesProps
begin

text \<open>
  Composition of the WebSocket layers: what one side sends with the endpoint and its writer is
  what the other side's reader, endpoint and assembler deliver, however the stream is cut; the
  answers to control frames; the invariant of the endpoint.
\<close>

section \<open>The assembler takes payload in pieces\<close>

lemma overwrite_append:
  "n + length a + length b \<le> length xs \<Longrightarrow> overwrite (overwrite xs n a) (n + length a) b = overwrite xs n (a @ b)"
  by (simp add: overwrite_def ac_simps)

lemma length_overwrite [simp]: "n + length ys \<le> length xs \<Longrightarrow> length (overwrite xs n ys) = length xs"
  by (simp add: overwrite_def)

lemma take_overwrite: "n + length ys \<le> length xs \<Longrightarrow> take (n + length ys) (overwrite xs n ys) = take n xs @ ys"
  by (simp add: overwrite_def)

lemma assembler_pieces:
  assumes "a \<noteq> []" and "b \<noteq> []"
  shows "assembler_onFramePayload cb s (a @ b) f =
    attempt (assembler_onFramePayload cb s a False) (\<lambda>s'. assembler_onFramePayload cb s' b f)"
proof (cases "\<not> ignoringFrame s \<and> assemblingMessage s \<and> messageSize s + length a + length b \<le> length (messageStorage s)")
  case True
  then show ?thesis
    using assms by (simp add: assembler_onFramePayload_def Let_def overwrite_append add.assoc)
next
  case False
  then show ?thesis
    using assms by (auto simp: assembler_onFramePayload_def Let_def require_def)
qed

text \<open>The message so far fits the storage, which keeps its size.\<close>

definition assembler_ok :: "nat \<Rightarrow> 'u assembler \<Rightarrow> bool" where
  "assembler_ok N a \<longleftrightarrow> length (messageStorage a) = N \<and> messageSize a \<le> N"

lemma deliverMessage_ok: "deliverMessage cb a = Inr a' \<Longrightarrow> assembler_ok N a \<Longrightarrow> assembler_ok N a'"
  by (auto simp: deliverMessage_def attempt_Inr assembler_ok_def)

interpretation assembler: frame_sink "assembler_handler cb" "assembler_ok N" for cb N
proof unfold_locales
  fix s s' f
  assume "assembler_ok N s" "onFrameHeader (assembler_handler cb) s f = Inr s'"
  then show "assembler_ok N s'"
    by (auto simp: assembler_handler_def assembler_onFrameHeader_def Let_def require_Inr assembler_ok_def
        split: if_splits dest!: deliverMessage_ok [where N = N])
next
  fix s s' p fi
  assume "assembler_ok N s" "onFramePayload (assembler_handler cb) s p fi = Inr s'"
  then show "assembler_ok N s'"
    by (auto simp: assembler_handler_def assembler_onFramePayload_def Let_def require_Inr assembler_ok_def
        split: if_splits dest!: deliverMessage_ok [where N = N])
qed (simp add: assembler_handler_def assembler_pieces)

section \<open>The endpoint\<close>

lemma length_lengthBytes: "length (lengthBytes f) =
    1 + (if payloadLength f < 126 then 0 else if payloadLength f \<le> 0xFFFF then 2 else 8)"
  by (simp add: lengthBytes_def Let_def)

lemma length_headerBytes: "length (maskKey f) = 4 \<Longrightarrow> length (headerBytes f) = encodedLength f"
  by (simp add: headerBytes_def encodedLength_def length_lengthBytes)

lemma applyOutgoingMask_Inr:
  "applyOutgoingMask ro key f = Inr f' \<longleftrightarrow>
     (if ro = Client then \<exists>k. key = Some k \<and> f' = f\<lparr>masked := True, maskKey := take 4 k\<rparr>
      else f' = f\<lparr>masked := False, maskKey := [0, 0, 0, 0]\<rparr>)"
  by (auto simp: applyOutgoingMask_def requiresOutgoingMask_def Let_def split: option.splits)

text \<open>What encoding a whole frame writes, and the writer afterwards.\<close>

definition w_afterFrame :: "writer \<Rightarrow> frame \<Rightarrow> writer" where
  "w_afterFrame w f = w\<lparr>w_frame := empty_frame, frameInProgress := False,
     w_fragmented := (if isControlFrame f then w_fragmented w else \<not> fin f), w_remaining := 0, w_written := 0\<rparr>"

definition writable :: "writer \<Rightarrow> frame \<Rightarrow> bool" where
  "writable w f \<longleftrightarrow> \<not> frameInProgress w \<and> isSupportedOpcode (opcode f) \<and> masked f = requiresOutgoingMask (w_role w) \<and>
     (if isControlFrame f then fin f \<and> payloadLength f \<le> 125 else w_fragmented w = (opcode f = OpContinuation))"

lemma beginFrame_Inr:
  "beginFrame f storage w = (w', Inr h) \<longleftrightarrow> writable w f \<and> encodedLength f \<le> storage \<and> h = headerBytes f \<and>
     w' = w\<lparr>w_frame := f, frameInProgress := True, w_remaining := payloadLength f, w_written := 0\<rparr>"
  by (auto simp: beginFrame_def writable_def Let_def split: if_splits)

lemma encodeFrame_writable:
  assumes "writable w f" and "unat (payloadLength f) = length payload"
    and "encodedLength f + length payload \<le> storage" and "length (headerBytes f) = encodedLength f"
  shows "encodeFrame msg f payload storage w = (w_afterFrame w f, Inr (headerBytes f @ wirePayload f payload))"
proof -
  let ?w1 = "w\<lparr>w_frame := f, frameInProgress := True, w_remaining := payloadLength f, w_written := 0\<rparr>"
  have b: "beginFrame f storage w = (?w1, Inr (headerBytes f))"
    using assms(1,3) by (simp add: beginFrame_Inr)
  have len: "of_nat (length payload) = payloadLength f"
    by (simp flip: assms(2))
  show ?thesis
  proof (cases "payload = []")
    case True
    then have "payloadLength f = 0"
      using len by simp
    then show ?thesis
      unfolding encodeFrame_def b using True assms(3,4)
      by (cases w) (simp add: finishFrame_def w_afterFrame_def Let_def wirePayload_def)
  next
    case False
    then show ?thesis
      unfolding encodeFrame_def b using assms(2,3,4) len
      by (cases w) (simp add: writePayload_def finishFrame_def w_afterFrame_def Let_def wirePayload_def)
  qed
qed

lemma encodeFrame_Inr:
  assumes "encodeFrame msg f payload storage w = (w', Inr bytes)" and "unat (payloadLength f) = length payload"
    and "length (maskKey f) = 4"
  shows "writable w f \<and> w' = w_afterFrame w f \<and> bytes = headerBytes f @ wirePayload f payload"
proof -
  obtain w1 h where b: "beginFrame f storage w = (w1, Inr h)" and room: "length h + length payload \<le> storage"
    using assms(1) by (auto simp: encodeFrame_def split: prod.splits sum.splits if_splits)
  then have w: "writable w f" "encodedLength f + length payload \<le> storage"
    using length_headerBytes [OF assms(3)] by (auto simp: beginFrame_Inr)
  then show ?thesis
    using encodeFrame_writable [OF w(1) assms(2) w(2) length_headerBytes [OF assms(3)], of msg] assms(1) by simp
qed

section \<open>Streams of frames\<close>

text \<open>Writing frames one after the other, and what the callbacks of a reader see of them.\<close>

primrec encodeFrames :: "nat \<Rightarrow> (frame \<times> byte list) list \<Rightarrow> writer \<Rightarrow> string + writer \<times> byte list" where
  "encodeFrames storage [] w = Inr (w, [])"
| "encodeFrames storage (x # fs) w =
     (case encodeFrame ''HttpWebSocketEndpoint frame storage too small'' (fst x) (snd x) storage w of
        (w1, Inl m) \<Rightarrow> Inl m
      | (w1, Inr bytes) \<Rightarrow> attempt (encodeFrames storage fs w1) (\<lambda>(w2, bs). Inr (w2, bytes @ bs)))"

primrec deliverFrames :: "'s handler \<Rightarrow> 's \<Rightarrow> (frame \<times> byte list) list \<Rightarrow> string + 's" where
  "deliverFrames h s [] = Inr s"
| "deliverFrames h s (x # fs) = attempt (onFrameHeader h s (fst x))
     (\<lambda>s'. attempt (if snd x = [] then Inr s' else onFramePayload h s' (snd x) True) (\<lambda>s''. deliverFrames h s'' fs))"

text \<open>A header that describes its payload, with the mask bytes the wire can carry.\<close>

definition describes :: "frame \<Rightarrow> byte list \<Rightarrow> bool" where
  "describes f p \<longleftrightarrow> unat (payloadLength f) = length p \<and> payloadLength f < 0x8000000000000000 \<and> length (maskKey f) = 4 \<and>
     (\<not> masked f \<longrightarrow> maskKey f = [0, 0, 0, 0])"

text \<open>A reader between frames and the writer at the other end of the connection.\<close>

definition paired :: "reader \<Rightarrow> writer \<Rightarrow> bool" where
  "paired r w \<longleftrightarrow> r_state r = HeaderByte0 \<and> r_role r \<noteq> w_role w \<and> r_fragmented r = w_fragmented w"

lemma masks_agree: "r \<noteq> w \<Longrightarrow> requiresIncomingMask r = requiresOutgoingMask w"
  by (cases r; cases w) (simp_all add: requiresIncomingMask_def requiresOutgoingMask_def)

lemma paired_acceptable: "paired r w \<Longrightarrow> writable w f \<Longrightarrow> describes f p \<Longrightarrow> acceptable r f"
  using masks_agree [of "r_role r" "w_role w"]
  by (auto simp: paired_def writable_def describes_def acceptable_def wireFrame_def split: if_splits)

lemma paired_afterFrame: "paired r w \<Longrightarrow> paired (afterFrame r f) (w_afterFrame w f)"
  by (simp add: paired_def afterFrame_def w_afterFrame_def)

lemma loop_frames:
  assumes "encodeFrames storage fs w = Inr (w', bytes)" and "paired r w" and "\<forall>(f, p) \<in> set fs. describes f p"
  shows "readerLoop h r s n bytes =
      attempt (deliverFrames h s fs) (\<lambda>s'. Inr (foldl afterFrame r (map fst fs), s', n + length bytes)) \<and>
    paired (foldl afterFrame r (map fst fs)) w'"
  using assms
proof (induction fs arbitrary: r w s n bytes)
  case Nil
  then show ?case
    by (simp add: readerLoop_Nil)
next
  case (Cons x fs)
  obtain f p where x: "x = (f, p)" by (cases x)
  have d: "describes f p"
    using Cons.prems(3) x by simp
  have len: "unat (payloadLength f) = length p" "length (maskKey f) = 4"
    using d by (simp_all add: describes_def)
  obtain w1 b1 b2 where e: "encodeFrame ''HttpWebSocketEndpoint frame storage too small'' f p storage w = (w1, Inr b1)"
    and rest: "encodeFrames storage fs w1 = Inr (w', b2)" and bytes: "bytes = b1 @ b2"
    using Cons.prems(1) x by (auto simp: attempt_Inr split: prod.splits sum.splits)
  have w: "writable w f" "w1 = w_afterFrame w f" "b1 = headerBytes f @ wirePayload f p"
    using encodeFrame_Inr [OF e len] by simp_all
  have len1: "length b1 = length (headerBytes f) + length p"
    using w(3) by (simp add: wirePayload_def)
  note IH = Cons.IH [OF rest [unfolded w(2)] paired_afterFrame [OF Cons.prems(2), of f], unfolded case_prod_beta]
  have step: "readerLoop h r s n bytes = attempt (onFrameHeader h s f)
      (\<lambda>s'. attempt (if p = [] then Inr s' else onFramePayload h s' p True)
        (\<lambda>s''. readerLoop h (afterFrame r f) s'' (n + length b1) b2))"
    using loop_written [OF paired_acceptable [OF Cons.prems(2) w(1) d] _ len(1), of h s n b2] Cons.prems(2) len1
    unfolding bytes w(3) by (simp add: paired_def add.assoc)
  show ?case
    using IH Cons.prems(3) x unfolding step by (auto simp: case_prod_beta bytes attempt_assoc add.assoc cong: if_cong)
qed

lemma reader_parse_frames:
  assumes "encodeFrames storage fs w = Inr (w', bytes)" and "paired r w" and "\<forall>(f, p) \<in> set fs. describes f p"
  shows "reader_parse h r s bytes =
    attempt (deliverFrames h s fs) (\<lambda>s'. Inr (foldl afterFrame r (map fst fs), s', length bytes))"
    and "paired (foldl afterFrame r (map fst fs)) w'"
  using loop_frames [OF assms, of h s 0] unfolding reader_parse_def by simp_all

section \<open>Messages\<close>

text \<open>Sending a message in parts, each with its mask key, by the endpoint's \<open>sendData\<close>.\<close>

fun sendParts :: "nat \<Rightarrow> byte \<Rightarrow> (byte list \<times> byte list option) list \<Rightarrow> 'u endpoint \<Rightarrow> string + 'u endpoint \<times> byte list" where
  "sendParts storage op [] e = Inr (e, [])"
| "sendParts storage op ((p, k) # ps) e =
     (case sendData op p (ps = []) k storage e of
        (e1, Inl m) \<Rightarrow> Inl m
      | (e1, Inr bytes) \<Rightarrow> attempt (sendParts storage OpContinuation ps e1) (\<lambda>(e2, bs). Inr (e2, bytes @ bs)))"

definition partFrame :: "role \<Rightarrow> byte \<Rightarrow> bool \<Rightarrow> byte list \<Rightarrow> byte list option \<Rightarrow> frame" where
  "partFrame ro op fi p k = \<lparr>opcode = op, fin = fi, masked = (ro = Client), payloadLength = of_nat (length p),
     maskKey = (if ro = Client then take 4 (the k) else [0, 0, 0, 0])\<rparr>"

fun partFrames :: "role \<Rightarrow> byte \<Rightarrow> (byte list \<times> byte list option) list \<Rightarrow> (frame \<times> byte list) list" where
  "partFrames ro op [] = []"
| "partFrames ro op ((p, k) # ps) = (partFrame ro op (ps = []) p k, p) # partFrames ro OpContinuation ps"

text \<open>Sizes that \<open>size_t\<close> and the frame format can express, and keys of four bytes.\<close>

definition sizedPart :: "byte list \<times> byte list option \<Rightarrow> bool" where
  "sizedPart pk \<longleftrightarrow> length (fst pk) < 2 ^ 63 \<and> (case snd pk of None \<Rightarrow> True | Some k \<Rightarrow> length k = 4)"

lemma of_nat_u64: "n < 2 ^ 63 \<Longrightarrow> unat (of_nat n :: u64) = n \<and> (of_nat n :: u64) < 0x8000000000000000"
  by (simp add: unat_of_nat word_less_nat_alt)

lemma sendMasked_Inr:
  assumes "sendMasked op fi p k storage e = (e', Inr bytes)" and "sizedPart (p, k)"
  shows "\<exists>w. encodeFrame ''HttpWebSocketEndpoint frame storage too small'' (partFrame (endpointRole e) op fi p k) p storage
        (e_writer e) = (w, Inr bytes) \<and> e' = e\<lparr>e_writer := w\<rparr>"
    and "describes (partFrame (endpointRole e) op fi p k) p"
proof -
  obtain header where h: "applyOutgoingMask (endpointRole e) k
      (empty_frame\<lparr>opcode := op, fin := fi, payloadLength := of_nat (length p)\<rparr>) = Inr header"
    and send: "sendFrame header p storage e = (e', Inr bytes)"
    using assms(1) by (auto simp: sendMasked_def split: sum.splits)
  have hd: "header = partFrame (endpointRole e) op fi p k"
    using h by (auto simp: applyOutgoingMask_Inr partFrame_def empty_frame_def split: if_splits)
  show "\<exists>w. encodeFrame ''HttpWebSocketEndpoint frame storage too small'' (partFrame (endpointRole e) op fi p k) p storage
      (e_writer e) = (w, Inr bytes) \<and> e' = e\<lparr>e_writer := w\<rparr>"
    using send unfolding hd by (auto simp: sendFrame_def partFrame_def split: prod.splits if_splits)
  show "describes (partFrame (endpointRole e) op fi p k) p"
    using assms(2) h of_nat_u64 [of "length p"]
    by (auto simp: describes_def partFrame_def sizedPart_def applyOutgoingMask_Inr split: if_splits)
qed

lemma sendParts_Inr:
  assumes "sendParts storage op ps e = Inr (e', bytes)" and "\<forall>pk \<in> set ps. sizedPart pk"
  shows "encodeFrames storage (partFrames (endpointRole e) op ps) (e_writer e) = Inr (e_writer e', bytes) \<and>
    (\<forall>(f, p) \<in> set (partFrames (endpointRole e) op ps). describes f p) \<and> endpointRole e' = endpointRole e"
  using assms
proof (induction ps arbitrary: op e bytes)
  case (Cons pk ps)
  obtain p k where pk: "pk = (p, k)" by (cases pk)
  obtain e1 b1 b2 where s: "sendData op p (ps = []) k storage e = (e1, Inr b1)"
    and rest: "sendParts storage OpContinuation ps e1 = Inr (e', b2)" and bytes: "bytes = b1 @ b2"
    using Cons.prems(1) pk by (auto simp: attempt_Inr split: prod.splits sum.splits)
  have m: "sendMasked op (ps = []) p k storage e = (e1, Inr b1)"
    using s by (auto simp: sendData_def split: if_splits)
  have sized: "sizedPart (p, k)"
    using Cons.prems(2) pk by simp
  obtain w where w: "encodeFrame ''HttpWebSocketEndpoint frame storage too small''
      (partFrame (endpointRole e) op (ps = []) p k) p storage (e_writer e) = (w, Inr b1)" "e1 = e\<lparr>e_writer := w\<rparr>"
    using sendMasked_Inr(1) [OF m sized] by blast
  show ?case
    using Cons.IH [OF rest] Cons.prems(2) w sendMasked_Inr(2) [OF m sized] by (simp add: pk bytes)
qed simp

text \<open>The assembler has the bytes \<open>sofar\<close> of a message.\<close>

definition holds :: "'u assembler \<Rightarrow> byte \<Rightarrow> byte list \<Rightarrow> nat \<Rightarrow> 'u \<Rightarrow> bool" where
  "holds a op sofar N u \<longleftrightarrow> assemblingMessage a \<and> messageOpcode a = op \<and> length (messageStorage a) = N \<and>
     messageSize a = length sofar \<and> take (length sofar) (messageStorage a) = sofar \<and> a_user a = u"

definition idle :: "'u assembler \<Rightarrow> nat \<Rightarrow> bool" where
  "idle a N \<longleftrightarrow> \<not> assemblingMessage a \<and> length (messageStorage a) = N"

lemma idle_reset: "idle (assembler_reset storage u) (length storage)"
  by (simp add: idle_def assembler_reset_def)

text \<open>One data frame, after the checks of its header.\<close>

definition deliverPart :: "('u \<Rightarrow> byte \<Rightarrow> byte list \<Rightarrow> string + 'u) \<Rightarrow> 'u assembler \<Rightarrow> frame \<Rightarrow> byte list \<Rightarrow> string + 'u assembler" where
  "deliverPart cb a f p = attempt (onFrameHeader (assembler_handler cb) a f)
     (\<lambda>s'. if p = [] then Inr s' else onFramePayload (assembler_handler cb) s' p True)"

lemma deliverMessage_value: "deliverMessage cb a =
    attempt (cb (a_user a) (messageOpcode a) (take (messageSize a) (messageStorage a)))
      (\<lambda>u. Inr ((a\<lparr>assemblingMessage := False, messageSize := 0\<rparr>)\<lparr>a_user := u\<rparr>))"
  by (cases a) (simp add: deliverMessage_def)

lemma deliverPart_step:
  assumes hd: "if opcode f = OpContinuation then holds a op sofar N u else idle a N \<and> sofar = [] \<and> op = opcode f \<and> a_user a = u"
    and f: "\<not> isControlFrame f" "unat (payloadLength f) = length p" and room: "length sofar + length p \<le> N"
  shows "if fin f
    then \<exists>g. deliverPart cb a f p = attempt (cb u op (sofar @ p)) (\<lambda>u'. Inr (g\<lparr>a_user := u'\<rparr>)) \<and> idle g N
    else \<exists>a'. deliverPart cb a f p = Inr a' \<and> holds a' op (sofar @ p) N u"
proof -
  obtain a1 where a1: "holds a1 op sofar N u" "\<not> ignoringFrame a1" "a_frame a1 = f"
    and header: "onFrameHeader (assembler_handler cb) a f = (if payloadLength f = 0 \<and> fin f then deliverMessage cb a1 else Inr a1)"
  proof (cases "opcode f = OpContinuation")
    case True
    then show ?thesis
      using hd f that [of "a\<lparr>a_frame := f, ignoringFrame := False\<rparr>"]
      by (simp add: holds_def assembler_handler_def assembler_onFrameHeader_def Let_def)
  next
    case False
    then show ?thesis
      using hd f that [of "a\<lparr>a_frame := f, ignoringFrame := False, messageOpcode := opcode f, messageSize := 0, assemblingMessage := True\<rparr>"]
      by (auto simp: holds_def idle_def assembler_handler_def assembler_onFrameHeader_def Let_def)
  qed
  have zero: "payloadLength f = 0 \<longleftrightarrow> p = []"
    using f(2) by (metis length_0_conv unsigned_eq_0_iff)
  let ?a2 = "if p = [] then a1 else a1\<lparr>messageStorage := overwrite (messageStorage a1) (length sofar) p,
    messageSize := length sofar + length p\<rparr>"
  have a2: "holds ?a2 op (sofar @ p) N u"
    using a1(1) room take_overwrite [of "length sofar" p "messageStorage a1"] by (auto simp: holds_def)
  have part: "deliverPart cb a f p = (if fin f then deliverMessage cb ?a2 else Inr ?a2)"
    using a1 room zero unfolding deliverPart_def header
    by (cases "p = []") (auto simp: holds_def assembler_handler_def assembler_onFramePayload_def Let_def attempt_def split: sum.splits)
  show ?thesis
    using a2 unfolding part
    by (auto simp: deliverMessage_value holds_def idle_def intro!: exI [of _ "?a2\<lparr>assemblingMessage := False, messageSize := 0\<rparr>"])
qed

lemma deliver_parts:
  assumes "if op = OpContinuation then holds a mop sofar N u else idle a N \<and> sofar = [] \<and> mop = op \<and> a_user a = u"
    and "op \<in> {OpText, OpBinary, OpContinuation}" and "ps \<noteq> []" and "\<forall>pk \<in> set ps. sizedPart pk"
    and "length sofar + length (concat (map fst ps)) \<le> N"
  shows "\<exists>g. deliverFrames (assembler_handler cb) a (partFrames ro op ps) =
      attempt (cb u mop (sofar @ concat (map fst ps))) (\<lambda>u'. Inr (g\<lparr>a_user := u'\<rparr>)) \<and> idle g N"
  using assms
proof (induction ps arbitrary: op a sofar)
  case (Cons pk ps)
  obtain p k where pk: "pk = (p, k)" by (cases pk)
  let ?f = "partFrame ro op (ps = []) p k"
  have f: "\<not> isControlFrame ?f" "unat (payloadLength ?f) = length p" "opcode ?f = op" "fin ?f = (ps = [])"
    using Cons.prems(2,4) of_nat_u64 [of "length p"] pk
    by (auto simp: partFrame_def isControlFrame_def opcode_defs sizedPart_def word_le_nat_alt)
  have one: "deliverFrames (assembler_handler cb) a (partFrames ro op (pk # ps)) =
      attempt (deliverPart cb a ?f p) (\<lambda>s. deliverFrames (assembler_handler cb) s (partFrames ro OpContinuation ps))"
    by (simp add: pk deliverPart_def attempt_assoc cong: if_cong)
  note step = deliverPart_step [of ?f a mop sofar N u p cb, unfolded f(3,4), OF Cons.prems(1) f(1,2)]
  show ?case
  proof (cases "ps = []")
    case True
    then show ?thesis
      using step Cons.prems(5) pk unfolding one by (auto simp: attempt_assoc)
  next
    case False
    then obtain a' where a': "deliverPart cb a ?f p = Inr a'" "holds a' mop (sofar @ p) N u"
      using step Cons.prems(5) pk by auto
    then show ?thesis
      using Cons.IH [of OpContinuation a' "sofar @ p"] Cons.prems(4,5) False pk unfolding one by simp
  qed
qed simp

section \<open>The invariant of the endpoint\<close>

text \<open>
  The buffers keep their sizes, the pending answer fits its storage, the roles agree, and a close
  that was received has been answered, unless a call of \<open>receive\<close> has failed.
\<close>

definition endpoint_inv :: "bool \<Rightarrow> role \<Rightarrow> 'u endpoint \<Rightarrow> bool" where
  "endpoint_inv failed ro e \<longleftrightarrow> endpointRole e = ro \<and> w_role (e_writer e) = ro \<and> length (controlPayload e) = 125 \<and>
     controlPayloadSize e \<le> 125 \<and> length (pendingControlFrame e) \<le> 2 + 8 + 4 + 125 \<and>
     (\<not> failed \<longrightarrow> closeReceived e \<longrightarrow> closeSent e)"

abbreviation endpoint_ok :: "role \<Rightarrow> 'u endpoint \<Rightarrow> bool" where
  "endpoint_ok \<equiv> endpoint_inv False"

lemmas endpoint_ok_def = endpoint_inv_def [of False]

lemma encodeFrame_bounded: "encodeFrame msg f p storage w = (w', Inr bytes) \<Longrightarrow> length bytes \<le> storage"
  by (auto simp: encodeFrame_def writePayload_def split: prod.splits sum.splits if_splits)

lemma beginFrame_role: "w_role (fst (beginFrame f storage w)) = w_role w"
  by (auto simp: beginFrame_def Let_def)

lemma writePayload_role: "w_role (fst (writePayload p w)) = w_role w"
  by (auto simp: writePayload_def)

lemma finishFrame_role: "w_role (fst (finishFrame w)) = w_role w"
  by (auto simp: finishFrame_def Let_def)

lemma encodeFrame_role: "encodeFrame msg f p storage w = (w', res) \<Longrightarrow> w_role w' = w_role w"
  using beginFrame_role [of f storage w] writePayload_role [of p] finishFrame_role
  by (auto simp: encodeFrame_def split: prod.splits sum.splits if_splits) (metis fst_conv)+

lemma queue_fields:
  assumes "queueAutomaticControl op p e = Inr e'"
  shows "\<exists>bytes. e' = e\<lparr>pendingControlFrame := bytes\<rparr> \<and> length bytes \<le> 2 + 8 + 4 + 125"
proof -
  obtain f bytes where "snd (encodeFrame ''HttpWebSocketEndpoint automatic control storage too small'' f p
      (2 + 8 + 4 + 125) (writer_reset (endpointRole e))) = Inr bytes" "e' = e\<lparr>pendingControlFrame := bytes\<rparr>"
    using assms unfolding queueAutomaticControl_def require_Inr attempt_Inr by blast
  then show ?thesis
    using encodeFrame_bounded by (metis prod.collapse)
qed

lemma queue_ok: "queueAutomaticControl op p e = Inr e' \<Longrightarrow> endpoint_inv failed ro e \<Longrightarrow> endpoint_inv failed ro e'"
  using queue_fields [of op p e e'] by (auto simp: endpoint_inv_def)

lemma endpoint_ok_user [simp]:
  "endpoint_inv failed ro (e\<lparr>e_user := u\<rparr>) = endpoint_inv failed ro e" "endpoint_inv failed ro (e\<lparr>e_frame := f\<rparr>) = endpoint_inv failed ro e"
  by (simp_all add: endpoint_inv_def)

lemma handleControlFrame_ok:
  assumes "handleControlFrame cb p e = Inr e'" and "endpoint_inv failed ro e"
  shows "endpoint_inv failed ro e'"
proof (cases "opcode (e_frame e) = OpClose")
  case True
  then have close: "opcode (e_frame e) \<noteq> OpPing" "opcode (e_frame e) \<noteq> OpPong"
    by (auto simp: opcode_defs)
  obtain u code reason where u: "cbClose cb (e_user e) code reason = Inr u"
    and r: "(if \<not> closeSent e then
        attempt (queueAutomaticControl OpClose p (e\<lparr>closeReceived := True, e_user := u\<rparr>)) (\<lambda>e2. Inr (e2\<lparr>closeSent := True\<rparr>))
      else Inr (e\<lparr>closeReceived := True, e_user := u\<rparr>)) = Inr e'"
    using assms(1) True close
    by (auto simp: handleControlFrame_def require_Inr attempt_Inr Let_def simp del: attempt_simps split: if_splits)
  show ?thesis
  proof (cases "closeSent e")
    case True
    then show ?thesis
      using r assms(2) by (auto simp: endpoint_inv_def)
  next
    case False
    then obtain e2 where e2: "queueAutomaticControl OpClose p (e\<lparr>closeReceived := True, e_user := u\<rparr>) = Inr e2"
      "e' = e2\<lparr>closeSent := True\<rparr>"
      using r by (auto simp: attempt_Inr)
    show ?thesis
      using e2 assms(2) queue_fields [OF e2(1)] by (auto simp: endpoint_inv_def)
  qed
next
  case False
  then show ?thesis
    using assms queue_ok [of _ _ _ e' failed ro]
    by (auto simp: handleControlFrame_def require_Inr attempt_Inr split: if_splits)
qed

lemma onReaderFrameHeader_ok:
  "onReaderFrameHeader cb e f = Inr e' \<Longrightarrow> endpoint_inv failed ro e \<Longrightarrow> endpoint_inv failed ro e'"
  by (auto simp: onReaderFrameHeader_def Let_def attempt_Inr endpoint_inv_def [of _ _ "_\<lparr>controlPayloadSize := _\<rparr>"]
      endpoint_inv_def [of _ _ e] split: if_splits dest!: handleControlFrame_ok [where failed = failed and ro = ro])

lemma onReaderPayload_ok:
  assumes "onReaderPayload cb e p fi = Inr e'" and "endpoint_inv failed ro e"
  shows "endpoint_inv failed ro e'"
proof (cases "isControlFrame (e_frame e)")
  case True
  let ?e1 = "if length p > 0 then e\<lparr>controlPayload := overwrite (controlPayload e) (controlPayloadSize e) p,
    controlPayloadSize := controlPayloadSize e + length p\<rparr> else e"
  have room: "controlPayloadSize e + length p \<le> 125"
    and e': "(if fi then handleControlFrame cb (take (controlPayloadSize ?e1) (controlPayload ?e1)) ?e1 else Inr ?e1) = Inr e'"
    using assms(1) True unfolding onReaderPayload_def Let_def require_Inr by (auto simp: require_Inr)
  have "endpoint_inv failed ro ?e1"
    using assms(2) room by (simp add: endpoint_inv_def)
  then show ?thesis
    using e' handleControlFrame_ok [of cb _ ?e1 e' failed ro] by (cases fi) (simp_all only: if_True if_False sum.inject)
next
  case False
  then show ?thesis
    using assms by (auto simp: onReaderPayload_def attempt_Inr)
qed

interpretation endpoint: handler_invariant "endpoint_handler cb" "endpoint_inv failed ro" for cb failed ro
  by unfold_locales (auto simp: endpoint_handler_def intro: onReaderFrameHeader_ok onReaderPayload_ok)

text \<open>The endpoint takes payload in pieces when its application does.\<close>

text \<open>What a failing call leaves.\<close>

lemma endpoint_inv_failed: "endpoint_inv failed ro e \<Longrightarrow> endpoint_inv True ro e"
  by (simp add: endpoint_inv_def)

lemma handleControlFrame_left_ok: "endpoint_inv failed ro e \<Longrightarrow> endpoint_inv True ro (handleControlFrame_left cb p e)"
  by (auto simp: handleControlFrame_left_def endpoint_inv_def Let_def split: sum.splits)

lemma onReaderFrameHeader_left_ok:
  assumes "endpoint_inv failed ro e"
  shows "endpoint_inv True ro (onReaderFrameHeader_left cb e f)"
proof -
  have "endpoint_inv True ro (if isControlFrame f then e\<lparr>e_frame := f, controlPayloadSize := 0\<rparr> else e\<lparr>e_frame := f\<rparr>)"
    using assms by (simp add: endpoint_inv_def)
  then show ?thesis
    by (auto simp: onReaderFrameHeader_left_def Let_def split: sum.splits if_splits intro!: handleControlFrame_left_ok [where failed = True])
qed

lemma onReaderPayload_left_ok:
  assumes "endpoint_inv failed ro e"
  shows "endpoint_inv True ro (onReaderPayload_left cb e p fi)"
proof (cases "isControlFrame (e_frame e) \<and> controlPayloadSize e + length p \<le> 125")
  case True
  then have "endpoint_inv True ro (if length p > 0 then e\<lparr>controlPayload := overwrite (controlPayload e) (controlPayloadSize e) p,
      controlPayloadSize := controlPayloadSize e + length p\<rparr> else e)"
    using assms by (simp add: endpoint_inv_def)
  from handleControlFrame_left_ok [OF this] True show ?thesis
    by (simp add: onReaderPayload_left_def Let_def)
next
  case False
  then show ?thesis
    using endpoint_inv_failed [OF assms] by (auto simp: onReaderPayload_left_def)
qed

interpretation failing: failing_handler "endpoint_handler cb" "endpoint_inv failed ro" "endpoint_left cb" "endpoint_inv True ro" for cb failed ro
  by unfold_locales
    (auto simp: endpoint_left_def intro: endpoint_inv_failed onReaderFrameHeader_left_ok onReaderPayload_left_ok)

locale data_sink =
  fixes cb :: "'u callbacks"
  assumes data_pieces: "a \<noteq> [] \<Longrightarrow> b \<noteq> [] \<Longrightarrow> cbDataFramePayload cb u op (a @ b) f =
    attempt (cbDataFramePayload cb u op a False) (\<lambda>u'. cbDataFramePayload cb u' op b f)"

lemma endpoint_pieces:
  assumes ne: "a \<noteq> []" "b \<noteq> []"
    and data: "cbDataFramePayload cb (e_user e) (opcode (e_frame e)) (a @ b) f =
      attempt (cbDataFramePayload cb (e_user e) (opcode (e_frame e)) a False)
        (\<lambda>u'. cbDataFramePayload cb u' (opcode (e_frame e)) b f)"
    and room: "length (controlPayload e) = 125"
  shows "onReaderPayload cb e (a @ b) f = attempt (onReaderPayload cb e a False) (\<lambda>e'. onReaderPayload cb e' b f)"
proof (cases "isControlFrame (e_frame e)")
  case True
  show ?thesis
  proof (cases "controlPayloadSize e + length a + length b \<le> 125")
    case fits: True
    then show ?thesis
      using True ne room overwrite_append [of "controlPayloadSize e" a b "controlPayload e"]
      by (simp add: onReaderPayload_def Let_def add.assoc)
  next
    case False
    then show ?thesis
      using True ne by (auto simp: onReaderPayload_def Let_def require_def)
  qed
next
  case False
  then show ?thesis
    using data by (cases "cbDataFramePayload cb (e_user e) (opcode (e_frame e)) a False")
      (auto simp: onReaderPayload_def attempt_def split: sum.splits)
qed

sublocale data_sink \<subseteq> endpoint: frame_sink "endpoint_handler cb" "endpoint_ok ro" for ro
  by unfold_locales (simp add: endpoint_handler_def endpoint_ok_def endpoint_pieces data_pieces)

section \<open>An endpoint that assembles messages\<close>

text \<open>
  The assembler installed as the consumer of an endpoint's data frames; control frames are answered
  by the endpoint alone.
\<close>

definition assembler_callbacks :: "('u \<Rightarrow> byte \<Rightarrow> byte list \<Rightarrow> string + 'u) \<Rightarrow> 'u assembler callbacks" where
  "assembler_callbacks onMessage = \<lparr>cbFrameHeader = assembler_onFrameHeader onMessage,
     cbDataFramePayload = (\<lambda>a op p fi. assembler_onFramePayload onMessage a p fi),
     cbPing = (\<lambda>a p. Inr a), cbPong = (\<lambda>a p. Inr a), cbClose = (\<lambda>a code reason. Inr a)\<rparr>"

interpretation messages: data_sink "assembler_callbacks onMessage" for onMessage
  by unfold_locales (simp add: assembler_callbacks_def assembler_pieces)

lemma deliver_forwards:
  assumes "\<forall>(f, p) \<in> set fs. \<not> isControlFrame f"
  shows "deliverFrames (endpoint_handler (assembler_callbacks cb)) e fs =
    attempt (deliverFrames (assembler_handler cb) (e_user e) fs)
      (\<lambda>u. Inr (e\<lparr>e_frame := (if fs = [] then e_frame e else fst (last fs)), e_user := u\<rparr>))"
  using assms
proof (induction fs arbitrary: e)
  case (Cons x fs)
  obtain f p where x: "x = (f, p)" by (cases x)
  have data: "\<not> isControlFrame f"
    using Cons.prems x by simp
  let ?one = "attempt (assembler_onFrameHeader cb (e_user e) f)
    (\<lambda>s'. if p = [] then Inr s' else assembler_onFramePayload cb s' p True)"
  have one: "attempt (onReaderFrameHeader (assembler_callbacks cb) e f)
        (\<lambda>s'. if p = [] then Inr s' else onReaderPayload (assembler_callbacks cb) s' p True) =
      attempt ?one (\<lambda>u. Inr (e\<lparr>e_frame := f, e_user := u\<rparr>))"
    using data by (cases "assembler_onFrameHeader cb (e_user e) f")
      (auto simp: onReaderFrameHeader_def onReaderPayload_def assembler_callbacks_def Let_def)
  have "deliverFrames (endpoint_handler (assembler_callbacks cb)) e (x # fs) =
      attempt (attempt ?one (\<lambda>u. Inr (e\<lparr>e_frame := f, e_user := u\<rparr>)))
        (\<lambda>e'. deliverFrames (endpoint_handler (assembler_callbacks cb)) e' fs)"
    unfolding one [symmetric] by (simp add: x endpoint_handler_def attempt_assoc cong: if_cong)
  also have "\<dots> = attempt ?one (\<lambda>u. attempt (deliverFrames (assembler_handler cb) u fs)
      (\<lambda>u'. Inr (e\<lparr>e_frame := (if fs = [] then f else fst (last fs)), e_user := u'\<rparr>)))"
    using Cons by (simp add: attempt_assoc)
  also have "\<dots> = attempt (deliverFrames (assembler_handler cb) (e_user e) (x # fs))
      (\<lambda>u. Inr (e\<lparr>e_frame := fst (last (x # fs)), e_user := u\<rparr>))"
    by (simp add: x assembler_handler_def attempt_assoc cong: if_cong)
  finally show ?case
    by simp
qed simp

section \<open>A connection\<close>

text \<open>The chunks of the stream as they arrive, one \<open>receive\<close> for each.\<close>

primrec receiveChunks :: "'u callbacks \<Rightarrow> byte list list \<Rightarrow> reader \<times> 'u endpoint \<Rightarrow> string + reader \<times> 'u endpoint" where
  "receiveChunks cb [] re = Inr re"
| "receiveChunks cb (c # cs) re = attempt (receive cb c re) (\<lambda>(re', n). receiveChunks cb cs re')"

lemma receiveChunks_parse: "receiveChunks cb cs re = parseChunks (endpoint_handler cb) (fst re) (snd re) cs"
proof (induction cs arbitrary: re)
  case (Cons c cs)
  then show ?case
    by (cases "reader_parse (endpoint_handler cb) (fst re) (snd re) c") (auto simp: receive_def)
qed simp

lemma partFrames_data: "op \<in> {OpText, OpBinary, OpContinuation} \<Longrightarrow> \<forall>(f, p) \<in> set (partFrames ro op ps). \<not> isControlFrame f"
  by (induction ro op ps rule: partFrames.induct)
    (auto simp: partFrame_def isControlFrame_def opcode_defs word_le_nat_alt)

lemma sendParts_op: "sendParts storage op ps e = Inr r \<Longrightarrow> ps \<noteq> [] \<Longrightarrow> op \<in> {OpText, OpBinary, OpContinuation}"
  by (cases ps) (auto simp: sendData_def split: if_splits)

text \<open>
  A whole message: sent in parts, received in chunks.
\<close>

lemma message_transfer:
  assumes sent: "sendParts storage op ps client = Inr (client', bytes)" and parts: "ps \<noteq> []" "\<forall>pk \<in> set ps. sizedPart pk"
    and start: "op \<noteq> OpContinuation" and pair: "paired r (e_writer client)"
    and ok: "endpoint_ok ro server" "idle (e_user server) N" and fits: "length (concat (map fst ps)) \<le> N"
    and chunks: "concat cs = bytes"
  shows "\<exists>r' e'. paired r' (e_writer client') \<and> endpoint_ok ro e' \<and> idle (e_user e') N \<and>
    receiveChunks (assembler_callbacks cb) cs (r, server) =
      attempt (cb (a_user (e_user server)) op (concat (map fst ps))) (\<lambda>u. Inr (r', e'\<lparr>e_user := (e_user e')\<lparr>a_user := u\<rparr>\<rparr>))"
proof -
  let ?h = "endpoint_handler (assembler_callbacks cb)"
  let ?fs = "partFrames (endpointRole client) op ps"
  have op: "op \<in> {OpText, OpBinary, OpContinuation}"
    using sendParts_op [OF sent parts(1)] .
  have enc: "encodeFrames storage ?fs (e_writer client) = Inr (e_writer client', bytes)" "\<forall>(f, p) \<in> set ?fs. describes f p"
    using sendParts_Inr [OF sent parts(2)] by simp_all
  obtain g where g: "deliverFrames (assembler_handler cb) (e_user server) ?fs =
      attempt (cb (a_user (e_user server)) op (concat (map fst ps))) (\<lambda>u'. Inr (g\<lparr>a_user := u'\<rparr>))" "idle g N"
    using deliver_parts [of op "e_user server" op "[]" N "a_user (e_user server)" ps cb "endpointRole client"]
      start op parts ok(2) fits by auto
  have idle: "reader_ok r"
    using pair by (simp add: paired_def reader_ok_def)
  note parse = reader_parse_frames [OF enc(1) pair enc(2)]
  let ?r' = "foldl afterFrame r (map fst ?fs)"
  let ?e' = "server\<lparr>e_frame := fst (last ?fs), e_user := g\<rparr>"
  have ne: "?fs \<noteq> []"
    using parts(1) by (cases ps) auto
  have "receiveChunks (assembler_callbacks cb) cs (r, server) =
      map_sum id (\<lambda>(r', s', n). (r', s')) (reader_parse ?h r server bytes)"
    using messages.endpoint.parseChunks_concat [OF idle ok(1), of cb cs] chunks by (simp add: receiveChunks_parse)
  also have "\<dots> = attempt (deliverFrames ?h server ?fs) (\<lambda>s'. Inr (?r', s'))"
    unfolding parse(1) by (cases "deliverFrames ?h server ?fs") simp_all
  also have "\<dots> = attempt (cb (a_user (e_user server)) op (concat (map fst ps)))
      (\<lambda>u. Inr (?r', ?e'\<lparr>e_user := (e_user ?e')\<lparr>a_user := u\<rparr>\<rparr>))"
    unfolding deliver_forwards [OF partFrames_data [OF op]] g(1) using ne by (simp add: attempt_assoc)
  finally show ?thesis
    using parse(2) ok(1) g(2) by (intro exI [of _ ?r'] exI [of _ ?e'] conjI) simp_all
qed

end
