(* ===== verification/HttpWebSocketTheorems.thy ===== *)
theory HttpWebSocketTheorems
  imports HttpWebSocketEndpointProps
begin

text \<open>
  The WebSocket properties: delivery of messages between two endpoints, independence of the
  endpoint's result from the chunks of the stream, the invariant of every reachable endpoint, the
  answers to control frames and the two states from which an endpoint does not recover.
\<close>

section \<open>Delivery\<close>

text \<open>Several messages, each an opcode and the parts it is sent in.\<close>

fun sendMessages :: "nat \<Rightarrow> (byte \<times> (byte list \<times> byte list option) list) list \<Rightarrow> 'u endpoint \<Rightarrow>
    string + 'u endpoint \<times> byte list" where
  "sendMessages storage [] e = Inr (e, [])"
| "sendMessages storage ((op, ps) # ms) e = attempt (sendParts storage op ps e)
     (\<lambda>(e1, b). attempt (sendMessages storage ms e1) (\<lambda>(e2, bs). Inr (e2, b @ bs)))"

definition messageOf :: "byte \<times> (byte list \<times> byte list option) list \<Rightarrow> byte \<times> byte list" where
  "messageOf m = (fst m, concat (map fst (snd m)))"

definition sendable :: "nat \<Rightarrow> byte \<times> (byte list \<times> byte list option) list \<Rightarrow> bool" where
  "sendable N m \<longleftrightarrow> fst m \<noteq> OpContinuation \<and> snd m \<noteq> [] \<and> (\<forall>pk \<in> set (snd m). sizedPart pk) \<and>
     length (snd (messageOf m)) \<le> N"

text \<open>An application that keeps the messages it is given.\<close>

definition keepMessage :: "(byte \<times> byte list) list \<Rightarrow> byte \<Rightarrow> byte list \<Rightarrow> string + (byte \<times> byte list) list" where
  "keepMessage log op m = Inr (log @ [(op, m)])"

lemma receiveChunks_rechunk:
  assumes "reader_ok r" and "endpoint_ok ro e"
  shows "receiveChunks (assembler_callbacks cb) cs (r, e) = receiveChunks (assembler_callbacks cb) [concat cs] (r, e)"
  using messages.endpoint.parseChunks_concat [OF assms, of cb cs]
    messages.endpoint.parseChunks_concat [OF assms, of cb "[concat cs]"]
  by (simp add: receiveChunks_parse)

lemma receiveChunks_append:
  "receiveChunks cb (a @ b) re = attempt (receiveChunks cb a re) (receiveChunks cb b)"
  by (induction a arbitrary: re) (simp_all add: attempt_assoc split_def)

lemma messages_transfer:
  assumes "sendMessages storage ms client = Inr (client', bytes)" and "\<forall>m \<in> set ms. sendable N m"
    and "paired r (e_writer client)" and "endpoint_ok ro server" and "idle (e_user server) N"
  shows "\<exists>r' e'. receiveChunks (assembler_callbacks keepMessage) [bytes] (r, server) = Inr (r', e') \<and>
    paired r' (e_writer client') \<and> a_user (e_user e') = a_user (e_user server) @ map messageOf ms"
  using assms
proof (induction ms arbitrary: client bytes r server)
  case Nil
  then show ?case
    by (simp add: receive_def)
next
  case (Cons m ms)
  obtain op ps where m: "m = (op, ps)" by (cases m)
  obtain c1 b1 b2 where s: "sendParts storage op ps client = Inr (c1, b1)"
    and rest: "sendMessages storage ms c1 = Inr (client', b2)" and bytes: "bytes = b1 @ b2"
    using Cons.prems(1) m by (auto simp: attempt_Inr)
  have snd: "ps \<noteq> []" "\<forall>pk \<in> set ps. sizedPart pk" "op \<noteq> OpContinuation" "length (concat (map fst ps)) \<le> N"
    using Cons.prems(2) m by (simp_all add: sendable_def messageOf_def)
  let ?cb = "assembler_callbacks keepMessage"
  obtain r1 e1 where one: "paired r1 (e_writer c1)" "endpoint_ok ro e1" "idle (e_user e1) N"
    and r1: "receiveChunks ?cb [b1] (r, server) =
      Inr (r1, e1\<lparr>e_user := (e_user e1)\<lparr>a_user := a_user (e_user server) @ [messageOf m]\<rparr>\<rparr>)"
    using message_transfer [OF s snd(1,2,3) Cons.prems(3,4,5) snd(4), of "[b1]" keepMessage]
    by (auto simp: keepMessage_def messageOf_def m)
  let ?e1 = "e1\<lparr>e_user := (e_user e1)\<lparr>a_user := a_user (e_user server) @ [messageOf m]\<rparr>\<rparr>"
  obtain r' e' where r': "receiveChunks ?cb [b2] (r1, ?e1) = Inr (r', e')" "paired r' (e_writer client')"
    "a_user (e_user e') = a_user (e_user ?e1) @ map messageOf ms"
    using Cons.IH [OF rest _ one(1), of ?e1] Cons.prems(2) one(2,3) by (auto simp: idle_def)
  have "reader_ok r"
    using Cons.prems(3) by (simp add: paired_def reader_ok_def)
  then have "receiveChunks ?cb [bytes] (r, server) = receiveChunks ?cb ([b1] @ [b2]) (r, server)"
    using receiveChunks_rechunk [OF _ Cons.prems(4), of r keepMessage "[b1, b2]"] bytes by simp
  then show ?case
    unfolding receiveChunks_append r1 using r' by simp
qed

lemma reset_ok [simp]:
  "length buf = 125 \<Longrightarrow> endpoint_ok ro (snd (endpoint_reset ro buf u))"
  "reader_ok (fst (endpoint_reset ro buf u))"
  by (simp_all add: endpoint_ok_def endpoint_reset_def writer_reset_def reader_ok_reset)

text \<open>
  C1: Messages sent by one endpoint, each in any number of parts with any mask keys, arrive at the
  other endpoint's assembler exactly, in order and with their opcodes, however the network cuts the
  byte stream into chunks.
\<close>

theorem message_delivery:
  assumes "sendMessages storage ms (snd (endpoint_reset ro clientBuffer u)) = Inr (client, bytes)"
    and "\<forall>m \<in> set ms. sendable N m" and "concat chunks = bytes" and "ro \<noteq> ro'"
    and "length buffer = 125" and "length messageBuffer = N"
  shows "\<exists>r e. receiveChunks (assembler_callbacks keepMessage) chunks
      (endpoint_reset ro' buffer (assembler_reset messageBuffer [])) = Inr (r, e) \<and>
    a_user (e_user e) = map messageOf ms"
proof -
  let ?r = "reader_reset ro'"
  obtain e0 :: "(byte \<times> byte list) list assembler endpoint" where pair: "endpoint_reset ro' buffer (assembler_reset messageBuffer []) = (?r, e0)"
    and e0: "endpoint_ok ro' e0" "a_user (e_user e0) = []" "idle (e_user e0) N"
    using assms(5,6)
    by (simp add: idle_def endpoint_reset_def endpoint_ok_def writer_reset_def assembler_reset_def)
  have "paired ?r (e_writer (snd (endpoint_reset ro clientBuffer u)))"
    using assms(4) by (auto simp: paired_def endpoint_reset_def reader_reset_def writer_reset_def)
  then obtain r e where r: "receiveChunks (assembler_callbacks keepMessage) [bytes] (?r, e0) = Inr (r, e)"
    "a_user (e_user e) = a_user (e_user e0) @ map messageOf ms"
    using messages_transfer [OF assms(1,2) _ e0(1,3), of ?r] by blast
  have "receiveChunks (assembler_callbacks keepMessage) chunks (?r, e0) =
      receiveChunks (assembler_callbacks keepMessage) [bytes] (?r, e0)"
    using receiveChunks_rechunk [OF reader_ok_reset e0(1), of keepMessage chunks] unfolding assms(3) .
  then show ?thesis
    unfolding pair using r e0(2) by (intro exI [of _ r] exI [of _ e]) simp
qed

lemmas ws_eval = endpoint_reset_def writer_reset_def sendData_def sendMasked_def applyOutgoingMask_def
  requiresOutgoingMask_def sendFrame_def encodeFrame_def beginFrame_def writePayload_def finishFrame_def
  empty_frame_def isSupportedOpcode_def isControlFrame_def encodedLength_def headerBytes_def lengthBytes_def
  opcode_defs Let_def

theorem message_delivery_witness:
  "\<exists>client bytes r e. sendMessages 64 [(OpText, [([72, 105], Some [1, 2, 3, 4]), ([33], Some [5, 6, 7, 8])])]
      (snd (endpoint_reset Client (replicate 125 0) ())) = Inr (client, bytes) \<and>
    receiveChunks (assembler_callbacks keepMessage) [take 3 bytes, drop 3 bytes]
      (endpoint_reset Server (replicate 125 0) (assembler_reset (replicate 8 0) [])) = Inr (r, e) \<and>
    a_user (e_user e) = [(OpText, [72, 105, 33])]"
proof -
  let ?ms = "[(OpText, [([72, 105], Some [1, 2, 3, 4]), ([33], Some [5, 6, 7, 8])])] ::
    (byte \<times> (byte list \<times> byte list option) list) list"
  obtain client bytes where sent: "sendMessages 64 ?ms (snd (endpoint_reset Client (replicate 125 0) ())) = Inr (client, bytes)"
    by (simp add: ws_eval word_le_nat_alt word_less_nat_alt)
  have "\<forall>m \<in> set ?ms. sendable 8 m"
    by (simp add: sendable_def messageOf_def sizedPart_def opcode_defs)
  then show ?thesis
    using sent message_delivery [OF sent, of 8 "[take 3 bytes, drop 3 bytes]" Server "replicate 125 0" "replicate 8 0"]
    by (auto simp: messageOf_def)
qed

text \<open>
  C21: Any sequence of frames that a writer encodes is read back by the reader of the other role:
  the callbacks see exactly those headers and payloads in that order, an error of a callback is the
  result of \<open>parse\<close>, all bytes are consumed, and both sides agree on whether a fragmented message
  is in progress, so that the next sequence can follow.
\<close>

theorem frames_roundtrip:
  assumes "encodeFrames storage fs w = Inr (w', bytes)" and "\<forall>(f, p) \<in> set fs. describes f p"
    and "r_state r = HeaderByte0" and "r_role r \<noteq> w_role w" and "r_fragmented r = w_fragmented w"
  shows "reader_parse h r s bytes = attempt (deliverFrames h s fs)
      (\<lambda>s'. Inr (foldl afterFrame r (map fst fs), s', length bytes)) \<and>
    r_fragmented (foldl afterFrame r (map fst fs)) = w_fragmented w'"
proof -
  have "paired r w"
    using assms(3,4,5) by (simp add: paired_def)
  then show ?thesis
    using reader_parse_frames [OF assms(1) _ assms(2)] by (simp add: paired_def)
qed

theorem frames_roundtrip_witness:
  "\<exists>w' bytes. encodeFrames 64 [(empty_frame\<lparr>fin := False, payloadLength := 2\<rparr>, [72, 105]),
        (empty_frame\<lparr>opcode := OpPing\<rparr>, []), (empty_frame\<lparr>opcode := OpContinuation\<rparr>, [])] (writer_reset Server) = Inr (w', bytes) \<and>
    reader_parse \<lparr>onFrameHeader = (\<lambda>s f. Inr (s @ [opcode f])), onFramePayload = (\<lambda>s p fi. Inr (s @ p))\<rparr>
      (reader_reset Client) [] bytes = Inr (foldl afterFrame (reader_reset Client) [empty_frame\<lparr>fin := False, payloadLength := 2\<rparr>,
        empty_frame\<lparr>opcode := OpPing\<rparr>, empty_frame\<lparr>opcode := OpContinuation\<rparr>], [OpText, 72, 105, OpPing, OpContinuation], length bytes)"
proof -
  let ?fs = "[(empty_frame\<lparr>fin := False, payloadLength := 2\<rparr>, [72, 105]), (empty_frame\<lparr>opcode := OpPing\<rparr>, []),
    (empty_frame\<lparr>opcode := OpContinuation\<rparr>, [])] :: (frame \<times> byte list) list"
  obtain w' bytes where sent: "encodeFrames 64 ?fs (writer_reset Server) = Inr (w', bytes)"
    by (simp add: ws_eval word_le_nat_alt word_less_nat_alt)
  have d: "\<forall>(f, p) \<in> set ?fs. describes f p"
    by (simp add: describes_def empty_frame_def)
  have r: "r_state (reader_reset Client) = HeaderByte0" "r_role (reader_reset Client) \<noteq> w_role (writer_reset Server)"
    "r_fragmented (reader_reset Client) = w_fragmented (writer_reset Server)"
    by (simp_all add: reader_reset_def writer_reset_def)
  show ?thesis
    using sent frames_roundtrip [OF sent d r,
        where h = "\<lparr>onFrameHeader = (\<lambda>s f. Inr (s @ [opcode f])), onFramePayload = (\<lambda>s p fi. Inr (s @ p))\<rparr>" and s = "[]"]
    by (auto simp: empty_frame_def)
qed

context data_sink
begin

lemma receive_concat:
  assumes "length buffer = 125"
  shows "receiveChunks cb chunks (endpoint_reset ro buffer u) =
    map_sum id (\<lambda>(re, n). re) (receive cb (concat chunks) (endpoint_reset ro buffer u))"
proof -
  obtain e where e: "endpoint_reset ro buffer u = (reader_reset ro, e)" "endpoint_ok ro e"
    using assms by (simp add: endpoint_reset_def endpoint_ok_def writer_reset_def)
  show ?thesis
    unfolding receiveChunks_parse e(1) fst_conv snd_conv endpoint.parseChunks_concat [OF reader_ok_reset e(2)]
    by (cases "reader_parse (endpoint_handler cb) (reader_reset ro) e (concat chunks)") (auto simp: receive_def)
qed

end

text \<open>
  C27: An endpoint whose application takes payload in pieces ends in the same state, reports the same
  error and makes the same callbacks however the stream is cut into calls of \<open>receive\<close>; each call
  that succeeds consumes all its bytes.
\<close>

theorem receive_chunking:
  assumes "\<And>u op a b f. a \<noteq> [] \<Longrightarrow> b \<noteq> [] \<Longrightarrow> cbDataFramePayload cb u op (a @ b) f =
      attempt (cbDataFramePayload cb u op a False) (\<lambda>u'. cbDataFramePayload cb u' op b f)"
    and "length buffer = 125"
  shows "receiveChunks cb chunks (endpoint_reset ro buffer u) =
    map_sum id (\<lambda>(re, n). re) (receive cb (concat chunks) (endpoint_reset ro buffer u))"
proof -
  have "data_sink cb"
    by (rule data_sink.intro) (rule assms(1))
  then show ?thesis
    using assms(2) by (rule data_sink.receive_concat)
qed

end
