(* ===== verification/HttpWebSocketControl.thy ===== *)
theory HttpWebSocketControl
  imports HttpWebSocketTheorems
begin

text \<open>
  The endpoint's own protocol: how it answers control frames, what holds in every state it can
  reach, and the two situations it does not recover from: an answer that is still pending when the
  next control frame arrives, and a frame that did not fit its storage.
\<close>

section \<open>One frame through the endpoint\<close>

lemma receive_frame:
  assumes "acceptable r f" and "r_state r = HeaderByte0" and "unat (payloadLength f) = length p"
  shows "reader_parse (endpoint_handler cb) r e (headerBytes f @ wirePayload f p @ rest) =
    attempt (onReaderFrameHeader cb e f)
      (\<lambda>e1. attempt (if p = [] then Inr e1 else onReaderPayload cb e1 p True)
        (\<lambda>e2. readerLoop (endpoint_handler cb) (afterFrame r f) e2 (length (headerBytes f) + length p) rest))"
  unfolding reader_parse_def loop_written [OF assms] by (simp add: endpoint_handler_def cong: if_cong)

lemma control_frame:
  assumes "isControlFrame f" and "unat (payloadLength f) = length p" and "length p \<le> 125"
    and "length (controlPayload e) = 125" and "cbFrameHeader cb (e_user e) f = Inr u"
  shows "\<exists>buf n. attempt (onReaderFrameHeader cb e f) (\<lambda>e1. if p = [] then Inr e1 else onReaderPayload cb e1 p True) =
      handleControlFrame cb p (e\<lparr>e_frame := f, controlPayload := buf, controlPayloadSize := n, e_user := u\<rparr>) \<and>
    length buf = 125 \<and> n \<le> 125"
proof (cases "p = []")
  case True
  then have "payloadLength f = 0"
    using assms(2) by (simp add: unsigned_eq_0_iff)
  then have "attempt (onReaderFrameHeader cb e f) (\<lambda>e1. if p = [] then Inr e1 else onReaderPayload cb e1 p True) =
      handleControlFrame cb p (e\<lparr>e_frame := f, controlPayload := controlPayload e, controlPayloadSize := 0, e_user := u\<rparr>)"
    using True assms(1,5) by (cases e) (simp add: onReaderFrameHeader_def Let_def)
  then show ?thesis
    using assms(4) by (intro exI [of _ "controlPayload e"] exI [of _ "0 :: nat"]) simp
next
  case False
  then have nz: "payloadLength f \<noteq> 0"
    using assms(2) by auto
  let ?buf = "overwrite (controlPayload e) 0 p"
  have "take (length p) ?buf = p"
    by (simp add: overwrite_def)
  then have "attempt (onReaderFrameHeader cb e f) (\<lambda>e1. if p = [] then Inr e1 else onReaderPayload cb e1 p True) =
      handleControlFrame cb p (e\<lparr>e_frame := f, controlPayload := ?buf, controlPayloadSize := length p, e_user := u\<rparr>)"
    using False nz assms(1,3,5) by (cases e) (simp add: onReaderFrameHeader_def onReaderPayload_def Let_def)
  then show ?thesis
    using assms(3,4) by (intro exI [of _ ?buf] exI [of _ "length p"]) simp
qed

text \<open>The answer to a control frame: the same kind of frame a user would have sent.\<close>

definition answer :: "byte \<Rightarrow> byte list \<Rightarrow> 'u endpoint \<Rightarrow> byte list" where
  "answer op p e = (let g = partFrame (endpointRole e) op True p (automaticMaskKey e) in headerBytes g @ wirePayload g p)"

definition canAnswer :: "'u endpoint \<Rightarrow> bool" where
  "canAnswer e \<longleftrightarrow> \<not> hasPendingControlFrame e \<and> (endpointRole e = Client \<longrightarrow> (\<exists>k. automaticMaskKey e = Some k \<and> length k = 4))"

lemma queue_answer:
  assumes "canAnswer e" and "length p \<le> 125" and "op \<in> {OpClose, OpPong}"
  shows "queueAutomaticControl op p e = Inr (e\<lparr>pendingControlFrame := answer op p e\<rparr>)"
proof -
  let ?g = "partFrame (endpointRole e) op True p (automaticMaskKey e)"
  have len: "unat (of_nat (length p) :: u64) = length p"
    using assms(2) by (simp add: unat_of_nat)
  have mask: "applyOutgoingMask (endpointRole e) (automaticMaskKey e)
      (empty_frame\<lparr>opcode := op, fin := True, payloadLength := of_nat (length p)\<rparr>) = Inr ?g"
    using assms(1) by (auto simp: applyOutgoingMask_Inr partFrame_def empty_frame_def canAnswer_def)
  have "length (maskKey ?g) = 4"
    using assms(1) by (cases "endpointRole e") (auto simp: partFrame_def canAnswer_def)
  then have hb: "length (headerBytes ?g) = encodedLength ?g"
    by (rule length_headerBytes)
  have small: "(of_nat (length p) :: u64) \<le> 125"
    using assms(2) len by (simp add: word_le_nat_alt)
  have ctl: "isControlFrame ?g" "isSupportedOpcode (opcode ?g)"
    using assms(3) by (auto simp: partFrame_def isControlFrame_def isSupportedOpcode_def opcode_defs word_le_nat_alt)
  have w: "writable (writer_reset (endpointRole e)) ?g"
    using ctl small by (simp add: writable_def writer_reset_def partFrame_def requiresOutgoingMask_def)
  have room: "encodedLength ?g + length p \<le> 2 + 8 + 4 + 125"
    using assms(2) by (simp add: encodedLength_def)
  have "encodeFrame msg ?g p (2 + 8 + 4 + 125) (writer_reset (endpointRole e)) =
      (w_afterFrame (writer_reset (endpointRole e)) ?g, Inr (headerBytes ?g @ wirePayload ?g p))" for msg
    using encodeFrame_writable [OF w _ room hb] len by (simp add: partFrame_def)
  then show ?thesis
    using assms(1) unfolding queueAutomaticControl_def mask by (simp add: canAnswer_def answer_def Let_def)
qed

section \<open>Answers\<close>

lemma control_received:
  assumes "acceptable r f" and "r_state r = HeaderByte0" and "unat (payloadLength f) = length p" and "isControlFrame f"
    and "length (controlPayload e) = 125" and "cbFrameHeader cb (e_user e) f = Inr u"
  shows "\<exists>buf n. reader_parse (endpoint_handler cb) r e (headerBytes f @ wirePayload f p @ rest) =
      attempt (handleControlFrame cb p (e\<lparr>e_frame := f, controlPayload := buf, controlPayloadSize := n, e_user := u\<rparr>))
        (\<lambda>e2. readerLoop (endpoint_handler cb) (afterFrame r f) e2 (length (headerBytes f) + length p) rest) \<and>
    length buf = 125 \<and> length p \<le> 125"
proof -
  have "payloadLength f \<le> 125"
    using assms(1,4) by (simp add: acceptable_def)
  then have p: "length p \<le> 125"
    using assms(3) by (simp add: word_le_nat_alt)
  obtain buf n where one: "attempt (onReaderFrameHeader cb e f) (\<lambda>e1. if p = [] then Inr e1 else onReaderPayload cb e1 p True) =
      handleControlFrame cb p (e\<lparr>e_frame := f, controlPayload := buf, controlPayloadSize := n, e_user := u\<rparr>)" "length buf = 125"
    using control_frame [OF assms(4,3) p assms(5,6)] by blast
  show ?thesis
    unfolding receive_frame [OF assms(1,2,3)] attempt_assoc [symmetric] one(1)
    by (intro exI [of _ buf] exI [of _ n]) (simp add: one(2) p)
qed

lemma isControl_ops: "opcode f \<in> {OpPing, OpPong, OpClose} \<Longrightarrow> isControlFrame f"
  by (auto simp: isControlFrame_def opcode_defs word_le_nat_alt)

text \<open>
  C29: A ping is answered: when no answer is pending and the callbacks accept it, receiving the frame
  leaves exactly one pong frame with the ping's payload as the pending control frame, masked with
  the automatic key on the client side, and the reader is ready for the next frame.
\<close>

theorem ping_answered:
  assumes "acceptable r f" and "r_state r = HeaderByte0" and "unat (payloadLength f) = length p"
    and "opcode f = OpPing" and "length (controlPayload e) = 125" and "canAnswer e"
    and "cbFrameHeader cb (e_user e) f = Inr u1" and "cbPing cb u1 p = Inr u2"
  shows "\<exists>e'. receive cb (headerBytes f @ wirePayload f p) (r, e) = Inr ((afterFrame r f, e'), length (headerBytes f) + length p) \<and>
    getPendingControlFrame e' = Inr (answer OpPong p e) \<and> e_user e' = u2 \<and> closeSent e' = closeSent e"
proof -
  have c: "isControlFrame f"
    using assms(4) isControl_ops by simp
  obtain buf n where parse: "reader_parse (endpoint_handler cb) r e (headerBytes f @ wirePayload f p) =
      attempt (handleControlFrame cb p (e\<lparr>e_frame := f, controlPayload := buf, controlPayloadSize := n, e_user := u1\<rparr>))
        (\<lambda>e2. Inr (afterFrame r f, e2, length (headerBytes f) + length p))" and p: "length p \<le> 125"
    using control_received [OF assms(1,2,3) c assms(5,7), of "[]"] by (auto simp: readerLoop_Nil)
  let ?e = "e\<lparr>e_frame := f, controlPayload := buf, controlPayloadSize := n, e_user := u2\<rparr>"
  have "canAnswer ?e" "answer OpPong p ?e = answer OpPong p e"
    using assms(6) by (simp_all add: canAnswer_def hasPendingControlFrame_def answer_def)
  then have "handleControlFrame cb p (e\<lparr>e_frame := f, controlPayload := buf, controlPayloadSize := n, e_user := u1\<rparr>) =
      Inr (?e\<lparr>pendingControlFrame := answer OpPong p e\<rparr>)"
    using assms(4,8) queue_answer [of ?e p OpPong] p by (simp add: handleControlFrame_def)
  moreover have "answer OpPong p e \<noteq> []"
    by (simp add: answer_def Let_def headerBytes_def)
  ultimately show ?thesis
    by (simp add: receive_def parse getPendingControlFrame_def hasPendingControlFrame_def)
qed

text \<open>
  C30: A close frame is echoed once: if the endpoint has not sent a close frame itself, receiving one
  leaves its echo pending and marks the close as sent and received; if it has, nothing is queued.
  The close callback gets the status code in network order and the reason. A payload of one byte,
  which cannot hold a status code, is an error.
\<close>

theorem close_answered:
  assumes "acceptable r f" and "r_state r = HeaderByte0" and "unat (payloadLength f) = length p"
    and "opcode f = OpClose" and "length (controlPayload e) = 125" and "canAnswer e"
    and "cbFrameHeader cb (e_user e) f = Inr u1"
    and "cbClose cb u1 (if length p \<ge> 2 then push_bit 8 (ucast (p ! 0)) OR ucast (p ! 1) else 0) (drop 2 p) = Inr u2"
  shows "if length p = 1
    then receive cb (headerBytes f @ wirePayload f p) (r, e) = Inl ''HttpWebSocketEndpoint malformed close payload''
    else \<exists>e'. receive cb (headerBytes f @ wirePayload f p) (r, e) = Inr ((afterFrame r f, e'), length (headerBytes f) + length p) \<and>
      closeSent e' \<and> closeReceived e' \<and> e_user e' = u2 \<and>
      pendingControlFrame e' = (if closeSent e then pendingControlFrame e else answer OpClose p e)"
proof -
  have c: "isControlFrame f"
    using assms(4) isControl_ops by simp
  obtain buf n where parse: "reader_parse (endpoint_handler cb) r e (headerBytes f @ wirePayload f p) =
      attempt (handleControlFrame cb p (e\<lparr>e_frame := f, controlPayload := buf, controlPayloadSize := n, e_user := u1\<rparr>))
        (\<lambda>e2. Inr (afterFrame r f, e2, length (headerBytes f) + length p))" and p: "length p \<le> 125"
    using control_received [OF assms(1,2,3) c assms(5,7), of "[]"] by (auto simp: readerLoop_Nil)
  have op: "opcode f \<noteq> OpPing" "opcode f \<noteq> OpPong"
    using assms(4) by (simp_all add: opcode_defs)
  let ?e = "e\<lparr>e_frame := f, controlPayload := buf, controlPayloadSize := n, closeReceived := True, e_user := u2\<rparr>"
  have "canAnswer ?e" "answer OpClose p ?e = answer OpClose p e"
    using assms(6) by (simp_all add: canAnswer_def hasPendingControlFrame_def answer_def)
  then have "handleControlFrame cb p (e\<lparr>e_frame := f, controlPayload := buf, controlPayloadSize := n, e_user := u1\<rparr>) =
      (if length p = 1 then Inl ''HttpWebSocketEndpoint malformed close payload''
       else Inr (if closeSent e then ?e else ?e\<lparr>pendingControlFrame := answer OpClose p e, closeSent := True\<rparr>))"
    using assms(4,8) op queue_answer [of ?e p OpClose] p
    by (cases "length p = 1"; cases "2 \<le> length p"; cases p) (auto simp: handleControlFrame_def Let_def)
  then show ?thesis
    by (simp add: receive_def parse)
qed

text \<open>
  There is room for one answer only: when a second ping arrives in the same chunk as the first,
  before the caller can flush the answer, \<open>receive\<close> fails, although each ping alone is answered.
\<close>

theorem second_ping_fails:
  assumes "acceptable r f" and "r_state r = HeaderByte0" and "unat (payloadLength f) = length p" and "opcode f = OpPing"
    and "acceptable r g" and "unat (payloadLength g) = length q" and "opcode g = OpPing"
    and "length (controlPayload e) = 125" and "canAnswer e"
    and "\<And>u h. cbFrameHeader cb u h = Inr u" and "\<And>u x. cbPing cb u x = Inr u"
  shows "receive cb ((headerBytes f @ wirePayload f p) @ headerBytes g @ wirePayload g q) (r, e) =
    Inl ''HttpWebSocketEndpoint pending control frame backpressure''"
proof -
  have c: "isControlFrame f" "isControlFrame g"
    using assms(4,7) isControl_ops by simp_all
  let ?wire = "headerBytes g @ wirePayload g q"
  obtain buf n where first: "reader_parse (endpoint_handler cb) r e (headerBytes f @ wirePayload f p @ ?wire) =
      attempt (handleControlFrame cb p (e\<lparr>e_frame := f, controlPayload := buf, controlPayloadSize := n, e_user := e_user e\<rparr>))
        (\<lambda>e2. readerLoop (endpoint_handler cb) (afterFrame r f) e2 (length (headerBytes f) + length p) ?wire)"
    and buf: "length buf = 125" "length p \<le> 125"
    using control_received [OF assms(1,2,3) c(1) assms(8,10), of ?wire] by blast
  let ?e = "e\<lparr>e_frame := f, controlPayload := buf, controlPayloadSize := n, e_user := e_user e\<rparr>"
  let ?e2 = "?e\<lparr>pendingControlFrame := answer OpPong p ?e\<rparr>"
  have "canAnswer ?e"
    using assms(9) by (simp add: canAnswer_def hasPendingControlFrame_def)
  then have handled: "handleControlFrame cb p ?e = Inr ?e2"
    using assms(4,11) queue_answer [of ?e p OpPong] buf(2) by (simp add: handleControlFrame_def)
  have idle: "r_state (afterFrame r f) = HeaderByte0" "acceptable (afterFrame r f) g"
    using assms(5) c by (simp_all add: afterFrame_def acceptable_def)
  obtain buf' n' where second: "reader_parse (endpoint_handler cb) (afterFrame r f) ?e2 ?wire =
      attempt (handleControlFrame cb q (?e2\<lparr>e_frame := g, controlPayload := buf', controlPayloadSize := n', e_user := e_user ?e2\<rparr>))
        (\<lambda>e2. Inr (afterFrame (afterFrame r f) g, e2, length (headerBytes g) + length q))"
    using control_received [OF idle(2,1) assms(6) c(2) _ assms(10), of ?e2 "[]"] buf(1) by (auto simp: readerLoop_Nil)
  have "hasPendingControlFrame (?e2\<lparr>e_frame := g, controlPayload := buf', controlPayloadSize := n', e_user := x\<rparr>)" for x
    by (simp add: hasPendingControlFrame_def answer_def Let_def headerBytes_def)
  then have "reader_parse (endpoint_handler cb) (afterFrame r f) ?e2 ?wire =
      Inl ''HttpWebSocketEndpoint pending control frame backpressure''"
    unfolding second using assms(7,11) by (simp add: handleControlFrame_def queueAutomaticControl_def)
  then have "readerLoop (endpoint_handler cb) (afterFrame r f) ?e2 m ?wire =
      Inl ''HttpWebSocketEndpoint pending control frame backpressure''" for m
    using readerLoop_shift [of "endpoint_handler cb" "afterFrame r f" ?e2 m 0 ?wire] by (simp add: reader_parse_def)
  then show ?thesis
    unfolding receive_def fst_conv snd_conv append_assoc first handled by simp
qed

section \<open>Sending\<close>

text \<open>
  When a frame's header fits the caller's storage but its payload does not, \<open>sendFrame\<close> reports
  the storage as too small and leaves its writer inside the frame: from then on every frame the
  endpoint is asked to send, of any kind and with any storage, is refused.
\<close>

theorem storage_error_is_final:
  assumes "sendFrame header payload storage e = (e1, Inl ''HttpWebSocketEndpoint frame storage too small'')"
    and "payloadLength header' = of_nat (length payload')"
  shows "sendFrame header' payload' storage' e1 = (e1, Inl ''HttpWebSocketFrameWriter frame already in progress'')"
proof -
  obtain w where w: "encodeFrame ''HttpWebSocketEndpoint frame storage too small'' header payload storage (e_writer e) =
      (w, Inl ''HttpWebSocketEndpoint frame storage too small'')" "e1 = e\<lparr>e_writer := w\<rparr>"
    using assms(1) by (auto simp: sendFrame_def split: prod.splits if_splits)
  obtain w1 res where b: "beginFrame header storage (e_writer e) = (w1, res)"
    by (cases "beginFrame header storage (e_writer e)")
  have "frameInProgress w"
  proof (cases res)
    case (Inl m)
    then show ?thesis
      using w(1) b by (auto simp: encodeFrame_def beginFrame_def Let_def split: if_splits)
  next
    case (Inr h)
    then have "frameInProgress w1"
      using b by (auto simp: beginFrame_Inr)
    then show ?thesis
      using w(1) b Inr by (auto simp: encodeFrame_def writePayload_def finishFrame_def Let_def
          split: if_splits prod.splits sum.splits)
  qed
  then show ?thesis
    using assms(2) by (simp add: w(2) sendFrame_def encodeFrame_def beginFrame_def Let_def)
qed

section \<open>The states of an endpoint\<close>

text \<open>
  Everything an application can do with an endpoint, in any order; the flag says whether a call of \<open>receive\<close>
  has failed. A call that fails leaves what \<open>receive_left\<close> says, and no more bytes are received then until
  the endpoint is reset; the other operations may go on.
\<close>

inductive reachable :: "'u callbacks \<Rightarrow> role \<Rightarrow> bool \<Rightarrow> reader \<times> 'u endpoint \<Rightarrow> bool" for cb :: "'u callbacks" and ro :: role where
  reset: "length buffer = 125 \<Longrightarrow> reachable cb ro False (endpoint_reset ro buffer u)"
| received: "reachable cb ro False re \<Longrightarrow> receive cb data re = Inr (re', n) \<Longrightarrow> reachable cb ro False re'"
| receive_failed: "reachable cb ro False re \<Longrightarrow> receive cb data re = Inl msg \<Longrightarrow> reachable cb ro True (receive_left cb data re)"
| frame_sent: "reachable cb ro failed (r, e) \<Longrightarrow> sendFrame header payload storage e = (e', res) \<Longrightarrow> reachable cb ro failed (r, e')"
| data_sent: "reachable cb ro failed (r, e) \<Longrightarrow> sendData op payload fi key storage e = (e', res) \<Longrightarrow> reachable cb ro failed (r, e')"
| ping_sent: "reachable cb ro failed (r, e) \<Longrightarrow> sendPing payload key storage e = (e', res) \<Longrightarrow> reachable cb ro failed (r, e')"
| pong_sent: "reachable cb ro failed (r, e) \<Longrightarrow> sendPong payload key storage e = (e', res) \<Longrightarrow> reachable cb ro failed (r, e')"
| close_sent: "reachable cb ro failed (r, e) \<Longrightarrow> sendClose status reason key storage e = (e', res) \<Longrightarrow> reachable cb ro failed (r, e')"
| key_set: "reachable cb ro failed (r, e) \<Longrightarrow> reachable cb ro failed (r, setAutomaticMaskKey key e)"
| flushed: "reachable cb ro failed (r, e) \<Longrightarrow> reachable cb ro failed (r, clearPendingControlFrame e)"
| user: "reachable cb ro failed (r, e) \<Longrightarrow> reachable cb ro failed (r, e\<lparr>e_user := u\<rparr>)"

inductive_cases reachable_cases: "reachable cb ro failed re"

lemma sendFrame_ok: "sendFrame header p st e = (e', res) \<Longrightarrow> endpoint_inv failed ro e \<Longrightarrow> endpoint_inv failed ro e'"
  by (auto simp: sendFrame_def endpoint_inv_def split: if_splits prod.splits dest: encodeFrame_role)

lemma sendMasked_ok: "sendMasked op fi p key st e = (e', res) \<Longrightarrow> endpoint_inv failed ro e \<Longrightarrow> endpoint_inv failed ro e'"
  by (auto simp: sendMasked_def split: sum.splits dest: sendFrame_ok)

lemma sendClose_ok: "sendClose status reason key st e = (e', res) \<Longrightarrow> endpoint_inv failed ro e \<Longrightarrow> endpoint_inv failed ro e'"
  by (auto simp: sendClose_def Let_def endpoint_inv_def [of _ _ "_\<lparr>closeSent := True\<rparr>"]
      split: if_splits prod.splits sum.splits dest: sendMasked_ok)
    (auto dest!: sendMasked_ok [where failed = failed and ro = ro] simp: endpoint_inv_def)

lemma reachable_ok:
  "reachable cb ro failed re \<Longrightarrow> endpoint_inv failed ro (snd re) \<and> mask_left (fst re) \<and> (\<not> failed \<longrightarrow> reader_ok (fst re) \<and> mask_ok (fst re))"
proof (induction rule: reachable.induct)
  case (reset buffer u)
  then show ?case
    using mask_ok_reset [of ro] reader_ok_reset [of ro]
    by (simp add: endpoint_reset_def endpoint_inv_def writer_reset_def mask_ok_def)
next
  case (received re data re' n)
  then obtain r' e' where p: "reader_parse (endpoint_handler cb) (fst re) (snd re) data = Inr (r', e', n)" "re' = (r', e')"
    by (auto simp: receive_def attempt_Inr)
  then have "mask_ok r'"
    using readerLoop_mask [of "fst re" "endpoint_handler cb" "snd re" 0 data] received.IH by (auto simp: reader_parse_def)
  then show ?case
    using received reader_parse_ok [OF p(1)] endpoint.reader_parse_inv [OF p(1)] p(2) by (simp add: mask_ok_def)
next
  case (receive_failed re data msg)
  then have "readerLoop (endpoint_handler cb) (fst re) (snd re) 0 data = Inl msg"
    by (auto simp: receive_def reader_parse_def attempt_def split: sum.splits)
  from failing.readerLoop_kept [OF this] show ?case
    using receive_failed.IH readerLoop_mask [of "fst re" "endpoint_handler cb" "snd re" 0 data "endpoint_left cb"]
    unfolding receive_left_def by blast
qed (auto simp: sendData_def sendPing_def sendPong_def setAutomaticMaskKey_def clearPendingControlFrame_def
    dest: sendFrame_ok sendMasked_ok sendClose_ok split: if_splits,
    auto simp: endpoint_inv_def setAutomaticMaskKey_def clearPendingControlFrame_def)

text \<open>
  C25: In every state an application can bring an endpoint to, whatever bytes it receives, the copy of
  a control payload stays within its 125 bytes and the pending answer within its storage, the roles and
  the length of the mask key stay, also after a call of \<open>receive\<close> has failed. As long as none has, a received close has
  been answered, and the reader waits for payload or for a byte of the mask key only when one is missing;
  after a failure it may have all four and still be in the state in which it stores the next one.
\<close>

theorem endpoint_invariant:
  assumes "reachable cb ro failed (r, e)"
  shows "length (controlPayload e) = 125 \<and> controlPayloadSize e \<le> 125 \<and> length (pendingControlFrame e) \<le> 139 \<and>
    endpointRole e = ro \<and> w_role (e_writer e) = ro \<and> length (maskKey (r_frame r)) = 4 \<and>
    (r_state r = MaskKey \<longrightarrow> maskBytesRead r \<le> 4) \<and>
    (failed \<or> (closeReceived e \<longrightarrow> closeSent e) \<and> (r_state r = Payload \<longrightarrow> r_remaining r \<noteq> 0) \<and>
      (r_state r = MaskKey \<longrightarrow> maskBytesRead r < 4))"
  using reachable_ok [OF assms] by (auto simp: endpoint_inv_def reader_ok_def mask_ok_def mask_left_def)

section \<open>Valid frames only\<close>

text \<open>What the callbacks may rely on, and callbacks that insist on it.\<close>

definition validHeader :: "role \<Rightarrow> frame \<Rightarrow> bool" where
  "validHeader ro f \<longleftrightarrow> isSupportedOpcode (opcode f) \<and> masked f = requiresIncomingMask ro \<and>
     (isControlFrame f \<longrightarrow> fin f \<and> payloadLength f \<le> 125)"

definition insist :: "role \<Rightarrow> 's handler \<Rightarrow> 's handler" where
  "insist ro h = h\<lparr>onFrameHeader := (\<lambda>s f. if validHeader ro f then onFrameHeader h s f else Inl ''invalid frame'')\<rparr>"

definition reader_wf :: "role \<Rightarrow> reader \<Rightarrow> bool" where
  "reader_wf ro r \<longleftrightarrow> r_role r = ro \<and> (r_state r \<in> {ExtendedLength, MaskKey} \<longrightarrow> isSupportedOpcode (opcode (r_frame r)))"

lemma insist_header:
  assumes "isSupportedOpcode (opcode (r_frame r))" and "r_role r = ro"
  shows "onHeaderReady (insist ro h) r s = onHeaderReady h r s"
proof (cases "acceptsHeader r")
  case True
  then have "validHeader ro (r_frame r)"
    using assms by (auto simp: acceptsHeader_def validHeader_def Let_def split: if_splits)
  then show ?thesis
    unfolding onHeaderReady_accepts [OF True] by (simp add: insist_def)
next
  case False
  then show ?thesis
    by (auto simp: onHeaderReady_def acceptsHeader_def Let_def require_def split: if_splits)
qed

lemma onHeaderReady_wf: "onHeaderReady h r s = Inr (r', s') \<Longrightarrow> r_role r = ro \<Longrightarrow> reader_wf ro r'"
  using onHeaderReady_accepts [of r h s] onHeaderReady_rejects [of r h s]
  by (cases "acceptsHeader r") (auto simp: attempt_Inr afterHeader_def Let_def reader_wf_def)

lemma insist_step:
  assumes "reader_wf ro r" and "data \<noteq> []"
  shows "readerStep (insist ro h) r s data = readerStep h r s data"
proof (cases "r_state r")
  case HeaderByte1
  have "readByte1 (insist ro h) r s (hd data) = readByte1 h r s (hd data)"
    using assms(1) by (auto simp: readByte1_def Let_def require_def reader_wf_def insist_header)
  then show ?thesis
    using HeaderByte1 by (simp add: readerStep_def)
next
  case ExtendedLength
  then have "readExtended (insist ro h) r s (hd data) = readExtended h r s (hd data)"
    using assms(1) by (auto simp: readExtended_def Let_def require_def reader_wf_def insist_header)
  then show ?thesis
    using ExtendedLength by (simp add: readerStep_def)
next
  case MaskKey
  then have "readMask (insist ro h) r s (hd data) = readMask h r s (hd data)"
    using assms(1) by (auto simp: readMask_def Let_def reader_wf_def insist_header)
  then show ?thesis
    using MaskKey by (simp add: readerStep_def)
qed (simp_all add: readerStep_def readPayload_def insist_def Let_def)

lemma readerStep_wf:
  assumes "readerStep h r s data = Inr (r', s', k)" and "reader_wf ro r"
  shows "reader_wf ro r'"
proof (cases "r_state r")
  case HeaderByte1
  then have "readByte1 h r s (hd data) = Inr (r', s')"
    using assms(1) by (auto simp: readerStep_def Let_def map_sum_def split: sum.splits)
  then show ?thesis
    using assms(2) by (auto simp: readByte1_def Let_def require_Inr reader_wf_def [of ro r] split: if_splits
        dest!: onHeaderReady_wf [where ro = ro]) (simp_all add: reader_wf_def)
next
  case ExtendedLength
  then have "readExtended h r s (hd data) = Inr (r', s')"
    using assms(1) by (auto simp: readerStep_def Let_def map_sum_def split: sum.splits)
  then show ?thesis
    using assms(2) ExtendedLength by (auto simp: readExtended_def Let_def require_Inr reader_wf_def [of ro r] split: if_splits
        dest!: onHeaderReady_wf [where ro = ro]) (simp_all add: reader_wf_def)
next
  case MaskKey
  then have "readMask h r s (hd data) = Inr (r', s')"
    using assms(1) by (auto simp: readerStep_def Let_def map_sum_def split: sum.splits)
  then show ?thesis
    using assms(2) MaskKey by (auto simp: readMask_def Let_def reader_wf_def [of ro r] split: if_splits
        dest!: onHeaderReady_wf [where ro = ro]) (simp_all add: reader_wf_def)
next
  case Payload
  then have "readPayload h r s data = Inr (r', s', k)"
    using assms(1) by (simp add: readerStep_def)
  then show ?thesis
    using assms(2) Payload by (auto simp: readPayload_def Let_def require_Inr attempt_Inr reader_wf_def)
qed (use assms in \<open>auto simp: readerStep_def reader_wf_def\<close>)

lemma insist_loop: "reader_wf ro r \<Longrightarrow> readerLoop (insist ro h) r s n data = readerLoop h r s n data"
proof (induction "length data" arbitrary: r s n data rule: less_induct)
  case less
  show ?case
  proof (cases "data = []")
    case False
    note step = insist_step [OF less.prems False, of h s]
    show ?thesis
    proof (cases "readerStep h r s data")
      case (Inr x)
      obtain r' s' k where x: "x = (r', s', k)" by (cases x)
      have "readerLoop (insist ro h) r' s' (n + k) (drop k data) = readerLoop h r' s' (n + k) (drop k data)"
        using less.hyps readerStep_progress [OF Inr [unfolded x] False] readerStep_wf [OF Inr [unfolded x] less.prems] False
        by simp
      then show ?thesis
        using False step Inr x by (simp add: readerLoop.simps [of _ r s n data])
    qed (use False step in \<open>simp add: readerLoop.simps [of _ r s n data]\<close>)
  qed (simp add: readerLoop_Nil)
qed

lemma readerLoop_wf: "readerLoop h r s n data = Inr (r', s', m) \<Longrightarrow> reader_wf ro r \<Longrightarrow> reader_wf ro r'"
proof (induction "length data" arbitrary: r s n data rule: less_induct)
  case less
  show ?case
  proof (cases "data = []")
    case True
    then show ?thesis
      using less.prems by (simp add: readerLoop_Nil)
  next
    case False
    then obtain r1 s1 k where step: "readerStep h r s data = Inr (r1, s1, k)"
      and loop: "readerLoop h r1 s1 (n + k) (drop k data) = Inr (r', s', m)"
      using less.prems(1) by (auto simp: readerLoop.simps [of h r s n data] split: sum.splits)
    have "length (drop k data) < length data"
      using readerStep_progress [OF step False] False by simp
    then show ?thesis
      using less.hyps loop readerStep_wf [OF step less.prems(2)] by blast
  qed
qed

lemma insist_chunks: "reader_wf ro r \<Longrightarrow> parseChunks (insist ro h) r s cs = parseChunks h r s cs"
proof (induction cs arbitrary: r s)
  case (Cons c cs)
  then show ?case
    using readerLoop_wf [of h r s 0 c] by (cases "reader_parse h r s c") (auto simp: reader_parse_def insist_loop)
qed simp

text \<open>
  C24: On any input, cut in any way, the reader reports a header to its callbacks only if the opcode is
  one of the six known ones, the frame is masked exactly when it comes from a client, and a control
  frame is final and has at most 125 bytes: callbacks that reject every other header make no
  difference.
\<close>

theorem only_valid_headers:
  "parseChunks (insist ro h) (reader_reset ro) s chunks = parseChunks h (reader_reset ro) s chunks"
  by (rule insist_chunks) (simp add: reader_wf_def reader_reset_def)

section \<open>Instances\<close>

text \<open>A server that has just been reset, callbacks that accept everything, and a client's ping and close.\<close>

definition quiet :: "unit callbacks" where
  "quiet = \<lparr>cbFrameHeader = (\<lambda>u f. Inr u), cbDataFramePayload = (\<lambda>u op p fi. Inr u), cbPing = (\<lambda>u p. Inr u),
     cbPong = (\<lambda>u p. Inr u), cbClose = (\<lambda>u code p. Inr u)\<rparr>"

definition server :: "unit endpoint" where
  "server = snd (endpoint_reset Server (replicate 125 0) ())"

definition clientPing :: frame where
  "clientPing = \<lparr>opcode = OpPing, fin = True, masked = True, payloadLength = 2, maskKey = [1, 2, 3, 4]\<rparr>"

lemma ping_instance:
  "acceptable (reader_reset Server) clientPing" "acceptable (reader_reset Server) (clientPing\<lparr>opcode := OpClose\<rparr>)"
  "r_state (reader_reset Server) = HeaderByte0" "unat (payloadLength clientPing) = length [104, 105 :: byte]"
  "length (controlPayload server) = 125" "canAnswer server"
  by (simp_all add: acceptable_def wireFrame_def clientPing_def isSupportedOpcode_def requiresIncomingMask_def reader_reset_def
      isControlFrame_def opcode_defs word_le_nat_alt word_less_nat_alt server_def endpoint_reset_def canAnswer_def hasPendingControlFrame_def)

theorem ping_answered_witness:
  "\<exists>e. receive quiet (headerBytes clientPing @ wirePayload clientPing [104, 105]) (reader_reset Server, server) =
      Inr ((afterFrame (reader_reset Server) clientPing, e), length (headerBytes clientPing) + 2) \<and>
    getPendingControlFrame e = Inr (answer OpPong [104, 105] server)"
  using ping_answered [OF ping_instance(1,3,4) _ ping_instance(5,6), of quiet "()" "()"]
  by (auto simp: quiet_def clientPing_def)

theorem close_answered_witness:
  "\<exists>e. receive quiet (headerBytes (clientPing\<lparr>opcode := OpClose\<rparr>) @ wirePayload (clientPing\<lparr>opcode := OpClose\<rparr>) [3, 232])
      (reader_reset Server, server) =
      Inr ((afterFrame (reader_reset Server) (clientPing\<lparr>opcode := OpClose\<rparr>), e), length (headerBytes (clientPing\<lparr>opcode := OpClose\<rparr>)) + 2) \<and>
    closeSent e \<and> closeReceived e \<and> pendingControlFrame e = answer OpClose [3, 232] server"
  using close_answered [OF ping_instance(2,3) _ _ ping_instance(5,6), of "[3, 232]" quiet "()" "()"]
  by (auto simp: quiet_def clientPing_def server_def endpoint_reset_def)

theorem second_ping_fails_witness:
  "receive quiet ((headerBytes clientPing @ wirePayload clientPing [104, 105]) @ headerBytes clientPing @ wirePayload clientPing [104, 105])
    (reader_reset Server, server) = Inl ''HttpWebSocketEndpoint pending control frame backpressure''"
  by (rule second_ping_fails [OF ping_instance(1,3,4) _ ping_instance(1,4) _ ping_instance(5,6)])
    (simp_all add: clientPing_def quiet_def)

theorem storage_error_is_final_witness:
  "\<exists>e. sendFrame (empty_frame\<lparr>payloadLength := 2\<rparr>) [104, 105] 3 server = (e, Inl ''HttpWebSocketEndpoint frame storage too small'') \<and>
    sendFrame empty_frame [] 1000 e = (e, Inl ''HttpWebSocketFrameWriter frame already in progress'')"
proof -
  obtain e where e: "sendFrame (empty_frame\<lparr>payloadLength := 2\<rparr>) [104, 105] 3 server =
      (e, Inl ''HttpWebSocketEndpoint frame storage too small'')"
    by (simp add: server_def ws_eval word_le_nat_alt word_less_nat_alt)
  then show ?thesis
    using storage_error_is_final [OF e, of empty_frame "[]" 1000] by (simp add: empty_frame_def)
qed

text \<open>A ping and a close in one chunk: the close is received and never answered.\<close>

definition pingAndClose :: "byte list" where
  "pingAndClose = [0x89, 0x80, 1, 2, 3, 4, 0x88, 0x80, 1, 2, 3, 4]"

lemma ping_and_close:
  "receive quiet pingAndClose (endpoint_reset Server (replicate 125 0) ()) = Inl ''HttpWebSocketEndpoint pending control frame backpressure''"
  "case receive_left quiet pingAndClose (endpoint_reset Server (replicate 125 0) ()) of (r, e) \<Rightarrow>
     closeReceived e \<and> \<not> closeSent e \<and> r_state r = MaskKey \<and> maskBytesRead r = 4"
  by code_simp+

theorem endpoint_invariant_witness:
  "(\<exists>r e. receive quiet (headerBytes clientPing @ wirePayload clientPing [104, 105]) (endpoint_reset Server (replicate 125 0) ()) = Inr ((r, e), 8) \<and>
     length (pendingControlFrame e) \<le> 139 \<and> controlPayloadSize e \<le> 125) \<and>
   (\<exists>r e. receive_left quiet pingAndClose (endpoint_reset Server (replicate 125 0) ()) = (r, e) \<and> closeReceived e \<and> \<not> closeSent e \<and>
     r_state r = MaskKey \<and> maskBytesRead r = 4 \<and> length (pendingControlFrame e) \<le> 139)"
proof -
  have start: "endpoint_reset Server (replicate 125 0) () = (reader_reset Server, server)"
    by (simp add: server_def endpoint_reset_def)
  obtain buf n where "reader_parse (endpoint_handler quiet) (reader_reset Server) server (headerBytes clientPing @ wirePayload clientPing [104, 105]) =
      attempt (handleControlFrame quiet [104, 105] (server\<lparr>e_frame := clientPing, controlPayload := buf, controlPayloadSize := n, e_user := ()\<rparr>))
        (\<lambda>e2. Inr (afterFrame (reader_reset Server) clientPing, e2, length (headerBytes clientPing) + 2))"
    using control_received [OF ping_instance(1,3,4) _ ping_instance(5), of quiet "()" "[]"]
    by (auto simp: isControl_ops clientPing_def quiet_def readerLoop_Nil)
  moreover have "canAnswer (server\<lparr>e_frame := clientPing, controlPayload := buf, controlPayloadSize := n, e_user := ()\<rparr>)"
    using ping_instance(6) by (simp add: canAnswer_def hasPendingControlFrame_def)
  moreover have "length (headerBytes clientPing) = 6"
    by (simp add: headerBytes_def lengthBytes_def clientPing_def Let_def word_less_nat_alt)
  ultimately obtain e where e: "receive quiet (headerBytes clientPing @ wirePayload clientPing [104, 105])
      (endpoint_reset Server (replicate 125 0) ()) = Inr ((afterFrame (reader_reset Server) clientPing, e), 8)"
    using queue_answer [of "server\<lparr>e_frame := clientPing, controlPayload := buf, controlPayloadSize := n, e_user := ()\<rparr>" "[104, 105]" OpPong]
    by (auto simp: start receive_def handleControlFrame_def quiet_def clientPing_def)
  have reset: "reachable quiet Server False (endpoint_reset Server (replicate 125 0) ())"
    by (rule reachable.reset) simp
  then have "reachable quiet Server False (afterFrame (reader_reset Server) clientPing, e)"
    using e by (rule reachable.received)
  moreover obtain r2 e2 where "receive_left quiet pingAndClose (endpoint_reset Server (replicate 125 0) ()) = (r2, e2)"
    by (cases "receive_left quiet pingAndClose (endpoint_reset Server (replicate 125 0) ())")
  moreover from this have "reachable quiet Server True (r2, e2)"
    using reachable.receive_failed [OF reset ping_and_close(1)] by simp
  ultimately show ?thesis
    using e ping_and_close(2) endpoint_invariant [of quiet Server False "afterFrame (reader_reset Server) clientPing" e]
      endpoint_invariant [of quiet Server True r2 e2]
    by simp
qed

theorem receive_chunking_witness:
  "receiveChunks quiet [[0x81, 0x82, 1], [2, 3], [4, 105, 107]] (endpoint_reset Server (replicate 125 0) ()) =
    map_sum id (\<lambda>(re, n). re) (receive quiet [0x81, 0x82, 1, 2, 3, 4, 105, 107] (endpoint_reset Server (replicate 125 0) ()))"
  using receive_chunking [of quiet "replicate 125 0" "[[0x81, 0x82, 1], [2, 3], [4, 105, 107]]" Server "()"]
  by (simp add: quiet_def)

end
