(* ===== verification/HttpWebSocketHandshake.thy ===== *)
theory HttpWebSocketHandshake
  imports HttpParser HttpText HttpWebSocketFrames
begin

text \<open>
  \<open>Libraries/Http/HttpWebSocket.cpp\<close>, the opening handshake: base 64, the client key and the
  accept value, and the validation of the request and of the response. SHA-1 comes from the
  operating system in the source and is a parameter here, a function from the hashed bytes to a
  result. Header views are texts, as in \<open>HttpText\<close>.
\<close>

definition GUID :: "char list" where
  "GUID = ''258EAFA5-E914-47DA-95CA-C5AB0DC85B11''"

definition BASE64 :: "char list" where
  "BASE64 = ''ABCDEFGHIJKLMNOPQRSTUVWXYZabcdefghijklmnopqrstuvwxyz0123456789+/''"

definition isSpace :: "char \<Rightarrow> bool" where
  "isSpace c \<longleftrightarrow> c = CHR '' '' \<or> c = TAB"

text \<open>The two loops of the trim move the start forward and the end back over spaces.\<close>

definition ws_trim :: "char list \<Rightarrow> char list" where
  "ws_trim v = (let v1 = dropWhile isSpace v in rev (dropWhile isSpace (rev v1)))"

section \<open>Base 64\<close>

definition base64Char :: "u32 \<Rightarrow> char" where
  "base64Char n = BASE64 ! unat (n AND 0x3F)"

text \<open>One turn of the encoder's loop per group of three bytes, from \<open>inputOffset\<close>.\<close>

function encodeLoop :: "byte list \<Rightarrow> nat \<Rightarrow> char list" where
  "encodeLoop data inputOffset =
     (if inputOffset < length data then
        (let a = ucast (data ! inputOffset) :: u32; o1 = inputOffset + 1;
             b = (if o1 < length data then ucast (data ! o1) else 0) :: u32;
             o2 = (if o1 < length data then o1 + 1 else o1);
             c = (if o2 < length data then ucast (data ! o2) else 0) :: u32;
             o3 = (if o2 < length data then o2 + 1 else o2);
             n = push_bit 16 a OR push_bit 8 b OR c in
         [base64Char (drop_bit 18 n), base64Char (drop_bit 12 n),
          if o3 - 1 \<le> length data then base64Char (drop_bit 6 n) else CHR ''='',
          if o3 \<le> length data then base64Char n else CHR ''=''] @ encodeLoop data o3)
      else [])"
  by pat_completeness auto
termination
  by (relation "measure (\<lambda>(data, off). length data - off)") (auto simp: Let_def)

declare encodeLoop.simps [simp del]

definition base64Encode :: "byte list \<Rightarrow> nat \<Rightarrow> string + char list" where
  "base64Encode data storage =
     (let encodedLength = ((length data + 2) div 3) * 4 in
      require (storage \<ge> encodedLength) ''HttpWebSocketHandshake base64 output too small''
        (let out = encodeLoop data 0; remainder = length data mod 3 in
         Inr (if remainder = 1 then out[encodedLength - 2 := CHR ''='', encodedLength - 1 := CHR ''='']
              else if remainder = 2 then out[encodedLength - 1 := CHR ''=''] else out)))"

definition base64Value :: "char \<Rightarrow> int" where
  "base64Value c =
     (let v = int (code c) in
      if 65 \<le> v \<and> v \<le> 90 then v - 65
      else if 97 \<le> v \<and> v \<le> 122 then 26 + v - 97
      else if 48 \<le> v \<and> v \<le> 57 then 52 + v - 48
      else if c = CHR ''+'' then 62
      else if c = CHR ''/'' then 63
      else -1)"

text \<open>The inner loop over a block: the sextets and the number of padding characters.\<close>

fun decodeQuad :: "nat \<Rightarrow> nat \<Rightarrow> nat \<Rightarrow> char list \<Rightarrow> string + int list \<times> nat" where
  "decodeQuad len pos padding [] = Inr ([], padding)"
| "decodeQuad len pos padding (current # cs) =
     (if current = CHR ''='' then
        require (int pos \<ge> int len - 2) ''HttpWebSocketHandshake malformed base64 padding''
          (attempt (decodeQuad len (pos + 1) (padding + 1) cs) (\<lambda>(s, p). Inr (0 # s, p)))
      else
        require (padding = 0) ''HttpWebSocketHandshake malformed base64 padding''
          (require (base64Value current \<ge> 0) ''HttpWebSocketHandshake malformed base64 character''
            (attempt (decodeQuad len (pos + 1) padding cs) (\<lambda>(s, p). Inr (base64Value current # s, p)))))"

definition combine :: "int list \<Rightarrow> u32" where
  "combine s = push_bit 18 (of_int (s ! 0)) OR push_bit 12 (of_int (s ! 1)) OR push_bit 6 (of_int (s ! 2)) OR of_int (s ! 3)"

text \<open>The loop over the blocks; \<open>decoded\<close> is what has been written to the output so far.\<close>

function decodeLoop64 :: "char list \<Rightarrow> nat \<Rightarrow> nat \<Rightarrow> byte list \<Rightarrow> string + byte list" where
  "decodeLoop64 v offset outSize decoded =
     (if offset < length v then
        attempt (decodeQuad (length v) offset 0 (take 4 (drop offset v)))
          (\<lambda>(sextets, padding).
             let combined = combine sextets; bytesThisBlock = 3 - padding in
             require (length decoded + bytesThisBlock \<le> outSize) ''HttpWebSocketHandshake base64 decode output too small''
               (decodeLoop64 v (offset + 4) outSize
                  (decoded @ take bytesThisBlock
                     [ucast (drop_bit 16 combined AND 0xFF), ucast (drop_bit 8 combined AND 0xFF), ucast (combined AND 0xFF)])))
      else Inr decoded)"
  by pat_completeness auto
termination
  by (relation "measure (\<lambda>(v, off, n, d). length v - off)") auto

declare decodeLoop64.simps [simp del]

definition base64Decode :: "char list \<Rightarrow> nat \<Rightarrow> string + byte list" where
  "base64Decode v outSize =
     require (length v mod 4 = 0) ''HttpWebSocketHandshake malformed base64 length'' (decodeLoop64 v 0 outSize [])"

section \<open>Keys\<close>

definition createClientKey :: "byte list \<Rightarrow> nat \<Rightarrow> string + char list" where
  "createClientKey nonce storage =
     require (length nonce = 16) ''HttpWebSocketHandshake nonce must be 16 bytes'' (base64Encode nonce storage)"

definition validateClientKey :: "char list \<Rightarrow> string + unit" where
  "validateClientKey key =
     require (length key = 24) ''HttpWebSocketHandshake Sec-WebSocket-Key length invalid''
       (attempt (base64Decode key 16)
          (\<lambda>decoded. require (length decoded = 16) ''HttpWebSocketHandshake Sec-WebSocket-Key decoded length invalid'' (Inr ())))"

definition bytes_of :: "char list \<Rightarrow> byte list" where
  "bytes_of s = map (\<lambda>c. of_nat (code c)) s"

definition computeAccept :: "(byte list \<Rightarrow> string + byte list) \<Rightarrow> char list \<Rightarrow> nat \<Rightarrow> string + char list" where
  "computeAccept sha1 clientKey storage =
     attempt (validateClientKey clientKey)
       (\<lambda>_. attempt (sha1 (bytes_of clientKey @ bytes_of GUID)) (\<lambda>digest. base64Encode digest storage))"

section \<open>Headers\<close>

text \<open>The loop over the header value: \<open>part\<close> is what lies between \<open>tokenStart\<close> and \<open>it\<close>.\<close>

fun tokenLoop :: "char list \<Rightarrow> char list \<Rightarrow> char list \<Rightarrow> bool" where
  "tokenLoop tok part [] = equalsIgnoreCase (ws_trim part) tok"
| "tokenLoop tok part (c # cs) =
     (if c = CHR '','' then
        (if equalsIgnoreCase (ws_trim part) tok then True else tokenLoop tok [] cs)
      else tokenLoop tok (part @ [c]) cs)"

definition headerContainsToken :: "char list \<Rightarrow> char list \<Rightarrow> bool" where
  "headerContainsToken headerValue tok = tokenLoop tok [] headerValue"

record requestView =
  q_method :: Method
  q_version :: "char list"
  q_upgrade :: "char list"
  q_connection :: "char list"
  secWebSocketKey :: "char list"
  secWebSocketVersion :: "char list"

record responseView =
  p_statusCode :: u32
  p_upgrade :: "char list"
  p_connection :: "char list"
  secWebSocketAccept :: "char list"

datatype handshakeStatus = Accepted | BadRequest | UnsupportedVersion

definition httpStatusCode :: "handshakeStatus \<Rightarrow> int" where
  "httpStatusCode status = (case status of Accepted \<Rightarrow> 101 | BadRequest \<Rightarrow> 400 | UnsupportedVersion \<Rightarrow> 426)"

definition validateServerRequest :: "requestView \<Rightarrow> handshakeStatus" where
  "validateServerRequest q =
     (if q_method q \<noteq> HttpGET \<or> \<not> equalsIgnoreCase (q_version q) ''HTTP/1.1'' then BadRequest
      else if \<not> equalsIgnoreCase (ws_trim (q_upgrade q)) ''websocket'' then BadRequest
      else if \<not> headerContainsToken (q_connection q) ''Upgrade'' then BadRequest
      else if validateClientKey (ws_trim (secWebSocketKey q)) \<noteq> Inr () then BadRequest
      else if secWebSocketVersion q = [] then BadRequest
      else if \<not> equalsIgnoreCase (ws_trim (secWebSocketVersion q)) ''13'' then UnsupportedVersion
      else Accepted)"

text \<open>The view of a request: a header that is missing leaves its field empty.\<close>

definition requestView_of :: "Method \<Rightarrow> char list \<Rightarrow> (char list \<Rightarrow> char list option) \<Rightarrow> requestView" where
  "requestView_of m v getHeader =
     (let field = (\<lambda>name. case getHeader name of None \<Rightarrow> [] | Some h \<Rightarrow> h) in
      \<lparr>q_method = m, q_version = v, q_upgrade = field ''Upgrade'', q_connection = field ''Connection'',
       secWebSocketKey = field ''Sec-WebSocket-Key'', secWebSocketVersion = field ''Sec-WebSocket-Version''\<rparr>)"

definition validateClientResponse ::
  "(byte list \<Rightarrow> string + byte list) \<Rightarrow> responseView \<Rightarrow> char list \<Rightarrow> string + unit" where
  "validateClientResponse sha1 p expectedClientKey =
     require (p_statusCode p = 101) ''HttpWebSocketHandshake expected 101 Switching Protocols''
       (require (equalsIgnoreCase (ws_trim (p_upgrade p)) ''websocket'')
          ''HttpWebSocketHandshake response Upgrade header invalid''
          (require (headerContainsToken (p_connection p) ''Upgrade'')
             ''HttpWebSocketHandshake response Connection header invalid''
             (attempt (computeAccept sha1 expectedClientKey 28)
                (\<lambda>expectedAccept.
                   require (equalsIgnoreCase (ws_trim (secWebSocketAccept p)) expectedAccept)
                     ''HttpWebSocketHandshake response Sec-WebSocket-Accept invalid'' (Inr ())))))"

definition responseView_of :: "u32 \<Rightarrow> (char list \<Rightarrow> char list option) \<Rightarrow> responseView" where
  "responseView_of status getHeader =
     (let field = (\<lambda>name. case getHeader name of None \<Rightarrow> [] | Some h \<Rightarrow> h) in
      \<lparr>p_statusCode = status, p_upgrade = field ''Upgrade'', p_connection = field ''Connection'',
       secWebSocketAccept = field ''Sec-WebSocket-Accept''\<rparr>)"

text \<open>
  The exchange: the headers that a request, an acceptance and a rejection add to their message, in
  order. Failures of the outgoing message itself (header space, state) are not represented.
\<close>

definition acceptServerConnection :: "(byte list \<Rightarrow> string + byte list) \<Rightarrow> requestView \<Rightarrow> nat \<Rightarrow>
    string + (char list \<times> char list) list" where
  "acceptServerConnection sha1 q storage =
     require (validateServerRequest q = Accepted) ''HttpWebSocketHandshake server request is not acceptable''
       (attempt (computeAccept sha1 (secWebSocketKey q) storage)
          (\<lambda>accept. Inr [(''Upgrade'', ''websocket''), (''Connection'', ''Upgrade''), (''Sec-WebSocket-Accept'', accept)]))"

definition rejectServerConnection :: "handshakeStatus \<Rightarrow> string + int \<times> (char list \<times> char list) list" where
  "rejectServerConnection status =
     require (httpStatusCode status \<noteq> 101) ''HttpWebSocketHandshake cannot reject an accepted request''
       (Inr (httpStatusCode status, (if httpStatusCode status = 426 then [(''Sec-WebSocket-Version'', ''13'')] else []) @
          [(''Content-Length'', ''0''), (''Connection'', ''close'')]))"

definition prepareClientRequest :: "char list \<Rightarrow> string + (char list \<times> char list) list" where
  "prepareClientRequest clientKey =
     attempt (validateClientKey clientKey)
       (\<lambda>_. Inr [(''Upgrade'', ''websocket''), (''Connection'', ''Upgrade''),
         (''Sec-WebSocket-Key'', clientKey), (''Sec-WebSocket-Version'', ''13'')])"

end
