(* ===== verification/HttpWebSocketHandshakeProps.thy ===== *)
theory HttpWebSocketHandshakeProps
  imports HttpWebSocketHandshake Cursors
begin

text \<open>
  The opening handshake: base 64 decodes what it encodes, a client and a server that follow it
  agree, and the places where the two sides' checks are not the same.
\<close>

section \<open>Base 64\<close>

definition word24 :: "byte \<Rightarrow> byte \<Rightarrow> byte \<Rightarrow> u32" where
  "word24 a b c = push_bit 16 (ucast a) OR push_bit 8 (ucast b) OR ucast c"

definition quad :: "u32 \<Rightarrow> char list" where
  "quad n = [base64Char (drop_bit 18 n), base64Char (drop_bit 12 n), base64Char (drop_bit 6 n), base64Char n]"

text \<open>The encoder by groups, before and after the padding.\<close>

fun encodeGroups :: "byte list \<Rightarrow> char list" where
  "encodeGroups [] = []"
| "encodeGroups [a] = quad (word24 a 0 0)"
| "encodeGroups [a, b] = quad (word24 a b 0)"
| "encodeGroups (a # b # c # r) = quad (word24 a b c) @ encodeGroups r"

fun encodePadded :: "byte list \<Rightarrow> char list" where
  "encodePadded [] = []"
| "encodePadded [a] = take 2 (quad (word24 a 0 0)) @ ''==''"
| "encodePadded [a, b] = take 3 (quad (word24 a b 0)) @ ''=''"
| "encodePadded (a # b # c # r) = quad (word24 a b c) @ encodePadded r"

lemma length_quad [simp]: "length (quad n) = 4"
  by (simp add: quad_def)

lemma encodeLoop_groups: "i \<le> length data \<Longrightarrow> encodeLoop data i = encodeGroups (drop i data)"
proof (induction "length data - i" arbitrary: i rule: less_induct)
  case less
  consider (none) "i = length data" | (one) "i + 1 = length data" | (two) "i + 2 = length data" | (more) "i + 3 \<le> length data"
    using less.prems by linarith
  then show ?case
  proof cases
    case none
    then show ?thesis
      by (simp add: encodeLoop.simps)
  next
    case one
    then have "drop i data = [data ! i]"
      by (metis Cons_nth_drop_Suc Suc_eq_plus1 drop_all lessI order_refl)
    then show ?thesis
      using one by (simp add: encodeLoop.simps [of data i] encodeLoop.simps [of data "length data"] quad_def word24_def Let_def)
  next
    case two
    then have "drop i data = [data ! i, data ! (i + 1)]"
      by (simp add: Cons_nth_drop_Suc [symmetric])
    then show ?thesis
      using two by (simp add: encodeLoop.simps [of data i] encodeLoop.simps [of data "length data"] quad_def word24_def Let_def)
  next
    case more
    then have d: "drop i data = data ! i # data ! (i + 1) # data ! (i + 2) # drop (i + 3) data"
      by (simp add: Cons_nth_drop_Suc [symmetric] numeral_eq_Suc)
    have "encodeLoop data (i + 3) = encodeGroups (drop (i + 3) data)"
      using more by (intro less.hyps) simp_all
    then show ?thesis
      using more unfolding d
      by (simp add: encodeLoop.simps [of data i] quad_def word24_def Let_def numeral_eq_Suc)
  qed
qed

lemma groups_div: "(5 + n) div 3 = Suc (Suc (Suc n) div 3)"
  by presburger

lemma length_groups: "length (encodeGroups data) = ((length data + 2) div 3) * 4"
  by (induction data rule: encodeGroups.induct) (simp_all add: groups_div)

lemma pad_groups: "(if length data mod 3 = 1
      then (encodeGroups data)[length (encodeGroups data) - 2 := CHR ''='', length (encodeGroups data) - 1 := CHR ''='']
      else if length data mod 3 = 2 then (encodeGroups data)[length (encodeGroups data) - 1 := CHR ''='']
      else encodeGroups data) = encodePadded data"
proof (induction data rule: encodeGroups.induct)
  case (4 a b c r)
  have m: "length (a # b # c # r) mod 3 = length r mod 3"
    by simp
  have ne: "length r mod 3 \<noteq> 0 \<Longrightarrow> encodeGroups r \<noteq> [] \<and> length (encodeGroups r) \<ge> 4"
    unfolding length_0_conv [symmetric] length_groups by (cases r) auto
  then show ?case
    using 4 ne unfolding m by (cases "length r mod 3 = 1"; cases "length r mod 3 = 2") (simp_all add: list_update_append)
qed (simp_all add: quad_def)

lemma base64Encode_value:
  "base64Encode data storage = require (storage \<ge> ((length data + 2) div 3) * 4)
     ''HttpWebSocketHandshake base64 output too small'' (Inr (encodePadded data))"
  unfolding base64Encode_def Let_def encodeLoop_groups [OF le0] drop_0 pad_groups [symmetric] length_groups by simp

lemma length_encodePadded: "length (encodePadded data) = ((length data + 2) div 3) * 4"
  by (induction data rule: encodePadded.induct) (simp_all add: quad_def groups_div)

section \<open>Decoding\<close>

lemma base64_table: "map base64Value BASE64 = map int [0..<64]" "CHR ''='' \<notin> set BASE64" "length BASE64 = 64"
  by (simp_all add: BASE64_def base64Value_def code_def upt_conv_Cons)

lemma base64_nth: "k < 64 \<Longrightarrow> base64Value (BASE64 ! k) = int k \<and> BASE64 ! k \<noteq> CHR ''=''"
proof -
  assume k: "k < 64"
  then have "BASE64 ! k \<in> set BASE64"
    using base64_table(3) by simp
  then have "BASE64 ! k \<noteq> CHR ''=''"
    using base64_table(2) by metis
  then show ?thesis
    using k arg_cong [OF base64_table(1), of "\<lambda>xs. xs ! k"] base64_table(3) by simp
qed

lemma base64Char_value:
  "base64Value (base64Char x) = int (unat (x AND 0x3F))" "base64Char x \<noteq> CHR ''=''"
proof -
  have "unat (x AND 0x3F) < 64"
    using word_and_le1 [of x "0x3F"] by (simp add: word_le_nat_alt)
  then show "base64Value (base64Char x) = int (unat (x AND 0x3F))" "base64Char x \<noteq> CHR ''=''"
    using base64_nth by (simp_all add: base64Char_def)
qed

text \<open>The sextets of a 24 bit number put it together again, and give back its bytes.\<close>

abbreviation sextet :: "nat \<Rightarrow> u32 \<Rightarrow> int" where
  "sextet k n \<equiv> int (unat (drop_bit k n AND 0x3F))"

lemma bits_0x3F: "(0x3F :: u32) = mask 6"
  by (simp add: mask_eq_exp_minus_1)

lemma bits_0xFF: "(0xFF :: u32) = mask 8"
  by (simp add: mask_eq_exp_minus_1)

lemma bit_word24: "bit (word24 a b c) n \<longleftrightarrow>
    (if n < 8 then bit c n else if n < 16 then bit b (n - 8) else n < 24 \<and> bit a (n - 16))"
  by (auto simp: word24_def bit_simps dest: bit_imp_le_length)

lemma combine_words: "combine [int (unat w), int (unat x), int (unat y), int (unat z)] =
    push_bit 18 w OR push_bit 12 x OR push_bit 6 y OR z"
  by (simp add: combine_def)

lemma combine_sextets: "combine [sextet 18 (word24 a b c), sextet 12 (word24 a b c), sextet 6 (word24 a b c), sextet 0 (word24 a b c)]
    = word24 a b c"
  unfolding combine_words bits_0x3F
proof (rule bit_word_eqI)
  fix n
  assume n: "n < LENGTH(32)"
  show "bit (push_bit 18 (drop_bit 18 (word24 a b c) AND mask 6) OR push_bit 12 (drop_bit 12 (word24 a b c) AND mask 6) OR
      push_bit 6 (drop_bit 6 (word24 a b c) AND mask 6) OR (drop_bit 0 (word24 a b c) AND mask 6)) n = bit (word24 a b c) n"
    using n by (cases "n < 6"; cases "n < 12"; cases "n < 18"; cases "n < 24") (auto simp: bit_simps bit_word24)
qed

lemma word24_bytes:
  "ucast (drop_bit 16 (word24 a b c) AND 0xFF) = a" "ucast (drop_bit 8 (word24 a b c) AND 0xFF) = b"
  "ucast (word24 a b c AND 0xFF) = c"
  unfolding bits_0xFF by (rule bit_word_eqI; auto simp: bit_simps bit_word24)+

lemma word24_zero: "sextet 0 (word24 a b 0) = 0" "sextet 6 (word24 a 0 0) = 0"
proof -
  have "word24 a b 0 AND 0x3F = 0" "drop_bit 6 (word24 a 0 0) AND 0x3F = 0"
    unfolding bits_0x3F by (rule bit_word_eqI; auto simp: bit_simps bit_word24)+
  then show "sextet 0 (word24 a b 0) = 0" "sextet 6 (word24 a 0 0) = 0"
    by simp_all
qed

text \<open>Decoding a block at the end of what has been read.\<close>

lemma quad_values: "base64Value (base64Char (drop_bit k n)) = sextet k n" "base64Value (base64Char n) = sextet 0 n"
  using base64Char_value(1) [of "drop_bit k n"] base64Char_value(1) [of n] by simp_all

lemma decodeQuad_full: "decodeQuad len pos 0 (quad n) = Inr ([sextet 18 n, sextet 12 n, sextet 6 n, sextet 0 n], 0)"
  by (simp add: quad_def base64Char_value(2) quad_values)

lemma decodeQuad_two: "int len - 2 \<le> int (pos + 2) \<Longrightarrow>
    decodeQuad len pos 0 (take 2 (quad n) @ ''=='') = Inr ([sextet 18 n, sextet 12 n, 0, 0], 2)"
  by (simp add: quad_def base64Char_value(2) quad_values)

lemma decodeQuad_three: "int len - 2 \<le> int (pos + 3) \<Longrightarrow>
    decodeQuad len pos 0 (take 3 (quad n) @ ''='') = Inr ([sextet 18 n, sextet 12 n, sextet 6 n, 0], 1)"
  by (simp add: quad_def base64Char_value(2) quad_values)

lemma decodeLoop_block:
  assumes "length blk = 4" and "decodeQuad (length (pre @ blk @ rest)) (length pre) 0 blk = Inr (sx, p)" and "p \<le> 3"
    and "length dec + (3 - p) \<le> out"
  shows "decodeLoop64 (pre @ blk @ rest) (length pre) out dec =
    decodeLoop64 ((pre @ blk) @ rest) (length (pre @ blk)) out (dec @ take (3 - p)
      [ucast (drop_bit 16 (combine sx) AND 0xFF), ucast (drop_bit 8 (combine sx) AND 0xFF), ucast (combine sx AND 0xFF)])"
  using assms by (simp add: decodeLoop64.simps [of "pre @ blk @ rest" "length pre"] Let_def)

lemma decodeLoop_last:
  assumes "length blk = 4" and "decodeQuad (length pre + 4) (length pre) 0 blk = Inr (sx, p)" and "p \<le> 3"
    and "length dec + (3 - p) \<le> out"
  shows "decodeLoop64 (pre @ blk) (length pre) out dec = Inr (dec @ take (3 - p)
      [ucast (drop_bit 16 (combine sx) AND 0xFF), ucast (drop_bit 8 (combine sx) AND 0xFF), ucast (combine sx AND 0xFF)])"
  using decodeLoop_block [of blk pre "[]" sx p dec out] assms by (simp add: decodeLoop64.simps [of "pre @ blk" "length pre + 4"])

lemma decodeLoop_padded: "length dec + length data \<le> out \<Longrightarrow>
    decodeLoop64 (pre @ encodePadded data) (length pre) out dec = Inr (dec @ data)"
proof (induction data arbitrary: pre dec rule: encodePadded.induct)
  case 1
  then show ?case
    by (simp add: decodeLoop64.simps)
next
  case (2 a)
  have s: "combine [sextet 18 (word24 a 0 0), sextet 12 (word24 a 0 0), 0, 0] = word24 a 0 0"
    using combine_sextets [of a 0 0] unfolding word24_zero .
  have "decodeQuad (length pre + 4) (length pre) 0 (take 2 (quad (word24 a 0 0)) @ ''=='') =
      Inr ([sextet 18 (word24 a 0 0), sextet 12 (word24 a 0 0), 0, 0], 2)"
    by (rule decodeQuad_two) simp
  from decodeLoop_last [OF _ this, of dec out] show ?case
    using 2 by (simp only: encodePadded.simps s word24_bytes) simp
next
  case (3 a b)
  have s: "combine [sextet 18 (word24 a b 0), sextet 12 (word24 a b 0), sextet 6 (word24 a b 0), 0] = word24 a b 0"
    using combine_sextets [of a b 0] unfolding word24_zero .
  have "decodeQuad (length pre + 4) (length pre) 0 (take 3 (quad (word24 a b 0)) @ ''='') =
      Inr ([sextet 18 (word24 a b 0), sextet 12 (word24 a b 0), sextet 6 (word24 a b 0), 0], 1)"
    by (rule decodeQuad_three) simp
  from decodeLoop_last [OF _ this, of dec out] show ?case
    using 3 by (simp only: encodePadded.simps s word24_bytes) simp
next
  case (4 a b c r)
  have "decodeLoop64 (pre @ quad (word24 a b c) @ encodePadded r) (length pre) out dec =
      decodeLoop64 ((pre @ quad (word24 a b c)) @ encodePadded r) (length (pre @ quad (word24 a b c))) out (dec @ [a, b, c])"
    using decodeLoop_block [of "quad (word24 a b c)" pre "encodePadded r" _ 0 dec out,
        OF _ decodeQuad_full, unfolded combine_sextets word24_bytes] 4(2)
    by simp
  then show ?case
    using 4(1) [of "dec @ [a, b, c]" "pre @ quad (word24 a b c)"] 4(2) by simp
qed

lemma base64_decode_encode: "length data \<le> out \<Longrightarrow> base64Decode (encodePadded data) out = Inr data"
  using decodeLoop_padded [of "[]" data out "[]"] by (simp add: base64Decode_def length_encodePadded)

section \<open>Properties\<close>

text \<open>
  Base 64 decodes what it encodes, for data of any length including the padded ends; the text has
  four characters for every three bytes begun.
\<close>

theorem base64_roundtrip:
  assumes "base64Encode data storage = Inr s" and "length data \<le> out"
  shows "base64Decode s out = Inr data \<and> length s = ((length data + 2) div 3) * 4 \<and> length s \<le> storage"
  using assms base64_decode_encode [OF assms(2)] by (auto simp: base64Encode_value require_Inr length_encodePadded)

theorem base64_roundtrip_witness:
  "\<exists>s. base64Encode [77, 97, 110, 33] 8 = Inr s \<and> base64Decode s 16 = Inr [77, 97, 110, 33] \<and> length s = 8"
proof -
  obtain s where s: "base64Encode [77, 97, 110, 33] 8 = Inr s"
    by (simp add: base64Encode_value)
  then show ?thesis
    using base64_roundtrip [OF s, of 16] by simp
qed

lemma encodePadded_chars: "c \<in> set (encodePadded data) \<Longrightarrow> c \<in> set BASE64 \<or> c = CHR ''=''"
proof -
  have mem: "base64Char x \<in> set BASE64" for x
  proof -
    have "unat (x AND 0x3F) < 64"
      using word_and_le1 [of x "0x3F"] by (simp add: word_le_nat_alt)
    then show ?thesis
      unfolding base64Char_def by (intro nth_mem) (simp add: base64_table(3))
  qed
  show "c \<in> set (encodePadded data) \<Longrightarrow> c \<in> set BASE64 \<or> c = CHR ''=''"
    by (induction data rule: encodePadded.induct) (auto simp: quad_def mem)
qed

lemma base64_no_space: "c \<in> set (encodePadded data) \<Longrightarrow> \<not> isSpace c"
proof -
  have "\<forall>c \<in> set BASE64. \<not> isSpace c"
    by (simp add: BASE64_def isSpace_def)
  then show "c \<in> set (encodePadded data) \<Longrightarrow> \<not> isSpace c"
    using encodePadded_chars [of c data] by (auto simp: isSpace_def)
qed

lemma dropWhile_none: "(\<And>c. c \<in> set s \<Longrightarrow> \<not> P c) \<Longrightarrow> dropWhile P s = s"
  by (cases s) auto

lemma trim_none: "(\<And>c. c \<in> set s \<Longrightarrow> \<not> isSpace c) \<Longrightarrow> ws_trim s = s"
  using dropWhile_none [of s isSpace] dropWhile_none [of "rev s" isSpace] by (simp add: ws_trim_def)

lemma key_valid:
  assumes "length nonce = 16"
  shows "validateClientKey (encodePadded nonce) = Inr ()"
  using assms base64_decode_encode [of nonce 16] by (simp add: validateClientKey_def length_encodePadded)

lemma upgrade_token: "headerContainsToken ''Upgrade'' ''Upgrade''"
  by (simp add: headerContainsToken_def ws_trim_def isSpace_def equalsIgnoreCase_iff)

lemma fixed_headers: "equalsIgnoreCase (ws_trim ''websocket'') ''websocket''" "equalsIgnoreCase (ws_trim ''13'') ''13''"
  "equalsIgnoreCase ''HTTP/1.1'' ''HTTP/1.1''"
  by (simp_all add: ws_trim_def isSpace_def equalsIgnoreCase_iff)

text \<open>
  C33: A handshake between this client and this server completes, whatever the 16 random bytes are: the
  key the client creates is valid, the server accepts the request made of the client's headers, and
  the client accepts the response made of the server's headers.
\<close>

theorem handshake_completes:
  assumes "length nonce = 16" and "\<And>x. \<exists>d. sha1 x = Inr d \<and> length d = 20"
  shows "\<exists>key request answer. createClientKey nonce 24 = Inr key \<and> prepareClientRequest key = Inr request \<and>
    validateServerRequest (requestView_of HttpGET ''HTTP/1.1'' (map_of request)) = Accepted \<and>
    acceptServerConnection sha1 (requestView_of HttpGET ''HTTP/1.1'' (map_of request)) 28 = Inr answer \<and>
    validateClientResponse sha1 (responseView_of 101 (map_of answer)) key = Inr ()"
proof -
  let ?key = "encodePadded nonce"
  obtain d where d: "sha1 (bytes_of ?key @ bytes_of GUID) = Inr d" "length d = 20"
    using assms(2) by blast
  have trims: "ws_trim ?key = ?key" "ws_trim (encodePadded d) = encodePadded d"
    using base64_no_space by (auto intro: trim_none)
  have key: "createClientKey nonce 24 = Inr ?key"
    using assms(1) by (simp add: createClientKey_def base64Encode_value)
  have accept: "computeAccept sha1 ?key 28 = Inr (encodePadded d)"
    using d by (simp add: computeAccept_def key_valid [OF assms(1)] base64Encode_value)
  let ?q = "[(''Upgrade'', ''websocket''), (''Connection'', ''Upgrade''), (''Sec-WebSocket-Key'', ?key), (''Sec-WebSocket-Version'', ''13'')]"
  let ?view = "requestView_of HttpGET ''HTTP/1.1'' (map_of ?q)"
  have fields: "q_upgrade ?view = ''websocket''" "q_connection ?view = ''Upgrade''" "secWebSocketKey ?view = ?key"
    "secWebSocketVersion ?view = ''13''" "q_method ?view = HttpGET" "q_version ?view = ''HTTP/1.1''"
    by (simp_all add: requestView_of_def Let_def)
  have request: "prepareClientRequest ?key = Inr ?q"
    by (simp add: prepareClientRequest_def key_valid [OF assms(1)])
  have valid: "validateServerRequest ?view = Accepted"
    unfolding validateServerRequest_def fields using fixed_headers upgrade_token trims key_valid [OF assms(1)] by simp
  let ?a = "[(''Upgrade'', ''websocket''), (''Connection'', ''Upgrade''), (''Sec-WebSocket-Accept'', encodePadded d)]"
  have answer: "acceptServerConnection sha1 ?view 28 = Inr ?a"
    unfolding acceptServerConnection_def valid fields accept by simp
  have afields: "p_upgrade (responseView_of 101 (map_of ?a)) = ''websocket''" "p_connection (responseView_of 101 (map_of ?a)) = ''Upgrade''"
    "secWebSocketAccept (responseView_of 101 (map_of ?a)) = encodePadded d" "p_statusCode (responseView_of 101 (map_of ?a)) = 101"
    by (simp_all add: responseView_of_def Let_def)
  have "validateClientResponse sha1 (responseView_of 101 (map_of ?a)) ?key = Inr ()"
    unfolding validateClientResponse_def afields accept using fixed_headers upgrade_token trims by (simp add: equalsIgnoreCase_iff)
  then show ?thesis
    using key request valid answer by blast
qed

text \<open>A hash that a witness can compute.\<close>

definition constantHash :: "byte list \<Rightarrow> string + byte list" where
  "constantHash x = Inr (replicate 20 (of_nat (length x)))"

theorem handshake_completes_witness:
  "\<exists>key request answer. createClientKey (replicate 16 7) 24 = Inr key \<and> prepareClientRequest key = Inr request \<and>
    validateServerRequest (requestView_of HttpGET ''HTTP/1.1'' (map_of request)) = Accepted \<and>
    acceptServerConnection constantHash (requestView_of HttpGET ''HTTP/1.1'' (map_of request)) 28 = Inr answer \<and>
    validateClientResponse constantHash (responseView_of 101 (map_of answer)) key = Inr ()"
  by (rule handshake_completes) (simp_all add: constantHash_def)

lemma tokenLoop_part: "CHR '','' \<notin> set p \<Longrightarrow> tokenLoop tok q p = equalsIgnoreCase (ws_trim (q @ p)) tok"
  by (induction p arbitrary: q) auto

lemma tokenLoop_comma: "CHR '','' \<notin> set p \<Longrightarrow>
    tokenLoop tok q (p @ CHR '','' # rest) = (equalsIgnoreCase (ws_trim (q @ p)) tok \<or> tokenLoop tok [] rest)"
  by (induction p arbitrary: q) auto

lemma tokenLoop_join: "ps \<noteq> [] \<Longrightarrow> \<forall>p \<in> set ps. CHR '','' \<notin> set p \<Longrightarrow>
    tokenLoop tok [] (join (CHR '','') ps) = (\<exists>p \<in> set ps. equalsIgnoreCase (ws_trim p) tok)"
  by (induction "CHR '',''" ps rule: join.induct) (auto simp: tokenLoop_part tokenLoop_comma)

text \<open>
  A header value contains a token exactly if one of its comma separated parts, without the spaces
  around it, equals the token up to case.
\<close>

theorem headerContainsToken_parts:
  assumes "ps \<noteq> []" and "\<forall>p \<in> set ps. CHR '','' \<notin> set p"
  shows "headerContainsToken (join (CHR '','') ps) tok \<longleftrightarrow> (\<exists>p \<in> set ps. map tolower (ws_trim p) = map tolower tok)"
  using tokenLoop_join [OF assms] by (simp add: headerContainsToken_def equalsIgnoreCase_iff)

theorem headerContainsToken_parts_witness:
  "headerContainsToken ''keep-alive, upgrade'' ''Upgrade''"
proof -
  have "map tolower (ws_trim '' upgrade'') = map tolower ''Upgrade''"
    by code_simp
  then show ?thesis
    using headerContainsToken_parts [of "[''keep-alive'', '' upgrade'']" "''Upgrade''"] by simp
qed

text \<open>
  The client accepts an accept value whose letters have another case than the expected one,
  although base 64 texts that differ in case encode different digests.
\<close>

theorem accept_case_ignored:
  assumes "validateClientResponse sha1 p key = Inr ()" and "map tolower (ws_trim a) = map tolower (ws_trim (secWebSocketAccept p))"
  shows "validateClientResponse sha1 (p\<lparr>secWebSocketAccept := a\<rparr>) key = Inr ()"
  using assms by (simp add: validateClientResponse_def require_Inr attempt_Inr equalsIgnoreCase_iff)

theorem accept_case_ignored_witness:
  "validateClientResponse constantHash \<lparr>p_statusCode = 101, p_upgrade = ''websocket'', p_connection = ''Upgrade'',
     secWebSocketAccept = ''pdw8pdw8pdw8pdw8pdw8pdw8pdw=''\<rparr> (encodePadded (replicate 16 7)) = Inr ()"
proof -
  let ?p = "\<lparr>p_statusCode = 101, p_upgrade = ''websocket'', p_connection = ''Upgrade'',
     secWebSocketAccept = ''PDw8PDw8PDw8PDw8PDw8PDw8PDw=''\<rparr>"
  have r: "replicate 20 x = [x, x, x, x, x, x, x, x, x, x, x, x, x, x, x, x, x, x, x, x]" for x :: byte
    by (simp add: numeral_eq_Suc)
  have d: "encodePadded (replicate 20 60) = ''PDw8PDw8PDw8PDw8PDw8PDw8PDw=''"
    by (simp add: r quad_def word24_def base64Char_def BASE64_def)
  have e: "equalsIgnoreCase (ws_trim ''PDw8PDw8PDw8PDw8PDw8PDw8PDw='') ''PDw8PDw8PDw8PDw8PDw8PDw8PDw=''"
    by (simp add: ws_trim_def isSpace_def equalsIgnoreCase_iff)
  have "validateClientResponse constantHash ?p (encodePadded (replicate 16 7)) = Inr ()"
    unfolding validateClientResponse_def
    using fixed_headers upgrade_token d e
    by (simp add: computeAccept_def key_valid constantHash_def base64Encode_value bytes_of_def length_encodePadded GUID_def)
  moreover have "map tolower (ws_trim ''pdw8pdw8pdw8pdw8pdw8pdw8pdw='') = map tolower (ws_trim ''PDw8PDw8PDw8PDw8PDw8PDw8PDw='')"
    by code_simp
  ultimately show ?thesis
    using accept_case_ignored [of constantHash ?p "encodePadded (replicate 16 7)" "''pdw8pdw8pdw8pdw8pdw8pdw8pdw=''"] by simp
qed

lemma server_request_valid_key:
  "validateServerRequest q = Accepted \<Longrightarrow> validateClientKey (ws_trim (secWebSocketKey q)) = Inr ()"
  by (simp add: validateServerRequest_def split: if_splits)

text \<open>
  A request the server finds acceptable is refused afterwards if its key has spaces around it:
  the check trims the key, the computation of the accept value does not.
\<close>

theorem padded_key_refused:
  assumes "validateServerRequest q = Accepted" and "length (ws_trim (secWebSocketKey q)) \<noteq> length (secWebSocketKey q)"
  shows "acceptServerConnection sha1 q storage = Inl ''HttpWebSocketHandshake Sec-WebSocket-Key length invalid''"
proof -
  have "length (ws_trim (secWebSocketKey q)) = 24"
    using server_request_valid_key [OF assms(1)] by (simp add: validateClientKey_def require_Inr)
  then have "length (secWebSocketKey q) \<noteq> 24"
    using assms(2) by simp
  then show ?thesis
    using assms(1) by (simp add: acceptServerConnection_def computeAccept_def validateClientKey_def)
qed

theorem padded_key_refused_witness:
  "acceptServerConnection constantHash \<lparr>q_method = HttpGET, q_version = ''HTTP/1.1'', q_upgrade = ''websocket'',
     q_connection = ''Upgrade'', secWebSocketKey = encodePadded (replicate 16 7) @ '' '', secWebSocketVersion = ''13''\<rparr> 28 =
   Inl ''HttpWebSocketHandshake Sec-WebSocket-Key length invalid''"
proof -
  let ?k = "encodePadded (replicate 16 7)"
  have "dropWhile isSpace (?k @ '' '') = ?k @ '' ''"
    using base64_no_space [of _ "replicate 16 7"] length_encodePadded [of "replicate 16 7"] by (cases ?k) auto
  moreover have "dropWhile isSpace (rev ?k) = rev ?k"
    using base64_no_space [of _ "replicate 16 7"] by (intro dropWhile_none) auto
  ultimately have t: "ws_trim (?k @ '' '') = ?k"
    by (simp add: ws_trim_def isSpace_def)
  show ?thesis
    by (rule padded_key_refused)
      (use t fixed_headers upgrade_token key_valid [of "replicate 16 7"] in \<open>simp_all add: validateServerRequest_def\<close>)
qed

end
