(* ===== verification/HttpWebSocketHub.thy ===== *)
theory HttpWebSocketHub
  imports HttpWebSocketEndpointProps
begin

text \<open>
  \<open>Libraries/Http/HttpWebSocket.cpp\<close>, \<open>HttpWebSocketSmallHub\<close>: a fixed number of client slots and
  the broadcast of one encoded frame to all that are taken. A transport is any value; \<open>valid\<close> is its
  \<open>isValid\<close>. \<open>deliver\<close> is what sends the bytes to one client: the \<open>onBroadcastFrame\<close> callback when it
  is installed, else the write to the client's stream.
\<close>

record 't hubClient =
  transport :: "'t option"
  active :: bool

record 't hub =
  clients :: "'t hubClient list"
  numClients :: nat

definition client_reset :: "'t hubClient" where
  "client_reset = \<lparr>transport = None, active = False\<rparr>"

definition hub_init :: "'t hubClient list \<Rightarrow> 't hub" where
  "hub_init clientStorage = \<lparr>clients = map (\<lambda>_. client_reset) clientStorage, numClients = 0\<rparr>"

text \<open>The loop of \<open>join\<close> from slot \<open>idx\<close> on.\<close>

fun joinLoop :: "nat \<Rightarrow> 't hubClient list \<Rightarrow> nat option" where
  "joinLoop idx [] = None"
| "joinLoop idx (c # cs) = (if \<not> active c then Some idx else joinLoop (idx + 1) cs)"

definition hub_join :: "('t \<Rightarrow> bool) \<Rightarrow> 't \<Rightarrow> 't hub \<Rightarrow> 't hub \<times> (string + nat)" where
  "hub_join valid t h =
     (if \<not> valid t then (h, Inl ''HttpWebSocketSmallHub transport is invalid'')
      else (case joinLoop 0 (clients h) of
              Some idx \<Rightarrow> (h\<lparr>clients := (clients h)[idx := \<lparr>transport = Some t, active = True\<rparr>],
                             numClients := numClients h + 1\<rparr>, Inr idx)
            | None \<Rightarrow> (h, Inl ''HttpWebSocketSmallHub is full'')))"

definition hub_leave :: "nat \<Rightarrow> 't hub \<Rightarrow> 't hub \<times> (string + unit)" where
  "hub_leave i h =
     (if \<not> i < length (clients h) then (h, Inl ''HttpWebSocketSmallHub client index out of range'')
      else if active (clients h ! i)
      then (h\<lparr>clients := (clients h)[i := client_reset], numClients := numClients h - 1\<rparr>, Inr ())
      else (h, Inr ()))"

definition isClientActive :: "nat \<Rightarrow> 't hub \<Rightarrow> bool" where
  "isClientActive i h \<longleftrightarrow> i < length (clients h) \<and> active (clients h ! i)"

text \<open>The loop of \<open>broadcastFrame\<close> from slot \<open>idx\<close> on, over the state of \<open>deliver\<close>.\<close>

fun broadcastLoop :: "('s \<Rightarrow> nat \<Rightarrow> 't option \<Rightarrow> byte list \<Rightarrow> string + 's) \<Rightarrow> byte list \<Rightarrow> nat \<Rightarrow> 't hubClient list \<Rightarrow> 's \<Rightarrow> string + 's" where
  "broadcastLoop deliver frame idx [] s = Inr s"
| "broadcastLoop deliver frame idx (c # cs) s =
     (if \<not> active c then broadcastLoop deliver frame (idx + 1) cs s
      else attempt (deliver s idx (transport c) frame) (broadcastLoop deliver frame (idx + 1) cs))"

definition broadcastFrame :: "('s \<Rightarrow> nat \<Rightarrow> 't option \<Rightarrow> byte list \<Rightarrow> string + 's) \<Rightarrow> byte list \<Rightarrow> 't hub \<Rightarrow> 's \<Rightarrow> string + 's" where
  "broadcastFrame deliver encodedFrame h s =
     require (encodedFrame \<noteq> []) ''HttpWebSocketSmallHub cannot broadcast an empty frame''
       (broadcastLoop deliver encodedFrame 0 (clients h) s)"

text \<open>The frame is encoded once, by a server endpoint made for it.\<close>

definition broadcastText :: "('s \<Rightarrow> nat \<Rightarrow> 't option \<Rightarrow> byte list \<Rightarrow> string + 's) \<Rightarrow> byte list \<Rightarrow> nat \<Rightarrow> 't hub \<Rightarrow> 's \<Rightarrow> string + 's" where
  "broadcastText deliver payload frameStorage h s =
     attempt (snd (sendData OpText payload True None frameStorage (snd (endpoint_reset Server (replicate 125 0) ()))))
       (\<lambda>encodedFrame. broadcastFrame deliver encodedFrame h s)"

section \<open>Slots\<close>

definition hub_ok :: "'t hub \<Rightarrow> bool" where
  "hub_ok h \<longleftrightarrow> numClients h = length (filter active (clients h)) \<and> (\<forall>c \<in> set (clients h). active c = (transport c \<noteq> None))"

lemma joinLoop_value: "joinLoop k cs = (if \<forall>c \<in> set cs. active c then None else Some (k + length (takeWhile active cs)))"
  by (induction k cs rule: joinLoop.induct) auto

lemma takeWhile_stop: "\<not> (\<forall>x \<in> set xs. P x) \<Longrightarrow>
    length (takeWhile P xs) < length xs \<and> \<not> P (xs ! length (takeWhile P xs))"
  by (induction xs) auto

lemma filter_update: "i < length cs \<Longrightarrow>
    length (filter P (cs[i := c])) + (if P (cs ! i) then 1 else 0) = length (filter P cs) + (if P c then 1 else 0)"
proof (induction cs arbitrary: i)
  case (Cons x cs)
  then show ?case
    by (cases i) auto
qed simp

lemma hub_init_ok: "hub_ok (hub_init cs)"
  by (auto simp: hub_ok_def hub_init_def client_reset_def filter_False)

lemma hub_join_ok: "hub_join valid t h = (h', res) \<Longrightarrow> hub_ok h \<Longrightarrow> hub_ok h'"
proof -
  assume j: "hub_join valid t h = (h', res)" and ok: "hub_ok h"
  show "hub_ok h'"
  proof (cases "valid t \<and> \<not> (\<forall>c \<in> set (clients h). active c)")
    case True
    let ?i = "length (takeWhile active (clients h))"
    have i: "?i < length (clients h)" "\<not> active (clients h ! ?i)"
      using True takeWhile_stop [of "clients h" active] by auto
    show ?thesis
      using j True ok i filter_update [OF i(1), where P = active and c = "\<lparr>transport = Some t, active = True\<rparr>"]
      by (auto simp: hub_join_def joinLoop_value hub_ok_def dest!: set_update_subset_insert [THEN subsetD])
  next
    case False
    then show ?thesis
      using j ok by (auto simp: hub_join_def joinLoop_value split: if_splits)
  qed
qed

lemma hub_leave_ok: "hub_leave i h = (h', res) \<Longrightarrow> hub_ok h \<Longrightarrow> hub_ok h'"
  using filter_update [where i = i and cs = "clients h" and P = active and c = client_reset]
  by (auto simp: hub_leave_def hub_ok_def client_reset_def dest!: set_update_subset_insert [THEN subsetD] split: if_splits)

text \<open>The joins and leaves of an application, from \<open>init\<close> on.\<close>

inductive hub_reachable :: "('t \<Rightarrow> bool) \<Rightarrow> 't hub \<Rightarrow> bool" for valid :: "'t \<Rightarrow> bool" where
  init: "hub_reachable valid (hub_init cs)"
| joined: "hub_reachable valid h \<Longrightarrow> hub_join valid t h = (h', res) \<Longrightarrow> hub_reachable valid h'"
| left: "hub_reachable valid h \<Longrightarrow> hub_leave i h = (h', res) \<Longrightarrow> hub_reachable valid h'"

lemma hub_reachable_ok: "hub_reachable valid h \<Longrightarrow> hub_ok h"
  by (induction rule: hub_reachable.induct) (auto intro: hub_init_ok hub_join_ok hub_leave_ok)

text \<open>The clients a broadcast reaches, in the order it does, and the sending to one after the other.\<close>

definition members :: "nat \<Rightarrow> 't hubClient list \<Rightarrow> (nat \<times> 't option) list" where
  "members k cs = map (\<lambda>(i, c). (i, transport c)) (filter (\<lambda>(i, c). active c) (enumerate k cs))"

primrec sendToAll :: "('s \<Rightarrow> nat \<Rightarrow> 't option \<Rightarrow> byte list \<Rightarrow> string + 's) \<Rightarrow> byte list \<Rightarrow> (nat \<times> 't option) list \<Rightarrow> 's \<Rightarrow> string + 's" where
  "sendToAll deliver frame [] s = Inr s"
| "sendToAll deliver frame (m # ms) s = attempt (deliver s (fst m) (snd m) frame) (sendToAll deliver frame ms)"

lemma broadcastLoop_members: "broadcastLoop deliver frame k cs s = sendToAll deliver frame (members k cs) s"
proof (induction cs arbitrary: k s)
  case (Cons c cs)
  have "broadcastLoop deliver frame (k + 1) cs = sendToAll deliver frame (members (k + 1) cs)"
    using Cons by (intro ext) simp
  then show ?case
    by (simp add: members_def)
qed (simp add: members_def)

section \<open>Properties\<close>

text \<open>
  However clients join and leave, the hub's count is the number of taken slots, which never
  exceeds the capacity, a slot has a transport exactly while it is taken, and a join succeeds exactly
  when a slot is free and takes the first free one.
\<close>

theorem hub_invariant:
  assumes "hub_reachable valid h"
  shows "numClients h = length (filter active (clients h)) \<and> numClients h \<le> length (clients h) \<and>
    (\<forall>c \<in> set (clients h). active c = (transport c \<noteq> None)) \<and>
    (valid t \<longrightarrow> snd (hub_join valid t h) = (if numClients h = length (clients h) then Inl ''HttpWebSocketSmallHub is full''
       else Inr (length (takeWhile active (clients h)))))"
proof -
  have ok: "hub_ok h"
    using assms by (rule hub_reachable_ok)
  have "length (filter active (clients h)) = length (clients h) \<longleftrightarrow> (\<forall>c \<in> set (clients h). active c)"
    by (metis filter_id_conv length_filter_less order_less_irrefl filter_True)
  then show ?thesis
    using ok by (auto simp: hub_ok_def hub_join_def joinLoop_value)
qed

theorem hub_invariant_witness:
  "\<exists>h. hub_leave 0 (fst (hub_join (\<lambda>t. True) (7 :: nat) (hub_init [client_reset, client_reset]))) = (h, Inr ()) \<and>
    numClients h = length (filter active (clients h)) \<and> snd (hub_join (\<lambda>t. True) 8 h) = Inr 0"
proof -
  let ?h = "fst (hub_join (\<lambda>t. True) (7 :: nat) (hub_init [client_reset, client_reset]))"
  obtain h where h: "hub_leave 0 ?h = (h, Inr ())" "takeWhile active (clients h) = []" "numClients h \<noteq> length (clients h)"
    by (simp add: hub_leave_def hub_join_def hub_init_def client_reset_def)
  have "hub_reachable (\<lambda>t. True) ?h"
    by (rule hub_reachable.joined [OF hub_reachable.init]) (rule prod.collapse [symmetric])
  then have "hub_reachable (\<lambda>t. True) h"
    using h(1) by (rule hub_reachable.left)
  then show ?thesis
    using h hub_invariant [of "\<lambda>t. True" h 8] by auto
qed

text \<open>
  A broadcast text is encoded once, as one final unmasked frame that carries the payload as it is,
  and sent to the taken slots only, each once, in the order of the slots, until one of them fails.
\<close>

theorem hub_broadcast:
  assumes "length payload < 2 ^ 63" and "10 + length payload \<le> storage"
  shows "broadcastText deliver payload storage h s =
    sendToAll deliver (headerBytes (partFrame Server OpText True payload None) @ payload) (members 0 (clients h)) s"
proof -
  let ?f = "partFrame Server OpText True payload None"
  have w: "writable (writer_reset Server) ?f"
    by (simp add: writable_def writer_reset_def partFrame_def isSupportedOpcode_def requiresOutgoingMask_def
        isControlFrame_def opcode_defs word_le_nat_alt)
  have len: "unat (payloadLength ?f) = length payload"
    using of_nat_u64 [OF assms(1)] by (simp add: partFrame_def)
  have hb: "length (headerBytes ?f) = encodedLength ?f"
    by (rule length_headerBytes) (simp add: partFrame_def)
  have room: "encodedLength ?f + length payload \<le> storage"
    using assms(2) by (simp add: encodedLength_def partFrame_def)
  have header: "applyOutgoingMask Server None (empty_frame\<lparr>opcode := OpText, fin := True, payloadLength := of_nat (length payload)\<rparr>) = Inr ?f"
    by (simp add: applyOutgoingMask_Inr partFrame_def empty_frame_def)
  have "snd (sendData OpText payload True None storage (snd (endpoint_reset Server (replicate 125 0) ()))) =
      Inr (headerBytes ?f @ payload)"
    using encodeFrame_writable [OF w len room hb] len header
    by (simp add: sendData_def sendMasked_def endpoint_reset_def sendFrame_def partFrame_def wirePayload_def)
  then show ?thesis
    by (simp add: broadcastText_def broadcastFrame_def headerBytes_def broadcastLoop_members)
qed

theorem hub_broadcast_witness:
  "broadcastText (\<lambda>s i t frame. Inr (s @ [(i, t, length frame)])) [104, 105] 12
      \<lparr>clients = [\<lparr>transport = Some (7 :: nat), active = True\<rparr>, client_reset, \<lparr>transport = Some 9, active = True\<rparr>], numClients = 2\<rparr> [] =
    Inr [(0, Some 7, 4), (2, Some 9, 4)]"
  using hub_broadcast [of "[104, 105]" 12 "\<lambda>s i t frame. Inr (s @ [(i, t, length frame)])"
      "\<lparr>clients = [\<lparr>transport = Some (7 :: nat), active = True\<rparr>, client_reset, \<lparr>transport = Some 9, active = True\<rparr>], numClients = 2\<rparr>" "[]"]
  by (simp add: members_def client_reset_def headerBytes_def lengthBytes_def partFrame_def Let_def word_less_nat_alt)

end
