(* ===== verification/HttpMultipart.thy ===== *)
theory HttpMultipart
  imports Common
begin

text \<open>
  \<open>Libraries/Http/HttpMultipartParser.h\<close> and \<open>HttpMultipartParser.cpp\<close>: the incremental parser of
  multipart bodies and the views of a part's headers. Like the parser of message heads it is a
  nest of switch-based coroutines, and like there the model keeps the line numbers in which they
  resume: \<open>m_nestedCo p = 497\<close> resumes after line 497 of \<open>HttpMultipartParser.cpp\<close>.

  \<open>candidate\<close> is the filled part of \<open>boundaryBuffer\<close>; its length is \<open>boundaryCandidateLength\<close>.
  \<open>boundaryStorage\<close> keeps all its 71 bytes, because what a shorter boundary leaves of a longer one
  matters.
\<close>

section \<open>Part headers\<close>

definition isBlank :: "char \<Rightarrow> bool" where
  "isBlank c \<longleftrightarrow> c = CHR '' '' \<or> c = TAB"

definition m_trim :: "char list \<Rightarrow> char list" where
  "m_trim v = (let v1 = dropWhile isBlank v in rev (dropWhile isBlank (rev v1)))"

definition m_lower :: "char \<Rightarrow> char" where
  "m_lower c = (if code CHR ''A'' \<le> code c \<and> code c \<le> code CHR ''Z'' then char_of (code c + 32) else c)"

fun m_sameLowered :: "char list \<Rightarrow> char list \<Rightarrow> bool" where
  "m_sameLowered (a # as) (b # bs) = (if m_lower a \<noteq> m_lower b then False else m_sameLowered as bs)"
| "m_sameLowered _ _ = True"

definition m_equalsIgnoreCase :: "char list \<Rightarrow> char list \<Rightarrow> bool" where
  "m_equalsIgnoreCase l r = (if length l \<noteq> length r then False else m_sameLowered l r)"

definition unquote :: "char list \<Rightarrow> char list" where
  "unquote v =
     (if length v \<ge> 2 \<and> v ! 0 = CHR 0x22 \<and> v ! (length v - 1) = CHR 0x22
      then take (length v - 2) (drop 1 v) else v)"

definition isSafeFileName :: "char list \<Rightarrow> bool" where
  "isSafeFileName fileName =
     (if fileName = [] \<or> fileName = ''.'' \<or> fileName = ''..'' then False
      else list_all (\<lambda>c. \<not> (c = CHR ''/'' \<or> c = CHR 0x5C \<or> c = CHR '':'' \<or> code c < 0x20)) fileName)"

record contentDisposition =
  disposition :: "char list"
  d_name :: "char list"
  d_fileName :: "char list"
  hasName :: bool
  d_hasFileName :: bool

definition empty_disposition :: contentDisposition where
  "empty_disposition = \<lparr>disposition = [], d_name = [], d_fileName = [], hasName = False, d_hasFileName = False\<rparr>"

text \<open>One parameter of the header, between semicolons.\<close>

definition dispositionItem :: "char list \<Rightarrow> contentDisposition \<Rightarrow> contentDisposition" where
  "dispositionItem raw d =
     (let item = m_trim raw in
      if item = [] then d
      else case memchr (CHR ''='') item of
        None \<Rightarrow> d
      | Some equals \<Rightarrow>
          (let key = m_trim (take equals item); v = unquote (m_trim (drop (equals + 1) item)) in
           if m_equalsIgnoreCase key ''name'' then d\<lparr>d_name := v, hasName := True\<rparr>
           else if m_equalsIgnoreCase key ''filename'' then d\<lparr>d_fileName := v, d_hasFileName := True\<rparr>
           else d))"

text \<open>
  The second loop on what is left from \<open>cursor\<close> on. It starts on a semicolon, passes it and goes to
  the next one or to the end.
\<close>

function dispositionLoop :: "char list \<Rightarrow> contentDisposition \<Rightarrow> contentDisposition" where
  "dispositionLoop s d =
     (if s = [] then d
      else
        (let s1 = (if hd s = CHR '';'' then tl s else s);
             raw = takeWhile (\<lambda>c. c \<noteq> CHR '';'') s1 in
         dispositionLoop (drop (length raw) s1) (dispositionItem raw d)))"
  by pat_completeness auto
termination
proof (relation "measure (\<lambda>(s, d). length s)")
  fix s :: "char list" and d :: contentDisposition and x xa
  assume s: "s \<noteq> []" and x: "x = (if hd s = CHR '';'' then tl s else s)" "xa = takeWhile (\<lambda>c. c \<noteq> CHR '';'') x"
  then show "((drop (length xa) x, dispositionItem xa d), s, d) \<in> measure (\<lambda>(s, d). length s)"
    by (cases s) (auto simp: less_Suc_eq_le)
qed simp

declare dispositionLoop.simps [simp del]

text \<open>The view on success and the message of the error.\<close>

definition disposition_parse :: "char list \<Rightarrow> contentDisposition \<times> string option" where
  "disposition_parse headerValue =
     (let header = m_trim headerValue in
      if header = [] then (empty_disposition, Some ''Multipart Content-Disposition is empty'')
      else
        (let first = takeWhile (\<lambda>c. c \<noteq> CHR '';'') header;
             d = empty_disposition\<lparr>disposition := m_trim first\<rparr> in
         if disposition d = [] then (d, Some ''Multipart Content-Disposition disposition is empty'')
         else (dispositionLoop (drop (length first) header) d, None)))"

definition isFormData :: "contentDisposition \<Rightarrow> bool" where
  "isFormData d = m_equalsIgnoreCase (disposition d) ''form-data''"

record partHeaders =
  ph_contentDisposition :: "char list"
  ph_contentType :: "char list"
  ph_disposition :: contentDisposition

definition partHeaders_reset :: partHeaders where
  "partHeaders_reset = \<lparr>ph_contentDisposition = [], ph_contentType = [], ph_disposition = empty_disposition\<rparr>"

definition addHeader :: "char list \<Rightarrow> char list \<Rightarrow> partHeaders \<Rightarrow> partHeaders \<times> string option" where
  "addHeader name v p =
     (if m_equalsIgnoreCase name ''Content-Disposition'' then
        (case disposition_parse v of (d, e) \<Rightarrow> (p\<lparr>ph_contentDisposition := v, ph_disposition := d\<rparr>, e))
      else if m_equalsIgnoreCase name ''Content-Type'' then (p\<lparr>ph_contentType := v\<rparr>, None)
      else (p, None))"

definition isField :: "partHeaders \<Rightarrow> bool" where
  "isField p \<longleftrightarrow> isFormData (ph_disposition p) \<and> hasName (ph_disposition p) \<and> \<not> d_hasFileName (ph_disposition p)"

definition isFile :: "partHeaders \<Rightarrow> bool" where
  "isFile p \<longleftrightarrow> isFormData (ph_disposition p) \<and> hasName (ph_disposition p) \<and> d_hasFileName (ph_disposition p)"

definition hasSafeFileName :: "partHeaders \<Rightarrow> bool" where
  "hasSafeFileName p \<longleftrightarrow> d_hasFileName (ph_disposition p) \<and> isSafeFileName (d_fileName (ph_disposition p))"

definition isSafeFile :: "partHeaders \<Rightarrow> bool" where
  "isSafeFile p \<longleftrightarrow> isFile p \<and> hasSafeFileName p"

section \<open>The parser\<close>

datatype mState = MParsing | MResult | MFinished

datatype mToken = MHeaderName | MHeaderValue | MPartBody | MBoundary | MPartHeaderEnd | MFinishedToken

record multipart =
  boundaryStorage :: "char list"
  boundary :: "char list"
  candidate :: "char list"
  m_tokenStart :: nat
  m_tokenLength :: nat
  m_globalStart :: nat
  m_globalLength :: nat
  m_matchIndex :: nat
  m_topCo :: int
  m_nestedCo :: int
  boundaryMatchIndex :: nat
  emitBoundaryCandidate :: bool
  m_token :: mToken
  m_state :: mState

abbreviation NUL :: char where "NUL \<equiv> CHR 0x00"

definition new_multipart :: multipart where
  "new_multipart = \<lparr>boundaryStorage = replicate 71 NUL, boundary = [], candidate = [], m_tokenStart = 0,
     m_tokenLength = 0, m_globalStart = 0, m_globalLength = 0, m_matchIndex = 0, m_topCo = 0, m_nestedCo = 0,
     boundaryMatchIndex = 0, emitBoundaryCandidate = False, m_token = MBoundary, m_state = MParsing\<rparr>"

definition m_reset :: "multipart \<Rightarrow> multipart" where
  "m_reset p = p\<lparr>m_tokenStart := 0, m_tokenLength := 0, m_token := MBoundary, m_state := MParsing, m_globalStart := 0,
     m_globalLength := 0, m_topCo := 0, m_nestedCo := 0, m_matchIndex := 0, boundaryMatchIndex := 0, candidate := [],
     emitBoundaryCandidate := False\<rparr>"

text \<open>\<open>strncpy\<close>: the characters up to a NUL, padded with NUL to the count; the rest stays as it was.\<close>

definition strncpy :: "char list \<Rightarrow> char list \<Rightarrow> nat \<Rightarrow> char list" where
  "strncpy storage src n =
     (let s = takeWhile (\<lambda>c. c \<noteq> NUL) (take n src) in s @ replicate (n - length s) NUL @ drop n storage)"

definition initWithBoundary :: "char list \<Rightarrow> multipart \<Rightarrow> multipart \<times> bool" where
  "initWithBoundary boundaryValue p =
     (let storage = strncpy (boundaryStorage p) boundaryValue (min 70 (length boundaryValue));
          b = takeWhile (\<lambda>c. c \<noteq> NUL) storage in
      ((m_reset p)\<lparr>boundaryStorage := storage, boundary := b\<rparr>, length b = length boundaryValue))"

section \<open>Parser functions\<close>

text \<open>
  Each gets one character and returns the parser and the value of the function; a label is the
  value of \<open>nestedParserCoroutine\<close> it resumes from. Between two labels the code never loops
  without returning, so the entry points are plain definitions.
\<close>

definition m_co :: "int \<Rightarrow> multipart \<Rightarrow> multipart \<times> bool" where
  "m_co l p = (p\<lparr>m_nestedCo := l\<rparr>, True)"

text \<open>\<open>search_crlf\<close>, lines 517 to 522.\<close>

definition searchCrlf :: "multipart \<Rightarrow> char \<Rightarrow> multipart \<times> bool" where
  "searchCrlf p c = (if c \<noteq> CR then m_co 520 p else m_co 522 p)"

text \<open>The head of the outer loop, lines 491 to 517.\<close>

definition preambleTop :: "multipart \<Rightarrow> char \<Rightarrow> multipart \<times> bool" where
  "preambleTop p c =
     (if m_globalStart p = 0
      then (if c = CHR ''-'' then m_co 497 (p\<lparr>m_matchIndex := 0\<rparr>) else searchCrlf (p\<lparr>m_matchIndex := 0\<rparr>) c)
      else searchCrlf p c)"

text \<open>The loop test over the boundary; 550 is \<open>first_boundary_found\<close>.\<close>

definition matchMore :: "int \<Rightarrow> multipart \<Rightarrow> multipart \<times> bool" where
  "matchMore l p = (if m_matchIndex p < length (boundary p) then m_co l p else m_co 550 p)"

definition matchChar :: "int \<Rightarrow> multipart \<Rightarrow> char \<Rightarrow> multipart \<times> bool" where
  "matchChar l p c =
     (if c = boundary p ! m_matchIndex p then matchMore l (p\<lparr>m_matchIndex := m_matchIndex p + 1\<rparr>)
      else searchCrlf p c)"

definition parsePreamble :: "multipart \<Rightarrow> char \<Rightarrow> multipart \<times> bool" where
  "parsePreamble p c = (let co = m_nestedCo p in
     if co = 0 then preambleTop p c
     else if co = 497 then (if c = CHR ''-'' then matchMore 502 p else searchCrlf p c)
     else if co = 502 then matchChar 502 p c
     else if co = 520 then searchCrlf p c
     else if co = 522 then (if c \<noteq> LF then preambleTop p c else m_co 525 p)
     else if co = 525 then (if c \<noteq> CHR ''-'' then preambleTop p c else m_co 528 p)
     else if co = 528 then (if c \<noteq> CHR ''-'' then preambleTop p c else matchMore 535 (p\<lparr>m_matchIndex := 0\<rparr>))
     else if co = 535 then matchChar 535 p c
     else if co = 550 then
       (if c = CR then m_co 553 p else if c = CHR ''-'' then m_co 563 p else searchCrlf p c)
     else if co = 553 then
       (if c = LF then (p\<lparr>m_nestedCo := -1, m_state := MResult\<rparr>, True) else searchCrlf p c)
     else if co = 563 then
       (if c = CHR ''-'' then (p\<lparr>m_nestedCo := -1, m_state := MFinished\<rparr>, True) else searchCrlf p c)
     else (p, True))"

text \<open>\<open>parseBoundaryLine\<close> is defined in the code but \<open>parse\<close> does not use it.\<close>

definition lineStart :: "multipart \<Rightarrow> char \<Rightarrow> multipart \<times> bool" where
  "lineStart p c =
     (if c = CR then m_co 619 p else (p, False))"

definition lineBoundary :: "multipart \<Rightarrow> char \<Rightarrow> multipart \<times> bool" where
  "lineBoundary p c =
     (if m_matchIndex p < length (boundary p)
      then (if c = boundary p ! m_matchIndex p then m_co 608 (p\<lparr>m_matchIndex := m_matchIndex p + 1\<rparr>) else (p, False))
      else lineStart p c)"

definition lineDashes :: "multipart \<Rightarrow> char \<Rightarrow> multipart \<times> bool" where
  "lineDashes p c =
     (if m_matchIndex p < 2
      then (if c = ''--'' ! m_matchIndex p then m_co 593 (p\<lparr>m_matchIndex := m_matchIndex p + 1\<rparr>) else (p, False))
      else lineBoundary (p\<lparr>m_matchIndex := 0\<rparr>) c)"

definition parseBoundaryLine :: "multipart \<Rightarrow> char \<Rightarrow> multipart \<times> bool" where
  "parseBoundaryLine p c = (let co = m_nestedCo p in
     if co = 0 then lineDashes (p\<lparr>m_matchIndex := 0\<rparr>) c
     else if co = 593 then lineDashes p c
     else if co = 608 then lineBoundary p c
     else if co = 619 then
       (if c = LF then (p\<lparr>m_nestedCo := -1, m_state := MResult\<rparr>, True) else (p, False))
     else (p, True))"

text \<open>
  \<open>shorten\<close> is \<open>if (tokenLength > 0) tokenLength--\<close>, \<open>m_report\<close> sets the state before
  \<open>SC_CO_FINISH\<close>.
\<close>

definition shorten :: "multipart \<Rightarrow> multipart" where
  "shorten p = (if m_tokenLength p > 0 then p\<lparr>m_tokenLength := m_tokenLength p - 1\<rparr> else p)"

definition m_report :: "multipart \<Rightarrow> multipart \<times> bool" where
  "m_report p = ((shorten p)\<lparr>m_nestedCo := -1, m_state := MResult\<rparr>, True)"

definition nameLoop :: "multipart \<Rightarrow> char \<Rightarrow> multipart \<times> bool" where
  "nameLoop p c =
     (if c \<noteq> CHR '':'' then (if c = CR then (p, False) else m_co 658 p) else m_report p)"

definition m_parseHeaderName :: "multipart \<Rightarrow> char \<Rightarrow> multipart \<times> bool" where
  "m_parseHeaderName p c = (let co = m_nestedCo p in
     if co = 0 then (if c = CR then m_co 642 (shorten p) else nameLoop p c)
     else if co = 642 then (if c = LF then m_report p else (p, False))
     else if co = 658 then nameLoop p c
     else (p, True))"

definition m_valueLoop :: "multipart \<Rightarrow> char \<Rightarrow> multipart \<times> bool" where
  "m_valueLoop p c = (if c = CR then m_co 687 (shorten p) else m_co 697 p)"

definition skipSpaces :: "multipart \<Rightarrow> char \<Rightarrow> multipart \<times> bool" where
  "skipSpaces p c =
     (if c = CHR '' '' then m_co 678 ((shorten p)\<lparr>m_tokenStart := m_tokenStart p + 1\<rparr>) else m_valueLoop p c)"

definition m_parseHeaderValue :: "multipart \<Rightarrow> char \<Rightarrow> multipart \<times> bool" where
  "m_parseHeaderValue p c = (let co = m_nestedCo p in
     if co = 0 \<or> co = 678 then skipSpaces p c
     else if co = 687 then (if c = LF then m_report p else (p, False))
     else if co = 697 then m_valueLoop p c
     else (p, True))"

definition parseBodyUntilBoundary :: "multipart \<Rightarrow> char \<Rightarrow> multipart \<times> bool" where
  "parseBodyUntilBoundary p c =
     (if boundaryMatchIndex p = 2 then (p\<lparr>boundaryMatchIndex := 0\<rparr>, True)
      else if c = CR then (p\<lparr>boundaryMatchIndex := 1\<rparr>, True)
      else (p, True))"

section \<open>process\<close>

fun m_run :: "(multipart \<Rightarrow> char \<Rightarrow> multipart \<times> bool) \<Rightarrow> multipart \<Rightarrow> nat \<Rightarrow> char list \<Rightarrow> multipart \<times> nat \<times> bool" where
  "m_run func p n [] = (p, n, True)"
| "m_run func p n (c # cs) =
     (case func (p\<lparr>m_tokenLength := m_tokenLength p + 1\<rparr>) c of
        (q, False) \<Rightarrow> (q, n, False)
      | (q, True) \<Rightarrow>
          if boundaryMatchIndex q = 1 then ((shorten q)\<lparr>m_state := MResult\<rparr>, n, True)
          else if m_state q = MResult then (q, n + 1, True)
          else m_run func q (n + 1) cs)"

text \<open>
  The bytes read and the slice that is reported; None is an error. \<open>p\<close> is the parser before the
  call, which remembers \<open>initialStart\<close> and \<open>initialLength\<close>.
\<close>

definition m_deliver :: "multipart \<Rightarrow> char list \<Rightarrow> multipart \<Rightarrow> nat \<Rightarrow> multipart \<times> (nat \<times> char list) option" where
  "m_deliver p data q n =
     (let q1 = q\<lparr>m_globalLength := m_globalLength q + n\<rparr>;
          startDelta = m_tokenStart q - m_tokenStart p;
          lengthDelta = (if m_tokenLength q \<ge> m_tokenLength p then m_tokenLength q - m_tokenLength p else 0) in
      case sliceStartLength startDelta lengthDelta data of
        None \<Rightarrow> (q1, None)
      | Some parsedData \<Rightarrow>
          if m_state q = MResult
          then (case sliceStart n data of None \<Rightarrow> (q1, None) | Some _ \<Rightarrow> (q1\<lparr>m_nestedCo := 0\<rparr>, Some (n, parsedData)))
          else (q1, Some (n, parsedData)))"

definition m_process ::
  "(multipart \<Rightarrow> char \<Rightarrow> multipart \<times> bool) \<Rightarrow> mToken \<Rightarrow> multipart \<Rightarrow> char list \<Rightarrow> multipart \<times> (nat \<times> char list) option" where
  "m_process func t p data =
     (case m_run func (p\<lparr>m_token := t, m_state := MParsing\<rparr>) 0 data of
        (q, n, good) \<Rightarrow> if good then m_deliver p data q n else (q, None))"

section \<open>parse\<close>

text \<open>
  The loops of the top level return after every call of \<open>process\<close>; a phase is named by the line
  of its \<open>SC_CO_RETURN\<close>.
\<close>

definition m_phase :: "int \<Rightarrow> multipart \<Rightarrow> char list \<Rightarrow> multipart \<times> (nat \<times> char list) option" where
  "m_phase l p data =
     (case (if l = 358 then m_process parsePreamble MBoundary p data
            else if l = 377 then m_process m_parseHeaderName MHeaderName p data
            else if l = 394 then m_process m_parseHeaderValue MHeaderValue p data
            else m_process parseBodyUntilBoundary MPartBody p data) of
        (q, None) \<Rightarrow> (q, None)
      | (q, Some r) \<Rightarrow> (q\<lparr>m_topCo := l\<rparr>, Some r))"

definition m_begin :: "multipart \<Rightarrow> multipart" where
  "m_begin p = p\<lparr>m_tokenStart := m_globalStart p + m_globalLength p, m_tokenLength := 0,
     m_globalStart := m_globalStart p + m_globalLength p, m_globalLength := 0\<rparr>"

definition partHeaderEnd :: "multipart \<Rightarrow> multipart \<times> (nat \<times> char list) option" where
  "partHeaderEnd p = (p\<lparr>m_topCo := 402, m_token := MPartHeaderEnd, m_state := MResult\<rparr>, Some (0, []))"

text \<open>
  The loop of the body sets the state to Parsing right before it tests for Parsing, so it is
  never left.
\<close>

definition m_resume :: "multipart \<Rightarrow> char list \<Rightarrow> multipart \<times> (nat \<times> char list) option" where
  "m_resume p data = (let co = m_topCo p in
     if co = 0 then m_phase 358 (p\<lparr>m_tokenStart := m_globalStart p, m_tokenLength := 0\<rparr>) data
     else if co = 358 then (if m_state p = MParsing then m_phase 358 p data else m_phase 377 (m_begin p) data)
     else if co = 377 then
       (if m_state p = MParsing then m_phase 377 p data
        else if m_tokenLength p = 0 then partHeaderEnd p
        else m_phase 394 (m_begin p) data)
     else if co = 394 then (if m_state p = MParsing then m_phase 394 p data else m_phase 377 (m_begin p) data)
     else if co = 402 then m_phase 417 ((m_begin p)\<lparr>boundaryMatchIndex := 0\<rparr>) data
     else if co = 417 then m_phase 417 (p\<lparr>m_state := MParsing\<rparr>) data
     else (p, Some (0, [])))"

definition expectedChar :: "char list \<Rightarrow> multipart \<Rightarrow> nat \<Rightarrow> char" where
  "expectedChar suffix p i =
     (if i = 0 then CR else if i = 1 then LF else if i = 2 \<or> i = 3 then CHR ''-''
      else if i < 4 + length (boundary p) then boundary p ! (i - 4)
      else suffix ! (i - 4 - length (boundary p)))"

definition isPrefix :: "char list \<Rightarrow> multipart \<Rightarrow> bool" where
  "isPrefix suffix p = list_all (\<lambda>i. candidate p ! i = expectedChar suffix p i) [0..<length (candidate p)]"

definition boundaryLength :: "multipart \<Rightarrow> nat" where
  "boundaryLength p = 4 + length (boundary p) + 2"

text \<open>The loop over the candidate, with the bytes it has consumed and whether it has decided.\<close>

fun candidateLoop :: "multipart \<Rightarrow> nat \<Rightarrow> char list \<Rightarrow> multipart \<times> (nat \<times> bool) option" where
  "candidateLoop p n [] = (p, Some (n, False))"
| "candidateLoop p n (c # cs) =
     (if \<not> length (candidate p) < 128 then (p, None)
      else
        (let q = p\<lparr>candidate := candidate p @ [c]\<rparr>;
             newPartPrefix = isPrefix [CR, LF] q;
             finalPrefix = isPrefix ''--'' q in
         if \<not> newPartPrefix \<and> \<not> finalPrefix
         then (q\<lparr>m_globalLength := m_globalLength q + (n + 1), boundaryMatchIndex := 0,
                 emitBoundaryCandidate := True, m_state := MParsing\<rparr>, Some (n + 1, True))
         else if newPartPrefix \<and> length (candidate q) = boundaryLength q
         then (q\<lparr>candidate := [], m_globalLength := m_globalLength q + (n + 1), boundaryMatchIndex := 0,
                 m_token := MBoundary, m_state := MResult\<rparr>, Some (n + 1, True))
         else if finalPrefix \<and> length (candidate q) = boundaryLength q
         then (q\<lparr>candidate := [], m_globalLength := m_globalLength q + (n + 1), boundaryMatchIndex := 0,
                 m_token := MFinishedToken, m_state := MFinished\<rparr>, Some (n + 1, True))
         else candidateLoop q (n + 1) cs))"

definition m_parse :: "multipart \<Rightarrow> char list \<Rightarrow> multipart \<times> (nat \<times> char list) option" where
  "m_parse p data =
     (if m_state p = MFinished then (p, None)
      else if emitBoundaryCandidate p
      then (p\<lparr>candidate := [], emitBoundaryCandidate := False, m_token := MPartBody, m_state := MResult\<rparr>,
            Some (0, candidate p))
      else if boundaryMatchIndex p = 1
      then (case candidateLoop p 0 data of
              (q, None) \<Rightarrow> (q, None)
            | (q, Some (n, decided)) \<Rightarrow>
                if decided then (q, Some (n, []))
                else
                  (let q1 = q\<lparr>m_globalLength := m_globalLength q + n, m_state := MParsing\<rparr> in
                   if n > 0 then (q1, Some (n, []))
                   else if data = [] then (q1, Some (0, []))
                   else m_resume q1 data))
      else if data = [] then (p, Some (0, []))
      else m_resume p data)"

end
