(* ===== verification/HttpMultipartProps.thy ===== *)
theory HttpMultipartProps
  imports HttpMultipart "HOL-Library.Sublist"
begin

text \<open>
  What the multipart parser reports for a message of one part, what it reports in the body
  whatever follows, the boundary it accepts, and the parameters of \<open>Content-Disposition\<close>.
\<close>

section \<open>Driving the parser\<close>

text \<open>
  The loop a user runs: parse what is left, collect what is reported in a field, and pass the
  field on at every result. It ends when the data does or when the parser has finished.
\<close>

type_synonym mEvent = "mToken \<times> char list"

fun m_events :: "nat \<Rightarrow> multipart \<Rightarrow> char list \<Rightarrow> char list \<Rightarrow> (mEvent list \<times> multipart \<times> char list) option" where
  "m_events 0 p field data = None"
| "m_events (Suc k) p field data =
     (if data = [] then Some ([], p, field)
      else case m_parse p data of
        (q, None) \<Rightarrow> None
      | (q, Some (n, d)) \<Rightarrow>
          if m_state q = MFinished then Some ([(m_token q, field @ d)], q, drop n data)
          else if m_state q = MResult
          then map_option (\<lambda>(es, r). ((m_token q, field @ d) # es, r)) (m_events k q [] (drop n data))
          else m_events k q (field @ d) (drop n data))"

text \<open>From \<open>p\<close> on \<open>data\<close> the loop reports \<open>es\<close> and is then at \<open>q\<close> on \<open>rest\<close>.\<close>

definition emits :: "multipart \<Rightarrow> char list \<Rightarrow> mEvent list \<Rightarrow> multipart \<Rightarrow> char list \<Rightarrow> bool" where
  "emits p data es q rest \<longleftrightarrow>
     (\<exists>j. \<forall>k. m_events (j + k) p [] data = map_option (\<lambda>(fs, r). (es @ fs, r)) (m_events k q [] rest))"

lemma emits_refl: "emits p data [] p data"
  unfolding emits_def by (rule exI [of _ 0]) (simp add: option.map_ident case_prod_unfold)

lemma emits_trans:
  assumes "emits p data es q rest" "emits q rest fs r end'"
  shows "emits p data (es @ fs) r end'"
proof -
  obtain i j where i: "\<And>k. m_events (i + k) p [] data = map_option (\<lambda>(fs, r). (es @ fs, r)) (m_events k q [] rest)"
    and j: "\<And>k. m_events (j + k) q [] rest = map_option (\<lambda>(gs, r). (fs @ gs, r)) (m_events k r [] end')"
    using assms unfolding emits_def by blast
  have "m_events (i + j + k) p [] data = map_option (\<lambda>(gs, r). ((es @ fs) @ gs, r)) (m_events k r [] end')" for k
    using i [of "j + k"] j [of k] by (simp add: add.assoc option.map_comp comp_def case_prod_unfold)
  then show ?thesis
    unfolding emits_def by blast
qed

lemma emits_result:
  assumes "m_parse p data = (q, Some (n, d))" "data \<noteq> []" "m_state q = MResult"
  shows "emits p data [(m_token q, d)] q (drop n data)"
  unfolding emits_def by (rule exI [of _ 1]) (simp add: assms)

lemma emits_silent:
  assumes "m_parse p data = (q, Some (n, []))" "data \<noteq> []" "m_state q = MParsing"
  shows "emits p data [] q (drop n data)"
  unfolding emits_def
  by (rule exI [of _ 1]) (simp add: assms option.map_ident case_prod_unfold)

lemma emits_events:
  assumes "emits p data es q rest" "m_events k q [] rest = Some (fs, r)"
  shows "\<exists>k. m_events k p [] data = Some (es @ fs, r)"
proof -
  obtain j where "\<And>k. m_events (j + k) p [] data = map_option (\<lambda>(fs, r). (es @ fs, r)) (m_events k q [] rest)"
    using assms(1) unfolding emits_def by blast
  then have "m_events (j + k) p [] data = Some (es @ fs, r)"
    by (simp add: assms(2))
  then show ?thesis ..
qed

section \<open>The delimiter\<close>

definition delimiter :: "char list \<Rightarrow> char list" where
  "delimiter B = [CR, LF] @ ''--'' @ B"

lemma length_delimiter [simp]: "length (delimiter B) = 4 + length B"
  by (simp add: delimiter_def)

lemma expectedChar_nth:
  assumes "i < 4 + length (boundary p) + length sfx"
  shows "expectedChar sfx p i = (delimiter (boundary p) @ sfx) ! i"
proof -
  have "i = 0 \<or> i = 1 \<or> i = 2 \<or> i = 3 \<or> (\<exists>j. i = 4 + j)"
    by presburger
  then show ?thesis
    using assms by (auto simp: expectedChar_def delimiter_def nth_append numeral_eq_Suc)
qed

lemma isPrefix_iff:
  assumes "length (candidate p) \<le> 4 + length (boundary p) + length sfx"
  shows "isPrefix sfx p \<longleftrightarrow> prefix (candidate p) (delimiter (boundary p) @ sfx)"
proof -
  have "isPrefix sfx p \<longleftrightarrow> (\<forall>i < length (candidate p). candidate p ! i = (delimiter (boundary p) @ sfx) ! i)"
    using assms by (auto simp: isPrefix_def list_all_iff expectedChar_nth)
  also have "\<dots> \<longleftrightarrow> candidate p = take (length (candidate p)) (delimiter (boundary p) @ sfx)"
    using assms by (auto simp del: take_append simp: list_eq_iff_nth_eq)
  also have "\<dots> \<longleftrightarrow> prefix (candidate p) (delimiter (boundary p) @ sfx)"
    by (metis append_eq_conv_conj append_take_drop_id prefix_def)
  finally show ?thesis .
qed

lemma prefix_within: "prefix xs (ys @ zs) \<Longrightarrow> length xs \<le> length ys \<Longrightarrow> prefix xs ys"
  by (metis prefix_length_prefix prefix_order.dual_order.refl prefixI)

lemma candidate_run:
  assumes "prefix (candidate p @ xs) (delimiter (boundary p))" "length (boundary p) \<le> 70"
  shows "candidateLoop p n (xs @ ys) = candidateLoop (p\<lparr>candidate := candidate p @ xs\<rparr>) (n + length xs) ys"
  using assms
proof (induction xs arbitrary: p n)
  case (Cons x xs)
  let ?q = "p\<lparr>candidate := candidate p @ [x]\<rparr>"
  have le: "length (candidate p @ x # xs) \<le> 4 + length (boundary p)"
    using prefix_length_le [OF Cons.prems(1)] by simp
  have px: "prefix (candidate ?q) (delimiter (boundary p))"
    using Cons.prems(1) by (auto simp: prefix_def)
  have "isPrefix [CR, LF] ?q" "isPrefix ''--'' ?q"
    using le px by (auto simp: isPrefix_iff intro: prefix_prefix)
  then have "candidateLoop p n ((x # xs) @ ys) = candidateLoop ?q (n + 1) (xs @ ys)"
    using le Cons.prems(2) by (simp add: boundaryLength_def)
  also have "\<dots> = candidateLoop (?q\<lparr>candidate := candidate ?q @ xs\<rparr>) (n + 1 + length xs) ys"
    using Cons.prems by (intro Cons.IH) simp_all
  finally show ?case by simp
qed simp

lemma candidate_mismatch:
  assumes "prefix xs (delimiter (boundary p))" "\<not> prefix (xs @ [c]) (delimiter (boundary p))"
    "length xs < length (delimiter (boundary p))" "length (boundary p) \<le> 70" "candidate p = []"
  shows "candidateLoop p 0 (xs @ c # ys) =
    (p\<lparr>candidate := xs @ [c], m_globalLength := m_globalLength p + (length xs + 1), boundaryMatchIndex := 0,
       emitBoundaryCandidate := True, m_state := MParsing\<rparr>, Some (length xs + 1, True))"
proof -
  let ?q = "p\<lparr>candidate := xs @ [c]\<rparr>"
  have "\<not> isPrefix [CR, LF] ?q" "\<not> isPrefix ''--'' ?q"
    using assms by (auto simp: isPrefix_iff dest!: prefix_within)
  then show ?thesis
    using assms by (subst candidate_run) simp_all
qed

lemma candidate_final:
  assumes "length (boundary p) \<le> 70" "candidate p = []"
  shows "candidateLoop p 0 (delimiter (boundary p) @ ''--'' @ ys) =
    (p\<lparr>m_globalLength := m_globalLength p + (length (boundary p) + 6), boundaryMatchIndex := 0,
       m_token := MFinishedToken, m_state := MFinished, candidate := []\<rparr>, Some (length (boundary p) + 6, True))"
proof -
  let ?q = "p\<lparr>candidate := delimiter (boundary p) @ ''-''\<rparr>" and ?r = "p\<lparr>candidate := delimiter (boundary p) @ ''--''\<rparr>"
  have "\<not> isPrefix [CR, LF] ?q" "\<not> isPrefix [CR, LF] ?r" "isPrefix ''--'' ?q" "isPrefix ''--'' ?r"
    by (auto simp: isPrefix_iff)
  then show ?thesis
    using assms by (subst candidate_run) (simp_all add: boundaryLength_def add.commute)
qed

lemma candidate_next:
  assumes "length (boundary p) \<le> 70" "candidate p = []"
  shows "candidateLoop p 0 (delimiter (boundary p) @ [CR, LF] @ ys) =
    (p\<lparr>m_globalLength := m_globalLength p + (length (boundary p) + 6), boundaryMatchIndex := 0,
       m_token := MBoundary, m_state := MResult, candidate := []\<rparr>, Some (length (boundary p) + 6, True))"
proof -
  let ?q = "p\<lparr>candidate := delimiter (boundary p) @ [CR]\<rparr>" and ?r = "p\<lparr>candidate := delimiter (boundary p) @ [CR, LF]\<rparr>"
  have "isPrefix [CR, LF] ?q" "isPrefix [CR, LF] ?r"
    by (auto simp: isPrefix_iff)
  then show ?thesis
    using assms by (subst candidate_run) (simp_all add: boundaryLength_def add.commute)
qed

section \<open>The body\<close>

definition in_body :: "char list \<Rightarrow> multipart \<Rightarrow> bool" where
  "in_body B p \<longleftrightarrow> boundary p = B \<and> (m_topCo p = 402 \<or> m_topCo p = 417) \<and> m_state p \<noteq> MFinished \<and>
     \<not> emitBoundaryCandidate p \<and> boundaryMatchIndex p = 0 \<and> candidate p = []"

definition in_candidate :: "char list \<Rightarrow> multipart \<Rightarrow> bool" where
  "in_candidate B p \<longleftrightarrow> boundary p = B \<and> m_topCo p = 417 \<and> m_state p \<noteq> MFinished \<and>
     \<not> emitBoundaryCandidate p \<and> boundaryMatchIndex p = 1 \<and> candidate p = []"

lemma m_begin_fields [simp]:
  "boundary (m_begin p) = boundary p" "m_topCo (m_begin p) = m_topCo p" "m_state (m_begin p) = m_state p"
  "emitBoundaryCandidate (m_begin p) = emitBoundaryCandidate p" "boundaryMatchIndex (m_begin p) = boundaryMatchIndex p"
  "candidate (m_begin p) = candidate p" "m_nestedCo (m_begin p) = m_nestedCo p" "m_tokenLength (m_begin p) = 0"
  by (simp_all add: m_begin_def)

lemma run_body:
  assumes "CR \<notin> set xs" "boundaryMatchIndex p = 0" "m_state p = MParsing"
  shows "m_run parseBodyUntilBoundary p n (xs @ ys) =
    m_run parseBodyUntilBoundary (p\<lparr>m_tokenLength := m_tokenLength p + length xs\<rparr>) (n + length xs) ys"
  using assms
  by (induction xs arbitrary: p n) (auto simp: parseBodyUntilBoundary_def)

lemma body_phase_cr:
  assumes "CR \<notin> set xs" "boundaryMatchIndex p = 0"
  shows "m_phase 417 p (xs @ CR # ys) =
    (p\<lparr>m_tokenLength := m_tokenLength p + length xs, m_globalLength := m_globalLength p + length xs, m_topCo := 417,
       m_nestedCo := 0, boundaryMatchIndex := 1, m_token := MPartBody, m_state := MResult\<rparr>, Some (length xs, xs))"
  using assms
  by (simp add: m_phase_def m_process_def run_body parseBodyUntilBoundary_def m_deliver_def shorten_def)

lemma body_phase_end:
  assumes "CR \<notin> set xs" "boundaryMatchIndex p = 0"
  shows "m_phase 417 p xs =
    (p\<lparr>m_tokenLength := m_tokenLength p + length xs, m_globalLength := m_globalLength p + length xs, m_topCo := 417,
       m_token := MPartBody, m_state := MParsing\<rparr>, Some (length xs, xs))"
proof -
  have "m_run parseBodyUntilBoundary (p\<lparr>m_token := MPartBody, m_state := MParsing\<rparr>) 0 (xs @ []) =
      (p\<lparr>m_token := MPartBody, m_state := MParsing, m_tokenLength := m_tokenLength p + length xs\<rparr>, length xs, True)"
    using assms by (subst run_body) simp_all
  then show ?thesis
    by (simp add: m_phase_def m_process_def m_deliver_def)
qed

lemma in_body_parse:
  assumes "in_body B p" "data \<noteq> []"
  obtains p' where "m_parse p data = m_phase 417 p' data" "boundary p' = B" "boundaryMatchIndex p' = 0"
    "\<not> emitBoundaryCandidate p'" "candidate p' = []"
proof (cases "m_topCo p = 402")
  case True
  then show thesis
    using assms that [of "(m_begin p)\<lparr>boundaryMatchIndex := 0\<rparr>"] by (simp add: in_body_def m_parse_def m_resume_def)
next
  case False
  then show thesis
    using assms that [of "p\<lparr>m_state := MParsing\<rparr>"] by (auto simp: in_body_def m_parse_def m_resume_def)
qed

lemma body_to_candidate:
  assumes "in_body B p" "CR \<notin> set xs"
  shows "\<exists>q. emits p (xs @ CR # ys) [(MPartBody, xs)] q (CR # ys) \<and> in_candidate B q"
proof -
  obtain p' where p': "m_parse p (xs @ CR # ys) = m_phase 417 p' (xs @ CR # ys)" "boundary p' = B"
      "boundaryMatchIndex p' = 0" "\<not> emitBoundaryCandidate p'" "candidate p' = []"
    by (rule in_body_parse [OF assms(1), of "xs @ CR # ys"]) simp_all
  define q where "q = p'\<lparr>m_tokenLength := m_tokenLength p' + length xs, m_globalLength := m_globalLength p' + length xs,
     m_topCo := 417, m_nestedCo := 0, boundaryMatchIndex := 1, m_token := MPartBody, m_state := MResult\<rparr>"
  have "m_parse p (xs @ CR # ys) = (q, Some (length xs, xs))"
    using assms p' by (simp add: body_phase_cr q_def)
  then have "emits p (xs @ CR # ys) [(MPartBody, xs)] q (CR # ys)"
    using emits_result [of p "xs @ CR # ys" q "length xs" xs] by (simp add: q_def)
  moreover have "in_candidate B q"
    using p' by (simp add: in_candidate_def q_def)
  ultimately show ?thesis by blast
qed

text \<open>A candidate that fails on \<open>c\<close> is reported as it was read, \<open>c\<close> included.\<close>

lemma candidate_to_body:
  assumes "in_candidate B p" "prefix xs (delimiter B)" "\<not> prefix (xs @ [c]) (delimiter B)" "length xs < 4 + length B"
    "length B \<le> 70" "ys \<noteq> []"
  shows "\<exists>q. emits p (xs @ c # ys) [(MPartBody, xs @ [c])] q ys \<and> in_body B q"
proof -
  define r where "r = p\<lparr>candidate := xs @ [c], m_globalLength := m_globalLength p + (length xs + 1),
    boundaryMatchIndex := 0, emitBoundaryCandidate := True, m_state := MParsing\<rparr>"
  define q where "q = r\<lparr>candidate := [], emitBoundaryCandidate := False, m_token := MPartBody, m_state := MResult\<rparr>"
  have "m_parse p (xs @ c # ys) = (r, Some (length xs + 1, []))"
    using assms by (simp add: m_parse_def in_candidate_def candidate_mismatch r_def)
  then have "emits p (xs @ c # ys) [] r ys"
    using emits_silent [of p "xs @ c # ys" r "length xs + 1"] by (simp add: r_def)
  moreover have "m_parse r ys = (q, Some (0, xs @ [c]))"
    by (simp add: m_parse_def r_def q_def)
  then have "emits r ys [(MPartBody, xs @ [c])] q ys"
    using emits_result [of r ys q 0 "xs @ [c]"] assms(6) by (simp add: q_def)
  moreover have "in_body B q"
    using assms(1) by (simp add: in_candidate_def in_body_def q_def r_def)
  ultimately show ?thesis
    using emits_trans [of p "xs @ c # ys" "[]" r ys "[(MPartBody, xs @ [c])]" q ys] by auto
qed

text \<open>
  A body in which every carriage return is followed, still in the body, by something the delimiter
  does not have.
\<close>

definition quiet :: "char list \<Rightarrow> char list \<Rightarrow> bool" where
  "quiet B x \<longleftrightarrow> list_all (\<lambda>s. s \<noteq> [] \<and> hd s = CR \<longrightarrow> \<not> prefix s (delimiter B) \<and> \<not> prefix (delimiter B) s) (suffixes x)"

lemma quiet_suffix: "quiet B (xs @ ys) \<Longrightarrow> quiet B ys"
  by (auto simp: quiet_def list_all_iff suffix_def)

lemma first_difference:
  assumes "\<not> prefix s d" "\<not> prefix d s"
  shows "\<exists>xs c ys. s = xs @ c # ys \<and> prefix xs d \<and> \<not> prefix (xs @ [c]) d \<and> length xs < length d"
proof -
  have "s \<parallel> d"
    using assms by (simp add: parallel_def)
  then obtain xs b bs c cs where "b \<noteq> c" "s = xs @ b # bs" "d = xs @ c # cs"
    by (blast dest: parallel_decomp)
  then show ?thesis
    by (intro exI [of _ xs] exI [of _ b] exI [of _ bs]) auto
qed

definition bodyEvents :: "mEvent list \<Rightarrow> bool" where
  "bodyEvents es \<longleftrightarrow> list_all (\<lambda>(t, d). t = MPartBody) es"

lemma bodyEvents_simps [simp]:
  "bodyEvents []" "bodyEvents (e # es) \<longleftrightarrow> fst e = MPartBody \<and> bodyEvents es"
  "bodyEvents (es @ fs) \<longleftrightarrow> bodyEvents es \<and> bodyEvents fs"
  by (auto simp: bodyEvents_def)

text \<open>Up to the last stretch without a carriage return a quiet body is reported whatever follows.\<close>

lemma quiet_body:
  assumes "quiet B x" "in_body B p" "length B \<le> 70" "rest \<noteq> []"
  shows "\<exists>es q y. emits p (x @ rest) es q (y @ rest) \<and> in_body B q \<and> CR \<notin> set y \<and> bodyEvents es \<and>
    concat (map snd es) @ y = x"
  using assms(1,2)
proof (induction "length x" arbitrary: x p rule: less_induct)
  case less
  show ?case
  proof (cases "CR \<in> set x")
    case False
    then show ?thesis
      using less.prems emits_refl by (intro exI [of _ "[]"] exI [of _ p] exI [of _ x]) auto
  next
    case True
    then obtain xs zs where x: "x = xs @ CR # zs" "CR \<notin> set xs"
      by (blast dest: split_list_first)
    have "\<not> prefix (CR # zs) (delimiter B)" "\<not> prefix (delimiter B) (CR # zs)"
      using less.prems(1) by (auto simp: quiet_def list_all_iff x(1) suffix_def)
    from first_difference [OF this] obtain us c vs where d: "CR # zs = us @ c # vs" "prefix us (delimiter B)"
        "\<not> prefix (us @ [c]) (delimiter B)" "length us < 4 + length B"
      by auto
    obtain q where q: "emits p (xs @ CR # zs @ rest) [(MPartBody, xs)] q (CR # zs @ rest)" "in_candidate B q"
      using body_to_candidate [OF less.prems(2) x(2)] by blast
    obtain r where r: "emits q (us @ c # vs @ rest) [(MPartBody, us @ [c])] r (vs @ rest)" "in_body B r"
      using candidate_to_body [OF q(2) d(2-4) assms(3)] assms(4) by blast
    have same: "us @ c # vs @ rest = CR # zs @ rest"
      using arg_cong [OF d(1), of "\<lambda>l. l @ rest"] by simp
    have two: "emits p (x @ rest) ([(MPartBody, xs)] @ [(MPartBody, us @ [c])]) r (vs @ rest)"
      using emits_trans [OF q(1) r(1) [unfolded same]] x(1) by simp
    have "length vs < length x"
      using arg_cong [OF d(1), of length] x(1) by simp
    moreover have "quiet B vs"
      using less.prems(1) x(1) d(1) quiet_suffix [of B "xs @ us @ [c]" vs] by simp
    ultimately obtain es s y where ih: "emits r (vs @ rest) es s (y @ rest)" "in_body B s" "CR \<notin> set y" "bodyEvents es"
        "concat (map snd es) @ y = vs"
      using less.hyps r(2) by blast
    show ?thesis
      using emits_trans [OF two ih(1)] ih(2-5) x(1) d(1)
      by (intro exI [of _ "([(MPartBody, xs)] @ [(MPartBody, us @ [c])]) @ es"] exI [of _ s] exI [of _ y]) simp
  qed
qed

lemma body_to_end:
  assumes "in_body B p" "quiet B x" "length B \<le> 70"
  shows "\<exists>k es q. m_events k p [] (x @ delimiter B @ ''--'' @ z) = Some (es @ [(MFinishedToken, [])], q, z) \<and>
    bodyEvents es \<and> concat (map snd es) = x \<and> m_state q = MFinished"
proof -
  let ?rest = "delimiter B @ ''--'' @ z"
  obtain es q y where q: "emits p (x @ ?rest) es q (y @ ?rest)" "in_body B q" "CR \<notin> set y" "bodyEvents es"
      "concat (map snd es) @ y = x"
    using quiet_body [OF assms(2,1,3), of ?rest] by auto
  obtain r where r: "emits q (y @ ?rest) [(MPartBody, y)] r ?rest" "in_candidate B r"
    using body_to_candidate [OF q(2,3), of "LF # ''--'' @ B @ ''--'' @ z"] by (auto simp: delimiter_def)
  define s where "s = r\<lparr>m_globalLength := m_globalLength r + (length B + 6), boundaryMatchIndex := 0,
     m_token := MFinishedToken, m_state := MFinished, candidate := []\<rparr>"
  have "m_parse r ?rest = (s, Some (length B + 6, []))"
    using r(2) candidate_final [of r z] assms(3) by (simp add: m_parse_def in_candidate_def s_def)
  moreover have "length (delimiter B @ ''--'') = length B + 6" "?rest \<noteq> []"
    by (simp_all add: delimiter_def)
  then have "drop (length B + 6) ?rest = z" "?rest \<noteq> []"
    unfolding append_assoc [symmetric] by (metis append_eq_conv_conj) simp
  ultimately have "m_events 1 r [] ?rest = Some ([(MFinishedToken, [])], s, z)"
    by (simp add: s_def)
  from emits_events [OF emits_trans [OF q(1) r(1)] this] obtain k where
    "m_events k p [] (x @ ?rest) = Some ((es @ [(MPartBody, y)]) @ [(MFinishedToken, [])], s, z)"
    by blast
  then show ?thesis
    using q(4,5) by (intro exI [of _ k] exI [of _ "es @ [(MPartBody, y)]"] exI [of _ s]) (simp add: s_def)
qed

section \<open>The headers of a part\<close>

definition at_name :: "char list \<Rightarrow> multipart \<Rightarrow> bool" where
  "at_name B p \<longleftrightarrow> boundary p = B \<and> (m_topCo p = 358 \<or> m_topCo p = 394) \<and> m_state p = MResult \<and> m_nestedCo p = 0 \<and>
     \<not> emitBoundaryCandidate p \<and> boundaryMatchIndex p = 0 \<and> candidate p = []"

definition at_value :: "char list \<Rightarrow> multipart \<Rightarrow> bool" where
  "at_value B p \<longleftrightarrow> boundary p = B \<and> m_topCo p = 377 \<and> m_state p = MResult \<and> m_nestedCo p = 0 \<and>
     \<not> emitBoundaryCandidate p \<and> boundaryMatchIndex p = 0 \<and> candidate p = [] \<and> m_tokenLength p \<noteq> 0"

text \<open>What a step does to the count of the token is undone when the character does not belong to it.\<close>

lemma name_colon:
  assumes "m_nestedCo p = 0 \<or> m_nestedCo p = 658"
  shows "m_parseHeaderName (p\<lparr>m_tokenLength := Suc (m_tokenLength p)\<rparr>) (CHR '':'') =
    (p\<lparr>m_nestedCo := -1, m_state := MResult\<rparr>, True)"
  using assms by (elim disjE) (simp_all add: m_parseHeaderName_def nameLoop_def m_report_def shorten_def Let_def)

lemma name_cr:
  assumes "m_nestedCo p = 0"
  shows "m_parseHeaderName (p\<lparr>m_tokenLength := Suc (m_tokenLength p)\<rparr>) CR = (p\<lparr>m_nestedCo := 642\<rparr>, True)"
  using assms by (simp add: m_parseHeaderName_def shorten_def m_co_def Let_def)

lemma name_lf:
  assumes "m_nestedCo p = 642"
  shows "m_parseHeaderName (p\<lparr>m_tokenLength := Suc (m_tokenLength p)\<rparr>) LF = (p\<lparr>m_nestedCo := -1, m_state := MResult\<rparr>, True)"
  using assms by (simp add: m_parseHeaderName_def m_report_def shorten_def)

lemma value_cr:
  assumes "m_nestedCo p = 0 \<or> m_nestedCo p = 678 \<or> m_nestedCo p = 697"
  shows "m_parseHeaderValue (p\<lparr>m_tokenLength := Suc (m_tokenLength p)\<rparr>) CR = (p\<lparr>m_nestedCo := 687\<rparr>, True)"
  using assms
  by (elim disjE) (simp_all add: m_parseHeaderValue_def skipSpaces_def m_valueLoop_def shorten_def m_co_def Let_def)

lemma value_lf:
  assumes "m_nestedCo p = 687"
  shows "m_parseHeaderValue (p\<lparr>m_tokenLength := Suc (m_tokenLength p)\<rparr>) LF = (p\<lparr>m_nestedCo := -1, m_state := MResult\<rparr>, True)"
  using assms by (simp add: m_parseHeaderValue_def m_report_def shorten_def)

lemma run_value_end:
  assumes "boundaryMatchIndex p = 0" "m_state p = MParsing" "m_nestedCo p = 0 \<or> m_nestedCo p = 678 \<or> m_nestedCo p = 697"
  shows "m_run m_parseHeaderValue p n (CR # LF # ys) = (p\<lparr>m_nestedCo := -1, m_state := MResult\<rparr>, n + 2, True)"
  using assms value_cr [OF assms(3)] value_lf [of "p\<lparr>m_nestedCo := 687\<rparr>"] by simp

lemma name_other:
  assumes "m_nestedCo p = 0 \<or> m_nestedCo p = 658" "x \<noteq> CHR '':''" "x \<noteq> CR"
  shows "m_parseHeaderName (p\<lparr>m_tokenLength := Suc (m_tokenLength p)\<rparr>) x =
    (p\<lparr>m_tokenLength := Suc (m_tokenLength p), m_nestedCo := 658\<rparr>, True)"
  using assms(1) by (elim disjE) (simp_all add: assms(2,3) m_parseHeaderName_def nameLoop_def m_co_def Let_def)

lemma value_other:
  assumes "m_nestedCo p = 0 \<or> m_nestedCo p = 678 \<or> m_nestedCo p = 697" "m_nestedCo p \<noteq> 697 \<Longrightarrow> x \<noteq> CHR '' ''" "x \<noteq> CR"
  shows "m_parseHeaderValue (p\<lparr>m_tokenLength := Suc (m_tokenLength p)\<rparr>) x =
    (p\<lparr>m_tokenLength := Suc (m_tokenLength p), m_nestedCo := 697\<rparr>, True)"
  using assms(1,2)
  by (elim disjE) (simp_all add: assms(3) m_parseHeaderValue_def skipSpaces_def m_valueLoop_def m_co_def Let_def)

lemma value_space:
  assumes "m_nestedCo p = 0 \<or> m_nestedCo p = 678"
  shows "m_parseHeaderValue (p\<lparr>m_tokenLength := Suc (m_tokenLength p)\<rparr>) (CHR '' '') =
    (p\<lparr>m_tokenStart := Suc (m_tokenStart p), m_nestedCo := 678\<rparr>, True)"
  using assms by (elim disjE) (simp_all add: m_parseHeaderValue_def skipSpaces_def shorten_def m_co_def Let_def)

lemma run_name:
  assumes "CHR '':'' \<notin> set xs" "CR \<notin> set xs" "boundaryMatchIndex p = 0" "m_state p = MParsing"
    "m_nestedCo p = 0 \<or> m_nestedCo p = 658"
  shows "m_run m_parseHeaderName p n (xs @ CHR '':'' # ys) =
    (p\<lparr>m_tokenLength := m_tokenLength p + length xs, m_nestedCo := -1, m_state := MResult\<rparr>, n + length xs + 1, True)"
  using assms
proof (induction xs arbitrary: p n)
  case Nil
  then show ?case
    using name_colon [OF Nil.prems(5)] by simp
next
  case (Cons x xs)
  have "x \<noteq> CHR '':''" "x \<noteq> CR"
    using Cons.prems by auto
  then show ?case
    using Cons.prems by (simp add: name_other Cons.IH)
qed

lemma name_phase:
  assumes "CHR '':'' \<notin> set xs" "CR \<notin> set xs" "boundaryMatchIndex p = 0" "m_nestedCo p = 0"
  shows "m_phase 377 p (xs @ CHR '':'' # ys) =
    (p\<lparr>m_tokenLength := m_tokenLength p + length xs, m_globalLength := m_globalLength p + (length xs + 1),
       m_topCo := 377, m_nestedCo := 0, m_token := MHeaderName, m_state := MResult\<rparr>, Some (length xs + 1, xs))"
  using assms by (simp add: m_phase_def m_process_def run_name m_deliver_def)

lemma end_phase:
  assumes "boundaryMatchIndex p = 0" "m_nestedCo p = 0" "m_tokenLength p = 0"
  shows "m_phase 377 p (CR # LF # ys) =
    (p\<lparr>m_tokenLength := 0, m_globalLength := m_globalLength p + 2,
       m_topCo := 377, m_nestedCo := 0, m_token := MHeaderName, m_state := MResult\<rparr>, Some (2, []))"
proof -
  let ?p = "p\<lparr>m_token := MHeaderName, m_state := MParsing\<rparr>"
  have "m_run m_parseHeaderName ?p 0 (CR # LF # ys) = (?p\<lparr>m_nestedCo := -1, m_state := MResult\<rparr>, 2, True)"
    using assms name_cr [of ?p] name_lf [of "?p\<lparr>m_nestedCo := 642\<rparr>"] by simp
  then show ?thesis
    using assms by (simp add: m_phase_def m_process_def m_deliver_def)
qed

text \<open>The value of a header, after \<open>k\<close> spaces.\<close>

lemma run_spaces:
  assumes "boundaryMatchIndex p = 0" "m_state p = MParsing" "m_nestedCo p = 0 \<or> m_nestedCo p = 678"
  shows "\<exists>co. (co = 0 \<or> co = 678) \<and> m_run m_parseHeaderValue p n (replicate k (CHR '' '') @ ys) =
    m_run m_parseHeaderValue (p\<lparr>m_tokenStart := m_tokenStart p + k, m_nestedCo := co\<rparr>) (n + k) ys"
  using assms
proof (induction k arbitrary: p n)
  case 0
  then show ?case
    by (intro exI [of _ "m_nestedCo p"]) simp
next
  case (Suc k)
  let ?q = "p\<lparr>m_tokenStart := m_tokenStart p + 1, m_nestedCo := 678\<rparr>"
  have "m_run m_parseHeaderValue p n (replicate (Suc k) (CHR '' '') @ ys) =
      m_run m_parseHeaderValue ?q (n + 1) (replicate k (CHR '' '') @ ys)"
    using Suc.prems by (simp add: value_space)
  with Suc.IH [of ?q "n + 1"] Suc.prems show ?case
    by auto
qed

lemma run_value:
  assumes "CR \<notin> set v" "boundaryMatchIndex p = 0" "m_state p = MParsing" "m_nestedCo p = 697"
  shows "m_run m_parseHeaderValue p n (v @ CR # LF # ys) =
    (p\<lparr>m_tokenLength := m_tokenLength p + length v, m_nestedCo := -1, m_state := MResult\<rparr>, n + length v + 2, True)"
  using assms
proof (induction v arbitrary: p n)
  case Nil
  then show ?case
    using run_value_end [of p n ys] by simp
next
  case (Cons x xs)
  have "x \<noteq> CR"
    using Cons.prems by auto
  then show ?case
    using Cons.prems by (simp add: value_other Cons.IH)
qed

lemma run_value_start:
  assumes "CR \<notin> set v" "v = [] \<or> hd v \<noteq> CHR '' ''" "boundaryMatchIndex p = 0" "m_state p = MParsing"
    "m_nestedCo p = 0 \<or> m_nestedCo p = 678"
  shows "m_run m_parseHeaderValue p n (v @ CR # LF # ys) =
    (p\<lparr>m_tokenLength := m_tokenLength p + length v, m_nestedCo := -1, m_state := MResult\<rparr>, n + length v + 2, True)"
proof (cases v)
  case Nil
  then show ?thesis
    using assms run_value_end [of p n ys] by auto
next
  case (Cons x xs)
  then have "x \<noteq> CR" "x \<noteq> CHR '' ''"
    using assms by auto
  then have "m_parseHeaderValue (p\<lparr>m_tokenLength := Suc (m_tokenLength p)\<rparr>) x =
      (p\<lparr>m_tokenLength := Suc (m_tokenLength p), m_nestedCo := 697\<rparr>, True)"
    using assms(5) by (intro value_other) auto
  then show ?thesis
    using assms Cons by (simp add: run_value)
qed

lemma value_phase:
  assumes "CR \<notin> set v" "v = [] \<or> hd v \<noteq> CHR '' ''" "boundaryMatchIndex p = 0" "m_nestedCo p = 0"
  shows "\<exists>q. m_phase 394 p (replicate k (CHR '' '') @ v @ CR # LF # ys) = (q, Some (k + length v + 2, v)) \<and>
    q = p\<lparr>m_tokenStart := m_tokenStart q, m_tokenLength := m_tokenLength q, m_globalLength := m_globalLength q,
          m_topCo := 394, m_nestedCo := 0, m_token := MHeaderValue, m_state := MResult\<rparr>"
proof -
  let ?data = "replicate k (CHR '' '') @ v @ CR # LF # ys"
  obtain co where co: "co = 0 \<or> co = 678" "m_run m_parseHeaderValue (p\<lparr>m_token := MHeaderValue, m_state := MParsing\<rparr>) 0 ?data =
      m_run m_parseHeaderValue (p\<lparr>m_token := MHeaderValue, m_state := MParsing, m_tokenStart := m_tokenStart p + k,
        m_nestedCo := co\<rparr>) k (v @ CR # LF # ys)"
    using assms run_spaces [of "p\<lparr>m_token := MHeaderValue, m_state := MParsing\<rparr>" 0 k "v @ CR # LF # ys"] by auto
  have "m_run m_parseHeaderValue (p\<lparr>m_token := MHeaderValue, m_state := MParsing\<rparr>) 0 ?data =
      (p\<lparr>m_tokenStart := m_tokenStart p + k, m_tokenLength := m_tokenLength p + length v, m_token := MHeaderValue,
         m_nestedCo := -1, m_state := MResult\<rparr>, k + length v + 2, True)"
    using assms co by (subst co(2), subst run_value_start) auto
  then show ?thesis
    by (simp add: m_phase_def m_process_def m_deliver_def)
qed

text \<open>A header as its name, the number of spaces before the value, and the value.\<close>

type_synonym headerLine = "char list \<times> nat \<times> char list"

definition goodLine :: "headerLine \<Rightarrow> bool" where
  "goodLine h \<longleftrightarrow> (case h of (name, k, v) \<Rightarrow> name \<noteq> [] \<and> CHR '':'' \<notin> set name \<and> CR \<notin> set name \<and> CR \<notin> set v \<and>
     (v = [] \<or> hd v \<noteq> CHR '' ''))"

definition lineText :: "headerLine \<Rightarrow> char list" where
  "lineText h = (case h of (name, k, v) \<Rightarrow> name @ CHR '':'' # replicate k (CHR '' '') @ v @ [CR, LF])"

definition lineEvents :: "headerLine \<Rightarrow> mEvent list" where
  "lineEvents h = (case h of (name, k, v) \<Rightarrow> [(MHeaderName, name), (MHeaderValue, v)])"

lemma emits_line:
  assumes "at_name B p" "goodLine h"
  shows "\<exists>q. emits p (lineText h @ rest) (lineEvents h) q rest \<and> at_name B q"
proof -
  obtain name k v where h: "h = (name, k, v)"
    by (cases h)
  let ?tail = "replicate k (CHR '' '') @ v @ CR # LF # rest"
  have good: "name \<noteq> []" "CHR '':'' \<notin> set name" "CR \<notin> set name" "CR \<notin> set v" "v = [] \<or> hd v \<noteq> CHR '' ''"
    using assms(2) by (simp_all add: goodLine_def h)
  define q where "q = (m_begin p)\<lparr>m_tokenLength := length name, m_globalLength := m_globalLength (m_begin p) + (length name + 1),
       m_topCo := 377, m_nestedCo := 0, m_token := MHeaderName, m_state := MResult\<rparr>"
  have "m_parse p (name @ CHR '':'' # ?tail) = m_phase 377 (m_begin p) (name @ CHR '':'' # ?tail)"
    using assms(1) by (auto simp: at_name_def m_parse_def m_resume_def)
  also have "\<dots> = (q, Some (length name + 1, name))"
    using assms(1) good by (subst name_phase) (simp_all add: at_name_def q_def)
  finally have e1: "emits p (name @ CHR '':'' # ?tail) [(MHeaderName, name)] q ?tail"
    using emits_result [of p "name @ CHR '':'' # ?tail" q "length name + 1" name] by (simp add: q_def)
  have "m_parse q ?tail = m_phase 394 (m_begin q) ?tail"
    using assms(1) good by (simp add: at_name_def m_parse_def m_resume_def q_def)
  moreover obtain r where r: "m_phase 394 (m_begin q) ?tail = (r, Some (k + length v + 2, v))"
    "r = (m_begin q)\<lparr>m_tokenStart := m_tokenStart r, m_tokenLength := m_tokenLength r, m_globalLength := m_globalLength r,
          m_topCo := 394, m_nestedCo := 0, m_token := MHeaderValue, m_state := MResult\<rparr>"
    using value_phase [of v "m_begin q" k rest] assms(1) good by (auto simp: at_name_def q_def)
  have fields: "m_token r = MHeaderValue" "m_state r = MResult" "at_name B r"
    using assms(1) by (subst r(2), simp add: at_name_def q_def)+
  ultimately have e2: "emits q ?tail [(MHeaderValue, v)] r rest"
    using emits_result [of q ?tail r "k + length v + 2" v] r(1) fields by simp
  show ?thesis
    using emits_trans [OF e1 e2] fields(3) by (auto simp: h lineText_def lineEvents_def)
qed

lemma emits_lines:
  assumes "at_name B p" "list_all goodLine hs"
  shows "\<exists>q. emits p (concat (map lineText hs) @ rest) (concat (map lineEvents hs)) q rest \<and> at_name B q"
  using assms
proof (induction hs arbitrary: p)
  case Nil
  then show ?case
    using emits_refl by auto
next
  case (Cons h hs)
  then obtain q where q: "emits p (lineText h @ concat (map lineText hs) @ rest) (lineEvents h) q (concat (map lineText hs) @ rest)"
      "at_name B q"
    using emits_line by (metis list.pred_inject(2))
  with Cons obtain r where "emits q (concat (map lineText hs) @ rest) (concat (map lineEvents hs)) r rest" "at_name B r"
    by auto
  with q show ?case
    using emits_trans by fastforce
qed

text \<open>The empty line is reported as an empty name, then the end of the headers without reading.\<close>

lemma emits_end:
  assumes "at_name B p" "rest \<noteq> []"
  shows "\<exists>q. emits p (CR # LF # rest) [(MHeaderName, []), (MPartHeaderEnd, [])] q rest \<and> in_body B q"
proof -
  define q where "q = (m_begin p)\<lparr>m_tokenLength := 0, m_globalLength := m_globalLength (m_begin p) + 2,
       m_topCo := 377, m_nestedCo := 0, m_token := MHeaderName, m_state := MResult\<rparr>"
  define r where "r = q\<lparr>m_topCo := 402, m_token := MPartHeaderEnd, m_state := MResult\<rparr>"
  have "m_parse p (CR # LF # rest) = m_phase 377 (m_begin p) (CR # LF # rest)"
    using assms(1) by (auto simp: at_name_def m_parse_def m_resume_def)
  also have "\<dots> = (q, Some (2, []))"
    using assms(1) by (subst end_phase) (simp_all add: at_name_def q_def)
  finally have e1: "emits p (CR # LF # rest) [(MHeaderName, [])] q rest"
    using emits_result [of p "CR # LF # rest" q 2 "[]"] by (simp add: q_def)
  have "m_parse q rest = (r, Some (0, []))"
    using assms by (simp add: at_name_def m_parse_def m_resume_def partHeaderEnd_def q_def r_def)
  then have e2: "emits q rest [(MPartHeaderEnd, [])] r rest"
    using emits_result [of q rest r 0 "[]"] assms(2) by (simp add: r_def)
  have "in_body B r"
    using assms(1) by (simp add: at_name_def in_body_def q_def r_def)
  with emits_trans [OF e1 e2] show ?thesis by auto
qed

section \<open>The preamble\<close>

lemma run_step:
  assumes "func (p\<lparr>m_tokenLength := m_tokenLength p + 1\<rparr>) c = (q, True)" "boundaryMatchIndex q \<noteq> 1" "m_state q \<noteq> MResult"
    "m = n + 1"
  shows "m_run func p n (c # cs) = m_run func q m cs"
  using assms by simp

lemma run_boundary:
  assumes "boundary p = us @ vs" "m_matchIndex p = length us" "m_nestedCo p = (if vs = [] then 550 else 502)"
    "boundaryMatchIndex p = 0" "m_state p = MParsing"
  shows "m_run parsePreamble p n (vs @ ys) =
    m_run parsePreamble (p\<lparr>m_tokenLength := m_tokenLength p + length vs, m_matchIndex := length us + length vs, m_nestedCo := 550\<rparr>)
      (n + length vs) ys"
  using assms
proof (induction vs arbitrary: us p n)
  case Nil
  then have "p\<lparr>m_tokenLength := m_tokenLength p, m_matchIndex := length us, m_nestedCo := 550\<rparr> = p"
    by (cases p) simp
  then show ?case by simp
next
  case (Cons v vs)
  let ?q = "p\<lparr>m_tokenLength := Suc (m_tokenLength p), m_matchIndex := Suc (length us), m_nestedCo := (if vs = [] then 550 else 502)\<rparr>"
  have "parsePreamble (p\<lparr>m_tokenLength := Suc (m_tokenLength p)\<rparr>) v = (?q, True)"
    using Cons.prems by (simp add: parsePreamble_def matchChar_def matchMore_def m_co_def)
  then have "m_run parsePreamble p n ((v # vs) @ ys) = m_run parsePreamble ?q (Suc n) (vs @ ys)"
    using Cons.prems by simp
  also have "\<dots> = m_run parsePreamble (?q\<lparr>m_tokenLength := m_tokenLength ?q + length vs,
      m_matchIndex := length (us @ [v]) + length vs, m_nestedCo := 550\<rparr>) (Suc n + length vs) ys"
    using Cons.prems by (intro Cons.IH) simp_all
  finally show ?case by simp
qed

definition fresh :: "char list \<Rightarrow> multipart \<Rightarrow> bool" where
  "fresh B p \<longleftrightarrow> boundary p = B \<and> m_topCo p = 0 \<and> m_nestedCo p = 0 \<and> m_state p = MParsing \<and> m_globalStart p = 0 \<and>
     \<not> emitBoundaryCandidate p \<and> boundaryMatchIndex p = 0 \<and> candidate p = []"

lemma emits_preamble:
  assumes "fresh B p"
  shows "\<exists>q. emits p (''--'' @ B @ [CR, LF] @ rest) [(MBoundary, ''--'' @ B @ [CR, LF])] q rest \<and> at_name B q"
proof -
  let ?data = "''--'' @ B @ [CR, LF] @ rest"
  let ?p = "p\<lparr>m_tokenStart := 0, m_tokenLength := 0, m_token := MBoundary, m_state := MParsing\<rparr>"
  let ?at = "\<lambda>k i l. p\<lparr>m_tokenStart := 0, m_tokenLength := k, m_matchIndex := i, m_nestedCo := l, m_token := MBoundary, m_state := MParsing\<rparr>"
  have f: "boundary p = B" "m_nestedCo p = 0" "m_globalStart p = 0" "boundaryMatchIndex p = 0"
    using assms by (simp_all add: fresh_def)
  let ?run = "m_run parsePreamble"
  have d1: "?run ?p 0 (CHR ''-'' # ys) = ?run (?at 1 0 497) 1 ys" for ys
    using f by (cases p) (intro run_step, simp_all add: parsePreamble_def preambleTop_def m_co_def)
  have d2: "?run (?at 1 0 497) 1 (CHR ''-'' # ys) = ?run (?at 2 0 (if B = [] then 550 else 502)) 2 ys" for ys
    using f run_step [of parsePreamble "?at 1 0 497" "CHR ''-''" "?at 2 0 (if B = [] then 550 else 502)" 2 1 ys]
    by (cases p) (simp add: parsePreamble_def matchMore_def m_co_def numeral_2_eq_2)
  have d3: "?run (?at k i 550) n (CR # ys) = ?run (?at (k + 1) i 553) (n + 1) ys" for k i n ys
    using f by (cases p) (intro run_step, simp_all add: parsePreamble_def m_co_def)
  let ?q = "(?at (length B + 4) (length B) (-1))\<lparr>m_state := MResult\<rparr>"
  have d4: "?run (?at (2 + length B + 1) (length B) 553) n (LF # ys) = (?q, n + 1, True)" for n ys
    using f by (cases p) (simp add: parsePreamble_def m_co_def)
  have "?run ?p 0 ?data = ?run (?at 2 0 (if B = [] then 550 else 502)) 2 (B @ [CR, LF] @ rest)"
    using d1 d2 by simp
  also have "\<dots> = ?run (?at (2 + length B) (length B) 550) (2 + length B) ([CR, LF] @ rest)"
  proof -
    let ?X = "?at 2 0 (if B = [] then 550 else 502)"
    have "?run ?X 2 (B @ [CR, LF] @ rest) = ?run (?X\<lparr>m_tokenLength := m_tokenLength ?X + length B,
        m_matchIndex := length ([] :: char list) + length B, m_nestedCo := 550\<rparr>) (2 + length B) ([CR, LF] @ rest)"
      using f by (intro run_boundary) simp_all
    moreover have "?X\<lparr>m_tokenLength := m_tokenLength ?X + length B,
        m_matchIndex := length ([] :: char list) + length B, m_nestedCo := 550\<rparr> = ?at (2 + length B) (length B) 550"
      by (cases p) simp
    ultimately show ?thesis by (simp only:)
  qed
  also have "\<dots> = (?q, length B + 4, True)"
    using d3 [where k = "2 + length B" and i = "length B" and n = "2 + length B" and ys = "LF # rest"]
      d4 [where n = "2 + length B + 1" and ys = rest]
    by (simp del: m_run.simps)
  finally have run: "?run ?p 0 ?data = (?q, length B + 4, True)" .
  define r where "r = ?q\<lparr>m_globalLength := m_globalLength p + (length B + 4), m_nestedCo := 0, m_topCo := 358\<rparr>"
  have "m_parse p ?data = m_phase 358 (p\<lparr>m_tokenStart := 0, m_tokenLength := 0\<rparr>) ?data"
    using assms by (simp add: fresh_def m_parse_def m_resume_def)
  also have "\<dots> = (r, Some (length B + 4, ''--'' @ B @ [CR, LF]))"
    using run by (simp del: m_run.simps add: m_phase_def m_process_def m_deliver_def r_def numeral_eq_Suc)
  finally have "emits p ?data [(MBoundary, ''--'' @ B @ [CR, LF])] r rest"
    using emits_result [of p ?data r "length B + 4" "''--'' @ B @ [CR, LF]"]
    by (simp add: r_def numeral_eq_Suc)
  moreover have "at_name B r"
    using assms by (simp add: fresh_def at_name_def r_def)
  ultimately show ?thesis by blast
qed

section \<open>A message of one part\<close>

definition partText :: "headerLine list \<Rightarrow> char list \<Rightarrow> char list" where
  "partText hs body = concat (map lineText hs) @ [CR, LF] @ body"

definition headEvents :: "char list \<Rightarrow> headerLine list \<Rightarrow> mEvent list" where
  "headEvents B hs = (MBoundary, ''--'' @ B @ [CR, LF]) # concat (map lineEvents hs) @ [(MHeaderName, []), (MPartHeaderEnd, [])]"

definition goodBoundary :: "char list \<Rightarrow> bool" where
  "goodBoundary B \<longleftrightarrow> length B \<le> 70 \<and> NUL \<notin> set B"

lemma takeWhile_NUL: "NUL \<notin> set B \<Longrightarrow> takeWhile (\<lambda>c. c \<noteq> NUL) B = B"
  by (auto simp: takeWhile_eq_all_conv)

lemma fresh_init:
  assumes "goodBoundary B"
  shows "fresh B (fst (initWithBoundary B new_multipart))"
proof -
  have "takeWhile (\<lambda>c. c \<noteq> NUL) (B @ replicate (71 - length B) NUL) = B"
    using assms by (subst takeWhile_append2) (auto simp: goodBoundary_def intro: Cons_replicate_eq [THEN iffD2])
  then show ?thesis
    using assms
    by (simp add: goodBoundary_def fresh_def initWithBoundary_def Let_def strncpy_def takeWhile_NUL m_reset_def new_multipart_def)
qed

lemma emits_head:
  assumes "goodBoundary B" "list_all goodLine hs" "rest \<noteq> []"
  shows "\<exists>q. emits (fst (initWithBoundary B new_multipart)) (''--'' @ B @ [CR, LF] @ concat (map lineText hs) @ [CR, LF] @ rest)
      (headEvents B hs) q rest \<and> in_body B q"
proof -
  obtain q where q: "emits (fst (initWithBoundary B new_multipart)) (''--'' @ B @ [CR, LF] @ concat (map lineText hs) @ [CR, LF] @ rest)
      [(MBoundary, ''--'' @ B @ [CR, LF])] q (concat (map lineText hs) @ [CR, LF] @ rest)" "at_name B q"
    using emits_preamble [OF fresh_init [OF assms(1)]] by blast
  obtain r where r: "emits q (concat (map lineText hs) @ [CR, LF] @ rest) (concat (map lineEvents hs)) r ([CR, LF] @ rest)" "at_name B r"
    using emits_lines [OF q(2) assms(2)] by blast
  obtain s where s: "emits r ([CR, LF] @ rest) [(MHeaderName, []), (MPartHeaderEnd, [])] s rest" "in_body B s"
    using emits_end [OF r(2) assms(3)] by auto
  show ?thesis
    using emits_trans [OF emits_trans [OF q(1) r(1)] s(1)] s(2) by (auto simp: headEvents_def)
qed

text \<open>What follows the first body: every further part, headers and body, between delimiters.\<close>

definition sectionsText :: "char list \<Rightarrow> char list list \<Rightarrow> char list" where
  "sectionsText B xs = concat (map (\<lambda>x. delimiter B @ [CR, LF] @ x) xs) @ delimiter B @ ''--''"

definition pieceEvents :: "char list list \<Rightarrow> mEvent list" where
  "pieceEvents ps = map (\<lambda>d. (MPartBody, d)) ps"

lemma bodyEvents_pieces: "bodyEvents es \<Longrightarrow> es = pieceEvents (map snd es)"
  by (induction es) (auto simp: pieceEvents_def)

lemma emits_next:
  assumes "in_body B p" "quiet B x" "length B \<le> 70"
  shows "\<exists>ps q. emits p (x @ delimiter B @ [CR, LF] @ rest) (pieceEvents ps @ [(MBoundary, [])]) q rest \<and>
    concat ps = x \<and> in_body B q"
proof -
  let ?rest = "delimiter B @ [CR, LF] @ rest"
  obtain es q y where q: "emits p (x @ ?rest) es q (y @ ?rest)" "in_body B q" "CR \<notin> set y" "bodyEvents es"
      "concat (map snd es) @ y = x"
    using quiet_body [OF assms(2,1,3), of ?rest] by auto
  obtain r where r: "emits q (y @ ?rest) [(MPartBody, y)] r ?rest" "in_candidate B r"
    using body_to_candidate [OF q(2,3), of "LF # ''--'' @ B @ [CR, LF] @ rest"] by (auto simp: delimiter_def)
  define s where "s = r\<lparr>m_globalLength := m_globalLength r + (length B + 6), boundaryMatchIndex := 0,
     m_token := MBoundary, m_state := MResult, candidate := []\<rparr>"
  have "m_parse r ?rest = (s, Some (length B + 6, []))"
    using r(2) candidate_next [of r rest] assms(3) by (simp add: m_parse_def in_candidate_def s_def)
  then have e: "emits r ?rest [(MBoundary, [])] s rest"
    using emits_result [of r ?rest s "length B + 6" "[]"] by (simp add: s_def)
  have "in_body B s"
    using r(2) by (simp add: in_candidate_def in_body_def s_def)
  moreover have "es @ [(MPartBody, y)] = pieceEvents (map snd es @ [y])"
    using bodyEvents_pieces [OF q(4)] by (simp add: pieceEvents_def)
  ultimately show ?thesis
    using emits_trans [OF emits_trans [OF q(1) r(1)] e] q(5)
    by (intro exI [of _ "map snd es @ [y]"] exI [of _ s]) simp
qed

lemma sections_events:
  assumes "in_body B p" "quiet B x" "list_all (quiet B) xs" "length B \<le> 70"
  shows "\<exists>k ps pss q. m_events k p [] (x @ sectionsText B xs @ z) =
      Some (pieceEvents ps @ concat (map (\<lambda>qs. (MBoundary, []) # pieceEvents qs) pss) @ [(MFinishedToken, [])], q, z) \<and>
    concat ps = x \<and> map concat pss = xs \<and> m_state q = MFinished"
  using assms(1-3)
proof (induction xs arbitrary: p x)
  case Nil
  obtain k es q where k: "m_events k p [] (x @ delimiter B @ ''--'' @ z) = Some (es @ [(MFinishedToken, [])], q, z)"
      "bodyEvents es" "concat (map snd es) = x" "m_state q = MFinished"
    using body_to_end [OF Nil.prems(1,2) assms(4)] by blast
  then show ?case
    using bodyEvents_pieces [OF k(2)]
    by (intro exI [of _ k] exI [of _ "map snd es"] exI [of _ "[]"] exI [of _ q]) (simp add: sectionsText_def)
next
  case (Cons y ys)
  have split: "x @ sectionsText B (y # ys) @ z = x @ delimiter B @ [CR, LF] @ y @ sectionsText B ys @ z"
    by (simp add: sectionsText_def)
  obtain ps q where q: "emits p (x @ delimiter B @ [CR, LF] @ y @ sectionsText B ys @ z) (pieceEvents ps @ [(MBoundary, [])]) q
      (y @ sectionsText B ys @ z)" "concat ps = x" "in_body B q"
    using emits_next [OF Cons.prems(1,2) assms(4)] by blast
  obtain k ps' pss r where r: "m_events k q [] (y @ sectionsText B ys @ z) =
      Some (pieceEvents ps' @ concat (map (\<lambda>qs. (MBoundary, []) # pieceEvents qs) pss) @ [(MFinishedToken, [])], r, z)"
      "concat ps' = y" "map concat pss = ys" "m_state r = MFinished"
    using Cons.IH [OF q(3), of y] Cons.prems(3) by (auto simp del: append_assoc)
  obtain j where "m_events j p [] (x @ sectionsText B (y # ys) @ z) = Some ((pieceEvents ps @ [(MBoundary, [])]) @
      pieceEvents ps' @ concat (map (\<lambda>qs. (MBoundary, []) # pieceEvents qs) pss) @ [(MFinishedToken, [])], r, z)"
    using emits_events [OF q(1) r(1)] unfolding split by blast
  then show ?case
    using q(2) r(2-4) by (intro exI [of _ j] exI [of _ ps] exI [of _ "ps' # pss"] exI [of _ r]) simp
qed

lemma sectionsText_not_Nil [simp]: "sectionsText B xs \<noteq> []"
  by (simp add: sectionsText_def)

text \<open>What follows the closing delimiter, \<open>z\<close>, is not read.\<close>

lemma message_events:
  assumes "goodBoundary B" "list_all goodLine hs" "quiet B body" "list_all (quiet B) parts"
  shows "\<exists>k pieces piecess q.
    m_events k (fst (initWithBoundary B new_multipart)) []
        (''--'' @ B @ [CR, LF] @ partText hs body @ sectionsText B parts @ z) =
      Some (headEvents B hs @ pieceEvents pieces @
        concat (map (\<lambda>ps. (MBoundary, []) # pieceEvents ps) piecess) @ [(MFinishedToken, [])], q, z) \<and>
    concat pieces = body \<and> map concat piecess = parts \<and> m_state q = MFinished"
proof -
  let ?rest = "body @ sectionsText B parts @ z"
  obtain q where q: "emits (fst (initWithBoundary B new_multipart))
      (''--'' @ B @ [CR, LF] @ concat (map lineText hs) @ [CR, LF] @ ?rest) (headEvents B hs) q ?rest" "in_body B q"
    using emits_head [OF assms(1,2), of ?rest] by auto
  have len: "length B \<le> 70"
    using assms(1) by (simp add: goodBoundary_def)
  obtain k ps pss r where r: "m_events k q [] ?rest =
      Some (pieceEvents ps @ concat (map (\<lambda>qs. (MBoundary, []) # pieceEvents qs) pss) @ [(MFinishedToken, [])], r, z)"
      "concat ps = body" "map concat pss = parts" "m_state r = MFinished"
    using sections_events [OF q(2) assms(3,4) len] by blast
  show ?thesis
    using emits_events [OF q(1) r(1)] r(2-4) unfolding partText_def by (metis append_assoc)
qed

text \<open>
  C14: a multipart message, parsed from one buffer by a parser that was initialized with its
  boundary: the loop ends with the parser finished and reports the boundary, every header of the
  first part with name and value as they were written (less the spaces before the value), the
  empty name and the end of the headers, then pieces of the body that put together are the body.
  Of each further part it reports the boundary and pieces that put together are the part's bytes,
  its headers included. The bytes between two delimiters may be any in which every carriage return
  is followed, before the next delimiter, by something that tells it from the delimiter.
\<close>

theorem multipart_roundtrip:
  assumes "goodBoundary B" "list_all goodLine hs" "quiet B body" "list_all (quiet B) parts"
  shows "\<exists>k pieces piecess q.
    m_events k (fst (initWithBoundary B new_multipart)) []
        (''--'' @ B @ [CR, LF] @ partText hs body @ sectionsText B parts) =
      Some (headEvents B hs @ pieceEvents pieces @
        concat (map (\<lambda>ps. (MBoundary, []) # pieceEvents ps) piecess) @ [(MFinishedToken, [])], q, []) \<and>
    concat pieces = body \<and> map concat piecess = parts \<and> m_state q = MFinished"
  using message_events [OF assms, of "[]"] by simp

text \<open>
  A carriage return right before the delimiter: the candidate it starts fails on the carriage
  return of the delimiter, which is reported with it, and the delimiter is lost.
\<close>

lemma body_swallows:
  assumes "in_body B p" "quiet B x" "length B \<le> 70" "CR \<notin> set B"
  shows "\<exists>k es q field. m_events k p [] (x @ CR # delimiter B @ ''--'') = Some (es, q, field) \<and>
    bodyEvents es \<and> concat (map snd es) @ field = x @ CR # delimiter B @ ''--'' \<and> m_state q = MParsing"
proof -
  let ?tail = "LF # ''--'' @ B @ ''--''"
  obtain es q y where q: "emits p (x @ CR # CR # ?tail) es q (y @ CR # CR # ?tail)" "in_body B q" "CR \<notin> set y" "bodyEvents es"
      "concat (map snd es) @ y = x"
    using quiet_body [OF assms(2,1,3), of "CR # CR # ?tail"] by auto
  obtain r where r: "emits q (y @ CR # CR # ?tail) [(MPartBody, y)] r ([CR] @ CR # ?tail)" "in_candidate B r"
    using body_to_candidate [OF q(2,3)] by auto
  obtain s where s: "emits r ([CR] @ CR # ?tail) [(MPartBody, [CR] @ [CR])] s ?tail" "in_body B s"
    using candidate_to_body [OF r(2), of "[CR]" CR ?tail] assms(3) by (auto simp: delimiter_def)
  obtain s' where s': "m_parse s ?tail = m_phase 417 s' ?tail" "boundaryMatchIndex s' = 0"
    by (rule in_body_parse [OF s(2), of ?tail]) simp_all
  have "CR \<notin> set ?tail"
    using assms(4) by simp
  from body_phase_end [OF this s'(2)] obtain t where t: "m_parse s ?tail = (t, Some (length ?tail, ?tail))" "m_state t = MParsing"
    using s'(1) by simp
  then have e: "m_events 2 s [] ?tail = Some ([], t, ?tail)"
    by (simp add: numeral_2_eq_2)
  obtain k where "m_events k p [] (x @ CR # CR # ?tail) =
      Some (((es @ [(MPartBody, y)]) @ [(MPartBody, [CR] @ [CR])]) @ [], t, ?tail)"
    using emits_events [OF emits_trans [OF emits_trans [OF q(1) r(1)] s(1)] e] by blast
  then show ?thesis
    using q(4,5) t(2) unfolding delimiter_def
    by (intro exI [of _ k] exI [of _ "es @ [(MPartBody, y), (MPartBody, [CR, CR])]"] exI [of _ t] exI [of _ ?tail]) auto
qed

text \<open>
  A body that ends with a carriage return: the same message is not recognised. The parser
  consumes it to the last byte, reports the delimiter as part of the body and does not finish,
  although the delimiter starts right after the body's last byte.
\<close>

theorem trailing_cr_swallows_delimiter:
  assumes "goodBoundary B" "CR \<notin> set B" "list_all goodLine hs" "quiet B body"
  shows "\<exists>k pieces q field.
    m_events k (fst (initWithBoundary B new_multipart)) [] 
        (''--'' @ B @ [CR, LF] @ partText hs (body @ [CR]) @ delimiter B @ ''--'') =
      Some (headEvents B hs @ pieceEvents pieces, q, field) \<and>
    concat pieces @ field = body @ [CR] @ delimiter B @ ''--'' \<and> m_state q \<noteq> MFinished"
proof -
  let ?rest = "body @ CR # delimiter B @ ''--''"
  obtain q where q: "emits (fst (initWithBoundary B new_multipart))
      (''--'' @ B @ [CR, LF] @ concat (map lineText hs) @ [CR, LF] @ ?rest) (headEvents B hs) q ?rest" "in_body B q"
    using emits_head [OF assms(1,3), of ?rest] by auto
  obtain k es r field where r: "m_events k q [] ?rest = Some (es, r, field)" "bodyEvents es"
      "concat (map snd es) @ field = ?rest" "m_state r = MParsing"
    using body_swallows [OF q(2) assms(4) _ assms(2)] assms(1) by (auto simp: goodBoundary_def)
  obtain j where "m_events j (fst (initWithBoundary B new_multipart)) []
        (''--'' @ B @ [CR, LF] @ partText hs (body @ [CR]) @ delimiter B @ ''--'') =
      Some (headEvents B hs @ es, r, field)"
    using emits_events [OF q(1) r(1)] by (auto simp: partText_def)
  then show ?thesis
    using r(3,4) bodyEvents_pieces [OF r(2)] by (intro exI [of _ j] exI [of _ "map snd es"] exI [of _ r] exI [of _ field]) simp
qed

section \<open>After the first body\<close>

lemma m_run_frame:
  "m_run parseBodyUntilBoundary p n data = (q, k, good) \<Longrightarrow> m_topCo q = m_topCo p \<and> m_token q = m_token p"
proof (induction parseBodyUntilBoundary p n data rule: m_run.induct)
  case (2 p n c cs)
  then show ?case
    by (auto simp: parseBodyUntilBoundary_def shorten_def split: if_splits)
qed simp

lemma body_phase_frame:
  assumes "m_phase 417 p data = (q, Some r)"
  shows "m_topCo q = 417 \<and> m_token q = MPartBody"
  using assms m_run_frame [of "p\<lparr>m_token := MPartBody, m_state := MParsing\<rparr>" 0 data]
  by (auto simp: m_phase_def m_process_def m_deliver_def Let_def split: prod.splits option.splits if_splits)

definition bodyToken :: "mToken \<Rightarrow> bool" where
  "bodyToken t \<longleftrightarrow> t = MPartBody \<or> t = MBoundary \<or> t = MFinishedToken"

lemma candidateLoop_frame:
  "candidateLoop p n data = (q, Some (k, decided)) \<Longrightarrow> m_topCo q = m_topCo p \<and>
     (if decided then m_state q = MResult \<or> m_state q = MFinished \<longrightarrow> m_token q = MBoundary \<or> m_token q = MFinishedToken
      else True)"
  by (induction p n data rule: candidateLoop.induct) (auto simp: Let_def split: if_splits)

lemma parse_in_body:
  assumes "m_parse p data = (q, Some r)" "m_topCo p = 402 \<or> m_topCo p = 417"
  shows "(m_topCo q = 402 \<or> m_topCo q = 417) \<and> (m_state q = MResult \<or> m_state q = MFinished \<longrightarrow> bodyToken (m_token q) \<or> data = [])"
proof -
  have resume: "m_topCo q = 417 \<and> m_token q = MPartBody" if "m_resume p' data = (q, Some r)" "m_topCo p' = 402 \<or> m_topCo p' = 417" for p'
    using that by (cases r) (auto simp: m_resume_def dest!: body_phase_frame)
  show ?thesis
    using assms candidateLoop_frame [of p 0 data]
    by (auto simp: m_parse_def bodyToken_def Let_def dest!: resume split: if_splits prod.splits option.splits)
qed

lemma events_in_body:
  "m_events k p field data = Some (es, r) \<Longrightarrow> m_topCo p = 402 \<or> m_topCo p = 417 \<Longrightarrow> list_all (\<lambda>e. bodyToken (fst e)) es"
proof (induction k p field data arbitrary: es r rule: m_events.induct)
  case (2 k p field data)
  then show ?case
    using parse_in_body [of p data]
    by (auto split: if_splits prod.splits option.splits)
qed simp

lemma events_mono: "m_events k p field data = Some x \<Longrightarrow> m_events (k + i) p field data = Some x"
proof (induction k p field data arbitrary: x rule: m_events.induct)
  case (2 k p field data)
  show ?case
  proof (cases "data = []")
    case False
    obtain q r where "m_parse p data = (q, r)"
      by fastforce
    with 2 False show ?thesis
      by (cases x) (auto split: if_splits option.splits)
  qed (use 2 in simp)
qed simp

text \<open>
  After the headers of the first part the parser never reports a header again. Whatever bytes
  follow the empty line, and however many delimiters there are between them, the loop reports only
  pieces of body, boundaries and the end: the headers of a second part are reported as its body.
\<close>

theorem later_headers_never_reported:
  assumes "goodBoundary B" "list_all goodLine hs" "rest \<noteq> []"
    "m_events k (fst (initWithBoundary B new_multipart)) [] (''--'' @ B @ [CR, LF] @ partText hs rest) = Some (es, q, field)"
  shows "\<exists>fs. es = headEvents B hs @ fs \<and> list_all (\<lambda>e. fst e \<notin> {MHeaderName, MHeaderValue, MPartHeaderEnd}) fs"
proof -
  obtain p where p: "emits (fst (initWithBoundary B new_multipart)) (''--'' @ B @ [CR, LF] @ partText hs rest)
      (headEvents B hs) p rest" "in_body B p"
    using emits_head [OF assms(1-3)] by (auto simp: partText_def)
  obtain j where j: "\<And>i. m_events (j + i) (fst (initWithBoundary B new_multipart)) [] (''--'' @ B @ [CR, LF] @ partText hs rest) =
      map_option (\<lambda>(fs, r). (headEvents B hs @ fs, r)) (m_events i p [] rest)"
    using p(1) unfolding emits_def by blast
  obtain fs where fs: "es = headEvents B hs @ fs" "m_events k p [] rest = Some (fs, q, field)"
    using j [of k] events_mono [OF assms(4), of j] by (auto simp: add.commute)
  have "list_all (\<lambda>e. bodyToken (fst e)) fs"
    using events_in_body [OF fs(2)] p(2) by (auto simp: in_body_def)
  then have "list_all (\<lambda>e. fst e \<notin> {MHeaderName, MHeaderValue, MPartHeaderEnd}) fs"
    by (rule list.pred_mono_strong) (auto simp: bodyToken_def)
  with fs(1) show ?thesis by blast
qed

section \<open>The boundary\<close>

lemma takeWhile_replicate_NUL: "takeWhile (\<lambda>c. c \<noteq> NUL) (replicate n NUL @ xs) = (if n = 0 then takeWhile (\<lambda>c. c \<noteq> NUL) xs else [])"
  by (cases n) simp_all

text \<open>
  A parser that was initialized with boundary A, then with B. The second initialization
  succeeds, and its boundary is B, exactly when B has no NUL, at most 70 bytes, and is not shorter
  than A: of a longer A the end stays behind B and the result is false. A new parser is the case
  of an empty A.
\<close>

theorem reinitialization:
  assumes "goodBoundary A"
  shows "(snd (initWithBoundary B (fst (initWithBoundary A new_multipart))) \<longleftrightarrow> goodBoundary B \<and> length A \<le> length B) \<and>
    (goodBoundary B \<longrightarrow> boundary (fst (initWithBoundary B (fst (initWithBoundary A new_multipart)))) = B @ drop (length B) A)"
proof -
  have storage: "boundaryStorage (fst (initWithBoundary A new_multipart)) = A @ replicate (71 - length A) NUL"
    using assms by (simp add: goodBoundary_def initWithBoundary_def Let_def strncpy_def takeWhile_NUL m_reset_def new_multipart_def)
  define n where "n = min 70 (length B)"
  define C where "C = takeWhile (\<lambda>c. c \<noteq> NUL) (take n B)"
  have b: "boundary (fst (initWithBoundary B (fst (initWithBoundary A new_multipart)))) =
      takeWhile (\<lambda>c. c \<noteq> NUL) (C @ replicate (n - length C) NUL @ drop n A @ replicate (71 - length A - (n - length A)) NUL)"
    by (simp add: storage initWithBoundary_def [of B "fst (initWithBoundary A new_multipart)"] Let_def strncpy_def C_def n_def)
  have C: "NUL \<notin> set C" "length C \<le> n"
    using set_takeWhileD [of NUL] length_takeWhile_le [of _ "take n B"] by (fastforce simp: C_def n_def)+
  have A: "NUL \<notin> set (drop n A)"
    using assms set_drop_subset by (fastforce simp: goodBoundary_def)
  have bound: "boundary (fst (initWithBoundary B (fst (initWithBoundary A new_multipart)))) =
      (if length C = n then C @ drop n A else C)"
  proof -
    have "takeWhile (\<lambda>c. c \<noteq> NUL) (C @ xs) = C @ takeWhile (\<lambda>c. c \<noteq> NUL) xs" for xs
      using C(1) by (intro takeWhile_append2) auto
    moreover have "takeWhile (\<lambda>c. c \<noteq> NUL) (drop n A @ xs) = drop n A @ takeWhile (\<lambda>c. c \<noteq> NUL) xs" for xs
      using A by (intro takeWhile_append2) auto
    moreover have "takeWhile (\<lambda>c. c \<noteq> NUL) (replicate m NUL) = []" for m
      using takeWhile_replicate_NUL [of m "[]"] by (simp split: if_splits)
    ultimately show ?thesis
      unfolding b using C(2) by (simp add: takeWhile_replicate_NUL)
  qed
  have C_B: "C = B" if "goodBoundary B"
    using that by (simp add: goodBoundary_def C_def n_def takeWhile_NUL)
  have good: "goodBoundary B" if "length C = length B"
  proof -
    have n: "n = length B"
      using that C(2) by (simp add: n_def)
    then have "C = B"
      using that takeWhile_eq_take [of "\<lambda>c. c \<noteq> NUL" "take n B"] by (simp add: C_def)
    with C(1) n show ?thesis
      by (simp add: goodBoundary_def n_def)
  qed
  have long: "length C < length B \<and> length A \<le> 70" if "\<not> goodBoundary B"
    using that good assms C(2) by (fastforce simp: n_def goodBoundary_def)
  show ?thesis
  proof (cases "goodBoundary B")
    case True
    then have "n = length B"
      by (simp add: n_def goodBoundary_def)
    then have "boundary (fst (initWithBoundary B (fst (initWithBoundary A new_multipart)))) = B @ drop (length B) A"
      using bound C_B [OF True] by simp
    then show ?thesis
      using True by (simp add: initWithBoundary_def Let_def)
  next
    case False
    have "length C < length B" "length A \<le> 70"
      using long [OF False] by auto
    then have "length (boundary (fst (initWithBoundary B (fst (initWithBoundary A new_multipart))))) \<noteq> length B"
      using bound C(2) by (auto simp: n_def)
    then show ?thesis
      using False by (simp add: initWithBoundary_def Let_def)
  qed
qed

section \<open>Content-Disposition\<close>

lemma dropWhile_blanks: "x \<noteq> [] \<Longrightarrow> \<not> isBlank (hd x) \<Longrightarrow> dropWhile isBlank x = x"
  by (cases x) simp_all

lemma m_trim_id: "x \<noteq> [] \<Longrightarrow> \<not> isBlank (hd x) \<Longrightarrow> \<not> isBlank (last x) \<Longrightarrow> m_trim x = x"
  by (simp add: m_trim_def dropWhile_blanks hd_rev)

lemma m_trim_blank: "isBlank c \<Longrightarrow> m_trim (c # x) = m_trim x"
  by (simp add: m_trim_def)

lemma isBlank_simps [simp]: "isBlank (CHR '' '')" "\<not> isBlank (CHR 0x22)" "\<not> isBlank (CHR ''n'')" "\<not> isBlank (CHR ''f'')"
  "\<not> isBlank (CHR ''e'')" "\<not> isBlank (CHR ''a'')"
  by (simp_all add: isBlank_def)

lemma dispositionLoop_nil [simp]: "dispositionLoop [] d = d"
  by (simp add: dispositionLoop.simps [of "[]"])

lemma dispositionLoop_items:
  assumes "\<forall>r \<in> set rs. CHR '';'' \<notin> set r"
  shows "dispositionLoop (concat (map (\<lambda>r. CHR '';'' # r) rs)) d = fold dispositionItem rs d"
  using assms
proof (induction rs arbitrary: d)
  case (Cons r rs)
  let ?more = "concat (map (\<lambda>r. CHR '';'' # r) rs)"
  have "takeWhile (\<lambda>c. c \<noteq> CHR '';'') (r @ ?more) = r"
    using Cons.prems by (cases rs) (auto simp: takeWhile_eq_all_conv takeWhile_append2)
  then show ?case
    using Cons by (simp add: dispositionLoop.simps [of "CHR '';'' # r @ ?more"])
qed simp

definition quoted :: "char list \<Rightarrow> char list" where
  "quoted v = CHR 0x22 # v @ [CHR 0x22]"

lemma unquote_quoted [simp]: "unquote (quoted v) = v"
  by (simp add: unquote_def quoted_def nth_append)

lemma item_value:
  assumes "CHR ''='' \<notin> set key" "key \<noteq> []" "\<not> isBlank (hd key)" "\<not> isBlank (last key)"
    "v \<noteq> []" "\<not> isBlank (hd v)" "\<not> isBlank (last v)"
  shows "dispositionItem (CHR '' '' # key @ CHR ''='' # v) d =
    (if m_equalsIgnoreCase key ''name'' then d\<lparr>d_name := unquote v, hasName := True\<rparr>
     else if m_equalsIgnoreCase key ''filename'' then d\<lparr>d_fileName := unquote v, d_hasFileName := True\<rparr>
     else d)"
  using assms by (simp add: dispositionItem_def m_trim_blank m_trim_id Let_def)

lemma equals_names [simp]:
  "m_equalsIgnoreCase ''name'' ''name''" "\<not> m_equalsIgnoreCase ''filename'' ''name''"
  "m_equalsIgnoreCase ''filename'' ''filename''" "m_equalsIgnoreCase ''form-data'' ''form-data''"
  by (simp_all add: m_equalsIgnoreCase_def)

text \<open>The header a browser sends for an uploaded file.\<close>

definition fileDisposition :: "char list \<Rightarrow> char list \<Rightarrow> char list" where
  "fileDisposition N F = ''form-data; name='' @ quoted N @ ''; filename='' @ quoted F"

lemma disposition_items:
  assumes "\<forall>r \<in> set rs. CHR '';'' \<notin> set r" "rs \<noteq> []" "\<not> isBlank (last (concat (map (\<lambda>r. CHR '';'' # r) rs)))"
  shows "disposition_parse (''form-data'' @ concat (map (\<lambda>r. CHR '';'' # r) rs)) =
    (fold dispositionItem rs (empty_disposition\<lparr>disposition := ''form-data''\<rparr>), None)"
proof -
  let ?items = "concat (map (\<lambda>r. CHR '';'' # r) rs)"
  obtain zs where items: "?items = CHR '';'' # zs"
    using assms(2) by (cases rs) simp_all
  have "m_trim (''form-data'' @ ?items) = ''form-data'' @ ?items"
    using assms(2,3) by (intro m_trim_id) (auto simp: last_append)
  moreover have "takeWhile (\<lambda>c. c \<noteq> CHR '';'') (''form-data'' @ ?items) = ''form-data''"
    by (simp add: items)
  moreover have "m_trim ''form-data'' = ''form-data''"
    by (intro m_trim_id) simp_all
  ultimately show ?thesis
    using dispositionLoop_items [OF assms(1)] by (simp add: disposition_parse_def Let_def)
qed

text \<open>
  The header of an uploaded file, added to a part, is read back: it is form data, the field is
  N and the file name F, whatever else than a semicolon the two hold, and the part counts as a safe
  file exactly when F is a safe file name. With a semicolon in the file name, although it is
  between quotes, the value ends there: the file name is the quote and what precedes the semicolon.
\<close>

theorem fileDisposition_roundtrip:
  assumes "CHR '';'' \<notin> set N" "CHR '';'' \<notin> set F"
  shows "(\<exists>d. addHeader ''Content-Disposition'' (fileDisposition N F) partHeaders_reset =
       (partHeaders_reset\<lparr>ph_contentDisposition := fileDisposition N F, ph_disposition := d\<rparr>, None) \<and>
       d = \<lparr>disposition = ''form-data'', d_name = N, d_fileName = F, hasName = True, d_hasFileName = True\<rparr> \<and>
       (isSafeFile (fst (addHeader ''Content-Disposition'' (fileDisposition N F) partHeaders_reset)) \<longleftrightarrow> isSafeFileName F)) \<and>
    (\<forall>G. F \<noteq> [] \<and> \<not> isBlank (last F) \<and> last F \<noteq> CHR 0x22 \<and> CHR '';'' \<notin> set G \<and> CHR ''='' \<notin> set G \<longrightarrow>
       d_fileName (fst (disposition_parse (fileDisposition N (F @ CHR '';'' # G)))) = CHR 0x22 # F)"
proof (intro conjI allI impI)
  let ?start = "empty_disposition\<lparr>disposition := ''form-data''\<rparr>"
  let ?d = "\<lparr>disposition = ''form-data'', d_name = N, d_fileName = F, hasName = True, d_hasFileName = True\<rparr>"
  let ?rs = "['' name='' @ quoted N, '' filename='' @ quoted F]"
  have q: "quoted v \<noteq> []" "hd (quoted v) = CHR 0x22" "last (quoted v) = CHR 0x22" for v
    by (simp_all add: quoted_def)
  have name: "dispositionItem ('' name='' @ quoted v) d = d\<lparr>d_name := v, hasName := True\<rparr>" for v d
    using item_value [of "''name''" "quoted v" d] q [of v] by simp
  have fname: "dispositionItem ('' filename='' @ v) d = d\<lparr>d_fileName := unquote v, d_hasFileName := True\<rparr>"
    if "v \<noteq> []" "\<not> isBlank (hd v)" "\<not> isBlank (last v)" for v d
    using item_value [of "''filename''" v d] that by simp
  have "disposition_parse (''form-data'' @ concat (map (\<lambda>r. CHR '';'' # r) ?rs)) = (fold dispositionItem ?rs ?start, None)"
    using assms q by (intro disposition_items) (auto simp: quoted_def)
  then have parse: "disposition_parse (fileDisposition N F) = (?d, None)"
    using name [of N ?start] fname [of "quoted F"] q [of F] by (simp add: fileDisposition_def empty_disposition_def)
  have cd: "m_equalsIgnoreCase ''Content-Disposition'' ''Content-Disposition''"
    by (simp add: m_equalsIgnoreCase_def)
  show "\<exists>d. addHeader ''Content-Disposition'' (fileDisposition N F) partHeaders_reset =
       (partHeaders_reset\<lparr>ph_contentDisposition := fileDisposition N F, ph_disposition := d\<rparr>, None) \<and> d = ?d \<and>
       (isSafeFile (fst (addHeader ''Content-Disposition'' (fileDisposition N F) partHeaders_reset)) \<longleftrightarrow> isSafeFileName F)"
    using cd parse by (simp add: addHeader_def isSafeFile_def isFile_def isFormData_def hasSafeFileName_def)
  fix G
  assume G: "F \<noteq> [] \<and> \<not> isBlank (last F) \<and> last F \<noteq> CHR 0x22 \<and> CHR '';'' \<notin> set G \<and> CHR ''='' \<notin> set G"
  let ?ss = "['' name='' @ quoted N, '' filename='' @ CHR 0x22 # F, G @ [CHR 0x22]]"
  have last: "dispositionItem (G @ [CHR 0x22]) d = d" for d
  proof -
    have "CHR ''='' \<notin> set (m_trim (G @ [CHR 0x22]))"
      using G by (auto simp: m_trim_def dest!: set_dropWhileD)
    then show ?thesis by (simp add: dispositionItem_def Let_def memchr_def)
  qed
  have unquoted: "unquote (CHR 0x22 # F) = CHR 0x22 # F"
    using G by (auto simp: unquote_def last_conv_nth nth_Cons')
  have "disposition_parse (''form-data'' @ concat (map (\<lambda>r. CHR '';'' # r) ?ss)) = (fold dispositionItem ?ss ?start, None)"
    using assms q G by (intro disposition_items) (auto simp: quoted_def)
  then show "d_fileName (fst (disposition_parse (fileDisposition N (F @ CHR '';'' # G)))) = CHR 0x22 # F"
    using name [of N ?start] fname [of "CHR 0x22 # F"] G unquoted last
    by (simp add: fileDisposition_def quoted_def empty_disposition_def)
qed

section \<open>Concrete messages\<close>

abbreviation sampleLines :: "headerLine list" where
  "sampleLines \<equiv> [(''A'', 1, ''b'')]"

lemma sample_good: "goodBoundary ''B''" "list_all goodLine sampleLines" "quiet ''B'' [CHR ''x'', CR, LF, CHR ''y'']"
  by (simp_all add: goodBoundary_def goodLine_def quiet_def delimiter_def)

theorem multipart_roundtrip_witness:
  "\<exists>k pieces piecess q. m_events k (fst (initWithBoundary ''B'' new_multipart)) []
       (''--B'' @ [CR, LF] @ ''A: b'' @ [CR, LF, CR, LF] @ [CHR ''x'', CR, LF, CHR ''y''] @ [CR, LF] @ ''--B'' @ [CR, LF] @
        ''C: d'' @ [CR, LF] @ ''--B--'') =
     Some (headEvents ''B'' sampleLines @ pieceEvents pieces @
       concat (map (\<lambda>ps. (MBoundary, []) # pieceEvents ps) piecess) @ [(MFinishedToken, [])], q, []) \<and>
     concat pieces = [CHR ''x'', CR, LF, CHR ''y''] \<and> map concat piecess = [''C: d'']"
proof -
  have parts: "list_all (quiet ''B'') [''C: d'']"
    by (simp add: quiet_def)
  have same: "''--'' @ ''B'' @ [CR, LF] @ partText sampleLines [CHR ''x'', CR, LF, CHR ''y''] @ sectionsText ''B'' [''C: d''] =
      ''--B'' @ [CR, LF] @ ''A: b'' @ [CR, LF, CR, LF] @ [CHR ''x'', CR, LF, CHR ''y''] @ [CR, LF] @ ''--B'' @ [CR, LF] @
      ''C: d'' @ [CR, LF] @ ''--B--''"
    by (simp add: partText_def lineText_def delimiter_def sectionsText_def)
  from multipart_roundtrip [OF sample_good parts, unfolded same]
  show ?thesis
    by (elim exE conjE) (intro exI conjI)
qed

theorem trailing_cr_swallows_delimiter_witness:
  "\<exists>k pieces q field. m_events k (fst (initWithBoundary ''B'' new_multipart)) []
       (''--B'' @ [CR, LF] @ partText sampleLines [CHR ''x'', CR] @ [CR, LF] @ ''--B--'') =
     Some (headEvents ''B'' sampleLines @ pieceEvents pieces, q, field) \<and> m_state q \<noteq> MFinished"
proof -
  have "quiet ''B'' ''x''"
    by (simp add: quiet_def)
  then show ?thesis
    using trailing_cr_swallows_delimiter [of "''B''" sampleLines "''x''"] sample_good(1,2)
    by (fastforce simp: delimiter_def)
qed

theorem later_headers_never_reported_witness:
  "\<exists>k es q field. m_events k (fst (initWithBoundary ''B'' new_multipart)) []
       (''--B'' @ [CR, LF] @ partText sampleLines (''x'' @ sectionsText ''B'' [''C: d''])) = Some (es, q, field) \<and>
     (\<exists>fs. es = headEvents ''B'' sampleLines @ fs \<and>
        list_all (\<lambda>e. fst e \<notin> {MHeaderName, MHeaderValue, MPartHeaderEnd}) fs)"
proof -
  obtain p where p: "emits (fst (initWithBoundary ''B'' new_multipart)) (''--B'' @ [CR, LF] @
      partText sampleLines (''x'' @ sectionsText ''B'' [''C: d''])) (headEvents ''B'' sampleLines) p
      (''x'' @ sectionsText ''B'' [''C: d''])" "in_body ''B'' p"
    using emits_head [OF sample_good(1,2), of "''x'' @ sectionsText ''B'' [''C: d'']"] by (auto simp: partText_def)
  have "quiet ''B'' ''x''" "list_all (quiet ''B'') [''C: d'']"
    by (simp_all add: quiet_def)
  then obtain k es q field where "m_events k p [] (''x'' @ sectionsText ''B'' [''C: d'']) = Some (es, q, field)"
    using sections_events [OF p(2), of "''x''" "[''C: d'']" "[]"] by fastforce
  from emits_events [OF p(1) this] obtain j where
    j: "m_events j (fst (initWithBoundary ''B'' new_multipart)) [] (''--B'' @ [CR, LF] @
       partText sampleLines (''x'' @ sectionsText ''B'' [''C: d''])) = Some (headEvents ''B'' sampleLines @ es, q, field)"
    by blast
  then show ?thesis
    using later_headers_never_reported [OF sample_good(1,2), of "''x'' @ sectionsText ''B'' [''C: d'']" j] by auto
qed

theorem reinitialization_witness:
  "\<not> snd (initWithBoundary ''B'' (fst (initWithBoundary ''AA'' new_multipart))) \<and>
   boundary (fst (initWithBoundary ''B'' (fst (initWithBoundary ''AA'' new_multipart)))) = ''BA''"
  using reinitialization [of "''AA''" "''B''"] by (simp add: goodBoundary_def)

theorem fileDisposition_roundtrip_witness:
  "isSafeFile (fst (addHeader ''Content-Disposition'' (fileDisposition ''f'' ''a.txt'') partHeaders_reset)) \<and>
   d_fileName (fst (disposition_parse (fileDisposition ''f'' ''a.txt;x''))) = CHR 0x22 # ''a.txt''"
proof -
  have "isSafeFileName ''a.txt''"
    by (simp add: isSafeFileName_def code_def)
  moreover have "fileDisposition ''f'' ''a.txt;x'' = fileDisposition ''f'' (''a.txt'' @ CHR '';'' # ''x'')"
    by simp
  ultimately show ?thesis
    using fileDisposition_roundtrip [of "''f''" "''a.txt''"] by (auto simp: isBlank_def)
qed

end
