(* ===== verification/HttpParsedHeaders.thy ===== *)
theory HttpParsedHeaders
  imports HttpParser HttpText
begin

text \<open>
  \<open>Libraries/Http/Internal/HttpParsedHeaders.h\<close> and \<open>HttpParsedHeaders.inl\<close>: the head of an
  incoming message. Its bytes are collected chunk by chunk in the memory of the connection until
  the empty line has been seen; then the parser runs over them once and the offsets of its tokens
  are kept. What a chunk holds behind the empty line is given back to the stream.

  \<open>readHeaders\<close> are the bytes collected so far, \<open>availableHeader\<close> is the number of bytes left in
  the memory behind them. Giving bytes back to the stream is a parameter on a state of its own.
\<close>

section \<open>State\<close>

record tokenOffset =
  to_token :: Token
  to_start :: u32
  to_length :: u32

definition MaxNumTokens :: nat where "MaxNumTokens = 64"

record parsedHeaders =
  readHeaders :: "char list"
  availableHeader :: nat
  headersEndReceived :: bool
  parsedSuccessfully :: bool
  headersEndMatch :: nat
  ph_parser :: parser
  tokenOffsets :: "tokenOffset list"

definition headers_reset :: "Type \<Rightarrow> nat \<Rightarrow> parsedHeaders" where
  "headers_reset ty memory = \<lparr>readHeaders = [], availableHeader = memory, headersEndReceived = False,
     parsedSuccessfully = True, headersEndMatch = 0, ph_parser = init_parser ty, tokenOffsets = []\<rparr>"

section \<open>Looking tokens up\<close>

definition tokenText :: "parsedHeaders \<Rightarrow> tokenOffset \<Rightarrow> char list" where
  "tokenText p t = take (unat (to_length t)) (drop (unat (to_start t)) (readHeaders p))"

text \<open>The loop over the tokens; a value is looked for right behind its name.\<close>

fun headerLoop :: "parsedHeaders \<Rightarrow> char list \<Rightarrow> tokenOffset list \<Rightarrow> char list option" where
  "headerLoop p headerName [] = None"
| "headerLoop p headerName (t # ts) =
     (if to_token t = TkHeaderName
      then (case ts of
              [] \<Rightarrow> headerLoop p headerName ts
            | v # _ \<Rightarrow>
                if to_token v = TkHeaderValue \<and> equalsIgnoreCase (tokenText p t) headerName
                then Some (tokenText p v) else headerLoop p headerName ts)
      else headerLoop p headerName ts)"

definition getHeader :: "parsedHeaders \<Rightarrow> char list \<Rightarrow> char list option" where
  "getHeader p headerName = headerLoop p headerName (tokenOffsets p)"

fun findLoop :: "parsedHeaders \<Rightarrow> Token \<Rightarrow> tokenOffset list \<Rightarrow> char list option" where
  "findLoop p tk [] = None"
| "findLoop p tk (t # ts) = (if to_token t = tk then Some (tokenText p t) else findLoop p tk ts)"

definition findParserToken :: "parsedHeaders \<Rightarrow> Token \<Rightarrow> char list option" where
  "findParserToken p tk = findLoop p tk (tokenOffsets p)"

definition getHeadersLength :: "parsedHeaders \<Rightarrow> nat" where
  "getHeadersLength p = (if headersEndReceived p then length (readHeaders p) else 0)"

section \<open>The end of the head\<close>

text \<open>The switch on \<open>headersEndMatch\<close>: how much of the empty line the last bytes match.\<close>

definition scanStep :: "nat \<Rightarrow> char \<Rightarrow> nat" where
  "scanStep m c =
     (if m = 0 then (if c = CR then 1 else 0)
      else if m = 1 then (if c = LF then 2 else if c = CR then 1 else 0)
      else if m = 2 then (if c = CR then 3 else 0)
      else if m = 3 then (if c = LF then 4 else if c = CR then 1 else 0)
      else 0)"

text \<open>The new \<open>headersEndMatch\<close>, \<open>bytesToCopy\<close> and \<open>foundHeadersEnd\<close>.\<close>

fun scanHeadersEnd :: "nat \<Rightarrow> nat \<Rightarrow> char list \<Rightarrow> nat \<times> nat \<times> bool" where
  "scanHeadersEnd m idx [] = (m, idx, False)"
| "scanHeadersEnd m idx (c # cs) =
     (let m' = scanStep m c in if m' = 4 then (0, idx + 1, True) else scanHeadersEnd m' (idx + 1) cs)"

definition copyHeaderBytes :: "nat \<Rightarrow> char list \<Rightarrow> nat \<Rightarrow> string \<Rightarrow> string \<Rightarrow> parsedHeaders \<Rightarrow> parsedHeaders \<times> string option" where
  "copyHeaderBytes maxHeaderSize readData bytesToCopy outOfSpaceError sizeExceededError p =
     (if bytesToCopy > availableHeader p then (p, Some outOfSpaceError)
      else if length (readHeaders p) + bytesToCopy > maxHeaderSize then (p, Some sizeExceededError)
      else (p\<lparr>readHeaders := readHeaders p @ take bytesToCopy readData,
              availableHeader := availableHeader p - bytesToCopy\<rparr>, None))"

section \<open>Running the parser\<close>

definition pushToken :: "parsedHeaders \<Rightarrow> parsedHeaders \<times> bool" where
  "pushToken p =
     (if length (tokenOffsets p) < MaxNumTokens
      then (p\<lparr>tokenOffsets := tokenOffsets p @
               [\<lparr>to_token = token (ph_parser p), to_start = of_nat (tokenStart (ph_parser p)),
                 to_length = of_nat (tokenLength (ph_parser p))\<rparr>]\<rparr>, True)
      else (p\<lparr>parsedSuccessfully := False\<rparr>, False))"

text \<open>
  The loop. The boolean is False when \<open>pushToken\<close> made the function return; every call passes
  an \<open>onParserResult\<close> that accepts.
\<close>

function parserLoop :: "bool \<Rightarrow> parsedHeaders \<Rightarrow> char list \<Rightarrow> parsedHeaders \<times> bool" where
  "parserLoop stopAtHeadersEnd p headerData =
     (if \<not> (parsedSuccessfully p \<and> state (ph_parser p) \<noteq> StFinished) then (p, True)
      else
        (case parse (ph_parser p) headerData of
           (q, None) \<Rightarrow> (p\<lparr>parsedSuccessfully := False, ph_parser := q\<rparr>, True)
         | (q, Some (n, parsedData)) \<Rightarrow>
             (let p1 = p\<lparr>ph_parser := q\<rparr>;
                  (p2, pushed) = (if state q = StResult then pushToken p1 else (p1, True)) in
              if \<not> pushed then (p2, False)
              else if n > 0
              then (case sliceStart n headerData of
                      None \<Rightarrow> (p2\<lparr>parsedSuccessfully := False\<rparr>, True)
                    | Some rest \<Rightarrow>
                        if stopAtHeadersEnd \<and> token q = TkHeadersEnd then (p2, True)
                        else parserLoop stopAtHeadersEnd p2 rest)
              else if state q \<noteq> StFinished then (p2\<lparr>parsedSuccessfully := False\<rparr>, True)
              else (p2, True))))"
  by pat_completeness auto
termination
  by (relation "measure (\<lambda>(stop, p, data). length data)") (auto simp: sliceStart_def split: if_splits)

declare parserLoop.simps [simp del]

text \<open>
  \<open>unshift\<close> stands for \<open>unshiftPendingBody\<close>, None is its failure. A failure without a message of its
  own is the empty string.
\<close>

definition writeHeaders ::
  "nat \<Rightarrow> char list \<Rightarrow> (char list \<Rightarrow> 's \<Rightarrow> 's option) \<Rightarrow> string \<Rightarrow> string \<Rightarrow> bool \<Rightarrow> bool \<Rightarrow> parsedHeaders \<times> 's \<Rightarrow>
     (parsedHeaders \<times> 's) \<times> string option" where
  "writeHeaders maxHeaderSize readData unshift outOfSpaceError sizeExceededError stopAtHeadersEnd unshiftPending = (\<lambda>(p, s).
     if headersEndReceived p then ((p, s), None)
     else
       (case scanHeadersEnd (headersEndMatch p) 0 readData of (m, bytesToCopy, foundHeadersEnd) \<Rightarrow>
          (let p1 = p\<lparr>headersEndMatch := m\<rparr>;
               (p2, e) = (if bytesToCopy > 0
                          then copyHeaderBytes maxHeaderSize readData bytesToCopy outOfSpaceError sizeExceededError p1
                          else (p1, None)) in
           if e \<noteq> None then ((p2, s), e)
           else if \<not> foundHeadersEnd then ((p2, s), None)
           else
             (case parserLoop stopAtHeadersEnd p2 (readHeaders p2) of (p3, completed) \<Rightarrow>
                if \<not> completed \<or> \<not> parsedSuccessfully p3 then ((p3, s), Some '''')
                else
                  (let p4 = p3\<lparr>headersEndReceived := True\<rparr> in
                   if unshiftPending \<and> bytesToCopy < length readData
                   then (case unshift (drop bytesToCopy readData) s of
                           None \<Rightarrow> ((p4, s), Some '''')
                         | Some s1 \<Rightarrow> ((p4, s1), None))
                   else ((p4, s), None))))))"

text \<open>What \<open>HttpRequest::writeHeaders\<close> makes of it: the request's URL too.\<close>

definition request_writeHeaders ::
  "nat \<Rightarrow> char list \<Rightarrow> (char list \<Rightarrow> 's \<Rightarrow> 's option) \<Rightarrow> parsedHeaders \<times> 's \<Rightarrow>
     (parsedHeaders \<times> 's) \<times> (char list \<times> u64) option \<times> string option" where
  "request_writeHeaders maxSize readData unshift ps =
     (case writeHeaders maxSize readData unshift ''Header space is finished'' ''Header size exceeded limit'' False True ps of
        (ps', Some e) \<Rightarrow> (ps', None, Some e)
      | (ps', None) \<Rightarrow>
          (case findParserToken (fst ps') TkUrl of
             None \<Rightarrow> (ps', None, Some '''')
           | Some url \<Rightarrow> (ps', Some (url, contentLength (ph_parser (fst ps'))), None)))"

section \<open>Multipart messages\<close>

definition isMultipart :: "parsedHeaders \<Rightarrow> bool" where
  "isMultipart p =
     (case getHeader p ''Content-Type'' of
        None \<Rightarrow> False
      | Some contentType \<Rightarrow> startsWithIgnoreCase contentType ''multipart/form-data'')"

text \<open>\<open>boundary=\<close> has nine characters.\<close>

definition getBoundary :: "parsedHeaders \<Rightarrow> char list" where
  "getBoundary p =
     (case getHeader p ''Content-Type'' of
        None \<Rightarrow> []
      | Some contentType \<Rightarrow>
          (case advanceUntilMatchesIgnoreCase ''boundary='' (iter_of contentType) of
             (i0, False) \<Rightarrow> []
           | (i0, True) \<Rightarrow>
               (let i1 = ((\<lambda>i. fst (stepForward i)) ^^ 9) i0 in
                case advanceIfMatches (CHR 0x22) i1 of
                  (i2, True) \<Rightarrow> fromIterators i2 (fst (advanceUntilMatches (CHR 0x22) i2))
                | (i2, False) \<Rightarrow> fromIterators i2 (fst (advanceUntilMatchesAny [CHR '';'', CHR '' '', CR, CHR 0x00] i2)))))"

end
