(* ===== verification/HttpParsedHeadersProps.thy ===== *)
theory HttpParsedHeadersProps
  imports HttpParsedHeaders HttpParserParse
begin

text \<open>
  The head of an incoming request: where its end is found, what is looked up in it afterwards, and
  when it is refused. The round trip rests on the parser's facts about printed requests.
\<close>

section \<open>The end of the head\<close>

definition emptyLine :: "char list" where
  "emptyLine = [CR, LF, CR, LF]"

definition ends :: "char list \<Rightarrow> char list \<Rightarrow> bool" where
  "ends w s \<longleftrightarrow> (\<exists>u. w = u @ s)"

lemma ends_snoc [simp]: "ends (w @ [c]) (s @ [d]) \<longleftrightarrow> c = d \<and> ends w s"
  by (auto simp: ends_def)

lemma ends_lists [simp]:
  "ends (w @ [c]) [a] \<longleftrightarrow> c = a" "ends (w @ [c]) [a, b] \<longleftrightarrow> c = b \<and> ends w [a]"
  "ends (w @ [c]) [a, b, d] \<longleftrightarrow> c = d \<and> ends w [a, b]" "ends (w @ [c]) [a, b, d, e] \<longleftrightarrow> c = e \<and> ends w [a, b, d]"
  using ends_snoc [of w c "[]" a] ends_snoc [of w c "[a]" b] ends_snoc [of w c "[a, b]" d] ends_snoc [of w c "[a, b, d]" e]
  by (simp_all add: ends_def)

text \<open>What \<open>headersEndMatch\<close> says of the bytes scanned so far.\<close>

definition matched :: "char list \<Rightarrow> nat \<Rightarrow> bool" where
  "matched w m \<longleftrightarrow>
     (m = 0 \<and> \<not> ends w [CR] \<and> \<not> ends w [CR, LF]) \<or> (m = 1 \<and> ends w [CR] \<and> \<not> ends w [CR, LF, CR]) \<or>
     (m = 2 \<and> ends w [CR, LF] \<and> \<not> ends w emptyLine) \<or> (m = 3 \<and> ends w [CR, LF, CR])"

lemma ends_last: "ends w [a] \<Longrightarrow> ends w (s @ [b]) \<Longrightarrow> a = b"
  by (auto simp: ends_def)

lemma matched_step:
  assumes "matched w m"
  shows "if ends (w @ [c]) emptyLine then scanStep m c = 4 else matched (w @ [c]) (scanStep m c) \<and> scanStep m c \<noteq> 4"
  using assms ends_last [of w CR "[CR]" LF] ends_last [of w CR "[CR, LF, CR]" LF] ends_last [of w CR "[]" LF]
  unfolding matched_def
  by (elim disjE) (auto simp: scanStep_def emptyLine_def matched_def ends_def dest: arg_cong [where f = last])

definition noEnd :: "char list \<Rightarrow> bool" where
  "noEnd w \<longleftrightarrow> (\<forall>u v. w = u @ v \<longrightarrow> \<not> ends u emptyLine)"

definition firstEnd :: "char list \<Rightarrow> bool" where
  "firstEnd w \<longleftrightarrow> ends w emptyLine \<and> noEnd (butlast w)"

lemma noEnd_snoc: "noEnd (w @ [c]) \<longleftrightarrow> noEnd w \<and> \<not> ends (w @ [c]) emptyLine"
  unfolding noEnd_def by (metis append.right_neutral append_assoc append_eq_append_conv2 append_self_conv butlast_append butlast_snoc)

lemma scan_run:
  assumes "matched w m" "noEnd w"
  shows "case scanHeadersEnd m idx data of (m', n, found) \<Rightarrow>
    if found then m' = 0 \<and> idx \<le> n \<and> n - idx \<le> length data \<and> firstEnd (w @ take (n - idx) data)
    else n = idx + length data \<and> matched (w @ data) m' \<and> noEnd (w @ data)"
  using assms
proof (induction data arbitrary: w m idx)
  case (Cons c cs)
  show ?case
  proof (cases "ends (w @ [c]) emptyLine")
    case True
    then show ?thesis
      using matched_step [OF Cons.prems(1), of c] Cons.prems(2) by (simp add: firstEnd_def)
  next
    case False
    then have step: "matched (w @ [c]) (scanStep m c)" "scanStep m c \<noteq> 4" "noEnd (w @ [c])"
      using matched_step [OF Cons.prems(1), of c] Cons.prems(2) by (simp_all add: noEnd_snoc)
    obtain m' n found where run: "scanHeadersEnd (scanStep m c) (idx + 1) cs = (m', n, found)"
      by (cases "scanHeadersEnd (scanStep m c) (idx + 1) cs")
    have "n - idx = Suc (n - (idx + 1))" if "idx + 1 \<le> n"
      using that by simp
    then show ?thesis
      using Cons.IH [OF step(1,3), of "idx + 1"] step(2) run by (auto simp: Let_def split: if_splits)
  qed
qed simp

text \<open>Scanning a stream chunk by chunk; the count is over all the chunks.\<close>

fun scanChunks :: "nat \<Rightarrow> char list list \<Rightarrow> nat \<times> nat \<times> bool" where
  "scanChunks m [] = (m, 0, False)"
| "scanChunks m (d # ds) =
     (case scanHeadersEnd m 0 d of
        (m', n, True) \<Rightarrow> (m', n, True)
      | (m', n, False) \<Rightarrow> (case scanChunks m' ds of (m'', n', found) \<Rightarrow> (m'', n + n', found)))"

lemma scanChunks_run:
  assumes "matched w m" "noEnd w"
  shows "case scanChunks m ds of (m', n, found) \<Rightarrow>
    if found then n \<le> length (concat ds) \<and> firstEnd (w @ take n (concat ds))
    else n = length (concat ds) \<and> noEnd (w @ concat ds)"
  using assms
proof (induction ds arbitrary: w m)
  case (Cons d ds)
  obtain m' n found where run: "scanHeadersEnd m 0 d = (m', n, found)"
    by (cases "scanHeadersEnd m 0 d")
  show ?case
  proof (cases found)
    case True
    then show ?thesis
      using scan_run [OF Cons.prems, of 0 d] run by simp
  next
    case False
    then have "matched (w @ d) m'" "noEnd (w @ d)" "n = length d"
      using scan_run [OF Cons.prems, of 0 d] run by simp_all
    then show ?thesis
      using Cons.IH [of "w @ d" m'] run False by (auto split: prod.splits if_splits)
  qed
qed (simp add: assms)

lemma matched_Nil: "matched [] 0" "noEnd []"
  by (simp_all add: matched_def noEnd_def ends_def emptyLine_def)

text \<open>
  The end of a head is found where it is, however the stream is cut: the scan stops behind the
  first empty line of the concatenated chunks, and when there is none it has consumed everything.
\<close>

theorem scan_first_empty_line:
  "case scanChunks 0 ds of (m, n, found) \<Rightarrow>
     if found then n \<le> length (concat ds) \<and> firstEnd (take n (concat ds))
     else n = length (concat ds) \<and> noEnd (concat ds)"
  using scanChunks_run [OF matched_Nil, of ds] unfolding append_Nil .

section \<open>Where the parser says its tokens are\<close>

lemma process_position:
  assumes "process f t p data = (q, Some (n, tx))" "tokenLength p = 0"
  shows "tokenStart p \<le> tokenStart q \<and> tx = take (tokenLength q) (drop (tokenStart q - tokenStart p) data) \<and>
    tokenStart q + tokenLength q \<le> tokenStart p + n \<and> n \<le> length data \<and> globalStart q = globalStart p \<and>
    globalLength q = globalLength p + n"
  using process_cases [of f t p data]
proof
  assume slow: "process f t p data = processSlow f t p data"
  let ?p = "p\<lparr>token := t, state := StParsing\<rparr>"
  obtain r m b where run: "runFunc (call f) ?p 0 data = (r, m, b)"
    by (metis prod_cases3)
  with assms(1) slow have b: "b" and del: "deliver p data r m = (q, Some (n, tx))"
    by (auto simp: processSlow_def split: if_splits)
  from run b have run: "runFunc (call f) ?p 0 data = (r, m, True)" by simp
  show ?thesis
    using fn.deliver_ok [OF run, of p] del fn.run_window [OF run] fn.run_keeps [OF run] fn.run_count [OF run] assms(2)
    by auto
next
  assume "f = FHeaderName \<and> nestedCo p = 0 \<and> tokenLength p = 0 \<and>
    (\<exists>r m. fastHeaderName (p\<lparr>token := t, state := StParsing\<rparr>) data = Some (r, m) \<and>
       process f t p data = deliver p data r m)"
  then obtain r m where fast: "fastHeaderName (p\<lparr>token := t, state := StParsing\<rparr>) data = Some (r, m)"
    and del: "process f t p data = deliver p data r m"
    by blast
  have "globalStart r = globalStart p" "globalLength r = globalLength p" "tokenStart r = tokenStart p"
    using fast by (auto simp: fastHeaderName_def split: option.splits)
  then show ?thesis
    using fastHeaderName_deliver [OF fast, of p] assms del by auto
qed

definition consumed :: "parser \<Rightarrow> nat" where
  "consumed p = globalStart p + globalLength p"

text \<open>A token of a request that starts where the parser stands, \<open>n\<close> bytes read for it.\<close>

definition positioned :: "parser \<Rightarrow> parser \<Rightarrow> char list \<Rightarrow> nat \<Rightarrow> char list \<Rightarrow> bool" where
  "positioned p q data n tx \<longleftrightarrow> consumed p \<le> tokenStart q \<and>
     tx = take (tokenLength q) (drop (tokenStart q - consumed p) data) \<and>
     tokenStart q + tokenLength q \<le> consumed p + n \<and> n \<le> length data \<and> consumed q = consumed p + n"

lemma enterPhase_position:
  assumes "enterPhase l p data = (q, Some (n, tx))"
  shows "positioned p q data n tx"
proof -
  obtain f t where ft: "phaseFunc l = (f, t)"
    by fastforce
  then obtain r where r: "process f t (entered l p) data = (r, Some (n, tx))" "q = (phaseStore l r)\<lparr>topCo := l\<rparr>"
    using assms by (auto simp: enterPhase_def runPhase_def split: prod.splits option.splits if_splits)
  show ?thesis
    using process_position [OF r(1)] r(2) by (cases "l = 108") (simp_all add: positioned_def consumed_def)
qed

lemma headerDispatch_position:
  assumes "headerDispatch p data = (q, Some (n, tx))"
  shows "positioned p q data n tx"
proof -
  have c: "consumed (p\<lparr>parsedContentLength := b\<rparr>) = consumed p" "consumed (p\<lparr>parsedConnection := b\<rparr>) = consumed p" for b
    by (simp_all add: consumed_def)
  show ?thesis
    using assms enterPhase_position [of _ "p\<lparr>parsedContentLength := True\<rparr>" data q n tx]
      enterPhase_position [of _ "p\<lparr>parsedConnection := True\<rparr>" data q n tx] enterPhase_position [of _ p data q n tx]
    by (auto simp: headerDispatch_def positioned_def c split: if_splits)
qed

lemma afterPhase_position:
  assumes "afterPhase p data = (q, Some (n, tx))" "topCo p \<in> phases \<union> {0}" "topCo p \<noteq> 193"
  shows "positioned p q data n tx"
  using assms enterPhase_position [of _ p data q n tx] headerDispatch_position [of p data q n tx]
  by (auto simp: afterPhase_def Let_def headersLoop_def phases_def split: if_splits)

lemma parse_position:
  assumes "parse p data = (q, Some (n, tx))" "data \<noteq> []"
    and "p = init_parser ty \<or> (\<exists>l. readyT ty l p \<and> l \<in> phases \<and> l \<noteq> 193)"
  shows "positioned p q data n tx"
  using assms(3)
proof
  assume p: "p = init_parser ty"
  then show ?thesis
    using assms(1) parse_first [OF assms(2)] parse_first_response [OF assms(2)] enterPhase_position by (cases ty) metis+
next
  assume "\<exists>l. readyT ty l p \<and> l \<in> phases \<and> l \<noteq> 193"
  then obtain l where l: "readyT ty l p" "l \<in> phases" "l \<noteq> 193"
    by blast
  then show ?thesis
    using assms(1,2) parse_ready [OF l] afterPhase_position [of p data q n tx] by (simp add: readyT_def)
qed

section \<open>What the loop stores\<close>

text \<open>The tokens with their text; looking up needs nothing else.\<close>

definition texts :: "parsedHeaders \<Rightarrow> (Token \<times> char list) list" where
  "texts p = map (\<lambda>t. (to_token t, tokenText p t)) (tokenOffsets p)"

fun lookup_name :: "char list \<Rightarrow> (Token \<times> char list) list \<Rightarrow> char list option" where
  "lookup_name name [] = None"
| "lookup_name name ((tk, tx) # ts) =
     (if tk = TkHeaderName \<and> ts \<noteq> [] \<and> fst (hd ts) = TkHeaderValue \<and> equalsIgnoreCase tx name
      then Some (snd (hd ts)) else lookup_name name ts)"

lemma getHeader_texts: "getHeader p name = lookup_name name (texts p)"
proof -
  have "headerLoop p name ts = lookup_name name (map (\<lambda>t. (to_token t, tokenText p t)) ts)" for ts
  proof (induction ts)
    case (Cons t us)
    show ?case
      unfolding list.map headerLoop.simps(2) lookup_name.simps(2)
      using Cons.IH by (cases us) (simp_all del: headerLoop.simps lookup_name.simps)
  qed simp
  then show ?thesis
    by (simp add: getHeader_def texts_def)
qed

lemma findParserToken_texts: "findParserToken p tk = map_of (texts p) tk"
proof -
  have "findLoop p tk ts = map_of (map (\<lambda>t. (to_token t, tokenText p t)) ts) tk" for ts
    by (induction ts) auto
  then show ?thesis
    by (simp add: findParserToken_def texts_def)
qed

text \<open>The loop stands before \<open>data\<close>, the end of the collected bytes, at the start of a token.\<close>

definition aligned :: "Type \<Rightarrow> parsedHeaders \<Rightarrow> char list \<Rightarrow> bool" where
  "aligned ty p data \<longleftrightarrow> parsedSuccessfully p \<and> length (readHeaders p) < 2 ^ 32 \<and>
     (\<exists>pre. readHeaders p = pre @ data \<and> length pre = consumed (ph_parser p)) \<and>
     (ph_parser p = init_parser ty \<or> (\<exists>l. readyT ty l (ph_parser p) \<and> l \<in> phases \<and> l \<noteq> 193))"

definition pushed :: "parsedHeaders \<Rightarrow> parser \<Rightarrow> parsedHeaders" where
  "pushed p q = p\<lparr>ph_parser := q, tokenOffsets := tokenOffsets p @
     [\<lparr>to_token = token q, to_start = of_nat (tokenStart q), to_length = of_nat (tokenLength q)\<rparr>]\<rparr>"

lemma pushed_simps [simp]:
  "ph_parser (pushed p q) = q" "readHeaders (pushed p q) = readHeaders p" "availableHeader (pushed p q) = availableHeader p"
  "parsedSuccessfully (pushed p q) = parsedSuccessfully p" "headersEndMatch (pushed p q) = headersEndMatch p"
  "length (tokenOffsets (pushed p q)) = length (tokenOffsets p) + 1"
  by (simp_all add: pushed_def)

text \<open>The loop changes none of these.\<close>

definition stored :: "parsedHeaders \<Rightarrow> parsedHeaders \<Rightarrow> bool" where
  "stored p p' \<longleftrightarrow> readHeaders p' = readHeaders p \<and> availableHeader p' = availableHeader p \<and>
     headersEndMatch p' = headersEndMatch p \<and> headersEndReceived p' = headersEndReceived p"

lemma stored_refl [simp]: "stored p p"
  by (simp add: stored_def)

lemma stored_pushed [simp]: "stored p (pushed p' q) = stored p p'"
  by (simp add: stored_def pushed_def)

lemma loop_token:
  assumes a: "aligned ty p data" and r: "parse (ph_parser p) data = (q, Some (n, tx))" "readyT ty l q" "n > 0"
    and len: "length (tokenOffsets p) < 64" and data: "data \<noteq> []"
  shows "stop \<longrightarrow> snd (phaseFunc l) \<noteq> TkHeadersEnd \<Longrightarrow> parserLoop stop p data = parserLoop stop (pushed p q) (drop n data)"
    and "texts (pushed p q) = texts p @ [(snd (phaseFunc l), tx)]"
    and "l \<in> phases \<Longrightarrow> l \<noteq> 193 \<Longrightarrow> aligned ty (pushed p q) (drop n data)"
proof -
  have pos: "positioned (ph_parser p) q data n tx"
    using parse_position [OF r(1) data, of ty] a by (simp add: aligned_def)
  obtain pre where pre: "readHeaders p = pre @ data" "length pre = consumed (ph_parser p)"
    using a by (auto simp: aligned_def)
  have running: "state (ph_parser p) \<noteq> StFinished" "parsedSuccessfully p"
    using a by (auto simp: aligned_def readyT_def init_parser_def)
  have q: "state q = StResult" "token q = snd (phaseFunc l)"
    using r(2) by (simp_all add: readyT_def)
  have n: "n \<le> length data"
    using pos by (simp add: positioned_def)
  have push: "pushToken (p\<lparr>ph_parser := q\<rparr>) = (pushed p q, True)"
    using len by (simp add: pushToken_def pushed_def MaxNumTokens_def)
  show "parserLoop stop p data = parserLoop stop (pushed p q) (drop n data)" if "stop \<longrightarrow> snd (phaseFunc l) \<noteq> TkHeadersEnd"
    unfolding parserLoop.simps [of stop p data] using running q n r(1,3) push that by (cases stop) simp_all
  have small: "tokenStart q < 2 ^ 32" "tokenLength q < 2 ^ 32"
    using pos n pre a by (auto simp: positioned_def aligned_def)
  have "take (tokenLength q) (drop (tokenStart q) (readHeaders p)) = tx"
    using pos pre by (simp add: positioned_def)
  then have "tokenText (pushed p q) \<lparr>to_token = token q, to_start = of_nat (tokenStart q), to_length = of_nat (tokenLength q)\<rparr> = tx"
    using small by (simp add: tokenText_def take_bit_nat_eq_self unsigned_of_nat)
  moreover have "tokenText (pushed p q) = tokenText p"
    by (simp add: tokenText_def fun_eq_iff)
  ultimately show "texts (pushed p q) = texts p @ [(snd (phaseFunc l), tx)]"
    using q(2) by (simp add: texts_def pushed_def)
  assume "l \<in> phases" "l \<noteq> 193"
  moreover have "readHeaders p = (pre @ take n data) @ drop n data" "length (pre @ take n data) = consumed q"
    using pre n pos by (simp_all add: positioned_def)
  ultimately show "aligned ty (pushed p q) (drop n data)"
    using a r(2) unfolding aligned_def by (metis pushed_simps(1,2,4))
qed

lemma run_header:
  assumes a: "aligned ty p (printHeader h @ rest)" and l: "readyT ty l (ph_parser p)" "l \<in> headerPhases" and h: "goodHeader h"
    and len: "length (tokenOffsets p) + 2 \<le> 64"
  shows "\<exists>p' l'. parserLoop stop p (printHeader h @ rest) = parserLoop stop p' rest \<and> aligned ty p' rest \<and>
    readyT ty l' (ph_parser p') \<and> l' \<in> headerPhases \<and> settings (ph_parser p') = headerEffect h (settings (ph_parser p)) \<and>
    statusCode (ph_parser p') = statusCode (ph_parser p) \<and> texts p' = texts p @ headerTokens h \<and> length (tokenOffsets p') = length (tokenOffsets p) + 2 \<and>
    stored p p'"
proof -
  obtain name v where nv: "h = (name, v)" by fastforce
  let ?val = "replicate 1 (CHR '' '') @ v @ CR # LF # rest"
  have good: "CHR '':'' \<notin> set name" "name = [] \<or> hd name \<noteq> CR" "goodHeader (name, v)"
    using h nv by simp_all
  have data: "printHeader h @ rest = name @ CHR '':'' # ?val"
    by (simp add: nv)
  obtain q where q: "parse (ph_parser p) (name @ CHR '':'' # ?val) = (q, Some (length name + 1, name))" "readyT ty 249 q"
      "settings q = settings (ph_parser p)" "statusCode q = statusCode (ph_parser p)"
      "\<forall>h. matchesHeader q h \<longleftrightarrow> sameName name (SC_HTTP_TRACKED_HEADERS ! header_index h)"
    using parse_headerName_token [OF l good(1,2)] by blast
  let ?p1 = "pushed p q"
  have p1: "parserLoop stop p (printHeader h @ rest) = parserLoop stop ?p1 ?val" "aligned ty ?p1 ?val"
      "texts ?p1 = texts p @ [(TkHeaderName, name)]"
    using loop_token [OF a [unfolded data] q(1,2)] len data by (simp_all add: phaseFunc_def phases_def)
  obtain u l' where u: "parse q ?val = (u, Some (1 + length v + 2, v))" "readyT ty l' u" "l' \<in> headerPhases"
      "snd (phaseFunc l') = TkHeaderValue" "settings u = headerEffect (name, v) (settings q)" "statusCode u = statusCode q"
    using parse_headerValue_token [OF q(2) good(3) q(5)] by blast
  have l': "l' \<in> phases" "l' \<noteq> 193"
    using u(3) by (auto simp: headerPhases_def phases_def)
  have "drop (1 + length v + 2) ?val = rest"
    by simp
  then have "parserLoop stop ?p1 ?val = parserLoop stop (pushed ?p1 u) rest" "aligned ty (pushed ?p1 u) rest"
      "texts (pushed ?p1 u) = texts ?p1 @ [(TkHeaderValue, v)]"
    using loop_token [OF p1(2), of u "1 + length v + 2" v l'] u l' len by simp_all
  then show ?thesis
    using p1 u q(3,4) nv by (intro exI [of _ "pushed ?p1 u"] exI [of _ l']) simp
qed

lemma loop_end:
  assumes a: "aligned ty p (CR # LF # [])" and l: "readyT ty l (ph_parser p)" "l \<in> headerPhases"
    and len: "length (tokenOffsets p) < 64" and stop: "stop \<or> ty = Request"
  shows "\<exists>p'. parserLoop stop p (CR # LF # []) = (p', True) \<and> parsedSuccessfully p' \<and> stored p p' \<and>
    texts p' = texts p @ [(TkHeadersEnd, [])] \<and> settings (ph_parser p') = settings (ph_parser p) \<and>
    statusCode (ph_parser p') = statusCode (ph_parser p)"
proof -
  obtain q where q: "parse (ph_parser p) (CR # LF # []) = (q, Some (2, []))" "readyT ty 193 q" "settings q = settings (ph_parser p)"
      "statusCode q = statusCode (ph_parser p)"
    using parse_headersEnd_token [OF l] by blast
  have t: "texts (pushed p q) = texts p @ [(TkHeadersEnd, [])]"
    using loop_token(2) [OF a q(1,2)] len by (simp add: phaseFunc_def)
  show ?thesis
  proof (cases stop)
    case True
    have "pushToken (p\<lparr>ph_parser := q\<rparr>) = (pushed p q, True)"
      using len by (simp add: pushToken_def pushed_def MaxNumTokens_def)
    moreover have "state (ph_parser p) \<noteq> StFinished" "parsedSuccessfully p"
      using a l(1) by (simp_all add: aligned_def readyT_def)
    ultimately have "parserLoop stop p (CR # LF # []) = (pushed p q, True)"
      using True q(1,2) by (simp add: parserLoop.simps [of True p] readyT_def phaseFunc_def)
    then show ?thesis
      using t q(3,4) a by (intro exI [of _ "pushed p q"]) (simp add: aligned_def)
  next
    case False
    then have ty: "ty = Request"
      using stop by simp
    have p1: "parserLoop stop p (CR # LF # []) = parserLoop stop (pushed p q) []"
      using loop_token(1) [OF a q(1,2), of stop] len False by simp
    let ?r = "q\<lparr>state := StFinished\<rparr>"
    have "parse q [] = (?r, Some (0, []))"
      using q(2) ty by (simp add: parse_def readyT_def phaseFunc_def)
    then have p2: "parserLoop stop (pushed p q) [] = ((pushed p q)\<lparr>ph_parser := ?r\<rparr>, True)"
      using a q(2) False by (simp add: parserLoop.simps [of False "pushed p q"] aligned_def readyT_def)
    have "texts ((pushed p q)\<lparr>ph_parser := ?r\<rparr>) = texts (pushed p q)"
      by (simp add: texts_def tokenText_def)
    then show ?thesis
      using p1 p2 t q(3,4) a
      by (intro exI [of _ "(pushed p q)\<lparr>ph_parser := ?r\<rparr>"]) (simp add: aligned_def settings_def stored_def pushed_def)
  qed
qed

lemma loop_headers:
  assumes "aligned ty p (concat (map printHeader hs) @ [CR, LF])" "readyT ty l (ph_parser p)" "l \<in> headerPhases"
    "\<forall>h\<in>set hs. goodHeader h" "length (tokenOffsets p) + 2 * length hs < 64" "stop \<or> ty = Request"
  shows "\<exists>p'. parserLoop stop p (concat (map printHeader hs) @ [CR, LF]) = (p', True) \<and> parsedSuccessfully p' \<and> stored p p' \<and>
    texts p' = texts p @ concat (map headerTokens hs) @ [(TkHeadersEnd, [])] \<and>
    settings (ph_parser p') = fold headerEffect hs (settings (ph_parser p)) \<and> statusCode (ph_parser p') = statusCode (ph_parser p)"
  using assms
proof (induction hs arbitrary: p l)
  case Nil
  then show ?case
    using loop_end [of ty p l stop] by simp
next
  case (Cons h hs)
  let ?rest = "concat (map printHeader hs) @ [CR, LF]"
  have data: "concat (map printHeader (h # hs)) @ [CR, LF] = printHeader h @ ?rest"
    by simp
  obtain p1 l' where p1: "parserLoop stop p (printHeader h @ ?rest) = parserLoop stop p1 ?rest" "aligned ty p1 ?rest"
      "readyT ty l' (ph_parser p1)" "l' \<in> headerPhases" "settings (ph_parser p1) = headerEffect h (settings (ph_parser p))"
      "texts p1 = texts p @ headerTokens h" "length (tokenOffsets p1) = length (tokenOffsets p) + 2" "stored p p1"
      "statusCode (ph_parser p1) = statusCode (ph_parser p)"
    using run_header [of ty p h ?rest l stop] Cons.prems unfolding data by auto
  obtain p' where p': "parserLoop stop p1 ?rest = (p', True)" "parsedSuccessfully p'" "stored p1 p'"
      "texts p' = texts p1 @ concat (map headerTokens hs) @ [(TkHeadersEnd, [])]"
      "settings (ph_parser p') = fold headerEffect hs (settings (ph_parser p1))" "statusCode (ph_parser p') = statusCode (ph_parser p1)"
    using Cons.IH [OF p1(2-4)] Cons.prems(4-6) p1(7) by auto
  show ?case
    unfolding data p1(1) using p' p1(5,6,8,9) by (simp add: stored_def)
qed

lemma loop_request:
  assumes url: "CHR '' '' \<notin> set url" "url \<noteq> []" "hd url \<noteq> CHR ''*''" and hs: "\<forall>h\<in>set hs. goodHeader h"
    and len: "length hs \<le> 30" "length (printRequest m url hs) < 2 ^ 32"
    and p: "readHeaders p = printRequest m url hs" "parsedSuccessfully p" "ph_parser p = init_parser Request" "tokenOffsets p = []"
  shows "\<exists>p'. parserLoop False p (printRequest m url hs) = (p', True) \<and> parsedSuccessfully p' \<and> stored p p' \<and>
    texts p' = requestTokens m url hs \<and>
    settings (ph_parser p') = fold headerEffect hs (m, 0, True, False, False)"
proof -
  let ?hdrs = "concat (map printHeader hs) @ [CR, LF]"
  let ?ver = "''HTTP/1.1'' @ CR # LF # ?hdrs"
  let ?url = "url @ CHR '' '' # ?ver"
  have data: "printRequest m url hs = methodName m @ CHR '' '' # ?url"
    by (simp add: printRequest_def)
  have a: "aligned Request p (printRequest m url hs)"
    using p len(2) by (simp add: aligned_def consumed_def init_parser_def)
  have t: "texts p = []"
    using p(4) by (simp add: texts_def)
  obtain q1 where q1: "parse (init_parser Request) (methodName m @ CHR '' '' # ?url) = (q1, Some (length (methodName m) + 1, methodName m))"
      "ready 108 q1" "settings q1 = (m, 0, True, False, False)"
    using parse_method_token by blast
  let ?p1 = "pushed p q1"
  have d1: "drop (length (methodName m) + 1) (methodName m @ CHR '' '' # ?url) = ?url"
    by simp
  have p1: "parserLoop False p (printRequest m url hs) = parserLoop False ?p1 ?url" "aligned Request ?p1 ?url"
      "texts ?p1 = [(TkMethod, methodName m)]"
    using loop_token [OF a, of q1 "length (methodName m) + 1" "methodName m" 108] q1 p data t d1
    by (simp_all add: phaseFunc_def phases_def)
  obtain q2 where q2: "parse q1 ?url = (q2, Some (length url + 1, url))" "ready 121 q2" "settings q2 = settings q1"
    using parse_url_token [OF q1(2) url] by blast
  let ?p2 = "pushed ?p1 q2"
  have d2: "drop (length url + 1) ?url = ?ver"
    by simp
  have p2: "parserLoop False ?p1 ?url = parserLoop False ?p2 ?ver" "aligned Request ?p2 ?ver"
      "texts ?p2 = [(TkMethod, methodName m), (TkUrl, url)]"
    using loop_token [OF p1(2), of q2 "length url + 1" url 121] q2 p p1(3) d2 by (simp_all add: phaseFunc_def phases_def)
  obtain q3 where q3: "parse q2 ?ver = (q3, Some (10, ''HTTP/1.1''))" "ready 134 q3" "settings q3 = settings q2"
    using parse_version_token [OF q2(2)] by blast
  let ?p3 = "pushed ?p2 q3"
  have d3: "drop 10 ?ver = ?hdrs"
    by (simp add: numeral_eq_Suc)
  have p3: "parserLoop False ?p2 ?ver = parserLoop False ?p3 ?hdrs" "aligned Request ?p3 ?hdrs"
      "texts ?p3 = [(TkMethod, methodName m), (TkUrl, url), (TkVersion, ''HTTP/1.1'')]"
    using loop_token [OF p2(2), of q3 10 "''HTTP/1.1''" 134] q3 p p2(3) d3 by (simp_all add: phaseFunc_def phases_def)
  obtain p' where "parserLoop False ?p3 ?hdrs = (p', True)" "parsedSuccessfully p'" "stored ?p3 p'"
      "texts p' = texts ?p3 @ concat (map headerTokens hs) @ [(TkHeadersEnd, [])]"
      "settings (ph_parser p') = fold headerEffect hs (settings q3)"
    using loop_headers [OF p3(2), of 134] q3(2) hs len(1) p(4) by (auto simp: headerPhases_def)
  then show ?thesis
    using p1(1) p2(1) p3(1,3) q1(3) q2(3) q3(3) by (simp add: requestTokens_def stored_def pushed_def)
qed

text \<open>The text of a response head, and its tokens. \<open>ds\<close> are the digits of the status.\<close>

definition printResponse :: "string \<Rightarrow> string \<Rightarrow> (string \<times> string) list \<Rightarrow> string" where
  "printResponse ds reason hs = ''HTTP/1.1 '' @ ds @ '' '' @ reason @ [CR, LF] @ concat (map printHeader hs) @ [CR, LF]"

definition responseTokens :: "string \<Rightarrow> string \<Rightarrow> (string \<times> string) list \<Rightarrow> (Token \<times> string) list" where
  "responseTokens ds reason hs =
     [(TkVersion, ''HTTP/1.1''), (TkStatusCode, ds), (TkStatusString, reason)] @ concat (map headerTokens hs) @ [(TkHeadersEnd, [])]"

lemma loop_response:
  assumes ds: "ds \<noteq> []" "\<forall>d\<in>set ds. isDigit d" "length ds \<le> 20" and reason: "CR \<notin> set reason" "reason = [] \<or> hd reason \<noteq> CHR '' ''"
    and hs: "\<forall>h\<in>set hs. goodHeader h"
    and len: "length hs \<le> 30" "length (printResponse ds reason hs) < 2 ^ 32"
    and p: "readHeaders p = printResponse ds reason hs" "parsedSuccessfully p" "ph_parser p = init_parser Response" "tokenOffsets p = []"
  shows "\<exists>p'. parserLoop True p (printResponse ds reason hs) = (p', True) \<and> parsedSuccessfully p' \<and> stored p p' \<and>
    texts p' = responseTokens ds reason hs \<and>
    settings (ph_parser p') = fold headerEffect hs (settings (init_parser Response)) \<and> statusCode (ph_parser p') = ucast (accumulate 0 ds)"
proof -
  let ?hdrs = "concat (map printHeader hs) @ [CR, LF]"
  let ?reason = "reason @ CR # LF # ?hdrs"
  let ?status = "ds @ CHR '' '' # ?reason"
  have data: "printResponse ds reason hs = ''HTTP/1.1'' @ CHR '' '' # ?status"
    by (simp add: printResponse_def)
  have a: "aligned Response p (printResponse ds reason hs)"
    using p len(2) by (simp add: aligned_def consumed_def init_parser_def)
  have t: "texts p = []"
    using p(4) by (simp add: texts_def)
  obtain q1 where q1: "parse (init_parser Response) (''HTTP/1.1'' @ CHR '' '' # ?status) = (q1, Some (9, ''HTTP/1.1''))"
      "readyT Response 147 q1" "settings q1 = settings (init_parser Response)"
    using parse_response_version by blast
  let ?p1 = "pushed p q1"
  have d1: "drop 9 (''HTTP/1.1'' @ CHR '' '' # ?status) = ?status"
    by (simp add: numeral_eq_Suc)
  have p1: "parserLoop True p (printResponse ds reason hs) = parserLoop True ?p1 ?status" "aligned Response ?p1 ?status"
      "texts ?p1 = [(TkVersion, ''HTTP/1.1'')]"
    using loop_token [OF a, of q1 9 "''HTTP/1.1''" 147] q1 p data t d1 by (simp_all add: phaseFunc_def phases_def)
  obtain q2 where q2: "parse q1 ?status = (q2, Some (length ds + 1, ds))" "readyT Response 159 q2" "settings q2 = settings q1"
      "statusCode q2 = ucast (accumulate 0 ds)"
    using parse_status_token [OF q1(2) ds] by blast
  let ?p2 = "pushed ?p1 q2"
  have d2: "drop (length ds + 1) ?status = ?reason"
    by simp
  have p2: "parserLoop True ?p1 ?status = parserLoop True ?p2 ?reason" "aligned Response ?p2 ?reason"
      "texts ?p2 = [(TkVersion, ''HTTP/1.1''), (TkStatusCode, ds)]"
    using loop_token [OF p1(2), of q2 "length ds + 1" ds 159] q2 p p1(3) d2 by (simp_all add: phaseFunc_def phases_def)
  obtain q3 where q3: "parse q2 ?reason = (q3, Some (length reason + 2, reason))" "readyT Response 172 q3" "settings q3 = settings q2"
      "statusCode q3 = statusCode q2"
    using parse_reason_token [OF q2(2) reason] by blast
  let ?p3 = "pushed ?p2 q3"
  have d3: "drop (length reason + 2) ?reason = ?hdrs"
    by simp
  have p3: "parserLoop True ?p2 ?reason = parserLoop True ?p3 ?hdrs" "aligned Response ?p3 ?hdrs"
      "texts ?p3 = [(TkVersion, ''HTTP/1.1''), (TkStatusCode, ds), (TkStatusString, reason)]"
    using loop_token [OF p2(2), of q3 "length reason + 2" reason 172] q3 p p2(3) d3 by (simp_all add: phaseFunc_def phases_def)
  obtain p' where "parserLoop True ?p3 ?hdrs = (p', True)" "parsedSuccessfully p'" "stored ?p3 p'"
      "texts p' = texts ?p3 @ concat (map headerTokens hs) @ [(TkHeadersEnd, [])]"
      "settings (ph_parser p') = fold headerEffect hs (settings q3)" "statusCode (ph_parser p') = statusCode q3"
    using loop_headers [OF p3(2), of 172] q3(2) hs len(1) p(4) by (auto simp: headerPhases_def)
  then show ?thesis
    using p1(1) p2(1) p3(1,3) q1(3) q2(3,4) q3(3,4) by (simp add: responseTokens_def stored_def pushed_def)
qed

text \<open>Looking a header up in a request finds the value of the first header with the name.\<close>

lemma lookup_request:
  "lookup_name name (requestTokens m url hs) = map_option snd (find (\<lambda>h. equalsIgnoreCase (fst h) name) hs)"
proof -
  have "lookup_name name (concat (map headerTokens hs) @ [(TkHeadersEnd, [])]) =
      map_option snd (find (\<lambda>h. equalsIgnoreCase (fst h) name) hs)"
    by (induction hs) auto
  then show ?thesis
    by (simp add: requestTokens_def)
qed

section \<open>Scanning a printed request\<close>

lemma scan_shift: "scanHeadersEnd m (i + j) cs = (case scanHeadersEnd m i cs of (m', n, f) \<Rightarrow> (m', n + j, f))"
proof (induction cs arbitrary: m i)
  case (Cons c cs)
  show ?case
    using Cons.IH [of "scanStep m c" "i + 1"] by (simp add: Let_def)
qed simp

lemma scan_head_append:
  "scanHeadersEnd m i (xs @ ys) =
     (case scanHeadersEnd m i xs of (m', n, f) \<Rightarrow> if f then (m', n, f) else scanHeadersEnd m' n ys)"
  by (induction xs arbitrary: m i) (simp_all add: Let_def)

lemma scan_quiet:
  assumes "CR \<notin> set xs" "m = 0 \<or> (m = 2 \<and> xs \<noteq> [])"
  shows "scanHeadersEnd m i (xs @ ys) = scanHeadersEnd 0 (i + length xs) ys"
  using assms
proof (induction xs arbitrary: m i)
  case (Cons x xs)
  then have "scanStep m x = 0"
    by (auto simp: scanStep_def)
  then show ?case
    using Cons.IH [of 0 "i + 1"] Cons.prems by simp
qed simp

lemma scan_line:
  assumes "CR \<notin> set xs" "m = 0 \<or> (m = 2 \<and> xs \<noteq> [])"
  shows "scanHeadersEnd m i (xs @ CR # LF # ys) = scanHeadersEnd 2 (i + length xs + 2) ys"
  using assms by (simp add: scan_quiet scanStep_def)

lemma scan_headers:
  assumes "\<forall>h\<in>set hs. CR \<notin> set (fst h) \<and> CR \<notin> set (snd h)"
  shows "scanHeadersEnd 2 i (concat (map printHeader hs) @ CR # LF # rest) =
    (0, i + length (concat (map printHeader hs)) + 2, True)"
  using assms
proof (induction hs arbitrary: i)
  case (Cons h hs)
  obtain name v where h: "h = (name, v)" by fastforce
  have "printHeader h @ concat (map printHeader hs) @ CR # LF # rest =
      (name @ '': '' @ v) @ CR # LF # concat (map printHeader hs) @ CR # LF # rest"
    by (simp add: h)
  then have "scanHeadersEnd 2 i (concat (map printHeader (h # hs)) @ CR # LF # rest) =
      scanHeadersEnd 2 (i + length (name @ '': '' @ v) + 2) (concat (map printHeader hs) @ CR # LF # rest)"
    using Cons.prems h scan_line [of "name @ '': '' @ v" 2 i "concat (map printHeader hs) @ CR # LF # rest"] by simp
  then show ?case
    using Cons.IH [of "i + length (name @ '': '' @ v) + 2"] Cons.prems by (simp add: h)
qed (simp add: scanStep_def)

definition plainHeader :: "string \<times> string \<Rightarrow> bool" where
  "plainHeader h \<longleftrightarrow> goodHeader h \<and> CR \<notin> set (fst h)"

lemma goodHeader_value: "goodHeader h \<Longrightarrow> CR \<notin> set (snd h)"
  by (cases h) simp

lemma CR_methodName: "CR \<notin> set (methodName m)"
  by (cases m) simp_all

lemma scan_request:
  assumes "CR \<notin> set url" "\<forall>h\<in>set hs. plainHeader h"
  shows "scanHeadersEnd 0 0 (printRequest m url hs @ rest) = (0, length (printRequest m url hs), True)"
proof -
  let ?line = "methodName m @ '' '' @ url @ '' '' @ ''HTTP/1.1''"
  have "printRequest m url hs @ rest = ?line @ CR # LF # concat (map printHeader hs) @ CR # LF # rest"
    by (simp add: printRequest_def)
  moreover have "\<forall>h\<in>set hs. CR \<notin> set (fst h) \<and> CR \<notin> set (snd h)"
    using assms(2) goodHeader_value by (auto simp: plainHeader_def)
  ultimately show ?thesis
    using assms(1) CR_methodName [of m]
    by (simp add: scan_line [of ?line, simplified] scan_headers printRequest_def)
qed

lemma scan_bound: "scanHeadersEnd m i xs = (m', n, f) \<Longrightarrow> i \<le> n \<and> n \<le> i + length xs \<and> (\<not> f \<longrightarrow> n = i + length xs)"
proof (induction xs arbitrary: m i)
  case (Cons c cs)
  then show ?case
    by (fastforce simp: Let_def split: if_splits)
qed simp

text \<open>A proper beginning of a text with its end at \<open>length w + k\<close> has none.\<close>

lemma scan_prefix:
  assumes "scanHeadersEnd 0 0 (w @ v) = (0, length w + k, True)" "0 < k"
  shows "\<exists>m. scanHeadersEnd 0 0 w = (m, length w, False) \<and> scanHeadersEnd m 0 v = (0, k, True)"
proof -
  obtain m n f where w: "scanHeadersEnd 0 0 w = (m, n, f)"
    by (metis prod_cases3)
  have "\<not> f"
    using assms scan_bound [OF w] by (auto simp: scan_head_append w)
  then have "n = length w" "scanHeadersEnd m n v = (0, length w + k, True)"
    using assms(1) scan_bound [OF w] by (simp_all add: scan_head_append w)
  then show ?thesis
    using \<open>\<not> f\<close> w scan_shift [of m 0 "length w" v] by (auto split: prod.splits)
qed

section \<open>Receiving a head\<close>

text \<open>What is given back is collected.\<close>

definition giving :: "char list \<Rightarrow> char list list \<Rightarrow> char list list option" where
  "giving d s = Some (s @ [d])"

definition collected :: "Type \<Rightarrow> nat \<Rightarrow> char list \<Rightarrow> nat \<Rightarrow> parsedHeaders \<Rightarrow> bool" where
  "collected ty memory w m p \<longleftrightarrow> readHeaders p = w \<and> availableHeader p = memory - length w \<and> length w \<le> memory \<and>
     \<not> headersEndReceived p \<and> parsedSuccessfully p \<and> headersEndMatch p = m \<and> ph_parser p = init_parser ty \<and>
     tokenOffsets p = []"

lemma collected_reset: "collected ty memory [] 0 (headers_reset ty memory)"
  by (simp add: collected_def headers_reset_def)

lemma write_partial:
  assumes "collected ty memory w m p" "scanHeadersEnd m 0 c = (m', n, False)" "length w + length c \<le> memory"
    "length w + length c \<le> maxSize"
  shows "\<exists>p'. writeHeaders maxSize c us e1 e2 stop pending (p, s) = ((p', s), None) \<and> collected ty memory (w @ c) m' p'"
proof -
  let ?p = "p\<lparr>headersEndMatch := m', readHeaders := w @ c, availableHeader := memory - length (w @ c)\<rparr>"
  have "writeHeaders maxSize c us e1 e2 stop pending (p, s) = ((?p, s), None)"
    using assms scan_bound [OF assms(2)]
    by (cases p, cases "c = []") (auto simp: writeHeaders_def collected_def copyHeaderBytes_def Let_def)
  moreover have "collected ty memory (w @ c) m' ?p"
    using assms by (simp add: collected_def)
  ultimately show ?thesis by blast
qed

text \<open>The chunk with the end of the head.\<close>

lemma write_request:
  assumes p: "collected Request memory w m p" and c: "w @ c = printRequest meth url hs @ rest" "length w < length (printRequest meth url hs)"
    and scan: "scanHeadersEnd m 0 c = (0, length (printRequest meth url hs) - length w, True)"
    and url: "CHR '' '' \<notin> set url" "url \<noteq> []" "hd url \<noteq> CHR ''*''" and hs: "\<forall>h\<in>set hs. goodHeader h" "length hs \<le> 30"
    and size: "length (printRequest meth url hs) \<le> memory" "length (printRequest meth url hs) \<le> maxSize" "memory < 2 ^ 32"
  shows "\<exists>p'. writeHeaders maxSize c us e1 e2 False True (p, s) =
      (if rest = [] then ((p', s), None)
       else case us rest s of None \<Rightarrow> ((p', s), Some '''') | Some s' \<Rightarrow> ((p', s'), None)) \<and>
    headersEndReceived p' \<and> getHeadersLength p' = length (printRequest meth url hs) \<and>
    texts p' = requestTokens meth url hs \<and> settings (ph_parser p') = fold headerEffect hs (meth, 0, True, False, False)"
proof -
  let ?head = "printRequest meth url hs"
  let ?n = "length ?head - length w"
  have split: "w @ take ?n c = ?head" "drop ?n c = rest"
  proof -
    have "take (length ?head) (w @ c) = ?head" "drop (length ?head) (w @ c) = rest"
      by (simp_all add: c(1))
    then show "w @ take ?n c = ?head" "drop ?n c = rest"
      using c(2) by simp_all
  qed
  have n: "?n \<le> length c" "?n < length c \<longleftrightarrow> rest \<noteq> []"
    using scan_bound [OF scan] split(2) by auto
  define p2 where "p2 = p\<lparr>headersEndMatch := 0, readHeaders := ?head, availableHeader := availableHeader p - ?n\<rparr>"
  have copy: "copyHeaderBytes maxSize c ?n e1 e2 (p\<lparr>headersEndMatch := 0\<rparr>) = (p2, None)"
    using p size c(2) split(1) by (cases p) (auto simp: copyHeaderBytes_def collected_def p2_def)
  obtain p3 where p3: "parserLoop False p2 ?head = (p3, True)" "parsedSuccessfully p3" "stored p2 p3"
      "texts p3 = requestTokens meth url hs" "settings (ph_parser p3) = fold headerEffect hs (meth, 0, True, False, False)"
    using loop_request [OF url hs(1,2), of meth p2] p size by (auto simp: collected_def p2_def)
  let ?p4 = "p3\<lparr>headersEndReceived := True\<rparr>"
  have "texts ?p4 = texts p3"
    by (simp add: texts_def tokenText_def)
  moreover have "readHeaders p2 = ?head" "\<not> headersEndReceived p" "headersEndMatch p = m"
    using p by (simp_all add: p2_def collected_def)
  ultimately show ?thesis
    using p3 n c(2) scan copy split(2)
    by (intro exI [of _ ?p4]) (auto simp: writeHeaders_def getHeadersLength_def stored_def split: option.splits)
qed

text \<open>\<open>HttpRequest::writeHeaders\<close> on the first chunk of a connection, which holds the head and possibly more.\<close>

lemma head_received:
  assumes "c = printRequest m url hs @ rest"
    and "CHR '' '' \<notin> set url" "CR \<notin> set url" "url \<noteq> []" "hd url \<noteq> CHR ''*''" "\<forall>h\<in>set hs. plainHeader h" "length hs \<le> 30"
    and "length (printRequest m url hs) \<le> memory" "length (printRequest m url hs) \<le> maxSize" "memory < 2 ^ 32"
  shows "\<exists>p. request_writeHeaders maxSize c giving (headers_reset Request memory, []) =
      ((p, if rest = [] then [] else [rest]), Some (url, fst (snd (fold headerEffect hs (m, 0, True, False, False)))), None) \<and>
    headersEndReceived p \<and> getHeadersLength p = length (printRequest m url hs) \<and>
    findParserToken p TkMethod = Some (methodName m) \<and> findParserToken p TkUrl = Some url \<and>
    (\<forall>name. getHeader p name = map_option snd (find (\<lambda>h. equalsIgnoreCase (fst h) name) hs)) \<and>
    settings (ph_parser p) = fold headerEffect hs (m, 0, True, False, False)"
proof -
  let ?head = "printRequest m url hs"
  have scan: "scanHeadersEnd 0 0 c = (0, length ?head - length [], True)"
    using scan_request [OF assms(3,6), of m rest] assms(1) by simp
  have good: "\<forall>h\<in>set hs. goodHeader h"
    using assms(6) by (auto simp: plainHeader_def)
  have head: "[] @ c = ?head @ rest" "length [] < length ?head"
    using assms(1) by (simp_all add: printRequest_def)
  obtain p where p: "writeHeaders maxSize c giving ''Header space is finished'' ''Header size exceeded limit'' False True
      (headers_reset Request memory, []) = ((p, if rest = [] then [] else [rest]), None)"
      "headersEndReceived p" "getHeadersLength p = length ?head" "texts p = requestTokens m url hs"
      "settings (ph_parser p) = fold headerEffect hs (m, 0, True, False, False)"
    using write_request [OF collected_reset head scan assms(2,4,5) good assms(7-10), where us = giving and s = "[]"
        and ?e1.0 = "''Header space is finished''" and ?e2.0 = "''Header size exceeded limit''"]
    by (cases "rest = []") (auto simp: giving_def)
  have tokens: "findParserToken p TkMethod = Some (methodName m)" "findParserToken p TkUrl = Some url"
    using p(4) by (simp_all add: findParserToken_texts requestTokens_def)
  have "contentLength (ph_parser p) = fst (snd (fold headerEffect hs (m, 0, True, False, False)))"
    unfolding p(5) [symmetric] by (simp add: settings_def)
  then have "request_writeHeaders maxSize c giving (headers_reset Request memory, []) =
      ((p, if rest = [] then [] else [rest]), Some (url, fst (snd (fold headerEffect hs (m, 0, True, False, False)))), None)"
    using p(1) tokens(2) by (simp add: request_writeHeaders_def)
  then show ?thesis
    using p(2-5) tokens lookup_request [of _ m url hs] by (intro exI [of _ p]) (simp add: getHeader_texts)
qed

lemma partial_head_refused:
  assumes "c @ later = printRequest m url hs @ rest" "length c < length (printRequest m url hs)"
    and "CR \<notin> set url" "\<forall>h\<in>set hs. plainHeader h"
    and "length (printRequest m url hs) \<le> memory" "length (printRequest m url hs) \<le> maxSize"
  shows "\<exists>p. request_writeHeaders maxSize c giving (headers_reset Request memory, []) = ((p, []), None, Some '''')"
proof -
  let ?head = "printRequest m url hs"
  have "scanHeadersEnd 0 0 (?head @ rest) = (0, length ?head, True)"
    using scan_request [OF assms(3,4)] .
  then have "\<exists>m'. scanHeadersEnd 0 0 c = (m', length c, False)"
    using scan_prefix [of c later "length ?head - length c"] assms(1,2) by auto
  then obtain m' where m': "scanHeadersEnd 0 0 c = (m', length c, False)" ..
  obtain p where p: "writeHeaders maxSize c giving ''Header space is finished'' ''Header size exceeded limit'' False True
      (headers_reset Request memory, []) = ((p, []), None)" "collected Request memory c m' p"
    using write_partial [OF collected_reset m', where ty = Request and memory = memory and maxSize = maxSize and us = giving
        and stop = False and pending = True and s = "[]"] assms(2,5,6) by auto
  then show ?thesis
    by (simp add: request_writeHeaders_def findParserToken_def collected_def)
qed

text \<open>
  C2: a server receiving a request. Wherever the stream that begins with the head is cut, \<open>c\<close> being the first
  piece that \<open>HttpRequest::writeHeaders\<close> is given: if it holds the whole head, the head is received; method,
  URL, content length and every header are found in it, a header being the first whose name is the one
  looked for up to case; the length of the head is right, and exactly what follows the head is given back
  to the stream. If the piece ends before the head does, the call fails, since it looks for the URL after
  every piece, although nothing is wrong with the head. A head may have up to 30 headers.
\<close>

theorem request_head_received:
  assumes "c @ later = printRequest m url hs @ rest"
    and "CHR '' '' \<notin> set url" "CR \<notin> set url" "url \<noteq> []" "hd url \<noteq> CHR ''*''" "\<forall>h\<in>set hs. plainHeader h" "length hs \<le> 30"
    and "length (printRequest m url hs) \<le> memory" "length (printRequest m url hs) \<le> maxSize" "memory < 2 ^ 32"
  shows "if length c < length (printRequest m url hs)
    then \<exists>p. request_writeHeaders maxSize c giving (headers_reset Request memory, []) = ((p, []), None, Some '''')
    else \<exists>p behind. c = printRequest m url hs @ behind \<and>
      request_writeHeaders maxSize c giving (headers_reset Request memory, []) =
        ((p, if behind = [] then [] else [behind]), Some (url, fst (snd (fold headerEffect hs (m, 0, True, False, False)))), None) \<and>
      headersEndReceived p \<and> getHeadersLength p = length (printRequest m url hs) \<and>
      findParserToken p TkMethod = Some (methodName m) \<and> findParserToken p TkUrl = Some url \<and>
      (\<forall>name. getHeader p name = map_option snd (find (\<lambda>h. equalsIgnoreCase (fst h) name) hs)) \<and>
      settings (ph_parser p) = fold headerEffect hs (m, 0, True, False, False)"
proof (cases "length c < length (printRequest m url hs)")
  case True
  then show ?thesis
    using partial_head_refused [OF assms(1) True assms(3,6,8,9)] by simp
next
  case False
  let ?head = "printRequest m url hs"
  have "take (length ?head) (c @ later) = ?head"
    by (simp add: assms(1))
  then have c: "c = ?head @ drop (length ?head) c"
    using False append_take_drop_id [of "length ?head" c] by simp
  obtain p where "request_writeHeaders maxSize c giving (headers_reset Request memory, []) =
        ((p, if drop (length ?head) c = [] then [] else [drop (length ?head) c]),
          Some (url, fst (snd (fold headerEffect hs (m, 0, True, False, False)))), None)"
      "headersEndReceived p \<and> getHeadersLength p = length ?head \<and>
       findParserToken p TkMethod = Some (methodName m) \<and> findParserToken p TkUrl = Some url \<and>
       (\<forall>name. getHeader p name = map_option snd (find (\<lambda>h. equalsIgnoreCase (fst h) name) hs)) \<and>
       settings (ph_parser p) = fold headerEffect hs (m, 0, True, False, False)"
    using head_received [OF c assms(2-10)] by blast
  then show ?thesis
    using False c by (simp only: if_False) blast
qed

section \<open>Concrete requests\<close>

abbreviation sampleHeaders :: "(string \<times> string) list" where
  "sampleHeaders \<equiv> [(''Host'', ''h''), (''X'', ''1'')]"

lemma sample_plain: "\<forall>h\<in>set sampleHeaders. plainHeader h"
  by (simp add: plainHeader_def sameName_def)

theorem request_head_received_witness:
  "(\<exists>p. request_writeHeaders 4096 ''GET /a'' giving (headers_reset Request 4096, []) = ((p, []), None, Some '''')) \<and>
   (\<exists>p. request_writeHeaders 4096 (printRequest HttpGET ''/a'' sampleHeaders @ ''body'') giving (headers_reset Request 4096, []) =
      ((p, [''body'']), Some (''/a'', 0), None) \<and> getHeader p ''host'' = Some ''h'')"
proof (rule conjI)
  let ?head = "printRequest HttpGET ''/a'' sampleHeaders"
  have len: "length ?head = 34"
    by (simp add: printRequest_def)
  have "''GET /a'' @ ('' HTTP/1.1'' @ [CR, LF] @ ''Host: h'' @ [CR, LF] @ ''X: 1'' @ [CR, LF, CR, LF] @ ''body'') = ?head @ ''body''"
    by (simp add: printRequest_def)
  from request_head_received [OF this _ _ _ _ sample_plain, of 4096 4096]
  show "\<exists>p. request_writeHeaders 4096 ''GET /a'' giving (headers_reset Request 4096, []) = ((p, []), None, Some '''')"
    using len by simp
  have eq: "equalsIgnoreCase ''Host'' ''host''" "fst (snd (fold headerEffect sampleHeaders (HttpGET, 0, True, False, False))) = 0"
    by code_simp+
  have "(?head @ ''body'') @ [] = ?head @ ''body''" "\<not> length (?head @ ''body'') < length ?head"
    by simp_all
  from request_head_received [OF this(1) _ _ _ _ sample_plain, of 4096 4096] this(2)
  obtain p behind where "behind = ''body''"
    "request_writeHeaders 4096 (?head @ ''body'') giving (headers_reset Request 4096, []) =
        ((p, if behind = [] then [] else [behind]), Some (''/a'', fst (snd (fold headerEffect sampleHeaders (HttpGET, 0, True, False, False)))), None)"
    "\<forall>name. getHeader p name = map_option snd (find (\<lambda>h. equalsIgnoreCase (fst h) name) sampleHeaders)"
    unfolding len by (auto simp del: fold.simps find.simps)
  then show "\<exists>p. request_writeHeaders 4096 (?head @ ''body'') giving (headers_reset Request 4096, []) = ((p, [''body'']), Some (''/a'', 0), None) \<and>
      getHeader p ''host'' = Some ''h''"
    using eq by (intro exI [of _ p]) (simp del: fold.simps)
qed

end
