(* ===== verification/HttpBody.thy ===== *)
theory HttpBody
  imports HttpParsedHeaders
begin

unbundle bit_operations_syntax

text \<open>
  The body of an HTTP message, in both directions: \<open>HttpIncomingMessage\<close> of
  \<open>Libraries/Http/HttpConnection.h\<close> and \<open>HttpConnection.cpp\<close>, which delivers the bytes of a body
  according to its framing and decodes chunked transfer coding byte by byte, and the chunked
  writer of \<open>HttpOutgoingMessage\<close>, which produces it.

  The streams are parameters: a record of the operations the code calls on the body stream, on the
  stream the bytes come from and on its buffers pool, over a state of their own.
\<close>

section \<open>State\<close>

datatype framingKind = NoBody | FixedLength | Chunked | CloseDelimited

datatype chunkedState = CkSize | CkSizeExtension | CkSizeLF | CkData | CkDataCR | CkDataLF
  | CkTrailerLineStart | CkTrailerEndLF | CkFinished

record body =
  bodyBytesRemaining :: u64
  bodyFramingKind :: framingKind
  bodyComplete :: bool
  bodyStreamStarted :: bool
  chunkedPhase :: chunkedState
  chunkedChunkSize :: u64
  chunkedBytesRemaining :: u64
  chunkedSizeHasDigits :: bool

definition resetIncoming :: body where
  "resetIncoming = \<lparr>bodyBytesRemaining = 0, bodyFramingKind = NoBody, bodyComplete = True, bodyStreamStarted = False,
     chunkedPhase = CkSize, chunkedChunkSize = 0, chunkedBytesRemaining = 0, chunkedSizeHasDigits = False\<rparr>"

text \<open>
  \<open>io_push\<close> returns whether the stream wants more data, and the calls of \<open>consumeBodyBytes\<close> that
  its listeners made while the data was pushed. \<open>io_child\<close> is \<open>createChildView\<close>, \<open>io_unref\<close> the
  release of the view; None is a failure.
\<close>

record 's bodyIO =
  io_push :: "char list \<Rightarrow> 's \<Rightarrow> 's \<times> bool \<times> u64 list"
  io_destroyed :: "'s \<Rightarrow> bool"
  io_reactivate :: "bool \<Rightarrow> 's \<Rightarrow> 's"
  io_finish :: "'s \<Rightarrow> 's"
  io_child :: "'s \<Rightarrow> 's option"
  io_unref :: "'s \<Rightarrow> 's"
  io_unshift :: "char list \<Rightarrow> 's \<Rightarrow> 's option"
  io_pause :: "'s \<Rightarrow> 's"

text \<open>The message, the streams, and the error if there is one.\<close>

type_synonym 's bodyResult = "(body \<times> 's) \<times> string option"

section \<open>Framing\<close>

definition ows :: "char \<Rightarrow> bool" where
  "ows c \<longleftrightarrow> c = CHR '' '' \<or> c = TAB"

text \<open>The iterator skips blanks, takes the token up to the next blank, and skips blanks again.\<close>

definition transferEncodingIsChunked :: "char list \<Rightarrow> bool" where
  "transferEncodingIsChunked v =
     (let v1 = dropWhile ows v;
          tok = takeWhile (\<lambda>c. \<not> ows c) v1;
          v2 = dropWhile (\<lambda>c. \<not> ows c) v1 in
      if \<not> equalsIgnoreCase tok ''chunked'' then False else dropWhile ows v2 = [])"

text \<open>\<open>initBodyStream\<close> starts a new body stream, which cannot fail for a stream that was just destroyed.\<close>

definition prepareBodyStream :: "parsedHeaders \<Rightarrow> bool \<Rightarrow> body \<Rightarrow> body \<times> string option" where
  "prepareBodyStream p allowCloseDelimited b =
     (case getHeader p ''Transfer-Encoding'' of
        Some te \<Rightarrow>
          if getHeader p ''Content-Length'' \<noteq> None
          then (b, Some ''HttpIncomingMessage conflicting Content-Length and Transfer-Encoding'')
          else if \<not> transferEncodingIsChunked te
          then (b, Some ''HttpIncomingMessage unsupported Transfer-Encoding'')
          else (b\<lparr>bodyBytesRemaining := 0, bodyFramingKind := Chunked, bodyComplete := False, bodyStreamStarted := False,
                  chunkedPhase := CkSize, chunkedChunkSize := 0, chunkedBytesRemaining := 0, chunkedSizeHasDigits := False\<rparr>, None)
      | None \<Rightarrow>
          if getHeader p ''Content-Length'' \<noteq> None
          then (b\<lparr>bodyBytesRemaining := contentLength (ph_parser p), bodyFramingKind := FixedLength,
                  bodyComplete := (contentLength (ph_parser p) = 0), bodyStreamStarted := False\<rparr>, None)
          else if allowCloseDelimited
          then (b\<lparr>bodyBytesRemaining := 0, bodyFramingKind := CloseDelimited, bodyComplete := False,
                  bodyStreamStarted := False\<rparr>, None)
          else (b\<lparr>bodyBytesRemaining := 0, bodyFramingKind := NoBody, bodyComplete := True,
                  bodyStreamStarted := False\<rparr>, None))"

section \<open>Bodies of a known length, or up to the end of the connection\<close>

definition consumeBodyBytes :: "u64 \<Rightarrow> body \<Rightarrow> body \<times> string option" where
  "consumeBodyBytes bytes b =
     (if bodyFramingKind b \<noteq> FixedLength then (b, None)
      else if \<not> bytes \<le> bodyBytesRemaining b then (b, Some ''HttpIncomingMessage body exceeds Content-Length'')
      else
        (let b1 = b\<lparr>bodyBytesRemaining := bodyBytesRemaining b - bytes\<rparr> in
         (if bodyBytesRemaining b1 = 0 then b1\<lparr>bodyComplete := True\<rparr> else b1, None)))"

definition finishBodyStream :: "'s bodyIO \<Rightarrow> body \<times> 's \<Rightarrow> body \<times> 's" where
  "finishBodyStream io = (\<lambda>(b, s). (b\<lparr>bodyComplete := True\<rparr>, io_finish io s))"

definition reactivateBody :: "'s bodyIO \<Rightarrow> bool \<Rightarrow> 's \<Rightarrow> 's" where
  "reactivateBody io wanted s = (if \<not> io_destroyed io s then io_reactivate io wanted s else s)"

definition processPlain :: "'s bodyIO \<Rightarrow> char list \<Rightarrow> body \<times> 's \<Rightarrow> 's bodyResult" where
  "processPlain io data = (\<lambda>(b, s).
     if bodyFramingKind b = FixedLength \<and> length data > unat (bodyBytesRemaining b)
     then ((b, s), Some ''HttpIncomingMessage received body beyond Content-Length'')
     else
       (let remainingBeforePush = bodyBytesRemaining b in
        case io_push io data s of (s1, shouldContinue, calls) \<Rightarrow>
          (let s2 = reactivateBody io shouldContinue s1;
               b1 = fold (\<lambda>n x. fst (consumeBodyBytes n x)) calls b;
               (b2, e) =
                 (if bodyFramingKind b1 = FixedLength
                  then (if bodyBytesRemaining b1 = remainingBeforePush then consumeBodyBytes (of_nat (length data)) b1
                        else if bodyBytesRemaining b1 + of_nat (length data) = remainingBeforePush then (b1, None)
                        else (b1, Some ''HttpIncomingMessage body stream consumed an unexpected byte count''))
                  else (b1, None)) in
           if e \<noteq> None then ((b2, s2), e)
           else
             (let (b3, s3) = (if bodyFramingKind b2 = FixedLength \<and> bodyBytesRemaining b2 = 0
                              then finishBodyStream io (b2, s2) else (b2, s2)) in
              if \<not> shouldContinue then ((b3, io_pause io s3), None) else ((b3, s3), None)))))"

section \<open>Chunked bodies\<close>

definition hexValue :: "char \<Rightarrow> nat option" where
  "hexValue c =
     (if code CHR ''0'' \<le> code c \<and> code c \<le> code CHR ''9'' then Some (code c - code CHR ''0'')
      else if code CHR ''a'' \<le> code c \<and> code c \<le> code CHR ''f'' then Some (10 + code c - code CHR ''a'')
      else if code CHR ''A'' \<le> code c \<and> code c \<le> code CHR ''F'' then Some (10 + code c - code CHR ''A'')
      else None)"

definition chunkSize :: "char \<Rightarrow> body \<Rightarrow> body \<times> string option" where
  "chunkSize c b =
     (case hexValue c of
        Some v \<Rightarrow>
          if \<not> chunkedChunkSize b \<le> (- 1 - of_nat v) div 16 then (b, Some ''HttpIncomingMessage chunk size overflow'')
          else (b\<lparr>chunkedChunkSize := chunkedChunkSize b * 16 + of_nat v, chunkedSizeHasDigits := True\<rparr>, None)
      | None \<Rightarrow>
          if c = CHR '';''
          then (if \<not> chunkedSizeHasDigits b then (b, Some ''HttpIncomingMessage invalid chunk size'')
                else (b\<lparr>chunkedPhase := CkSizeExtension\<rparr>, None))
          else if c = CR
          then (if \<not> chunkedSizeHasDigits b then (b, Some ''HttpIncomingMessage invalid chunk size'')
                else (b\<lparr>chunkedPhase := CkSizeLF\<rparr>, None))
          else (b, Some ''HttpIncomingMessage invalid chunk size''))"

definition chunkSizeLF :: "char \<Rightarrow> body \<Rightarrow> body \<times> string option" where
  "chunkSizeLF c b =
     (if c \<noteq> LF then (b, Some ''HttpIncomingMessage malformed chunk header'')
      else if chunkedChunkSize b = 0 then (b\<lparr>chunkedPhase := CkTrailerLineStart\<rparr>, None)
      else (b\<lparr>chunkedPhase := CkData, chunkedChunkSize := 0, chunkedBytesRemaining := chunkedChunkSize b,
              chunkedSizeHasDigits := False\<rparr>, None))"

text \<open>The states in which one byte is looked at and consumed.\<close>

definition chunkByte :: "char \<Rightarrow> body \<Rightarrow> body \<times> string option" where
  "chunkByte c b =
     (case chunkedPhase b of
        CkSize \<Rightarrow> chunkSize c b
      | CkSizeExtension \<Rightarrow> (if c = CR then b\<lparr>chunkedPhase := CkSizeLF\<rparr> else b, None)
      | CkSizeLF \<Rightarrow> chunkSizeLF c b
      | CkDataCR \<Rightarrow>
          if c \<noteq> CR then (b, Some ''HttpIncomingMessage malformed chunk terminator'')
          else (b\<lparr>chunkedPhase := CkDataLF\<rparr>, None)
      | CkDataLF \<Rightarrow>
          if c \<noteq> LF then (b, Some ''HttpIncomingMessage malformed chunk terminator'')
          else (b\<lparr>chunkedPhase := CkSize, chunkedChunkSize := 0, chunkedSizeHasDigits := False\<rparr>, None)
      | CkTrailerLineStart \<Rightarrow>
          if c = CR then (b\<lparr>chunkedPhase := CkTrailerEndLF\<rparr>, None)
          else (b, Some ''HttpIncomingMessage non-empty trailers are not supported'')
      | _ \<Rightarrow> (b, None))"

text \<open>Giving back what is left of the data. A failure of the pool or of the stream has no message of its own.\<close>

definition giveBack :: "'s bodyIO \<Rightarrow> char list \<Rightarrow> 's \<Rightarrow> 's \<times> string option" where
  "giveBack io rest s =
     (case io_child io s of
        None \<Rightarrow> (s, Some ''createChildView'')
      | Some s1 \<Rightarrow> (case io_unshift io rest s1 of None \<Rightarrow> (s1, Some ''unshift'') | Some s2 \<Rightarrow> (io_unref io s2, None)))"

definition chunkTrailerEnd :: "'s bodyIO \<Rightarrow> bool \<Rightarrow> char \<Rightarrow> char list \<Rightarrow> body \<times> 's \<Rightarrow> 's bodyResult" where
  "chunkTrailerEnd io allowTrailingData c rest = (\<lambda>(b, s).
     if c \<noteq> LF then ((b, s), Some ''HttpIncomingMessage malformed trailer terminator'')
     else
       (let b1 = b\<lparr>bodyComplete := True, chunkedPhase := CkFinished\<rparr> in
        if rest \<noteq> []
        then (if allowTrailingData
              then (case giveBack io rest s of
                      (s1, Some e) \<Rightarrow> ((b1, s1), Some e)
                    | (s1, None) \<Rightarrow> (finishBodyStream io (b1, s1), None))
              else ((b1, s), Some ''HttpIncomingMessage does not support pipelined body data''))
        else (finishBodyStream io (b1, s), None)))"

definition chunkFinished :: "'s bodyIO \<Rightarrow> bool \<Rightarrow> char list \<Rightarrow> body \<times> 's \<Rightarrow> 's bodyResult" where
  "chunkFinished io allowTrailingData data = (\<lambda>(b, s).
     if allowTrailingData then (case giveBack io data s of (s1, e) \<Rightarrow> ((b, s1), e))
     else ((b, s), Some ''HttpIncomingMessage does not support pipelined body data''))"

text \<open>The loop on the data from \<open>rawOffset\<close> on.\<close>

function processChunked :: "'s bodyIO \<Rightarrow> bool \<Rightarrow> char list \<Rightarrow> body \<times> 's \<Rightarrow> 's bodyResult" where
  "processChunked io allow [] (b, s) = ((b, s), None)"
| "processChunked io allow (c # cs) (b, s) =
     (if chunkedPhase b = CkData
      then
        (let toEmit = (if length (c # cs) < unat (chunkedBytesRemaining b) then length (c # cs)
                       else unat (chunkedBytesRemaining b)) in
         if toEmit = 0 then processChunked io allow (c # cs) (b\<lparr>chunkedPhase := CkDataCR\<rparr>, s)
         else
           (case io_child io s of
              None \<Rightarrow> ((b, s), Some ''createChildView'')
            | Some s1 \<Rightarrow>
                (case io_push io (take toEmit (c # cs)) s1 of (s2, shouldContinue, calls) \<Rightarrow>
                   (let s3 = reactivateBody io shouldContinue (io_unref io s2);
                        left = chunkedBytesRemaining b - of_nat toEmit;
                        b1 = b\<lparr>chunkedPhase := (if left = 0 then CkDataCR else CkData), chunkedBytesRemaining := left\<rparr>;
                        rest = drop toEmit (c # cs) in
                    if \<not> shouldContinue
                    then (case (if rest \<noteq> [] then giveBack io rest s3 else (s3, None)) of
                            (s4, Some e) \<Rightarrow> ((b1, s4), Some e)
                          | (s4, None) \<Rightarrow> ((b1, io_pause io s4), None))
                    else processChunked io allow rest (b1, s3)))))
      else if chunkedPhase b = CkTrailerEndLF then chunkTrailerEnd io allow c cs (b, s)
      else if chunkedPhase b = CkFinished then chunkFinished io allow (c # cs) (b, s)
      else
        (case chunkByte c b of
           (b1, Some e) \<Rightarrow> ((b1, s), Some e)
         | (b1, None) \<Rightarrow> processChunked io allow cs (b1, s)))"
  by pat_completeness auto
termination
  by (relation "measure (\<lambda>(io, allow, data, b, s). 2 * length data +
        (if chunkedPhase b = CkData \<and> chunkedBytesRemaining b = 0 then 1 else 0))")
    (auto simp: Let_def unsigned_eq_0_iff split: if_splits)

declare processChunked.simps [simp del]

definition processBodyData :: "'s bodyIO \<Rightarrow> bool \<Rightarrow> char list \<Rightarrow> body \<times> 's \<Rightarrow> 's bodyResult" where
  "processBodyData io allowTrailingData data = (\<lambda>(b, s).
     if bodyFramingKind b = NoBody
     then ((b, s), if data \<noteq> [] then Some ''HttpIncomingMessage unexpected body data'' else None)
     else if bodyFramingKind b = FixedLength \<or> bodyFramingKind b = CloseDelimited then processPlain io data (b, s)
     else processChunked io allowTrailingData data (b, s))"

section \<open>The chunked writer\<close>

text \<open>Hexadecimal digits from the least significant one, at most sixteen of them.\<close>

fun hexDigits :: "nat \<Rightarrow> u64 \<Rightarrow> char list \<times> u64" where
  "hexDigits 0 sz = ([], sz)"
| "hexDigits (Suc k) sz =
     (let d = ''0123456789ABCDEF'' ! unat (sz AND 0xF); sz' = drop_bit 4 sz in
      if sz' > 0 then (case hexDigits k sz' of (ds, r) \<Rightarrow> (d # ds, r)) else ([d], sz'))"

text \<open>\<open>capacity\<close> is the size of the storage, 20 in the only call.\<close>

definition formatChunkHeader :: "u64 \<Rightarrow> nat \<Rightarrow> string + char list" where
  "formatChunkHeader sz capacity =
     (if \<not> capacity \<ge> 4 then Inl ''HttpOutgoingMessage chunk header buffer too small''
      else
        (case hexDigits 16 sz of (reversed, left) \<Rightarrow>
           if left \<noteq> 0 then Inl ''HttpOutgoingMessage chunk size overflow''
           else if \<not> length reversed + 2 \<le> capacity then Inl ''HttpOutgoingMessage chunk header buffer too small''
           else Inr (rev reversed @ [CR, LF])))"

text \<open>
  \<open>ChunkedWritableStream\<close>. Its destination acknowledges every write by a callback; \<open>cw_awaiting\<close>
  says which callback is the next. \<open>cw_dest\<close> are the writes passed to the destination, \<open>cw_done\<close>
  the buffers reported as written, \<open>cw_ended\<close> whether the destination has been ended. The
  destination takes every write of a chunk; had it refused one, the writer would only emit the error.
\<close>

datatype chunkCallback = OnHeader | OnBody | OnTerminator | OnFinal

record chunkedWriter =
  cw_body :: "char list"
  cw_awaiting :: "chunkCallback option"
  finalChunkStarted :: bool
  finalChunkWritten :: bool
  cw_dest :: "char list list"
  cw_done :: "char list list"
  cw_ended :: bool

definition cw_init :: chunkedWriter where
  "cw_init = \<lparr>cw_body = [], cw_awaiting = None, finalChunkStarted = False, finalChunkWritten = False,
     cw_dest = [], cw_done = [], cw_ended = False\<rparr>"

definition asyncWrite :: "char list \<Rightarrow> chunkedWriter \<Rightarrow> chunkedWriter \<times> string option" where
  "asyncWrite d w =
     (case formatChunkHeader (of_nat (length d)) 20 of
        Inl e \<Rightarrow> (w, Some e)
      | Inr header \<Rightarrow> (w\<lparr>cw_body := d, cw_awaiting := Some OnHeader, cw_dest := cw_dest w @ [header]\<rparr>, None))"

definition onChunkHeaderWritten :: "chunkedWriter \<Rightarrow> chunkedWriter" where
  "onChunkHeaderWritten w = w\<lparr>cw_awaiting := Some OnBody, cw_dest := cw_dest w @ [cw_body w]\<rparr>"

definition onChunkBodyWritten :: "chunkedWriter \<Rightarrow> chunkedWriter" where
  "onChunkBodyWritten w = w\<lparr>cw_awaiting := Some OnTerminator, cw_dest := cw_dest w @ [[CR, LF]]\<rparr>"

definition onChunkTerminatorWritten :: "chunkedWriter \<Rightarrow> chunkedWriter" where
  "onChunkTerminatorWritten w = w\<lparr>cw_body := [], cw_awaiting := None, cw_done := cw_done w @ [cw_body w]\<rparr>"

text \<open>\<open>written\<close> is whether the destination took the final chunk.\<close>

definition canEndWritable :: "bool \<Rightarrow> chunkedWriter \<Rightarrow> chunkedWriter \<times> bool" where
  "canEndWritable written w =
     (if finalChunkWritten w then (w, True)
      else if finalChunkStarted w then (w, False)
      else if \<not> written
      then (w\<lparr>finalChunkStarted := True, finalChunkWritten := True, cw_ended := True\<rparr>, True)
      else (w\<lparr>cw_awaiting := Some OnFinal, finalChunkStarted := True, cw_dest := cw_dest w @ [''0'' @ [CR, LF, CR, LF]]\<rparr>, False))"

definition onFinalChunkWritten :: "chunkedWriter \<Rightarrow> chunkedWriter" where
  "onFinalChunkWritten w = w\<lparr>cw_awaiting := None, finalChunkWritten := True, cw_ended := True\<rparr>"

text \<open>The destination acknowledges its last write.\<close>

definition acknowledge :: "chunkedWriter \<Rightarrow> chunkedWriter" where
  "acknowledge w =
     (case cw_awaiting w of
        None \<Rightarrow> w
      | Some OnHeader \<Rightarrow> onChunkHeaderWritten w
      | Some OnBody \<Rightarrow> onChunkBodyWritten w
      | Some OnTerminator \<Rightarrow> onChunkTerminatorWritten w
      | Some OnFinal \<Rightarrow> onFinalChunkWritten w)"

end
