(* ===== verification/HttpBodyProps.thy ===== *)
theory HttpBodyProps
  imports HttpBody
begin

unbundle bit_operations_syntax

text \<open>
  Bodies arrive as they were sent: the chunked writer and the chunked decoder agree on every
  sequence of buffers, however the stream between them is cut and whenever the receiver asks for
  a pause; sizes never wrap; a body of known length is delivered up to its length and no further.
\<close>

section \<open>Hexadecimal sizes\<close>

definition hexVal :: "char list \<Rightarrow> nat" where
  "hexVal hs = foldl (\<lambda>a c. a * 16 + the (hexValue c)) 0 hs"

definition isHex :: "char \<Rightarrow> bool" where
  "isHex c \<longleftrightarrow> hexValue c \<noteq> None"

lemma hexVal_snoc [simp]: "hexVal (hs @ [c]) = hexVal hs * 16 + the (hexValue c)"
  by (simp add: hexVal_def)

lemma hexVal_Nil [simp]: "hexVal [] = 0" "hexVal [c] = the (hexValue c)"
  by (simp_all add: hexVal_def)

lemma hexValue_less: "hexValue c = Some v \<Longrightarrow> v < 16"
  by (auto simp: hexValue_def code_def split: if_splits)

lemma hexDigit_value: "i < 16 \<Longrightarrow> hexValue (''0123456789ABCDEF'' ! i) = Some i"
proof -
  have "list_all (\<lambda>i. hexValue (''0123456789ABCDEF'' ! i) = Some i) [0..<16]"
    by code_simp
  then show "i < 16 \<Longrightarrow> ?thesis"
    by (simp add: list_all_iff)
qed

lemma hexDigits_value:
  fixes sz :: u64
  assumes "unat sz < 16 ^ k" "0 < k"
  shows "\<exists>ds. hexDigits k sz = (ds, 0) \<and> ds \<noteq> [] \<and> length ds \<le> k \<and> list_all isHex ds \<and> hexVal (rev ds) = unat sz"
  using assms
proof (induction k arbitrary: sz)
  case (Suc k)
  let ?d = "''0123456789ABCDEF'' ! unat (sz AND 0xF)"
  have low: "unat (sz AND 0xF) = unat sz mod 16"
  proof -
    have "sz AND 0xF = take_bit 4 sz"
      by (simp add: take_bit_eq_mask mask_eq_exp_minus_1)
    then show ?thesis
      by (simp add: take_bit_eq_mod unat_mod)
  qed
  have high: "unat (drop_bit 4 sz) = unat sz div 16"
    by (simp add: drop_bit_eq_div unat_div)
  have d: "isHex ?d" "the (hexValue ?d) = unat sz mod 16"
    using hexDigit_value [of "unat sz mod 16"] by (simp_all add: isHex_def low)
  show ?case
  proof (cases "drop_bit 4 sz = 0")
    case True
    then have "unat sz div 16 = 0"
      using high by simp
    then show ?thesis
      using True d by simp
  next
    case False
    then have "k \<noteq> 0"
      using Suc.prems(1) high by (cases k) (auto simp: unsigned_eq_0_iff)
    moreover have "unat (drop_bit 4 sz) < 16 ^ k"
      using Suc.prems(1) by (simp add: high less_mult_imp_div_less mult.commute)
    ultimately obtain ds where "hexDigits k (drop_bit 4 sz) = (ds, 0)" "ds \<noteq> []" "length ds \<le> k" "list_all isHex ds"
        "hexVal (rev ds) = unat sz div 16"
      using Suc.IH [of "drop_bit 4 sz"] high by auto
    then show ?thesis
      using False d by (auto simp: word_gt_0)
  qed
qed simp

text \<open>The size of a chunk as the writer prints it.\<close>

definition hexText :: "nat \<Rightarrow> char list" where
  "hexText n = rev (fst (hexDigits 16 (of_nat n)))"

lemma hexText:
  assumes "n < 2 ^ 64"
  shows "formatChunkHeader (of_nat n) 20 = Inr (hexText n @ [CR, LF])" "hexText n \<noteq> []" "list_all isHex (hexText n)"
    "hexVal (hexText n) = n"
proof -
  have n: "unat (of_nat n :: u64) = n"
    using assms by (simp add: unsigned_of_nat take_bit_nat_eq_self)
  obtain ds where "hexDigits 16 (of_nat n) = (ds, 0)" "ds \<noteq> []" "length ds \<le> 16" "list_all isHex ds" "hexVal (rev ds) = n"
    using hexDigits_value [of "of_nat n" 16] assms n by auto
  then show "formatChunkHeader (of_nat n) 20 = Inr (hexText n @ [CR, LF])" "hexText n \<noteq> []" "list_all isHex (hexText n)"
      "hexVal (hexText n) = n"
    by (simp_all add: formatChunkHeader_def hexText_def)
qed

text \<open>The guard lets a digit in exactly when the value still fits.\<close>

lemma chunkSize_digit:
  assumes "hexValue c = Some v"
  shows "chunkSize c b =
    (if unat (chunkedChunkSize b) * 16 + v < 2 ^ 64
     then (b\<lparr>chunkedChunkSize := of_nat (unat (chunkedChunkSize b) * 16 + v), chunkedSizeHasDigits := True\<rparr>, None)
     else (b, Some ''HttpIncomingMessage chunk size overflow''))"
proof -
  let ?a = "chunkedChunkSize b"
  have v: "v < 16" "unat (of_nat v :: u64) = v"
    using hexValue_less [OF assms] by (simp_all add: unsigned_of_nat take_bit_nat_eq_self)
  have le: "(of_nat v :: u64) \<le> - 1"
    by simp
  have m: "unat (- 1 - of_nat v :: u64) = 2 ^ 64 - 1 - v"
    by (simp add: unat_sub [OF le] v unsigned_minus_1_eq_mask mask_eq_exp_minus_1)
  have "?a \<le> (- 1 - of_nat v) div 16 \<longleftrightarrow> unat ?a \<le> (2 ^ 64 - 1 - v) div 16"
    by (simp add: word_le_nat_alt unat_div m)
  also have "\<dots> \<longleftrightarrow> unat ?a * 16 + v < 2 ^ 64"
    using v by (auto simp: less_eq_div_iff_mult_less_eq)
  finally have "?a \<le> (- 1 - of_nat v) div 16 \<longleftrightarrow> unat ?a * 16 + v < 2 ^ 64" .
  moreover have "?a * 16 + of_nat v = of_nat (unat ?a * 16 + v)"
    by simp
  ultimately show ?thesis
    by (simp only: chunkSize_def assms option.case not_less) simp
qed

lemma processChunked_byte:
  assumes "chunkedPhase b \<notin> {CkData, CkTrailerEndLF, CkFinished}"
  shows "processChunked io allow (c # cs) (b, s) =
    (case chunkByte c b of (b1, Some e) \<Rightarrow> ((b1, s), Some e) | (b1, None) \<Rightarrow> processChunked io allow cs (b1, s))"
  using assms by (simp add: processChunked.simps)

lemma processChunked_nil [simp]: "processChunked io allow [] st = (st, None)"
  by (cases st) (simp add: processChunked.simps)

lemma chunk_size_run:
  assumes "list_all isHex hs" "chunkedPhase b = CkSize"
  shows "\<exists>b'. processChunked io allow hs (b, s) =
      ((b', s), if foldl (\<lambda>a c. a * 16 + the (hexValue c)) (unat (chunkedChunkSize b)) hs < 2 ^ 64 then None
                else Some ''HttpIncomingMessage chunk size overflow'') \<and>
    (foldl (\<lambda>a c. a * 16 + the (hexValue c)) (unat (chunkedChunkSize b)) hs < 2 ^ 64 \<longrightarrow>
       unat (chunkedChunkSize b') = foldl (\<lambda>a c. a * 16 + the (hexValue c)) (unat (chunkedChunkSize b)) hs \<and>
       chunkedPhase b' = CkSize)"
  using assms
proof (induction hs arbitrary: b)
  case Nil
  then show ?case
    using unsigned_less [of "chunkedChunkSize b", where 'a = nat] by simp
next
  case (Cons c hs)
  obtain v where v: "hexValue c = Some v"
    using Cons.prems(1) by (auto simp: isHex_def)
  let ?n = "unat (chunkedChunkSize b) * 16 + v"
  have step: "processChunked io allow (c # hs) (b, s) =
      (case chunkSize c b of (b1, Some e) \<Rightarrow> ((b1, s), Some e) | (b1, None) \<Rightarrow> processChunked io allow hs (b1, s))"
    using Cons.prems(2) by (simp add: processChunked_byte chunkByte_def)
  have grow: "a \<le> foldl (\<lambda>a c. a * 16 + the (hexValue c)) a xs" for a :: nat and xs
  proof (induction xs arbitrary: a)
    case (Cons x xs)
    have "a \<le> a * 16 + the (hexValue x)"
      by simp
    also have "\<dots> \<le> foldl (\<lambda>a c. a * 16 + the (hexValue c)) (a * 16 + the (hexValue x)) xs"
      by (rule Cons.IH)
    finally show ?case by simp
  qed simp
  show ?case
  proof (cases "?n < 2 ^ 64")
    case True
    let ?b = "b\<lparr>chunkedChunkSize := of_nat ?n, chunkedSizeHasDigits := True\<rparr>"
    have "unat (chunkedChunkSize ?b) = ?n"
      using True by (simp add: unsigned_of_nat take_bit_nat_eq_self del: of_nat_add of_nat_mult)
    then show ?thesis
      using Cons.IH [of ?b] Cons.prems True v by (simp add: step chunkSize_digit [OF v] del: of_nat_add of_nat_mult)
  next
    case False
    then show ?thesis
      using grow [of ?n hs] v by (simp add: step chunkSize_digit [OF v])
  qed
qed

section \<open>Streams that record\<close>

text \<open>
  What the streams do for the body: the stream of the body takes everything that is pushed
  (\<open>recv\<close>) and may ask for a pause at any time; what is given back to the source is there to be
  read again (\<open>back\<close>); nothing else touches either. Their listeners do not call \<open>consumeBodyBytes\<close>.
\<close>

definition streams :: "'s bodyIO \<Rightarrow> ('s \<Rightarrow> char list) \<Rightarrow> ('s \<Rightarrow> char list) \<Rightarrow> bool" where
  "streams io recv back \<longleftrightarrow>
     (\<forall>d s. \<exists>s' goOn. io_push io d s = (s', goOn, []) \<and> recv s' = recv s @ d \<and> back s' = back s) \<and>
     (\<forall>d s. \<exists>s'. io_unshift io d s = Some s' \<and> recv s' = recv s \<and> back s' = d @ back s) \<and>
     (\<forall>s. \<exists>s'. io_child io s = Some s' \<and> recv s' = recv s \<and> back s' = back s) \<and>
     (\<forall>s. recv (io_unref io s) = recv s \<and> back (io_unref io s) = back s) \<and>
     (\<forall>s. recv (io_pause io s) = recv s \<and> back (io_pause io s) = back s) \<and>
     (\<forall>s. recv (io_finish io s) = recv s \<and> back (io_finish io s) = back s) \<and>
     (\<forall>w s. recv (io_reactivate io w s) = recv s \<and> back (io_reactivate io w s) = back s)"

lemma streams_push:
  assumes "streams io recv back"
  obtains s' goOn where "io_push io d s = (s', goOn, [])" "recv s' = recv s @ d" "back s' = back s"
  using assms unfolding streams_def by blast

lemma streams_child:
  assumes "streams io recv back"
  obtains s' where "io_child io s = Some s'" "recv s' = recv s" "back s' = back s"
  using assms unfolding streams_def by blast

lemma streams_keep:
  assumes "streams io recv back"
  shows "recv (io_unref io s) = recv s" "back (io_unref io s) = back s" "recv (io_pause io s) = recv s" "back (io_pause io s) = back s"
    "recv (io_finish io s) = recv s" "back (io_finish io s) = back s" "recv (reactivateBody io w s) = recv s"
    "back (reactivateBody io w s) = back s"
  using assms unfolding streams_def reactivateBody_def by simp_all

lemma streams_giveBack:
  assumes "streams io recv back"
  obtains s' where "giveBack io d s = (s', None)" "recv s' = recv s" "back s' = d @ back s"
proof -
  obtain s1 where s1: "io_child io s = Some s1" "recv s1 = recv s" "back s1 = back s"
    using assms by (rule streams_child)
  obtain s2 where s2: "io_unshift io d s1 = Some s2" "recv s2 = recv s1" "back s2 = d @ back s1"
    using assms unfolding streams_def by blast
  show thesis
    using that [of "io_unref io s2"] s1 s2 streams_keep [OF assms] by (simp add: giveBack_def)
qed

section \<open>Where the decoder is in the wire\<close>

definition wireChunk :: "char list \<Rightarrow> char list" where
  "wireChunk d = hexText (length d) @ [CR, LF] @ d @ [CR, LF]"

text \<open>The chunks, the last chunk, and what the connection carries after them.\<close>

definition wire :: "char list \<Rightarrow> char list list \<Rightarrow> char list" where
  "wire z ds = concat (map wireChunk ds) @ ''0'' @ [CR, LF, CR, LF] @ z"

definition goodChunks :: "char list list \<Rightarrow> bool" where
  "goodChunks ds \<longleftrightarrow> list_all (\<lambda>d. d \<noteq> [] \<and> length d < 2 ^ 64) ds"

text \<open>What follows the line with a size, and the payload in it.\<close>

definition afterSize :: "char list \<Rightarrow> nat \<Rightarrow> char list \<Rightarrow> char list \<Rightarrow> bool" where
  "afterSize z n w x \<longleftrightarrow> (n = 0 \<and> w = [CR, LF] @ z \<and> x = []) \<or>
     (\<exists>d ds. n = length d \<and> d \<noteq> [] \<and> length d < 2 ^ 64 \<and> goodChunks ds \<and> w = d @ [CR, LF] @ wire z ds \<and> x = d @ concat ds)"

text \<open>The decoder has \<open>w\<close> before it, which holds the payload \<open>x\<close>.\<close>

definition tracks :: "char list \<Rightarrow> body \<Rightarrow> char list \<Rightarrow> char list \<Rightarrow> bool" where
  "tracks z b w x \<longleftrightarrow> bodyFramingKind b = Chunked \<and> (bodyComplete b \<longleftrightarrow> chunkedPhase b = CkFinished) \<and>
     (case chunkedPhase b of
        CkSize \<Rightarrow> (\<exists>h1 h2 u. w = h2 @ [CR, LF] @ u \<and> list_all isHex h2 \<and> unat (chunkedChunkSize b) = hexVal h1 \<and>
          h1 @ h2 \<noteq> [] \<and> (chunkedSizeHasDigits b \<longleftrightarrow> h1 \<noteq> []) \<and> hexVal (h1 @ h2) < 2 ^ 64 \<and> afterSize z (hexVal (h1 @ h2)) u x)
      | CkSizeExtension \<Rightarrow> False
      | CkSizeLF \<Rightarrow> (\<exists>u. w = LF # u \<and> afterSize z (unat (chunkedChunkSize b)) u x)
      | CkData \<Rightarrow> (\<exists>d ds. unat (chunkedBytesRemaining b) = length d \<and> d \<noteq> [] \<and> goodChunks ds \<and>
          w = d @ [CR, LF] @ wire z ds \<and> x = d @ concat ds)
      | CkDataCR \<Rightarrow> (\<exists>ds. goodChunks ds \<and> w = CR # LF # wire z ds \<and> x = concat ds)
      | CkDataLF \<Rightarrow> (\<exists>ds. goodChunks ds \<and> w = LF # wire z ds \<and> x = concat ds)
      | CkTrailerLineStart \<Rightarrow> w = [CR, LF] @ z \<and> x = []
      | CkTrailerEndLF \<Rightarrow> w = LF # z \<and> x = []
      | CkFinished \<Rightarrow> w = z \<and> x = [])"

lemma hexValue_zero [simp]: "hexValue (CHR ''0'') = Some 0"
  by (simp add: hexValue_def code_def)

lemma hexValue_CR [simp]: "hexValue CR = None"
  by (simp add: hexValue_def code_def)

lemma wire_start:
  assumes "goodChunks ds"
  shows "\<exists>h u. wire z ds = h @ [CR, LF] @ u \<and> h \<noteq> [] \<and> list_all isHex h \<and> hexVal h < 2 ^ 64 \<and> afterSize z (hexVal h) u (concat ds)"
proof (cases ds)
  case Nil
  then show ?thesis
    by (intro exI [of _ "''0''"] exI [of _ "[CR, LF] @ z"]) (simp add: wire_def isHex_def hexVal_def afterSize_def)
next
  case (Cons d rest)
  then have d: "d \<noteq> []" "length d < 2 ^ 64" "goodChunks rest"
    using assms by (simp_all add: goodChunks_def)
  have "wire z ds = hexText (length d) @ [CR, LF] @ (d @ [CR, LF] @ wire z rest)"
    by (simp add: Cons wire_def wireChunk_def)
  moreover have "afterSize z (length d) (d @ [CR, LF] @ wire z rest) (concat ds)"
    using d Cons unfolding afterSize_def by (intro disjI2 exI [of _ d] exI [of _ rest]) simp
  ultimately show ?thesis
    using hexText [OF d(2)] d(2) by metis
qed

lemma tracks_start:
  assumes "goodChunks ds" "bodyFramingKind b = Chunked" "chunkedPhase b = CkSize" "chunkedChunkSize b = 0"
    "\<not> chunkedSizeHasDigits b" "\<not> bodyComplete b"
  shows "tracks z b (wire z ds) (concat ds)"
proof -
  obtain h u where h: "wire z ds = h @ [CR, LF] @ u" "h \<noteq> []" "list_all isHex h" "hexVal h < 2 ^ 64" "afterSize z (hexVal h) u (concat ds)"
    using wire_start [OF assms(1)] by blast
  then show ?thesis
    using assms unfolding tracks_def by (simp, intro exI [of _ "[]"] exI [of _ h] exI [of _ u]) simp
qed

lemma tracks_byte:
  assumes "tracks z b (c # w) x" "chunkedPhase b \<notin> {CkData, CkTrailerEndLF, CkFinished}"
  shows "\<exists>b'. chunkByte c b = (b', None) \<and> tracks z b' w x"
proof (cases "chunkedPhase b")
  case CkSize
  then obtain h1 h2 u where h: "c # w = h2 @ [CR, LF] @ u" "list_all isHex h2" "unat (chunkedChunkSize b) = hexVal h1"
      "h1 @ h2 \<noteq> []" "chunkedSizeHasDigits b \<longleftrightarrow> h1 \<noteq> []" "hexVal (h1 @ h2) < 2 ^ 64" "afterSize z (hexVal (h1 @ h2)) u x"
      and kind: "bodyFramingKind b = Chunked" "\<not> bodyComplete b"
    using assms(1) by (auto simp: tracks_def)
  show ?thesis
  proof (cases h2)
    case Nil
    then have "c = CR" "w = LF # u" "h1 \<noteq> []"
      using h by auto
    then show ?thesis
      using CkSize h Nil kind by (simp add: chunkByte_def chunkSize_def tracks_def)
  next
    case (Cons d ds)
    then have c: "c = d" "w = ds @ [CR, LF] @ u" "list_all isHex ds"
      using h by auto
    obtain v where v: "hexValue c = Some v"
      using h(2) Cons c(1) by (auto simp: isHex_def)
    have "hexVal (h1 @ [c]) \<le> hexVal ((h1 @ [c]) @ ds)"
    proof (induction ds rule: rev_induct)
      case (snoc y ys)
      then show ?case
        unfolding append_assoc [symmetric] hexVal_snoc by linarith
    qed simp
    then have fits: "unat (chunkedChunkSize b) * 16 + v < 2 ^ 64"
      using h(3,6) Cons c(1) v by simp
    let ?b = "b\<lparr>chunkedChunkSize := of_nat (unat (chunkedChunkSize b) * 16 + v), chunkedSizeHasDigits := True\<rparr>"
    have "chunkByte c b = (?b, None)"
      using fits CkSize by (simp add: chunkByte_def chunkSize_digit [OF v])
    moreover have "unat (chunkedChunkSize ?b) = hexVal (h1 @ [c])"
      using fits h(3) v by (simp add: unsigned_of_nat take_bit_nat_eq_self del: of_nat_add of_nat_mult)
    then have "tracks z ?b w x"
      using CkSize c h kind Cons unfolding tracks_def
      by (simp del: of_nat_add of_nat_mult hexVal_snoc) (intro exI [of _ "h1 @ [c]"] exI [of _ ds] exI [of _ u], simp del: hexVal_snoc)
    ultimately show ?thesis by blast
  qed
next
  case CkSizeLF
  then have u: "c = LF" "afterSize z (unat (chunkedChunkSize b)) w x" "bodyFramingKind b = Chunked" "\<not> bodyComplete b"
    using assms(1) by (auto simp: tracks_def)
  from u(2) consider (last) "chunkedChunkSize b = 0" "w = [CR, LF] @ z" "x = []"
    | (more) d ds where "unat (chunkedChunkSize b) = length d" "d \<noteq> []" "goodChunks ds" "w = d @ [CR, LF] @ wire z ds" "x = d @ concat ds"
    by (auto simp: afterSize_def unsigned_eq_0_iff)
  then show ?thesis
  proof cases
    case last
    then show ?thesis
      using CkSizeLF u by (simp add: chunkByte_def chunkSizeLF_def tracks_def)
  next
    case more
    then have "chunkedChunkSize b \<noteq> 0"
      by auto
    then show ?thesis
      using CkSizeLF u more by (auto simp: chunkByte_def chunkSizeLF_def tracks_def)
  qed
next
  case CkDataLF
  then obtain ds where ds: "goodChunks ds" "c = LF" "w = wire z ds" "x = concat ds" "bodyFramingKind b = Chunked" "\<not> bodyComplete b"
    using assms(1) by (auto simp: tracks_def)
  then show ?thesis
    using CkDataLF tracks_start [OF ds(1), of "b\<lparr>chunkedPhase := CkSize, chunkedChunkSize := 0, chunkedSizeHasDigits := False\<rparr>"]
    by (simp add: chunkByte_def)
qed (use assms in \<open>auto simp: tracks_def chunkByte_def\<close>)

text \<open>In the data of a chunk: what is pushed is the next part of the payload.\<close>

lemma tracks_data:
  assumes "tracks z b (c # cs @ w) x" "chunkedPhase b = CkData"
  obtains n x2 where "n = min (length (c # cs)) (unat (chunkedBytesRemaining b))" "0 < n"
    "unat (chunkedBytesRemaining b - of_nat n) = unat (chunkedBytesRemaining b) - n"
    "x = take n (c # cs) @ x2"
    "tracks z (b\<lparr>chunkedPhase := (if chunkedBytesRemaining b - of_nat n = 0 then CkDataCR else CkData),
       chunkedBytesRemaining := chunkedBytesRemaining b - of_nat n\<rparr>) (drop n (c # cs) @ w) x2"
proof -
  let ?rem = "unat (chunkedBytesRemaining b)"
  define n where "n = min (length (c # cs)) ?rem"
  obtain d ds where d: "?rem = length d" "d \<noteq> []" "goodChunks ds" "(c # cs) @ w = d @ [CR, LF] @ wire z ds" "x = d @ concat ds"
      "bodyFramingKind b = Chunked" "\<not> bodyComplete b"
    using assms by (auto simp: tracks_def)
  have n: "0 < n" "n \<le> length d" "n \<le> length (c # cs)"
    using d(1,2) by (auto simp: n_def)
  have "unat (of_nat n :: u64) = n"
    using n(2) d(1) unsigned_less [of "chunkedBytesRemaining b", where 'a = nat]
    by (simp add: unsigned_of_nat take_bit_nat_eq_self)
  then have le: "of_nat n \<le> chunkedBytesRemaining b" and rem: "unat (chunkedBytesRemaining b - of_nat n) = ?rem - n"
    using n(2) d(1) by (simp_all add: word_le_nat_alt unat_sub)
  have "take n (c # cs) = take n ((c # cs) @ w)" "drop n (c # cs) @ w = drop n ((c # cs) @ w)"
    unfolding take_append drop_append using n(3) by simp_all
  then have split: "take n (c # cs) = take n d" "drop n (c # cs) @ w = drop n d @ [CR, LF] @ wire z ds"
    unfolding d(4) take_append drop_append using n(2) by simp_all
  have zero: "chunkedBytesRemaining b - of_nat n = 0 \<longleftrightarrow> drop n d = []"
  proof -
    have "chunkedBytesRemaining b - of_nat n = 0 \<longleftrightarrow> unat (chunkedBytesRemaining b - of_nat n) = 0"
      by (rule unsigned_eq_0_iff [symmetric])
    then show ?thesis
      using rem d(1) by simp
  qed
  have x: "x = take n (c # cs) @ (drop n d @ concat ds)"
    using d(5) split(1) by (metis append_assoc append_take_drop_id)
  show thesis
  proof (rule that [OF n_def n(1) rem x])
    show "tracks z (b\<lparr>chunkedPhase := (if chunkedBytesRemaining b - of_nat n = 0 then CkDataCR else CkData),
       chunkedBytesRemaining := chunkedBytesRemaining b - of_nat n\<rparr>) (drop n (c # cs) @ w) (drop n d @ concat ds)"
    proof (cases "drop n d = []")
      case True
      then show ?thesis
        using d(3,6,7) split(2) zero by (auto simp: tracks_def)
    next
      case False
      moreover have "unat (chunkedBytesRemaining b - of_nat n) = length (drop n d)"
        using rem d(1) by simp
      ultimately show ?thesis
        unfolding split(2) using d(3,6,7) zero
        by (simp add: tracks_def) (intro exI [of _ "drop n d"] conjI exI [of _ ds], simp_all)
    qed
  qed
qed

text \<open>
  One call of the decoder, on any part of the wire: it delivers the payload of what it consumes,
  and what it does not consume because the receiver asked for a pause is given back.
\<close>

lemma processChunked_tracks:
  assumes "streams io recv back" "allow \<or> z = []" "tracks z b (data @ w) x"
  shows "\<exists>b' s' u v x1 x2. processChunked io allow data (b, s) = ((b', s'), None) \<and> data = u @ v \<and> back s' = v @ back s \<and>
    x = x1 @ x2 \<and> recv s' = recv s @ x1 \<and> tracks z b' (v @ w) x2 \<and> (data \<noteq> [] \<and> \<not> bodyComplete b \<longrightarrow> u \<noteq> [])"
  using assms(3)
proof (induction "length data" arbitrary: data b s x rule: less_induct)
  case less
  show ?case
  proof (cases data)
    case Nil
    then show ?thesis
      using less.prems by (intro exI [of _ b] exI [of _ s] exI [of _ "[]"] exI [of _ "[]"] exI [of _ "[]"] exI [of _ x]) simp
  next
    case (Cons c cs)
    have tr: "tracks z b (c # cs @ w) x"
      using less.prems(1) Cons by simp
    consider (data) "chunkedPhase b = CkData" | (trailer) "chunkedPhase b = CkTrailerEndLF" | (fin) "chunkedPhase b = CkFinished"
      | (byte) "chunkedPhase b \<notin> {CkData, CkTrailerEndLF, CkFinished}"
      by auto
    then show ?thesis
    proof cases
      case byte
      obtain b1 where b1: "chunkByte c b = (b1, None)" "tracks z b1 (cs @ w) x"
        using tracks_byte [OF tr byte] by blast
      obtain b' s' u v x1 x2 where ih: "processChunked io allow cs (b1, s) = ((b', s'), None)" "cs = u @ v" "back s' = v @ back s"
          "x = x1 @ x2" "recv s' = recv s @ x1" "tracks z b' (v @ w) x2"
        using less.hyps [OF _ b1(2)] Cons by (metis length_Cons lessI)
      then show ?thesis
        using b1(1) byte Cons by (intro exI [of _ b'] exI [of _ s'] exI [of _ "c # u"] exI [of _ v]
            exI [of _ x1] exI [of _ x2]) (simp add: processChunked_byte)
    next
      case trailer
      then have t: "c = LF" "cs @ w = z" "x = []" "bodyFramingKind b = Chunked"
        using tr by (auto simp: tracks_def)
      let ?b = "b\<lparr>bodyComplete := True, chunkedPhase := CkFinished\<rparr>"
      obtain s1 where s1: "(if cs = [] then (s, None) else giveBack io cs s) = (s1, None)" "recv s1 = recv s" "back s1 = cs @ back s"
        by (cases "cs = []") (use streams_giveBack [OF assms(1), of cs s] in auto)
      have "cs \<noteq> [] \<Longrightarrow> allow"
        using t(2) assms(2) by auto
      then have "processChunked io allow (c # cs) (b, s) = ((?b, io_finish io s1), None)"
        using trailer t(1) s1(1)
        by (cases "cs = []") (simp_all add: processChunked.simps chunkTrailerEnd_def finishBodyStream_def Let_def)
      then show ?thesis
        using t s1 Cons streams_keep(5,6) [OF assms(1)]
        by (intro exI [of _ ?b] exI [of _ "io_finish io s1"] exI [of _ "[LF]"] exI [of _ cs] exI [of _ "[]"] exI [of _ "[]"])
          (simp add: tracks_def)
    next
      case fin
      then have t: "data @ w = z" "x = []" "bodyFramingKind b = Chunked" "bodyComplete b"
        using less.prems by (simp_all add: tracks_def)
      obtain s1 where s1: "giveBack io data s = (s1, None)" "recv s1 = recv s" "back s1 = data @ back s"
        using assms(1) by (rule streams_giveBack)
      have "processChunked io allow data (b, s) = ((b, s1), None)"
        using fin t(1) assms(2) s1(1) Cons by (auto simp: processChunked.simps chunkFinished_def)
      then show ?thesis
        using t s1 fin by (intro exI [of _ b] exI [of _ s1] exI [of _ "[]"] exI [of _ data] exI [of _ "[]"] exI [of _ "[]"])
          (simp add: tracks_def)
    next
      case data
      obtain n x2 where n: "n = min (length (c # cs)) (unat (chunkedBytesRemaining b))" "0 < n"
          "unat (chunkedBytesRemaining b - of_nat n) = unat (chunkedBytesRemaining b) - n" "x = take n (c # cs) @ x2"
        and tr': "tracks z (b\<lparr>chunkedPhase := (if chunkedBytesRemaining b - of_nat n = 0 then CkDataCR else CkData),
          chunkedBytesRemaining := chunkedBytesRemaining b - of_nat n\<rparr>) (drop n (c # cs) @ w) x2"
        using tracks_data [OF tr data] by metis
      let ?b = "b\<lparr>chunkedPhase := (if chunkedBytesRemaining b - of_nat n = 0 then CkDataCR else CkData),
          chunkedBytesRemaining := chunkedBytesRemaining b - of_nat n\<rparr>"
      obtain s1 where s1: "io_child io s = Some s1" "recv s1 = recv s" "back s1 = back s"
        using assms(1) by (rule streams_child)
      obtain s2 goOn where s2: "io_push io (take n (c # cs)) s1 = (s2, goOn, [])" "recv s2 = recv s1 @ take n (c # cs)" "back s2 = back s1"
        using assms(1) by (rule streams_push)
      define s3 where "s3 = reactivateBody io goOn (io_unref io s2)"
      have s3: "recv s3 = recv s @ take n (c # cs)" "back s3 = back s"
        using s1 s2 streams_keep [OF assms(1)] by (simp_all add: s3_def)
      have emit: "(if length (c # cs) < unat (chunkedBytesRemaining b) then length (c # cs) else unat (chunkedBytesRemaining b)) = n"
        using n(1) by simp
      have step: "processChunked io allow (c # cs) (b, s) =
        (if \<not> goOn then (case (if drop n (c # cs) \<noteq> [] then giveBack io (drop n (c # cs)) s3 else (s3, None)) of
             (s4, Some e) \<Rightarrow> ((?b, s4), Some e) | (s4, None) \<Rightarrow> ((?b, io_pause io s4), None))
         else processChunked io allow (drop n (c # cs)) (?b, s3))"
        using data n(2) s1(1) s2(1) emit by (simp add: processChunked.simps(2) [of io allow c cs b s] Let_def s3_def del: length_Cons)
      show ?thesis
      proof (cases goOn)
        case True
        obtain b' s' u v y1 y2 where ih: "processChunked io allow (drop n (c # cs)) (?b, s3) = ((b', s'), None)"
            "drop n (c # cs) = u @ v" "back s' = v @ back s3" "x2 = y1 @ y2" "recv s' = recv s3 @ y1" "tracks z b' (v @ w) y2"
          using less.hyps [OF _ tr'] Cons n(2) by (metis diff_less length_0_conv length_drop length_greater_0_conv list.distinct(1))
        have "data = (take n (c # cs) @ u) @ v"
          using ih(2) Cons append_take_drop_id [of n "c # cs"] by simp
        then show ?thesis
          using ih n(2,4) True step s3 Cons
          by (intro exI [of _ b'] exI [of _ s'] exI [of _ "take n (c # cs) @ u"] exI [of _ v] exI [of _ "take n (c # cs) @ y1"]
              exI [of _ y2]) auto
      next
        case False
        obtain s4 where s4: "(if drop n (c # cs) \<noteq> [] then giveBack io (drop n (c # cs)) s3 else (s3, None)) = (s4, None)"
            "recv s4 = recv s3" "back s4 = drop n (c # cs) @ back s"
        proof (cases "drop n (c # cs) = []")
          case True
          then show thesis using that s3(2) by simp
        next
          case False
          then show thesis
            using that s3(2) by (rule_tac streams_giveBack [OF assms(1), of "drop n (c # cs)" s3]) simp
        qed
        show ?thesis
          using False step s4 s3(1) n(2,4) tr' Cons streams_keep(3,4) [OF assms(1)]
          by (intro exI [of _ ?b] exI [of _ "io_pause io s4"] exI [of _ "take n (c # cs)"] exI [of _ "drop n (c # cs)"]
              exI [of _ "take n (c # cs)"] exI [of _ x2]) simp
      qed
    qed
  qed
qed

section \<open>A chunked body from end to end\<close>

text \<open>
  Every read takes at least one byte of the wire, as many as the next number of \<open>ks\<close> says; what the
  decoder gives back is read again. Reading stops when the body is complete.
\<close>

fun receiveBody :: "'s bodyIO \<Rightarrow> ('s \<Rightarrow> char list) \<Rightarrow> bool \<Rightarrow> nat list \<Rightarrow> char list \<Rightarrow> body \<times> 's \<Rightarrow> (body \<times> 's) \<times> char list \<times> string option"
  where
  "receiveBody io back allow [] w st = (st, w, None)"
| "receiveBody io back allow (k # ks) w (b, s) =
     (if bodyComplete b then ((b, s), w, None)
      else (case processBodyData io allow (take (Suc k) w) (b, s) of
              (st, Some e) \<Rightarrow> (st, w, Some e)
            | ((b', s'), None) \<Rightarrow>
                receiveBody io back allow ks (take (length (back s') - length (back s)) (back s') @ drop (Suc k) w) (b', s')))"

lemma tracks_open:
  assumes "tracks z b w x" "\<not> bodyComplete b"
  shows "w \<noteq> []"
  using assms by (auto simp: tracks_def split: chunkedState.splits)

lemma tracks_closed:
  assumes "tracks z b w x" "bodyComplete b"
  shows "w = z" "x = []"
  using assms by (auto simp: tracks_def)

lemma receiveBody_tracks:
  assumes "streams io recv back" "allow \<or> z = []" "tracks z b w x" "length w \<le> length ks"
  shows "\<exists>b' s'. receiveBody io back allow ks w (b, s) = ((b', s'), z, None) \<and> recv s' = recv s @ x \<and> bodyComplete b'"
  using assms(3,4)
proof (induction ks arbitrary: b s w x)
  case Nil
  then have "bodyComplete b"
    using tracks_open by fastforce
  then show ?case
    using tracks_closed [OF Nil.prems(1)] by simp
next
  case (Cons k ks)
  show ?case
  proof (cases "bodyComplete b")
    case True
    then show ?thesis
      using tracks_closed [OF Cons.prems(1)] by simp
  next
    case False
    have w: "take (Suc k) w @ drop (Suc k) w = w" "take (Suc k) w \<noteq> []"
      using tracks_open [OF Cons.prems(1) False] by simp_all
    have "tracks z b (take (Suc k) w @ drop (Suc k) w) x"
      using Cons.prems(1) w(1) by simp
    from processChunked_tracks [OF assms(1,2) this, of s]
    obtain b' s' u v x1 x2 where p: "processChunked io allow (take (Suc k) w) (b, s) = ((b', s'), None)" "take (Suc k) w = u @ v"
        "back s' = v @ back s" "x = x1 @ x2" "recv s' = recv s @ x1" "tracks z b' (v @ drop (Suc k) w) x2" "u \<noteq> []"
      using w(2) False by blast
    have kind: "bodyFramingKind b = Chunked"
      using Cons.prems(1) by (simp add: tracks_def)
    have "length (v @ drop (Suc k) w) < length w"
      using w(1) p(2,7) by (metis append.assoc append_eq_append_conv2 length_append length_greater_0_conv less_add_same_cancel2)
    then obtain b2 s2 where "receiveBody io back allow ks (v @ drop (Suc k) w) (b', s') = ((b2, s2), z, None)"
        "recv s2 = recv s' @ x2" "bodyComplete b2"
      using Cons.IH [OF p(6), of s'] Cons.prems(2) by auto
    then show ?thesis
      using False p(1,3,4,5) kind by (simp add: processBodyData_def)
  qed
qed

text \<open>The writer: every buffer is written and acknowledged three times, then the stream ends.\<close>

fun sendBuffers :: "char list list \<Rightarrow> chunkedWriter \<Rightarrow> chunkedWriter" where
  "sendBuffers [] w = acknowledge (fst (canEndWritable True w))"
| "sendBuffers (d # ds) w = sendBuffers ds (acknowledge (acknowledge (acknowledge (fst (asyncWrite d w)))))"

lemma write_buffer:
  assumes "length d < 2 ^ 64"
  shows "acknowledge (acknowledge (acknowledge (fst (asyncWrite d w)))) =
    w\<lparr>cw_body := [], cw_awaiting := None, cw_dest := cw_dest w @ [hexText (length d) @ [CR, LF], d, [CR, LF]], cw_done := cw_done w @ [d]\<rparr>"
  using hexText(1) [OF assms]
  by (simp add: asyncWrite_def acknowledge_def onChunkHeaderWritten_def onChunkBodyWritten_def onChunkTerminatorWritten_def)

lemma sendBuffers_wire:
  assumes "list_all (\<lambda>d. length d < 2 ^ 64) ds" "\<not> finalChunkStarted w" "\<not> finalChunkWritten w"
  shows "concat (cw_dest (sendBuffers ds w)) = concat (cw_dest w) @ wire [] ds \<and> cw_done (sendBuffers ds w) = cw_done w @ ds \<and>
    cw_ended (sendBuffers ds w)"
  using assms
proof (induction ds arbitrary: w)
  case Nil
  then show ?case
    by (simp add: canEndWritable_def acknowledge_def onFinalChunkWritten_def wire_def)
next
  case (Cons d ds)
  let ?w = "w\<lparr>cw_body := [], cw_awaiting := None, cw_dest := cw_dest w @ [hexText (length d) @ [CR, LF], d, [CR, LF]], cw_done := cw_done w @ [d]\<rparr>"
  have "sendBuffers (d # ds) w = sendBuffers ds ?w"
    using Cons.prems(1) write_buffer [of d w] by simp
  moreover have "concat (cw_dest (sendBuffers ds ?w)) = concat (cw_dest ?w) @ wire [] ds \<and> cw_done (sendBuffers ds ?w) = cw_done ?w @ ds \<and>
      cw_ended (sendBuffers ds ?w)"
    using Cons.IH [of ?w] Cons.prems by simp
  ultimately show ?case
    by (simp add: wire_def wireChunk_def)
qed

lemma sendBuffers_init:
  assumes "list_all (\<lambda>d. length d < 2 ^ 64) ds"
  shows "concat (cw_dest (sendBuffers ds cw_init)) = wire [] ds" "cw_done (sendBuffers ds cw_init) = ds"
  using sendBuffers_wire [OF assms, of cw_init] by (simp_all add: cw_init_def)

lemma goodChunks_length: "goodChunks ds \<Longrightarrow> list_all (\<lambda>d. length d < 2 ^ 64) ds"
  by (simp add: goodChunks_def list_all_iff)

lemma wire_append: "wire z (ds @ [] # es) = wire (wire z es) ds"
proof -
  have "hexText 0 = ''0''"
    by code_simp
  then show ?thesis
    by (simp add: wire_def wireChunk_def)
qed

lemma wire_tail: "wire [] ds @ z = wire z ds"
  by (simp add: wire_def)

lemma prepare_chunked:
  assumes "getHeader p ''Transfer-Encoding'' = Some te" "transferEncodingIsChunked te" "getHeader p ''Content-Length'' = None"
    "goodChunks ds"
  shows "snd (prepareBodyStream p close b) = None \<and> tracks z (fst (prepareBodyStream p close b)) (wire z ds) (concat ds)"
  using assms(1-3) by (auto simp: prepareBodyStream_def intro!: tracks_start assms(4))

section \<open>The chunked coding is an identity\<close>

lemma chunked_wire_received:
  assumes "streams io recv back" "goodChunks ds" "allow \<or> z = []"
    "getHeader p ''Transfer-Encoding'' = Some te" "transferEncodingIsChunked te" "getHeader p ''Content-Length'' = None"
    "length (wire z ds) \<le> length ks"
  shows "\<exists>b' s'. receiveBody io back allow ks (wire z ds) (fst (prepareBodyStream p close b), s) = ((b', s'), z, None) \<and>
    recv s' = recv s @ concat ds \<and> bodyComplete b'"
  by (rule receiveBody_tracks [OF assms(1,3) conjunct2 [OF prepare_chunked [OF assms(4-6,2)]] assms(7)])

text \<open>
  C11: what the chunked writer sends is what the decoder delivers. For all non-empty buffers, however
  the bytes are cut on the way and whenever the receiver asks for a pause, the receiver gets their
  concatenation, the body is complete, every buffer has been reported as written, and the bytes that
  follow the body on the connection are left for the next message.
\<close>

theorem chunked_roundtrip:
  assumes "streams io recv back" "goodChunks ds" "allow \<or> z = []"
    "getHeader p ''Transfer-Encoding'' = Some te" "transferEncodingIsChunked te" "getHeader p ''Content-Length'' = None"
    "length (concat (cw_dest (sendBuffers ds cw_init)) @ z) \<le> length ks"
  shows "\<exists>b' s'. receiveBody io back allow ks (concat (cw_dest (sendBuffers ds cw_init)) @ z) (fst (prepareBodyStream p close b), s)
      = ((b', s'), z, None) \<and> recv s' = recv s @ concat ds \<and> bodyComplete b' \<and> cw_done (sendBuffers ds cw_init) = ds"
proof -
  have w: "concat (cw_dest (sendBuffers ds cw_init)) @ z = wire z ds" "cw_done (sendBuffers ds cw_init) = ds"
    using sendBuffers_init [OF goodChunks_length [OF assms(2)]] by (simp_all add: wire_tail)
  show ?thesis
    using chunked_wire_received [OF assms(1-6), of ks close b s] assms(7) unfolding w by simp
qed

text \<open>Streams that ask for a pause after every push.\<close>

definition recorder :: "(char list \<times> char list) bodyIO" where
  "recorder = \<lparr>io_push = (\<lambda>d (r, k). ((r @ d, k), False, [])), io_destroyed = (\<lambda>_. False), io_reactivate = (\<lambda>_ s. s),
     io_finish = (\<lambda>s. s), io_child = Some, io_unref = (\<lambda>s. s), io_unshift = (\<lambda>d (r, k). Some (r, d @ k)), io_pause = (\<lambda>s. s)\<rparr>"

lemma recorder_streams: "streams recorder fst snd"
  by (auto simp: streams_def recorder_def)

definition sampleHead :: "char list \<Rightarrow> char list \<Rightarrow> parsedHeaders" where
  "sampleHead name val = (headers_reset Response 0)\<lparr>readHeaders := name @ val,
     tokenOffsets := [\<lparr>to_token = TkHeaderName, to_start = 0, to_length = of_nat (length name)\<rparr>,
       \<lparr>to_token = TkHeaderValue, to_start = of_nat (length name), to_length = of_nat (length val)\<rparr>]\<rparr>"

lemma sampleHead_chunked:
  "getHeader (sampleHead ''Transfer-Encoding'' ''chunked'') ''Transfer-Encoding'' = Some ''chunked''"
  "getHeader (sampleHead ''Transfer-Encoding'' ''chunked'') ''Content-Length'' = None"
  "transferEncodingIsChunked ''chunked''"
  by code_simp+

theorem chunked_roundtrip_witness:
  "\<exists>b' s'. receiveBody recorder snd True (replicate 40 2) (concat (cw_dest (sendBuffers [''hello'', ''you''] cw_init)) @ ''next'')
     (fst (prepareBodyStream (sampleHead ''Transfer-Encoding'' ''chunked'') False resetIncoming), ([], []))
   = ((b', s'), ''next'', None) \<and> fst s' = ''helloyou'' \<and> bodyComplete b'"
proof -
  have "goodChunks [''hello'', ''you'']"
    by (simp add: goodChunks_def)
  moreover have "length (concat (cw_dest (sendBuffers [''hello'', ''you''] cw_init)) @ ''next'') \<le> length (replicate 40 (2 :: nat))"
    by code_simp
  ultimately show ?thesis
    using chunked_roundtrip [OF recorder_streams, of "[''hello'', ''you'']" True "''next''"
        "sampleHead ''Transfer-Encoding'' ''chunked''" "''chunked''" "replicate 40 2" False resetIncoming "([], [])"]
      sampleHead_chunked by auto
qed

section \<open>Sizes\<close>

text \<open>
  The size of a chunk never wraps. On any sequence of hexadecimal digits the decoder either
  ends with exactly the number they denote, or, when that number does not fit 64 bits, refuses it.
\<close>

theorem chunk_size_never_wraps:
  assumes "list_all isHex hs" "chunkedPhase b = CkSize" "chunkedChunkSize b = 0"
  shows "\<exists>b'. processChunked io allow hs (b, s) =
      ((b', s), if hexVal hs < 2 ^ 64 then None else Some ''HttpIncomingMessage chunk size overflow'') \<and>
    (hexVal hs < 2 ^ 64 \<longrightarrow> unat (chunkedChunkSize b') = hexVal hs \<and> chunkedPhase b' = CkSize)"
  using chunk_size_run [OF assms(1,2), of io allow s] assms(3) by (simp add: hexVal_def)

theorem chunk_size_never_wraps_witness:
  "\<exists>b'. processChunked recorder True ''10000000000000000'' (resetIncoming, ([], [])) =
    ((b', ([], [])), Some ''HttpIncomingMessage chunk size overflow'')"
  using chunk_size_never_wraps [of "''10000000000000000''" resetIncoming recorder True "([], [])"]
  by (simp add: isHex_def hexValue_def hexVal_def code_def resetIncoming_def)

section \<open>An empty write\<close>

text \<open>
  An empty buffer ends the body. The writer sends it as a chunk of size zero, which is the end of
  a chunked body: the receiver completes the body with what was written before it, although the
  writer has not ended, and takes everything written after it for bytes of the next message.
\<close>

theorem empty_write_ends_the_body:
  assumes "streams io recv back" "goodChunks ds" "list_all (\<lambda>d. length d < 2 ^ 64) es"
    "getHeader p ''Transfer-Encoding'' = Some te" "transferEncodingIsChunked te" "getHeader p ''Content-Length'' = None"
    "length (concat (cw_dest (sendBuffers (ds @ [] # es) cw_init))) \<le> length ks"
  shows "\<exists>b' s'. receiveBody io back True ks (concat (cw_dest (sendBuffers (ds @ [] # es) cw_init)))
      (fst (prepareBodyStream p close b), s) = ((b', s'), concat (cw_dest (sendBuffers es cw_init)), None) \<and>
    recv s' = recv s @ concat ds \<and> bodyComplete b' \<and> cw_done (sendBuffers (ds @ [] # es) cw_init) = ds @ [] # es"
proof -
  have "list_all (\<lambda>d. length d < 2 ^ 64) (ds @ [] # es)"
    using goodChunks_length [OF assms(2)] assms(3) by simp
  note w = sendBuffers_init [OF this, unfolded wire_append] sendBuffers_init(1) [OF assms(3)]
  show ?thesis
    using chunked_wire_received [OF assms(1,2) _ assms(4-6), of True "wire [] es" ks close b s] assms(7) unfolding w by simp
qed

theorem empty_write_ends_the_body_witness:
  "\<exists>b' s'. receiveBody recorder snd True (replicate 60 2) (concat (cw_dest (sendBuffers [''one'', [], ''two''] cw_init)))
     (fst (prepareBodyStream (sampleHead ''Transfer-Encoding'' ''chunked'') False resetIncoming), ([], []))
   = ((b', s'), concat (cw_dest (sendBuffers [''two''] cw_init)), None) \<and> fst s' = ''one'' \<and> bodyComplete b'"
proof -
  have "goodChunks [''one'']"
    by (simp add: goodChunks_def)
  moreover have "length (concat (cw_dest (sendBuffers [''one'', [], ''two''] cw_init))) \<le> length (replicate 60 (2 :: nat))"
    by code_simp
  ultimately show ?thesis
    using empty_write_ends_the_body [OF recorder_streams, of "[''one'']" "[''two'']"
        "sampleHead ''Transfer-Encoding'' ''chunked''" "''chunked''" "replicate 60 2" False resetIncoming "([], [])"]
      sampleHead_chunked by auto
qed

section \<open>Bodies of a known length\<close>

text \<open>The parts of a body, as the connection delivers them.\<close>

fun feedBody :: "'s bodyIO \<Rightarrow> bool \<Rightarrow> char list list \<Rightarrow> body \<times> 's \<Rightarrow> 's bodyResult" where
  "feedBody io allow [] st = (st, None)"
| "feedBody io allow (d # ds) st =
     (case processBodyData io allow d st of (st', Some e) \<Rightarrow> (st', Some e) | (st', None) \<Rightarrow> feedBody io allow ds st')"

lemma processPlain_within:
  assumes "streams io recv back" "bodyFramingKind b = FixedLength" "length d \<le> unat (bodyBytesRemaining b)"
  shows "\<exists>b' s'. processPlain io d (b, s) = ((b', s'), None) \<and> recv s' = recv s @ d \<and> bodyFramingKind b' = FixedLength \<and>
    unat (bodyBytesRemaining b') = unat (bodyBytesRemaining b) - length d \<and>
    (bodyComplete b' \<longleftrightarrow> bodyComplete b \<or> length d = unat (bodyBytesRemaining b))"
proof -
  obtain s1 goOn where s1: "io_push io d s = (s1, goOn, [])" "recv s1 = recv s @ d"
    using assms(1) by (rule streams_push)
  have d: "unat (of_nat (length d) :: u64) = length d"
    using assms(3) unsigned_less [of "bodyBytesRemaining b", where 'a = nat] by (simp add: unsigned_of_nat take_bit_nat_eq_self)
  have le: "of_nat (length d) \<le> bodyBytesRemaining b"
    using assms(3) d by (simp add: word_le_nat_alt)
  have rem: "unat (bodyBytesRemaining b - of_nat (length d)) = unat (bodyBytesRemaining b) - length d"
    using unat_sub [OF le] d by simp
  have zero: "bodyBytesRemaining b - of_nat (length d) = 0 \<longleftrightarrow> length d = unat (bodyBytesRemaining b)"
    using rem assms(3) unsigned_eq_0_iff [of "bodyBytesRemaining b - of_nat (length d)"] by (metis diff_diff_cancel diff_zero diff_self_eq_0)
  show ?thesis
    using assms(2,3) s1 le rem zero streams_keep [OF assms(1)]
    by (auto simp: processPlain_def consumeBodyBytes_def finishBodyStream_def Let_def)
qed

lemma processPlain_beyond:
  assumes "bodyFramingKind b = FixedLength" "unat (bodyBytesRemaining b) < length d"
  shows "processPlain io d (b, s) = ((b, s), Some ''HttpIncomingMessage received body beyond Content-Length'')"
  using assms by (simp add: processPlain_def)

lemma feedBody_fixed:
  assumes "streams io recv back" "bodyFramingKind b = FixedLength"
  shows "\<exists>b' s' e. feedBody io allow ds (b, s) = ((b', s'), e) \<and>
    (if length (concat ds) \<le> unat (bodyBytesRemaining b)
     then e = None \<and> recv s' = recv s @ concat ds \<and>
       (bodyComplete b' \<longleftrightarrow> bodyComplete b \<or> (ds \<noteq> [] \<and> length (concat ds) = unat (bodyBytesRemaining b)))
     else e = Some ''HttpIncomingMessage received body beyond Content-Length'' \<and>
       (\<exists>n. recv s' = recv s @ concat (take n ds) \<and> length (concat (take n ds)) \<le> unat (bodyBytesRemaining b)))"
  using assms(2)
proof (induction ds arbitrary: b s)
  case (Cons d ds)
  show ?case
  proof (cases "length d \<le> unat (bodyBytesRemaining b)")
    case True
    obtain b1 s1 where b1: "processPlain io d (b, s) = ((b1, s1), None)" "recv s1 = recv s @ d" "bodyFramingKind b1 = FixedLength"
        "unat (bodyBytesRemaining b1) = unat (bodyBytesRemaining b) - length d"
        "bodyComplete b1 \<longleftrightarrow> bodyComplete b \<or> length d = unat (bodyBytesRemaining b)"
      using processPlain_within [OF assms(1) Cons.prems True] by blast
    obtain b2 s2 e where b2: "feedBody io allow ds (b1, s1) = ((b2, s2), e)" "if length (concat ds) \<le> unat (bodyBytesRemaining b1)
       then e = None \<and> recv s2 = recv s1 @ concat ds \<and>
         (bodyComplete b2 \<longleftrightarrow> bodyComplete b1 \<or> (ds \<noteq> [] \<and> length (concat ds) = unat (bodyBytesRemaining b1)))
       else e = Some ''HttpIncomingMessage received body beyond Content-Length'' \<and>
         (\<exists>n. recv s2 = recv s1 @ concat (take n ds) \<and> length (concat (take n ds)) \<le> unat (bodyBytesRemaining b1))"
      using Cons.IH [OF b1(3), of s1] by blast
    have run: "feedBody io allow (d # ds) (b, s) = ((b2, s2), e)"
      using b1(1) b2(1) Cons.prems by (simp add: processBodyData_def)
    show ?thesis
    proof (cases "length (concat (d # ds)) \<le> unat (bodyBytesRemaining b)")
      case fits: True
      then show ?thesis
        using run b1 b2(2) True by (auto split: if_splits)
    next
      case False
      then obtain n where "e = Some ''HttpIncomingMessage received body beyond Content-Length''"
          "recv s2 = recv s1 @ concat (take n ds)" "length (concat (take n ds)) \<le> unat (bodyBytesRemaining b1)"
        using b1(4) b2(2) True by (auto split: if_splits)
      then show ?thesis
        using False run b1(2,4) True by (auto intro!: exI [of _ "Suc n"])
    qed
  next
    case False
    then show ?thesis
      using processPlain_beyond [OF Cons.prems, of d io s] Cons.prems by (auto simp: processBodyData_def intro!: exI [of _ 0])
  qed
qed simp

text \<open>
  C26: a body of known length is delivered up to exactly that length. As long as the parts that
  arrive stay within \<open>Content-Length\<close> all of them are delivered, and the body is complete exactly when
  the last byte has arrived; one byte more, in any part, is an error, and nothing of that part is
  delivered.
\<close>

theorem body_of_known_length:
  assumes "streams io recv back" "getHeader p ''Transfer-Encoding'' = None" "getHeader p ''Content-Length'' = Some v"
  shows "\<exists>b' s' e. feedBody io allow ds (fst (prepareBodyStream p close b), s) = ((b', s'), e) \<and>
    (if length (concat ds) \<le> unat (contentLength (ph_parser p))
     then e = None \<and> recv s' = recv s @ concat ds \<and>
       (bodyComplete b' \<longleftrightarrow> length (concat ds) = unat (contentLength (ph_parser p)))
     else e = Some ''HttpIncomingMessage received body beyond Content-Length'' \<and>
       (\<exists>n. recv s' = recv s @ concat (take n ds) \<and> length (concat (take n ds)) \<le> unat (contentLength (ph_parser p))))"
proof -
  let ?b = "fst (prepareBodyStream p close b)"
  have b: "bodyFramingKind ?b = FixedLength" "bodyBytesRemaining ?b = contentLength (ph_parser p)"
      "bodyComplete ?b \<longleftrightarrow> contentLength (ph_parser p) = 0"
    using assms(2,3) by (auto simp: prepareBodyStream_def)
  show ?thesis
    using feedBody_fixed [OF assms(1) b(1), of allow ds s] b(2,3)
    by (cases "ds = []") (auto simp: unsigned_eq_0_iff split: if_splits)
qed

theorem body_of_known_length_witness:
  "\<exists>b' s' e. feedBody recorder True [''hel'', ''lo!''] (fst (prepareBodyStream ((sampleHead ''Content-Length'' ''5'')
       \<lparr>ph_parser := (init_parser Response)\<lparr>contentLength := 5\<rparr>\<rparr>) False resetIncoming), ([], [])) = ((b', s'), e) \<and>
     e = Some ''HttpIncomingMessage received body beyond Content-Length''"
proof -
  let ?p = "(sampleHead ''Content-Length'' ''5'')\<lparr>ph_parser := (init_parser Response)\<lparr>contentLength := 5\<rparr>\<rparr>"
  have "getHeader ?p ''Transfer-Encoding'' = None" "getHeader ?p ''Content-Length'' = Some ''5''"
    by code_simp+
  then show ?thesis
    using body_of_known_length [OF recorder_streams, of ?p "''5''" True "[''hel'', ''lo!'']" False resetIncoming "([], [])"] by auto
qed

end
