(* ===== verification/Results.thy ===== *)
theory Results
  imports Prelude
begin

text \<open>
  \<open>Libraries/Common/Result.h\<close> for operations that change a state and may fail on the way: the state
  as it is when the operation returns, and the error if there is one. What was done before the error
  stays done, as in the code.
\<close>

type_synonym 's tried = "'s \<times> string option"

text \<open>\<open>SC_TRY\<close> on a call, and \<open>SC_TRY_MSG\<close> on a condition.\<close>

definition sc_try :: "'s tried \<Rightarrow> ('s \<Rightarrow> 's tried) \<Rightarrow> 's tried" where
  "sc_try r f = (case r of (s, Some e) \<Rightarrow> (s, Some e) | (s, None) \<Rightarrow> f s)"

definition sc_try_msg :: "bool \<Rightarrow> string \<Rightarrow> 's \<Rightarrow> ('s \<Rightarrow> 's tried) \<Rightarrow> 's tried" where
  "sc_try_msg c e s f = (if c then f s else (s, Some e))"

lemma sc_try_simps [simp]:
  "sc_try (s, None) f = f s"
  "sc_try (s, Some e) f = (s, Some e)"
  by (simp_all add: sc_try_def)

lemma sc_try_msg_simps [simp]:
  "c \<Longrightarrow> sc_try_msg c e s f = f s"
  "\<not> c \<Longrightarrow> sc_try_msg c e s f = (s, Some e)"
  by (simp_all add: sc_try_msg_def)

lemma sc_try_assoc: "sc_try (sc_try r f) g = sc_try r (\<lambda>s. sc_try (f s) g)"
  by (simp add: sc_try_def split: prod.splits option.splits)

lemma sc_try_None:
  "snd (sc_try r f) = None \<longleftrightarrow> snd r = None \<and> snd (f (fst r)) = None"
  by (auto simp: sc_try_def split: prod.splits option.splits)

lemma sc_try_cases:
  assumes "sc_try r f = (s, e)"
  obtains (failed) "r = (s, e)" "e \<noteq> None" | (ok) s1 where "r = (s1, None)" "f s1 = (s, e)"
  using assms by (cases r) (auto simp: sc_try_def split: option.splits)

text \<open>An invariant that the first operation keeps, and the second from every state that has it.\<close>

lemma sc_try_inv:
  assumes "P (fst r)" "\<And>s. P s \<Longrightarrow> P (fst (f s))"
  shows "P (fst (sc_try r f))"
  using assms by (cases r) (auto simp: sc_try_def split: option.splits)

lemma sc_try_msg_inv:
  assumes "P s" "P (fst (f s))"
  shows "P (fst (sc_try_msg c e s f))"
  using assms by (simp add: sc_try_msg_def)

end
