(* ===== verification/HttpMultipartWriter.thy ===== *)
theory HttpMultipartWriter
  imports Results HttpText
begin

text \<open>
  \<open>Libraries/Http/Internal/HttpFixedBufferWriter.h\<close> and \<open>HttpFixedBufferWriter.inl\<close>, the writer
  on a caller's memory that every outgoing head and body is formatted with, and
  \<open>HttpMultipartWriter\<close> of \<open>HttpConnection.cpp\<close> with the loop of \<open>HttpAsyncClient.cpp\<close> that
  writes its parts.
\<close>

section \<open>Writing to fixed memory\<close>

record fixedWriter =
  fw_text :: "char list"
  fw_capacity :: nat

definition fw_reset :: "nat \<Rightarrow> fixedWriter" where
  "fw_reset memory = \<lparr>fw_text = [], fw_capacity = memory\<rparr>"

definition writtenBytes :: "fixedWriter \<Rightarrow> nat" where
  "writtenBytes w = length (fw_text w)"

definition fw_append :: "char list \<Rightarrow> string \<Rightarrow> fixedWriter \<Rightarrow> fixedWriter tried" where
  "fw_append val outOfSpaceError w =
     (if length (fw_text w) + length val > fw_capacity w then (w, Some outOfSpaceError)
      else (w\<lparr>fw_text := fw_text w @ val\<rparr>, None))"

definition fw_appendHeader :: "char list \<Rightarrow> char list \<Rightarrow> string \<Rightarrow> fixedWriter \<Rightarrow> fixedWriter tried" where
  "fw_appendHeader name val err w =
     sc_try (fw_append name err w) (\<lambda>w.
     sc_try (fw_append '': '' err w) (\<lambda>w.
     sc_try (fw_append val err w) (\<lambda>w.
     fw_append [CR, LF] err w)))"

text \<open>\<open>snprintf\<close> with \<open>%llu\<close> prints at least one digit, and twenty at most.\<close>

definition fw_appendContentLength :: "u64 \<Rightarrow> string \<Rightarrow> string \<Rightarrow> fixedWriter \<Rightarrow> fixedWriter tried" where
  "fw_appendContentLength val err formatError w =
     (let lengthBuffer = showNat (unat val) in
      if length lengthBuffer \<le> 0 then (w, Some formatError)
      else fw_appendHeader ''Content-Length'' lengthBuffer err w)"

section \<open>What may stand in a multipart header\<close>

definition boundaryIsSafe :: "char list \<Rightarrow> bool" where
  "boundaryIsSafe val \<longleftrightarrow> list_all (\<lambda>c. \<not> (code c \<le> 0x20 \<or> code c \<ge> 0x7F)) val"

definition quotedParameterIsSafe :: "char list \<Rightarrow> bool" where
  "quotedParameterIsSafe val \<longleftrightarrow> list_all (\<lambda>c. \<not> (code c < 0x20 \<or> c = CHR 0x22 \<or> c = CHR 0x5C)) val"

definition headerValueIsSafe :: "char list \<Rightarrow> bool" where
  "headerValueIsSafe val \<longleftrightarrow> list_all (\<lambda>c. \<not> ((code c < 0x20 \<and> c \<noteq> TAB) \<or> c = CHR 0x7F)) val"

section \<open>Parts\<close>

record writerPart =
  wp_partName :: "char list"
  wp_fileName :: "char list"
  wp_contentType :: "char list"
  wp_body :: "char list"

text \<open>\<open>parts\<close> are the first \<open>numParts\<close> elements of the array.\<close>

record multipartWriter =
  mw_parts :: "writerPart list"
  mw_boundary :: "char list"

definition MaxParts :: nat where "MaxParts = 8"

definition mw_reset :: multipartWriter where
  "mw_reset = \<lparr>mw_parts = [], mw_boundary = []\<rparr>"

text \<open>\<open>boundaryStorage\<close> has 71 bytes. A safe boundary has no zero byte, so it is read back whole.\<close>

definition mw_setBoundary :: "char list \<Rightarrow> multipartWriter \<Rightarrow> multipartWriter tried" where
  "mw_setBoundary boundaryValue w =
     sc_try_msg (length boundaryValue > 0) ''HttpMultipartWriter::setBoundary empty boundary'' mw_reset (\<lambda>w.
     sc_try_msg (length boundaryValue < 71) ''HttpMultipartWriter::setBoundary too long'' w (\<lambda>w.
     sc_try_msg (boundaryIsSafe boundaryValue) ''HttpMultipartWriter::setBoundary unsafe boundary'' w (\<lambda>w.
     (w\<lparr>mw_boundary := boundaryValue\<rparr>, None))))"

definition mw_addField :: "char list \<Rightarrow> char list \<Rightarrow> multipartWriter \<Rightarrow> multipartWriter tried" where
  "mw_addField fieldName val w =
     sc_try_msg (length (mw_boundary w) > 0) ''HttpMultipartWriter::addField boundary not set'' w (\<lambda>w.
     sc_try_msg (fieldName \<noteq> []) ''HttpMultipartWriter::addField empty field name'' w (\<lambda>w.
     sc_try_msg (quotedParameterIsSafe fieldName) ''HttpMultipartWriter::addField unsafe field name'' w (\<lambda>w.
     sc_try_msg (length (mw_parts w) < MaxParts) ''HttpMultipartWriter::addField too many parts'' w (\<lambda>w.
     (w\<lparr>mw_parts := mw_parts w @ [\<lparr>wp_partName = fieldName, wp_fileName = [], wp_contentType = [], wp_body = val\<rparr>]\<rparr>, None)))))"

definition mw_addFile :: "char list \<Rightarrow> char list \<Rightarrow> char list \<Rightarrow> char list \<Rightarrow> multipartWriter \<Rightarrow> multipartWriter tried" where
  "mw_addFile fieldName fileName contents contentType w =
     sc_try_msg (length (mw_boundary w) > 0) ''HttpMultipartWriter::addFile boundary not set'' w (\<lambda>w.
     sc_try_msg (fieldName \<noteq> []) ''HttpMultipartWriter::addFile empty field name'' w (\<lambda>w.
     sc_try_msg (quotedParameterIsSafe fieldName) ''HttpMultipartWriter::addFile unsafe field name'' w (\<lambda>w.
     sc_try_msg (fileName = [] \<or> quotedParameterIsSafe fileName) ''HttpMultipartWriter::addFile unsafe file name'' w (\<lambda>w.
     sc_try_msg (contentType = [] \<or> headerValueIsSafe contentType) ''HttpMultipartWriter::addFile unsafe content type'' w (\<lambda>w.
     sc_try_msg (length (mw_parts w) < MaxParts) ''HttpMultipartWriter::addFile too many parts'' w (\<lambda>w.
     (w\<lparr>mw_parts := mw_parts w @
          [\<lparr>wp_partName = fieldName, wp_fileName = fileName, wp_contentType = contentType, wp_body = contents\<rparr>]\<rparr>, None)))))))"

text \<open>The loop of \<open>getContentLength\<close>. \<open>sizeof\<close> of a literal counts its terminator.\<close>

definition partLength :: "multipartWriter \<Rightarrow> writerPart \<Rightarrow> nat" where
  "partLength w p =
     2 + length (mw_boundary w) + 2 +
     length ''Content-Disposition: form-data; name=#'' + length (wp_partName p) + 1 +
     (if length (wp_fileName p) > 0 then length ''; filename=#'' + length (wp_fileName p) + 1 else 0) + 2 +
     (if length (wp_contentType p) > 0 then length ''Content-Type: '' + length (wp_contentType p) + 2 else 0) + 2 +
     length (wp_body p) + 2"

definition mw_getContentLength :: "multipartWriter \<Rightarrow> nat" where
  "mw_getContentLength w = (\<Sum>p \<leftarrow> mw_parts w. partLength w p) + (2 + length (mw_boundary w) + 4)"

section \<open>Writing the parts\<close>

definition QUOTE :: char where "QUOTE = CHR 0x22"

definition appendPart :: "multipartWriter \<Rightarrow> string \<Rightarrow> writerPart \<Rightarrow> fixedWriter \<Rightarrow> fixedWriter tried" where
  "appendPart w err p out =
     sc_try (fw_append ''--'' err out) (\<lambda>out.
     sc_try (fw_append (mw_boundary w) err out) (\<lambda>out.
     sc_try (fw_append ([CR, LF] @ ''Content-Disposition: form-data; name='' @ [QUOTE]) err out) (\<lambda>out.
     sc_try (fw_append (wp_partName p) err out) (\<lambda>out.
     sc_try (fw_append [QUOTE] err out) (\<lambda>out.
     sc_try (if length (wp_fileName p) > 0
             then sc_try (fw_append (''; filename='' @ [QUOTE]) err out) (\<lambda>out.
                  sc_try (fw_append (wp_fileName p) err out) (\<lambda>out.
                  fw_append [QUOTE] err out))
             else (out, None)) (\<lambda>out.
     sc_try (fw_append [CR, LF] err out) (\<lambda>out.
     sc_try (if length (wp_contentType p) > 0
             then sc_try (fw_append ''Content-Type: '' err out) (\<lambda>out.
                  sc_try (fw_append (wp_contentType p) err out) (\<lambda>out.
                  fw_append [CR, LF] err out))
             else (out, None)) (\<lambda>out.
     sc_try (fw_append [CR, LF] err out) (\<lambda>out.
     sc_try (fw_append (wp_body p) err out) (\<lambda>out.
     fw_append [CR, LF] err out))))))))))"

fun appendParts :: "multipartWriter \<Rightarrow> string \<Rightarrow> writerPart list \<Rightarrow> fixedWriter \<Rightarrow> fixedWriter tried" where
  "appendParts w err [] out = (out, None)"
| "appendParts w err (p # ps) out = sc_try (appendPart w err p out) (appendParts w err ps)"

definition appendMultipartBody :: "multipartWriter \<Rightarrow> fixedWriter \<Rightarrow> fixedWriter tried" where
  "appendMultipartBody w out =
     (let err = ''HttpAsyncClient header space is finished'' in
      sc_try (appendParts w err (mw_parts w) out) (\<lambda>out.
      sc_try (fw_append ''--'' err out) (\<lambda>out.
      sc_try (fw_append (mw_boundary w) err out) (\<lambda>out.
      fw_append (''--'' @ [CR, LF]) err out))))"

end
