(* ===== verification/HttpOutgoing.thy ===== *)
theory HttpOutgoing
  imports HttpMultipartWriter HttpBody
begin

text \<open>
  \<open>HttpOutgoingMessage\<close>, \<open>HttpResponse\<close> and \<open>HttpAsyncClientRequest\<close> of
  \<open>Libraries/Http/HttpConnection.h\<close> and \<open>HttpConnection.cpp\<close>: heads of outgoing messages are
  formatted in the memory of the connection, then written to the destination stream.

  A stream is what the code does with it: the bytes passed to it, and whether it has been ended.
  \<open>refused\<close> is the error with which the destination refuses a write, if it does.
\<close>

section \<open>State\<close>

datatype KnownHeader = KnownConnection | KnownHost | KnownUserAgent | KnownContentLength | KnownContentType
  | KnownTransferEncoding | KnownContentEncoding | KnownAcceptEncoding

datatype writableStream = ToDestination | ToChunked

record outgoing =
  responseHeaders :: fixedWriter
  headersSent :: bool
  endCalled :: bool
  forceDisableKeepAlive :: bool
  o_keepAlive :: bool
  connectionHeaderAdded :: bool
  hostHeaderAdded :: bool
  userAgentHeaderAdded :: bool
  contentLengthAdded :: bool
  contentTypeAdded :: bool
  transferEncodingAdded :: bool
  contentEncodingAdded :: bool
  acceptEncodingAdded :: bool
  chunkedTransferEncodingEnabled :: bool
  writableStream :: writableStream
  chunkedWritableStream :: chunkedWriter
  o_dest :: "char list list"
  o_destEnded :: bool

definition HeaderSpace :: string where
  "HeaderSpace = ''HttpOutgoingMessage::appendAscii - header space is finished''"

text \<open>An operation of the writer on the head.\<close>

definition onHead :: "(fixedWriter \<Rightarrow> fixedWriter tried) \<Rightarrow> 'a outgoing_scheme \<Rightarrow> 'a outgoing_scheme tried" where
  "onHead f m = (case f (responseHeaders m) of (w, e) \<Rightarrow> (m\<lparr>responseHeaders := w\<rparr>, e))"

definition out_setHeaderMemory :: "nat \<Rightarrow> 'a outgoing_scheme \<Rightarrow> 'a outgoing_scheme" where
  "out_setHeaderMemory memory m = m\<lparr>responseHeaders := fw_reset memory\<rparr>"

definition hasHeader :: "KnownHeader \<Rightarrow> 'a outgoing_scheme \<Rightarrow> bool" where
  "hasHeader h m =
     (case h of
        KnownConnection \<Rightarrow> connectionHeaderAdded m
      | KnownHost \<Rightarrow> hostHeaderAdded m
      | KnownUserAgent \<Rightarrow> userAgentHeaderAdded m
      | KnownContentLength \<Rightarrow> contentLengthAdded m
      | KnownContentType \<Rightarrow> contentTypeAdded m
      | KnownTransferEncoding \<Rightarrow> transferEncodingAdded m
      | KnownContentEncoding \<Rightarrow> contentEncodingAdded m
      | KnownAcceptEncoding \<Rightarrow> acceptEncodingAdded m)"

definition out_reset :: "'a outgoing_scheme \<Rightarrow> 'a outgoing_scheme" where
  "out_reset m = m\<lparr>responseHeaders := fw_reset (fw_capacity (responseHeaders m)), headersSent := False, endCalled := False,
     forceDisableKeepAlive := False, o_keepAlive := True, connectionHeaderAdded := False, hostHeaderAdded := False,
     userAgentHeaderAdded := False, contentLengthAdded := False, contentTypeAdded := False, transferEncodingAdded := False,
     contentEncodingAdded := False, acceptEncodingAdded := False, chunkedTransferEncodingEnabled := False,
     writableStream := ToDestination\<rparr>"

definition setKeepAlive :: "bool \<Rightarrow> 'a outgoing_scheme \<Rightarrow> 'a outgoing_scheme" where
  "setKeepAlive v m = m\<lparr>o_keepAlive := v\<rparr>"

definition getKeepAlive :: "'a outgoing_scheme \<Rightarrow> bool" where
  "getKeepAlive m = (if forceDisableKeepAlive m then False else o_keepAlive m)"

section \<open>Headers\<close>

text \<open>What \<open>addHeader\<close> notes about a header before it is written.\<close>

definition noteHeader :: "char list \<Rightarrow> char list \<Rightarrow> 'a outgoing_scheme \<Rightarrow> 'a outgoing_scheme tried" where
  "noteHeader name val m =
     (if equalsIgnoreCase name ''Connection''
      then sc_try
        (if equalsIgnoreCase val ''keep-alive''
         then sc_try_msg (\<not> forceDisableKeepAlive m) ''HttpOutgoingMessage::addHeader - keep-alive forcefully disabled'' m
                (\<lambda>m. (m\<lparr>o_keepAlive := True\<rparr>, None))
         else if equalsIgnoreCase val ''close'' \<or> equalsIgnoreCase val ''Closed'' then (m\<lparr>o_keepAlive := False\<rparr>, None)
         else (m, None))
        (\<lambda>m. (m\<lparr>connectionHeaderAdded := True\<rparr>, None))
      else if equalsIgnoreCase name ''Host'' then (m\<lparr>hostHeaderAdded := True\<rparr>, None)
      else if equalsIgnoreCase name ''User-Agent'' then (m\<lparr>userAgentHeaderAdded := True\<rparr>, None)
      else if equalsIgnoreCase name ''Content-Length'' then (m\<lparr>contentLengthAdded := True\<rparr>, None)
      else if equalsIgnoreCase name ''Content-Type'' then (m\<lparr>contentTypeAdded := True\<rparr>, None)
      else if equalsIgnoreCase name ''Transfer-Encoding'' then (m\<lparr>transferEncodingAdded := True\<rparr>, None)
      else if equalsIgnoreCase name ''Content-Encoding'' then (m\<lparr>contentEncodingAdded := True\<rparr>, None)
      else if equalsIgnoreCase name ''Accept-Encoding'' then (m\<lparr>acceptEncodingAdded := True\<rparr>, None)
      else (m, None))"

definition out_addHeader :: "char list \<Rightarrow> char list \<Rightarrow> 'a outgoing_scheme \<Rightarrow> 'a outgoing_scheme tried" where
  "out_addHeader name val m =
     sc_try_msg (\<not> headersSent m) ''Headers already sent'' m (\<lambda>m.
     sc_try_msg (writtenBytes (responseHeaders m) \<noteq> 0) ''startResponse or startRequest must be the first call'' m (\<lambda>m.
     sc_try (noteHeader name val m) (\<lambda>m.
     onHead (fw_appendHeader name val HeaderSpace) m)))"

definition addContentLength :: "u64 \<Rightarrow> 'a outgoing_scheme \<Rightarrow> 'a outgoing_scheme tried" where
  "addContentLength val m =
     sc_try_msg (\<not> headersSent m) ''Headers already sent'' m (\<lambda>m.
     sc_try_msg (writtenBytes (responseHeaders m) \<noteq> 0) ''startResponse or startRequest must be the first call'' m (\<lambda>m.
     sc_try_msg (\<not> chunkedTransferEncodingEnabled m \<and> \<not> transferEncodingAdded m)
       ''HttpOutgoingMessage does not support Content-Length with Transfer-Encoding'' m (\<lambda>m.
     sc_try (onHead (fw_appendContentLength val HeaderSpace ''HttpOutgoingMessage failed formatting Content-Length'') m) (\<lambda>m.
     (m\<lparr>contentLengthAdded := True\<rparr>, None)))))"

definition setChunkedTransferEncoding :: "'a outgoing_scheme \<Rightarrow> 'a outgoing_scheme tried" where
  "setChunkedTransferEncoding m =
     sc_try_msg (\<not> headersSent m) ''Headers already sent'' m (\<lambda>m.
     if chunkedTransferEncodingEnabled m then (m, None)
     else
       (let m1 = m\<lparr>chunkedTransferEncodingEnabled := True\<rparr> in
        if \<not> transferEncodingAdded m1 then out_addHeader ''Transfer-Encoding'' ''chunked'' m1 else (m1, None)))"

section \<open>Sending\<close>

definition out_sendHeaders :: "string option \<Rightarrow> 'a outgoing_scheme \<Rightarrow> 'a outgoing_scheme tried" where
  "out_sendHeaders refused m =
     sc_try_msg (\<not> headersSent m) ''Headers already sent'' m (\<lambda>m.
     sc_try_msg (writtenBytes (responseHeaders m) \<noteq> 0) ''startResponse or startRequest must be the first call'' m (\<lambda>m.
     sc_try_msg (\<not> (chunkedTransferEncodingEnabled m \<and> contentLengthAdded m))
       ''HttpOutgoingMessage does not support Content-Length with Transfer-Encoding'' m (\<lambda>m.
     sc_try (if chunkedTransferEncodingEnabled m
             then (m\<lparr>writableStream := ToChunked, chunkedWritableStream := cw_init\<rparr>, None)
             else (m\<lparr>writableStream := ToDestination\<rparr>, None)) (\<lambda>m.
     sc_try (if \<not> connectionHeaderAdded m
             then (if forceDisableKeepAlive m \<or> \<not> o_keepAlive m
                   then onHead (fw_append (''Connection: close'' @ [CR, LF]) HeaderSpace) m
                   else onHead (fw_append (''Connection: keep-alive'' @ [CR, LF]) HeaderSpace) m)
             else (m, None)) (\<lambda>m.
     sc_try (onHead (fw_append [CR, LF] HeaderSpace) m) (\<lambda>m.
     sc_try (case refused of Some e \<Rightarrow> (m, Some e)
             | None \<Rightarrow> (m\<lparr>o_dest := o_dest m @ [fw_text (responseHeaders m)]\<rparr>, None)) (\<lambda>m.
     (m\<lparr>headersSent := True\<rparr>, None))))))))"

text \<open>Writing to \<open>getWritableStream()\<close>. Through the chunked stream every write is acknowledged three times.\<close>

definition out_write :: "string option \<Rightarrow> char list \<Rightarrow> 'a outgoing_scheme \<Rightarrow> 'a outgoing_scheme tried" where
  "out_write refused d m =
     (case refused of
        Some e \<Rightarrow> (m, Some e)
      | None \<Rightarrow>
          (case writableStream m of
             ToDestination \<Rightarrow> (m\<lparr>o_dest := o_dest m @ [d]\<rparr>, None)
           | ToChunked \<Rightarrow>
               (case asyncWrite d (chunkedWritableStream m) of
                  (w, Some e) \<Rightarrow> (m\<lparr>chunkedWritableStream := w\<rparr>, Some e)
                | (w, None) \<Rightarrow>
                    (let w' = acknowledge (acknowledge (acknowledge w)) in
                     (m\<lparr>chunkedWritableStream := w', o_dest := o_dest m @ drop (length (cw_dest (chunkedWritableStream m))) (cw_dest w')\<rparr>,
                      None)))))"

definition out_end :: "'a outgoing_scheme \<Rightarrow> 'a outgoing_scheme tried" where
  "out_end m =
     sc_try_msg (headersSent m) ''Forgot to send headers'' m (\<lambda>m.
     (case writableStream m of
        ToDestination \<Rightarrow> (m\<lparr>endCalled := True, o_destEnded := True\<rparr>, None)
      | ToChunked \<Rightarrow>
          (let w = acknowledge (fst (canEndWritable True (chunkedWritableStream m))) in
           (m\<lparr>endCalled := True, chunkedWritableStream := w,
              o_dest := o_dest m @ drop (length (cw_dest (chunkedWritableStream m))) (cw_dest w),
              o_destEnded := cw_ended w\<rparr>, None))))"

section \<open>Responses\<close>

definition reasonOf :: "int \<Rightarrow> char list option" where
  "reasonOf cd =
     (if cd = 100 then Some ''Continue'' else if cd = 101 then Some ''Switching Protocols''
      else if cd = 200 then Some ''OK'' else if cd = 201 then Some ''Created''
      else if cd = 204 then Some ''No Content'' else if cd = 206 then Some ''Partial Content''
      else if cd = 301 then Some ''Moved Permanently'' else if cd = 302 then Some ''Found''
      else if cd = 304 then Some ''Not Modified'' else if cd = 400 then Some ''Bad Request''
      else if cd = 403 then Some ''Forbidden'' else if cd = 404 then Some ''Not Found''
      else if cd = 405 then Some ''Method Not Allowed'' else if cd = 413 then Some ''Payload Too Large''
      else if cd = 416 then Some ''Range Not Satisfiable'' else if cd = 426 then Some ''Upgrade Required''
      else if cd = 500 then Some ''Internal Server Error'' else None)"

definition startResponseWith :: "int \<Rightarrow> char list \<Rightarrow> 'a outgoing_scheme \<Rightarrow> 'a outgoing_scheme tried" where
  "startResponseWith cd reasonPhrase m =
     (let err = ''HttpResponse::appendAscii - header space is finished'' in
      sc_try_msg (\<not> headersSent m) ''Headers already sent'' m (\<lambda>m.
      sc_try_msg (writtenBytes (responseHeaders m) = 0) ''startResponse must be the first call'' m (\<lambda>m.
      sc_try_msg (cd \<ge> 100 \<and> cd \<le> 999) ''HttpResponse status code must have three digits'' m (\<lambda>m.
      sc_try_msg (reasonPhrase \<noteq> []) ''HttpResponse reason phrase must not be empty'' m (\<lambda>m.
      sc_try_msg (list_all (\<lambda>c. c \<noteq> CR \<and> c \<noteq> LF) reasonPhrase) ''HttpResponse reason phrase must not contain CR or LF'' m (\<lambda>m.
      sc_try_msg (length (showNat (nat cd)) = 3) ''HttpResponse failed formatting status code'' m (\<lambda>m.
      sc_try (onHead (fw_append ''HTTP/1.1 '' err) m) (\<lambda>m.
      sc_try (onHead (fw_append (showNat (nat cd)) err) m) (\<lambda>m.
      sc_try (onHead (fw_append '' '' err) m) (\<lambda>m.
      sc_try (onHead (fw_append reasonPhrase err) m) (\<lambda>m.
      onHead (fw_append [CR, LF] err) m)))))))))))"

definition startResponse :: "int \<Rightarrow> 'a outgoing_scheme \<Rightarrow> 'a outgoing_scheme tried" where
  "startResponse cd m =
     (case reasonOf cd of
        None \<Rightarrow> (m, Some ''HttpResponse unsupported status code'')
      | Some reasonPhrase \<Rightarrow> startResponseWith cd reasonPhrase m)"

definition startBody :: "int \<Rightarrow> u64 \<Rightarrow> char list \<Rightarrow> 'a outgoing_scheme \<Rightarrow> 'a outgoing_scheme tried" where
  "startBody cd n contentType m =
     sc_try (startResponse cd m) (\<lambda>m.
     sc_try (if contentType \<noteq> [] then out_addHeader ''Content-Type'' contentType m else (m, None)) (\<lambda>m.
     addContentLength n m))"

definition sendBytes :: "string option \<Rightarrow> int \<Rightarrow> char list \<Rightarrow> char list \<Rightarrow> 'a outgoing_scheme \<Rightarrow> 'a outgoing_scheme tried" where
  "sendBytes refused cd d contentType m =
     sc_try (startBody cd (of_nat (length d)) contentType m) (\<lambda>m.
     sc_try (out_sendHeaders refused m) (\<lambda>m.
     sc_try (if length d > 0 then out_write refused d m else (m, None)) (\<lambda>m.
     out_end m)))"

definition sendText :: "string option \<Rightarrow> int \<Rightarrow> char list \<Rightarrow> 'a outgoing_scheme \<Rightarrow> 'a outgoing_scheme tried" where
  "sendText refused cd d m = sendBytes refused cd d ''text/plain; charset=utf-8'' m"

definition sendJson :: "string option \<Rightarrow> int \<Rightarrow> char list \<Rightarrow> 'a outgoing_scheme \<Rightarrow> 'a outgoing_scheme tried" where
  "sendJson refused cd d m = sendBytes refused cd d ''application/json'' m"

definition sendEmpty :: "string option \<Rightarrow> int \<Rightarrow> 'a outgoing_scheme \<Rightarrow> 'a outgoing_scheme tried" where
  "sendEmpty refused cd m =
     sc_try (startResponse cd m) (\<lambda>m.
     sc_try (addContentLength 0 m) (\<lambda>m.
     sc_try (out_sendHeaders refused m) (\<lambda>m.
     out_end m)))"

definition sendMethodNotAllowed :: "string option \<Rightarrow> char list \<Rightarrow> 'a outgoing_scheme \<Rightarrow> 'a outgoing_scheme tried" where
  "sendMethodNotAllowed refused allow m =
     sc_try (startBody 405 0 [] m) (\<lambda>m.
     sc_try (out_addHeader ''Allow'' allow m) (\<lambda>m.
     sc_try (out_sendHeaders refused m) (\<lambda>m.
     out_end m)))"

definition sendRedirect :: "string option \<Rightarrow> int \<Rightarrow> char list \<Rightarrow> 'a outgoing_scheme \<Rightarrow> 'a outgoing_scheme tried" where
  "sendRedirect refused cd location m =
     sc_try_msg (cd \<ge> 300 \<and> cd \<le> 399) ''HttpResponse redirect status must be 3xx'' m (\<lambda>m.
     sc_try_msg (location \<noteq> []) ''HttpResponse redirect location must not be empty'' m (\<lambda>m.
     sc_try (startBody cd 0 [] m) (\<lambda>m.
     sc_try (out_addHeader ''Location'' location m) (\<lambda>m.
     sc_try (out_sendHeaders refused m) (\<lambda>m.
     out_end m)))))"

end
