(* ===== verification/HttpClientRequest.thy ===== *)
theory HttpClientRequest
  imports HttpOutgoing
begin

text \<open>
  \<open>HttpAsyncClientRequest\<close> of \<open>Libraries/Http/HttpConnection.h\<close> and \<open>HttpConnection.cpp\<close>, with the
  part of \<open>HttpAsyncClient.cpp\<close> that builds a request from a preset, validates it and writes its body.

  Streams, decoders and multipart writers are referred to by handles; \<open>writers\<close> gives the multipart
  writer a handle points to when the code reads it.
\<close>

datatype BodyType = BodyNone | BodyManual | BodySpan | BodyStream | BodyMultipart

datatype contentEncodingKind = Identity | GZip | Deflate

record clientRequest = outgoing +
  req_method :: Method
  req_url :: "char list"
  bodyStream :: "nat option"
  bodyTransform :: "nat option"
  bodyType :: BodyType
  bodySpan :: "char list"
  req_contentLength :: u64
  req_contentEncoding :: contentEncodingKind
  req_multipartWriter :: "nat option"
  defaultHost :: "char list"

definition req_reset :: "clientRequest \<Rightarrow> clientRequest" where
  "req_reset r = (out_reset r)\<lparr>req_method := HttpGET, req_url := [], bodyStream := None, bodyTransform := None, bodyType := BodyNone,
     bodySpan := [], req_contentLength := 0, req_contentEncoding := Identity, req_multipartWriter := None, defaultHost := []\<rparr>"

definition methodPrefix :: "Method \<Rightarrow> char list" where
  "methodPrefix m =
     (case m of
        HttpGET \<Rightarrow> ''GET '' | HttpHEAD \<Rightarrow> ''HEAD '' | HttpPUT \<Rightarrow> ''PUT '' | HttpPOST \<Rightarrow> ''POST '' | HttpPATCH \<Rightarrow> ''PATCH ''
      | HttpDELETE \<Rightarrow> ''DELETE '' | HttpOPTIONS \<Rightarrow> ''OPTIONS '')"

definition startRequest :: "Method \<Rightarrow> char list \<Rightarrow> clientRequest \<Rightarrow> clientRequest tried" where
  "startRequest m valueURL r =
     (let err = ''HttpAsyncClientRequest header space is finished'' in
      sc_try_msg (\<not> headersSent r) ''Headers already sent'' r (\<lambda>r.
      sc_try_msg (writtenBytes (responseHeaders r) = 0) ''startRequest must be the first call'' r (\<lambda>r.
      sc_try (r\<lparr>req_method := m, req_url := (if length valueURL > 0 then valueURL else ''/'')\<rparr>, None) (\<lambda>r.
      sc_try (onHead (fw_append (methodPrefix (req_method r)) err) r) (\<lambda>r.
      sc_try (onHead (fw_append (req_url r) err) r) (\<lambda>r.
      onHead (fw_append ('' HTTP/1.1'' @ [CR, LF]) err) r))))))"

definition setExpectedBodyLength :: "u64 \<Rightarrow> clientRequest \<Rightarrow> clientRequest tried" where
  "setExpectedBodyLength v r =
     (r\<lparr>chunkedTransferEncodingEnabled := False, bodyStream := None, bodyTransform := None,
        bodyType := (if v > 0 then BodyManual else BodyNone), bodySpan := [], req_contentLength := v,
        req_contentEncoding := Identity, req_multipartWriter := None\<rparr>, None)"

definition setBodySpan :: "char list \<Rightarrow> clientRequest \<Rightarrow> clientRequest tried" where
  "setBodySpan v r =
     (r\<lparr>chunkedTransferEncodingEnabled := False, bodyStream := None, bodyTransform := None, bodyType := BodySpan, bodySpan := v,
        req_contentLength := of_nat (length v), req_contentEncoding := Identity, req_multipartWriter := None\<rparr>, None)"

definition setBodyStream :: "nat \<Rightarrow> clientRequest \<Rightarrow> clientRequest tried" where
  "setBodyStream stream r =
     setChunkedTransferEncoding
       (r\<lparr>bodyStream := Some stream, bodyTransform := None, bodyType := BodyStream, bodySpan := [], req_contentLength := 0,
          req_contentEncoding := Identity, req_multipartWriter := None\<rparr>)"

definition setBodyStreamLength :: "nat \<Rightarrow> u64 \<Rightarrow> clientRequest \<Rightarrow> clientRequest" where
  "setBodyStreamLength stream n r =
     r\<lparr>chunkedTransferEncodingEnabled := False, bodyStream := Some stream, bodyTransform := None, bodyType := BodyStream,
       bodySpan := [], req_contentLength := n, req_contentEncoding := Identity, req_multipartWriter := None\<rparr>"

definition httpContentEncodingName :: "contentEncodingKind \<Rightarrow> char list" where
  "httpContentEncodingName e = (case e of Identity \<Rightarrow> ''identity'' | GZip \<Rightarrow> ''gzip'' | Deflate \<Rightarrow> ''deflate'')"

text \<open>\<open>failed\<close> is the error of the compressor's \<open>init\<close>, if it fails.\<close>

definition setCompressedBody :: "string option \<Rightarrow> nat \<Rightarrow> nat \<Rightarrow> contentEncodingKind \<Rightarrow> clientRequest \<Rightarrow> clientRequest tried" where
  "setCompressedBody failed stream compressor encoding r =
     sc_try_msg (encoding = GZip \<or> encoding = Deflate) ''HttpAsyncClientRequest compressed body requires gzip or deflate'' r (\<lambda>r.
     sc_try (r\<lparr>bodyStream := Some stream, bodyTransform := Some compressor, bodyType := BodyStream, bodySpan := [],
               req_contentLength := 0, req_contentEncoding := encoding, req_multipartWriter := None\<rparr>, failed) (\<lambda>r.
     sc_try (out_addHeader ''Content-Encoding'' (httpContentEncodingName encoding) r) setChunkedTransferEncoding))"

definition setMultipart :: "(nat \<Rightarrow> multipartWriter) \<Rightarrow> nat \<Rightarrow> clientRequest \<Rightarrow> clientRequest" where
  "setMultipart writers v r =
     r\<lparr>chunkedTransferEncodingEnabled := False, bodyStream := None, bodyTransform := None, bodyType := BodyMultipart, bodySpan := [],
       req_contentLength := of_nat (mw_getContentLength (writers v)), req_contentEncoding := Identity, req_multipartWriter := Some v\<rparr>"

text \<open>The \<open>Content-Type\<close> of a multipart body.\<close>

definition multipartType :: "(nat \<Rightarrow> multipartWriter) \<Rightarrow> clientRequest \<Rightarrow> clientRequest tried" where
  "multipartType writers r =
     (let err = ''HttpAsyncClientRequest header space is finished'' in
      case req_multipartWriter r of
        None \<Rightarrow> (r, Some ''HttpAsyncClientRequest multipart writer missing'')
      | Some v \<Rightarrow>
          sc_try_msg (length (mw_boundary (writers v)) > 0) ''HttpAsyncClientRequest multipart boundary missing'' r (\<lambda>r.
          sc_try (onHead (fw_append ''Content-Type: multipart/form-data; boundary='' err) r) (\<lambda>r.
          sc_try (onHead (fw_append (mw_boundary (writers v)) err) r) (\<lambda>r.
          sc_try (onHead (fw_append [CR, LF] err) r) (\<lambda>r.
          (r\<lparr>contentTypeAdded := True\<rparr>, None))))))"

definition req_sendHeaders :: "(nat \<Rightarrow> multipartWriter) \<Rightarrow> string option \<Rightarrow> clientRequest \<Rightarrow> clientRequest tried" where
  "req_sendHeaders writers refused r =
     (let err = ''HttpAsyncClientRequest header space is finished'' in
      sc_try (if \<not> hasHeader KnownUserAgent r then out_addHeader ''User-Agent'' ''SC'' r else (r, None)) (\<lambda>r.
      sc_try (if length (defaultHost r) > 0 \<and> \<not> hasHeader KnownHost r then out_addHeader ''Host'' (defaultHost r) r else (r, None)) (\<lambda>r.
      sc_try (if bodyType r = BodyMultipart \<and> \<not> hasHeader KnownContentType r then multipartType writers r else (r, None)) (\<lambda>r.
      sc_try (if bodyType r \<noteq> BodyNone \<and> \<not> chunkedTransferEncodingEnabled r \<and> \<not> hasHeader KnownContentLength r
              then sc_try (onHead (fw_appendContentLength (req_contentLength r) err ''HttpAsyncClientRequest failed formatting Content-Length'') r)
                     (\<lambda>r. (r\<lparr>contentLengthAdded := True\<rparr>, None))
              else (r, None)) (\<lambda>r.
      out_sendHeaders refused r)))))"

section \<open>Building a request\<close>

datatype bodyMode = ModeNone | ModeSpan | ModeStream | ModeMultipart

record requestPreset =
  pr_method :: Method
  pr_path :: "char list"
  pr_host :: "char list"
  pr_keepAlive :: bool
  pr_bodyMode :: bodyMode
  pr_bodySpan :: "char list"
  pr_bodyStream :: "nat option"
  pr_contentLength :: u64
  pr_multipartWriter :: "nat option"
  pr_headers :: "(char list \<times> char list) list"

fun addHeaders :: "(char list \<times> char list) list \<Rightarrow> clientRequest \<Rightarrow> clientRequest tried" where
  "addHeaders [] r = (r, None)"
| "addHeaders ((name, val) # hs) r = sc_try (out_addHeader name val r) (addHeaders hs)"

definition presetBody :: "(nat \<Rightarrow> multipartWriter) \<Rightarrow> requestPreset \<Rightarrow> clientRequest \<Rightarrow> clientRequest tried" where
  "presetBody writers pr r =
     (case pr_bodyMode pr of
        ModeNone \<Rightarrow> (r, None)
      | ModeSpan \<Rightarrow> setBodySpan (pr_bodySpan pr) r
      | ModeStream \<Rightarrow>
          (case pr_bodyStream pr of
             None \<Rightarrow> (r, Some ''HttpAsyncClient body stream missing'')
           | Some s \<Rightarrow> (setBodyStreamLength s (pr_contentLength pr) r, None))
      | ModeMultipart \<Rightarrow>
          (case pr_multipartWriter pr of
             None \<Rightarrow> (r, Some ''HttpAsyncClient multipart writer missing'')
           | Some v \<Rightarrow> (setMultipart writers v r, None)))"

text \<open>\<open>poolOf\<close> is whether a stream, or a decoder's sides, use the buffers pool of the connection.\<close>

definition validateActiveRequest :: "(nat \<Rightarrow> multipartWriter) \<Rightarrow> (nat \<Rightarrow> bool) \<Rightarrow> (nat \<Rightarrow> bool) \<Rightarrow> clientRequest \<Rightarrow> string option" where
  "validateActiveRequest writers streamPool transformPool r =
     snd (sc_try_msg (\<not> (hasHeader KnownTransferEncoding r \<and> \<not> chunkedTransferEncodingEnabled r))
       ''HttpAsyncClient does not support Transfer-Encoding request headers'' r (\<lambda>r.
     sc_try (if bodyType r = BodyStream
             then (case bodyStream r of
                     None \<Rightarrow> (r, Some ''HttpAsyncClient body stream missing'')
                   | Some s \<Rightarrow>
                       sc_try_msg (streamPool s) ''HttpAsyncClient body stream must use the client buffers pool'' r (\<lambda>r.
                       case bodyTransform r of
                         None \<Rightarrow> (r, None)
                       | Some t \<Rightarrow> (r, if transformPool t then None
                                      else Some ''HttpAsyncClient body transform must use the client buffers pool'')))
             else (r, None)) (\<lambda>r.
     if bodyType r = BodyMultipart
     then (case req_multipartWriter r of
             None \<Rightarrow> (r, Some ''HttpAsyncClient multipart writer missing'')
           | Some v \<Rightarrow> (r, if length (mw_boundary (writers v)) > 0 then None else Some ''HttpAsyncClient multipart boundary missing''))
     else (r, None))))"

text \<open>
  \<open>beginRequestSend\<close>, for a client without a response decoder. \<open>prepare\<close> is the application's
  callback; \<open>autoSend\<close> whether the client sends what the application has not sent in it.
\<close>

definition beginRequestSend ::
  "(nat \<Rightarrow> multipartWriter) \<Rightarrow> (nat \<Rightarrow> bool) \<Rightarrow> (nat \<Rightarrow> bool) \<Rightarrow> string option \<Rightarrow> (clientRequest \<Rightarrow> clientRequest) \<Rightarrow> bool \<Rightarrow>
     nat \<Rightarrow> requestPreset \<Rightarrow> clientRequest \<Rightarrow> clientRequest tried" where
  "beginRequestSend writers streamPool transformPool refused prepare autoSend memory pr r =
     sc_try ((setKeepAlive (pr_keepAlive pr) (req_reset (out_setHeaderMemory memory r)))\<lparr>defaultHost := pr_host pr\<rparr>, None) (\<lambda>r.
     sc_try (startRequest (pr_method pr) (pr_path pr) r) (\<lambda>r.
     sc_try (presetBody writers pr r) (\<lambda>r.
     sc_try (addHeaders (pr_headers pr) r) (\<lambda>r.
     sc_try (prepare r, None) (\<lambda>r.
     sc_try (r, validateActiveRequest writers streamPool transformPool r) (\<lambda>r.
     if autoSend
     then
       sc_try (if \<not> headersSent r then req_sendHeaders writers refused r else (r, None)) (\<lambda>r.
       if bodyType r = BodyNone \<and> \<not> endCalled r then out_end r else (r, None))
     else sc_try_msg (headersSent r) ''HttpAsyncClient request headers not sent'' r (\<lambda>r. (r, None))))))))"

text \<open>What \<open>onHeadersBufferWritten\<close> writes when the body is a span or multipart; a stream is piped.\<close>

definition onHeadersBufferWritten :: "(nat \<Rightarrow> multipartWriter) \<Rightarrow> string option \<Rightarrow> nat \<Rightarrow> clientRequest \<Rightarrow> clientRequest tried" where
  "onHeadersBufferWritten writers refused memory r =
     (case bodyType r of
        BodySpan \<Rightarrow> (case refused of Some e \<Rightarrow> (r, Some e) | None \<Rightarrow> (r\<lparr>o_dest := o_dest r @ [bodySpan r], o_destEnded := True\<rparr>, None))
      | BodyMultipart \<Rightarrow>
          (case req_multipartWriter r of
             None \<Rightarrow> (r, None)
           | Some v \<Rightarrow>
               (case appendMultipartBody (writers v) (fw_reset memory) of
                  (w, Some e) \<Rightarrow> (r, Some e)
                | (w, None) \<Rightarrow>
                    (case refused of Some e \<Rightarrow> (r, Some e) | None \<Rightarrow> (r\<lparr>o_dest := o_dest r @ [fw_text w], o_destEnded := True\<rparr>, None))))
      | _ \<Rightarrow> (r, None))"

end
