(* ===== verification/HttpOutgoingProps.thy ===== *)
theory HttpOutgoingProps
  imports HttpClientRequest HttpParsedHeadersProps HttpBodyProps
begin

text \<open>
  What outgoing messages put on the wire, and that the other side receives it: the request a client
  builds from a preset is the one the server's \<open>HttpParsedHeaders\<close> finds, with the framing of its body.
\<close>

section \<open>Extending a head\<close>

text \<open>The header a name stands for, where the code keeps track of it.\<close>

definition known :: "char list \<Rightarrow> KnownHeader option" where
  "known name =
     (if equalsIgnoreCase name ''Connection'' then Some KnownConnection
      else if equalsIgnoreCase name ''Host'' then Some KnownHost
      else if equalsIgnoreCase name ''User-Agent'' then Some KnownUserAgent
      else if equalsIgnoreCase name ''Content-Length'' then Some KnownContentLength
      else if equalsIgnoreCase name ''Content-Type'' then Some KnownContentType
      else if equalsIgnoreCase name ''Transfer-Encoding'' then Some KnownTransferEncoding
      else if equalsIgnoreCase name ''Content-Encoding'' then Some KnownContentEncoding
      else if equalsIgnoreCase name ''Accept-Encoding'' then Some KnownAcceptEncoding
      else None)"

definition names :: "(char list \<times> char list) list \<Rightarrow> KnownHeader set" where
  "names hs = {h. \<exists>p\<in>set hs. known (fst p) = Some h}"

lemma names_simps [simp]:
  "names [] = {}" "names (hs @ gs) = names hs \<union> names gs"
  "names ((n, v) # hs) = (case known n of None \<Rightarrow> {} | Some h \<Rightarrow> {h}) \<union> names hs"
  by (auto simp: names_def split: option.splits)

text \<open>
  \<open>extends m t hs m'\<close>: the head of \<open>m'\<close> is that of \<open>m\<close> and the text \<open>t\<close>, the headers \<open>hs\<close> have been
  noted, and nothing else has changed but \<open>keepAlive\<close>, and that only by a \<open>Connection\<close> header.
\<close>

definition extends :: "'a outgoing_scheme \<Rightarrow> char list \<Rightarrow> (char list \<times> char list) list \<Rightarrow> 'a outgoing_scheme \<Rightarrow> bool" where
  "extends m t hs m' \<longleftrightarrow>
     responseHeaders m' = (responseHeaders m)\<lparr>fw_text := fw_text (responseHeaders m) @ t\<rparr> \<and>
     (\<forall>h. hasHeader h m' \<longleftrightarrow> hasHeader h m \<or> h \<in> names hs) \<and>
     (KnownConnection \<notin> names hs \<longrightarrow> o_keepAlive m' = o_keepAlive m) \<and>
     headersSent m' = headersSent m \<and> endCalled m' = endCalled m \<and> forceDisableKeepAlive m' = forceDisableKeepAlive m \<and>
     chunkedTransferEncodingEnabled m' = chunkedTransferEncodingEnabled m \<and> writableStream m' = writableStream m \<and>
     chunkedWritableStream m' = chunkedWritableStream m \<and> o_dest m' = o_dest m \<and> o_destEnded m' = o_destEnded m \<and>
     outgoing.more m' = outgoing.more m"

lemma extends_refl [simp]: "extends m [] [] m"
  by (simp add: extends_def)

lemma extends_trans:
  assumes "extends m t hs m1" "extends m1 u gs m2"
  shows "extends m (t @ u) (hs @ gs) m2"
  using assms unfolding extends_def by auto

lemma hasHeader_responseHeaders [simp]: "hasHeader h (m\<lparr>responseHeaders := w\<rparr>) = hasHeader h m"
  by (cases h; simp add: hasHeader_def)

lemma onHead_None:
  assumes "onHead f m = (m', None)"
  shows "f (responseHeaders m) = (responseHeaders m', None) \<and> m' = m\<lparr>responseHeaders := responseHeaders m'\<rparr>"
proof -
  obtain w e where w: "f (responseHeaders m) = (w, e)" by fastforce
  then have "m' = m\<lparr>responseHeaders := w\<rparr>" "e = None"
    using assms by (simp_all add: onHead_def)
  then show ?thesis
    using w by simp
qed

lemma extends_head:
  assumes "m' = m\<lparr>responseHeaders := w\<rparr>" "w = (responseHeaders m)\<lparr>fw_text := fw_text (responseHeaders m) @ t\<rparr>"
  shows "extends m t [] m'"
  by (simp add: extends_def assms)

lemma fw_append_None:
  assumes "fw_append t err w = (w', None)"
  shows "w' = w\<lparr>fw_text := fw_text w @ t\<rparr>"
  using assms by (auto simp: fw_append_def split: if_splits)

lemma onHead_append:
  assumes "onHead (fw_append t err) m = (m', None)"
  shows "extends m t [] m'"
  using onHead_None [OF assms] extends_head fw_append_None by blast

lemma fw_appendHeader_None:
  assumes "fw_appendHeader n v err w = (w', None)"
  shows "w' = w\<lparr>fw_text := fw_text w @ printHeader (n, v)\<rparr>"
  using assms by (auto simp: fw_appendHeader_def fw_append_def sc_try_def split: if_splits)

lemma onHead_header:
  assumes "onHead (fw_appendHeader n v err) m = (m', None)"
  shows "extends m (printHeader (n, v)) [] m'"
  using onHead_None [OF assms] extends_head fw_appendHeader_None by blast

lemma hasHeader_simps [simp]:
  "hasHeader h (m\<lparr>o_keepAlive := k\<rparr>) = hasHeader h m"
  "hasHeader h (m\<lparr>connectionHeaderAdded := True\<rparr>) \<longleftrightarrow> hasHeader h m \<or> h = KnownConnection"
  "hasHeader h (m\<lparr>hostHeaderAdded := True\<rparr>) \<longleftrightarrow> hasHeader h m \<or> h = KnownHost"
  "hasHeader h (m\<lparr>userAgentHeaderAdded := True\<rparr>) \<longleftrightarrow> hasHeader h m \<or> h = KnownUserAgent"
  "hasHeader h (m\<lparr>contentLengthAdded := True\<rparr>) \<longleftrightarrow> hasHeader h m \<or> h = KnownContentLength"
  "hasHeader h (m\<lparr>contentTypeAdded := True\<rparr>) \<longleftrightarrow> hasHeader h m \<or> h = KnownContentType"
  "hasHeader h (m\<lparr>transferEncodingAdded := True\<rparr>) \<longleftrightarrow> hasHeader h m \<or> h = KnownTransferEncoding"
  "hasHeader h (m\<lparr>contentEncodingAdded := True\<rparr>) \<longleftrightarrow> hasHeader h m \<or> h = KnownContentEncoding"
  "hasHeader h (m\<lparr>acceptEncodingAdded := True\<rparr>) \<longleftrightarrow> hasHeader h m \<or> h = KnownAcceptEncoding"
  by (cases h; simp add: hasHeader_def)+

lemma noteHeader_extends:
  assumes "noteHeader n v m = (m', None)"
  shows "extends m [] [(n, v)] m'"
proof (cases "equalsIgnoreCase n ''Connection''")
  case True
  then show ?thesis
    using assms by (auto simp: noteHeader_def extends_def known_def sc_try_msg_def split: if_splits)
next
  case False
  then show ?thesis
    using assms by (auto simp: noteHeader_def extends_def known_def split: if_splits)
qed

lemma addHeader_extends:
  assumes "out_addHeader n v m = (m', None)"
  shows "extends m (printHeader (n, v)) [(n, v)] m'"
proof -
  obtain m1 where "noteHeader n v m = (m1, None)" "onHead (fw_appendHeader n v HeaderSpace) m1 = (m', None)"
    using assms by (auto simp: out_addHeader_def sc_try_msg_def split: if_splits elim!: sc_try_cases)
  then show ?thesis
    using extends_trans [OF noteHeader_extends onHead_header] by fastforce
qed

lemma known_names [simp]:
  "known ''User-Agent'' = Some KnownUserAgent" "known ''Host'' = Some KnownHost"
  "known ''Content-Length'' = Some KnownContentLength" "known ''Connection'' = Some KnownConnection"
  "known ''Content-Type'' = Some KnownContentType" "known ''Transfer-Encoding'' = Some KnownTransferEncoding"
  by code_simp+

lemma addHeaders_extends:
  assumes "addHeaders hs r = (r', None)"
  shows "extends r (concat (map printHeader hs)) hs r'"
  using assms
proof (induction hs arbitrary: r)
  case (Cons h hs)
  obtain n v where h: "h = (n, v)" by fastforce
  obtain r1 where "out_addHeader n v r = (r1, None)" "addHeaders hs r1 = (r', None)"
    using Cons.prems h by (auto elim: sc_try_cases)
  then show ?case
    using extends_trans [OF addHeader_extends Cons.IH] h by fastforce
qed simp

text \<open>A header that is added unless it has been added before.\<close>

definition withDefault :: "bool \<Rightarrow> char list \<Rightarrow> char list \<Rightarrow> (char list \<times> char list) list" where
  "withDefault c n v = (if c then [(n, v)] else [])"

lemma defaultHeader_extends:
  assumes "(if c then out_addHeader n v r else (r, None)) = (r', None)"
  shows "extends r (concat (map printHeader (withDefault c n v))) (withDefault c n v) r'"
  using assms addHeader_extends [of n v r r'] by (cases c) (simp_all add: withDefault_def)

section \<open>The request a client sends\<close>

definition targetOf :: "requestPreset \<Rightarrow> char list" where
  "targetOf pr = (if pr_path pr = [] then ''/'' else pr_path pr)"

text \<open>The headers of a request without a body or with a span: those of the preset, then the defaults.\<close>

definition requestHeaders :: "requestPreset \<Rightarrow> (char list \<times> char list) list" where
  "requestHeaders pr =
     (let hs = pr_headers pr in
      hs @ withDefault (KnownUserAgent \<notin> names hs) ''User-Agent'' ''SC''
         @ withDefault (pr_host pr \<noteq> [] \<and> KnownHost \<notin> names hs) ''Host'' (pr_host pr)
         @ withDefault (pr_bodyMode pr = ModeSpan \<and> KnownContentLength \<notin> names hs) ''Content-Length'' (showNat (length (pr_bodySpan pr)))
         @ withDefault (KnownConnection \<notin> names hs) ''Connection'' (if pr_keepAlive pr then ''keep-alive'' else ''close''))"

lemma names_withDefault [simp]:
  "names (withDefault c n v) = (if c then (case known n of None \<Rightarrow> {} | Some h \<Rightarrow> {h}) else {})"
  by (simp add: withDefault_def)

lemma same_more:
  fixes r s :: clientRequest
  assumes "outgoing.more r = outgoing.more s"
  shows "req_method r = req_method s" "req_url r = req_url s" "bodyType r = bodyType s" "bodySpan r = bodySpan s"
    "req_contentLength r = req_contentLength s" "req_multipartWriter r = req_multipartWriter s" "defaultHost r = defaultHost s"
  using assms by (cases r, cases s, simp)+

lemma extends_more: "extends m t hs m' \<Longrightarrow> outgoing.more m' = outgoing.more m"
  by (simp add: extends_def)

lemma startRequest_extends:
  assumes "startRequest meth url r = (r', None)"
  shows "extends (r\<lparr>req_method := meth, req_url := (if url = [] then ''/'' else url)\<rparr>)
    (methodName meth @ '' '' @ (if url = [] then ''/'' else url) @ '' HTTP/1.1'' @ [CR, LF]) [] r' \<and> writtenBytes (responseHeaders r) = 0"
proof -
  let ?err = "''HttpAsyncClientRequest header space is finished''" and ?url = "if url = [] then ''/'' else url"
  let ?r = "r\<lparr>req_method := meth, req_url := ?url\<rparr>"
  have empty: "writtenBytes (responseHeaders r) = 0"
    using assms by (auto simp: startRequest_def sc_try_msg_def Let_def split: if_splits)
  obtain r1 r2 where steps: "onHead (fw_append (methodPrefix meth) ?err) ?r = (r1, None)"
      "onHead (fw_append (req_url r1) ?err) r1 = (r2, None)" "onHead (fw_append ('' HTTP/1.1'' @ [CR, LF]) ?err) r2 = (r', None)"
    using assms by (auto simp: startRequest_def sc_try_msg_def Let_def split: if_splits elim!: sc_try_cases)
  have "req_url r1 = ?url"
    using same_more(2) [OF extends_more [OF onHead_append [OF steps(1)]]] by simp
  moreover have "methodPrefix meth = methodName meth @ '' ''"
    by (cases meth) (simp_all add: methodPrefix_def)
  ultimately show ?thesis
    using extends_trans [OF extends_trans [OF onHead_append [OF steps(1)] onHead_append [OF steps(2)]] onHead_append [OF steps(3)]] empty
    by simp
qed

text \<open>Sending the head: the default \<open>Connection\<close> header, the empty line, and the write.\<close>

lemma out_sendHeaders_text:
  assumes "out_sendHeaders None m = (m', None)" "\<not> chunkedTransferEncodingEnabled m"
  shows "o_dest m' = o_dest m @ [fw_text (responseHeaders m) @
      concat (map printHeader (withDefault (\<not> hasHeader KnownConnection m) ''Connection'' (if getKeepAlive m then ''keep-alive'' else ''close''))) @
      [CR, LF]] \<and> writableStream m' = ToDestination \<and> headersSent m' \<and> outgoing.more m' = outgoing.more m"
proof -
  let ?m = "m\<lparr>writableStream := ToDestination\<rparr>"
  let ?t = "concat (map printHeader (withDefault (\<not> hasHeader KnownConnection m) ''Connection'' (if getKeepAlive m then ''keep-alive'' else ''close'')))"
  obtain m1 m2 where steps:
      "(if \<not> connectionHeaderAdded m then (if forceDisableKeepAlive m \<or> \<not> o_keepAlive m then onHead (fw_append (''Connection: close'' @ [CR, LF]) HeaderSpace) ?m
         else onHead (fw_append (''Connection: keep-alive'' @ [CR, LF]) HeaderSpace) ?m) else (?m, None)) = (m1, None)"
      "onHead (fw_append [CR, LF] HeaderSpace) m1 = (m2, None)"
      "m' = m2\<lparr>o_dest := o_dest m2 @ [fw_text (responseHeaders m2)], headersSent := True\<rparr>"
    using assms by (auto simp: out_sendHeaders_def sc_try_msg_def split: if_splits elim!: sc_try_cases)
  have "extends ?m ?t [] m1"
    using steps(1) onHead_append [of "''Connection: close'' @ [CR, LF]" HeaderSpace ?m m1]
      onHead_append [of "''Connection: keep-alive'' @ [CR, LF]" HeaderSpace ?m m1]
    by (auto simp: withDefault_def hasHeader_def getKeepAlive_def split: if_splits)
  from extends_trans [OF this onHead_append [OF steps(2)]] show ?thesis
    by (simp add: steps(3) extends_def)
qed

lemma contentLength_extends:
  assumes "sc_try (onHead (fw_appendContentLength v err e2) m) (\<lambda>m. (m\<lparr>contentLengthAdded := True\<rparr>, None)) = (m', None)"
  shows "extends m (printHeader (''Content-Length'', showNat (unat v))) [(''Content-Length'', showNat (unat v))] m'"
proof -
  obtain m1 where m1: "onHead (fw_appendContentLength v err e2) m = (m1, None)" "m' = m1\<lparr>contentLengthAdded := True\<rparr>"
    using assms by (auto elim: sc_try_cases)
  have "fw_appendContentLength v err e2 = fw_appendHeader ''Content-Length'' (showNat (unat v)) err"
    by (simp add: fw_appendContentLength_def fun_eq_iff showNat_ne)
  then have "extends m (printHeader (''Content-Length'', showNat (unat v))) [] m1"
    using m1(1) onHead_header [of "''Content-Length''" "showNat (unat v)" err m m1] by simp
  then show ?thesis
    unfolding m1(2) extends_def by auto
qed

text \<open>The head of a request, with what is appended when it is sent.\<close>

lemma req_sendHeaders_text:
  assumes "req_sendHeaders writers None r = (r', None)" "\<not> chunkedTransferEncodingEnabled r" "\<not> forceDisableKeepAlive r"
    "bodyType r \<noteq> BodyMultipart" "\<forall>h. hasHeader h r \<longleftrightarrow> h \<in> names hs"
  shows "o_dest r' = o_dest r @ [fw_text (responseHeaders r) @ concat (map printHeader
      (withDefault (KnownUserAgent \<notin> names hs) ''User-Agent'' ''SC''
       @ withDefault (defaultHost r \<noteq> [] \<and> KnownHost \<notin> names hs) ''Host'' (defaultHost r)
       @ withDefault (bodyType r \<noteq> BodyNone \<and> KnownContentLength \<notin> names hs) ''Content-Length'' (showNat (unat (req_contentLength r)))
       @ withDefault (KnownConnection \<notin> names hs) ''Connection'' (if o_keepAlive r then ''keep-alive'' else ''close''))) @ [CR, LF]] \<and>
    bodyType r' = bodyType r \<and> writableStream r' = ToDestination \<and> bodySpan r' = bodySpan r \<and> headersSent r'"
proof -
  let ?err = "''HttpAsyncClientRequest header space is finished''"
  let ?ua = "withDefault (KnownUserAgent \<notin> names hs) ''User-Agent'' ''SC''"
  let ?host = "withDefault (defaultHost r \<noteq> [] \<and> KnownHost \<notin> names hs) ''Host'' (defaultHost r)"
  let ?cl = "withDefault (bodyType r \<noteq> BodyNone \<and> KnownContentLength \<notin> names hs) ''Content-Length'' (showNat (unat (req_contentLength r)))"
  obtain r1 r2 r3 where steps:
      "(if \<not> hasHeader KnownUserAgent r then out_addHeader ''User-Agent'' ''SC'' r else (r, None)) = (r1, None)"
      "(if length (defaultHost r1) > 0 \<and> \<not> hasHeader KnownHost r1 then out_addHeader ''Host'' (defaultHost r1) r1 else (r1, None)) = (r2, None)"
      "sc_try (if bodyType r2 = BodyMultipart \<and> \<not> hasHeader KnownContentType r2 then multipartType writers r2 else (r2, None)) (\<lambda>r.
       sc_try (if bodyType r \<noteq> BodyNone \<and> \<not> chunkedTransferEncodingEnabled r \<and> \<not> hasHeader KnownContentLength r
              then sc_try (onHead (fw_appendContentLength (req_contentLength r) ?err ''HttpAsyncClientRequest failed formatting Content-Length'') r)
                     (\<lambda>r. (r\<lparr>contentLengthAdded := True\<rparr>, None))
              else (r, None)) (\<lambda>r. out_sendHeaders None r)) = (r', None)"
    using assms(1) unfolding req_sendHeaders_def Let_def by (elim sc_try_cases) auto
  have 1: "extends r (concat (map printHeader ?ua)) ?ua r1"
    using defaultHeader_extends [OF steps(1)] assms(5) by simp
  note more1 = same_more [OF extends_more [OF 1]]
  have "length (defaultHost r) > 0 \<and> \<not> hasHeader KnownHost r1 \<longleftrightarrow> defaultHost r \<noteq> [] \<and> KnownHost \<notin> names hs"
    using 1 assms(5) by (simp add: extends_def)
  from defaultHeader_extends [OF steps(2), unfolded more1(7) this]
  have 2: "extends r (concat (map printHeader (?ua @ ?host))) (?ua @ ?host) r2"
    unfolding map_append concat_append by (rule extends_trans [OF 1])
  note more2 = same_more [OF extends_more [OF 2]]
  have body: "bodyType r2 \<noteq> BodyMultipart" "\<not> chunkedTransferEncodingEnabled r2"
      "hasHeader KnownContentLength r2 \<longleftrightarrow> KnownContentLength \<in> names hs"
    using 2 assms(2,4,5) more2(3) by (simp_all add: extends_def)
  obtain r3 where r3: "(if bodyType r2 \<noteq> BodyNone \<and> \<not> hasHeader KnownContentLength r2
              then sc_try (onHead (fw_appendContentLength (req_contentLength r2) ?err ''HttpAsyncClientRequest failed formatting Content-Length'') r2)
                     (\<lambda>r. (r\<lparr>contentLengthAdded := True\<rparr>, None))
              else (r2, None)) = (r3, None)" "out_sendHeaders None r3 = (r', None)"
    using steps(3) body by (auto elim: sc_try_cases)
  have "extends r2 (concat (map printHeader ?cl)) ?cl r3"
    using r3(1) body contentLength_extends [of "req_contentLength r2"] more2 by (auto simp: withDefault_def split: if_splits)
  from extends_trans [OF 2 this] have 3: "extends r (concat (map printHeader (?ua @ ?host @ ?cl))) (?ua @ ?host @ ?cl) r3"
    unfolding map_append concat_append append_assoc .
  have "hasHeader KnownConnection r3 \<longleftrightarrow> KnownConnection \<in> names hs" "o_keepAlive r3 = o_keepAlive r"
    using 3 assms(5) by (simp_all add: extends_def)
  then show ?thesis
    using out_sendHeaders_text [OF r3(2)] 3 assms(2,3) same_more [OF extends_more [OF 3]] same_more [of r' r3]
    by (auto simp: extends_def getKeepAlive_def)
qed

text \<open>The state in which a preset is turned into a request.\<close>

lemma request_begin:
  fixes r :: clientRequest and memory keep host
  defines "r0 \<equiv> (setKeepAlive keep (req_reset (out_setHeaderMemory memory r)))\<lparr>defaultHost := host\<rparr>"
  shows "\<not> headersSent r0" "\<not> endCalled r0" "\<not> chunkedTransferEncodingEnabled r0" "\<not> forceDisableKeepAlive r0"
    "o_keepAlive r0 = keep" "defaultHost r0 = host" "bodyType r0 = BodyNone" "\<not> hasHeader h r0" "o_dest r0 = o_dest r"
    "fw_text (responseHeaders r0) = []"
  by (auto simp: r0_def setKeepAlive_def req_reset_def out_reset_def out_setHeaderMemory_def fw_reset_def hasHeader_def
      split: KnownHeader.splits)

lemma presetBody_headers: "hasHeader h (fst (presetBody writers pr r)) = hasHeader h r"
  by (cases h)
    (simp_all add: presetBody_def setBodySpan_def setBodyStreamLength_def setMultipart_def hasHeader_def split: bodyMode.splits option.splits)

lemma beginRequestSend_text:
  assumes "beginRequestSend writers sp tp None (\<lambda>r. r) True memory pr r = (r', None)"
    "pr_bodyMode pr = ModeNone \<or> pr_bodyMode pr = ModeSpan" "length (pr_bodySpan pr) < 2 ^ 64"
  shows "o_dest r' = o_dest r @ [printRequest (pr_method pr) (targetOf pr) (requestHeaders pr)] \<and>
    (if pr_bodyMode pr = ModeNone then endCalled r' else bodyType r' = BodySpan \<and> bodySpan r' = pr_bodySpan pr)"
proof -
  define r0 where "r0 = (setKeepAlive (pr_keepAlive pr) (req_reset (out_setHeaderMemory memory r)))\<lparr>defaultHost := pr_host pr\<rparr>"
  note r0 = request_begin [where keep = "pr_keepAlive pr" and memory = memory and r = r and host = "pr_host pr", folded r0_def]
  let ?line = "methodName (pr_method pr) @ '' '' @ targetOf pr @ '' HTTP/1.1'' @ [CR, LF]"
  obtain r1 r2 r3 r4 where steps: "startRequest (pr_method pr) (pr_path pr) r0 = (r1, None)" "presetBody writers pr r1 = (r2, None)"
      "addHeaders (pr_headers pr) r2 = (r3, None)"
      "sc_try (if \<not> headersSent r3 then req_sendHeaders writers None r3 else (r3, None))
         (\<lambda>r. if bodyType r = BodyNone \<and> \<not> endCalled r then out_end r else (r, None)) = (r', None)"
    using assms(1) unfolding beginRequestSend_def r0_def [symmetric] by (auto elim!: sc_try_cases)
  have 1: "extends (r0\<lparr>req_method := pr_method pr, req_url := targetOf pr\<rparr>) ?line [] r1"
    using startRequest_extends [OF steps(1)] by (simp add: targetOf_def)
  have same: "hasHeader h (r0\<lparr>req_method := pr_method pr, req_url := targetOf pr\<rparr>) = hasHeader h r0" for h
    by (cases h) (simp_all add: hasHeader_def)
  have r1: "fw_text (responseHeaders r1) = ?line" "\<not> headersSent r1" "\<not> endCalled r1" "\<not> chunkedTransferEncodingEnabled r1"
      "\<not> forceDisableKeepAlive r1" "o_keepAlive r1 = pr_keepAlive pr" "o_dest r1 = o_dest r" "\<And>h. \<not> hasHeader h r1"
      "defaultHost r1 = pr_host pr" "bodyType r1 = BodyNone"
    using 1 r0 same same_more [OF extends_more [OF 1]] by (auto simp: extends_def)
  have body: "bodyType r2 = (if pr_bodyMode pr = ModeSpan then BodySpan else BodyNone)"
      "pr_bodyMode pr = ModeSpan \<longrightarrow> req_contentLength r2 = of_nat (length (pr_bodySpan pr)) \<and> bodySpan r2 = pr_bodySpan pr"
      "responseHeaders r2 = responseHeaders r1" "\<not> headersSent r2" "\<not> endCalled r2" "\<not> chunkedTransferEncodingEnabled r2"
      "\<not> forceDisableKeepAlive r2" "o_keepAlive r2 = pr_keepAlive pr" "o_dest r2 = o_dest r"
      "\<forall>h. hasHeader h r2 = hasHeader h r1" "defaultHost r2 = pr_host pr"
    using steps(2) assms(2) r1(1-7,9,10) presetBody_headers [of _ writers pr r1] by (auto simp: presetBody_def setBodySpan_def)
  note 3 = addHeaders_extends [OF steps(3)]
  note more3 = same_more [OF extends_more [OF 3]]
  have r3: "fw_text (responseHeaders r3) = ?line @ concat (map printHeader (pr_headers pr))" "\<not> headersSent r3" "\<not> endCalled r3"
      "\<not> chunkedTransferEncodingEnabled r3" "\<not> forceDisableKeepAlive r3" "o_dest r3 = o_dest r"
      "\<forall>h. hasHeader h r3 \<longleftrightarrow> h \<in> names (pr_headers pr)" "KnownConnection \<notin> names (pr_headers pr) \<Longrightarrow> o_keepAlive r3 = pr_keepAlive pr"
    using 3 body r1(1,8) by (auto simp: extends_def)
  obtain r4 where r4: "req_sendHeaders writers None r3 = (r4, None)"
      "(if bodyType r4 = BodyNone \<and> \<not> endCalled r4 then out_end r4 else (r4, None)) = (r', None)"
    using steps(4) r3(2) by (auto elim: sc_try_cases)
  have nomp: "bodyType r3 \<noteq> BodyMultipart"
    using body(1) more3(3) by (simp split: if_splits)
  note sent = req_sendHeaders_text [OF r4(1) r3(4,5) nomp r3(7)]
  have len: "unat (of_nat (length (pr_bodySpan pr)) :: u64) = length (pr_bodySpan pr)"
    using assms(3) by (simp add: unsigned_of_nat take_bit_nat_eq_self)
  have dest: "o_dest r4 = o_dest r @ [printRequest (pr_method pr) (targetOf pr) (requestHeaders pr)]"
    using sent r3(1,6,8) more3 body(1,2,11) len assms(2)
    by (cases "KnownConnection \<in> names (pr_headers pr)")
      (auto simp: printRequest_def requestHeaders_def Let_def withDefault_def split: if_splits)
  show ?thesis
    using r4(2) dest sent more3 body(1,2) assms(2) by (auto simp: out_end_def split: if_splits)
qed

section \<open>The server's side\<close>

lemma known_cong: "equalsIgnoreCase a b \<Longrightarrow> known a = known b"
  by (simp add: known_def equalsIgnoreCase_iff)

lemma known_iff:
  "known n = Some KnownContentLength \<longleftrightarrow> equalsIgnoreCase n ''Content-Length''"
  "known n = Some KnownTransferEncoding \<longleftrightarrow> equalsIgnoreCase n ''Transfer-Encoding''"
proof -
  have "equalsIgnoreCase n a" if "known n = Some h" "(h, a) = (KnownContentLength, ''Content-Length'') \<or>
      (h, a) = (KnownTransferEncoding, ''Transfer-Encoding'')" for h a
    using that by (auto simp: known_def split: if_splits)
  then show "known n = Some KnownContentLength \<longleftrightarrow> equalsIgnoreCase n ''Content-Length''"
    "known n = Some KnownTransferEncoding \<longleftrightarrow> equalsIgnoreCase n ''Transfer-Encoding''"
    using known_cong [of n] by auto
qed

lemma sameName_equals: "sameName a b \<longleftrightarrow> equalsIgnoreCase a b"
proof -
  have "scHttpToLowerAscii = tolower"
    by (auto simp: fun_eq_iff scHttpToLowerAscii_def tolower_def code_def)
  then show ?thesis
    by (simp add: sameName_def equalsIgnoreCase_iff)
qed

lemma decValue_showNat: "decValue (showNat n) = n"
proof (induction n rule: showNat.induct)
  case (1 n)
  have digit: "digitValue (char_of (48 + d)) = d" if "d < 10" for d
    using that by (simp add: digitValue_def code_def of_char_of)
  show ?case
  proof (cases "n < 10")
    case True
    then show ?thesis
      by (subst showNat.simps) (simp add: decValue_def digit)
  next
    case False
    then have "decValue (showNat n) = decValue (showNat (n div 10)) * 10 + n mod 10"
      by (subst showNat.simps) (simp add: decValue_def digit)
    then show ?thesis
      using 1 False by simp
  qed
qed

lemma plain_contentLength:
  assumes "n < 2 ^ 64"
  shows "plainHeader (''Content-Length'', showNat n)"
proof -
  have digit: "isDigit d" if "d \<in> set (showNat n)" for d
    using that showNat_digits [of n] by (auto simp: isDigit_def isdigit_def code_def)
  moreover have "\<not> isDigit CR" "\<not> isDigit (CHR '' '')"
    by (simp_all add: isDigit_def code_def)
  ultimately have "CR \<notin> set (showNat n)" "CHR '' '' \<notin> set (showNat n)"
    by blast+
  moreover have "length (showNat n) \<le> 20"
    using assms length_showNat [of n 20] by simp
  ultimately show ?thesis
    using digit hd_in_set [OF showNat_ne, of n] by (cases "hd (showNat n) = CHR '' ''") (auto simp: plainHeader_def)
qed

lemma plain_requestHeaders:
  assumes "\<forall>h\<in>set (pr_headers pr). plainHeader h" "CR \<notin> set (pr_host pr)" "hd (pr_host pr) \<noteq> CHR '' ''" "length (pr_bodySpan pr) < 2 ^ 64"
  shows "\<forall>h\<in>set (requestHeaders pr). plainHeader h"
proof -
  have "plainHeader (''Host'', pr_host pr)" "plainHeader (''User-Agent'', ''SC'')"
      "plainHeader (''Connection'', ''keep-alive'')" "plainHeader (''Connection'', ''close'')"
    using assms(2,3) by (simp_all add: plainHeader_def sameName_def scHttpToLowerAscii_def code_def)
  then show ?thesis
    using assms(1) plain_contentLength [OF assms(4)] by (auto simp: requestHeaders_def Let_def withDefault_def split: if_splits)
qed

lemma length_requestHeaders: "length (requestHeaders pr) \<le> length (pr_headers pr) + 4"
  by (simp add: requestHeaders_def Let_def withDefault_def)

lemma names_find:
  "find (\<lambda>h. equalsIgnoreCase (fst h) ''Transfer-Encoding'') hs = None \<longleftrightarrow> KnownTransferEncoding \<notin> names hs"
  "find (\<lambda>h. equalsIgnoreCase (fst h) ''Content-Length'') hs = None \<longleftrightarrow> KnownContentLength \<notin> names hs"
  by (auto simp: find_None_iff names_def known_iff)

text \<open>Only a \<open>Content-Length\<close> header sets the length the parser keeps.\<close>

lemma headerEffect_length:
  assumes "KnownContentLength \<notin> names hs"
  shows "\<exists>keep c. fold headerEffect hs (m, n, k, l, c0) = (m, n, keep, l, c)"
  using assms
proof (induction hs arbitrary: k c0)
  case (Cons h hs)
  obtain nm v where h: "h = (nm, v)" by fastforce
  have "\<not> sameName nm ''Content-Length''"
    using Cons.prems h by (auto simp: sameName_equals known_iff [symmetric])
  then show ?case
    using Cons.IH [of "if sameName nm ''Connection'' \<and> \<not> c0 \<and> ciPrefix ''close'' v then False else k"] Cons.IH Cons.prems h
    by (auto simp: split: option.splits)
qed simp

text \<open>The framing the server finds for the body of the request.\<close>

definition framingOf :: "requestPreset \<Rightarrow> body \<Rightarrow> bool" where
  "framingOf pr b \<longleftrightarrow>
     (if pr_bodyMode pr = ModeSpan then bodyFramingKind b = FixedLength \<and> bodyBytesRemaining b = of_nat (length (pr_bodySpan pr))
      else bodyFramingKind b = NoBody \<and> bodyComplete b)"

lemma requestHeaders_framing:
  assumes "KnownContentLength \<notin> names (pr_headers pr)" "KnownTransferEncoding \<notin> names (pr_headers pr)"
    "\<forall>name. getHeader p name = map_option snd (find (\<lambda>h. equalsIgnoreCase (fst h) name) (requestHeaders pr))"
    "settings (ph_parser p) = fold headerEffect (requestHeaders pr) (m, 0, True, False, False)"
  shows "\<exists>b'. prepareBodyStream p False b = (b', None) \<and> framingOf pr b'"
proof -
  have te: "getHeader p ''Transfer-Encoding'' = None"
    using assms(2,3) names_find(1) [of "requestHeaders pr"] by (simp add: requestHeaders_def Let_def)
  show ?thesis
  proof (cases "pr_bodyMode pr = ModeSpan")
    case True
    let ?n = "length (pr_bodySpan pr)" and ?hs = "pr_headers pr"
    let ?pre = "?hs @ withDefault (KnownUserAgent \<notin> names ?hs) ''User-Agent'' ''SC''
         @ withDefault (pr_host pr \<noteq> [] \<and> KnownHost \<notin> names ?hs) ''Host'' (pr_host pr)"
    let ?post = "withDefault (KnownConnection \<notin> names ?hs) ''Connection'' (if pr_keepAlive pr then ''keep-alive'' else ''close'')"
    have split: "requestHeaders pr = ?pre @ [(''Content-Length'', showNat ?n)] @ ?post"
      using True assms(1) by (simp add: requestHeaders_def Let_def withDefault_def)
    have no: "KnownContentLength \<notin> names ?pre" "KnownContentLength \<notin> names ?post"
      using assms(1) by auto
    obtain k c where "fold headerEffect ?pre (m, 0, True, False, False) = (m, 0, k, False, c)"
      using headerEffect_length [OF no(1), of m 0 True False False] by blast
    then have "fold headerEffect (?pre @ [(''Content-Length'', showNat ?n)]) (m, 0, True, False, False) = (m, of_nat ?n, k, True, c)"
      by (simp add: sameName_def decValue_showNat)
    moreover have "\<exists>k' c'. fold headerEffect ?post (m, of_nat ?n, k, True, c) = (m, of_nat ?n, k', True, c')"
      by (rule headerEffect_length [OF no(2)])
    ultimately have cl: "contentLength (ph_parser p) = of_nat ?n"
      using assms(4) unfolding split append_assoc [symmetric] fold_append by (auto simp: settings_def)
    have "find (\<lambda>h. equalsIgnoreCase (fst h) ''Content-Length'') (requestHeaders pr) \<noteq> None"
      unfolding names_find(2) split by simp
    then have "getHeader p ''Content-Length'' \<noteq> None"
      using assms(3) by auto
    then show ?thesis
      using te cl True by (simp add: prepareBodyStream_def framingOf_def)
  next
    case False
    then have "getHeader p ''Content-Length'' = None"
      using assms(1,3) names_find(2) [of "requestHeaders pr"] by (simp add: requestHeaders_def Let_def)
    then show ?thesis
      using te False by (simp add: prepareBodyStream_def framingOf_def)
  qed
qed

section \<open>A request from client to server\<close>

text \<open>
  C3: the request a client sends is the one the server receives. When a request is built from a
  preset without error, one write is passed to the connection: the head with the preset's method,
  target and headers, then the defaults \<open>User-Agent\<close>, \<open>Host\<close>, \<open>Content-Length\<close> and \<open>Connection\<close>
  that are not among them. When this write arrives in the first piece the server reads, with
  whatever follows it, \<open>HttpRequest::writeHeaders\<close> finds that method, target and headers in it, gives
  back what follows the head, and the body is prepared with exactly the length of the client's.
\<close>

theorem client_request_received:
  assumes "beginRequestSend writers sp tp None (\<lambda>r. r) True memory pr r = (r', None)" "o_dest r = []"
    "pr_bodyMode pr = ModeNone \<or> pr_bodyMode pr = ModeSpan" "length (pr_bodySpan pr) < 2 ^ 64"
    and "CHR '' '' \<notin> set (pr_path pr)" "CR \<notin> set (pr_path pr)" "pr_path pr = [] \<or> hd (pr_path pr) \<noteq> CHR ''*''"
    and "\<forall>h\<in>set (pr_headers pr). plainHeader h" "length (pr_headers pr) \<le> 26" "CR \<notin> set (pr_host pr)" "hd (pr_host pr) \<noteq> CHR '' ''"
    and "KnownContentLength \<notin> names (pr_headers pr)" "KnownTransferEncoding \<notin> names (pr_headers pr)"
    and "length (concat (o_dest r')) \<le> memory'" "length (concat (o_dest r')) \<le> maxSize" "memory' < 2 ^ 32"
  shows "\<exists>p b' len. request_writeHeaders maxSize (concat (o_dest r') @ rest) giving (headers_reset Request memory', []) =
      ((p, if rest = [] then [] else [rest]), Some (targetOf pr, len), None) \<and>
    findParserToken p TkMethod = Some (methodName (pr_method pr)) \<and> findParserToken p TkUrl = Some (targetOf pr) \<and>
    (\<forall>name. getHeader p name = map_option snd (find (\<lambda>h. equalsIgnoreCase (fst h) name) (requestHeaders pr))) \<and>
    prepareBodyStream p False b = (b', None) \<and> framingOf pr b'"
proof -
  let ?url = "targetOf pr" and ?hs = "requestHeaders pr"
  have sent: "concat (o_dest r') = printRequest (pr_method pr) ?url ?hs"
    using beginRequestSend_text [OF assms(1,3,4)] assms(2) by simp
  have url: "CHR '' '' \<notin> set ?url" "CR \<notin> set ?url" "?url \<noteq> []" "hd ?url \<noteq> CHR ''*''"
    using assms(5-7) by (auto simp: targetOf_def)
  have hs: "\<forall>h\<in>set ?hs. plainHeader h" "length ?hs \<le> 30"
    using plain_requestHeaders [OF assms(8,10,11,4)] length_requestHeaders [of pr] assms(9) by auto
  have arrives: "concat (o_dest r') @ rest = printRequest (pr_method pr) ?url ?hs @ rest"
    using sent by simp
  obtain p where p: "request_writeHeaders maxSize (concat (o_dest r') @ rest) giving (headers_reset Request memory', []) =
        ((p, if rest = [] then [] else [rest]), Some (?url, fst (snd (fold headerEffect ?hs (pr_method pr, 0, True, False, False)))), None)"
      "findParserToken p TkMethod = Some (methodName (pr_method pr))" "findParserToken p TkUrl = Some ?url"
      "\<forall>name. getHeader p name = map_option snd (find (\<lambda>h. equalsIgnoreCase (fst h) name) ?hs)"
      "settings (ph_parser p) = fold headerEffect ?hs (pr_method pr, 0, True, False, False)"
    using head_received [OF arrives url hs assms(14,15) [unfolded sent] assms(16)] by blast
  show ?thesis
    using p requestHeaders_framing [OF assms(12,13) p(4,5), of b] by blast
qed

section \<open>A request in the client's memory\<close>

definition clientStart :: clientRequest where
  "clientStart = req_reset
     \<lparr>responseHeaders = fw_reset 0, headersSent = False, endCalled = False, forceDisableKeepAlive = False, o_keepAlive = True,
      connectionHeaderAdded = False, hostHeaderAdded = False, userAgentHeaderAdded = False, contentLengthAdded = False,
      contentTypeAdded = False, transferEncodingAdded = False, contentEncodingAdded = False, acceptEncodingAdded = False,
      chunkedTransferEncodingEnabled = False, writableStream = ToDestination, chunkedWritableStream = cw_init, o_dest = [],
      o_destEnded = False, req_method = HttpGET, req_url = [], bodyStream = None, bodyTransform = None, bodyType = BodyNone,
      bodySpan = [], req_contentLength = 0, req_contentEncoding = Identity, req_multipartWriter = None, defaultHost = []\<rparr>"

definition samplePreset :: requestPreset where
  "samplePreset = \<lparr>pr_method = HttpPOST, pr_path = ''/form'', pr_host = ''a.org'', pr_keepAlive = False, pr_bodyMode = ModeSpan,
     pr_bodySpan = ''hello'', pr_bodyStream = None, pr_contentLength = 0, pr_multipartWriter = None,
     pr_headers = [(''Accept'', ''text/html'')]\<rparr>"

lemma samplePreset_sent:
  "snd (beginRequestSend (\<lambda>_. mw_reset) (\<lambda>_. True) (\<lambda>_. True) None (\<lambda>r. r) True 4096 samplePreset clientStart) = None"
  by code_simp

theorem client_request_received_witness:
  "\<exists>p b' len. request_writeHeaders 4096 (''POST /form HTTP/1.1'' @ [CR, LF] @ ''Accept: text/html'' @ [CR, LF] @ ''User-Agent: SC'' @ [CR, LF] @
       ''Host: a.org'' @ [CR, LF] @ ''Content-Length: 5'' @ [CR, LF] @ ''Connection: close'' @ [CR, LF, CR, LF] @ ''hello'') giving
     (headers_reset Request 4096, []) = ((p, [''hello'']), Some (''/form'', len), None) \<and>
     prepareBodyStream p False resetIncoming = (b', None) \<and> bodyFramingKind b' = FixedLength \<and> bodyBytesRemaining b' = 5"
proof -
  obtain r' where r': "beginRequestSend (\<lambda>_. mw_reset) (\<lambda>_. True) (\<lambda>_. True) None (\<lambda>r. r) True 4096 samplePreset clientStart = (r', None)"
    using samplePreset_sent by (metis prod.collapse)
  let ?head = "''POST /form HTTP/1.1'' @ [CR, LF] @ ''Accept: text/html'' @ [CR, LF] @ ''User-Agent: SC'' @ [CR, LF] @
       ''Host: a.org'' @ [CR, LF] @ ''Content-Length: 5'' @ [CR, LF] @ ''Connection: close'' @ [CR, LF, CR, LF]"
  have dest: "o_dest clientStart = []"
    by code_simp
  have five: "showNat (length ''hello'') = ''5''"
    by code_simp
  have "printRequest (pr_method samplePreset) (targetOf samplePreset) (requestHeaders samplePreset) = ?head"
    by (simp add: samplePreset_def targetOf_def requestHeaders_def withDefault_def printRequest_def names_def known_def
        equalsIgnoreCase_iff tolower_def code_def five [simplified])
  moreover have "concat (o_dest r') = printRequest (pr_method samplePreset) (targetOf samplePreset) (requestHeaders samplePreset)"
    using beginRequestSend_text [OF r'] dest by (simp add: samplePreset_def)
  ultimately have sent: "concat (o_dest r') = ?head"
    by simp
  have len: "length (concat (o_dest r')) = 109"
    unfolding sent by simp
  have plain: "\<forall>h\<in>set (pr_headers samplePreset). plainHeader h" "KnownContentLength \<notin> names (pr_headers samplePreset)"
      "KnownTransferEncoding \<notin> names (pr_headers samplePreset)"
    by (simp_all add: samplePreset_def plainHeader_def sameName_def scHttpToLowerAscii_def code_def names_def known_def
        equalsIgnoreCase_iff tolower_def)
  have target: "targetOf samplePreset = ''/form''"
    by (simp add: samplePreset_def targetOf_def)
  show ?thesis
    using client_request_received [OF r' dest _ _ _ _ _ plain(1) _ _ _ plain(2,3), of 4096 4096 "''hello''" resetIncoming] len target
    unfolding sent by (auto simp: samplePreset_def framingOf_def)
qed

end
