(* ===== verification/HttpClientResponse.thy ===== *)
theory HttpClientResponse
  imports HttpBody
begin

text \<open>
  How \<open>HttpAsyncClient\<close> (\<open>Libraries/Http/HttpAsyncClient.cpp\<close>) takes a response from the bytes that
  arrive: \<open>onResponseData\<close> until the head is complete, then \<open>onResponseBodyData\<close>; and the end of the
  connection, \<open>onReadableEnd\<close>. The client has no response decoder. The streams of the body are the
  parameter of the body model; the application's callbacks do not change the response.

  Sizes are words of 64 bits where the code subtracts them. A view on bytes outside the buffer is
  refused by a body of known length when it is longer than the body; otherwise its bytes would be
  read, which is the outcome \<open>ROutOfBounds\<close>.
\<close>

datatype responseOutcome = RWaiting | RFailed string | ROutOfBounds | RFinished | RStreaming

definition response_writeHeaders :: "nat \<Rightarrow> char list \<Rightarrow> parsedHeaders \<Rightarrow> parsedHeaders \<times> string option" where
  "response_writeHeaders maxHeaderSize readData p =
     (case writeHeaders maxHeaderSize readData (\<lambda>d s. Some s) ''HttpAsyncClientResponse header space is finished''
             ''HttpAsyncClientResponse header size exceeded'' True False (p, ()) of
        ((p', _), e) \<Rightarrow> (p', e))"

text \<open>\<open>meth\<close> is the method of the current request, if there is one.\<close>

definition responseMustNotHaveBody :: "Method option \<Rightarrow> parsedHeaders \<Rightarrow> bool" where
  "responseMustNotHaveBody meth p =
     (let st = statusCode (ph_parser p) in
      if meth = Some HttpHEAD then True
      else if st = 204 \<or> st = 304 then True
      else st \<ge> 100 \<and> st < 200)"

text \<open>
  The view on the body bytes behind the head, as \<open>createChildView\<close> and \<open>Span::sliceStartLength\<close> check
  it: offset and length are added in 64 bits. \<open>None\<close> is refused, \<open>Some None\<close> a view out of bounds.
\<close>

definition bufferedView :: "char list \<Rightarrow> u64 \<Rightarrow> u64 \<Rightarrow> char list option option" where
  "bufferedView data offset len =
     (if \<not> offset + len \<le> of_nat (length data) then None
      else if unat offset + unat len \<le> length data then Some (Some (take (unat len) (drop (unat offset) data)))
      else Some None)"

definition bodyOutcome :: "body \<Rightarrow> responseOutcome" where
  "bodyOutcome b = (if bodyComplete b then RFinished else RStreaming)"

text \<open>The bytes behind the head that are in the same buffer; \<open>mustNot\<close> is \<open>responseMustNotHaveBody()\<close>.\<close>

definition processBuffered ::
  "'s bodyIO \<Rightarrow> bool \<Rightarrow> char list \<Rightarrow> parsedHeaders \<times> body \<times> 's \<Rightarrow> (parsedHeaders \<times> body \<times> 's) \<times> responseOutcome" where
  "processBuffered io mustNot readData = (\<lambda>(p, b, s).
     (let offset = of_nat (getHeadersLength p) :: u64;
          bufferedBodyBytes = of_nat (length readData) - offset in
      if mustNot \<and> bufferedBodyBytes > 0
      then ((p, b, s), RFailed ''HttpAsyncClient received an unexpected response body'')
      else if bufferedBodyBytes > 0 \<and> \<not> mustNot
      then
        (case (bufferedView readData offset bufferedBodyBytes, io_child io s) of
           (None, _) \<Rightarrow> ((p, b, s), RFailed ''AsyncBuffersPool::createChildView - Offset and length out of bounds'')
         | (_, None) \<Rightarrow> ((p, b, s), RFailed ''AsyncBuffersPool::createChildView - No space in buffer pool'')
         | (Some None, Some s1) \<Rightarrow>
             if bodyFramingKind b = FixedLength \<and> bufferedBodyBytes > bodyBytesRemaining b
             then ((p, b, io_unref io s1), RFailed ''HttpIncomingMessage received body beyond Content-Length'')
             else ((p, b, s1), ROutOfBounds)
         | (Some (Some d), Some s1) \<Rightarrow>
             (case processBodyData io False d (b, s1) of
                ((b1, s2), Some e) \<Rightarrow> ((p, b1, io_unref io s2), RFailed e)
              | ((b1, s2), None) \<Rightarrow> ((p, b1, io_unref io s2), bodyOutcome b1)))
      else ((p, b, s), bodyOutcome b)))"

definition onResponseData ::
  "'s bodyIO \<Rightarrow> nat \<Rightarrow> Method option \<Rightarrow> char list \<Rightarrow> parsedHeaders \<times> body \<times> 's \<Rightarrow> (parsedHeaders \<times> body \<times> 's) \<times> responseOutcome" where
  "onResponseData io maxHeaderSize meth readData = (\<lambda>(p, b, s).
     (case response_writeHeaders maxHeaderSize readData p of
        (p1, Some e) \<Rightarrow> ((p1, b, s), RFailed e)
      | (p1, None) \<Rightarrow>
          if \<not> headersEndReceived p1 then ((p1, b, s), RWaiting)
          else if statusCode (ph_parser p1) < 200 \<and> \<not> responseMustNotHaveBody meth p1
          then ((p1, b, s), RFailed ''HttpAsyncClient does not support informational responses'')
          else
            (case (if responseMustNotHaveBody meth p1
                   then (b\<lparr>bodyBytesRemaining := 0, bodyFramingKind := NoBody, bodyComplete := True, bodyStreamStarted := False\<rparr>, None)
                   else prepareBodyStream p1 True b) of
               (b1, Some e) \<Rightarrow> ((p1, b1, s), RFailed e)
             | (b1, None) \<Rightarrow>
                 processBuffered io (responseMustNotHaveBody meth p1) readData (p1, b1\<lparr>bodyStreamStarted := True\<rparr>, s))))"

definition onResponseBodyData :: "'s bodyIO \<Rightarrow> char list \<Rightarrow> body \<times> 's \<Rightarrow> (body \<times> 's) \<times> responseOutcome" where
  "onResponseBodyData io readData st =
     (case processBodyData io False readData st of
        (st', Some e) \<Rightarrow> (st', RFailed e)
      | ((b', s'), None) \<Rightarrow> ((b', s'), bodyOutcome b'))"

text \<open>\<open>streaming\<close> is whether the client is in the state \<open>StreamingResponse\<close>.\<close>

definition onReadableEnd :: "'s bodyIO \<Rightarrow> bool \<Rightarrow> parsedHeaders \<Rightarrow> body \<times> 's \<Rightarrow> (body \<times> 's) \<times> responseOutcome" where
  "onReadableEnd io streaming p = (\<lambda>(b, s).
     if streaming \<and> bodyFramingKind b = CloseDelimited \<and> headersEndReceived p then (finishBodyStream io (b, s), RFinished)
     else if bodyComplete b \<and> headersEndReceived p then ((b, s), RFinished)
     else ((b, s), RFailed ''HttpAsyncClient disconnected before response completed''))"

text \<open>Whether the connection is kept: the other side of \<open>finalizeResponse\<close>.\<close>

definition keepsConnection :: "bool \<Rightarrow> bool \<Rightarrow> body \<Rightarrow> bool" where
  "keepsConnection requestKeepAlive responseKeepAlive b \<longleftrightarrow>
     requestKeepAlive \<and> responseKeepAlive \<and> bodyFramingKind b \<noteq> CloseDelimited"

end
