(* ===== verification/HttpClientResponseProps.thy ===== *)
theory HttpClientResponseProps
  imports HttpClientResponse HttpOutgoingProps
begin

text \<open>
  A response from the server's \<open>HttpResponse\<close> to the client: when it arrives in one buffer the client
  gets the status, the headers and exactly the body; when its head is cut, the client loses the place
  where the body starts.
\<close>

section \<open>Receiving the head of a response\<close>

lemma scan_response:
  assumes "CR \<notin> set ds" "CR \<notin> set reason" "\<forall>h\<in>set hs. plainHeader h"
  shows "scanHeadersEnd 0 0 (printResponse ds reason hs @ rest) = (0, length (printResponse ds reason hs), True)"
proof -
  let ?line = "''HTTP/1.1 '' @ ds @ '' '' @ reason"
  have "printResponse ds reason hs @ rest = ?line @ CR # LF # concat (map printHeader hs) @ CR # LF # rest"
    by (simp add: printResponse_def)
  moreover have "\<forall>h\<in>set hs. CR \<notin> set (fst h) \<and> CR \<notin> set (snd h)"
    using assms(3) goodHeader_value by (auto simp: plainHeader_def)
  ultimately show ?thesis
    using assms(1,2) by (simp add: scan_line [of ?line, simplified] scan_headers printResponse_def)
qed

text \<open>A head that can be sent.\<close>

definition goodHead :: "string \<Rightarrow> string \<Rightarrow> (string \<times> string) list \<Rightarrow> bool" where
  "goodHead ds reason hs \<longleftrightarrow> ds \<noteq> [] \<and> (\<forall>d\<in>set ds. isDigit d) \<and> length ds \<le> 20 \<and> CR \<notin> set reason \<and>
     (reason = [] \<or> hd reason \<noteq> CHR '' '') \<and> (\<forall>h\<in>set hs. plainHeader h) \<and> length hs \<le> 30"

lemma goodHead_scan:
  assumes "goodHead ds reason hs"
  shows "scanHeadersEnd 0 0 (printResponse ds reason hs @ rest) = (0, length (printResponse ds reason hs), True)"
proof -
  have "\<not> isDigit CR"
    by (simp add: isDigit_def code_def)
  then have "CR \<notin> set ds"
    using assms by (auto simp: goodHead_def)
  then show ?thesis
    using assms scan_response [of ds reason hs rest] by (simp add: goodHead_def)
qed

text \<open>The head has been received: its tokens, status and settings.\<close>

definition headOf :: "string \<Rightarrow> string \<Rightarrow> (string \<times> string) list \<Rightarrow> parsedHeaders \<Rightarrow> bool" where
  "headOf ds reason hs p \<longleftrightarrow> headersEndReceived p \<and> getHeadersLength p = length (printResponse ds reason hs) \<and>
     texts p = responseTokens ds reason hs \<and>
     settings (ph_parser p) = fold headerEffect hs (HttpGET, 0, True, False, False) \<and> statusCode (ph_parser p) = ucast (accumulate 0 ds)"

lemma write_response:
  assumes p: "collected Response memory w m p" and c: "w @ c = printResponse ds reason hs @ rest" "length w < length (printResponse ds reason hs)"
    and scan: "scanHeadersEnd m 0 c = (0, length (printResponse ds reason hs) - length w, True)" and good: "goodHead ds reason hs"
    and size: "length (printResponse ds reason hs) \<le> memory" "length (printResponse ds reason hs) \<le> maxSize" "memory < 2 ^ 32"
  shows "\<exists>p'. response_writeHeaders maxSize c p = (p', None) \<and> headOf ds reason hs p'"
proof -
  let ?head = "printResponse ds reason hs"
  let ?n = "length ?head - length w"
  have split: "w @ take ?n c = ?head" "drop ?n c = rest"
  proof -
    have "take (length ?head) (w @ c) = ?head" "drop (length ?head) (w @ c) = rest"
      by (simp_all add: c(1))
    then show "w @ take ?n c = ?head" "drop ?n c = rest"
      using c(2) by simp_all
  qed
  define p2 where "p2 = p\<lparr>headersEndMatch := 0, readHeaders := ?head, availableHeader := availableHeader p - ?n\<rparr>"
  have copy: "copyHeaderBytes maxSize c ?n e1 e2 (p\<lparr>headersEndMatch := 0\<rparr>) = (p2, None)" for e1 e2
    using p size c(2) split(1) by (cases p) (auto simp: copyHeaderBytes_def collected_def p2_def)
  have hs: "\<forall>h\<in>set hs. goodHeader h"
    using good by (auto simp: goodHead_def plainHeader_def)
  obtain p3 where p3: "parserLoop True p2 ?head = (p3, True)" "parsedSuccessfully p3" "stored p2 p3"
      "texts p3 = responseTokens ds reason hs" "settings (ph_parser p3) = fold headerEffect hs (settings (init_parser Response))"
      "statusCode (ph_parser p3) = ucast (accumulate 0 ds)"
    using loop_response [of ds reason hs p2] p size good hs by (auto simp: collected_def p2_def goodHead_def)
  let ?p4 = "p3\<lparr>headersEndReceived := True\<rparr>"
  have "texts ?p4 = texts p3"
    by (simp add: texts_def tokenText_def)
  moreover have "readHeaders p2 = ?head" "\<not> headersEndReceived p" "headersEndMatch p = m"
    using p by (simp_all add: p2_def collected_def)
  moreover have "settings (init_parser Response) = (HttpGET, 0, True, False, False)"
    by (simp add: settings_def init_parser_def)
  ultimately show ?thesis
    using p3 c(2) scan copy
    by (intro exI [of _ ?p4]) (auto simp: response_writeHeaders_def writeHeaders_def getHeadersLength_def stored_def headOf_def)
qed

lemma response_first:
  assumes "c = printResponse ds reason hs @ rest" "goodHead ds reason hs"
    "length (printResponse ds reason hs) \<le> memory" "length (printResponse ds reason hs) \<le> maxSize" "memory < 2 ^ 32"
  shows "\<exists>p'. response_writeHeaders maxSize c (headers_reset Response memory) = (p', None) \<and> headOf ds reason hs p'"
proof -
  have "length (printResponse ds reason hs) > 0"
    by (simp add: printResponse_def)
  then show ?thesis
    using write_response [OF collected_reset, of c ds reason hs rest] assms goodHead_scan [OF assms(2)] by simp
qed

lemma response_second:
  assumes "c1 @ c2 = printResponse ds reason hs @ rest" "length c1 < length (printResponse ds reason hs)" "goodHead ds reason hs"
    "length (printResponse ds reason hs) \<le> memory" "length (printResponse ds reason hs) \<le> maxSize" "memory < 2 ^ 32"
  shows "\<exists>p1 p2. response_writeHeaders maxSize c1 (headers_reset Response memory) = (p1, None) \<and> \<not> headersEndReceived p1 \<and>
    response_writeHeaders maxSize c2 p1 = (p2, None) \<and> headOf ds reason hs p2"
proof -
  let ?head = "printResponse ds reason hs"
  define k where "k = length ?head - length c1"
  have "scanHeadersEnd 0 0 (c1 @ c2) = (0, length c1 + k, True)"
    using goodHead_scan [OF assms(3), of rest] assms(1,2) by (simp add: k_def)
  from scan_prefix [OF this] obtain m where m: "scanHeadersEnd 0 0 c1 = (m, length c1, False)" "scanHeadersEnd m 0 c2 = (0, k, True)"
    using assms(2) by (auto simp: k_def)
  have "length [] + length c1 \<le> memory" "length [] + length c1 \<le> maxSize"
    using assms(2,4,5) by simp_all
  from write_partial [OF collected_reset m(1) this, where ty = Response and us = "\<lambda>d s. Some s" and stop = True and pending = False
      and ?e1.0 = "''HttpAsyncClientResponse header space is finished''" and ?e2.0 = "''HttpAsyncClientResponse header size exceeded''" and s = "()"]
  obtain p1 where p1: "response_writeHeaders maxSize c1 (headers_reset Response memory) = (p1, None)" "collected Response memory c1 m p1"
    by (auto simp: response_writeHeaders_def)
  then have "\<not> headersEndReceived p1"
    by (simp add: collected_def)
  then show ?thesis
    using write_response [OF p1(2) assms(1,2) m(2) [unfolded k_def] assms(3-6)] p1(1) by blast
qed

section \<open>What the server sends\<close>

lemma startResponse_extends:
  assumes "startResponse cd m = (m', None)"
  obtains reason where "reasonOf cd = Some reason" "CR \<notin> set reason" "reason \<noteq> []" "100 \<le> cd" "cd \<le> 999"
    "extends m (''HTTP/1.1 '' @ showNat (nat cd) @ '' '' @ reason @ [CR, LF]) [] m'" "writtenBytes (responseHeaders m) = 0" "\<not> headersSent m"
proof -
  let ?err = "''HttpResponse::appendAscii - header space is finished''"
  obtain reason where reason: "reasonOf cd = Some reason" "startResponseWith cd reason m = (m', None)"
    using assms by (auto simp: startResponse_def split: option.splits)
  have guards: "\<not> headersSent m" "writtenBytes (responseHeaders m) = 0" "cd \<ge> 100 \<and> cd \<le> 999" "reason \<noteq> []"
      "list_all (\<lambda>c. c \<noteq> CR \<and> c \<noteq> LF) reason"
    using reason(2) by (auto simp: startResponseWith_def sc_try_msg_def Let_def split: if_splits)
  obtain m1 m2 m3 m4 where steps: "onHead (fw_append ''HTTP/1.1 '' ?err) m = (m1, None)" "onHead (fw_append (showNat (nat cd)) ?err) m1 = (m2, None)"
      "onHead (fw_append '' '' ?err) m2 = (m3, None)" "onHead (fw_append reason ?err) m3 = (m4, None)" "onHead (fw_append [CR, LF] ?err) m4 = (m', None)"
    using reason(2) guards by (auto simp: startResponseWith_def sc_try_msg_def Let_def split: if_splits elim!: sc_try_cases)
  note e = extends_trans [OF extends_trans [OF extends_trans [OF extends_trans [OF onHead_append [OF steps(1)] onHead_append [OF steps(2)]]
        onHead_append [OF steps(3)]] onHead_append [OF steps(4)]] onHead_append [OF steps(5)]]
  show thesis
    using that [OF reason(1)] guards e by (auto simp: list_all_iff)
qed

lemma addContentLength_extends:
  assumes "addContentLength n m = (m', None)"
  shows "extends m (printHeader (''Content-Length'', showNat (unat n))) [(''Content-Length'', showNat (unat n))] m'"
  using assms contentLength_extends [of n HeaderSpace "''HttpOutgoingMessage failed formatting Content-Length''" m m']
  by (auto simp: addContentLength_def sc_try_msg_def split: if_splits)

text \<open>The headers of a response with a body of known length.\<close>

definition responseHeadersOf :: "char list \<Rightarrow> nat \<Rightarrow> bool \<Rightarrow> (char list \<times> char list) list" where
  "responseHeadersOf contentType n keep =
     withDefault (contentType \<noteq> []) ''Content-Type'' contentType @ [(''Content-Length'', showNat n)] @
     [(''Connection'', if keep then ''keep-alive'' else ''close'')]"

lemma sendBytes_text:
  assumes "sendBytes None cd d contentType m = (m', None)" "\<forall>h. \<not> hasHeader h m" "\<not> chunkedTransferEncodingEnabled m" "length d < 2 ^ 64"
  obtains reason where "reasonOf cd = Some reason" "CR \<notin> set reason" "reason \<noteq> []" "100 \<le> cd" "cd \<le> 999"
    "o_dest m' = o_dest m @ printResponse (showNat (nat cd)) reason (responseHeadersOf contentType (length d) (getKeepAlive m)) #
       (if d = [] then [] else [d])" "o_destEnded m'"
proof -
  let ?ct = "withDefault (contentType \<noteq> []) ''Content-Type'' contentType"
  obtain m1 m2 m3 m4 m5 where steps: "startResponse cd m = (m1, None)"
      "(if contentType \<noteq> [] then out_addHeader ''Content-Type'' contentType m1 else (m1, None)) = (m2, None)"
      "addContentLength (of_nat (length d)) m2 = (m3, None)" "out_sendHeaders None m3 = (m4, None)"
      "(if length d > 0 then out_write None d m4 else (m4, None)) = (m5, None)" "out_end m5 = (m', None)"
    using assms(1) unfolding sendBytes_def startBody_def by (elim sc_try_cases) auto
  from steps(1) obtain reason where reason: "reasonOf cd = Some reason" "CR \<notin> set reason" "reason \<noteq> []" "100 \<le> cd" "cd \<le> 999"
    and 1: "extends m (''HTTP/1.1 '' @ showNat (nat cd) @ '' '' @ reason @ [CR, LF]) [] m1" "writtenBytes (responseHeaders m) = 0"
    by (rule startResponse_extends)
  have len: "unat (of_nat (length d) :: u64) = length d"
    using assms(4) by (simp add: unsigned_of_nat take_bit_nat_eq_self)
  have "extends m1 (concat (map printHeader ?ct)) ?ct m2"
    using steps(2) addHeader_extends [of "''Content-Type''" contentType m1 m2] by (auto simp: withDefault_def split: if_splits)
  from extends_trans [OF extends_trans [OF 1(1) this] addContentLength_extends [OF steps(3), unfolded len]]
  have 3: "extends m (((''HTTP/1.1 '' @ showNat (nat cd) @ '' '' @ reason @ [CR, LF]) @ concat (map printHeader ?ct)) @
      printHeader (''Content-Length'', showNat (length d))) (([] @ ?ct) @ [(''Content-Length'', showNat (length d))]) m3" .
  have fresh: "fw_text (responseHeaders m) = []"
    using 1(2) by (simp add: writtenBytes_def)
  have m3: "\<not> chunkedTransferEncodingEnabled m3" "\<not> hasHeader KnownConnection m3" "getKeepAlive m3 = getKeepAlive m" "o_dest m3 = o_dest m"
      "fw_text (responseHeaders m3) = ''HTTP/1.1 '' @ showNat (nat cd) @ '' '' @ reason @ [CR, LF] @ concat (map printHeader ?ct) @
        printHeader (''Content-Length'', showNat (length d))"
    using 3 assms(2,3) fresh by (simp_all add: extends_def getKeepAlive_def)
  have sent: "o_dest m4 = o_dest m @ [printResponse (showNat (nat cd)) reason (responseHeadersOf contentType (length d) (getKeepAlive m))]"
      "writableStream m4 = ToDestination" "headersSent m4"
    using out_sendHeaders_text [OF steps(4) m3(1)] m3 by (simp_all add: printResponse_def responseHeadersOf_def withDefault_def)
  have "o_dest m5 = o_dest m4 @ (if d = [] then [] else [d])" "writableStream m5 = ToDestination" "headersSent m5"
    using steps(5) sent(2,3) by (auto simp: out_write_def split: if_splits)
  then have "o_dest m' = o_dest m4 @ (if d = [] then [] else [d])" "o_destEnded m'"
    using steps(6) by (auto simp: out_end_def)
  then show thesis
    using that [OF reason] sent(1) by simp
qed

section \<open>What the client makes of it\<close>

lemma lookup_response:
  "lookup_name name (responseTokens ds reason hs) = map_option snd (find (\<lambda>h. equalsIgnoreCase (fst h) name) hs)"
proof -
  have "lookup_name name (concat (map headerTokens hs) @ [(TkHeadersEnd, [])]) =
      map_option snd (find (\<lambda>h. equalsIgnoreCase (fst h) name) hs)"
    by (induction hs) auto
  then show ?thesis
    by (simp add: responseTokens_def)
qed

lemma headOf_header:
  "headOf ds reason hs p \<Longrightarrow> getHeader p name = map_option snd (find (\<lambda>h. equalsIgnoreCase (fst h) name) hs)"
  by (simp add: headOf_def getHeader_texts lookup_response)

lemma headOf_settings:
  assumes "headOf ds reason (responseHeadersOf contentType n keep) p"
  shows "contentLength (ph_parser p) = of_nat n" "connectionKeepAlive (ph_parser p) = keep"
    "getHeader p ''Transfer-Encoding'' = None" "getHeader p ''Content-Length'' = Some (showNat n)"
proof -
  have eq: "equalsIgnoreCase ''Content-Type'' ''Transfer-Encoding'' = False" "equalsIgnoreCase ''Content-Length'' ''Transfer-Encoding'' = False"
      "equalsIgnoreCase ''Connection'' ''Transfer-Encoding'' = False" "equalsIgnoreCase ''Content-Type'' ''Content-Length'' = False"
      "equalsIgnoreCase ''Content-Length'' ''Content-Length'' = True" "equalsIgnoreCase ''Content-Type'' ''Connection'' = False"
      "equalsIgnoreCase ''Content-Length'' ''Connection'' = False" "equalsIgnoreCase ''Connection'' ''Content-Length'' = False"
      "equalsIgnoreCase ''Connection'' ''Connection'' = True"
    by code_simp+
  have close: "ciPrefix ''close'' ''close''" "\<not> ciPrefix ''close'' ''keep-alive''"
    by code_simp+
  show "getHeader p ''Transfer-Encoding'' = None" "getHeader p ''Content-Length'' = Some (showNat n)"
    using headOf_header [OF assms] eq by (simp_all add: responseHeadersOf_def withDefault_def)
  have "settings (ph_parser p) = (HttpGET, of_nat n, keep, True, True)"
    using assms eq close by (simp add: headOf_def responseHeadersOf_def withDefault_def sameName_equals decValue_showNat)
  then show "contentLength (ph_parser p) = of_nat n" "connectionKeepAlive (ph_parser p) = keep"
    by (simp_all add: settings_def)
qed

lemma reasonOf_plain: "reasonOf cd = Some reason \<Longrightarrow> hd reason \<noteq> CHR '' ''"
  by (auto simp: reasonOf_def split: if_splits)

lemma goodHead_response:
  assumes "reasonOf cd = Some reason" "CR \<notin> set reason" "100 \<le> cd" "cd \<le> 999" "CR \<notin> set contentType" "hd contentType \<noteq> CHR '' ''" "n < 2 ^ 64"
  shows "goodHead (showNat (nat cd)) reason (responseHeadersOf contentType n keep)"
proof -
  have "isDigit d" if "d \<in> set (showNat k)" for d k
    using that showNat_digits [of k] by (auto simp: isDigit_def isdigit_def code_def)
  moreover have "length (showNat (nat cd)) \<le> 20"
    using assms(4) length_showNat [of "nat cd" 20] by simp
  moreover have "plainHeader (''Content-Type'', contentType)" "plainHeader (''Connection'', ''keep-alive'')" "plainHeader (''Connection'', ''close'')"
    using assms(5,6) by (simp_all add: plainHeader_def sameName_def scHttpToLowerAscii_def code_def)
  ultimately show ?thesis
    using assms(2) reasonOf_plain [OF assms(1)] showNat_ne plain_contentLength [OF assms(7)]
    by (auto simp: goodHead_def responseHeadersOf_def withDefault_def)
qed

lemma headOf_status:
  assumes "headOf (showNat (nat cd)) reason hs p" "200 \<le> cd" "cd \<le> 999"
  shows "unat (statusCode (ph_parser p)) = nat cd" "\<not> statusCode (ph_parser p) < 200"
    "responseMustNotHaveBody meth p \<longleftrightarrow> meth = Some HttpHEAD \<or> cd = 204 \<or> cd = 304"
proof -
  have "unat (accumulate 0 (showNat (nat cd)) :: u64) = nat cd"
    using assms(3) by (simp add: accumulate_decValue decValue_showNat unsigned_of_nat take_bit_nat_eq_self)
  then show st: "unat (statusCode (ph_parser p)) = nat cd"
    using assms(1,3) by (simp add: headOf_def unsigned_ucast_eq take_bit_nat_eq_self)
  then show "\<not> statusCode (ph_parser p) < 200"
    using assms(2) by (simp add: word_less_nat_alt)
  moreover have "statusCode (ph_parser p) = 204 \<longleftrightarrow> cd = 204" "statusCode (ph_parser p) = 304 \<longleftrightarrow> cd = 304"
    using st assms(2) by (auto simp: word_unat_eq_iff)
  ultimately show "responseMustNotHaveBody meth p \<longleftrightarrow> meth = Some HttpHEAD \<or> cd = 204 \<or> cd = 304"
    by (simp add: responseMustNotHaveBody_def Let_def)
qed

end
