(* ===== verification/HttpClientResponseTheorems.thy ===== *)
theory HttpClientResponseTheorems
  imports HttpClientResponseProps
begin

text \<open>
  The theorems on responses: what the server's \<open>HttpResponse\<close> sends is what the client receives when it
  arrives in one buffer; what happens when its head is cut in two; and informational responses.
\<close>

section \<open>The body behind the head\<close>

lemma onResponseData_framed:
  assumes "response_writeHeaders maxSize readData p = (p1, None)"
    "headOf (showNat (nat cd)) reason (responseHeadersOf contentType n keep) p1"
    "200 \<le> cd" "cd \<le> 999" "cd \<noteq> 204" "cd \<noteq> 304" "meth \<noteq> Some HttpHEAD" "n < 2 ^ 64"
  obtains b1 where "bodyFramingKind b1 = FixedLength" "unat (bodyBytesRemaining b1) = n" "bodyComplete b1 \<longleftrightarrow> n = 0"
    "onResponseData io maxSize meth readData (p, b, s) = processBuffered io False readData (p1, b1, s)"
proof -
  let ?b1 = "b\<lparr>bodyBytesRemaining := of_nat n, bodyFramingKind := FixedLength, bodyComplete := (n = 0), bodyStreamStarted := True\<rparr>"
  have "of_nat n = (0 :: u64) \<longleftrightarrow> n = 0"
    using assms(8) word_of_nat_eq_0_iff [of n, where 'a = 64] by (auto simp: dvd_imp_le not_le dest: dvd_imp_le)
  then have prep: "prepareBodyStream p1 True b = (?b1\<lparr>bodyStreamStarted := False\<rparr>, None)"
    using headOf_settings [OF assms(2)] by (simp add: prepareBodyStream_def)
  have "headersEndReceived p1" "\<not> statusCode (ph_parser p1) < 200" "\<not> responseMustNotHaveBody meth p1"
    using assms(2-7) headOf_status [OF assms(2-4)] by (auto simp: headOf_def)
  then have "onResponseData io maxSize meth readData (p, b, s) = processBuffered io False readData (p1, ?b1, s)"
    using assms(1) prep by (simp add: onResponseData_def)
  moreover have "unat (of_nat n :: u64) = n"
    using assms(8) by (simp add: unsigned_of_nat take_bit_nat_eq_self)
  ultimately show thesis
    using that [of ?b1] by simp
qed

lemma unat_diff_of_nat:
  assumes "a \<le> b" "b < 2 ^ 64"
  shows "unat (of_nat b - of_nat a :: u64) = b - a" "of_nat b - of_nat a = (0 :: u64) \<longleftrightarrow> a = b"
proof -
  have "of_nat b - of_nat a = (of_nat (b - a) :: u64)"
    using assms(1) by (simp add: of_nat_diff)
  moreover have "unat (of_nat (b - a) :: u64) = b - a"
    using assms by (simp only: unsigned_of_nat) (simp add: take_bit_nat_eq_self)
  ultimately show diff: "unat (of_nat b - of_nat a :: u64) = b - a"
    by metis
  have "of_nat b - of_nat a = (0 :: u64) \<longleftrightarrow> unat (of_nat b - of_nat a :: u64) = 0"
    by (simp only: unsigned_eq_0_iff)
  then show "of_nat b - of_nat a = (0 :: u64) \<longleftrightarrow> a = b"
    using diff assms(1) by auto
qed

lemma processBuffered_inside:
  assumes "streams io recv back" "bodyFramingKind b = FixedLength" "bodyComplete b \<longleftrightarrow> unat (bodyBytesRemaining b) = 0"
    "getHeadersLength p \<le> length readData" "length readData - getHeadersLength p \<le> unat (bodyBytesRemaining b)" "length readData < 2 ^ 64"
  shows "\<exists>b' s'. processBuffered io False readData (p, b, s) = ((p, b', s'),
       if length readData - getHeadersLength p = unat (bodyBytesRemaining b) then RFinished else RStreaming) \<and>
    recv s' = recv s @ drop (getHeadersLength p) readData \<and>
    unat (bodyBytesRemaining b') = unat (bodyBytesRemaining b) - (length readData - getHeadersLength p)"
proof -
  let ?h = "getHeadersLength p" and ?len = "length readData"
  let ?offset = "of_nat ?h :: u64" and ?k = "of_nat ?len - of_nat ?h :: u64"
  have nat: "unat ?offset = ?h" "unat ?k = ?len - ?h" "unat (of_nat ?len :: u64) = ?len"
    using assms(4,6) unat_diff_of_nat [of ?h ?len] by (simp_all add: unsigned_of_nat take_bit_nat_eq_self)
  have zero: "?k = 0 \<longleftrightarrow> ?len = ?h"
    using unat_diff_of_nat(2) [OF assms(4,6)] by auto
  have view: "bufferedView readData ?offset ?k = Some (Some (drop ?h readData))"
    using nat assms(4) by (simp add: bufferedView_def)
  show ?thesis
  proof (cases "?len = ?h")
    case True
    then show ?thesis
      using zero assms(3) by (simp add: processBuffered_def bodyOutcome_def Let_def)
  next
    case False
    obtain s1 where s1: "io_child io s = Some s1" "recv s1 = recv s"
      using assms(1) by (rule streams_child)
    obtain b2 s2 where b2: "processPlain io (drop ?h readData) (b, s1) = ((b2, s2), None)" "recv s2 = recv s1 @ drop ?h readData"
        "unat (bodyBytesRemaining b2) = unat (bodyBytesRemaining b) - (?len - ?h)"
        "bodyComplete b2 \<longleftrightarrow> bodyComplete b \<or> ?len - ?h = unat (bodyBytesRemaining b)"
      using processPlain_within [OF assms(1,2), of "drop ?h readData" s1] assms(5) by auto
    have "bodyComplete b2 \<longleftrightarrow> ?len - ?h = unat (bodyBytesRemaining b)"
      using b2(4) assms(3,5) by auto
    then have "processBuffered io False readData (p, b, s) = ((p, b2, io_unref io s2),
        if ?len - ?h = unat (bodyBytesRemaining b) then RFinished else RStreaming)"
      using False zero view s1 b2(1) assms(2) by (simp add: processBuffered_def Let_def processBodyData_def bodyOutcome_def word_gt_0)
    then show ?thesis
      using b2(2,3) s1(2) streams_keep [OF assms(1)] by simp
  qed
qed

text \<open>When the buffer is shorter than the head, the difference wraps, and so does the check of the view.\<close>

lemma processBuffered_outside:
  assumes "streams io recv back" "bodyFramingKind b = FixedLength" "length readData < getHeadersLength p"
    "getHeadersLength p + unat (bodyBytesRemaining b) < 2 ^ 64"
  shows "\<exists>s'. processBuffered io False readData (p, b, s) =
    ((p, b, s'), RFailed ''HttpIncomingMessage received body beyond Content-Length'') \<and> recv s' = recv s"
proof -
  let ?h = "getHeadersLength p" and ?len = "length readData"
  let ?offset = "of_nat ?h :: u64" and ?k = "of_nat ?len - of_nat ?h :: u64"
  have nat: "unat ?offset = ?h" "unat (of_nat ?len :: u64) = ?len"
    using assms(3,4) by (simp_all add: unsigned_of_nat take_bit_nat_eq_self)
  have k: "unat ?k = 2 ^ 64 - (?h - ?len)"
    using assms(3,4) unfolding unat_sub_if' nat by simp
  have big: "bodyBytesRemaining b < ?k" "?k > 0"
    using k assms(3,4) by (simp_all add: word_less_nat_alt)
  have view: "bufferedView readData ?offset ?k = Some None"
    using k nat assms(3,4) by (simp add: bufferedView_def)
  obtain s1 where s1: "io_child io s = Some s1" "recv s1 = recv s"
    using assms(1) by (rule streams_child)
  show ?thesis
    using big view s1 streams_keep [OF assms(1)] assms(2) by (simp add: processBuffered_def Let_def)
qed

section \<open>A response from server to client\<close>

lemma sendBytes_head:
  assumes "sendBytes None cd d contentType m = (m', None)" "\<forall>h. \<not> hasHeader h m" "\<not> chunkedTransferEncodingEnabled m" "o_dest m = []"
    "CR \<notin> set contentType" "hd contentType \<noteq> CHR '' ''" "length d < 2 ^ 64"
  obtains reason where "goodHead (showNat (nat cd)) reason (responseHeadersOf contentType (length d) (getKeepAlive m))"
    "hd (o_dest m') = printResponse (showNat (nat cd)) reason (responseHeadersOf contentType (length d) (getKeepAlive m))"
    "concat (o_dest m') = hd (o_dest m') @ d" "cd \<le> 999"
proof -
  obtain reason where reason: "reasonOf cd = Some reason" "CR \<notin> set reason" "reason \<noteq> []" "100 \<le> cd" "cd \<le> 999"
    "o_dest m' = o_dest m @ printResponse (showNat (nat cd)) reason (responseHeadersOf contentType (length d) (getKeepAlive m)) #
       (if d = [] then [] else [d])"
    using sendBytes_text [OF assms(1-3,7)] by blast
  show thesis
    using that [of reason] reason(6,5) assms(4) goodHead_response [OF reason(1,2,4,5) assms(5,6,7)] by simp
qed

text \<open>
  C4: a response sent by the server is received by the client. What \<open>sendBytes\<close> puts on the connection,
  arriving in one buffer, gives the client the status, the \<open>Content-Type\<close>, \<open>Content-Length\<close> and
  \<open>Connection\<close> headers and exactly the bytes of the body, and the response is finished there; both sides
  agree on whether the connection is kept.
\<close>

theorem server_response_received:
  assumes "sendBytes None cd d contentType m = (m', None)" "\<forall>h. \<not> hasHeader h m" "\<not> chunkedTransferEncodingEnabled m" "o_dest m = []"
    and "CR \<notin> set contentType" "hd contentType \<noteq> CHR '' ''" "200 \<le> cd" "cd \<noteq> 204" "cd \<noteq> 304" "meth \<noteq> Some HttpHEAD"
    and "streams io recv back" "length (hd (o_dest m')) \<le> memory" "length (hd (o_dest m')) \<le> maxSize" "memory < 2 ^ 32"
    "length (hd (o_dest m')) + length d < 2 ^ 64"
  shows "\<exists>p b' s'. onResponseData io maxSize meth (concat (o_dest m')) (headers_reset Response memory, b, s) = ((p, b', s'), RFinished) \<and>
    recv s' = recv s @ d \<and> unat (statusCode (ph_parser p)) = nat cd \<and>
    (\<forall>name. getHeader p name =
       map_option snd (find (\<lambda>h. equalsIgnoreCase (fst h) name) (responseHeadersOf contentType (length d) (getKeepAlive m)))) \<and>
    connectionKeepAlive (ph_parser p) = getKeepAlive m"
proof -
  let ?hs = "responseHeadersOf contentType (length d) (getKeepAlive m)" and ?ds = "showNat (nat cd)"
  obtain reason where sent: "goodHead ?ds reason ?hs" "hd (o_dest m') = printResponse ?ds reason ?hs"
      "concat (o_dest m') = hd (o_dest m') @ d" "cd \<le> 999"
    using sendBytes_head [OF assms(1-6)] assms(15) by (metis add_lessD1 add.commute)
  obtain p where p: "response_writeHeaders maxSize (concat (o_dest m')) (headers_reset Response memory) = (p, None)" "headOf ?ds reason ?hs p"
    using response_first [OF sent(3) [unfolded sent(2)] sent(1)] assms(12-14) sent(2) by auto
  have small: "length d < 2 ^ 64"
    using assms(15) by simp
  obtain b1 where b1: "bodyFramingKind b1 = FixedLength" "unat (bodyBytesRemaining b1) = length d" "bodyComplete b1 \<longleftrightarrow> length d = 0"
      "onResponseData io maxSize meth (concat (o_dest m')) (headers_reset Response memory, b, s) =
       processBuffered io False (concat (o_dest m')) (p, b1, s)"
    by (rule onResponseData_framed [OF p assms(7) sent(4) assms(8-10) small])
  have len: "getHeadersLength p = length (hd (o_dest m'))"
    using p(2) sent(2) by (simp add: headOf_def)
  obtain b2 s2 where "processBuffered io False (concat (o_dest m')) (p, b1, s) = ((p, b2, s2), RFinished)" "recv s2 = recv s @ d"
    using processBuffered_inside [OF assms(11) b1(1), of p "concat (o_dest m')" s] b1(2,3) len sent(3) assms(15) by auto
  then show ?thesis
    using headOf_status(1) [OF p(2) assms(7) sent(4)] headOf_header [OF p(2)] headOf_settings(2) [OF p(2)]
    by (intro exI [of _ p] exI [of _ b2] exI [of _ s2]) (simp add: b1(4))
qed

text \<open>
  C28: what happens when the head of a response arrives in two buffers. The client subtracts the length
  of the whole head from the size of the second buffer alone. With a body shorter than the first buffer
  the difference wraps: the response fails, as if it had more bytes than \<open>Content-Length\<close>. Otherwise the
  body is taken up from a place too far behind: its first bytes, as many as the first buffer had, are
  dropped, and the client waits for as many that never come.
\<close>

theorem cut_response_head:
  assumes "sendBytes None cd d contentType m = (m', None)" "\<forall>h. \<not> hasHeader h m" "\<not> chunkedTransferEncodingEnabled m" "o_dest m = []"
    and "CR \<notin> set contentType" "hd contentType \<noteq> CHR '' ''" "200 \<le> cd" "cd \<noteq> 204" "cd \<noteq> 304" "meth \<noteq> Some HttpHEAD"
    and "streams io recv back" "length (hd (o_dest m')) \<le> memory" "length (hd (o_dest m')) \<le> maxSize" "memory < 2 ^ 32"
    "length (hd (o_dest m')) + length d < 2 ^ 64"
    and "c1 @ c2 = concat (o_dest m')" "c1 \<noteq> []" "length c1 < length (hd (o_dest m'))"
  shows "\<exists>p1 p b' s' outcome. onResponseData io maxSize meth c1 (headers_reset Response memory, b, s) = ((p1, b, s), RWaiting) \<and>
    onResponseData io maxSize meth c2 (p1, b, s) = ((p, b', s'), outcome) \<and>
    (if length d < length c1
     then outcome = RFailed ''HttpIncomingMessage received body beyond Content-Length'' \<and> recv s' = recv s
     else outcome = RStreaming \<and> recv s' = recv s @ drop (length c1) d \<and> unat (bodyBytesRemaining b') = length c1)"
proof -
  let ?hs = "responseHeadersOf contentType (length d) (getKeepAlive m)" and ?ds = "showNat (nat cd)"
  obtain reason where sent: "goodHead ?ds reason ?hs" "hd (o_dest m') = printResponse ?ds reason ?hs"
      "concat (o_dest m') = hd (o_dest m') @ d" "cd \<le> 999"
    using sendBytes_head [OF assms(1-6)] assms(15) by (metis add_lessD1 add.commute)
  have cut: "c1 @ c2 = printResponse ?ds reason ?hs @ d"
    using assms(16) sent(2,3) by simp
  obtain p1 p where p: "response_writeHeaders maxSize c1 (headers_reset Response memory) = (p1, None)" "\<not> headersEndReceived p1"
      "response_writeHeaders maxSize c2 p1 = (p, None)" "headOf ?ds reason ?hs p"
    using response_second [OF cut assms(18) [unfolded sent(2)] sent(1) assms(12,13) [unfolded sent(2)] assms(14)] by blast
  have small: "length d < 2 ^ 64"
    using assms(15) by simp
  obtain b1 where b1: "bodyFramingKind b1 = FixedLength" "unat (bodyBytesRemaining b1) = length d" "bodyComplete b1 \<longleftrightarrow> length d = 0"
      "onResponseData io maxSize meth c2 (p1, b, s) = processBuffered io False c2 (p, b1, s)"
    by (rule onResponseData_framed [OF p(3,4) assms(7) sent(4) assms(8-10) small])
  have first: "onResponseData io maxSize meth c1 (headers_reset Response memory, b, s) = ((p1, b, s), RWaiting)"
    using p(1,2) by (simp add: onResponseData_def)
  have len: "getHeadersLength p = length (hd (o_dest m'))" "length c1 + length c2 = length (hd (o_dest m')) + length d"
    using p(4) sent(2) arg_cong [OF cut, of length] by (simp_all add: headOf_def)
  show ?thesis
  proof (cases "length d < length c1")
    case True
    then obtain s2 where "processBuffered io False c2 (p, b1, s) =
        ((p, b1, s2), RFailed ''HttpIncomingMessage received body beyond Content-Length'')" "recv s2 = recv s"
      using processBuffered_outside [OF assms(11) b1(1), of c2 p s] b1(2) len assms(15) by auto
    then show ?thesis
      using True first b1(4) by (intro exI [of _ p1] exI [of _ p]) simp
  next
    case False
    have "drop (length c1) (c1 @ c2) = c2"
      by simp
    then have "drop (getHeadersLength p) c2 = drop (length c1 + length (hd (o_dest m'))) (hd (o_dest m') @ d)"
      unfolding assms(16) sent(3) len by (metis drop_drop add.commute)
    then have rest: "drop (getHeadersLength p) c2 = drop (length c1) d"
      by simp
    have left: "length c2 - getHeadersLength p = length d - length c1" "getHeadersLength p \<le> length c2" "length c2 < 2 ^ 64"
        "length d - length c1 \<noteq> length d"
      using len False assms(15,18) length_greater_0_conv [THEN iffD2, OF assms(17)] by linarith+
    obtain b2 s2 where "processBuffered io False c2 (p, b1, s) = ((p, b2, s2), RStreaming)" "recv s2 = recv s @ drop (length c1) d"
        "unat (bodyBytesRemaining b2) = length c1"
      using processBuffered_inside [OF assms(11) b1(1), of p c2 s] b1(2,3) left rest False by auto
    then show ?thesis
      using False first b1(4) by (intro exI [of _ p1] exI [of _ p]) simp
  qed
qed

section \<open>Informational responses\<close>

text \<open>
  An informational response is taken for the final one. A status from 100 to 199 counts as a
  response without a body, so the check that should refuse informational responses never does: when
  such a head arrives alone the request is finished with it, and when the final response follows in the
  same buffer the request fails because of a body that was not expected.
\<close>

theorem informational_response:
  assumes "goodHead (showNat (nat cd)) reason hs" "100 \<le> cd" "cd < 200"
    "length (printResponse (showNat (nat cd)) reason hs) \<le> memory" "length (printResponse (showNat (nat cd)) reason hs) \<le> maxSize"
    "memory < 2 ^ 32" "length (printResponse (showNat (nat cd)) reason hs @ rest) < 2 ^ 64"
  shows "\<exists>p b'. onResponseData io maxSize meth (printResponse (showNat (nat cd)) reason hs @ rest) (headers_reset Response memory, b, s) =
      ((p, b', s), if rest = [] then RFinished else RFailed ''HttpAsyncClient received an unexpected response body'') \<and>
    unat (statusCode (ph_parser p)) = nat cd \<and> bodyFramingKind b' = NoBody"
proof -
  let ?head = "printResponse (showNat (nat cd)) reason hs"
  obtain p where p: "response_writeHeaders maxSize (?head @ rest) (headers_reset Response memory) = (p, None)" "headOf (showNat (nat cd)) reason hs p"
    using response_first [OF refl assms(1,4-6)] by blast
  have "unat (accumulate 0 (showNat (nat cd)) :: u64) = nat cd"
    using assms(3) by (simp add: accumulate_decValue decValue_showNat unsigned_of_nat take_bit_nat_eq_self)
  then have st: "unat (statusCode (ph_parser p)) = nat cd"
    using p(2) assms(3) by (simp add: headOf_def unsigned_ucast_eq take_bit_nat_eq_self)
  then have must: "responseMustNotHaveBody meth p"
    using assms(2,3) nat_le_eq_zle [of 100 cd] by (simp add: responseMustNotHaveBody_def Let_def word_le_nat_alt word_less_nat_alt nat_less_iff)
  have len: "headersEndReceived p" "getHeadersLength p = length ?head"
    using p(2) by (simp_all add: headOf_def)
  have nat: "length ?head \<le> length (?head @ rest)" "length ?head + length rest < 2 ^ 64"
    using assms(7) by simp_all
  have zero: "of_nat (length (?head @ rest)) - of_nat (length ?head) = (0 :: u64) \<longleftrightarrow> rest = []"
    using unat_diff_of_nat(2) [OF nat(1) assms(7)] by simp
  let ?b = "b\<lparr>bodyBytesRemaining := 0, bodyFramingKind := NoBody, bodyComplete := True, bodyStreamStarted := True\<rparr>"
  have "onResponseData io maxSize meth (?head @ rest) (headers_reset Response memory, b, s) = processBuffered io True (?head @ rest) (p, ?b, s)"
    using p(1) len(1) must by (simp add: onResponseData_def)
  also have "\<dots> = ((p, ?b, s), if rest = [] then RFinished else RFailed ''HttpAsyncClient received an unexpected response body'')"
    using zero by (simp add: processBuffered_def len(2) Let_def bodyOutcome_def word_gt_0 del: length_append of_nat_add)
  finally show ?thesis
    using st by (intro exI [of _ p] exI [of _ ?b]) simp
qed

section \<open>Redirects\<close>

text \<open>A header that a line break in a value starts.\<close>

definition brokenLine :: "char list \<times> char list \<Rightarrow> char list" where
  "brokenLine h = [CR, LF] @ fst h @ '': '' @ snd h"

lemma print_broken:
  "printHeader (n, v @ concat (map brokenLine hs)) = printHeader (n, v) @ concat (map printHeader hs)"
  by (induction hs arbitrary: v) (auto simp: brokenLine_def)

lemma sendRedirect_text:
  assumes "sendRedirect None cd location m = (m', None)" "\<forall>h. \<not> hasHeader h m" "\<not> chunkedTransferEncodingEnabled m"
  obtains reason where "reasonOf cd = Some reason" "CR \<notin> set reason" "300 \<le> cd" "cd \<le> 399" "location \<noteq> []"
    "o_dest m' = o_dest m @ [''HTTP/1.1 '' @ showNat (nat cd) @ '' '' @ reason @ [CR, LF] @ printHeader (''Content-Length'', ''0'') @
       printHeader (''Location'', location) @ printHeader (''Connection'', if getKeepAlive m then ''keep-alive'' else ''close'') @ [CR, LF]]"
proof -
  obtain m1 m3 m4 m5 where steps: "startResponse cd m = (m1, None)" "addContentLength 0 m1 = (m3, None)"
      "out_addHeader ''Location'' location m3 = (m4, None)" "out_sendHeaders None m4 = (m5, None)" "out_end m5 = (m', None)"
      "300 \<le> cd" "cd \<le> 399" "location \<noteq> []"
    using assms(1) unfolding sendRedirect_def startBody_def
    by (auto simp: sc_try_msg_def split: if_splits elim!: sc_try_cases)
  from steps(1) obtain reason where reason: "reasonOf cd = Some reason" "CR \<notin> set reason"
    and 1: "extends m (''HTTP/1.1 '' @ showNat (nat cd) @ '' '' @ reason @ [CR, LF]) [] m1" "writtenBytes (responseHeaders m) = 0"
    by (rule startResponse_extends)
  have loc: "known ''Location'' = None" "showNat 0 = ''0''"
    by code_simp+
  note e = extends_trans [OF extends_trans [OF 1(1) addContentLength_extends [OF steps(2)]] addHeader_extends [OF steps(3)]]
  have "fw_text (responseHeaders m) = []"
    using 1(2) by (simp add: writtenBytes_def)
  then have m4: "\<not> chunkedTransferEncodingEnabled m4" "\<not> hasHeader KnownConnection m4" "getKeepAlive m4 = getKeepAlive m" "o_dest m4 = o_dest m"
      "fw_text (responseHeaders m4) = ''HTTP/1.1 '' @ showNat (nat cd) @ '' '' @ reason @ [CR, LF] @ printHeader (''Content-Length'', ''0'') @
        printHeader (''Location'', location)"
    using e assms(2,3) loc by (simp_all add: extends_def getKeepAlive_def)
  have "o_dest m' = o_dest m5"
    using out_sendHeaders_text [OF steps(4) m4(1)] steps(5) by (auto simp: out_end_def)
  then show thesis
    using that [OF reason steps(6-8)] out_sendHeaders_text [OF steps(4) m4(1)] m4 by (simp add: withDefault_def)
qed

text \<open>
  C34: what the client finds in a redirect. The target of a redirect that has no line break is the value
  of its \<open>Location\<close> header; but the target is not checked, and every line break in it followed by a name and
  a value becomes a header of its own, before the \<open>Connection\<close> header.
\<close>

theorem redirect_received:
  assumes "sendRedirect None cd (location @ concat (map brokenLine extra)) m = (m', None)" "\<forall>h. \<not> hasHeader h m"
    "\<not> chunkedTransferEncodingEnabled m" "o_dest m = []"
    and "CR \<notin> set location" "hd location \<noteq> CHR '' ''" "\<forall>h\<in>set extra. plainHeader h" "length extra \<le> 20"
    and "length (concat (o_dest m')) \<le> memory" "length (concat (o_dest m')) \<le> maxSize" "memory < 2 ^ 32"
  shows "\<exists>p. response_writeHeaders maxSize (concat (o_dest m')) (headers_reset Response memory) = (p, None) \<and> headersEndReceived p \<and>
    getHeader p ''Location'' = Some location \<and>
    (\<forall>name. getHeader p name = map_option snd (find (\<lambda>h. equalsIgnoreCase (fst h) name)
       ([(''Content-Length'', ''0''), (''Location'', location)] @ extra @ [(''Connection'', if getKeepAlive m then ''keep-alive'' else ''close'')])))"
proof -
  let ?hs = "[(''Content-Length'', ''0''), (''Location'', location)] @ extra @ [(''Connection'', if getKeepAlive m then ''keep-alive'' else ''close'')]"
  obtain reason where reason: "reasonOf cd = Some reason" "CR \<notin> set reason" "300 \<le> cd" "cd \<le> 399"
    and dest: "o_dest m' = o_dest m @ [''HTTP/1.1 '' @ showNat (nat cd) @ '' '' @ reason @ [CR, LF] @ printHeader (''Content-Length'', ''0'') @
       printHeader (''Location'', location @ concat (map brokenLine extra)) @
       printHeader (''Connection'', if getKeepAlive m then ''keep-alive'' else ''close'') @ [CR, LF]]"
    by (rule sendRedirect_text [OF assms(1-3)])
  have sent: "concat (o_dest m') = printResponse (showNat (nat cd)) reason ?hs @ []"
    unfolding dest assms(4) print_broken by (simp add: printResponse_def del: printHeader.simps)
  have zero: "showNat 0 = ''0''"
    by code_simp
  have "plainHeader (''Location'', location)" "plainHeader (''Content-Length'', ''0'')"
    using assms(5,6) plain_contentLength [of 0] by (simp_all add: plainHeader_def sameName_def scHttpToLowerAscii_def code_def zero)
  then have "\<forall>h\<in>set ?hs. plainHeader h"
    using assms(7) by (auto simp: plainHeader_def sameName_def scHttpToLowerAscii_def code_def)
  moreover have "goodHead (showNat (nat cd)) reason []"
    using goodHead_response [OF reason(1,2), of "''x''" 0 True] reason(3,4) by (simp add: goodHead_def)
  ultimately have good: "goodHead (showNat (nat cd)) reason ?hs"
    using assms(8) by (simp add: goodHead_def)
  obtain p where p: "response_writeHeaders maxSize (concat (o_dest m')) (headers_reset Response memory) = (p, None)"
      "headOf (showNat (nat cd)) reason ?hs p"
    using response_first [OF sent good] assms(9-11) unfolding sent by (metis append_Nil2)
  have loc: "equalsIgnoreCase ''Content-Length'' ''Location'' = False" "equalsIgnoreCase ''Location'' ''Location'' = True"
    by code_simp+
  show ?thesis
    using p headOf_header [OF p(2)] loc by (intro exI [of _ p]) (simp add: headOf_def)
qed

section \<open>Responses in memory\<close>

definition responseStart :: outgoing where
  "responseStart = out_reset
     \<lparr>responseHeaders = fw_reset 1024, headersSent = False, endCalled = False, forceDisableKeepAlive = False, o_keepAlive = True,
      connectionHeaderAdded = False, hostHeaderAdded = False, userAgentHeaderAdded = False, contentLengthAdded = False,
      contentTypeAdded = False, transferEncodingAdded = False, contentEncodingAdded = False, acceptEncodingAdded = False,
      chunkedTransferEncodingEnabled = False, writableStream = ToDestination, chunkedWritableStream = cw_init, o_dest = [],
      o_destEnded = False\<rparr>"

definition sampleHead200 :: string where
  "sampleHead200 = ''HTTP/1.1 200 OK'' @ [CR, LF] @ ''Content-Type: text/plain'' @ [CR, LF] @ ''Content-Length: 2'' @ [CR, LF] @
     ''Connection: keep-alive'' @ [CR, LF, CR, LF]"

lemma responseStart_fresh: "\<forall>h. \<not> hasHeader h responseStart" "\<not> chunkedTransferEncodingEnabled responseStart" "o_dest responseStart = []"
proof -
  show "\<forall>h. \<not> hasHeader h responseStart"
    by (rule allI, case_tac h) (simp_all add: responseStart_def hasHeader_def out_reset_def)
qed (simp_all add: responseStart_def out_reset_def)

lemma sample200:
  "snd (sendBytes None 200 ''hi'' ''text/plain'' responseStart) = None \<and>
   o_dest (fst (sendBytes None 200 ''hi'' ''text/plain'' responseStart)) = [sampleHead200, ''hi'']"
  by code_simp

theorem server_response_received_witness:
  "\<exists>p b' s'. onResponseData recorder 4096 (Some HttpGET) (sampleHead200 @ ''hi'') (headers_reset Response 4096, resetIncoming, ([], [])) =
     ((p, b', s'), RFinished) \<and> fst s' = ''hi'' \<and> unat (statusCode (ph_parser p)) = 200"
proof -
  obtain m' where m': "sendBytes None 200 ''hi'' ''text/plain'' responseStart = (m', None)" "o_dest m' = [sampleHead200, ''hi'']"
    using sample200 by (metis prod.collapse)
  have len: "length sampleHead200 = 88"
    by code_simp
  show ?thesis
    using server_response_received [OF m'(1) responseStart_fresh _ _ _ _ _ _ recorder_streams, of "Some HttpGET" 4096 4096 resetIncoming "([], [])"]
      m'(2) len by auto
qed

theorem cut_response_head_witness:
  "\<exists>p1 p b' s'. onResponseData recorder 4096 (Some HttpGET) (take 1 sampleHead200) (headers_reset Response 4096, resetIncoming, ([], [])) =
       ((p1, resetIncoming, ([], [])), RWaiting) \<and>
     onResponseData recorder 4096 (Some HttpGET) (drop 1 sampleHead200 @ ''hi'') (p1, resetIncoming, ([], [])) = ((p, b', s'), RStreaming) \<and>
     fst s' = ''i''"
proof -
  obtain m' where m': "sendBytes None 200 ''hi'' ''text/plain'' responseStart = (m', None)" "o_dest m' = [sampleHead200, ''hi'']"
    using sample200 by (metis prod.collapse)
  have len: "length sampleHead200 = 88"
    by code_simp
  have cut: "take 1 sampleHead200 @ drop 1 sampleHead200 @ ''hi'' = concat (o_dest m')"
    using m'(2) by (metis append_assoc append_take_drop_id concat.simps append_Nil2)
  have one: "take 1 sampleHead200 \<noteq> []" "length (take 1 sampleHead200) = 1"
    using len by auto
  show ?thesis
    using cut_response_head [OF m'(1) responseStart_fresh _ _ _ _ _ _ recorder_streams _ _ _ _ cut one(1),
        of "Some HttpGET" 4096 4096 resetIncoming "([], [])"] m'(2) len one(2) by auto
qed

theorem informational_response_witness:
  "\<exists>p b'. onResponseData recorder 4096 (Some HttpPOST) (printResponse (showNat (nat 100)) ''Continue'' [] @ [])
       (headers_reset Response 4096, resetIncoming, ([], [])) = ((p, b', ([], [])), RFinished) \<and> unat (statusCode (ph_parser p)) = nat 100"
proof -
  have good: "goodHead (showNat (nat 100)) ''Continue'' []" "length (printResponse (showNat (nat 100)) ''Continue'' []) = 25"
    by code_simp+
  show ?thesis
    using informational_response [OF good(1), of 4096 4096 "[]" recorder "Some HttpPOST" resetIncoming "([], [])"] good(2) by auto
qed

theorem redirect_received_witness:
  "\<exists>p m'. sendRedirect None 302 (''/a'' @ concat (map brokenLine [(''Set-Cookie'', ''x=1'')])) responseStart = (m', None) \<and>
     response_writeHeaders 4096 (concat (o_dest m')) (headers_reset Response 4096) = (p, None) \<and>
     getHeader p ''Location'' = Some ''/a'' \<and> getHeader p ''Set-Cookie'' = Some ''x=1''"
proof -
  let ?r = "sendRedirect None 302 (''/a'' @ concat (map brokenLine [(''Set-Cookie'', ''x=1'')])) responseStart"
  have "snd ?r = None \<and> length (concat (o_dest (fst ?r))) = 96"
    by code_simp
  then obtain m' where m': "?r = (m', None)" "length (concat (o_dest m')) = 96"
    by (metis prod.collapse)
  have plain: "\<forall>h\<in>set [(''Set-Cookie'', ''x=1'')]. plainHeader h"
    by code_simp
  have names: "equalsIgnoreCase ''Content-Length'' ''Set-Cookie'' = False" "equalsIgnoreCase ''Location'' ''Set-Cookie'' = False"
      "equalsIgnoreCase ''Set-Cookie'' ''Set-Cookie'' = True"
    by code_simp+
  show ?thesis
    using redirect_received [OF m'(1) responseStart_fresh _ _ plain, of 4096 4096] m' names by auto
qed

end
