(* ===== verification/HttpMultipartWriterProps.thy ===== *)
theory HttpMultipartWriterProps
  imports HttpMultipartWriter HttpMultipartProps
begin

text \<open>
  The multipart body a client writes: it is as long as \<open>getContentLength\<close> has announced, and the
  multipart parser finds the parts in it.
\<close>

section \<open>Building\<close>

text \<open>What an application adds: fields and files.\<close>

datatype partSpec = Field "char list" "char list" | File "char list" "char list" "char list" "char list"

fun addPart :: "partSpec \<Rightarrow> multipartWriter \<Rightarrow> multipartWriter tried" where
  "addPart (Field n v) w = mw_addField n v w"
| "addPart (File n f b ct) w = mw_addFile n f b ct w"

fun addParts :: "partSpec list \<Rightarrow> multipartWriter \<Rightarrow> multipartWriter tried" where
  "addParts [] w = (w, None)"
| "addParts (s # ss) w = sc_try (addPart s w) (addParts ss)"

fun partOf :: "partSpec \<Rightarrow> writerPart" where
  "partOf (Field n v) = \<lparr>wp_partName = n, wp_fileName = [], wp_contentType = [], wp_body = v\<rparr>"
| "partOf (File n f b ct) = \<lparr>wp_partName = n, wp_fileName = f, wp_contentType = ct, wp_body = b\<rparr>"

text \<open>What the checks leave of the text of a header.\<close>

definition safePart :: "writerPart \<Rightarrow> bool" where
  "safePart p \<longleftrightarrow> CR \<notin> set (wp_partName p) \<and> CR \<notin> set (wp_fileName p) \<and> CR \<notin> set (wp_contentType p)"

lemma safe_CR: "quotedParameterIsSafe v \<Longrightarrow> CR \<notin> set v" "headerValueIsSafe v \<Longrightarrow> CR \<notin> set v"
proof -
  have "c \<notin> set v" if "list_all P v" "\<not> P c" for P and c :: char
    using that by (auto simp: list_all_iff)
  then show "quotedParameterIsSafe v \<Longrightarrow> CR \<notin> set v" "headerValueIsSafe v \<Longrightarrow> CR \<notin> set v"
    unfolding quotedParameterIsSafe_def headerValueIsSafe_def by (force simp: code_def)+
qed

lemma addPart_adds:
  assumes "addPart s w = (w', None)"
  shows "w' = w\<lparr>mw_parts := mw_parts w @ [partOf s]\<rparr> \<and> safePart (partOf s)"
proof (cases s)
  case (Field n v)
  then show ?thesis
    using assms safe_CR(1) [of n] by (auto simp: mw_addField_def sc_try_msg_def safePart_def split: if_splits)
next
  case (File n f b ct)
  then show ?thesis
    using assms safe_CR(1) [of n] safe_CR(1) [of f] safe_CR(2) [of ct]
    by (auto simp: mw_addFile_def sc_try_msg_def safePart_def split: if_splits)
qed

lemma addParts_adds:
  assumes "addParts ss w = (w', None)"
  shows "mw_parts w' = mw_parts w @ map partOf ss \<and> mw_boundary w' = mw_boundary w \<and> (\<forall>s\<in>set ss. safePart (partOf s))"
  using assms
proof (induction ss arbitrary: w)
  case (Cons s ss)
  obtain w1 where w1: "addPart s w = (w1, None)" "addParts ss w1 = (w', None)"
    using Cons.prems by (auto elim: sc_try_cases)
  then show ?case
    using addPart_adds [OF w1(1)] Cons.IH [OF w1(2)] by auto
qed simp

lemma setBoundary_good:
  assumes "mw_setBoundary B w = (w', None)"
  shows "w' = \<lparr>mw_parts = [], mw_boundary = B\<rparr> \<and> goodBoundary B"
proof -
  have "w' = \<lparr>mw_parts = [], mw_boundary = B\<rparr>" "length B \<le> 70" "boundaryIsSafe B"
    using assms by (auto simp: mw_setBoundary_def mw_reset_def sc_try_msg_def split: if_splits)
  moreover have "\<not> (\<not> (code NUL \<le> 0x20 \<or> code NUL \<ge> 0x7F))"
    by (simp add: code_def)
  then have "boundaryIsSafe B \<Longrightarrow> NUL \<notin> set B"
    unfolding boundaryIsSafe_def list_all_iff by blast
  ultimately show ?thesis
    by (simp add: goodBoundary_def)
qed

section \<open>Writing\<close>

definition writtenLines :: "writerPart \<Rightarrow> headerLine list" where
  "writtenLines p =
     (''Content-Disposition'', 1, ''form-data; name='' @ quoted (wp_partName p) @
        (if wp_fileName p \<noteq> [] then ''; filename='' @ quoted (wp_fileName p) else [])) #
     (if wp_contentType p \<noteq> [] then [(''Content-Type'', 1, wp_contentType p)] else [])"

definition partBytes :: "char list \<Rightarrow> writerPart \<Rightarrow> char list" where
  "partBytes B p = ''--'' @ B @ [CR, LF] @ partText (writtenLines p) (wp_body p) @ [CR, LF]"

lemma fw_append_ok:
  assumes "fw_append t err w = (w', None)"
  shows "w' = w\<lparr>fw_text := fw_text w @ t\<rparr>"
  using assms by (auto simp: fw_append_def split: if_splits)

lemma fw_more [simp]: "fw_append t err (w\<lparr>fw_text := u\<rparr>) = (w', None) \<Longrightarrow> w' = w\<lparr>fw_text := u @ t\<rparr>"
  by (drule fw_append_ok) simp

lemma appendPart_text:
  assumes "appendPart w err p out = (out', None)"
  shows "out' = out\<lparr>fw_text := fw_text out @ partBytes (mw_boundary w) p\<rparr>"
proof -
  let ?file = "if wp_fileName p \<noteq> [] then ''; filename='' @ quoted (wp_fileName p) else []"
  let ?type = "if wp_contentType p \<noteq> [] then ''Content-Type: '' @ wp_contentType p @ [CR, LF] else []"
  obtain o1 o2 o3 o4 o5 o6 o7 o8 o9 o10 where steps: "fw_append ''--'' err out = (o1, None)" "fw_append (mw_boundary w) err o1 = (o2, None)"
      "fw_append ([CR, LF] @ ''Content-Disposition: form-data; name='' @ [QUOTE]) err o2 = (o3, None)"
      "fw_append (wp_partName p) err o3 = (o4, None)" "fw_append [QUOTE] err o4 = (o5, None)"
      "(if length (wp_fileName p) > 0
        then sc_try (fw_append (''; filename='' @ [QUOTE]) err o5) (\<lambda>out. sc_try (fw_append (wp_fileName p) err out) (\<lambda>out. fw_append [QUOTE] err out))
        else (o5, None)) = (o6, None)"
      "fw_append [CR, LF] err o6 = (o7, None)"
      "(if length (wp_contentType p) > 0
        then sc_try (fw_append ''Content-Type: '' err o7) (\<lambda>out. sc_try (fw_append (wp_contentType p) err out) (\<lambda>out. fw_append [CR, LF] err out))
        else (o7, None)) = (o8, None)"
      "fw_append [CR, LF] err o8 = (o9, None)" "fw_append (wp_body p) err o9 = (o10, None)" "fw_append [CR, LF] err o10 = (out', None)"
    using assms unfolding appendPart_def by (elim sc_try_cases) auto
  have 6: "o6 = o5\<lparr>fw_text := fw_text o5 @ ?file\<rparr>"
    using steps(6) by (auto simp: quoted_def QUOTE_def split: if_splits elim!: sc_try_cases dest!: fw_append_ok)
  have 8: "o8 = o7\<lparr>fw_text := fw_text o7 @ ?type\<rparr>"
    using steps(8) by (auto split: if_splits elim!: sc_try_cases dest!: fw_append_ok)
  note written = steps(1-5,7,9-11) [THEN fw_append_ok]
  show ?thesis
    unfolding written 6 8 by (simp add: partBytes_def partText_def writtenLines_def lineText_def quoted_def QUOTE_def)
qed

lemma appendParts_text:
  assumes "appendParts w err ps out = (out', None)"
  shows "out' = out\<lparr>fw_text := fw_text out @ concat (map (partBytes (mw_boundary w)) ps)\<rparr>"
  using assms
proof (induction ps arbitrary: out)
  case (Cons p ps)
  obtain o1 where "appendPart w err p out = (o1, None)" "appendParts w err ps o1 = (out', None)"
    using Cons.prems by (auto elim: sc_try_cases)
  then show ?case
    using appendPart_text Cons.IH by fastforce
qed simp

definition bodyText :: "multipartWriter \<Rightarrow> char list" where
  "bodyText w = concat (map (partBytes (mw_boundary w)) (mw_parts w)) @ ''--'' @ mw_boundary w @ ''--'' @ [CR, LF]"

lemma appendMultipartBody_text:
  assumes "appendMultipartBody w (fw_reset memory) = (out, None)"
  shows "fw_text out = bodyText w"
proof -
  let ?err = "''HttpAsyncClient header space is finished''"
  obtain o1 o2 o3 where steps: "appendParts w ?err (mw_parts w) (fw_reset memory) = (o1, None)" "fw_append ''--'' ?err o1 = (o2, None)"
      "fw_append (mw_boundary w) ?err o2 = (o3, None)" "fw_append (''--'' @ [CR, LF]) ?err o3 = (out, None)"
    using assms unfolding appendMultipartBody_def Let_def by (elim sc_try_cases) auto
  note written = steps(2-4) [THEN fw_append_ok]
  show ?thesis
    unfolding written appendParts_text [OF steps(1)] by (simp add: bodyText_def fw_reset_def)
qed

lemma length_partBytes: "length (partBytes (mw_boundary w) p) = partLength w p"
  by (simp add: partBytes_def partLength_def partText_def writtenLines_def lineText_def quoted_def)

lemma length_bodyText: "length (bodyText w) = mw_getContentLength w"
  by (simp add: bodyText_def mw_getContentLength_def length_concat length_partBytes comp_def)

text \<open>The text as the parser's theorems write it.\<close>

lemma sections_text:
  "[CR, LF] @ concat (map (partBytes B) ps) @ ''--'' @ B @ ''--'' @ z = sectionsText B (map (\<lambda>p. partText (writtenLines p) (wp_body p)) ps) @ z"
  by (induction ps) (simp_all add: sectionsText_def partBytes_def delimiter_def)

lemma bodyText_sections:
  assumes "mw_parts w = p # ps"
  shows "bodyText w = ''--'' @ mw_boundary w @ [CR, LF] @ partText (writtenLines p) (wp_body p) @
    sectionsText (mw_boundary w) (map (\<lambda>p. partText (writtenLines p) (wp_body p)) ps) @ [CR, LF]"
  using sections_text [of "mw_boundary w" ps "[CR, LF]"] by (simp add: bodyText_def assms partBytes_def partText_def)

lemma good_written:
  assumes "safePart p" "wp_contentType p = [] \<or> hd (wp_contentType p) \<noteq> CHR '' ''"
  shows "list_all goodLine (writtenLines p)"
  using assms by (auto simp: safePart_def writtenLines_def goodLine_def quoted_def)

section \<open>From the writer to the parser\<close>

text \<open>
  C15: a multipart body is written as long as its \<open>Content-Length\<close> says, and is parsed to its parts. For
  any boundary the writer takes and any parts it accepts, what is written has \<open>getContentLength()\<close> bytes,
  and the multipart parser, initialized with the boundary, reports the headers of the first part, with
  the names of the field and of the file, then pieces that are its body; the bytes of each further part,
  its headers included; and finishes, with the line break after the last boundary left. The bytes of a part
  may be any in which every carriage return is followed by something that tells it from a delimiter.
\<close>

theorem multipart_sent_received:
  assumes "mw_setBoundary B w0 = (w1, None)" "addParts (s # ss) w1 = (w, None)" "appendMultipartBody w (fw_reset memory) = (out, None)"
    and "wp_contentType (partOf s) = [] \<or> hd (wp_contentType (partOf s)) \<noteq> CHR '' ''"
    and "quiet B (wp_body (partOf s))" "list_all (quiet B) (map (\<lambda>s. partText (writtenLines (partOf s)) (wp_body (partOf s))) ss)"
  shows "writtenBytes out = mw_getContentLength w \<and>
    (\<exists>k pieces piecess q. m_events k (fst (initWithBoundary B new_multipart)) [] (fw_text out) =
       Some (headEvents B (writtenLines (partOf s)) @ pieceEvents pieces @
         concat (map (\<lambda>ps. (MBoundary, []) # pieceEvents ps) piecess) @ [(MFinishedToken, [])], q, [CR, LF]) \<and>
       concat pieces = wp_body (partOf s) \<and>
       map concat piecess = map (\<lambda>s. partText (writtenLines (partOf s)) (wp_body (partOf s))) ss \<and> m_state q = MFinished)"
proof -
  have w1: "w1 = \<lparr>mw_parts = [], mw_boundary = B\<rparr>" "goodBoundary B"
    using setBoundary_good [OF assms(1)] by simp_all
  have w: "mw_parts w = partOf s # map partOf ss" "mw_boundary w = B" "safePart (partOf s)"
    using addParts_adds [OF assms(2)] w1(1) by simp_all
  have body: "fw_text out = bodyText w"
    by (rule appendMultipartBody_text [OF assms(3)])
  then have len: "writtenBytes out = mw_getContentLength w"
    by (simp add: writtenBytes_def length_bodyText)
  have sent: "fw_text out = ''--'' @ B @ [CR, LF] @ partText (writtenLines (partOf s)) (wp_body (partOf s)) @
      sectionsText B (map (\<lambda>s. partText (writtenLines (partOf s)) (wp_body (partOf s))) ss) @ [CR, LF]"
    using bodyText_sections [OF w(1)] body w(2) by (simp add: comp_def)
  show ?thesis
    using len message_events [OF w1(2) good_written [OF w(3) assms(4)] assms(5,6), of "[CR, LF]"] unfolding sent by (rule conjI)
qed

definition sampleParts :: "partSpec list" where
  "sampleParts = [File ''up'' ''a.txt'' ''xy'' ''text/plain'', Field ''n'' ''v'']"

lemma sampleParts_written:
  "case mw_setBoundary ''B'' mw_reset of (w1, e) \<Rightarrow> e = None \<and>
     (case addParts sampleParts w1 of (w, e) \<Rightarrow> e = None \<and> snd (appendMultipartBody w (fw_reset 1024)) = None)"
  by code_simp

lemma quiet_sample: "quiet ''B'' ''xy''"
  "list_all (quiet ''B'') (map (\<lambda>s. partText (writtenLines (partOf s)) (wp_body (partOf s))) [Field ''n'' ''v''])"
  by (simp_all add: quiet_def delimiter_def partText_def writtenLines_def lineText_def quoted_def)

theorem multipart_sent_received_witness:
  "\<exists>w1 w out k pieces q es. mw_setBoundary ''B'' mw_reset = (w1, None) \<and> addParts sampleParts w1 = (w, None) \<and>
     appendMultipartBody w (fw_reset 1024) = (out, None) \<and> writtenBytes out = mw_getContentLength w \<and>
     m_events k (fst (initWithBoundary ''B'' new_multipart)) [] (fw_text out) =
       Some (headEvents ''B'' (writtenLines (partOf (hd sampleParts))) @ pieceEvents pieces @ es, q, [CR, LF]) \<and> concat pieces = ''xy''"
proof -
  obtain w1 w out where w: "mw_setBoundary ''B'' mw_reset = (w1, None)" "addParts sampleParts w1 = (w, None)"
      "appendMultipartBody w (fw_reset 1024) = (out, None)"
  proof -
    obtain w1 e1 where 1: "mw_setBoundary ''B'' mw_reset = (w1, e1)" by (rule prod.exhaust)
    obtain w e2 where 2: "addParts sampleParts w1 = (w, e2)" by (rule prod.exhaust)
    obtain out e3 where 3: "appendMultipartBody w (fw_reset 1024) = (out, e3)" by (rule prod.exhaust)
    show thesis
      by (rule that [of w1 w out]) (use sampleParts_written in \<open>simp_all add: 1 2 3\<close>)
  qed
  have plain: "hd (wp_contentType (partOf (File ''up'' ''a.txt'' ''xy'' ''text/plain''))) \<noteq> CHR '' ''"
    by simp
  have "quiet ''B'' (wp_body (partOf (File ''up'' ''a.txt'' ''xy'' ''text/plain'')))"
    using quiet_sample(1) by simp
  from multipart_sent_received [OF w(1) w(2) [unfolded sampleParts_def] w(3) disjI2 [OF plain] this quiet_sample(2)]
  obtain k pieces piecess q where r: "writtenBytes out = mw_getContentLength w" "m_events k (fst (initWithBoundary ''B'' new_multipart)) [] (fw_text out) =
      Some (headEvents ''B'' (writtenLines (partOf (File ''up'' ''a.txt'' ''xy'' ''text/plain''))) @ pieceEvents pieces @
        concat (map (\<lambda>ps. (MBoundary, []) # pieceEvents ps) piecess) @ [(MFinishedToken, [])], q, [CR, LF])"
      "concat pieces = wp_body (partOf (File ''up'' ''a.txt'' ''xy'' ''text/plain''))"
    by (elim conjE exE) (rule that; assumption)
  have same: "hd sampleParts = File ''up'' ''a.txt'' ''xy'' ''text/plain''" "wp_body (partOf (File ''up'' ''a.txt'' ''xy'' ''text/plain'')) = ''xy''"
    by (simp_all add: sampleParts_def)
  show ?thesis
    unfolding same(1) by (intro exI conjI) (rule w r r(3) [unfolded same(2)])+
qed

end
