(* ===== verification/HttpConnectionsPool.thy ===== *)
theory HttpConnectionsPool
  imports HttpOutgoing HttpParsedHeaders
begin

text \<open>
  \<open>HttpConnectionsPool\<close> of \<open>Libraries/Http/HttpConnection.h\<close> and \<open>HttpConnection.cpp\<close>: connections
  that are active or not, in an array of the caller, their number and the highest active one, which the
  server uses to tell how far the array may be shrunk; and the partition of memory among connections.
\<close>

section \<open>State\<close>

record poolConnection =
  cn_active :: bool
  cn_connectionID :: nat
  cn_headerMemory :: nat
  cn_webSocketUpgraded :: bool
  cn_requestCount :: nat
  cn_request :: parsedHeaders
  cn_requestBody :: body
  cn_response :: outgoing

record connectionsPool =
  connections :: "poolConnection list"
  numConnections :: nat
  highestActiveConnection :: nat

definition emptyPool :: connectionsPool where
  "emptyPool = \<lparr>connections = [], numConnections = 0, highestActiveConnection = 0\<rparr>"

text \<open>\<open>HttpConnection::reset\<close>. Request and response keep their header memory.\<close>

definition connection_reset :: "poolConnection \<Rightarrow> poolConnection" where
  "connection_reset c = c\<lparr>cn_request := headers_reset Request (cn_headerMemory c), cn_requestBody := resetIncoming, cn_response := out_reset (cn_response c),
     cn_active := False, cn_webSocketUpgraded := False\<rparr>"

text \<open>A connection as it is constructed, once it has header memory.\<close>

definition newConnection :: "nat \<Rightarrow> poolConnection" where
  "newConnection memory = \<lparr>cn_active = False, cn_connectionID = 0, cn_headerMemory = memory, cn_webSocketUpgraded = False,
     cn_requestCount = 0, cn_request = headers_reset Request memory, cn_requestBody = resetIncoming,
     cn_response = out_reset
       \<lparr>responseHeaders = fw_reset memory, headersSent = False, endCalled = False, forceDisableKeepAlive = False, o_keepAlive = True,
        connectionHeaderAdded = False, hostHeaderAdded = False, userAgentHeaderAdded = False, contentLengthAdded = False,
        contentTypeAdded = False, transferEncodingAdded = False, contentEncodingAdded = False, acceptEncodingAdded = False,
        chunkedTransferEncodingEnabled = False, writableStream = ToDestination, chunkedWritableStream = cw_init, o_dest = [],
        o_destEnded = False\<rparr>\<rparr>"

section \<open>Operations\<close>

definition pool_init :: "poolConnection list \<Rightarrow> connectionsPool \<Rightarrow> connectionsPool tried" where
  "pool_init storage p =
     sc_try_msg (numConnections p = 0) ''HttpConnectionsPool::init - numConnections != 0'' p (\<lambda>p.
     if list_ex (\<lambda>c. cn_headerMemory c = 0) storage then (p, Some ''HttpConnection::headerMemory is empty'')
     else (p\<lparr>connections := storage\<rparr>, None))"

definition pool_close :: "connectionsPool \<Rightarrow> connectionsPool tried" where
  "pool_close p =
     sc_try_msg (numConnections p = 0) ''HttpConnectionsPool::close - numConnections != 0'' p (\<lambda>p.
     (p\<lparr>connections := []\<rparr>, None))"

text \<open>The first index from \<open>idx\<close> on whose connection is inactive.\<close>

fun firstInactive :: "nat \<Rightarrow> poolConnection list \<Rightarrow> nat option" where
  "firstInactive idx [] = None"
| "firstInactive idx (c # cs) = (if \<not> cn_active c then Some idx else firstInactive (Suc idx) cs)"

definition activateAt :: "nat \<Rightarrow> connectionsPool \<Rightarrow> connectionsPool" where
  "activateAt idx p =
     (let c = (connections p ! idx)\<lparr>cn_active := True, cn_connectionID := idx\<rparr>;
          c1 = c\<lparr>cn_request := headers_reset Request (cn_headerMemory c), cn_requestBody := resetIncoming,
            cn_response := out_setHeaderMemory (cn_headerMemory c) (cn_response c)\<rparr>;
          num = numConnections p + 1;
          c2 = (if num = length (connections p) then c1\<lparr>cn_response := (cn_response c1)\<lparr>forceDisableKeepAlive := True\<rparr>\<rparr> else c1) in
      p\<lparr>connections := (connections p)[idx := c2], numConnections := num,
        highestActiveConnection := (if idx > highestActiveConnection p then idx else highestActiveConnection p)\<rparr>)"

definition activateNew :: "connectionsPool \<Rightarrow> connectionsPool \<times> nat option" where
  "activateNew p = (case firstInactive 0 (connections p) of None \<Rightarrow> (p, None) | Some idx \<Rightarrow> (activateAt idx p, Some idx))"

text \<open>The loop that lowers \<open>highestActiveConnection\<close>.\<close>

fun lowerHighest :: "poolConnection list \<Rightarrow> nat \<Rightarrow> nat" where
  "lowerHighest cs 0 = 0"
| "lowerHighest cs (Suc h) = (if \<not> cn_active (cs ! Suc h) then lowerHighest cs h else Suc h)"

text \<open>\<open>index\<close> is in the array: it comes from \<open>activateNew\<close>.\<close>

definition deactivate :: "nat \<Rightarrow> connectionsPool \<Rightarrow> connectionsPool \<times> bool" where
  "deactivate index p =
     (if \<not> cn_active (connections p ! index) then (p, False)
      else
        (let cs = (connections p)[index := connection_reset (connections p ! index)];
             num = numConnections p - 1 in
         (p\<lparr>connections := cs, numConnections := num,
            highestActiveConnection :=
              (if num = 0 then 0
               else if index = highestActiveConnection p then lowerHighest cs (highestActiveConnection p)
               else highestActiveConnection p)\<rparr>, True)))"

section \<open>Memory\<close>

record poolConfiguration =
  readQueueSize :: nat
  writeQueueSize :: nat
  buffersQueueSize :: nat
  headerBytesLength :: nat
  streamBytesLength :: nat

text \<open>The sizes of the arrays that are distributed.\<close>

record poolMemory =
  allReadQueue :: nat
  allWriteQueue :: nat
  allBuffers :: nat
  allHeaders :: nat
  allStreams :: nat

text \<open>
  What one connection gets: places in the arrays as offset and length, and for the buffers written,
  their place in the array of buffers and the slice of the stream memory each one covers.
\<close>

record assignment =
  as_buffers :: "nat \<times> nat"
  as_headers :: "nat \<times> nat"
  as_readQueue :: "nat \<times> nat"
  as_writeQueue :: "nat \<times> nat"
  as_slices :: "(nat \<times> nat \<times> nat) list"

datatype assignOutcome = Assigned "assignment list" | AssignError string | AssignCrash

definition assignOne :: "poolConfiguration \<Rightarrow> nat \<Rightarrow> assignment" where
  "assignOne conf idx =
     (let SliceLength = streamBytesLength conf div readQueueSize conf in
      \<lparr>as_buffers = (idx * buffersQueueSize conf, buffersQueueSize conf),
       as_headers = (idx * headerBytesLength conf, headerBytesLength conf),
       as_readQueue = (idx * readQueueSize conf, readQueueSize conf),
       as_writeQueue = (idx * writeQueueSize conf, writeQueueSize conf),
       as_slices = map (\<lambda>sliceIdx. (idx * buffersQueueSize conf + sliceIdx,
          idx * streamBytesLength conf + sliceIdx * SliceLength, SliceLength)) [0 ..< readQueueSize conf]\<rparr>)"

text \<open>
  \<open>assignTo\<close>. The slices taken of the arrays are inside them after the checks at its start. Dividing by
  a queue size of zero stops the program. Products of sizes are taken not to exceed \<open>size_t\<close>.
\<close>

definition assignTo :: "poolMemory \<Rightarrow> poolConfiguration \<Rightarrow> nat \<Rightarrow> assignOutcome" where
  "assignTo mem conf numClients =
     (if \<not> allReadQueue mem \<ge> numClients * readQueueSize conf then AssignError ''Insufficient read queue''
      else if \<not> allWriteQueue mem \<ge> numClients * writeQueueSize conf then AssignError ''Insufficient write queue''
      else if \<not> allBuffers mem \<ge> numClients * buffersQueueSize conf then AssignError ''Insufficient buffers queue''
      else if \<not> allHeaders mem \<ge> numClients * headerBytesLength conf then AssignError ''Insufficient headers storage''
      else if \<not> allStreams mem \<ge> numClients * streamBytesLength conf then AssignError ''Insufficient streams storage''
      else if numClients > 0 \<and> readQueueSize conf = 0 then AssignCrash
      else Assigned (map (assignOne conf) [0 ..< numClients]))"

end
