(* ===== verification/HttpAsyncServer.thy ===== *)
theory HttpAsyncServer
  imports HttpConnectionsPool
begin

text \<open>
  \<open>HttpAsyncServer\<close> of \<open>Libraries/Http/HttpAsyncServer.h\<close> and \<open>HttpAsyncServer.cpp\<close>: the life of the
  connections of a server, from accepting a client to reusing its place, without a transport of its own.

  Of the streams of a connection the model has what the server asks them and what it registers with
  them: their life, and how often each listener is registered. An event calls the listeners that are
  registered when it starts, each of which first removes itself. Whether the requests of the sockets are
  idle (\<open>request.isFree()\<close>), so that a stream is destroyed at once, comes from the event loop and is a
  parameter of the handlers that destroy streams. The application is a function on the response.
\<close>

section \<open>State\<close>

datatype serverState = ServerStopped | ServerStarted | ServerStopping

text \<open>\<open>LifeEnded\<close>: no more data will come, but some is still queued. \<open>LifeClosing\<close>: destruction is under way.\<close>

datatype streamLife = LifeOpen | LifeEnded | LifeClosing | LifeDestroyed

record connectionStreams =
  cs_readable :: streamLife
  cs_writable :: streamLife
  cs_data :: nat
  cs_bodyData :: nat
  cs_end :: nat
  cs_close :: nat
  cs_finish :: nat
  cs_onReadClose :: nat
  cs_onWriteClose :: nat

record asyncServer =
  sv_state :: serverState
  sv_pool :: connectionsPool
  sv_accepting :: bool
  sv_maxHeaderSize :: nat
  sv_maxRequests :: nat
  sv_streams :: "connectionStreams list"
  sv_errors :: "string list"

definition connectionAt :: "nat \<Rightarrow> asyncServer \<Rightarrow> poolConnection" where
  "connectionAt i s = connections (sv_pool s) ! i"

definition onConnection :: "nat \<Rightarrow> (poolConnection \<Rightarrow> poolConnection) \<Rightarrow> asyncServer \<Rightarrow> asyncServer" where
  "onConnection i f s = s\<lparr>sv_pool := (sv_pool s)\<lparr>connections := (connections (sv_pool s))[i := f (connectionAt i s)]\<rparr>\<rparr>"

definition onStreams :: "nat \<Rightarrow> (connectionStreams \<Rightarrow> connectionStreams) \<Rightarrow> asyncServer \<Rightarrow> asyncServer" where
  "onStreams i f s = s\<lparr>sv_streams := (sv_streams s)[i := f (sv_streams s ! i)]\<rparr>"

text \<open>\<open>onError\<close>, which the application may have set.\<close>

definition reportError :: "string \<Rightarrow> asyncServer \<Rightarrow> asyncServer" where
  "reportError e s = s\<lparr>sv_errors := sv_errors s @ [e]\<rparr>"

section \<open>Setting up\<close>

text \<open>The sizes of a connection's queues and the number of its buffers, which \<open>initInternal\<close> asks for.\<close>

record connectionQueues =
  cq_readQueue :: nat
  cq_writeQueue :: nat
  cq_buffers :: nat

fun checkQueues :: "connectionQueues list \<Rightarrow> string option" where
  "checkQueues [] = None"
| "checkQueues (q # qs) =
     (if cq_readQueue q = 0 then Some ''HttpConnection::readableSocketStream::readQueue is empty''
      else if cq_writeQueue q = 0 then Some ''HttpConnection::writableSocketStream::writeQueue is empty''
      else if \<not> cq_buffers q > 0 then Some ''HttpAsyncServer - AsyncBuffersPool is empty''
      else checkQueues qs)"

text \<open>\<open>queues\<close> are those of the connections in \<open>storage\<close>.\<close>

definition initInternal :: "connectionQueues list \<Rightarrow> poolConnection list \<Rightarrow> asyncServer \<Rightarrow> asyncServer tried" where
  "initInternal queues storage s =
     (case checkQueues queues of
        Some e \<Rightarrow> (s, Some e)
      | None \<Rightarrow> (case pool_init storage (sv_pool s) of (p, e) \<Rightarrow> (s\<lparr>sv_pool := p\<rparr>, e)))"

text \<open>
  \<open>sameAddress\<close> says whether the storage begins where the present one does; it then holds the same
  connections as far as both reach.
\<close>

definition resizeInternal :: "bool \<Rightarrow> connectionQueues list \<Rightarrow> poolConnection list \<Rightarrow> asyncServer \<Rightarrow> asyncServer tried" where
  "resizeInternal sameAddress queues storage s =
     (if length (connections (sv_pool s)) > 0 \<and> storage \<noteq> [] \<and> \<not> sameAddress
      then (s, Some ''HttpAsyncServer::resize changed address'')
      else sc_try_msg (length storage > highestActiveConnection (sv_pool s)) ''HttpAsyncServer::resize connection in use'' s
             (initInternal queues storage))"

text \<open>\<open>started\<close> is the error of the socket operations of \<open>start\<close>, if one fails.\<close>

definition server_start :: "string option \<Rightarrow> asyncServer \<Rightarrow> asyncServer tried" where
  "server_start started s =
     sc_try_msg (sv_state s = ServerStopped) ''HttpAsyncServer::start requires stopped state'' s (\<lambda>s.
     sc_try_msg (length (connections (sv_pool s)) > 0) ''HttpAsyncServer::start - init not called'' s (\<lambda>s.
     (case started of Some e \<Rightarrow> (s, Some e) | None \<Rightarrow> (s\<lparr>sv_accepting := True, sv_state := ServerStarted\<rparr>, None))))"

section \<open>Closing\<close>

definition deactivateConnection :: "nat \<Rightarrow> asyncServer \<Rightarrow> asyncServer" where
  "deactivateConnection i s =
     (let wasFull = (numConnections (sv_pool s) = length (connections (sv_pool s)));
          s1 = s\<lparr>sv_pool := fst (deactivate i (sv_pool s))\<rparr> in
      if wasFull \<and> sv_state s1 = ServerStarted then s1\<lparr>sv_accepting := True\<rparr> else s1)"

text \<open>A stream is destroyed: its \<open>eventClose\<close> and the listeners \<open>closeAsync\<close> has registered.\<close>

definition readDestroyed :: "nat \<Rightarrow> asyncServer \<Rightarrow> asyncServer" where
  "readDestroyed i s =
     (let n = cs_onReadClose (sv_streams s ! i);
          s1 = onStreams i (\<lambda>c. c\<lparr>cs_readable := LifeDestroyed, cs_onReadClose := 0\<rparr>) s in
      if n > 0 \<and> cs_writable (sv_streams s1 ! i) = LifeDestroyed \<and> cn_active (connectionAt i s1)
      then deactivateConnection i s1 else s1)"

definition writeDestroyed :: "nat \<Rightarrow> asyncServer \<Rightarrow> asyncServer" where
  "writeDestroyed i s =
     (let n = cs_onWriteClose (sv_streams s ! i);
          s1 = onStreams i (\<lambda>c. c\<lparr>cs_writable := LifeDestroyed, cs_onWriteClose := 0\<rparr>) s in
      if n > 0 \<and> cs_readable (sv_streams s1 ! i) = LifeDestroyed \<and> cn_active (connectionAt i s1)
      then deactivateConnection i s1 else s1)"

text \<open>A stream that has not been destroyed: listen to its \<open>eventClose\<close>, then \<open>destroy\<close> it, unless that is under way.\<close>

definition closeReadable :: "bool \<Rightarrow> nat \<Rightarrow> asyncServer \<Rightarrow> asyncServer" where
  "closeReadable readFree i s =
     (let t = onStreams i (\<lambda>c. c\<lparr>cs_onReadClose := cs_onReadClose c + 1\<rparr>) s in
      if cs_readable (sv_streams t ! i) = LifeClosing then t
      else if readFree then readDestroyed i t
      else onStreams i (\<lambda>c. c\<lparr>cs_readable := LifeClosing\<rparr>) t)"

definition closeWritable :: "bool \<Rightarrow> nat \<Rightarrow> asyncServer \<Rightarrow> asyncServer" where
  "closeWritable writeFree i s =
     (let t = onStreams i (\<lambda>c. c\<lparr>cs_onWriteClose := cs_onWriteClose c + 1\<rparr>) s in
      if cs_writable (sv_streams t ! i) = LifeClosing then t
      else if writeFree then writeDestroyed i t
      else onStreams i (\<lambda>c. c\<lparr>cs_writable := LifeClosing\<rparr>) t)"

definition closeAsync :: "bool \<Rightarrow> bool \<Rightarrow> nat \<Rightarrow> asyncServer \<Rightarrow> asyncServer" where
  "closeAsync readFree writeFree i s =
     (if \<not> cn_active (connectionAt i s) then s
      else
        (let s1 = onConnection i (\<lambda>c. c\<lparr>cn_requestCount := 0\<rparr>) s;
             s2 = onStreams i (\<lambda>c. c\<lparr>cs_data := cs_data c - 1, cs_bodyData := cs_bodyData c - 1, cs_end := cs_end c - 1,
                    cs_close := cs_close c - 1\<rparr>) s1;
             readWasDestroyed = (cs_readable (sv_streams s2 ! i) = LifeDestroyed);
             writeWasDestroyed = (cs_writable (sv_streams s2 ! i) = LifeDestroyed);
             s3 = (if \<not> readWasDestroyed then closeReadable readFree i s2 else s2);
             s4 = (if \<not> writeWasDestroyed then closeWritable writeFree i s3 else s3) in
         if readWasDestroyed \<and> writeWasDestroyed then deactivateConnection i s4 else s4))"

section \<open>Accepting\<close>

text \<open>The streams of a client that has just been accepted; listeners of earlier clients stay registered.\<close>

definition beginHttpConnection :: "nat \<Rightarrow> asyncServer \<Rightarrow> asyncServer" where
  "beginHttpConnection i s = onStreams i (\<lambda>c. c\<lparr>cs_data := cs_data c + 1\<rparr>) s"

text \<open>\<open>None\<close> is the failure of an assertion, \<open>e\<close> the error of accepting.\<close>

definition onNewClient :: "string option \<Rightarrow> asyncServer \<Rightarrow> asyncServer option" where
  "onNewClient e s =
     (case e of
        Some msg \<Rightarrow> Some (reportError msg (s\<lparr>sv_accepting := False\<rparr>))
      | None \<Rightarrow>
          (case activateNew (sv_pool s) of
             (p, None) \<Rightarrow> None
           | (p, Some i) \<Rightarrow>
               (let s1 = onStreams i (\<lambda>c. c\<lparr>cs_readable := LifeOpen, cs_writable := LifeOpen\<rparr>) (s\<lparr>sv_pool := p\<rparr>);
                    s2 = beginHttpConnection i s1 in
                Some (s2\<lparr>sv_accepting := (numConnections (sv_pool s2) < length (connections (sv_pool s2)))\<rparr>))))"

section \<open>Requests and responses\<close>

text \<open>\<open>unshiftOk\<close>: whether the stream takes back the bytes behind the head.\<close>

definition onStreamReceive :: "bool \<Rightarrow> (outgoing \<Rightarrow> outgoing \<times> bool) \<Rightarrow> bool \<Rightarrow> bool \<Rightarrow> char list \<Rightarrow> nat \<Rightarrow> asyncServer \<Rightarrow> asyncServer" where
  "onStreamReceive unshiftOk onRequest readFree writeFree readData i s =
     (case request_writeHeaders (sv_maxHeaderSize s) readData (\<lambda>d u. if unshiftOk then Some u else None) (cn_request (connectionAt i s), ()) of
        ((p, _), _, Some e) \<Rightarrow> closeAsync readFree writeFree i (reportError e (onConnection i (\<lambda>c. c\<lparr>cn_request := p\<rparr>) s))
      | ((p, _), _, None) \<Rightarrow>
          (let s1 = onConnection i (\<lambda>c. c\<lparr>cn_request := p\<rparr>) s in
           if \<not> headersEndReceived p then s1
           else
             (let s2 = onConnection i (\<lambda>c. c\<lparr>cn_response := out_reset (out_setHeaderMemory (availableHeader p) (cn_response c))\<rparr>) s1;
                  s3 = onStreams i (\<lambda>c. c\<lparr>cs_data := cs_data c - 1,
                         cs_end := (if cn_requestCount (connectionAt i s2) > 0 then cs_end c - 1 else cs_end c)\<rparr>) s2 in
              case prepareBodyStream p False (cn_requestBody (connectionAt i s3)) of
                (b, Some e) \<Rightarrow> closeAsync readFree writeFree i (reportError e (onConnection i (\<lambda>c. c\<lparr>cn_requestBody := b\<rparr>) s3))
              | (b, None) \<Rightarrow>
                  (let s4 = onConnection i (\<lambda>c. c\<lparr>cn_requestBody := b\<rparr>) s3;
                       s5 = (if bodyFramingKind b = Chunked \<or> bodyFramingKind b = FixedLength
                             then onStreams i (\<lambda>c. c\<lparr>cs_bodyData := cs_bodyData c + 1\<rparr>) s4 else s4);
                       (response, upgraded) = onRequest (cn_response (connectionAt i s5));
                       s6 = onConnection i (\<lambda>c. c\<lparr>cn_response := response, cn_webSocketUpgraded := cn_webSocketUpgraded c \<or> upgraded\<rparr>) s5 in
                   if cn_webSocketUpgraded (connectionAt i s6) then onStreams i (\<lambda>c. c\<lparr>cs_close := cs_close c + 1\<rparr>) s6
                   else onStreams i (\<lambda>c. c\<lparr>cs_finish := cs_finish c + 1\<rparr>) s6))))"

text \<open>A part of the body has been delivered (\<open>e\<close> its error), and \<open>b\<close> is the body's state then.\<close>

definition onRequestBodyData :: "bool \<Rightarrow> bool \<Rightarrow> body \<Rightarrow> string option \<Rightarrow> nat \<Rightarrow> asyncServer \<Rightarrow> asyncServer" where
  "onRequestBodyData readFree writeFree b e i s =
     (let s1 = onConnection i (\<lambda>c. c\<lparr>cn_requestBody := b\<rparr>) s in
      case e of
        Some msg \<Rightarrow> closeAsync readFree writeFree i (reportError msg s1)
      | None \<Rightarrow> if bodyComplete b then onStreams i (\<lambda>c. c\<lparr>cs_bodyData := cs_bodyData c - 1\<rparr>) s1 else s1)"

text \<open>One call of \<open>AfterWrite\<close>.\<close>

definition afterWrite :: "bool \<Rightarrow> bool \<Rightarrow> nat \<Rightarrow> asyncServer \<Rightarrow> asyncServer" where
  "afterWrite readFree writeFree i s =
     (let s0 = onStreams i (\<lambda>c. c\<lparr>cs_finish := cs_finish c - 1\<rparr>) s;
          c = connectionAt i s0;
          underMaxRequests = (sv_maxRequests s0 = 0 \<or> cn_requestCount c + 1 < sv_maxRequests s0);
          shouldKeepAlive = (getKeepAlive (cn_response c) \<and> underMaxRequests \<and>
             \<not> (cs_readable (sv_streams s0 ! i) = LifeEnded \<or> cs_readable (sv_streams s0 ! i) = LifeDestroyed)) in
      if shouldKeepAlive \<and> sv_state s0 = ServerStarted
      then
        (let s1 = onConnection i (\<lambda>c. c\<lparr>cn_requestCount := cn_requestCount c + 1, cn_request := headers_reset Request (cn_headerMemory c),
                    cn_requestBody := resetIncoming, cn_response := out_reset (cn_response c)\<rparr>) s0 in
         onStreams i (\<lambda>c. c\<lparr>cs_data := cs_data c + 1, cs_end := cs_end c + 1\<rparr>) s1)
      else closeAsync readFree writeFree i s0)"

text \<open>\<open>eventFinish\<close> calls every \<open>AfterWrite\<close> that is registered when it is emitted.\<close>

definition onResponseFinished :: "bool \<Rightarrow> bool \<Rightarrow> nat \<Rightarrow> asyncServer \<Rightarrow> asyncServer" where
  "onResponseFinished readFree writeFree i s = (afterWrite readFree writeFree i ^^ cs_finish (sv_streams s ! i)) s"

section \<open>The peer\<close>

text \<open>One call of \<open>EventEndListener\<close>; it does not remove itself.\<close>

definition onStreamEnd :: "bool \<Rightarrow> bool \<Rightarrow> nat \<Rightarrow> asyncServer \<Rightarrow> asyncServer" where
  "onStreamEnd readFree writeFree i s =
     (if headersEndReceived (cn_request (connectionAt i s)) \<and> bodyComplete (cn_requestBody (connectionAt i s)) then s
      else closeAsync readFree writeFree i s)"

text \<open>The readable stream has been destroyed while no \<open>closeAsync\<close> was under way, or has finished closing.\<close>

definition onReadableClosed :: "bool \<Rightarrow> nat \<Rightarrow> asyncServer \<Rightarrow> asyncServer" where
  "onReadableClosed writeFree i s =
     (let s1 = readDestroyed i s in
      if cs_close (sv_streams s ! i) > 0 then closeAsync True writeFree i s1 else s1)"

text \<open>
  The peer has ended its side: \<open>pushEnd\<close> emits \<open>eventEnd\<close> in the state \<open>Ended\<close>, then the stream, if
  nothing is queued and it has not been destroyed by then, destroys itself and emits \<open>eventClose\<close>.
\<close>

definition onPeerEnd :: "bool \<Rightarrow> bool \<Rightarrow> nat \<Rightarrow> asyncServer \<Rightarrow> asyncServer" where
  "onPeerEnd queued writeFree i s =
     (let s1 = onStreams i (\<lambda>c. c\<lparr>cs_readable := LifeEnded\<rparr>) s;
          s2 = (onStreamEnd True writeFree i ^^ cs_end (sv_streams s1 ! i)) s1 in
      if \<not> queued \<and> cs_readable (sv_streams s2 ! i) = LifeEnded then onReadableClosed writeFree i s2 else s2)"

section \<open>Stopping\<close>

fun closeAll :: "(nat \<Rightarrow> bool) \<Rightarrow> (nat \<Rightarrow> bool) \<Rightarrow> nat list \<Rightarrow> asyncServer \<Rightarrow> asyncServer" where
  "closeAll rf wfree [] s = s"
| "closeAll rf wfree (i # is) s = closeAll rf wfree is (closeAsync (rf i) (wfree i) i s)"

definition server_stop :: "(nat \<Rightarrow> bool) \<Rightarrow> (nat \<Rightarrow> bool) \<Rightarrow> asyncServer \<Rightarrow> asyncServer tried" where
  "server_stop rf wfree s =
     sc_try_msg (sv_state s = ServerStarted) ''HttpAsyncServer::stop requires started state'' s (\<lambda>s.
     (closeAll rf wfree [0 ..< length (connections (sv_pool s))] (s\<lparr>sv_state := ServerStopping, sv_accepting := False\<rparr>), None))"

text \<open>\<open>close\<close>, once \<open>waitForStopToFinish\<close> has run the event loop until no connection is active.\<close>

definition server_close :: "asyncServer \<Rightarrow> asyncServer tried" where
  "server_close s =
     sc_try_msg (sv_state s = ServerStopping) ''HttpAsyncServer::close requires stop before close'' s (\<lambda>s.
     (case pool_close (sv_pool s) of (p, e) \<Rightarrow> (s\<lparr>sv_state := ServerStopped, sv_pool := p\<rparr>, e)))"

section \<open>Steps\<close>

text \<open>
  What can happen to a server that has been started: the events of its sockets and streams, with any
  data, any application and any outcome of the operations that are left to the event loop, and \<open>stop\<close>.
\<close>

inductive server_step :: "asyncServer \<Rightarrow> asyncServer \<Rightarrow> bool" where
  accepted: "sv_accepting s \<Longrightarrow> onNewClient e s = Some s' \<Longrightarrow> server_step s s'"
| received: "i < length (sv_streams s) \<Longrightarrow> cs_data (sv_streams s ! i) > 0 \<Longrightarrow> cs_readable (sv_streams s ! i) \<in> {LifeOpen, LifeEnded} \<Longrightarrow>
    server_step s ((onStreamReceive u app rf wr d i ^^ cs_data (sv_streams s ! i)) s)"
| bodyReceived: "i < length (sv_streams s) \<Longrightarrow> cs_bodyData (sv_streams s ! i) > 0 \<Longrightarrow> cs_readable (sv_streams s ! i) \<in> {LifeOpen, LifeEnded} \<Longrightarrow>
    server_step s ((onRequestBodyData rf wr b e i ^^ cs_bodyData (sv_streams s ! i)) s)"
| responded: "i < length (sv_streams s) \<Longrightarrow> cs_finish (sv_streams s ! i) > 0 \<Longrightarrow> cs_writable (sv_streams s ! i) = LifeOpen \<Longrightarrow>
    server_step s (onResponseFinished rf wr i s)"
| peerEnded: "i < length (sv_streams s) \<Longrightarrow> cs_readable (sv_streams s ! i) = LifeOpen \<Longrightarrow> server_step s (onPeerEnd q wr i s)"
| readClosed: "i < length (sv_streams s) \<Longrightarrow> cs_readable (sv_streams s ! i) \<in> {LifeEnded, LifeClosing} \<Longrightarrow>
    server_step s (onReadableClosed wr i s)"
| writeClosed: "i < length (sv_streams s) \<Longrightarrow> cs_writable (sv_streams s ! i) = LifeClosing \<Longrightarrow> server_step s (writeDestroyed i s)"
| stopped: "server_stop rfs wrs s = (s', None) \<Longrightarrow> server_step s s'"

end
