(* ===== verification/HttpConnectionsPoolProps.thy ===== *)
theory HttpConnectionsPoolProps
  imports HttpConnectionsPool
begin

text \<open>
  The pool of connections implements a set of active indices: what each operation does to the set, and
  that the counters agree with it. The memory distributed to the connections does not overlap.
\<close>

section \<open>The set of active connections\<close>

definition activeSet :: "connectionsPool \<Rightarrow> nat set" where
  "activeSet p = {i. i < length (connections p) \<and> cn_active (connections p ! i)}"

definition pool_ok :: "connectionsPool \<Rightarrow> bool" where
  "pool_ok p \<longleftrightarrow> numConnections p = card (activeSet p) \<and>
     highestActiveConnection p = (if activeSet p = {} then 0 else Max (activeSet p))"

lemma finite_activeSet [simp, intro]: "finite (activeSet p)"
  by (simp add: activeSet_def)

lemma activeSet_bound: "i \<in> activeSet p \<Longrightarrow> i < length (connections p)"
  by (simp add: activeSet_def)

lemma card_activeSet: "card (activeSet p) \<le> length (connections p)"
  using card_mono [of "{..< length (connections p)}" "activeSet p"] activeSet_bound [of _ p] by auto

lemma full_iff: "card (activeSet p) = length (connections p) \<longleftrightarrow> activeSet p = {..< length (connections p)}"
proof
  assume "card (activeSet p) = length (connections p)"
  then show "activeSet p = {..< length (connections p)}"
    using activeSet_bound [of _ p] by (intro card_subset_eq) auto
qed simp

text \<open>The first inactive connection is the least index that is not in the set.\<close>

lemma firstInactive_Some:
  assumes "firstInactive k cs = Some i"
  shows "k \<le> i \<and> i - k < length cs \<and> \<not> cn_active (cs ! (i - k)) \<and> (\<forall>j < i - k. cn_active (cs ! j))"
  using assms
proof (induction cs arbitrary: k)
  case (Cons c cs)
  show ?case
  proof (cases "cn_active c")
    case True
    have "Suc k \<le> i \<and> i - Suc k < length cs \<and> \<not> cn_active (cs ! (i - Suc k)) \<and> (\<forall>j < i - Suc k. cn_active (cs ! j))"
      using Cons.IH Cons.prems True by simp
    moreover from this have "i - k = Suc (i - Suc k)"
      by auto
    ultimately show ?thesis
      using True by (auto simp: less_Suc_eq_0_disj)
  next
    case False
    then show ?thesis
      using Cons.prems by simp
  qed
qed simp

lemma firstInactive_None: "firstInactive k cs = None \<longleftrightarrow> list_all cn_active cs"
  by (induction cs arbitrary: k) auto

lemma activateNew_None: "snd (activateNew p) = None \<longleftrightarrow> activeSet p = {..< length (connections p)}"
  using firstInactive_None [of 0 "connections p"]
  by (auto simp: activateNew_def activeSet_def list_all_length split: option.splits)

lemma activateAt_connections:
  assumes "i < length (connections p)"
  shows "length (connections (activateAt i p)) = length (connections p)"
    "activeSet (activateAt i p) = insert i (activeSet p)"
  using assms by (auto simp: activateAt_def activeSet_def Let_def nth_list_update)

lemma activateNew_Some:
  assumes "activateNew p = (p', Some i)"
  shows "i \<notin> activeSet p" "i < length (connections p)" "\<forall>j < i. j \<in> activeSet p" "p' = activateAt i p"
    "activeSet p' = insert i (activeSet p)" "length (connections p') = length (connections p)"
proof -
  have first: "firstInactive 0 (connections p) = Some i" "p' = activateAt i p"
    using assms by (auto simp: activateNew_def split: option.splits)
  show "i \<notin> activeSet p" "i < length (connections p)" "\<forall>j < i. j \<in> activeSet p" "p' = activateAt i p"
    using firstInactive_Some [OF first(1)] first(2) by (auto simp: activeSet_def)
  then show "activeSet p' = insert i (activeSet p)" "length (connections p') = length (connections p)"
    using activateAt_connections [of i p] by simp_all
qed

lemma activateNew_ok:
  assumes "pool_ok p" "activateNew p = (p', Some i)"
  shows "pool_ok p'"
proof -
  note a = activateNew_Some [OF assms(2)]
  have "numConnections p' = numConnections p + 1" "highestActiveConnection p' = max i (highestActiveConnection p)"
    by (simp_all add: a(4) activateAt_def Let_def max_def)
  then show ?thesis
    using assms(1) a(1,5) by (auto simp: pool_ok_def Max_insert)
qed

lemma lowerHighest_Max:
  "lowerHighest cs h = (if {i. i \<le> h \<and> cn_active (cs ! i)} \<subseteq> {0} then 0 else Max {i. i \<le> h \<and> cn_active (cs ! i)})"
proof (induction h)
  case (Suc h)
  let ?A = "{i. i \<le> h \<and> cn_active (cs ! i)}"
  show ?case
  proof (cases "cn_active (cs ! Suc h)")
    case True
    then have "{i. i \<le> Suc h \<and> cn_active (cs ! i)} = insert (Suc h) ?A"
      by (auto simp: le_Suc_eq)
    moreover have "Max (insert (Suc h) ?A) = Suc h"
      by (intro Max_eqI) auto
    ultimately show ?thesis
      using True by simp
  next
    case False
    then have "{i. i \<le> Suc h \<and> cn_active (cs ! i)} = ?A"
      by (auto simp: le_Suc_eq)
    then show ?thesis
      using False Suc by simp
  qed
qed auto

lemma deactivate_active:
  assumes "i \<in> activeSet p"
  shows "snd (deactivate i p)" "activeSet (fst (deactivate i p)) = activeSet p - {i}"
    "length (connections (fst (deactivate i p))) = length (connections p)"
proof -
  have i: "i < length (connections p)" "cn_active (connections p ! i)"
    using assms by (simp_all add: activeSet_def)
  then show "snd (deactivate i p)" "length (connections (fst (deactivate i p))) = length (connections p)"
    by (simp_all add: deactivate_def Let_def)
  show "activeSet (fst (deactivate i p)) = activeSet p - {i}"
    using i by (auto simp: deactivate_def activeSet_def Let_def nth_list_update connection_reset_def)
qed

lemma deactivate_inactive: "\<not> cn_active (connections p ! i) \<Longrightarrow> deactivate i p = (p, False)"
  by (simp add: deactivate_def)

lemma deactivate_ok:
  assumes "pool_ok p" "i \<in> activeSet p"
  shows "pool_ok (fst (deactivate i p))"
proof -
  let ?q = "fst (deactivate i p)" and ?A = "activeSet p"
  let ?cs = "(connections p)[i := connection_reset (connections p ! i)]"
  have i: "i < length (connections p)" "cn_active (connections p ! i)"
    using assms(2) by (simp_all add: activeSet_def)
  have A: "activeSet ?q = ?A - {i}"
    by (rule deactivate_active(2) [OF assms(2)])
  have num: "numConnections ?q = card (?A - {i})"
    using assms i by (simp add: deactivate_def Let_def pool_ok_def)
  have high: "highestActiveConnection p = Max ?A"
    using assms by (auto simp: pool_ok_def)
  show ?thesis
  proof (cases "?A - {i} = {}")
    case True
    then have "numConnections p - 1 = 0"
      using num i by (simp add: deactivate_def Let_def)
    then show ?thesis
      using i num True unfolding pool_ok_def A by (simp add: deactivate_def Let_def)
  next
    case rest: False
    then have "card (?A - {i}) \<noteq> 0"
      by (metis card_0_eq finite_Diff finite_activeSet)
    then have pos: "numConnections p - 1 \<noteq> 0"
      using num i by (simp add: deactivate_def Let_def)
    show ?thesis
    proof (cases "i = Max ?A")
      case True
      have below: "{j. j \<le> Max ?A \<and> cn_active (?cs ! j)} = ?A - {i}"
        using i Max_ge [OF finite_activeSet, of _ p] Max_in [OF finite_activeSet, of p] assms(2) True
        by (auto simp: activeSet_def nth_list_update connection_reset_def)
      have "Max (?A - {i}) = 0" if "?A - {i} \<subseteq> {0}"
        using that rest by (metis Max_singleton subset_singletonD)
      then have "lowerHighest ?cs (Max ?A) = Max (?A - {i})"
        using lowerHighest_Max [of ?cs "Max ?A"] below by auto
      then show ?thesis
        using i num pos rest high True unfolding pool_ok_def A by (simp add: deactivate_def Let_def)
    next
      case False
      have "Max ?A \<in> ?A - {i}"
        using False Max_in [OF finite_activeSet, of p] assms(2) by blast
      then have "Max (?A - {i}) = Max ?A"
        by (intro Max_eqI) auto
      then show ?thesis
        using i num pos rest high False unfolding pool_ok_def A by (simp add: deactivate_def Let_def)
    qed
  qed
qed

section \<open>Refinement\<close>

text \<open>What a pool of \<open>n\<close> places does, on the set of the places that are taken.\<close>

definition spec_activate :: "nat \<Rightarrow> nat set \<Rightarrow> nat set \<times> nat option" where
  "spec_activate n A = (let free = {..< n} - A in if free = {} then (A, None) else (insert (Min free) A, Some (Min free)))"

definition spec_deactivate :: "nat \<Rightarrow> nat set \<Rightarrow> nat set \<times> bool" where
  "spec_deactivate i A = (A - {i}, i \<in> A)"

lemma activateNew_spec:
  "(activeSet (fst (activateNew p)), snd (activateNew p)) = spec_activate (length (connections p)) (activeSet p)"
proof (cases "snd (activateNew p)")
  case None
  then have "fst (activateNew p) = p"
    by (auto simp: activateNew_def split: option.splits)
  then show ?thesis
    using None activateNew_None [of p] by (simp add: spec_activate_def)
next
  case (Some i)
  then obtain p' where p': "activateNew p = (p', Some i)"
    by (metis prod.collapse)
  note a = activateNew_Some [OF p']
  have "Min ({..< length (connections p)} - activeSet p) = i"
    using a(1-3) by (intro Min_eqI) (auto simp: not_le [symmetric])
  then show ?thesis
    using a(1,2,5) by (auto simp: p' spec_activate_def Let_def)
qed

lemma deactivate_spec:
  assumes "i < length (connections p)"
  shows "(activeSet (fst (deactivate i p)), snd (deactivate i p)) = spec_deactivate i (activeSet p)"
proof (cases "cn_active (connections p ! i)")
  case True
  then have "i \<in> activeSet p"
    using assms by (simp add: activeSet_def)
  then show ?thesis
    using deactivate_active [of i p] by (simp add: spec_deactivate_def)
next
  case False
  then show ?thesis
    by (auto simp: deactivate_inactive spec_deactivate_def activeSet_def)
qed

lemma pool_ok_init:
  assumes "pool_ok p" "pool_init storage p = (p', None)" "\<forall>c\<in>set storage. \<not> cn_active c"
  shows "pool_ok p' \<and> activeSet p' = {}"
proof -
  have "numConnections p = 0" "p' = p\<lparr>connections := storage\<rparr>"
    using assms(2) by (auto simp: pool_init_def sc_try_msg_def split: if_splits)
  moreover have "activeSet p = {}"
    using assms(1) \<open>numConnections p = 0\<close> by (simp add: pool_ok_def)
  ultimately show ?thesis
    using assms(1,3) by (auto simp: pool_ok_def activeSet_def)
qed

text \<open>
  C9: the pool of connections refines a set of places. \<open>activateNew\<close> takes the least free place and fails
  only when there is none; \<open>deactivate\<close> frees a place and reports whether it was taken; after each of them
  \<open>numConnections\<close> is the number of places taken and \<open>highestActiveConnection\<close> the highest of them, or 0,
  so that no connection in use lies behind what \<open>resize\<close> takes for the end.
\<close>

theorem connections_pool_refines:
  assumes "pool_ok p" "i < length (connections p)"
  shows "(activeSet (fst (activateNew p)), snd (activateNew p)) = spec_activate (length (connections p)) (activeSet p) \<and>
    pool_ok (fst (activateNew p)) \<and>
    (activeSet (fst (deactivate i p)), snd (deactivate i p)) = spec_deactivate i (activeSet p) \<and>
    pool_ok (fst (deactivate i p)) \<and>
    numConnections p = card (activeSet p) \<and> (\<forall>j\<in>activeSet p. j \<le> highestActiveConnection p)"
proof (intro conjI)
  show "(activeSet (fst (activateNew p)), snd (activateNew p)) = spec_activate (length (connections p)) (activeSet p)"
    by (rule activateNew_spec)
  show "pool_ok (fst (activateNew p))"
  proof (cases "snd (activateNew p)")
    case None
    then have "fst (activateNew p) = p"
      by (auto simp: activateNew_def split: option.splits)
    then show ?thesis
      using assms(1) by simp
  next
    case (Some j)
    then show ?thesis
      using activateNew_ok [OF assms(1)] by (metis prod.collapse)
  qed
  show "(activeSet (fst (deactivate i p)), snd (deactivate i p)) = spec_deactivate i (activeSet p)"
    by (rule deactivate_spec [OF assms(2)])
  show "pool_ok (fst (deactivate i p))"
    using deactivate_ok [OF assms(1)] deactivate_inactive [of p i] assms by (cases "cn_active (connections p ! i)") (auto simp: activeSet_def)
  show "numConnections p = card (activeSet p)"
    using assms(1) by (simp add: pool_ok_def)
  show "\<forall>j\<in>activeSet p. j \<le> highestActiveConnection p"
    using assms(1) Max_ge [OF finite_activeSet] by (auto simp: pool_ok_def)
qed

section \<open>Memory\<close>

text \<open>Ranges, given as offset and length.\<close>

definition within :: "nat \<times> nat \<Rightarrow> nat \<Rightarrow> bool" where
  "within r n \<longleftrightarrow> fst r + snd r \<le> n"

definition before :: "nat \<times> nat \<Rightarrow> nat \<times> nat \<Rightarrow> bool" where
  "before r q \<longleftrightarrow> fst r + snd r \<le> fst q"

lemma slot_within: "(i :: nat) < n \<Longrightarrow> n * k \<le> m \<Longrightarrow> i * k + k \<le> m"
  using mult_le_mono1 [of "Suc i" n k] by simp

lemma slot_before: "(i :: nat) < j \<Longrightarrow> i * k + k \<le> j * k"
  using mult_le_mono1 [of "Suc i" j k] by simp

lemma assignOne_simps [simp]:
  "as_headers (assignOne conf i) = (i * headerBytesLength conf, headerBytesLength conf)"
  "as_buffers (assignOne conf i) = (i * buffersQueueSize conf, buffersQueueSize conf)"
  "as_readQueue (assignOne conf i) = (i * readQueueSize conf, readQueueSize conf)"
  "as_writeQueue (assignOne conf i) = (i * writeQueueSize conf, writeQueueSize conf)"
  by (simp_all add: assignOne_def Let_def)

lemma slice_within:
  assumes "(q :: nat) < n"
  shows "q * (m div n) + m div n \<le> m"
  using slot_within [OF assms, of "m div n" m] by (simp add: mult.commute)

text \<open>
  The memory distributed to connections does not overlap. When \<open>assignTo\<close> succeeds, every connection
  gets places of the configured sizes inside the arrays, those of a connection lie before those of the
  next, and the slices of its stream memory lie one before the other inside its own part. The buffers
  that hold the slices are the connection's own exactly when the configuration has at least as many
  buffers as reads can be queued, which \<open>assignTo\<close> does not check.
\<close>

theorem assigned_memory:
  assumes "assignTo mem conf n = Assigned as" "i < n"
  shows "length as = n \<and>
    within (as_headers (as ! i)) (allHeaders mem) \<and> within (as_buffers (as ! i)) (allBuffers mem) \<and>
    within (as_readQueue (as ! i)) (allReadQueue mem) \<and> within (as_writeQueue (as ! i)) (allWriteQueue mem) \<and>
    (\<forall>j. i < j \<and> j < n \<longrightarrow> before (as_headers (as ! i)) (as_headers (as ! j)) \<and> before (as_buffers (as ! i)) (as_buffers (as ! j)) \<and>
       before (as_readQueue (as ! i)) (as_readQueue (as ! j)) \<and> before (as_writeQueue (as ! i)) (as_writeQueue (as ! j))) \<and>
    length (as_slices (as ! i)) = readQueueSize conf \<and>
    (\<forall>q < readQueueSize conf. i * streamBytesLength conf \<le> fst (snd (as_slices (as ! i) ! q)) \<and>
       fst (snd (as_slices (as ! i) ! q)) + snd (snd (as_slices (as ! i) ! q)) \<le> Suc i * streamBytesLength conf \<and>
       (\<forall>r. q < r \<and> r < readQueueSize conf \<longrightarrow> before (snd (as_slices (as ! i) ! q)) (snd (as_slices (as ! i) ! r)))) \<and>
    ((\<forall>q < readQueueSize conf. fst (as_slices (as ! i) ! q) < fst (as_buffers (as ! i)) + snd (as_buffers (as ! i))) \<longleftrightarrow>
       readQueueSize conf \<le> buffersQueueSize conf)"
proof -
  let ?a = "assignOne conf i" and ?size = "streamBytesLength conf" and ?n = "readQueueSize conf"
  have ok: "n * readQueueSize conf \<le> allReadQueue mem" "n * writeQueueSize conf \<le> allWriteQueue mem" "n * buffersQueueSize conf \<le> allBuffers mem"
      "n * headerBytesLength conf \<le> allHeaders mem" and as: "as = map (assignOne conf) [0 ..< n]"
    using assms(1) by (auto simp: assignTo_def split: if_splits)
  have nth: "as ! j = assignOne conf j" if "j < n" for j
    using that by (simp add: as)
  have places: "within (as_headers ?a) (allHeaders mem)" "within (as_buffers ?a) (allBuffers mem)"
      "within (as_readQueue ?a) (allReadQueue mem)" "within (as_writeQueue ?a) (allWriteQueue mem)"
    using slot_within [OF assms(2)] ok by (simp_all add: within_def)
  have order: "before (as_headers ?a) (as_headers (as ! j)) \<and> before (as_buffers ?a) (as_buffers (as ! j)) \<and>
       before (as_readQueue ?a) (as_readQueue (as ! j)) \<and> before (as_writeQueue ?a) (as_writeQueue (as ! j))" if "i < j \<and> j < n" for j
    using that slot_before [of i j] nth [of j] by (simp add: before_def)
  have slice: "as_slices ?a ! q = (i * buffersQueueSize conf + q, i * ?size + q * (?size div ?n), ?size div ?n)" if "q < ?n" for q
    using that by (simp add: assignOne_def Let_def)
  have inside: "i * ?size + q * (?size div ?n) + ?size div ?n \<le> Suc i * ?size" if "q < ?n" for q
    using slice_within [OF that, of ?size] by simp
  have "fst (as_slices ?a ! q) < fst (as_buffers ?a) + snd (as_buffers ?a) \<longleftrightarrow> q < buffersQueueSize conf" if "q < ?n" for q
    using slice [OF that] by simp
  moreover have "(\<forall>q < a. q < b) \<longleftrightarrow> a \<le> b" for a b :: nat
    by (meson leI less_irrefl order_less_le_trans)
  ultimately have own: "(\<forall>q < ?n. fst (as_slices ?a ! q) < fst (as_buffers ?a) + snd (as_buffers ?a)) \<longleftrightarrow> ?n \<le> buffersQueueSize conf"
    by simp
  show ?thesis
    unfolding nth [OF assms(2)]
  proof (intro conjI)
    show "length as = n"
      by (simp add: as)
    show "length (as_slices ?a) = ?n"
      by (simp add: assignOne_def Let_def)
    show "\<forall>j. i < j \<and> j < n \<longrightarrow> before (as_headers ?a) (as_headers (as ! j)) \<and> before (as_buffers ?a) (as_buffers (as ! j)) \<and>
       before (as_readQueue ?a) (as_readQueue (as ! j)) \<and> before (as_writeQueue ?a) (as_writeQueue (as ! j))"
      using order by blast
    show "\<forall>q < ?n. i * ?size \<le> fst (snd (as_slices ?a ! q)) \<and> fst (snd (as_slices ?a ! q)) + snd (snd (as_slices ?a ! q)) \<le> Suc i * ?size \<and>
       (\<forall>r. q < r \<and> r < ?n \<longrightarrow> before (snd (as_slices ?a ! q)) (snd (as_slices ?a ! r)))"
      using slice inside slot_before by (simp add: before_def)
  qed (use places own in simp_all)
qed

section \<open>Small pools\<close>

definition samplePool :: connectionsPool where
  "samplePool = fst (activateNew (emptyPool\<lparr>connections := [newConnection 64, newConnection 64]\<rparr>))"

lemma samplePool_ok: "pool_ok samplePool" "length (connections samplePool) = 2" "activeSet samplePool = {0}"
proof -
  have c: "map cn_active (connections samplePool) = [True, False]" "numConnections samplePool = 1" "highestActiveConnection samplePool = 0"
    by code_simp+
  then have l: "length (connections samplePool) = 2"
    by (metis length_map length_Cons list.size(3) numeral_2_eq_2)
  have "cn_active (connections samplePool ! i) = [True, False] ! i" if "i < 2" for i
    using nth_map [of i "connections samplePool" cn_active] c(1) l that by simp
  then show "activeSet samplePool = {0}"
    using l by (auto simp: activeSet_def less_2_cases_iff)
  then show "pool_ok samplePool" "length (connections samplePool) = 2"
    using c l by (simp_all add: pool_ok_def)
qed

theorem connections_pool_refines_witness:
  "(activeSet (fst (activateNew samplePool)), snd (activateNew samplePool)) = ({0, 1}, Some 1) \<and>
   (activeSet (fst (deactivate 0 samplePool)), snd (deactivate 0 samplePool)) = ({}, True)"
proof -
  have "{..< 2} - {0} = {1 :: nat}"
    by auto
  then show ?thesis
    using connections_pool_refines [OF samplePool_ok(1), of 0] samplePool_ok by (simp add: spec_activate_def spec_deactivate_def insert_commute)
qed

theorem assigned_memory_witness:
  "\<exists>as. assignTo \<lparr>allReadQueue = 6, allWriteQueue = 6, allBuffers = 4, allHeaders = 64, allStreams = 90\<rparr>
       \<lparr>readQueueSize = 3, writeQueueSize = 3, buffersQueueSize = 2, headerBytesLength = 32, streamBytesLength = 45\<rparr> 2 = Assigned as \<and>
     before (as_headers (as ! 0)) (as_headers (as ! 1)) \<and>
     \<not> (\<forall>q < 3. fst (as_slices (as ! 0) ! q) < fst (as_buffers (as ! 0)) + snd (as_buffers (as ! 0)))"
proof -
  let ?mem = "\<lparr>allReadQueue = 6, allWriteQueue = 6, allBuffers = 4, allHeaders = 64, allStreams = 90\<rparr>"
  let ?conf = "\<lparr>readQueueSize = 3, writeQueueSize = 3, buffersQueueSize = 2, headerBytesLength = 32, streamBytesLength = 45\<rparr>"
  have a: "assignTo ?mem ?conf 2 = Assigned (map (assignOne ?conf) [0 ..< 2])"
    by (simp add: assignTo_def)
  show ?thesis
    using assigned_memory [OF a, of 0] a by auto
qed

end
