(* ===== verification/HttpAsyncServerProps.thy ===== *)
theory HttpAsyncServerProps
  imports HttpAsyncServer HttpConnectionsPoolProps
begin

text \<open>
  The server keeps its connections in order: what holds in every state it can reach, and where it loses
  connections or the will to accept new ones.
\<close>

section \<open>Frames\<close>

lemma onStreams_simps [simp]:
  "sv_pool (onStreams i f s) = sv_pool s" "sv_state (onStreams i f s) = sv_state s" "sv_accepting (onStreams i f s) = sv_accepting s"
  "sv_maxRequests (onStreams i f s) = sv_maxRequests s" "length (sv_streams (onStreams i f s)) = length (sv_streams s)"
  "connectionAt j (onStreams i f s) = connectionAt j s" "sv_errors (onStreams i f s) = sv_errors s"
  by (simp_all add: onStreams_def connectionAt_def)

lemma onStreams_nth:
  "j < length (sv_streams s) \<Longrightarrow> sv_streams (onStreams i f s) ! j = (if i = j then f (sv_streams s ! i) else sv_streams s ! j)"
  by (simp add: onStreams_def nth_list_update)

lemma onConnection_simps [simp]:
  "sv_streams (onConnection i f s) = sv_streams s" "sv_state (onConnection i f s) = sv_state s" "sv_accepting (onConnection i f s) = sv_accepting s"
  "sv_maxRequests (onConnection i f s) = sv_maxRequests s" "length (connections (sv_pool (onConnection i f s))) = length (connections (sv_pool s))"
  "numConnections (sv_pool (onConnection i f s)) = numConnections (sv_pool s)"
  "highestActiveConnection (sv_pool (onConnection i f s)) = highestActiveConnection (sv_pool s)"
  by (simp_all add: onConnection_def)

lemma onConnection_nth:
  "j < length (connections (sv_pool s)) \<Longrightarrow> connectionAt j (onConnection i f s) = (if i = j then f (connectionAt i s) else connectionAt j s)"
  by (simp add: onConnection_def connectionAt_def nth_list_update)

lemma reportError_simps [simp]:
  "sv_pool (reportError e s) = sv_pool s" "sv_streams (reportError e s) = sv_streams s" "sv_state (reportError e s) = sv_state s"
  "sv_accepting (reportError e s) = sv_accepting s" "sv_maxRequests (reportError e s) = sv_maxRequests s"
  "connectionAt j (reportError e s) = connectionAt j s"
  by (simp_all add: reportError_def connectionAt_def)

section \<open>The invariant\<close>

text \<open>
  The streams of a connection: a place that is free has no live stream; of an active connection at least
  one stream lives, and where destruction is under way, or has been completed for the writable stream
  only, \<open>closeAsync\<close> is listening for the rest.
\<close>

definition streams_ok :: "bool \<Rightarrow> connectionStreams \<Rightarrow> bool" where
  "streams_ok a c \<longleftrightarrow>
     (if a then \<not> (cs_readable c = LifeDestroyed \<and> cs_writable c = LifeDestroyed) \<and>
        (cs_readable c = LifeClosing \<longrightarrow> cs_onReadClose c > 0) \<and> (cs_writable c = LifeClosing \<longrightarrow> cs_onWriteClose c > 0) \<and>
        (cs_writable c \<in> {LifeClosing, LifeDestroyed} \<longrightarrow> cs_readable c = LifeDestroyed \<or> cs_onReadClose c > 0)
      else cs_readable c = LifeDestroyed \<and> cs_writable c = LifeDestroyed)"

text \<open>The state apart from the streams of the connections in \<open>X\<close>.\<close>

definition ok_but :: "nat set \<Rightarrow> asyncServer \<Rightarrow> bool" where
  "ok_but X s \<longleftrightarrow> pool_ok (sv_pool s) \<and> length (sv_streams s) = length (connections (sv_pool s)) \<and>
     (sv_accepting s \<longrightarrow> sv_state s = ServerStarted \<and> numConnections (sv_pool s) < length (connections (sv_pool s))) \<and>
     (\<forall>i < length (sv_streams s). i \<notin> X \<longrightarrow> streams_ok (cn_active (connectionAt i s)) (sv_streams s ! i))"

definition server_ok :: "asyncServer \<Rightarrow> bool" where
  "server_ok s \<longleftrightarrow> ok_but {} s"

lemma server_ok_at:
  "i < length (sv_streams s) \<Longrightarrow> server_ok s \<longleftrightarrow> ok_but {i} s \<and> streams_ok (cn_active (connectionAt i s)) (sv_streams s ! i)"
  by (auto simp: server_ok_def ok_but_def)

lemma ok_but_length: "ok_but X s \<Longrightarrow> length (sv_streams s) = length (connections (sv_pool s))"
  by (simp add: ok_but_def)

lemma ok_but_onStreams [simp]:
  "ok_but {i} s \<Longrightarrow> ok_but {i} (onStreams i f s)"
  by (auto simp: ok_but_def onStreams_nth)

lemma ok_but_reportError [simp]: "ok_but X (reportError e s) = ok_but X s"
  by (simp add: ok_but_def)

lemma active_onConnection:
  assumes "cn_active (f (connectionAt i s)) = cn_active (connectionAt i s)" "j < length (connections (sv_pool s))"
  shows "cn_active (connectionAt j (onConnection i f s)) = cn_active (connectionAt j s)"
  using assms by (cases "i = j") (simp_all add: onConnection_nth)

lemma activeSet_onConnection:
  assumes "cn_active (f (connectionAt i s)) = cn_active (connectionAt i s)"
  shows "activeSet (sv_pool (onConnection i f s)) = activeSet (sv_pool s)"
  using active_onConnection [of f i s, OF assms] by (auto simp: activeSet_def connectionAt_def)

lemma ok_but_onConnection [simp]:
  assumes "ok_but X s" "cn_active (f (connectionAt i s)) = cn_active (connectionAt i s)"
  shows "ok_but X (onConnection i f s)"
proof -
  have "pool_ok (sv_pool (onConnection i f s)) = pool_ok (sv_pool s)"
    using assms(2) by (simp add: pool_ok_def activeSet_onConnection)
  then show ?thesis
    using assms by (simp add: ok_but_def active_onConnection)
qed

lemma server_ok_onConnection:
  "server_ok s \<Longrightarrow> cn_active (f (connectionAt i s)) = cn_active (connectionAt i s) \<Longrightarrow> server_ok (onConnection i f s)"
  by (simp add: server_ok_def)

lemma server_ok_reportError [simp]: "server_ok (reportError e s) = server_ok s"
  by (simp add: server_ok_def)

text \<open>Registering and removing listeners other than those of \<open>closeAsync\<close>.\<close>

lemma streams_ok_cong:
  assumes "cs_readable c' = cs_readable c" "cs_writable c' = cs_writable c" "cs_onReadClose c' = cs_onReadClose c"
    "cs_onWriteClose c' = cs_onWriteClose c"
  shows "streams_ok a c' = streams_ok a c"
  using assms by (simp add: streams_ok_def)

lemma server_ok_onStreams:
  assumes "server_ok s" "i < length (sv_streams s)" "streams_ok (cn_active (connectionAt i s)) (f (sv_streams s ! i))"
  shows "server_ok (onStreams i f s)"
  using assms by (simp add: server_ok_at [of i] onStreams_nth)

section \<open>Closing\<close>

lemma connectionAt_active: "i < length (connections (sv_pool s)) \<Longrightarrow> cn_active (connectionAt i s) \<longleftrightarrow> i \<in> activeSet (sv_pool s)"
  by (simp add: connectionAt_def activeSet_def)

lemma deactivateConnection_ok:
  assumes "ok_but {i} s" "i < length (sv_streams s)" "cn_active (connectionAt i s)"
    "cs_readable (sv_streams s ! i) = LifeDestroyed" "cs_writable (sv_streams s ! i) = LifeDestroyed"
  shows "server_ok (deactivateConnection i s)"
proof -
  let ?p = "fst (deactivate i (sv_pool s))" and ?n = "length (connections (sv_pool s))"
  have i: "i \<in> activeSet (sv_pool s)" "i < ?n"
    using assms(1-3) connectionAt_active by (auto simp: ok_but_def)
  have p: "pool_ok ?p" "length (connections ?p) = ?n" "activeSet ?p = activeSet (sv_pool s) - {i}"
    using deactivate_ok deactivate_active i assms(1) by (auto simp: ok_but_def)
  have less: "numConnections ?p < ?n"
    using p i card_activeSet [of "sv_pool s"] card_Diff1_less [of "activeSet (sv_pool s)" i] by (auto simp: pool_ok_def)
  have active: "cn_active (connections ?p ! j) \<longleftrightarrow> j \<noteq> i \<and> cn_active (connectionAt j s)" if "j < ?n" for j
    using that p(2,3) by (auto simp: activeSet_def connectionAt_def)
  have "streams_ok (cn_active (connections ?p ! j)) (sv_streams s ! j)" if "j < ?n" for j
    using active [OF that] assms(1,4,5) that by (cases "j = i") (auto simp: ok_but_def streams_ok_def)
  then show ?thesis
    using assms(1) p less unfolding server_ok_def ok_but_def deactivateConnection_def Let_def by (auto simp: connectionAt_def)
qed

lemma readDestroyed_ok:
  assumes "ok_but {i} s" "i < length (sv_streams s)" "cn_active (connectionAt i s)"
    "cs_writable (sv_streams s ! i) = LifeDestroyed \<longrightarrow> cs_onReadClose (sv_streams s ! i) > 0"
    "cs_writable (sv_streams s ! i) = LifeClosing \<longrightarrow> cs_onWriteClose (sv_streams s ! i) > 0"
  shows "server_ok (readDestroyed i s)"
proof -
  let ?s1 = "onStreams i (\<lambda>c. c\<lparr>cs_readable := LifeDestroyed, cs_onReadClose := 0\<rparr>) s"
  have 1: "ok_but {i} ?s1" "sv_streams ?s1 ! i = (sv_streams s ! i)\<lparr>cs_readable := LifeDestroyed, cs_onReadClose := 0\<rparr>"
    using assms(1,2) by (simp_all add: onStreams_nth)
  show ?thesis
  proof (cases "cs_writable (sv_streams s ! i) = LifeDestroyed")
    case True
    then show ?thesis
      using deactivateConnection_ok [OF 1(1)] assms(2-4) 1(2) by (simp add: readDestroyed_def Let_def)
  next
    case False
    then show ?thesis
      using assms(2,3,5) 1 by (simp add: readDestroyed_def Let_def server_ok_at [of i] streams_ok_def)
  qed
qed

lemma writeDestroyed_ok:
  assumes "ok_but {i} s" "i < length (sv_streams s)" "cn_active (connectionAt i s)" "cs_onWriteClose (sv_streams s ! i) > 0"
    "cs_readable (sv_streams s ! i) \<noteq> LifeDestroyed \<longrightarrow> cs_onReadClose (sv_streams s ! i) > 0"
  shows "server_ok (writeDestroyed i s)"
proof -
  let ?s1 = "onStreams i (\<lambda>c. c\<lparr>cs_writable := LifeDestroyed, cs_onWriteClose := 0\<rparr>) s"
  have 1: "ok_but {i} ?s1" "sv_streams ?s1 ! i = (sv_streams s ! i)\<lparr>cs_writable := LifeDestroyed, cs_onWriteClose := 0\<rparr>"
    using assms(1,2) by (simp_all add: onStreams_nth)
  show ?thesis
  proof (cases "cs_readable (sv_streams s ! i) = LifeDestroyed")
    case True
    then show ?thesis
      using deactivateConnection_ok [OF 1(1)] assms(2-4) 1(2) by (simp add: writeDestroyed_def Let_def)
  next
    case False
    then show ?thesis
      using assms(2,3,5) 1 by (simp add: writeDestroyed_def Let_def server_ok_at [of i] streams_ok_def)
  qed
qed

lemma readDestroyed_alone:
  assumes "i < length (sv_streams s)" "cs_writable (sv_streams s ! i) \<noteq> LifeDestroyed"
  shows "readDestroyed i s = onStreams i (\<lambda>c. c\<lparr>cs_readable := LifeDestroyed, cs_onReadClose := 0\<rparr>) s"
  using assms by (simp add: readDestroyed_def Let_def onStreams_nth)

text \<open>After the first half the readable stream is destroyed, or its end is listened for.\<close>

lemma closeReadable_half:
  assumes "ok_but {i} s" "i < length (sv_streams s)" "cs_readable (sv_streams s ! i) \<noteq> LifeDestroyed" "cs_writable (sv_streams s ! i) \<noteq> LifeDestroyed"
  shows "ok_but {i} (closeReadable rf i s)" "connectionAt i (closeReadable rf i s) = connectionAt i s"
    "length (sv_streams (closeReadable rf i s)) = length (sv_streams s)"
    "cs_writable (sv_streams (closeReadable rf i s) ! i) = cs_writable (sv_streams s ! i)"
    "cs_onWriteClose (sv_streams (closeReadable rf i s) ! i) = cs_onWriteClose (sv_streams s ! i)"
    "cs_readable (sv_streams (closeReadable rf i s) ! i) = LifeDestroyed \<or>
     cs_readable (sv_streams (closeReadable rf i s) ! i) = LifeClosing \<and> cs_onReadClose (sv_streams (closeReadable rf i s) ! i) > 0"
  using assms by (simp_all add: closeReadable_def Let_def onStreams_nth readDestroyed_alone)

lemma closeReadable_ok:
  assumes "ok_but {i} s" "i < length (sv_streams s)" "cn_active (connectionAt i s)" "cs_writable (sv_streams s ! i) = LifeDestroyed"
    "cs_readable (sv_streams s ! i) \<noteq> LifeDestroyed"
  shows "server_ok (closeReadable rf i s)"
proof -
  let ?t = "onStreams i (\<lambda>c. c\<lparr>cs_onReadClose := cs_onReadClose c + 1\<rparr>) s"
  have "server_ok (readDestroyed i ?t)"
    using readDestroyed_ok [of i ?t] assms by (simp add: onStreams_nth)
  then show ?thesis
    using assms by (simp add: closeReadable_def Let_def server_ok_at [of i] onStreams_nth streams_ok_def)
qed

lemma closeWritable_ok:
  assumes "ok_but {i} s" "i < length (sv_streams s)" "cn_active (connectionAt i s)" "cs_writable (sv_streams s ! i) \<noteq> LifeDestroyed"
    "cs_readable (sv_streams s ! i) = LifeDestroyed \<or> cs_readable (sv_streams s ! i) = LifeClosing \<and> cs_onReadClose (sv_streams s ! i) > 0"
  shows "server_ok (closeWritable wr i s)"
proof -
  let ?t = "onStreams i (\<lambda>c. c\<lparr>cs_onWriteClose := cs_onWriteClose c + 1\<rparr>) s"
  have "server_ok (writeDestroyed i ?t)"
    using writeDestroyed_ok [of i ?t] assms by (auto simp: onStreams_nth)
  then show ?thesis
    using assms by (auto simp: closeWritable_def Let_def server_ok_at [of i] onStreams_nth streams_ok_def)
qed

lemma closeAsync_ok:
  assumes "server_ok s" "i < length (sv_streams s)"
  shows "server_ok (closeAsync rf wr i s)"
proof (cases "cn_active (connectionAt i s)")
  case True
  define s2 where "s2 = onStreams i (\<lambda>c. c\<lparr>cs_data := cs_data c - 1, cs_bodyData := cs_bodyData c - 1, cs_end := cs_end c - 1,
     cs_close := cs_close c - 1\<rparr>) (onConnection i (\<lambda>c. c\<lparr>cn_requestCount := 0\<rparr>) s)"
  have ok: "ok_but {i} s" "streams_ok True (sv_streams s ! i)"
    using assms True by (simp_all add: server_ok_at [of i])
  then have len: "i < length (connections (sv_pool s))"
    using assms(2) ok_but_length by metis
  then have 2: "ok_but {i} s2" "i < length (sv_streams s2)" "cn_active (connectionAt i s2)"
    using True assms(2) ok(1) by (simp_all add: s2_def onConnection_nth)
  have same: "cs_readable (sv_streams s2 ! i) = cs_readable (sv_streams s ! i)" "cs_writable (sv_streams s2 ! i) = cs_writable (sv_streams s ! i)"
    using assms(2) by (simp_all add: s2_def onStreams_nth)
  have run: "closeAsync rf wr i s =
      (let r = (cs_readable (sv_streams s2 ! i) = LifeDestroyed); w = (cs_writable (sv_streams s2 ! i) = LifeDestroyed);
           s3 = (if \<not> r then closeReadable rf i s2 else s2); s4 = (if \<not> w then closeWritable wr i s3 else s3) in
       if r \<and> w then deactivateConnection i s4 else s4)"
    using True by (simp add: closeAsync_def s2_def Let_def)
  show ?thesis
  proof (cases "cs_writable (sv_streams s2 ! i) = LifeDestroyed")
    case w: True
    then have "cs_readable (sv_streams s2 ! i) \<noteq> LifeDestroyed"
      using ok(2) same by (auto simp: streams_ok_def)
    then show ?thesis
      using closeReadable_ok [OF 2 w] w by (simp add: run Let_def)
  next
    case w: False
    show ?thesis
    proof (cases "cs_readable (sv_streams s2 ! i) = LifeDestroyed")
      case True
      then show ?thesis
        using closeWritable_ok [OF 2 w] w by (simp add: run Let_def)
    next
      case r: False
      note half = closeReadable_half [OF 2(1,2) r w, of rf]
      have "server_ok (closeWritable wr i (closeReadable rf i s2))"
        using closeWritable_ok [OF half(1)] half(2-6) 2 w by simp
      then show ?thesis
        using r w by (simp add: run Let_def)
    qed
  qed
next
  case False
  then show ?thesis
    using assms(1) by (simp add: closeAsync_def)
qed

section \<open>Events\<close>

lemma length_streams [simp]:
  "length (sv_streams (deactivateConnection i s)) = length (sv_streams s)"
  "length (sv_streams (readDestroyed i s)) = length (sv_streams s)"
  "length (sv_streams (writeDestroyed i s)) = length (sv_streams s)"
  "length (sv_streams (closeReadable rf i s)) = length (sv_streams s)"
  "length (sv_streams (closeWritable wr i s)) = length (sv_streams s)"
  "length (sv_streams (closeAsync rf wr i s)) = length (sv_streams s)"
  "length (sv_streams (reportError e s)) = length (sv_streams s)"
proof -
  show d: "length (sv_streams (deactivateConnection i s)) = length (sv_streams s)" for i s
    by (simp add: deactivateConnection_def Let_def)
  show r: "length (sv_streams (readDestroyed i s)) = length (sv_streams s)" for i s
    by (simp add: readDestroyed_def Let_def d)
  show w: "length (sv_streams (writeDestroyed i s)) = length (sv_streams s)" for i s
    by (simp add: writeDestroyed_def Let_def d)
  show cr: "length (sv_streams (closeReadable rf i s)) = length (sv_streams s)" for rf i s
    by (simp add: closeReadable_def Let_def r)
  show cw: "length (sv_streams (closeWritable wr i s)) = length (sv_streams s)" for wr i s
    by (simp add: closeWritable_def Let_def w)
  show "length (sv_streams (closeAsync rf wr i s)) = length (sv_streams s)"
    by (simp add: closeAsync_def Let_def d cr cw)
qed simp

text \<open>An operation on a connection that keeps the invariant and the number of places, also when repeated.\<close>

definition keeps :: "nat \<Rightarrow> (asyncServer \<Rightarrow> asyncServer) \<Rightarrow> bool" where
  "keeps i f \<longleftrightarrow> (\<forall>s. server_ok s \<and> i < length (sv_streams s) \<longrightarrow> server_ok (f s) \<and> length (sv_streams (f s)) = length (sv_streams s))"

lemma keepsD: "keeps i f \<Longrightarrow> server_ok s \<Longrightarrow> i < length (sv_streams s) \<Longrightarrow> server_ok (f s)"
  by (simp add: keeps_def)

lemma keeps_comp: "keeps i f \<Longrightarrow> keeps i g \<Longrightarrow> keeps i (\<lambda>s. g (f s))"
  by (simp add: keeps_def)

lemma keeps_repeat:
  assumes "keeps i f"
  shows "keeps i (f ^^ n)"
proof (induction n)
  case (Suc n)
  then show ?case
    using keeps_comp [OF Suc assms] by (simp add: comp_def)
qed (simp add: keeps_def)

lemma keeps_id: "keeps i (\<lambda>s. s)"
  by (simp add: keeps_def)

lemma keeps_closeAsync: "keeps i (closeAsync rf wr i)"
  by (simp add: keeps_def closeAsync_ok)

lemma keeps_onConnection: "(\<And>c. cn_active (f c) = cn_active c) \<Longrightarrow> keeps i (onConnection i f)"
  by (simp add: keeps_def server_ok_onConnection)

lemma keeps_onStreams:
  assumes "\<And>a c. streams_ok a (f c) = streams_ok a c"
  shows "keeps i (onStreams i f)"
  using assms by (auto simp: keeps_def server_ok_at [of i] onStreams_nth)

lemma keeps_if:
  assumes "keeps i f" "keeps i g" "\<And>s. h s = f s \<or> h s = g s"
  shows "keeps i h"
  unfolding keeps_def
proof (intro allI impI)
  fix s
  assume "server_ok s \<and> i < length (sv_streams s)"
  then show "server_ok (h s) \<and> length (sv_streams (h s)) = length (sv_streams s)"
    using assms(1,2) assms(3) [of s] by (auto simp: keeps_def)
qed

lemma keeps_afterWrite: "keeps i (afterWrite rf wr i)"
proof -
  let ?f = "onStreams i (\<lambda>c. c\<lparr>cs_finish := cs_finish c - 1\<rparr>)"
  let ?g = "\<lambda>s. onStreams i (\<lambda>c. c\<lparr>cs_data := cs_data c + 1, cs_end := cs_end c + 1\<rparr>)
     (onConnection i (\<lambda>c. c\<lparr>cn_requestCount := cn_requestCount c + 1, cn_request := headers_reset Request (cn_headerMemory c),
        cn_requestBody := resetIncoming, cn_response := out_reset (cn_response c)\<rparr>) s)"
  have f: "keeps i ?f"
    by (rule keeps_onStreams) (simp add: streams_ok_def)
  have g: "keeps i ?g"
    by (rule keeps_comp [OF keeps_onConnection keeps_onStreams]) (simp_all add: streams_ok_def)
  show ?thesis
    by (rule keeps_if [OF keeps_comp [OF f g] keeps_comp [OF f keeps_closeAsync [of i rf wr]]]) (simp add: afterWrite_def Let_def)
qed

lemma keeps_onResponseFinished: "keeps i (onResponseFinished rf wr i)"
  using keeps_repeat [OF keeps_afterWrite] by (simp add: keeps_def onResponseFinished_def)

lemma keeps_bodyData: "keeps i (onRequestBodyData rf wr b e i)"
proof -
  let ?f = "onConnection i (\<lambda>c. c\<lparr>cn_requestBody := b\<rparr>)" and ?g = "onStreams i (\<lambda>c. c\<lparr>cs_bodyData := cs_bodyData c - 1\<rparr>)"
  have f: "keeps i ?f"
    by (rule keeps_onConnection) simp
  have g: "keeps i ?g"
    by (rule keeps_onStreams) (simp add: streams_ok_def)
  show ?thesis
  proof (cases e)
    case None
    show ?thesis
      by (rule keeps_if [OF keeps_comp [OF f g] f]) (simp add: None onRequestBodyData_def Let_def)
  next
    case (Some msg)
    have "keeps i (reportError msg)"
      by (simp add: keeps_def)
    from keeps_comp [OF f keeps_comp [OF this keeps_closeAsync [of i rf wr]]] show ?thesis
      by (simp add: Some keeps_def onRequestBodyData_def Let_def)
  qed
qed

lemma keeps_receive: "keeps i (onStreamReceive u app rf wr d i)"
  unfolding keeps_def
proof (intro allI impI)
  fix s
  assume ok: "server_ok s \<and> i < length (sv_streams s)"
  note on = server_ok_onConnection
  have cl: "server_ok (closeAsync rf wr i (reportError e t))" if "server_ok t" "length (sv_streams t) = length (sv_streams s)" for e t
    using closeAsync_ok [of "reportError e t" i rf wr] that ok by simp
  have st: "server_ok (onStreams i f t)" if "server_ok t" "length (sv_streams t) = length (sv_streams s)"
      "\<And>a c. streams_ok a (f c) = streams_ok a c" for f t
    using that ok keeps_onStreams [of f i] by (simp add: keeps_def)
  have same: "streams_ok a (c\<lparr>cs_data := m, cs_end := n\<rparr>) = streams_ok a c" "streams_ok a (c\<lparr>cs_bodyData := m\<rparr>) = streams_ok a c"
      "streams_ok a (c\<lparr>cs_close := m\<rparr>) = streams_ok a c" "streams_ok a (c\<lparr>cs_finish := m\<rparr>) = streams_ok a c" for a c m n
    by (simp_all add: streams_ok_def)
  show "server_ok (onStreamReceive u app rf wr d i s) \<and> length (sv_streams (onStreamReceive u app rf wr d i s)) = length (sv_streams s)"
    using ok unfolding onStreamReceive_def Let_def
    by (auto split: prod.splits option.splits intro!: cl st on simp: same)
qed

lemma alive_active:
  assumes "server_ok s" "i < length (sv_streams s)"
    "cs_readable (sv_streams s ! i) \<noteq> LifeDestroyed \<or> cs_writable (sv_streams s ! i) \<noteq> LifeDestroyed"
  shows "cn_active (connectionAt i s)" "ok_but {i} s" "streams_ok True (sv_streams s ! i)"
proof -
  have ok: "ok_but {i} s" "streams_ok (cn_active (connectionAt i s)) (sv_streams s ! i)"
    using assms(1,2) by (simp_all add: server_ok_at [of i])
  then show "cn_active (connectionAt i s)" "ok_but {i} s"
    using assms(3) by (auto simp: streams_ok_def split: if_splits)
  then show "streams_ok True (sv_streams s ! i)"
    using ok(2) by simp
qed

lemma readableClosed_ok:
  assumes "server_ok s" "i < length (sv_streams s)" "cs_readable (sv_streams s ! i) \<noteq> LifeDestroyed"
  shows "server_ok (onReadableClosed wr i s)"
proof -
  note a = alive_active [OF assms(1,2) disjI1 [OF assms(3)]]
  have "server_ok (readDestroyed i s)"
    using readDestroyed_ok [OF a(2) assms(2) a(1)] a(3) assms(3) by (auto simp: streams_ok_def)
  then show ?thesis
    using closeAsync_ok [of "readDestroyed i s" i True wr] assms(2) by (simp add: onReadableClosed_def Let_def)
qed

lemma writableClosed_ok:
  assumes "server_ok s" "i < length (sv_streams s)" "cs_writable (sv_streams s ! i) = LifeClosing"
  shows "server_ok (writeDestroyed i s)"
proof -
  have w: "cs_writable (sv_streams s ! i) \<noteq> LifeDestroyed"
    using assms(3) by simp
  note a = alive_active [OF assms(1,2) disjI2 [OF w]]
  show ?thesis
    using writeDestroyed_ok [OF a(2) assms(2) a(1)] a(3) assms(3) by (auto simp: streams_ok_def)
qed

lemma peerEnd_ok:
  assumes "server_ok s" "i < length (sv_streams s)" "cs_readable (sv_streams s ! i) = LifeOpen"
  shows "server_ok (onPeerEnd q wr i s)"
proof -
  have r: "cs_readable (sv_streams s ! i) \<noteq> LifeDestroyed"
    using assms(3) by simp
  note a = alive_active [OF assms(1,2) disjI1 [OF r]]
  define s1 where "s1 = onStreams i (\<lambda>c. c\<lparr>cs_readable := LifeEnded\<rparr>) s"
  have 1: "server_ok s1" "i < length (sv_streams s1)"
    using a assms(2,3) by (simp_all add: s1_def server_ok_at [of i] onStreams_nth streams_ok_def)
  have "keeps i (onStreamEnd True wr i)"
    by (rule keeps_if [OF keeps_id keeps_closeAsync [of i True wr]]) (simp add: onStreamEnd_def)
  from keeps_repeat [OF this] have k: "keeps i (onStreamEnd True wr i ^^ n)" for n .
  define s2 where "s2 = (onStreamEnd True wr i ^^ cs_end (sv_streams s1 ! i)) s1"
  have 2: "server_ok s2" "i < length (sv_streams s2)"
    using k 1 unfolding s2_def keeps_def by simp_all
  have "server_ok (onReadableClosed wr i s2)" if "cs_readable (sv_streams s2 ! i) = LifeEnded"
    using readableClosed_ok [OF 2] that by simp
  then show ?thesis
    using 2(1) by (simp add: onPeerEnd_def Let_def flip: s1_def s2_def)
qed

lemma closeAll_ok:
  assumes "server_ok s" "\<forall>i\<in>set is. i < length (sv_streams s)"
  shows "server_ok (closeAll rf wr is s)"
  using assms by (induction "is" arbitrary: s) (simp_all add: closeAsync_ok)

lemma stop_ok:
  assumes "server_ok s" "server_stop rf wr s = (s', None)"
  shows "server_ok s'"
proof -
  let ?t = "s\<lparr>sv_state := ServerStopping, sv_accepting := False\<rparr>"
  have "server_ok ?t"
    using assms(1) by (simp add: server_ok_def ok_but_def connectionAt_def)
  then have "server_ok (closeAll rf wr [0 ..< length (connections (sv_pool s))] ?t)"
    using assms(1) by (intro closeAll_ok) (auto simp: server_ok_def ok_but_def)
  then show ?thesis
    using assms(2) by (auto simp: server_stop_def sc_try_msg_def split: if_splits)
qed

lemma newClient_ok:
  assumes "server_ok s" "sv_accepting s"
  shows "\<exists>s'. onNewClient e s = Some s'" "onNewClient e s = Some s' \<Longrightarrow> server_ok s'"
proof -
  have ok: "pool_ok (sv_pool s)" "length (sv_streams s) = length (connections (sv_pool s))" "sv_state s = ServerStarted"
      "numConnections (sv_pool s) < length (connections (sv_pool s))"
    using assms by (simp_all add: server_ok_def ok_but_def)
  have "card (activeSet (sv_pool s)) \<noteq> length (connections (sv_pool s))"
    using ok(1,4) unfolding pool_ok_def by linarith
  then have "activeSet (sv_pool s) \<noteq> {..< length (connections (sv_pool s))}"
    unfolding full_iff .
  then obtain p i where p: "activateNew (sv_pool s) = (p, Some i)"
    using activateNew_None [of "sv_pool s"] by (metis option.exhaust prod.collapse)
  then show "\<exists>s'. onNewClient e s = Some s'"
    by (simp add: onNewClient_def Let_def split: option.splits)
  assume run: "onNewClient e s = Some s'"
  show "server_ok s'"
  proof (cases e)
    case None
    note a = activateNew_Some [OF p]
    let ?c = "(sv_streams s ! i)\<lparr>cs_readable := LifeOpen, cs_writable := LifeOpen, cs_data := cs_data (sv_streams s ! i) + 1\<rparr>"
    have eq: "s' = (onStreams i (\<lambda>c. c\<lparr>cs_data := cs_data c + 1\<rparr>) (onStreams i (\<lambda>c. c\<lparr>cs_readable := LifeOpen, cs_writable := LifeOpen\<rparr>)
        (s\<lparr>sv_pool := p\<rparr>)))\<lparr>sv_accepting := (numConnections p < length (connections p))\<rparr>"
      using run by (simp add: None p onNewClient_def beginHttpConnection_def Let_def)
    have i: "i < length (sv_streams s)"
      using a(2) ok(2) by simp
    have s': "sv_streams s' = (sv_streams s)[i := ?c]" "sv_pool s' = p" "sv_state s' = ServerStarted"
        "sv_accepting s' \<longleftrightarrow> numConnections p < length (connections p)"
      using i ok(3) by (simp_all add: eq onStreams_def)
    have "cn_active (connectionAt j s') \<longleftrightarrow> j = i \<or> cn_active (connectionAt j s)" if "j < length (sv_streams s)" for j
      using that a(5,6) ok(2) s'(2) by (auto simp: activeSet_def connectionAt_def)
    then have "streams_ok (cn_active (connectionAt j s')) (sv_streams s' ! j)" if "j < length (sv_streams s)" for j
      using that assms(1) s'(1) by (cases "j = i") (auto simp: server_ok_def ok_but_def streams_ok_def)
    then show ?thesis
      using activateNew_ok [OF ok(1) p] s' a(6) ok(2) by (simp add: server_ok_def ok_but_def)
  next
    case (Some msg)
    then show ?thesis
      using run assms(1) by (auto simp: onNewClient_def server_ok_def ok_but_def connectionAt_def reportError_def)
  qed
qed

section \<open>Reachable states\<close>

lemma server_step_ok:
  assumes "server_step s s'" "server_ok s"
  shows "server_ok s'"
  using assms
proof cases
  case accepted
  then show ?thesis
    using newClient_ok(2) assms(2) by blast
next
  case received
  then show ?thesis
    using keepsD [OF keeps_repeat [OF keeps_receive]] assms(2) by simp
next
  case bodyReceived
  then show ?thesis
    using keepsD [OF keeps_repeat [OF keeps_bodyData]] assms(2) by simp
next
  case responded
  then show ?thesis
    using keepsD [OF keeps_onResponseFinished] assms(2) by simp
next
  case peerEnded
  then show ?thesis
    using peerEnd_ok assms(2) by blast
next
  case readClosed
  then show ?thesis
    using readableClosed_ok [OF assms(2)] by auto
next
  case writeClosed
  then show ?thesis
    using writableClosed_ok [OF assms(2)] by auto
next
  case stopped
  then show ?thesis
    using stop_ok assms(2) by blast
qed

end
