(* ===== verification/HttpAsyncServerTheorems.thy ===== *)
theory HttpAsyncServerTheorems
  imports HttpAsyncServerProps
begin

text \<open>
  The theorems on the server: the invariant of its reachable states, and four ways in which it loses
  connections: an error of \<open>accept\<close>, a client that leaves before its first request, a connection that is
  kept although it should be closed, and a listener that outlives its connection.
\<close>

section \<open>Predicates kept by what is done to one connection\<close>

text \<open>\<open>P\<close> is kept by the primitive changes the handlers of connection \<open>j\<close> are made of.\<close>

definition stable :: "nat \<Rightarrow> (asyncServer \<Rightarrow> bool) \<Rightarrow> bool" where
  "stable j P \<longleftrightarrow> (\<forall>f s. P s \<longrightarrow> P (onStreams j f s)) \<and> (\<forall>f s. P s \<longrightarrow> P (onConnection j f s)) \<and>
     (\<forall>e s. P s \<longrightarrow> P (reportError e s)) \<and> (\<forall>s. P s \<longrightarrow> P (deactivateConnection j s))"

lemma stableD:
  assumes "stable j P" "P s"
  shows "P (onStreams j f s)" "P (onConnection j g s)" "P (reportError e s)" "P (deactivateConnection j s)"
  using assms by (simp_all add: stable_def)

lemma stable_close:
  assumes "stable j P" "P s"
  shows "P (readDestroyed j s)" "P (writeDestroyed j s)" "P (closeReadable rf j s)" "P (closeWritable wr j s)"
  using assms by (simp_all add: stableD readDestroyed_def writeDestroyed_def closeReadable_def closeWritable_def Let_def)

lemma stable_closeAsync:
  assumes "stable j P" "P s"
  shows "P (closeAsync rf wr j s)"
proof -
  have either: "P x \<Longrightarrow> P y \<Longrightarrow> P (if b then x else y)" for b x y
    by simp
  show ?thesis
    unfolding closeAsync_def Let_def by (intro either stableD [OF assms(1)] stable_close [OF assms(1)] assms(2))
qed

lemma stable_repeat:
  assumes "\<And>s. P s \<Longrightarrow> P (f s)" "P s"
  shows "P ((f ^^ n) s)"
  using assms(2) by (induction n) (simp_all add: assms(1))

lemma stable_receive:
  assumes "stable j P" "P s"
  shows "P (onStreamReceive u app rf wr d j s)"
proof -
  note st = stableD [OF assms(1)] stable_closeAsync [OF assms(1)]
  have either: "(b \<Longrightarrow> P x) \<Longrightarrow> (\<not> b \<Longrightarrow> P y) \<Longrightarrow> P (if b then x else y)" for b x y
    by simp
  have option: "P x \<Longrightarrow> (\<And>a. P (y a)) \<Longrightarrow> P (case z of None \<Rightarrow> x | Some a \<Rightarrow> y a)" for x y and z :: "'z option"
    by (cases z) simp_all
  have pair: "(\<And>a b. P (y a b)) \<Longrightarrow> P (case z of (a, b) \<Rightarrow> y a b)" for y and z :: "'x \<times> 'y"
    by (cases z) simp
  show ?thesis
    unfolding onStreamReceive_def Let_def by (intro either option pair st assms(2))
qed

lemma stable_afterWrite:
  assumes "stable j P" "P s"
  shows "P (afterWrite rf wr j s)"
proof -
  have either: "P x \<Longrightarrow> P y \<Longrightarrow> P (if b then x else y)" for b x y
    by simp
  show ?thesis
    unfolding afterWrite_def Let_def by (intro either stableD [OF assms(1)] stable_closeAsync [OF assms(1)] assms(2))
qed

lemma stable_readableClosed:
  assumes "stable j P" "P s"
  shows "P (onReadableClosed wr j s)"
  using stable_closeAsync [OF assms(1) stable_close(1) [OF assms]] stable_close(1) [OF assms] by (simp add: onReadableClosed_def Let_def)

lemma stable_peerEnd:
  assumes "stable j P" "P s"
  shows "P (onPeerEnd q wr j s)"
proof -
  define s1 where "s1 = onStreams j (\<lambda>c. c\<lparr>cs_readable := LifeEnded\<rparr>) s"
  define s2 where "s2 = (onStreamEnd True wr j ^^ cs_end (sv_streams s1 ! j)) s1"
  have "P (onStreamEnd True wr j t)" if "P t" for t
    using that stable_closeAsync [OF assms(1) that] by (simp add: onStreamEnd_def)
  then have "P ((onStreamEnd True wr j ^^ n) t)" if "P t" for n t
    using that by (rule stable_repeat)
  then have 2: "P s2"
    using stableD(1) [OF assms] unfolding s1_def s2_def by blast
  have "onPeerEnd q wr j s = (if \<not> q \<and> cs_readable (sv_streams s2 ! j) = LifeEnded then onReadableClosed wr j s2 else s2)"
    by (simp only: onPeerEnd_def Let_def s1_def s2_def)
  then show ?thesis
    using 2 stable_readableClosed [OF assms(1) 2] by simp
qed

lemma stable_bodyData:
  assumes "stable j P" "P s"
  shows "P (onRequestBodyData rf wr b e j s)"
proof -
  define s1 where "s1 = onConnection j (\<lambda>c. c\<lparr>cn_requestBody := b\<rparr>) s"
  have 1: "P s1"
    unfolding s1_def by (rule stableD [OF assms])
  show ?thesis
    using 1 stableD [OF assms(1) 1] stable_closeAsync [OF assms(1) stableD(3) [OF assms(1) 1]]
    by (cases e) (simp_all add: onRequestBodyData_def Let_def flip: s1_def)
qed

text \<open>A step that is neither an accept nor the end keeps what is stable for the connection it happens to.\<close>

definition happensTo :: "asyncServer \<Rightarrow> nat \<Rightarrow> bool" where
  "happensTo s j \<longleftrightarrow> j < length (sv_streams s) \<and>
     (cs_data (sv_streams s ! j) > 0 \<and> cs_readable (sv_streams s ! j) \<in> {LifeOpen, LifeEnded} \<or>
      cs_bodyData (sv_streams s ! j) > 0 \<and> cs_readable (sv_streams s ! j) \<in> {LifeOpen, LifeEnded} \<or>
      cs_finish (sv_streams s ! j) > 0 \<and> cs_writable (sv_streams s ! j) = LifeOpen \<or>
      cs_readable (sv_streams s ! j) \<in> {LifeOpen, LifeEnded, LifeClosing} \<or> cs_writable (sv_streams s ! j) = LifeClosing)"

lemma server_step_stable:
  assumes "server_step s s'" "P s" "\<And>j. happensTo s j \<Longrightarrow> stable j P"
    "\<And>e. sv_accepting s \<Longrightarrow> onNewClient e s = Some s' \<Longrightarrow> P s'" "\<And>rf wr. server_stop rf wr s = (s', None) \<Longrightarrow> P s'"
  shows "P s'"
  using assms(1)
proof cases
  case (received i u app rf wr d)
  then show ?thesis
    using stable_repeat [of P "onStreamReceive u app rf wr d i"] stable_receive [OF assms(3) [of i]] assms(2) by (simp add: happensTo_def)
next
  case (bodyReceived i rf wr b e)
  then show ?thesis
    using stable_repeat [of P "onRequestBodyData rf wr b e i"] stable_bodyData [OF assms(3) [of i]] assms(2) by (simp add: happensTo_def)
next
  case (responded i rf wr)
  then show ?thesis
    using stable_repeat [of P "afterWrite rf wr i"] stable_afterWrite [OF assms(3) [of i]] assms(2)
    by (simp add: happensTo_def onResponseFinished_def)
next
  case (peerEnded i q wr)
  then show ?thesis
    using stable_peerEnd [OF assms(3) [of i] assms(2)] by (simp add: happensTo_def)
next
  case (readClosed i wr)
  then show ?thesis
    using stable_readableClosed [OF assms(3) [of i] assms(2)] by (auto simp: happensTo_def)
next
  case (writeClosed i)
  then show ?thesis
    using stable_close(2) [OF assms(3) [of i] assms(2)] by (simp add: happensTo_def)
qed (use assms(4,5) in blast)+


section \<open>The invariant of a running server\<close>

text \<open>A server over \<open>n\<close> connections with \<open>memory\<close> bytes for heads each, before \<open>init\<close> and \<open>start\<close>.\<close>

definition noStreams :: connectionStreams where
  "noStreams = \<lparr>cs_readable = LifeDestroyed, cs_writable = LifeDestroyed, cs_data = 0, cs_bodyData = 0, cs_end = 0, cs_close = 0,
     cs_finish = 0, cs_onReadClose = 0, cs_onWriteClose = 0\<rparr>"

definition newServer :: "nat \<Rightarrow> nat \<Rightarrow> nat \<Rightarrow> asyncServer" where
  "newServer n maxHeader maxRequests = \<lparr>sv_state = ServerStopped, sv_pool = emptyPool, sv_accepting = False, sv_maxHeaderSize = maxHeader,
     sv_maxRequests = maxRequests, sv_streams = replicate n noStreams, sv_errors = []\<rparr>"

text \<open>The states a server reaches from \<open>init\<close> and \<open>start\<close> on.\<close>

definition server_reaches :: "nat \<Rightarrow> asyncServer \<Rightarrow> bool" where
  "server_reaches n t \<longleftrightarrow> (\<exists>queues memory maxHeader maxRequests s1 s.
     initInternal queues (replicate n (newConnection memory)) (newServer n maxHeader maxRequests) = (s1, None) \<and>
     server_start None s1 = (s, None) \<and> server_step\<^sup>*\<^sup>* s t)"

lemma started_ok:
  assumes "initInternal queues (replicate n (newConnection memory)) (newServer n maxHeader maxRequests) = (s1, None)"
    "server_start None s1 = (s, None)"
  shows "server_ok s \<and> length (sv_streams s) = n"
proof -
  let ?new = "newServer n maxHeader maxRequests"
  obtain p where p: "pool_init (replicate n (newConnection memory)) (sv_pool ?new) = (p, None)" "s1 = ?new\<lparr>sv_pool := p\<rparr>"
    using assms(1) by (auto simp: initInternal_def split: option.splits prod.splits)
  have eq: "p = emptyPool\<lparr>connections := replicate n (newConnection memory)\<rparr>"
    using p(1) by (auto simp: newServer_def pool_init_def sc_try_msg_def split: if_splits)
  have s: "s = s1\<lparr>sv_accepting := True, sv_state := ServerStarted\<rparr>" "n > 0"
    using assms(2) by (auto simp: server_start_def sc_try_msg_def p(2) eq split: if_splits)
  have "pool_ok p"
    by (auto simp: pool_ok_def activeSet_def eq emptyPool_def newConnection_def)
  then show ?thesis
    using s(2) by (simp add: server_ok_def ok_but_def s(1) p(2) eq newServer_def emptyPool_def connectionAt_def newConnection_def
        streams_ok_def noStreams_def)
qed

lemma steps_ok:
  assumes "server_step\<^sup>*\<^sup>* s t" "server_ok s"
  shows "server_ok t"
  using assms by (induction rule: rtranclp_induct) (auto intro: server_step_ok)

lemma deactivate_length: "length (connections (fst (deactivate i p))) = length (connections p)"
  by (simp add: deactivate_def Let_def)

lemma deactivateConnection_length:
  "length (connections (sv_pool (deactivateConnection i s))) = length (connections (sv_pool s))"
  by (simp add: deactivateConnection_def Let_def deactivate_length)

lemma reaches_ok:
  assumes "server_reaches n t"
  shows "server_ok t"
  using assms started_ok steps_ok unfolding server_reaches_def by blast


lemma stable_closeAll:
  assumes "\<And>j. stable j P" "P s"
  shows "P (closeAll rf wr is s)"
  using assms(2) by (induction "is" arbitrary: s) (simp_all add: stable_closeAsync assms(1))

lemma server_stop_eq:
  assumes "server_stop rf wr s = (s', None)"
  shows "s' = closeAll rf wr [0 ..< length (connections (sv_pool s))] (s\<lparr>sv_state := ServerStopping, sv_accepting := False\<rparr>)"
  using assms by (auto simp: server_stop_def sc_try_msg_def split: if_splits)

lemma onNewClient_cases:
  assumes "onNewClient e s = Some s'"
  obtains (failed) msg where "e = Some msg" "s' = reportError msg (s\<lparr>sv_accepting := False\<rparr>)"
  | (taken) i where "e = None" "activateNew (sv_pool s) = (activateAt i (sv_pool s), Some i)" "i < length (connections (sv_pool s))"
      "i \<notin> activeSet (sv_pool s)" "sv_pool s' = activateAt i (sv_pool s)" "sv_state s' = sv_state s"
      "sv_streams s' = (sv_streams s)[i := (sv_streams s ! i)\<lparr>cs_readable := LifeOpen, cs_writable := LifeOpen,
         cs_data := cs_data ((sv_streams s)[i := (sv_streams s ! i)\<lparr>cs_readable := LifeOpen, cs_writable := LifeOpen\<rparr>] ! i) + 1\<rparr>]"
      "sv_maxRequests s' = sv_maxRequests s"
proof (cases e)
  case (Some msg)
  then show ?thesis
    using assms by (intro failed [of msg]) (simp_all add: onNewClient_def)
next
  case None
  then obtain p i where p: "activateNew (sv_pool s) = (p, Some i)"
    using assms by (auto simp: onNewClient_def split: prod.splits option.splits)
  note a = activateNew_Some [OF p]
  have s': "s' = (onStreams i (\<lambda>c. c\<lparr>cs_data := cs_data c + 1\<rparr>) (onStreams i (\<lambda>c. c\<lparr>cs_readable := LifeOpen, cs_writable := LifeOpen\<rparr>)
      (s\<lparr>sv_pool := p\<rparr>)))\<lparr>sv_accepting := (numConnections p < length (connections p))\<rparr>"
    using assms by (simp add: None p onNewClient_def beginHttpConnection_def Let_def)
  show ?thesis
  proof (rule taken [of i])
    show "sv_streams s' = (sv_streams s)[i := (sv_streams s ! i)\<lparr>cs_readable := LifeOpen, cs_writable := LifeOpen,
        cs_data := cs_data ((sv_streams s)[i := (sv_streams s ! i)\<lparr>cs_readable := LifeOpen, cs_writable := LifeOpen\<rparr>] ! i) + 1\<rparr>]"
      by (cases "i < length (sv_streams s)") (simp_all add: s' onStreams_def list_update_beyond)
  qed (use None p a s' in simp_all)
qed

lemma stable_length: "stable j (\<lambda>s. length (connections (sv_pool s)) = n)"
  by (simp add: stable_def deactivateConnection_length)

lemma step_length:
  assumes "server_step s s'" "length (connections (sv_pool s)) = n"
  shows "length (connections (sv_pool s')) = n"
proof (rule server_step_stable [OF assms stable_length])
  show "length (connections (sv_pool s')) = n" if "onNewClient e s = Some s'" for e
    using that by (cases rule: onNewClient_cases) (simp_all add: assms(2) activateAt_connections)
  show "length (connections (sv_pool s')) = n" if "server_stop rf wr s = (s', None)" for rf wr
    using stable_closeAll [OF stable_length] assms(2) by (simp add: server_stop_eq [OF that])
qed

lemma reaches_length:
  assumes "server_reaches n t"
  shows "length (connections (sv_pool t)) = n"
proof -
  obtain s where s: "server_ok s" "length (sv_streams s) = n" "server_step\<^sup>*\<^sup>* s t"
    using assms started_ok unfolding server_reaches_def by blast
  have "length (connections (sv_pool s)) = n"
    using s(1,2) by (simp add: server_ok_def ok_but_def)
  with s(3) show ?thesis
    by (induction rule: rtranclp_induct) (auto intro: step_length)
qed

text \<open>
  C5: in every state a server reaches after \<open>init\<close> and \<open>start\<close>, whatever its clients and the application
  do: \<open>numConnections\<close> counts the connections in use; it listens only while it is started and a connection
  is free, so that the assertion of \<open>onNewClient\<close> holds for every client it is given; and the places in use
  are exactly those with a stream that has not been destroyed, so that no place is freed under a live stream.
\<close>

theorem server_invariant:
  assumes "server_reaches n t"
  shows "numConnections (sv_pool t) = card {i. i < n \<and> cn_active (connectionAt i t)} \<and>
    (sv_accepting t \<longrightarrow> sv_state t = ServerStarted \<and> numConnections (sv_pool t) < n \<and> (\<forall>e. onNewClient e t \<noteq> None)) \<and>
    (\<forall>i<n. cn_active (connectionAt i t) \<longleftrightarrow>
       \<not> (cs_readable (sv_streams t ! i) = LifeDestroyed \<and> cs_writable (sv_streams t ! i) = LifeDestroyed))"
proof (intro conjI impI allI)
  note ok = reaches_ok [OF assms] and n = reaches_length [OF assms]
  have t: "pool_ok (sv_pool t)" "length (sv_streams t) = n" "activeSet (sv_pool t) = {i. i < n \<and> cn_active (connectionAt i t)}"
    using ok n by (simp_all add: server_ok_def ok_but_def activeSet_def connectionAt_def)
  show "numConnections (sv_pool t) = card {i. i < n \<and> cn_active (connectionAt i t)}"
    using t(1) by (simp add: pool_ok_def t(3))
  show "sv_state t = ServerStarted" "numConnections (sv_pool t) < n" if "sv_accepting t"
    using ok n that by (simp_all add: server_ok_def ok_but_def)
  show "onNewClient e t \<noteq> None" if "sv_accepting t" for e
    using newClient_ok(1) [OF ok that, of e] by auto
  show "cn_active (connectionAt i t) \<longleftrightarrow> \<not> (cs_readable (sv_streams t ! i) = LifeDestroyed \<and> cs_writable (sv_streams t ! i) = LifeDestroyed)"
    if "i < n" for i
    using ok that t(2) by (cases "cn_active (connectionAt i t)") (simp_all add: server_ok_at [of i] streams_ok_def)
qed


section \<open>An error of accept\<close>

lemma deactivateConnection_num: "numConnections (sv_pool (deactivateConnection i s)) \<le> numConnections (sv_pool s)"
  by (simp add: deactivateConnection_def deactivate_def Let_def)

lemma stable_deaf: "stable j (\<lambda>s. \<not> sv_accepting s \<and> numConnections (sv_pool s) < length (connections (sv_pool s)))"
  unfolding stable_def
proof (intro conjI allI impI)
  fix s :: asyncServer
  assume s: "\<not> sv_accepting s \<and> numConnections (sv_pool s) < length (connections (sv_pool s))"
  show "\<not> sv_accepting (deactivateConnection j s)"
    using s by (simp add: deactivateConnection_def Let_def)
  show "numConnections (sv_pool (deactivateConnection j s)) < length (connections (sv_pool (deactivateConnection j s)))"
    using s deactivateConnection_num [of j s] by (simp add: deactivateConnection_length)
qed simp_all

text \<open>
  C40: when accepting a client fails (the process may be out of descriptors), \<open>onNewClient\<close> returns without
  reactivating the request. A free connection exists then, so no connection that is freed later starts it
  again either: the server never accepts another client until it is stopped, though it is still started.
\<close>

theorem accept_error_is_final:
  assumes "server_reaches n s" "sv_accepting s" "onNewClient (Some msg) s = Some s'" "server_step\<^sup>*\<^sup>* s' t"
  shows "sv_state s' = ServerStarted \<and> numConnections (sv_pool s') < n \<and> \<not> sv_accepting t"
proof -
  let ?P = "\<lambda>s. \<not> sv_accepting s \<and> numConnections (sv_pool s) < length (connections (sv_pool s))"
  have s: "sv_state s = ServerStarted" "numConnections (sv_pool s) < n" "length (connections (sv_pool s)) = n"
    using reaches_ok [OF assms(1)] reaches_length [OF assms(1)] assms(2) by (simp_all add: server_ok_def ok_but_def)
  have s': "s' = reportError msg (s\<lparr>sv_accepting := False\<rparr>)"
    using assms(3) by (simp add: onNewClient_def)
  have "?P s'"
    using s by (simp add: s')
  with assms(4) have "?P t"
  proof (induction rule: rtranclp_induct)
    case (step t u)
    show ?case
    proof (rule server_step_stable [OF step(2) step.IH [OF step.prems] stable_deaf])
      show "?P u" if "server_stop rf wr t = (u, None)" for rf wr
        using stable_closeAll [OF stable_deaf] step.IH [OF step.prems] by (simp add: server_stop_eq [OF that])
    qed (use step.IH [OF step.prems] in blast)
  qed
  then show ?thesis
    using s by (simp add: s')
qed

section \<open>A client that leaves before its first request\<close>

text \<open>The connection is in use, its readable stream is gone, and nothing listens that could close the rest.\<close>

definition abandoned :: "nat \<Rightarrow> asyncServer \<Rightarrow> bool" where
  "abandoned i s \<longleftrightarrow> i \<in> activeSet (sv_pool s) \<and> i < length (sv_streams s) \<and> cs_readable (sv_streams s ! i) = LifeDestroyed \<and>
     cs_writable (sv_streams s ! i) = LifeOpen \<and> cs_finish (sv_streams s ! i) = 0"

lemma abandoned_idle: "abandoned i s \<Longrightarrow> \<not> happensTo s i"
  by (simp add: abandoned_def happensTo_def)

lemma stable_abandoned: "i \<noteq> j \<Longrightarrow> stable j (abandoned i)"
  by (auto simp: stable_def abandoned_def onConnection_def onStreams_nth deactivateConnection_def deactivate_def activeSet_def Let_def)

lemma stable_stopped: "stable j (\<lambda>s. sv_state s \<noteq> ServerStarted)"
  by (simp add: stable_def deactivateConnection_def Let_def)

lemma step_stopped:
  assumes "server_step s s'" "sv_state s \<noteq> ServerStarted"
  shows "sv_state s' \<noteq> ServerStarted"
proof (rule server_step_stable [OF assms stable_stopped])
  show "sv_state s' \<noteq> ServerStarted" if "onNewClient e s = Some s'" for e
    using that assms(2) by (cases rule: onNewClient_cases) simp_all
  show "sv_state s' \<noteq> ServerStarted" if "server_stop rf wr s = (s', None)" for rf wr
    using that assms(2) by (simp add: server_stop_def sc_try_msg_def)
qed

lemma step_abandoned:
  assumes "server_step s s'" "abandoned i s"
  shows "sv_state s' \<noteq> ServerStarted \<or> abandoned i s'"
proof (cases "sv_state s' = ServerStarted")
  case True
  have "abandoned i s'"
  proof (rule server_step_stable [where P = "abandoned i", OF assms])
    show "stable j (abandoned i)" if "happensTo s j" for j
    proof (rule stable_abandoned)
      show "i \<noteq> j"
        using that abandoned_idle [OF assms(2)] by auto
    qed
    show "abandoned i s'" if "onNewClient e s = Some s'" for e
      using that
    proof (cases rule: onNewClient_cases)
      case (taken j)
      then have "i \<noteq> j" "activeSet (sv_pool s') = insert j (activeSet (sv_pool s))"
        using assms(2) by (auto simp: abandoned_def activateAt_connections)
      then show ?thesis
        using assms(2) by (simp add: abandoned_def taken(7))
    qed (use assms(2) in \<open>simp add: abandoned_def\<close>)
    show "abandoned i s'" if "server_stop rf wr s = (s', None)" for rf wr
      using True stable_closeAll [OF stable_stopped, of "s\<lparr>sv_state := ServerStopping, sv_accepting := False\<rparr>"]
      by (simp add: server_stop_eq [OF that])
  qed
  then show ?thesis ..
qed simp

lemma steps_abandoned:
  assumes "server_step\<^sup>*\<^sup>* s t" "abandoned i s"
  shows "sv_state t \<noteq> ServerStarted \<or> abandoned i t"
  using assms by (induction rule: rtranclp_induct) (auto dest: step_abandoned step_stopped)


text \<open>A client that is accepted, takes place \<open>i\<close> and ends its side before it has sent anything.\<close>

definition silentClient :: "bool \<Rightarrow> asyncServer \<Rightarrow> asyncServer option" where
  "silentClient writeFree s =
     (case (snd (activateNew (sv_pool s)), onNewClient None s) of
        (Some i, Some s1) \<Rightarrow> Some (onPeerEnd False writeFree i s1)
      | _ \<Rightarrow> None)"

fun silentClients :: "bool \<Rightarrow> nat \<Rightarrow> asyncServer \<Rightarrow> asyncServer option" where
  "silentClients writeFree 0 s = Some s"
| "silentClients writeFree (Suc k) s = (case silentClients writeFree k s of None \<Rightarrow> None | Some s1 \<Rightarrow> silentClient writeFree s1)"

lemma silentPeerEnd:
  assumes "i \<in> activeSet (sv_pool s)" "i < length (sv_streams s)" "cs_end (sv_streams s ! i) = 0" "cs_close (sv_streams s ! i) = 0"
    "cs_finish (sv_streams s ! i) = 0" "cs_writable (sv_streams s ! i) = LifeOpen"
  shows "abandoned i (onPeerEnd False wr i s)" "sv_accepting (onPeerEnd False wr i s) = sv_accepting s"
    "sv_pool (onPeerEnd False wr i s) = sv_pool s" "sv_state (onPeerEnd False wr i s) = sv_state s"
    "j \<noteq> i \<Longrightarrow> j < length (sv_streams s) \<Longrightarrow> sv_streams (onPeerEnd False wr i s) ! j = sv_streams s ! j"
    "length (sv_streams (onPeerEnd False wr i s)) = length (sv_streams s)"
  using assms by (simp_all add: onPeerEnd_def onReadableClosed_def readDestroyed_def abandoned_def onStreams_nth Let_def)

text \<open>After \<open>k\<close> silent clients the first \<open>k\<close> places are lost and the others are as at the start.\<close>

definition silenced :: "nat \<Rightarrow> nat \<Rightarrow> asyncServer \<Rightarrow> bool" where
  "silenced n k s \<longleftrightarrow> server_ok s \<and> length (sv_streams s) = n \<and> sv_state s = ServerStarted \<and> activeSet (sv_pool s) = {..<k} \<and>
     (\<forall>i<k. abandoned i s) \<and> (\<forall>i<n. k \<le> i \<longrightarrow> sv_streams s ! i = noStreams) \<and> sv_accepting s = (k < n)"

lemma silentClient_silenced:
  assumes "silenced n k s" "k < n"
  shows "\<exists>s'. silentClient wr s = Some s' \<and> silenced n (Suc k) s' \<and> server_step\<^sup>*\<^sup>* s s'"
proof -
  have s: "server_ok s" "length (sv_streams s) = n" "sv_state s = ServerStarted" "activeSet (sv_pool s) = {..<k}"
      "\<And>i. i < k \<Longrightarrow> abandoned i s" "\<And>i. i < n \<Longrightarrow> k \<le> i \<Longrightarrow> sv_streams s ! i = noStreams" "sv_accepting s"
    using assms by (auto simp: silenced_def)
  obtain s1 where s1: "onNewClient None s = Some s1"
    using newClient_ok(1) [OF s(1,7)] by blast
  have ok1: "server_ok s1"
    using newClient_ok(2) [OF s(1,7) s1] .
  from s1 show ?thesis
  proof (cases rule: onNewClient_cases)
    case (taken i)
    have "j \<in> activeSet (sv_pool s)" if "j < i" for j
      using activateNew_Some(3) [OF taken(2)] that by simp
    then have i: "i = k"
      using s(4) taken(4) by (cases i k rule: linorder_cases) auto
    let ?s' = "onPeerEnd False wr k s1"
    have new: "sv_streams s1 = (sv_streams s)[k := noStreams\<lparr>cs_readable := LifeOpen, cs_writable := LifeOpen, cs_data := 1\<rparr>]"
      using taken(7) s(2,6) assms(2) by (simp add: i noStreams_def)
    have act: "activeSet (sv_pool s1) = {..<Suc k}"
      using taken(3,5) s(4) by (simp add: i activateAt_connections lessThan_Suc)
    have end1: "k \<in> activeSet (sv_pool s1)" "k < length (sv_streams s1)" "cs_end (sv_streams s1 ! k) = 0" "cs_close (sv_streams s1 ! k) = 0"
        "cs_finish (sv_streams s1 ! k) = 0" "cs_writable (sv_streams s1 ! k) = LifeOpen" "cs_readable (sv_streams s1 ! k) = LifeOpen"
      using act assms(2) s(2) by (simp_all add: new noStreams_def)
    note e = silentPeerEnd [OF end1(1-6), where wr = wr]
    have "server_step s s1" "server_step s1 ?s'"
      using accepted [OF s(7) s1] peerEnded [OF end1(2,7)] by blast+
    then have steps: "server_step\<^sup>*\<^sup>* s ?s'"
      by (meson r_into_rtranclp rtranclp_trans)
    have num: "numConnections (sv_pool s1) = Suc k" "length (connections (sv_pool s1)) = n"
      using ok1 act new s(2) by (auto simp: server_ok_def ok_but_def pool_ok_def)
    have "sv_accepting s1 = (numConnections (sv_pool s1) < length (connections (sv_pool s1)))"
      using s1 by (auto simp: onNewClient_def Let_def split: option.splits prod.splits)
    then have acc: "sv_accepting ?s' = (Suc k < n)"
      using num e(2) by simp
    have aband: "abandoned j ?s'" if "j < Suc k" for j
    proof (cases "j = k")
      case False
      then show ?thesis
        using that s(2) s(5) [of j] act assms(2) e(3,5,6) by (simp add: abandoned_def new)
    qed (use e(1) in simp)
    have rest: "sv_streams ?s' ! j = noStreams" if "j < n" "Suc k \<le> j" for j
      using that s(2,6) e(5) by (simp add: new)
    have "silenced n (Suc k) ?s'"
      unfolding silenced_def using peerEnd_ok [OF ok1 end1(2,7)] e(3,4,6) s(2,3) act acc aband rest taken(6) new by auto
    then show ?thesis
      using steps s1 taken(2) by (auto simp: silentClient_def i)
  qed simp
qed


lemma silentClients_silenced:
  assumes "silenced n 0 s" "k \<le> n"
  shows "\<exists>s'. silentClients wr k s = Some s' \<and> silenced n k s' \<and> server_step\<^sup>*\<^sup>* s s'"
  using assms(2)
proof (induction k)
  case (Suc k)
  then obtain s1 where s1: "silentClients wr k s = Some s1" "silenced n k s1" "server_step\<^sup>*\<^sup>* s s1"
    by auto
  obtain s2 where s2: "silentClient wr s1 = Some s2" "silenced n (Suc k) s2" "server_step\<^sup>*\<^sup>* s1 s2"
    using silentClient_silenced [OF s1(2)] Suc.prems by auto
  show ?case
    using rtranclp_trans [OF s1(3) s2(3)] by (simp add: s1(1) s2(1,2))
qed (simp add: assms(1))

lemma started_silenced:
  assumes "initInternal queues (replicate n (newConnection memory)) (newServer n maxHeader maxRequests) = (s1, None)"
    "server_start None s1 = (s, None)"
  shows "silenced n 0 s"
proof -
  note ok = started_ok [OF assms]
  have eq: "s1 = (newServer n maxHeader maxRequests)\<lparr>sv_pool := emptyPool\<lparr>connections := replicate n (newConnection memory)\<rparr>\<rparr>"
    using assms(1) by (auto simp: newServer_def initInternal_def pool_init_def sc_try_msg_def split: option.splits if_splits)
  have s: "s = s1\<lparr>sv_accepting := True, sv_state := ServerStarted\<rparr>" "n > 0"
    using assms(2) by (auto simp: server_start_def sc_try_msg_def eq split: if_splits)
  show ?thesis
    using ok s(2) unfolding silenced_def s(1) eq by (auto simp: newServer_def activeSet_def newConnection_def)
qed

text \<open>
  C19: the server listens to the end of a connection only after its first response. A client that connects
  and leaves without a request therefore keeps its place for good: as many such clients as there are
  places, one after the other, and whatever happens afterwards the started server accepts nobody, though
  none of the places has a client.
\<close>

theorem silent_clients_exhaust_server:
  assumes "initInternal queues (replicate n (newConnection memory)) (newServer n maxHeader maxRequests) = (s1, None)"
    "server_start None s1 = (s, None)"
  shows "\<exists>s'. silentClients writeFree n s = Some s' \<and> server_step\<^sup>*\<^sup>* s s' \<and>
    (\<forall>i<n. cs_readable (sv_streams s' ! i) = LifeDestroyed) \<and>
    (\<forall>t. server_step\<^sup>*\<^sup>* s' t \<longrightarrow> \<not> sv_accepting t \<and> (sv_state t = ServerStarted \<longrightarrow> numConnections (sv_pool t) = n))"
proof -
  obtain s' where s': "silentClients writeFree n s = Some s'" "silenced n n s'" "server_step\<^sup>*\<^sup>* s s'"
    using silentClients_silenced [OF started_silenced [OF assms] order_refl] by blast
  have "numConnections (sv_pool t) = n \<and> \<not> sv_accepting t" if t: "server_step\<^sup>*\<^sup>* s' t" "sv_state t = ServerStarted" for t
  proof -
    have aband: "abandoned i t" if "i < n" for i
      using steps_abandoned [OF t(1), of i] t(2) that s'(2) by (simp add: silenced_def)
    have ok: "server_ok t" "length (connections (sv_pool t)) = n"
      using steps_ok [OF t(1)] s'(2) reaches_length [of n t] assms s'(3) t(1) unfolding server_reaches_def silenced_def
      by (blast, metis rtranclp_trans)
    have "{..<n} \<subseteq> activeSet (sv_pool t)"
      using aband by (auto simp: abandoned_def)
    then have "numConnections (sv_pool t) = n"
      using ok full_iff [of "sv_pool t"] activeSet_bound [of _ "sv_pool t"] by (auto simp: server_ok_def ok_but_def pool_ok_def)
    then show ?thesis
      using ok by (auto simp: server_ok_def ok_but_def)
  qed
  moreover have "\<not> sv_accepting t" if "server_step\<^sup>*\<^sup>* s' t" "sv_state t \<noteq> ServerStarted" for t
    using steps_ok [OF that(1)] that(2) s'(2) by (auto simp: silenced_def server_ok_def ok_but_def)
  moreover have "\<forall>i<n. cs_readable (sv_streams s' ! i) = LifeDestroyed"
    using s'(2) by (simp add: silenced_def abandoned_def)
  ultimately show ?thesis
    using s'(1,3) by blast
qed


section \<open>Keep alive\<close>

lemma keepAlive_out_reset: "getKeepAlive (out_reset m)"
  by (simp add: out_reset_def getKeepAlive_def)

text \<open>The head of a request is complete, its body can be prepared, and the connection stays with HTTP.\<close>

lemma onStreams_twice: "i < length (sv_streams s) \<Longrightarrow> onStreams i f (onStreams i g s) = onStreams i (\<lambda>c. f (g c)) s"
  by (simp add: onStreams_def)

lemma onConnection_twice: "i < length (connections (sv_pool s)) \<Longrightarrow> onConnection i f (onConnection i g s) = onConnection i (\<lambda>c. f (g c)) s"
  by (simp add: onConnection_def connectionAt_def)

lemma onConnection_onStreams: "onConnection i f (onStreams i g s) = onStreams i g (onConnection i f s)"
  by (simp add: onConnection_def onStreams_def connectionAt_def)

lemma received_head:
  assumes "i < length (sv_streams s)" "i < length (connections (sv_pool s))"
    "request_writeHeaders (sv_maxHeaderSize s) d (\<lambda>d u. if unshiftOk then Some u else None) (cn_request (connectionAt i s), ()) = ((p, ()), r, None)"
    "headersEndReceived p" "prepareBodyStream p False (cn_requestBody (connectionAt i s)) = (b, None)"
    "onRequest (out_reset (out_setHeaderMemory (availableHeader p) (cn_response (connectionAt i s)))) = (m, False)"
    "\<not> cn_webSocketUpgraded (connectionAt i s)"
  shows "onStreamReceive unshiftOk onRequest rf wr d i s =
    onStreams i (\<lambda>c. c\<lparr>cs_data := cs_data c - 1,
        cs_end := cs_end c - (if cn_requestCount (connectionAt i s) > 0 then 1 else 0),
        cs_bodyData := cs_bodyData c + (if bodyFramingKind b = Chunked \<or> bodyFramingKind b = FixedLength then 1 else 0), cs_finish := cs_finish c + 1\<rparr>)
     (onConnection i (\<lambda>c. c\<lparr>cn_request := p, cn_requestBody := b, cn_response := m\<rparr>) s)"
proof -
  let ?framed = "bodyFramingKind b = Chunked \<or> bodyFramingKind b = FixedLength"
  have "onStreamReceive unshiftOk onRequest rf wr d i s =
      onStreams i (\<lambda>c. c\<lparr>cs_finish := cs_finish c + 1\<rparr>)
       (onConnection i (\<lambda>c. c\<lparr>cn_response := m, cn_webSocketUpgraded := cn_webSocketUpgraded c\<rparr>)
        ((if ?framed then onStreams i (\<lambda>c. c\<lparr>cs_bodyData := cs_bodyData c + 1\<rparr>) else (\<lambda>s. s))
         (onConnection i (\<lambda>c. c\<lparr>cn_requestBody := b\<rparr>)
          (onStreams i (\<lambda>c. c\<lparr>cs_data := cs_data c - 1, cs_end := cs_end c - (if cn_requestCount (connectionAt i s) > 0 then 1 else 0)\<rparr>)
           (onConnection i (\<lambda>c. c\<lparr>cn_request := p, cn_response := out_reset (out_setHeaderMemory (availableHeader p) (cn_response c))\<rparr>) s)))))"
    using assms by (simp add: onStreamReceive_def Let_def onConnection_nth onConnection_twice)
  then show ?thesis
    using assms(1,2) by (simp add: onStreams_twice onConnection_twice onConnection_onStreams)
qed

text \<open>One call of \<open>AfterWrite\<close> that keeps the connection.\<close>

lemma afterWrite_keeps:
  assumes "i < length (sv_streams s)" "length (sv_streams s) = length (connections (sv_pool s))" "sv_state s = ServerStarted"
    "getKeepAlive (cn_response (connectionAt i s))" "cs_readable (sv_streams s ! i) = LifeOpen"
    "sv_maxRequests s = 0 \<or> cn_requestCount (connectionAt i s) + 1 < sv_maxRequests s"
  shows "sv_streams (afterWrite rf wr i s) ! i = (sv_streams s ! i)\<lparr>cs_finish := cs_finish (sv_streams s ! i) - 1,
      cs_data := cs_data (sv_streams s ! i) + 1, cs_end := cs_end (sv_streams s ! i) + 1\<rparr>"
    "cn_requestCount (connectionAt i (afterWrite rf wr i s)) = cn_requestCount (connectionAt i s) + 1"
    "getKeepAlive (cn_response (connectionAt i (afterWrite rf wr i s)))" "sv_state (afterWrite rf wr i s) = ServerStarted"
    "sv_maxRequests (afterWrite rf wr i s) = sv_maxRequests s" "length (sv_streams (afterWrite rf wr i s)) = length (sv_streams s)"
    "length (connections (sv_pool (afterWrite rf wr i s))) = length (connections (sv_pool s))"
    "cn_active (connectionAt i (afterWrite rf wr i s)) = cn_active (connectionAt i s)"
  using assms by (simp_all add: afterWrite_def Let_def onStreams_nth onConnection_nth)
   (simp add: out_reset_def getKeepAlive_def)

text \<open>
  C20: whether a connection is kept after a response depends on the response alone, and \<open>onStreamReceive\<close>
  resets it when the head of the request is complete. So the mark that \<open>activateNew\<close> leaves on the response
  of the last free place, to close it after one response, is lost, and neither that nor \<open>Connection: close\<close>
  in the request closes the connection: it goes on to wait for the next request.
\<close>

theorem keep_alive_ignores_request:
  assumes "server_reaches n s" "i < n" "sv_state s = ServerStarted" "cs_readable (sv_streams s ! i) = LifeOpen"
    "request_writeHeaders (sv_maxHeaderSize s) d (\<lambda>d u. if unshiftOk then Some u else None) (cn_request (connectionAt i s), ()) = ((p, ()), r, None)"
    "headersEndReceived p" "prepareBodyStream p False (cn_requestBody (connectionAt i s)) = (b, None)"
    "\<And>m. getKeepAlive (fst (onRequest m)) = getKeepAlive m \<and> \<not> snd (onRequest m)" "\<not> cn_webSocketUpgraded (connectionAt i s)"
    "sv_maxRequests s = 0 \<or> cn_requestCount (connectionAt i s) + 1 < sv_maxRequests s"
  shows "cn_active (connectionAt i (afterWrite readFree writeFree i (onStreamReceive unshiftOk onRequest readFree writeFree d i s))) \<and>
    cn_requestCount (connectionAt i (afterWrite readFree writeFree i (onStreamReceive unshiftOk onRequest readFree writeFree d i s))) =
      cn_requestCount (connectionAt i s) + 1 \<and>
    cs_readable (sv_streams (afterWrite readFree writeFree i (onStreamReceive unshiftOk onRequest readFree writeFree d i s)) ! i) = LifeOpen"
proof -
  have len: "i < length (sv_streams s)" "i < length (connections (sv_pool s))"
    using reaches_ok [OF assms(1)] reaches_length [OF assms(1)] assms(2) by (simp_all add: server_ok_def ok_but_def)
  note ok = reaches_ok [OF assms(1)]
  have active: "cn_active (connectionAt i s)"
    using alive_active(1) [OF reaches_ok [OF assms(1)] len(1)] assms(4) by simp
  obtain m where m: "onRequest (out_reset (out_setHeaderMemory (availableHeader p) (cn_response (connectionAt i s)))) = (m, False)"
      "getKeepAlive m"
    using assms(8) [of "out_reset (out_setHeaderMemory (availableHeader p) (cn_response (connectionAt i s)))"] by (metis keepAlive_out_reset prod.collapse)
  let ?s' = "onStreamReceive unshiftOk onRequest readFree writeFree d i s"
  have s': "?s' = onStreams i (\<lambda>c. c\<lparr>cs_data := cs_data c - 1,
        cs_end := cs_end c - (if cn_requestCount (connectionAt i s) > 0 then 1 else 0),
        cs_bodyData := cs_bodyData c + (if bodyFramingKind b = Chunked \<or> bodyFramingKind b = FixedLength then 1 else 0), cs_finish := cs_finish c + 1\<rparr>)
      (onConnection i (\<lambda>c. c\<lparr>cn_request := p, cn_requestBody := b, cn_response := m\<rparr>) s)"
    by (rule received_head) (fact len assms m)+
  have at: "cn_active (connectionAt i ?s') = cn_active (connectionAt i s)" "cn_requestCount (connectionAt i ?s') = cn_requestCount (connectionAt i s)"
      "cs_readable (sv_streams ?s' ! i) = cs_readable (sv_streams s ! i)"
    using len by (simp_all add: s' onConnection_nth onStreams_nth)
  have "i < length (sv_streams ?s')" "length (sv_streams ?s') = length (connections (sv_pool ?s'))" "sv_state ?s' = ServerStarted"
      "getKeepAlive (cn_response (connectionAt i ?s'))" "cs_readable (sv_streams ?s' ! i) = LifeOpen"
      "sv_maxRequests ?s' = 0 \<or> cn_requestCount (connectionAt i ?s') + 1 < sv_maxRequests ?s'"
    using len assms(3,4,10) m(2) ok by (simp_all add: s' onConnection_nth onStreams_nth server_ok_def ok_but_def)
  note after = afterWrite_keeps [OF this, of readFree writeFree]
  show ?thesis
    using active assms(4) by (simp add: after at)
qed

section \<open>Listeners that outlive their connection\<close>

lemma finish_onStreams [simp]:
  "i < length (sv_streams t) \<Longrightarrow> (\<And>c. cs_finish (f c) = cs_finish c) \<Longrightarrow> cs_finish (sv_streams (onStreams j f t) ! i) = cs_finish (sv_streams t ! i)"
  by (simp add: onStreams_nth)

lemma finish_destroyed [simp]:
  assumes "i < length (sv_streams s)"
  shows "cs_finish (sv_streams (readDestroyed j s) ! i) = cs_finish (sv_streams s ! i)"
    "cs_finish (sv_streams (writeDestroyed j s) ! i) = cs_finish (sv_streams s ! i)"
  using assms by (simp_all add: readDestroyed_def writeDestroyed_def deactivateConnection_def Let_def)

lemma finish_close:
  assumes "i < length (sv_streams s)"
  shows "cs_finish (sv_streams (closeReadable rf j s) ! i) = cs_finish (sv_streams s ! i)"
    "cs_finish (sv_streams (closeWritable wr j s) ! i) = cs_finish (sv_streams s ! i)"
  using assms by (simp_all add: closeReadable_def closeWritable_def Let_def)

lemma finish_closeAsync:
  assumes "i < length (sv_streams s)"
  shows "cs_finish (sv_streams (closeAsync rf wr j s) ! i) = cs_finish (sv_streams s ! i)"
proof -
  let ?Q = "\<lambda>t. length (sv_streams t) = length (sv_streams s) \<and> cs_finish (sv_streams t ! i) = cs_finish (sv_streams s ! i)"
  have either: "?Q x \<Longrightarrow> ?Q y \<Longrightarrow> ?Q (if b then x else y)" for b x y
    by simp
  have close: "?Q (closeReadable rf j t)" "?Q (closeWritable wr j t)" "?Q (deactivateConnection j t)" if "?Q t" for t
    using that finish_close [of i t] assms by (simp_all add: deactivateConnection_def Let_def)
  have change: "?Q (onStreams j f t)" if "?Q t" "\<And>c. cs_finish (f c) = cs_finish c" for f t
    using that assms by simp
  have connection: "?Q (onConnection j f t)" if "?Q t" for f t
    using that by simp
  have "?Q (closeAsync rf wr j s)"
    unfolding closeAsync_def Let_def by (intro either close change connection) simp_all
  then show ?thesis ..
qed

lemma afterWrite_repeat:
  assumes "i < length (sv_streams s)" "length (sv_streams s) = length (connections (sv_pool s))" "sv_state s = ServerStarted"
    "getKeepAlive (cn_response (connectionAt i s))" "cs_readable (sv_streams s ! i) = LifeOpen"
    "sv_maxRequests s = 0 \<or> cn_requestCount (connectionAt i s) + k < sv_maxRequests s"
  shows "sv_streams ((afterWrite rf wr i ^^ k) s) ! i = (sv_streams s ! i)\<lparr>cs_finish := cs_finish (sv_streams s ! i) - k,
      cs_data := cs_data (sv_streams s ! i) + k, cs_end := cs_end (sv_streams s ! i) + k\<rparr> \<and>
    cn_requestCount (connectionAt i ((afterWrite rf wr i ^^ k) s)) = cn_requestCount (connectionAt i s) + k"
  using assms
proof (induction k arbitrary: s)
  case (Suc k)
  let ?t = "afterWrite rf wr i s"
  have lim: "sv_maxRequests s = 0 \<or> cn_requestCount (connectionAt i s) + 1 < sv_maxRequests s"
    using Suc.prems(6) by auto
  note one = afterWrite_keeps [OF Suc.prems(1-5) lim, of rf wr]
  have "i < length (sv_streams ?t)" "length (sv_streams ?t) = length (connections (sv_pool ?t))" "cs_readable (sv_streams ?t ! i) = LifeOpen"
      "sv_maxRequests ?t = 0 \<or> cn_requestCount (connectionAt i ?t) + k < sv_maxRequests ?t"
    using Suc.prems(1,2,5,6) by (simp_all add: one)
  from Suc.IH [OF this(1,2) one(4,3) this(3,4)] show ?case
    by (simp add: one(1,2) funpow_swap1)
qed simp

text \<open>
  Closing a connection does not remove the listener that waits for the end of its response, and a new
  client on the same place does not either. When the next response there ends, every listener left behind
  runs too: each one counts a request and registers the listeners for data and for the end once more, so
  that every further buffer is parsed several times and \<open>maxRequestsPerConnection\<close> is reached early.
\<close>

theorem finish_listener_survives:
  assumes "server_reaches n s" "i < n" "sv_state s = ServerStarted" "cs_readable (sv_streams s ! i) = LifeOpen"
    "getKeepAlive (cn_response (connectionAt i s))" "cs_finish (sv_streams s ! i) = k"
    "sv_maxRequests s = 0 \<or> cn_requestCount (connectionAt i s) + k < sv_maxRequests s"
  shows "(\<forall>readFree writeFree. cs_finish (sv_streams (closeAsync readFree writeFree i s) ! i) = k) \<and>
    (\<forall>e s'. onNewClient e s = Some s' \<longrightarrow> (\<forall>j<n. cs_finish (sv_streams s' ! j) = cs_finish (sv_streams s ! j))) \<and>
    (\<forall>readFree writeFree. cn_requestCount (connectionAt i (onResponseFinished readFree writeFree i s)) = cn_requestCount (connectionAt i s) + k \<and>
      cs_data (sv_streams (onResponseFinished readFree writeFree i s) ! i) = cs_data (sv_streams s ! i) + k \<and>
      cs_end (sv_streams (onResponseFinished readFree writeFree i s) ! i) = cs_end (sv_streams s ! i) + k)"
proof -
  have len: "i < length (sv_streams s)" "length (sv_streams s) = length (connections (sv_pool s))" "length (sv_streams s) = n"
    using reaches_ok [OF assms(1)] reaches_length [OF assms(1)] assms(2) by (simp_all add: server_ok_def ok_but_def)
  have new: "cs_finish (sv_streams s' ! j) = cs_finish (sv_streams s ! j)" if "onNewClient e s = Some s'" "j < n" for e s' j
    using that(1)
  proof (cases rule: onNewClient_cases)
    case (taken l)
    then show ?thesis
      using that(2) len by (simp add: nth_list_update)
  qed simp
  have k: "cs_finish (sv_streams (closeAsync rf wr i s) ! i) = k" for rf wr
    by (simp add: finish_closeAsync [OF len(1)] assms(6))
  have run: "sv_streams (onResponseFinished rf wr i s) ! i = (sv_streams s ! i)\<lparr>cs_finish := cs_finish (sv_streams s ! i) - k,
        cs_data := cs_data (sv_streams s ! i) + k, cs_end := cs_end (sv_streams s ! i) + k\<rparr> \<and>
      cn_requestCount (connectionAt i (onResponseFinished rf wr i s)) = cn_requestCount (connectionAt i s) + k" for rf wr
    using afterWrite_repeat [OF len(1,2) assms(3,5,4,7)] by (simp add: onResponseFinished_def assms(6))
  show ?thesis
    using k new run by simp
qed


section \<open>Witnesses\<close>

definition sampleStarted :: asyncServer where
  "sampleStarted = (newServer 1 4096 0)\<lparr>sv_pool := emptyPool\<lparr>connections := replicate 1 (newConnection 4096)\<rparr>,
     sv_accepting := True, sv_state := ServerStarted\<rparr>"

lemma sample_start:
  "initInternal [] (replicate 1 (newConnection 4096)) (newServer 1 4096 0) = ((newServer 1 4096 0)\<lparr>sv_pool := emptyPool\<lparr>connections := replicate 1 (newConnection 4096)\<rparr>\<rparr>, None)"
  "server_start None ((newServer 1 4096 0)\<lparr>sv_pool := emptyPool\<lparr>connections := replicate 1 (newConnection 4096)\<rparr>\<rparr>) = (sampleStarted, None)"
  by (simp_all add: initInternal_def pool_init_def sc_try_msg_def newServer_def emptyPool_def newConnection_def server_start_def sampleStarted_def)

lemma sample_reaches: "server_step\<^sup>*\<^sup>* sampleStarted t \<Longrightarrow> server_reaches 1 t"
  unfolding server_reaches_def using sample_start by blast

definition sampleClient :: asyncServer where
  "sampleClient = the (onNewClient None sampleStarted)"

lemma sampleClient_step: "server_step sampleStarted sampleClient"
proof (rule accepted)
  show "sv_accepting sampleStarted"
    by code_simp
  show "onNewClient None sampleStarted = Some sampleClient"
    by code_simp
qed

theorem server_invariant_witness:
  "server_reaches 1 sampleClient \<and> numConnections (sv_pool sampleClient) = card {i. i < 1 \<and> cn_active (connectionAt i sampleClient)} \<and>
   numConnections (sv_pool sampleClient) = 1 \<and> \<not> sv_accepting sampleClient"
proof -
  have r: "server_reaches 1 sampleClient"
    by (rule sample_reaches) (rule r_into_rtranclp [of server_step, OF sampleClient_step])
  moreover have "numConnections (sv_pool sampleClient) = 1" "\<not> sv_accepting sampleClient"
    by code_simp+
  ultimately show ?thesis
    using server_invariant [OF r] by blast
qed

theorem accept_error_is_final_witness:
  "sv_accepting sampleStarted \<and> \<not> sv_accepting (the (onNewClient (Some ''accept'') sampleStarted))"
proof -
  have "sv_accepting sampleStarted" "server_reaches 1 sampleStarted"
      "onNewClient (Some ''accept'') sampleStarted = Some (the (onNewClient (Some ''accept'') sampleStarted))"
    by (code_simp, rule sample_reaches [OF rtranclp.rtrancl_refl], simp add: onNewClient_def)
  then show ?thesis
    using accept_error_is_final [of 1 sampleStarted "''accept''" _ "the (onNewClient (Some ''accept'') sampleStarted)"] by blast
qed

theorem silent_clients_exhaust_server_witness:
  "\<exists>s'. silentClients True 1 sampleStarted = Some s' \<and> (\<forall>t. server_step\<^sup>*\<^sup>* s' t \<longrightarrow> \<not> sv_accepting t)"
  using silent_clients_exhaust_server [OF sample_start, of True] by blast

definition closeRequest :: "char list" where
  "closeRequest = ''GET / HTTP/1.1'' @ [CHR 0x0D, CHR 0x0A] @ ''Connection: close'' @ [CHR 0x0D, CHR 0x0A, CHR 0x0D, CHR 0x0A]"

definition closeHead :: parsedHeaders where
  "closeHead = fst (fst (request_writeHeaders 4096 closeRequest (\<lambda>d u. Some u) (headers_reset Request 4096, ())))"

lemma closeHead_received:
  "snd (request_writeHeaders 4096 closeRequest (\<lambda>d u. Some u) (headers_reset Request 4096, ())) = (Some (''/'', 0), None)"
  "headersEndReceived closeHead" "snd (prepareBodyStream closeHead False resetIncoming) = None"
  by code_simp+


lemma sampleClient_simps:
  "sv_streams sampleClient = [noStreams\<lparr>cs_readable := LifeOpen, cs_writable := LifeOpen, cs_data := 1\<rparr>]"
  "connectionAt 0 sampleClient = (newConnection 4096)\<lparr>cn_active := True,
     cn_response := (out_setHeaderMemory 4096 (cn_response (newConnection 4096)))\<lparr>forceDisableKeepAlive := True\<rparr>\<rparr>"
  "sv_state sampleClient = ServerStarted" "sv_maxHeaderSize sampleClient = 4096" "sv_maxRequests sampleClient = 0"
  "length (connections (sv_pool sampleClient)) = 1"
  by (simp_all add: sampleClient_def sampleStarted_def newServer_def emptyPool_def onNewClient_def activateNew_def activateAt_def
      beginHttpConnection_def onStreams_def connectionAt_def newConnection_def noStreams_def Let_def)

lemma sampleClient_reaches: "server_reaches 1 sampleClient"
  by (rule sample_reaches) (rule r_into_rtranclp [of server_step, OF sampleClient_step])

theorem keep_alive_ignores_request_witness:
  "getHeader closeHead ''Connection'' = Some ''close'' \<and> forceDisableKeepAlive (cn_response (connectionAt 0 sampleClient)) \<and>
   cn_active (connectionAt 0 (afterWrite True True 0 (onStreamReceive True (\<lambda>m. (m, False)) True True closeRequest 0 sampleClient)))"
proof -
  have client: "cs_readable (sv_streams sampleClient ! 0) = LifeOpen" "cn_request (connectionAt 0 sampleClient) = headers_reset Request 4096"
      "cn_requestBody (connectionAt 0 sampleClient) = resetIncoming" "\<not> cn_webSocketUpgraded (connectionAt 0 sampleClient)"
    by (simp_all add: sampleClient_simps newConnection_def)
  have run: "request_writeHeaders (sv_maxHeaderSize sampleClient) closeRequest (\<lambda>d u. if True then Some u else None)
      (cn_request (connectionAt 0 sampleClient), ()) = ((closeHead, ()), Some (''/'', 0), None)"
    using closeHead_received(1) by (simp add: client(2) sampleClient_simps(4) closeHead_def prod_eq_iff)
  obtain b where b: "prepareBodyStream closeHead False (cn_requestBody (connectionAt 0 sampleClient)) = (b, None)"
    using closeHead_received(3) by (metis client(3) prod.collapse)
  have "getHeader closeHead ''Connection'' = Some ''close''"
    by code_simp
  then show ?thesis
    using keep_alive_ignores_request [OF sampleClient_reaches zero_less_one sampleClient_simps(3) client(1) run closeHead_received(2) b,
        of "\<lambda>m. (m, False)" True True] client(4) by (simp add: sampleClient_simps(2,5))
qed


text \<open>A client whose body cannot be read is closed; another one takes its place and sends a request.\<close>

definition bodyRequest :: "char list" where
  "bodyRequest = ''PUT / HTTP/1.1'' @ [CHR 0x0D, CHR 0x0A] @ ''Content-Length: 1'' @ [CHR 0x0D, CHR 0x0A, CHR 0x0D, CHR 0x0A]"

definition bodyHead :: parsedHeaders where
  "bodyHead = fst (fst (request_writeHeaders 4096 bodyRequest (\<lambda>d u. Some u) (headers_reset Request 4096, ())))"

lemma bodyHead_written:
  "snd (request_writeHeaders 4096 bodyRequest (\<lambda>d u. Some u) (headers_reset Request 4096, ())) = (Some (''/'', 1), None)"
  by code_simp

lemma bodyHead_received: "headersEndReceived bodyHead"
  by code_simp

lemma bodyHead_prepared:
  "(case prepareBodyStream bodyHead False resetIncoming of (b, e) \<Rightarrow> bodyFramingKind b = FixedLength \<and> e = None)"
  by code_simp

lemma closeHead_body: "bodyFramingKind (fst (prepareBodyStream closeHead False resetIncoming)) = NoBody"
  by code_simp

text \<open>A server with one place whose connection is \<open>c\<close>, and whose streams are \<open>st\<close>.\<close>

definition onePlace :: "poolConnection \<Rightarrow> connectionStreams \<Rightarrow> asyncServer \<Rightarrow> bool" where
  "onePlace c st s \<longleftrightarrow> connections (sv_pool s) = [c] \<and> sv_streams s = [st] \<and> sv_state s = ServerStarted \<and> sv_maxHeaderSize s = 4096 \<and>
     sv_maxRequests s = 0 \<and> numConnections (sv_pool s) = (if cn_active c then 1 else 0)"

lemma onePlace_received:
  assumes "onePlace c st s" "cn_request c = headers_reset Request 4096" "cn_requestBody c = resetIncoming" "\<not> cn_webSocketUpgraded c"
    "snd (request_writeHeaders 4096 d (\<lambda>d u. Some u) (headers_reset Request 4096, ())) = (r, None)"
    "p = fst (fst (request_writeHeaders 4096 d (\<lambda>d u. Some u) (headers_reset Request 4096, ())))" "headersEndReceived p"
    "snd (prepareBodyStream p False resetIncoming) = None"
  shows "onePlace (c\<lparr>cn_request := p, cn_requestBody := fst (prepareBodyStream p False resetIncoming),
       cn_response := out_reset (out_setHeaderMemory (availableHeader p) (cn_response c))\<rparr>)
     (st\<lparr>cs_data := cs_data st - 1, cs_end := cs_end st - (if cn_requestCount c > 0 then 1 else 0),
       cs_bodyData := cs_bodyData st + (if bodyFramingKind (fst (prepareBodyStream p False resetIncoming)) \<in> {Chunked, FixedLength} then 1 else 0),
       cs_finish := cs_finish st + 1\<rparr>)
     (onStreamReceive True (\<lambda>m. (m, False)) True True d 0 s)"
proof -
  have s: "connectionAt 0 s = c" "sv_maxHeaderSize s = 4096" "sv_streams s = [st]" "length (connections (sv_pool s)) = 1"
    using assms(1) by (simp_all add: onePlace_def connectionAt_def)
  have run: "request_writeHeaders (sv_maxHeaderSize s) d (\<lambda>d u. if True then Some u else None) (cn_request (connectionAt 0 s), ()) =
      ((p, ()), r, None)"
    using assms(5) by (simp add: s assms(2,6) prod_eq_iff)
  have body: "prepareBodyStream p False (cn_requestBody (connectionAt 0 s)) = (fst (prepareBodyStream p False resetIncoming), None)"
    using assms(8) by (simp add: s assms(3) prod_eq_iff)
  have len: "0 < length (sv_streams s)" "0 < length (connections (sv_pool s))"
    by (simp_all add: s)
  show ?thesis
    unfolding received_head [OF len run assms(7) body, where onRequest = "\<lambda>m. (m, False)", OF refl, unfolded s(1), OF assms(4)]
    using assms(1) by (simp add: onePlace_def onStreams_def onConnection_def connectionAt_def)
qed


lemma onePlace_client:
  assumes "onePlace c st s" "\<not> cn_active c"
  shows "onePlace (c\<lparr>cn_active := True, cn_connectionID := 0, cn_request := headers_reset Request (cn_headerMemory c), cn_requestBody := resetIncoming,
      cn_response := (out_setHeaderMemory (cn_headerMemory c) (cn_response c))\<lparr>forceDisableKeepAlive := True\<rparr>\<rparr>)
    (st\<lparr>cs_readable := LifeOpen, cs_writable := LifeOpen, cs_data := cs_data st + 1\<rparr>) (the (onNewClient None s))"
  using assms by (simp add: onePlace_def onNewClient_def activateNew_def activateAt_def beginHttpConnection_def onStreams_def Let_def)

lemma onePlace_bodyError:
  assumes "onePlace c st s" "cn_active c" "cs_readable st = LifeOpen" "cs_writable st = LifeOpen"
  shows "onePlace (connection_reset (c\<lparr>cn_requestBody := b, cn_requestCount := 0\<rparr>))
    (st\<lparr>cs_data := cs_data st - 1, cs_bodyData := cs_bodyData st - 1, cs_end := cs_end st - 1, cs_close := cs_close st - 1,
      cs_onReadClose := 0, cs_readable := LifeDestroyed, cs_onWriteClose := 0, cs_writable := LifeDestroyed\<rparr>)
    (onRequestBodyData True True b (Some msg) 0 s)"
  using assms by (simp add: onePlace_def onRequestBodyData_def closeAsync_def closeReadable_def closeWritable_def readDestroyed_def writeDestroyed_def
      deactivateConnection_def deactivate_def connection_reset_def onStreams_def onConnection_def connectionAt_def reportError_def Let_def)


definition sampleBody :: asyncServer where
  "sampleBody = onStreamReceive True (\<lambda>m. (m, False)) True True bodyRequest 0 sampleClient"

definition sampleFailed :: asyncServer where
  "sampleFailed = onRequestBodyData True True resetIncoming (Some ''chunk'') 0 sampleBody"

definition sampleNext :: asyncServer where
  "sampleNext = the (onNewClient None sampleFailed)"

definition sampleTwice :: asyncServer where
  "sampleTwice = onStreamReceive True (\<lambda>m. (m, False)) True True closeRequest 0 sampleNext"

abbreviation listening :: "connectionStreams \<Rightarrow> nat \<Rightarrow> connectionStreams" where
  "listening st k \<equiv> st\<lparr>cs_readable := LifeOpen, cs_writable := LifeOpen, cs_finish := k\<rparr>"

lemma sampleBody_place:
  "\<exists>c. onePlace c (listening noStreams 1\<lparr>cs_bodyData := 1\<rparr>) sampleBody \<and> cn_active c \<and> cn_headerMemory c = 4096 \<and> cn_requestCount c = 0"
proof -
  have c: "cn_request (connectionAt 0 sampleClient) = headers_reset Request 4096" "cn_requestBody (connectionAt 0 sampleClient) = resetIncoming"
      "\<not> cn_webSocketUpgraded (connectionAt 0 sampleClient)"
    by (simp_all add: sampleClient_simps(2) newConnection_def)
  have place: "onePlace (connectionAt 0 sampleClient) (noStreams\<lparr>cs_readable := LifeOpen, cs_writable := LifeOpen, cs_data := 1\<rparr>) sampleClient"
  proof -
    have "connections (sv_pool sampleClient) = [connectionAt 0 sampleClient]"
      using sampleClient_simps(6) by (simp add: connectionAt_def list_eq_iff_nth_eq)
    moreover have "numConnections (sv_pool sampleClient) = 1"
      by code_simp
    ultimately show ?thesis
      using sampleClient_simps by (simp add: onePlace_def)
  qed
  have b: "snd (prepareBodyStream bodyHead False resetIncoming) = None" "bodyFramingKind (fst (prepareBodyStream bodyHead False resetIncoming)) = FixedLength"
    using bodyHead_prepared by (simp_all add: case_prod_beta)
  show ?thesis
    using onePlace_received [OF place c bodyHead_written bodyHead_def bodyHead_received b(1)] b(2)
    by (intro exI conjI) (auto simp: sampleBody_def noStreams_def sampleClient_simps(2) newConnection_def)
qed

lemma sampleTwice_place:
  "\<exists>c. onePlace c (listening noStreams 2) sampleTwice \<and> cn_requestCount c = 0 \<and> getKeepAlive (cn_response c)"
proof -
  obtain c where c: "onePlace c (listening noStreams 1\<lparr>cs_bodyData := 1\<rparr>) sampleBody" "cn_active c" "cn_headerMemory c = 4096"
    using sampleBody_place by blast
  let ?d = "connection_reset (c\<lparr>cn_requestBody := resetIncoming, cn_requestCount := 0\<rparr>)"
  have failed: "onePlace ?d (noStreams\<lparr>cs_finish := 1\<rparr>) sampleFailed"
    using onePlace_bodyError [OF c(1,2), of resetIncoming "''chunk''"] by (simp add: sampleFailed_def noStreams_def)
  have d: "\<not> cn_active ?d" "cn_headerMemory ?d = 4096" "\<not> cn_webSocketUpgraded ?d" "cn_requestCount ?d = 0"
    by (simp_all add: connection_reset_def c(3))
  note client = onePlace_client [OF failed d(1)]
  have b: "snd (prepareBodyStream closeHead False resetIncoming) = None" "bodyFramingKind (fst (prepareBodyStream closeHead False resetIncoming)) = NoBody"
    using closeHead_received(3) closeHead_body by simp_all
  let ?c = "?d\<lparr>cn_active := True, cn_connectionID := 0, cn_request := closeHead, cn_requestBody := fst (prepareBodyStream closeHead False resetIncoming),
      cn_response := out_reset (out_setHeaderMemory (availableHeader closeHead) ((out_setHeaderMemory 4096 (cn_response ?d))\<lparr>forceDisableKeepAlive := True\<rparr>))\<rparr>"
  have "onePlace ?c (listening noStreams 2) sampleTwice"
    using onePlace_received [OF client _ _ _ closeHead_received(1) closeHead_def closeHead_received(2) b(1)] b(2) d
    by (simp add: sampleTwice_def sampleNext_def noStreams_def numeral_2_eq_2)
  then show ?thesis
    using d(4) by (intro exI [of _ ?c] conjI) (simp_all add: keepAlive_out_reset)
qed

lemma sampleTwice_reaches: "server_step\<^sup>*\<^sup>* sampleStarted sampleTwice"
proof -
  have "server_step sampleClient sampleBody"
    using received [of 0 sampleClient True "\<lambda>m. (m, False)" True True bodyRequest] by (simp add: sampleBody_def sampleClient_simps(1))
  moreover obtain c where c: "onePlace c (listening noStreams 1\<lparr>cs_bodyData := 1\<rparr>) sampleBody" "cn_active c" "cn_headerMemory c = 4096"
    using sampleBody_place by blast
  then have "server_step sampleBody sampleFailed"
    using bodyReceived [of 0 sampleBody True True resetIncoming "Some ''chunk''"] by (simp add: sampleFailed_def onePlace_def)
  moreover
  have failed: "onePlace (connection_reset (c\<lparr>cn_requestBody := resetIncoming, cn_requestCount := 0\<rparr>)) (noStreams\<lparr>cs_finish := 1\<rparr>) sampleFailed"
    using onePlace_bodyError [OF c(1,2), of resetIncoming "''chunk''"] by (simp add: sampleFailed_def noStreams_def)
  have "server_step sampleFailed sampleNext"
  proof (rule accepted)
    show "sv_accepting sampleFailed"
      using c by (simp add: sampleFailed_def onePlace_def onRequestBodyData_def closeAsync_def closeReadable_def closeWritable_def readDestroyed_def
          writeDestroyed_def deactivateConnection_def deactivate_def onStreams_def onConnection_def connectionAt_def reportError_def Let_def noStreams_def)
    show "onNewClient None sampleFailed = Some sampleNext"
      using failed by (simp add: sampleNext_def onePlace_def onNewClient_def activateNew_def connection_reset_def Let_def)
  qed
  moreover have "server_step sampleNext sampleTwice"
    using received [of 0 sampleNext True "\<lambda>m. (m, False)" True True closeRequest] onePlace_client [OF failed]
    by (simp add: sampleTwice_def sampleNext_def onePlace_def connection_reset_def noStreams_def)
  ultimately show ?thesis
    using sampleClient_step by (meson r_into_rtranclp rtranclp_trans)
qed

theorem finish_listener_survives_witness:
  "server_reaches 1 sampleTwice \<and> cn_requestCount (connectionAt 0 sampleTwice) = 0 \<and>
   cn_requestCount (connectionAt 0 (onResponseFinished True True 0 sampleTwice)) = 2 \<and>
   cs_data (sv_streams (onResponseFinished True True 0 sampleTwice) ! 0) = 2"
proof -
  have r: "server_reaches 1 sampleTwice"
    using sample_reaches [OF sampleTwice_reaches] .
  obtain c where c: "onePlace c (listening noStreams 2) sampleTwice" "cn_requestCount c = 0" "getKeepAlive (cn_response c)"
    using sampleTwice_place by blast
  then have s: "sv_state sampleTwice = ServerStarted" "cs_readable (sv_streams sampleTwice ! 0) = LifeOpen"
      "getKeepAlive (cn_response (connectionAt 0 sampleTwice))" "cs_finish (sv_streams sampleTwice ! 0) = 2"
      "cs_data (sv_streams sampleTwice ! 0) = 0" "cn_requestCount (connectionAt 0 sampleTwice) = 0" "sv_maxRequests sampleTwice = 0"
    by (simp_all add: onePlace_def connectionAt_def noStreams_def)
  show ?thesis
    using finish_listener_survives [OF r zero_less_one s(1-4)] r s(5-7) by simp
qed

end
