(* ===== verification/CircularQueue.thy ===== *)
theory CircularQueue
  imports Prelude
begin

text \<open>
  \<open>CircularQueue\<close> of \<open>Libraries/AsyncStreams/Internal/CircularQueue.h\<close>: a ring buffer on an array of the
  caller. It uses one element less than the array has. The indices are 32 bits wide in the source; an
  array is taken to have less than \<open>2 ^ 32\<close> elements, so that \<open>writeIndex + 1\<close> does not wrap around.
\<close>

section \<open>The queue\<close>

record 'a circularQueue =
  buffer :: "'a list"
  readIndex :: nat
  writeIndex :: nat

definition cq_new :: "'a list \<Rightarrow> 'a circularQueue" where
  "cq_new b = \<lparr>buffer = b, readIndex = 0, writeIndex = 0\<rparr>"

definition cq_size :: "'a circularQueue \<Rightarrow> nat" where
  "cq_size q = length (buffer q)"

definition isEmpty :: "'a circularQueue \<Rightarrow> bool" where
  "isEmpty q = (readIndex q = writeIndex q)"

definition isFull :: "'a circularQueue \<Rightarrow> bool" where
  "isFull q = (let nextWriteIndex = (writeIndex q + 1) mod length (buffer q) in nextWriteIndex = readIndex q)"

definition pushBack :: "'a \<Rightarrow> 'a circularQueue \<Rightarrow> 'a circularQueue \<times> bool" where
  "pushBack request q =
     (let nextWriteIndex = (writeIndex q + 1) mod length (buffer q) in
      if nextWriteIndex = readIndex q then (q, False)
      else (q\<lparr>buffer := (buffer q)[writeIndex q := request], writeIndex := nextWriteIndex\<rparr>, True))"

definition popFront :: "'a circularQueue \<Rightarrow> 'a circularQueue \<times> 'a option" where
  "popFront q =
     (if isEmpty q then (q, None)
      else (q\<lparr>readIndex := (readIndex q + 1) mod length (buffer q)\<rparr>, Some (buffer q ! readIndex q)))"

definition pushFront :: "'a \<Rightarrow> 'a circularQueue \<Rightarrow> 'a circularQueue \<times> bool" where
  "pushFront request q =
     (let nextReadIndex = (if readIndex q = 0 then length (buffer q) - 1 else readIndex q - 1) in
      if nextReadIndex = writeIndex q then (q, False)
      else (q\<lparr>buffer := (buffer q)[nextReadIndex := request], readIndex := nextReadIndex\<rparr>, True))"

section \<open>The contract\<close>

text \<open>
  A double ended queue of bounded capacity over an abstraction to lists: what the streams rely on. The
  laws are those of the list that holds the elements in the order they will be popped.
\<close>

locale bounded_queue =
  fixes inv :: "'q \<Rightarrow> bool" and elems :: "'q \<Rightarrow> 'a list" and capacity :: "'q \<Rightarrow> nat"
    and push_back push_front :: "'a \<Rightarrow> 'q \<Rightarrow> 'q \<times> bool" and pop_front :: "'q \<Rightarrow> 'q \<times> 'a option"
  assumes bounded: "inv q \<Longrightarrow> length (elems q) \<le> capacity q"
    and push_back_full: "inv q \<Longrightarrow> length (elems q) = capacity q \<Longrightarrow> push_back x q = (q, False)"
    and push_back_room: "inv q \<Longrightarrow> length (elems q) < capacity q \<Longrightarrow>
      \<exists>q'. push_back x q = (q', True) \<and> inv q' \<and> elems q' = elems q @ [x] \<and> capacity q' = capacity q"
    and push_front_full: "inv q \<Longrightarrow> length (elems q) = capacity q \<Longrightarrow> push_front x q = (q, False)"
    and push_front_room: "inv q \<Longrightarrow> length (elems q) < capacity q \<Longrightarrow>
      \<exists>q'. push_front x q = (q', True) \<and> inv q' \<and> elems q' = x # elems q \<and> capacity q' = capacity q"
    and pop_empty: "inv q \<Longrightarrow> elems q = [] \<Longrightarrow> pop_front q = (q, None)"
    and pop_Cons: "inv q \<Longrightarrow> elems q = x # xs \<Longrightarrow>
      \<exists>q'. pop_front q = (q', Some x) \<and> inv q' \<and> elems q' = xs \<and> capacity q' = capacity q"
begin

text \<open>Pushing a list element by element, and popping until nothing is left.\<close>

fun push_all :: "'a list \<Rightarrow> 'q \<Rightarrow> 'q \<times> bool" where
  "push_all [] q = (q, True)"
| "push_all (x # xs) q = (case push_back x q of (q', False) \<Rightarrow> (q', False) | (q', True) \<Rightarrow> push_all xs q')"

fun pop_all :: "nat \<Rightarrow> 'q \<Rightarrow> 'a list" where
  "pop_all 0 q = []"
| "pop_all (Suc n) q = (case pop_front q of (q', None) \<Rightarrow> [] | (q', Some x) \<Rightarrow> x # pop_all n q')"

lemma push_all_fits:
  "inv q \<Longrightarrow> length (elems q) + length xs \<le> capacity q \<Longrightarrow>
   \<exists>q'. push_all xs q = (q', True) \<and> inv q' \<and> elems q' = elems q @ xs \<and> capacity q' = capacity q"
proof (induction xs arbitrary: q)
  case (Cons x xs)
  then obtain q1 where q1: "push_back x q = (q1, True)" "inv q1" "elems q1 = elems q @ [x]" "capacity q1 = capacity q"
    using push_back_room [of q x] by auto
  then have "length (elems q1) + length xs \<le> capacity q1"
    using Cons.prems by simp
  from Cons.IH [OF q1(2) this] show ?case
    using q1 by auto
qed auto

lemma push_all_exceeds:
  "inv q \<Longrightarrow> length (elems q) + length xs > capacity q \<Longrightarrow> \<not> snd (push_all xs q)"
proof (induction xs arbitrary: q)
  case Nil
  then show ?case
    using bounded [of q] by simp
next
  case (Cons x xs)
  show ?case
  proof (cases "length (elems q) = capacity q")
    case True
    then show ?thesis
      using push_back_full [of q x] Cons.prems by simp
  next
    case False
    then obtain q1 where "push_back x q = (q1, True)" "inv q1" "elems q1 = elems q @ [x]" "capacity q1 = capacity q"
      using push_back_room [of q x] bounded [of q] Cons.prems(1) by (auto simp: order.strict_iff_order)
    then show ?thesis
      using Cons.IH [of q1] Cons.prems(2) by simp
  qed
qed

lemma pop_all_elems: "inv q \<Longrightarrow> length (elems q) \<le> n \<Longrightarrow> pop_all n q = elems q"
proof (induction n arbitrary: q)
  case (Suc n)
  show ?case
  proof (cases "elems q")
    case Nil
    then show ?thesis
      using pop_empty [of q] Suc.prems by simp
  next
    case (Cons x xs)
    then obtain q' where "pop_front q = (q', Some x)" "inv q'" "elems q' = xs"
      using pop_Cons [of q x xs] Suc.prems by auto
    then show ?thesis
      using Suc.IH [of q'] Suc.prems Cons by simp
  qed
qed simp

end

section \<open>The ring buffer keeps the contract\<close>

definition cq_inv :: "'a circularQueue \<Rightarrow> bool" where
  "cq_inv q \<longleftrightarrow> readIndex q < length (buffer q) \<and> writeIndex q < length (buffer q)"

definition cq_length :: "'a circularQueue \<Rightarrow> nat" where
  "cq_length q = (writeIndex q + length (buffer q) - readIndex q) mod length (buffer q)"

definition cq_elems :: "'a circularQueue \<Rightarrow> 'a list" where
  "cq_elems q = map (\<lambda>i. buffer q ! ((readIndex q + i) mod length (buffer q))) [0 ..< cq_length q]"

definition cq_capacity :: "'a circularQueue \<Rightarrow> nat" where
  "cq_capacity q = length (buffer q) - 1"

lemma length_cq_elems [simp]: "length (cq_elems q) = cq_length q"
  by (simp add: cq_elems_def)


lemma cq_length_cases: "cq_inv q \<Longrightarrow> cq_length q = (if readIndex q \<le> writeIndex q then writeIndex q - readIndex q
    else writeIndex q + length (buffer q) - readIndex q)"
proof (cases "readIndex q \<le> writeIndex q")
  case True
  then have "writeIndex q + length (buffer q) - readIndex q = (writeIndex q - readIndex q) + length (buffer q)"
    by simp
  then show "cq_inv q \<Longrightarrow> ?thesis"
    using True unfolding cq_length_def cq_inv_def by (simp only: mod_add_self2) (simp add: less_imp_diff_less)
qed (auto simp: cq_length_def cq_inv_def intro!: mod_less)

lemma mod_cases: "i < n \<Longrightarrow> r < n \<Longrightarrow> (r + i) mod n = (if r + i < n then r + i else r + i - n)" for i n r :: nat
  by (simp add: le_mod_geq)

lemma mod_Suc_cases: "w < n \<Longrightarrow> Suc w mod n = (if Suc w = n then 0 else Suc w)"
  by (simp add: mod_Suc)

lemma cq_length_less: "cq_inv q \<Longrightarrow> cq_length q < length (buffer q)"
  unfolding cq_length_def cq_inv_def by (intro mod_less_divisor) auto

lemma cq_empty_iff: "cq_inv q \<Longrightarrow> isEmpty q \<longleftrightarrow> cq_length q = 0"
  by (auto simp: isEmpty_def cq_length_cases cq_inv_def)

lemma cq_full_iff: "cq_inv q \<Longrightarrow> (writeIndex q + 1) mod length (buffer q) = readIndex q \<longleftrightarrow> cq_length q = cq_capacity q"
  by (auto simp: cq_length_cases cq_inv_def cq_capacity_def mod_Suc_cases split: if_splits)

lemma cq_front_full_iff:
  "cq_inv q \<Longrightarrow> (if readIndex q = 0 then length (buffer q) - 1 else readIndex q - 1) = writeIndex q \<longleftrightarrow> cq_length q = cq_capacity q"
  by (auto simp: cq_length_cases cq_inv_def cq_capacity_def)

lemma cq_elems_nth: "i < cq_length q \<Longrightarrow> cq_elems q ! i = buffer q ! ((readIndex q + i) mod length (buffer q))"
  by (simp add: cq_elems_def)

lemma pushBack_room:
  assumes "cq_inv q" "cq_length q < cq_capacity q"
  shows "\<exists>q'. pushBack x q = (q', True) \<and> cq_inv q' \<and> cq_elems q' = cq_elems q @ [x] \<and> cq_capacity q' = cq_capacity q"
proof -
  let ?n = "length (buffer q)" and ?r = "readIndex q" and ?w = "writeIndex q"
  let ?q = "q\<lparr>buffer := (buffer q)[?w := x], writeIndex := (?w + 1) mod ?n\<rparr>"
  have run: "pushBack x q = (?q, True)"
    using cq_full_iff [OF assms(1)] assms(2) by (simp add: pushBack_def Let_def)
  have inv: "cq_inv ?q"
    using assms(1) by (auto simp: cq_inv_def intro!: mod_less_divisor)
  have len: "cq_length ?q = cq_length q + 1"
    using assms cq_length_cases [OF inv] by (auto simp: cq_length_cases cq_inv_def cq_capacity_def mod_Suc_cases split: if_splits)
  have "cq_elems ?q = cq_elems q @ [x]"
  proof (rule nth_equalityI)
    fix i
    assume "i < length (cq_elems ?q)"
    then have i: "i < cq_length q + 1" "i < ?n"
      using len cq_length_less [OF assms(1)] by auto
    have "(?r + i) mod ?n = ?w \<longleftrightarrow> i = cq_length q"
      using assms(1) i by (auto simp: cq_length_cases cq_inv_def mod_cases split: if_splits)
    then show "cq_elems ?q ! i = (cq_elems q @ [x]) ! i"
      using i len assms(1) by (auto simp: cq_elems_nth nth_append cq_inv_def)
  qed (use len in simp)
  then show ?thesis
    using run inv by (simp add: cq_capacity_def)
qed

lemma pushFront_room:
  assumes "cq_inv q" "cq_length q < cq_capacity q"
  shows "\<exists>q'. pushFront x q = (q', True) \<and> cq_inv q' \<and> cq_elems q' = x # cq_elems q \<and> cq_capacity q' = cq_capacity q"
proof -
  let ?n = "length (buffer q)" and ?r = "readIndex q" and ?w = "writeIndex q"
  define p where "p = (if ?r = 0 then ?n - 1 else ?r - 1)"
  let ?q = "q\<lparr>buffer := (buffer q)[p := x], readIndex := p\<rparr>"
  have p: "p < ?n" "(p + 1) mod ?n = ?r" "p \<noteq> ?w"
    using assms(1) cq_front_full_iff [OF assms(1)] assms(2) by (auto simp: p_def cq_inv_def mod_Suc_cases)
  have run: "pushFront x q = (?q, True)"
    using p(3) by (simp add: pushFront_def Let_def p_def)
  have inv: "cq_inv ?q"
    using assms(1) p(1) by (auto simp: cq_inv_def)
  have len: "cq_length ?q = cq_length q + 1"
    using assms cq_length_cases [OF inv] p by (auto simp: cq_length_cases cq_inv_def cq_capacity_def p_def split: if_splits)
  have "cq_elems ?q = x # cq_elems q"
  proof (rule nth_equalityI)
    fix i
    assume "i < length (cq_elems ?q)"
    then have i: "i < cq_length q + 1" "i < ?n"
      using len cq_length_less [OF assms(1)] by auto
    show "cq_elems ?q ! i = (x # cq_elems q) ! i"
    proof (cases i)
      case 0
      then show ?thesis
        using p(1) len by (simp add: cq_elems_nth)
    next
      case (Suc j)
      have "(p + i) mod ?n = (?r + j) mod ?n"
        using p(2) by (metis Suc add.assoc add.commute mod_add_left_eq plus_1_eq_Suc)
      moreover have "(p + i) mod ?n \<noteq> p"
        using i p(1) Suc mod_cases [of i ?n p] by (simp split: if_splits)
      ultimately show ?thesis
        using i len Suc by (simp add: cq_elems_nth)
    qed
  qed (simp add: len)
  then show ?thesis
    using run inv by (simp add: cq_capacity_def)
qed

lemma popFront_Cons:
  assumes "cq_inv q" "cq_elems q = x # xs"
  shows "\<exists>q'. popFront q = (q', Some x) \<and> cq_inv q' \<and> cq_elems q' = xs \<and> cq_capacity q' = cq_capacity q"
proof -
  let ?n = "length (buffer q)" and ?r = "readIndex q"
  let ?q = "q\<lparr>readIndex := (?r + 1) mod ?n\<rparr>"
  have len: "cq_length q = Suc (length xs)" "0 < ?n"
    using assms(1) by (metis assms(2) length_cq_elems length_Cons, auto simp: cq_inv_def)
  have "buffer q ! ?r = x"
    using assms len by (metis cq_elems_nth cq_inv_def add_0_right mod_less nth_Cons_0 zero_less_Suc)
  then have run: "popFront q = (?q, Some x)"
    using cq_empty_iff [OF assms(1)] len by (simp add: popFront_def)
  have inv: "cq_inv ?q"
    using assms(1) len(2) by (auto simp: cq_inv_def)
  have len': "cq_length ?q = length xs"
    using assms(1) len cq_length_cases [OF inv] cq_length_cases [OF assms(1)] by (auto simp: cq_inv_def mod_Suc_cases split: if_splits)
  have "cq_elems ?q = xs"
  proof (rule nth_equalityI)
    fix i
    assume i: "i < length (cq_elems ?q)"
    have "((?r + 1) mod ?n + i) mod ?n = (?r + Suc i) mod ?n"
      by (simp add: mod_add_left_eq)
    then show "cq_elems ?q ! i = xs ! i"
      using i len len' assms(2) cq_elems_nth [of "Suc i" q] by (simp add: cq_elems_nth)
  qed (use len' in simp)
  then show ?thesis
    using run inv by (simp add: cq_capacity_def)
qed

interpretation ring: bounded_queue cq_inv cq_elems cq_capacity pushBack pushFront popFront
proof
  show "length (cq_elems q) \<le> cq_capacity q" if "cq_inv q" for q :: "'a circularQueue"
    using cq_length_less [OF that] by (simp add: cq_capacity_def)
  show "pushBack x q = (q, False)" if "cq_inv q" "length (cq_elems q) = cq_capacity q" for q and x :: 'a
    using cq_full_iff [OF that(1)] that(2) by (simp add: pushBack_def Let_def)
  show "pushFront x q = (q, False)" if "cq_inv q" "length (cq_elems q) = cq_capacity q" for q and x :: 'a
    using cq_front_full_iff [OF that(1)] that(2) by (simp add: pushFront_def Let_def)
  show "popFront q = (q, None)" if "cq_inv q" "cq_elems q = []" for q :: "'a circularQueue"
    using cq_empty_iff [OF that(1)] that(2) length_cq_elems [of q] by (simp add: popFront_def)
qed (simp_all add: pushBack_room pushFront_room popFront_Cons)

lemma cq_new_inv: "b \<noteq> [] \<Longrightarrow> cq_inv (cq_new b) \<and> cq_elems (cq_new b) = [] \<and> cq_capacity (cq_new b) = length b - 1"
  by (simp add: cq_new_def cq_inv_def cq_elems_def cq_length_def cq_capacity_def)

text \<open>
  C10: the ring buffer refines a list of bounded length. On an array of \<open>n\<close> elements, from any reachable
  state, \<open>pushBack\<close> appends, \<open>pushFront\<close> prepends and \<open>popFront\<close> takes the first element; pushing fails,
  and leaves the queue as it is, exactly when \<open>n - 1\<close> elements are queued; \<open>isEmpty\<close> and \<open>isFull\<close> tell.
\<close>

theorem circular_queue_refines_list:
  assumes "cq_inv q"
  shows "(\<exists>q' b. pushBack x q = (q', b) \<and> cq_inv q' \<and> b = (length (cq_elems q) < cq_size q - 1) \<and>
      cq_elems q' = (if b then cq_elems q @ [x] else cq_elems q) \<and> cq_size q' = cq_size q) \<and>
    (\<exists>q' b. pushFront x q = (q', b) \<and> cq_inv q' \<and> b = (length (cq_elems q) < cq_size q - 1) \<and>
      cq_elems q' = (if b then x # cq_elems q else cq_elems q) \<and> cq_size q' = cq_size q) \<and>
    (\<exists>q'. popFront q = (q', case cq_elems q of [] \<Rightarrow> None | y # ys \<Rightarrow> Some y) \<and> cq_inv q' \<and> cq_elems q' = tl (cq_elems q) \<and>
      cq_size q' = cq_size q) \<and>
    isEmpty q = (cq_elems q = []) \<and> isFull q = (length (cq_elems q) = cq_size q - 1)"
proof (intro conjI)
  have size: "cq_size q' = cq_size q \<longleftrightarrow> cq_capacity q' = cq_capacity q" if "cq_inv q'" for q' :: "'a circularQueue"
    using assms that by (auto simp: cq_size_def cq_capacity_def cq_inv_def)
  have cap: "cq_capacity q = cq_size q - 1"
    by (simp add: cq_capacity_def cq_size_def)
  consider "length (cq_elems q) = cq_size q - 1" | "length (cq_elems q) < cq_size q - 1"
    using ring.bounded [OF assms] by (fastforce simp: cap)
  note room = this
  show "\<exists>q' b. pushBack x q = (q', b) \<and> cq_inv q' \<and> b = (length (cq_elems q) < cq_size q - 1) \<and>
      cq_elems q' = (if b then cq_elems q @ [x] else cq_elems q) \<and> cq_size q' = cq_size q"
    using ring.push_back_full [OF assms, of x] ring.push_back_room [OF assms, of x] assms size by (cases rule: room) (auto simp: cap)
  show "\<exists>q' b. pushFront x q = (q', b) \<and> cq_inv q' \<and> b = (length (cq_elems q) < cq_size q - 1) \<and>
      cq_elems q' = (if b then x # cq_elems q else cq_elems q) \<and> cq_size q' = cq_size q"
    using ring.push_front_full [OF assms, of x] ring.push_front_room [OF assms, of x] assms size by (cases rule: room) (auto simp: cap)
  show "\<exists>q'. popFront q = (q', case cq_elems q of [] \<Rightarrow> None | y # ys \<Rightarrow> Some y) \<and> cq_inv q' \<and> cq_elems q' = tl (cq_elems q) \<and>
      cq_size q' = cq_size q"
    using ring.pop_empty [OF assms] ring.pop_Cons [OF assms] assms size by (cases "cq_elems q") auto
  show "isEmpty q = (cq_elems q = [])"
    using cq_empty_iff [OF assms] length_cq_elems [of q] by (simp del: length_cq_elems) (metis length_cq_elems length_0_conv)
  show "isFull q = (length (cq_elems q) = cq_size q - 1)"
    using cq_full_iff [OF assms] by (simp add: isFull_def Let_def cap)
qed

theorem circular_queue_refines_list_witness:
  "cq_inv (fst (pushBack 7 (cq_new [0, 0, 0 :: nat]))) \<and> cq_elems (fst (pushBack 8 (fst (pushBack 7 (cq_new [0, 0, 0]))))) = [7, 8 :: nat]"
proof -
  let ?q = "fst (pushBack 7 (cq_new [0, 0, 0 :: nat]))"
  have "cq_inv ?q" "cq_elems ?q = [7]" "cq_size ?q = 3"
    by code_simp+
  then show ?thesis
    using circular_queue_refines_list [of ?q 8] by auto
qed

end
