(* ===== verification/AsyncBuffers.thy ===== *)
theory AsyncBuffers
  imports Common Results
begin

text \<open>
  \<open>AsyncBufferView\<close> and \<open>AsyncBuffersPool\<close> of \<open>Libraries/AsyncStreams/AsyncStreams.h\<close> and
  \<open>AsyncStreams.cpp\<close>: the buffers that streams pass on, with reference counts, reuse and child views.

  Memory is given by spans (address and size); \<open>bv_data\<close> is the union of \<open>writableData\<close> and
  \<open>readonlyData\<close>, and \<open>bv_growable\<close> what \<open>getDirectAccess\<close> says of a growable buffer. Offsets and sizes
  are \<open>size_t\<close>. An assertion that fails is \<open>None\<close>. Reference counts are taken not to reach \<open>2 ^ 31\<close>.
\<close>

section \<open>Views\<close>

datatype viewType = Empty | Writable | ReadOnly | Growable | Child

record bufferView =
  bv_type :: viewType
  bv_data :: span
  bv_growable :: span
  bv_parentID :: int
  bv_offset :: u64
  bv_length :: u64
  bv_refs :: nat
  bv_reUse :: bool

definition emptyView :: bufferView where
  "emptyView = \<lparr>bv_type = Empty, bv_data = null_span, bv_growable = null_span, bv_parentID = -1, bv_offset = 0, bv_length = 0,
     bv_refs = 0, bv_reUse = False\<rparr>"

definition writableView :: "span \<Rightarrow> bufferView" where
  "writableView d = emptyView\<lparr>bv_type := Writable, bv_data := d, bv_length := sizeElements d\<rparr>"

definition readOnlyView :: "span \<Rightarrow> bufferView" where
  "readOnlyView d = emptyView\<lparr>bv_type := ReadOnly, bv_data := d, bv_length := sizeElements d\<rparr>"

definition growableView :: "span \<Rightarrow> bufferView" where
  "growableView d = emptyView\<lparr>bv_type := Growable, bv_growable := d\<rparr>"

definition setReusable :: "bool \<Rightarrow> bufferView \<Rightarrow> bufferView" where
  "setReusable r v = v\<lparr>bv_reUse := r\<rparr>"

section \<open>References\<close>

type_synonym buffersPool = "bufferView list"

definition getBuffer :: "int \<Rightarrow> buffersPool \<Rightarrow> nat option" where
  "getBuffer bufferID p =
     (if bufferID \<ge> 0 \<and> length p > nat bufferID
      then (if bv_type (p ! nat bufferID) \<noteq> Empty then Some (nat bufferID) else None)
      else None)"

definition refBuffer :: "int \<Rightarrow> buffersPool \<Rightarrow> buffersPool option" where
  "refBuffer bufferID p =
     (case getBuffer bufferID p of None \<Rightarrow> None | Some i \<Rightarrow> Some (p[i := (p ! i)\<lparr>bv_refs := bv_refs (p ! i) + 1\<rparr>]))"

text \<open>What becomes of a buffer without references: it is reset for reuse, or its slot is empty again.\<close>

definition recycle :: "nat \<Rightarrow> buffersPool \<Rightarrow> buffersPool option" where
  "recycle i p =
     (let v = p ! i in
      if bv_reUse v
      then (case bv_type v of
          Writable \<Rightarrow> Some (p[i := v\<lparr>bv_offset := 0, bv_length := sizeElements (bv_data v)\<rparr>])
        | ReadOnly \<Rightarrow> Some (p[i := v\<lparr>bv_offset := 0, bv_length := sizeElements (bv_data v)\<rparr>])
        | Growable \<Rightarrow> Some (p[i := v\<lparr>bv_offset := 0\<rparr>])
        | Child \<Rightarrow> None
        | Empty \<Rightarrow> None)
      else Some (p[i := emptyView]))"

definition totalRefs :: "buffersPool \<Rightarrow> nat" where
  "totalRefs p = (\<Sum>v \<leftarrow> p. bv_refs v)"

lemma totalRefs_update:
  "i < length p \<Longrightarrow> totalRefs (p[i := v]) + bv_refs (p ! i) = totalRefs p + bv_refs v"
proof (induction p arbitrary: i)
  case (Cons w p)
  then show ?case
    by (cases i) (auto simp: totalRefs_def)
qed simp

lemma getBuffer_Some:
  assumes "getBuffer bufferID p = Some i"
  shows "bufferID = int i" "i < length p" "bv_type (p ! i) \<noteq> Empty"
  using assms by (auto simp: getBuffer_def split: if_splits)

lemma getBuffer_int: "getBuffer (int i) p = (if i < length p \<and> bv_type (p ! i) \<noteq> Empty then Some i else None)"
  by (simp add: getBuffer_def)

function (sequential) unrefBuffer :: "int \<Rightarrow> buffersPool \<Rightarrow> buffersPool option" where
  "unrefBuffer bufferID p =
     (case getBuffer bufferID p of
        None \<Rightarrow> None
      | Some i \<Rightarrow>
          if bv_refs (p ! i) = 0 then None
          else
            (let p1 = p[i := (p ! i)\<lparr>bv_refs := bv_refs (p ! i) - 1\<rparr>] in
             if bv_refs (p1 ! i) \<noteq> 0 then Some p1
             else if bv_type (p1 ! i) = Child
             then (case unrefBuffer (bv_parentID (p1 ! i)) p1 of None \<Rightarrow> None | Some p2 \<Rightarrow> recycle i p2)
             else recycle i p1))"
  by pat_completeness auto
termination
proof (relation "measure (\<lambda>(bufferID, p). totalRefs p)")
  fix bufferID p i p1
  assume "getBuffer bufferID p = Some i" "bv_refs (p ! i) \<noteq> 0" "p1 = p[i := (p ! i)\<lparr>bv_refs := bv_refs (p ! i) - 1\<rparr>]"
  then have "totalRefs p1 < totalRefs p"
    using totalRefs_update [of i p "(p ! i)\<lparr>bv_refs := bv_refs (p ! i) - 1\<rparr>"] getBuffer_Some(2) by fastforce
  then show "((bv_parentID (p1 ! i), p1), (bufferID, p)) \<in> measure (\<lambda>(bufferID, p). totalRefs p)"
    by simp
qed simp

declare unrefBuffer.simps [simp del]

section \<open>Data\<close>

text \<open>The data of a buffer or an error; a view on a growable buffer notes what it has found.\<close>

definition getReadableData :: "int \<Rightarrow> buffersPool \<Rightarrow> buffersPool \<times> (string + span)" where
  "getReadableData bufferID p =
     (case getBuffer bufferID p of
        None \<Rightarrow> (p, Inl ''AsyncBuffersPool::getReadableData - Invalid bufferID'')
      | Some i \<Rightarrow>
          (case bv_type (p ! i) of
             Growable \<Rightarrow>
               (case span_sliceStartLength (bv_growable (p ! i)) (bv_offset (p ! i)) (bv_length (p ! i)) of
                  (valid, d) \<Rightarrow> (p, if valid then Inr d else Inl ''''))
           | Child \<Rightarrow>
               (case getBuffer (bv_parentID (p ! i)) p of
                  None \<Rightarrow> (p, Inl ''AsyncBuffersPool::getReadableData - Invalid parentID'')
                | Some j \<Rightarrow>
                    if bv_type (p ! j) = Growable
                    then (case span_sliceStartLength (bv_growable (p ! j)) (bv_offset (p ! i)) (bv_length (p ! i)) of
                            (valid, d) \<Rightarrow> if valid then (p[i := (p ! i)\<lparr>bv_data := d\<rparr>], Inr d) else (p, Inl ''''))
                    else (p, Inr (bv_data (p ! i))))
           | _ \<Rightarrow>
               (case span_sliceStartLength (bv_data (p ! i)) (bv_offset (p ! i)) (bv_length (p ! i)) of
                  (valid, d) \<Rightarrow> (p, if valid then Inr d else Inl ''''))))"

definition getWritableData :: "int \<Rightarrow> buffersPool \<Rightarrow> buffersPool \<times> (string + span)" where
  "getWritableData bufferID p =
     (case getBuffer bufferID p of
        None \<Rightarrow> (p, Inl ''AsyncBuffersPool::getWritableData - Invalid bufferID'')
      | Some i \<Rightarrow>
          (case bv_type (p ! i) of
             Writable \<Rightarrow>
               (case span_sliceStartLength (bv_data (p ! i)) (bv_offset (p ! i)) (bv_length (p ! i)) of
                  (valid, d) \<Rightarrow> (p, if valid then Inr d else Inl ''''))
           | Child \<Rightarrow>
               (case getBuffer (bv_parentID (p ! i)) p of
                  None \<Rightarrow> (p, Inl ''AsyncBuffersPool::getWritableData - Invalid parentID'')
                | Some j \<Rightarrow>
                    if bv_type (p ! j) = Growable
                    then (case span_sliceStartLength (bv_growable (p ! j)) (bv_offset (p ! i)) (bv_length (p ! i)) of
                            (valid, d) \<Rightarrow> if valid then (p[i := (p ! i)\<lparr>bv_data := d\<rparr>], Inr d) else (p, Inl ''''))
                    else (p, Inr (bv_data (p ! i))))
           | _ \<Rightarrow> (p, Inl ''AsyncBuffersPool::getWritableData - Readonly or Growable buffer'')))"

section \<open>Requesting and adding buffers\<close>

text \<open>The loop over the buffers; it looks at \<open>writableData\<close> whatever the type of the buffer.\<close>

fun requestIn :: "u64 \<Rightarrow> nat list \<Rightarrow> buffersPool \<Rightarrow> buffersPool \<times> (string + int \<times> span)" where
  "requestIn minimumSize [] p = (p, Inl ''AsyncBuffersPool::requestNewBuffer failed'')"
| "requestIn minimumSize (i # is) p =
     (if bv_type (p ! i) = Empty then requestIn minimumSize is p
      else if bv_refs (p ! i) = 0
      then
        (let p1 = (if bv_type (p ! i) = Growable then p[i := (p ! i)\<lparr>bv_data := bv_growable (p ! i)\<rparr>] else p) in
         if sizeElements (bv_data (p1 ! i)) \<ge> minimumSize
         then (case getWritableData (int i) (p1[i := (p1 ! i)\<lparr>bv_refs := 1, bv_offset := 0, bv_length := sizeElements (bv_data (p1 ! i))\<rparr>]) of
                 (p2, Inl e) \<Rightarrow> (p2, Inl e)
               | (p2, Inr d) \<Rightarrow> (p2, Inr (int i, d)))
         else requestIn minimumSize is p1)
      else requestIn minimumSize is p)"

definition requestNewBuffer :: "u64 \<Rightarrow> buffersPool \<Rightarrow> buffersPool \<times> (string + int \<times> span)" where
  "requestNewBuffer minimumSize p = requestIn minimumSize [0 ..< length p] p"

text \<open>\<open>resize\<close> is \<open>resizeWithoutInitializing\<close>: the memory of the growable buffer when it has grown.\<close>

definition setNewBufferSize :: "(u64 \<Rightarrow> span option) \<Rightarrow> int \<Rightarrow> u64 \<Rightarrow> buffersPool \<Rightarrow> buffersPool" where
  "setNewBufferSize resize bufferID newSize p =
     (case getBuffer bufferID p of
        None \<Rightarrow> p
      | Some i \<Rightarrow>
          (case bv_type (p ! i) of
             Child \<Rightarrow>
               (if newSize \<le> bv_length (p ! i)
                then p[i := (p ! i)\<lparr>bv_length := newSize,
                  bv_data := (if sizeElements (bv_data (p ! i)) \<noteq> 0 then snd (span_sliceStartLength (bv_data (p ! i)) 0 newSize) else bv_data (p ! i))\<rparr>]
                else p)
           | Growable \<Rightarrow>
               (case resize newSize of
                  None \<Rightarrow> p
                | Some d \<Rightarrow> p[i := (p ! i)\<lparr>bv_growable := d, bv_data := d, bv_offset := 0, bv_length := sizeElements d\<rparr>])
           | _ \<Rightarrow>
               (if newSize \<le> sizeElements (bv_data (p ! i)) - bv_offset (p ! i)
                then p[i := (p ! i)\<lparr>bv_length := newSize\<rparr>] else p)))"

fun firstEmpty :: "nat \<Rightarrow> buffersPool \<Rightarrow> nat option" where
  "firstEmpty idx [] = None"
| "firstEmpty idx (v # p) = (if bv_type v = Empty then Some idx else firstEmpty (Suc idx) p)"

definition pushBuffer :: "bufferView \<Rightarrow> buffersPool \<Rightarrow> buffersPool \<times> int option" where
  "pushBuffer v p =
     (case firstEmpty 0 p of
        None \<Rightarrow> (p, None)
      | Some idx \<Rightarrow>
          (let v1 = (if bv_type v = Growable \<and> bv_length v = 0 then v\<lparr>bv_length := sizeElements (bv_growable v)\<rparr> else v) in
           (p[idx := v1\<lparr>bv_refs := 0\<rparr>], Some (int idx))))"

text \<open>\<open>None\<close> is the division by \<open>numSlices = 0\<close>.\<close>

definition sliceInEqualParts :: "buffersPool \<Rightarrow> span \<Rightarrow> u64 \<Rightarrow> (buffersPool \<times> bool) option" where
  "sliceInEqualParts p memory numSlices =
     (if \<not> of_nat (length p) \<ge> numSlices then Some (p, False)
      else if numSlices = 0 then None
      else
        (let sliceSize = sizeElements memory div numSlices in
         Some (map (\<lambda>i. setReusable True (writableView (snd (span_sliceStartLength memory (of_nat i * sliceSize) sliceSize))))
           [0 ..< unat numSlices] @ drop (unat numSlices) p, True)))"

section \<open>Child views\<close>

text \<open>The loop to the parent that is not a child; \<open>fuel\<close> bounds its steps.\<close>

fun rootParent :: "nat \<Rightarrow> nat \<Rightarrow> buffersPool \<Rightarrow> nat option" where
  "rootParent 0 i p = None"
| "rootParent (Suc fuel) i p =
     (if bv_type (p ! i) = Child
      then (case getBuffer (bv_parentID (p ! i)) p of None \<Rightarrow> None | Some j \<Rightarrow> rootParent fuel j p)
      else Some i)"

text \<open>\<open>rootFullData\<close>: all of the memory of a root parent.\<close>

definition rootFullData :: "bufferView \<Rightarrow> span" where
  "rootFullData v = (if bv_type v = Growable then bv_growable v else bv_data v)"

definition createChildView :: "int \<Rightarrow> u64 \<Rightarrow> u64 \<Rightarrow> buffersPool \<Rightarrow> buffersPool \<times> (string + int)" where
  "createChildView parentBufferID offset len p =
     (case getBuffer parentBufferID p of
        None \<Rightarrow> (p, Inl ''AsyncBuffersPool::createChildView - Invalid parent bufferID'')
      | Some i \<Rightarrow>
          (let rootOffset = bv_offset (p ! i) + offset in
           case rootParent (Suc (length p)) i p of
             None \<Rightarrow> (p, Inl ''AsyncBuffersPool::createChildView - Internal Error (Invalid parent ID)'')
           | Some r \<Rightarrow>
               if \<not> rootOffset + len \<le> sizeElements (rootFullData (p ! r))
               then (p, Inl ''AsyncBuffersPool::createChildView - Offset and length out of bounds'')
               else
                 (case firstEmpty 0 p of
                    None \<Rightarrow> (p, Inl ''AsyncBuffersPool::createChildView - No space in buffer pool'')
                  | Some idx \<Rightarrow>
                      (let p1 = p[idx := (p ! idx)\<lparr>bv_type := Child, bv_parentID := int r, bv_offset := rootOffset, bv_length := len,
                                   bv_refs := 1, bv_data := snd (span_sliceStartLength (rootFullData (p ! r)) rootOffset len)\<rparr>];
                           p2 = p1[r := (p1 ! r)\<lparr>bv_refs := bv_refs (p1 ! r) + 1\<rparr>] in
                       (p2, Inr (int idx))))))"

end
