(* ===== verification/AsyncBuffersProps.thy ===== *)
theory AsyncBuffersProps
  imports AsyncBuffers
begin

text \<open>
  The reference counts of the buffers pool: how they relate to the holders of buffers and to the child
  views, and that each operation of the pool keeps this relation.
\<close>

section \<open>The invariant\<close>

definition childSet :: "nat \<Rightarrow> buffersPool \<Rightarrow> nat set" where
  "childSet i p = {k. k < length p \<and> bv_type (p ! k) = Child \<and> bv_parentID (p ! k) = int i}"

definition rootType :: "viewType \<Rightarrow> bool" where
  "rootType t \<longleftrightarrow> t \<in> {Writable, ReadOnly, Growable}"

definition inside :: "u64 \<Rightarrow> u64 \<Rightarrow> span \<Rightarrow> bool" where
  "inside off len d \<longleftrightarrow> unat off + unat len \<le> unat (sizeElements d)"

text \<open>A child view: its parent is a root, and on memory that does not move it is the part it says.\<close>

definition child_ok :: "nat \<Rightarrow> buffersPool \<Rightarrow> bool" where
  "child_ok i p \<longleftrightarrow> \<not> bv_reUse (p ! i) \<and>
     (\<exists>j < length p. bv_parentID (p ! i) = int j \<and> rootType (bv_type (p ! j)) \<and>
       (bv_type (p ! j) \<noteq> Growable \<longrightarrow> inside (bv_offset (p ! i)) (bv_length (p ! i)) (bv_data (p ! j)) \<and>
          bv_data (p ! i) = \<lparr>items = items (bv_data (p ! j)) + bv_offset (p ! i), sizeElements = bv_length (p ! i)\<rparr>))"

definition view_ok :: "nat \<Rightarrow> buffersPool \<Rightarrow> bool" where
  "view_ok i p \<longleftrightarrow> (bv_type (p ! i) = Empty \<longrightarrow> p ! i = emptyView) \<and> (bv_type (p ! i) = Child \<longrightarrow> child_ok i p) \<and>
     (bv_type (p ! i) \<in> {Writable, ReadOnly} \<longrightarrow> inside (bv_offset (p ! i)) (bv_length (p ! i)) (bv_data (p ! i)))"

text \<open>\<open>held i\<close> is the number of references that holders outside of the pool have to buffer \<open>i\<close>.\<close>

definition buffers_ok :: "(nat \<Rightarrow> nat) \<Rightarrow> buffersPool \<Rightarrow> bool" where
  "buffers_ok held p \<longleftrightarrow> (\<forall>i < length p. view_ok i p \<and> bv_refs (p ! i) = held i + card (childSet i p) \<and>
     (bv_type (p ! i) = Child \<longrightarrow> held i > 0))"

lemma nth_update: "j < length p \<Longrightarrow> p[k := v] ! j = (if k = j then v else p ! j)"
  by (cases "k = j") simp_all

lemma finite_childSet [simp]: "finite (childSet i p)"
  by (simp add: childSet_def)

lemma childSet_cong:
  assumes "length p' = length p" "\<And>k. k < length p \<Longrightarrow> bv_type (p' ! k) = bv_type (p ! k) \<and> bv_parentID (p' ! k) = bv_parentID (p ! k)"
  shows "childSet i p' = childSet i p"
  using assms by (auto simp: childSet_def)

lemma childSet_update_same:
  "bv_type v = bv_type (p ! k) \<Longrightarrow> bv_parentID v = bv_parentID (p ! k) \<Longrightarrow> childSet i (p[k := v]) = childSet i p"
  by (rule childSet_cong) (auto simp: nth_update)

lemma childSet_update_root:
  "bv_type v \<noteq> Child \<Longrightarrow> childSet i (p[k := v]) = childSet i p - {k}"
  by (auto simp: childSet_def nth_update split: if_splits)

lemma childSet_new_child:
  "k < length p \<Longrightarrow> bv_type v = Child \<Longrightarrow> bv_parentID v = int j \<Longrightarrow> bv_type (p ! k) \<noteq> Child \<Longrightarrow>
   childSet i (p[k := v]) = (if i = j then insert k (childSet i p) else childSet i p)"
  by (auto simp: childSet_def nth_update split: if_splits)

text \<open>What \<open>view_ok\<close> looks at: an update that keeps the parent's memory keeps the others' views.\<close>

lemma view_ok_update:
  assumes "view_ok i p" "i \<noteq> k" "i < length p" "bv_data v = bv_data (p ! k)" "bv_type v = bv_type (p ! k)"
  shows "view_ok i (p[k := v])"
proof -
  have same: "bv_data (p[k := v] ! j) = bv_data (p ! j)" "bv_type (p[k := v] ! j) = bv_type (p ! j)" if "j < length p" for j
    using that assms(4,5) by (simp_all add: nth_update)
  have i: "p[k := v] ! i = p ! i"
    using assms(2) by simp
  have "child_ok i (p[k := v])" if "child_ok i p"
    using that same unfolding child_ok_def i by auto
  then show ?thesis
    using assms(1) unfolding view_ok_def i by auto
qed

lemma view_ok_update_unused:
  assumes "view_ok i p" "i \<noteq> k" "i \<notin> childSet k p" "i < length p"
  shows "view_ok i (p[k := v])"
proof -
  have i: "p[k := v] ! i = p ! i"
    using assms(2) by simp
  have "child_ok i (p[k := v])" if c: "child_ok i p" "bv_type (p ! i) = Child"
  proof -
    obtain j where j: "j < length p" "bv_parentID (p ! i) = int j" "rootType (bv_type (p ! j))"
        "bv_type (p ! j) \<noteq> Growable \<longrightarrow> inside (bv_offset (p ! i)) (bv_length (p ! i)) (bv_data (p ! j)) \<and>
          bv_data (p ! i) = \<lparr>items = items (bv_data (p ! j)) + bv_offset (p ! i), sizeElements = bv_length (p ! i)\<rparr>"
      using c(1) unfolding child_ok_def by auto
    then have "j \<noteq> k"
      using assms(3,4) c(2) by (auto simp: childSet_def)
    then show ?thesis
      using j c(1) unfolding child_ok_def i by (intro conjI exI [of _ j]) auto
  qed
  then show ?thesis
    using assms(1) unfolding view_ok_def i by auto
qed

lemma view_ok_refs:
  assumes "view_ok i p" "i < length p" "bv_type (p ! k) \<noteq> Empty"
  shows "view_ok i (p[k := (p ! k)\<lparr>bv_refs := n\<rparr>])"
proof (cases "i = k")
  case False
  then show ?thesis
    using view_ok_update [OF assms(1) False assms(2)] by simp
next
  case True
  have j: "bv_type (p[k := (p ! k)\<lparr>bv_refs := n\<rparr>] ! j) = bv_type (p ! j)" "bv_data (p[k := (p ! k)\<lparr>bv_refs := n\<rparr>] ! j) = bv_data (p ! j)"
    if "j < length p" for j
    using that by (simp_all add: nth_update)
  have "child_ok i (p[k := (p ! k)\<lparr>bv_refs := n\<rparr>])" if "child_ok i p"
    using that j assms(2) unfolding child_ok_def by (auto simp: nth_update True)
  then show ?thesis
    using assms unfolding view_ok_def by (auto simp: nth_update True)
qed


section \<open>Each operation keeps the invariant\<close>

lemma buffers_okD:
  assumes "buffers_ok held p" "i < length p"
  shows "view_ok i p" "bv_refs (p ! i) = held i + card (childSet i p)" "bv_type (p ! i) = Child \<Longrightarrow> held i > 0"
  using assms by (simp_all add: buffers_ok_def)

lemma child_parent_ex:
  assumes "buffers_ok held p" "i < length p" "bv_type (p ! i) = Child"
  shows "\<exists>j. j < length p \<and> bv_parentID (p ! i) = int j \<and> rootType (bv_type (p ! j)) \<and> i \<in> childSet j p \<and> i \<noteq> j \<and> \<not> bv_reUse (p ! i)"
proof -
  have "child_ok i p"
    using buffers_okD(1) [OF assms(1,2)] assms(3) by (simp add: view_ok_def)
  then show ?thesis
    using assms(2,3) unfolding child_ok_def by (auto simp: childSet_def rootType_def)
qed

lemma child_parent:
  assumes "buffers_ok held p" "i < length p" "bv_type (p ! i) = Child"
  obtains j where "j < length p" "bv_parentID (p ! i) = int j" "rootType (bv_type (p ! j))" "i \<in> childSet j p" "i \<noteq> j"
    "\<not> bv_reUse (p ! i)"
  using child_parent_ex [OF assms] by blast

lemma childSet_not_root:
  assumes "buffers_ok held p" "i < length p" "\<not> rootType (bv_type (p ! i))"
  shows "childSet i p = {}"
proof -
  have False if "k \<in> childSet i p" for k
  proof -
    have k: "k < length p" "bv_type (p ! k) = Child" "bv_parentID (p ! k) = int i"
      using that by (simp_all add: childSet_def)
    from child_parent [OF assms(1) k(1,2)] show False
      using k(3) assms(3) by (metis of_nat_eq_iff)
  qed
  then show ?thesis
    by blast
qed

lemma buffers_ok_refs:
  assumes "buffers_ok held p" "i < length p" "bv_type (p ! i) \<noteq> Empty" "bv_type (p ! i) = Child \<longrightarrow> h > 0"
  shows "buffers_ok (held(i := h)) (p[i := (p ! i)\<lparr>bv_refs := h + card (childSet i p)\<rparr>])"
  unfolding buffers_ok_def
proof (intro allI impI conjI)
  fix j
  let ?p = "p[i := (p ! i)\<lparr>bv_refs := h + card (childSet i p)\<rparr>]"
  assume "j < length ?p"
  then have j: "j < length p"
    by simp
  note d = buffers_okD [OF assms(1) j]
  show "view_ok j ?p"
    by (rule view_ok_refs [OF d(1) j assms(3)])
  have "childSet j ?p = childSet j p"
    by (rule childSet_update_same) simp_all
  then show "bv_refs (?p ! j) = (held(i := h)) j + card (childSet j ?p)"
    using d(2) j by (simp add: nth_update)
  show "0 < (held(i := h)) j" if "bv_type (?p ! j) = Child"
    using that d(3) assms(4) j by (auto simp: nth_update split: if_splits)
qed

text \<open>A root without references of any kind is replaced by a view that is no child.\<close>

lemma buffers_ok_replace:
  assumes "buffers_ok held p" "i < length p" "childSet i p = {}" "bv_type (p ! i) \<noteq> Child" "bv_type v \<noteq> Child" "bv_refs v = h" "view_ok i (p[i := v])"
  shows "buffers_ok (held(i := h)) (p[i := v])"
  unfolding buffers_ok_def
proof (intro allI impI conjI)
  fix j
  assume "j < length (p[i := v])"
  then have j: "j < length p"
    by simp
  note d = buffers_okD [OF assms(1) j]
  have same: "childSet k (p[i := v]) = childSet k p" for k
    using childSet_update_root [OF assms(5), of k p i] assms(4) by (auto simp: childSet_def)
  show "view_ok j (p[i := v])"
    using assms(3,7) d(1) j view_ok_update_unused [of j p i v] by (cases "j = i") auto
  show "bv_refs (p[i := v] ! j) = (held(i := h)) j + card (childSet j (p[i := v]))"
    using d(2) j assms(3,6) by (simp add: nth_update same)
  show "0 < (held(i := h)) j" if "bv_type (p[i := v] ! j) = Child"
    using that d(3) j assms(5) by (auto simp: nth_update split: if_splits)
qed

lemma ref_ok:
  assumes "buffers_ok held p" "i < length p" "bv_type (p ! i) \<noteq> Empty"
  shows "\<exists>p'. refBuffer (int i) p = Some p' \<and> buffers_ok (held(i := held i + 1)) p'"
  using buffers_ok_refs [OF assms, of "held i + 1"] buffers_okD(2) [OF assms(1,2)] assms(2,3)
  by (simp add: refBuffer_def getBuffer_int)

lemma unrefBuffer_root:
  assumes "i < length p" "rootType (bv_type (p ! i))"
  shows "unrefBuffer (int i) p = (if bv_refs (p ! i) = 0 then None
    else if bv_refs (p ! i) \<noteq> 1 then Some (p[i := (p ! i)\<lparr>bv_refs := bv_refs (p ! i) - 1\<rparr>])
    else recycle i (p[i := (p ! i)\<lparr>bv_refs := 0\<rparr>]))"
  using assms by (auto simp: unrefBuffer.simps [of "int i" p] getBuffer_int rootType_def Let_def)

text \<open>What is left in the slot of a root whose last reference is dropped.\<close>

definition recycled :: "bufferView \<Rightarrow> bufferView" where
  "recycled v = (if \<not> bv_reUse v then emptyView
     else if bv_type v = Growable then v\<lparr>bv_refs := 0, bv_offset := 0\<rparr>
     else v\<lparr>bv_refs := 0, bv_offset := 0, bv_length := sizeElements (bv_data v)\<rparr>)"

lemma recycle_root:
  "i < length p \<Longrightarrow> rootType (bv_type (p ! i)) \<Longrightarrow> recycle i (p[i := (p ! i)\<lparr>bv_refs := 0\<rparr>]) = Some (p[i := recycled (p ! i)])"
  by (auto simp: recycle_def recycled_def rootType_def Let_def split: viewType.splits)

lemma view_ok_recycled:
  assumes "i < length p" "rootType (bv_type (p ! i))"
  shows "view_ok i (p[i := recycled (p ! i)])"
  using assms by (auto simp: view_ok_def recycled_def rootType_def inside_def emptyView_def)

lemma unref_root_ok:
  assumes "buffers_ok held p" "i < length p" "rootType (bv_type (p ! i))" "held i > 0"
  shows "\<exists>p'. unrefBuffer (int i) p = Some p' \<and> length p' = length p \<and> buffers_ok (held(i := held i - 1)) p'"
proof -
  have ty: "bv_type (p ! i) \<noteq> Empty" "bv_type (p ! i) \<noteq> Child"
    using assms(3) by (auto simp: rootType_def)
  note r = buffers_okD(2) [OF assms(1,2)]
  show ?thesis
  proof (cases "bv_refs (p ! i) = 1")
    case True
    then have "held i = 1" "card (childSet i p) = 0"
      using r assms(4) by linarith+
    then have "held i = 1" "childSet i p = {}"
      by simp_all
    moreover have "bv_refs (recycled (p ! i)) = 0" "bv_type (recycled (p ! i)) \<noteq> Child"
      using ty by (simp_all add: recycled_def emptyView_def)
    ultimately have "buffers_ok (held(i := 0)) (p[i := recycled (p ! i)])"
      using buffers_ok_replace [OF assms(1,2) _ ty(2), of "recycled (p ! i)" 0] view_ok_recycled [OF assms(2,3)] by blast
    then show ?thesis
      using True \<open>held i = 1\<close> by (simp add: unrefBuffer_root [OF assms(2,3)] recycle_root [OF assms(2,3)])
  next
    case False
    then show ?thesis
      using buffers_ok_refs [OF assms(1,2) ty(1), of "held i - 1"] ty(2) r assms(4) by (simp add: unrefBuffer_root [OF assms(2,3)])
  qed
qed


text \<open>Dropping the last reference to a child: its reference to the parent becomes one that is held, and is dropped.\<close>

lemma drop_child_ok:
  assumes "buffers_ok held p" "i < length p" "bv_type (p ! i) = Child" "i \<in> childSet j p"
  shows "buffers_ok (held(i := 0, j := Suc (held j))) (p[i := emptyView])"
  unfolding buffers_ok_def
proof (intro allI impI conjI)
  fix k
  assume "k < length (p[i := emptyView])"
  then have k: "k < length p"
    by simp
  have nr: "childSet i p = {}"
    using childSet_not_root [OF assms(1,2)] assms(3) by (simp add: rootType_def)
  then have ij: "i \<noteq> j"
    using assms(4) by auto
  note d = buffers_okD [OF assms(1) k]
  have sets: "childSet k (p[i := emptyView]) = childSet k p - {i}"
    by (rule childSet_update_root) (simp add: emptyView_def)
  show "view_ok k (p[i := emptyView])"
  proof (cases "k = i")
    case True
    then show ?thesis
      using k by (simp add: view_ok_def emptyView_def)
  next
    case False
    then show ?thesis
      using view_ok_update_unused [OF d(1) False _ k] nr by blast
  qed
  have "card (childSet j p) = Suc (card (childSet j p - {i}))"
    using card.remove [OF finite_childSet assms(4)] by simp
  moreover have "childSet k p - {i} = childSet k p" if "k \<noteq> j"
    using that assms(4) by (auto simp: childSet_def)
  ultimately show "bv_refs (p[i := emptyView] ! k) = (held(i := 0, j := Suc (held j))) k + card (childSet k (p[i := emptyView]))"
    unfolding sets using d(2) k ij nr by (auto simp: nth_update emptyView_def)
  show "0 < (held(i := 0, j := Suc (held j))) k" if "bv_type (p[i := emptyView] ! k) = Child"
    using that d(3) k ij by (auto simp: nth_update emptyView_def split: if_splits)
qed

lemma unref_root_update:
  assumes "j < length p" "rootType (bv_type (p ! j))" "i \<noteq> j"
  shows "unrefBuffer (int j) (p[i := v]) = map_option (\<lambda>q. q[i := v]) (unrefBuffer (int j) p)"
proof -
  have "j < length (p[i := v])" "rootType (bv_type (p[i := v] ! j))"
    using assms by simp_all
  from unrefBuffer_root [OF this] unrefBuffer_root [OF assms(1,2)] recycle_root [OF this] recycle_root [OF assms(1,2)]
  show ?thesis
    using assms(3) by (simp add: list_update_swap)
qed

lemma unref_child_ok:
  assumes "buffers_ok held p" "i < length p" "bv_type (p ! i) = Child" "held i > 0"
  shows "\<exists>p'. unrefBuffer (int i) p = Some p' \<and> length p' = length p \<and> buffers_ok (held(i := held i - 1)) p'"
proof -
  obtain j where j: "j < length p" "bv_parentID (p ! i) = int j" "rootType (bv_type (p ! j))" "i \<in> childSet j p" "i \<noteq> j" "\<not> bv_reUse (p ! i)"
    using child_parent [OF assms(1-3)] .
  have nr: "childSet i p = {}"
    using childSet_not_root [OF assms(1,2)] assms(3) by (simp add: rootType_def)
  have r: "bv_refs (p ! i) = held i"
    using buffers_okD(2) [OF assms(1,2)] nr by simp
  let ?p1 = "p[i := (p ! i)\<lparr>bv_refs := bv_refs (p ! i) - 1\<rparr>]"
  have un: "unrefBuffer (int i) p = (if bv_refs (p ! i) \<noteq> 1 then Some ?p1
      else (case unrefBuffer (int j) ?p1 of None \<Rightarrow> None | Some p2 \<Rightarrow> recycle i p2))"
    using assms(2-4) r j(2) by (auto simp: unrefBuffer.simps [of "int i" p] getBuffer_int Let_def)
  show ?thesis
  proof (cases "held i = 1")
    case False
    then show ?thesis
      using buffers_ok_refs [OF assms(1,2), of "held i - 1"] assms(3,4) by (simp add: un r nr)
  next
    case True
    note dropped = drop_child_ok [OF assms(1-3) j(4)]
    have root: "j < length (p[i := emptyView])" "rootType (bv_type (p[i := emptyView] ! j))"
      using j by simp_all
    from unref_root_ok [OF dropped root] obtain q where q: "unrefBuffer (int j) (p[i := emptyView]) = Some q" "length q = length p"
        "buffers_ok (held(i := 0, j := held j)) q"
      by auto
    obtain p2 where p2: "unrefBuffer (int j) p = Some p2" "q = p2[i := emptyView]"
      using q(1) unref_root_update [OF j(1,3,5)] by auto
    have len: "length p2 = length p"
      using q(2) p2(2) by simp
    have "unrefBuffer (int j) ?p1 = Some (p2[i := (p ! i)\<lparr>bv_refs := bv_refs (p ! i) - 1\<rparr>])"
      using unref_root_update [OF j(1,3,5)] p2(1) by simp
    then have "unrefBuffer (int i) p = Some q"
      using True assms(2) len j(6) by (simp add: un r p2(2) recycle_def Let_def)
    moreover have "held(i := 0, j := held j) = held(i := held i - 1)"
      using True j(5) by auto
    ultimately show ?thesis
      using q(2,3) by simp
  qed
qed

lemma unref_ok:
  assumes "buffers_ok held p" "i < length p" "held i > 0"
  shows "\<exists>p'. unrefBuffer (int i) p = Some p' \<and> length p' = length p \<and> buffers_ok (held(i := held i - 1)) p'"
proof -
  have "bv_type (p ! i) \<noteq> Empty"
    using buffers_okD [OF assms(1,2)] assms(3) by (auto simp: view_ok_def emptyView_def)
  then consider "bv_type (p ! i) = Child" | "rootType (bv_type (p ! i))"
    by (cases "bv_type (p ! i)") (auto simp: rootType_def)
  then show ?thesis
    using unref_child_ok [OF assms(1,2) _ assms(3)] unref_root_ok [OF assms(1,2) _ assms(3)] by cases auto
qed

lemma firstEmpty_Some:
  "firstEmpty k p = Some i \<Longrightarrow> k \<le> i \<and> i - k < length p \<and> bv_type (p ! (i - k)) = Empty"
proof (induction p arbitrary: k)
  case (Cons v p)
  show ?case
  proof (cases "bv_type v = Empty")
    case False
    then have "Suc k \<le> i \<and> i - Suc k < length p \<and> bv_type (p ! (i - Suc k)) = Empty"
      using Cons.IH [of "Suc k"] Cons.prems by simp
    moreover from this have "i - k = Suc (i - Suc k)"
      by auto
    ultimately show ?thesis
      by auto
  qed (use Cons.prems in auto)
qed simp

text \<open>The views a user can add: those the constructors make.\<close>

definition constructed :: "bufferView \<Rightarrow> bool" where
  "constructed v \<longleftrightarrow> (\<exists>d r. v = setReusable r (writableView d) \<or> v = setReusable r (readOnlyView d) \<or> v = setReusable r (growableView d))"

lemma push_ok:
  assumes "buffers_ok held p" "constructed v" "pushBuffer v p = (p', Some bid)"
  shows "\<exists>i. bid = int i \<and> i < length p \<and> length p' = length p \<and> held i = 0 \<and> buffers_ok held p'"
proof -
  obtain i where i: "firstEmpty 0 p = Some i" "bid = int i"
      "p' = p[i := (if bv_type v = Growable \<and> bv_length v = 0 then v\<lparr>bv_length := sizeElements (bv_growable v)\<rparr> else v)\<lparr>bv_refs := 0\<rparr>]"
    using assms(3) by (auto simp: pushBuffer_def Let_def split: option.splits)
  let ?v = "(if bv_type v = Growable \<and> bv_length v = 0 then v\<lparr>bv_length := sizeElements (bv_growable v)\<rparr> else v)\<lparr>bv_refs := 0\<rparr>"
  have e: "i < length p" "bv_type (p ! i) = Empty"
    using firstEmpty_Some [OF i(1)] by simp_all
  have z: "held i = 0" "childSet i p = {}"
    using buffers_okD [OF assms(1) e(1)] childSet_not_root [OF assms(1) e(1)] e(2) by (auto simp: view_ok_def emptyView_def rootType_def)
  have v: "bv_type ?v \<noteq> Child" "bv_refs ?v = 0"
    using assms(2) by (auto simp: constructed_def setReusable_def writableView_def readOnlyView_def growableView_def)
  have "view_ok i (p[i := ?v])"
    using assms(2) e(1) by (auto simp: constructed_def setReusable_def writableView_def readOnlyView_def growableView_def view_ok_def inside_def
        emptyView_def)
  then have "buffers_ok (held(i := 0)) (p[i := ?v])"
    using buffers_ok_replace [OF assms(1) e(1) z(2) _ v] e(2) by simp
  moreover have "held(i := 0) = held"
    using z(1) by auto
  ultimately show ?thesis
    using i e z by auto
qed


text \<open>\<open>requestNewBuffer\<close> notes the memory of the growable buffers it passes.\<close>

definition blind :: "bufferView \<Rightarrow> viewType \<times> span \<times> int \<times> u64 \<times> u64 \<times> nat \<times> bool" where
  "blind v = (bv_type v, bv_growable v, bv_parentID v, bv_offset v, bv_length v, bv_refs v, bv_reUse v)"

definition noted :: "buffersPool \<Rightarrow> buffersPool \<Rightarrow> bool" where
  "noted p q \<longleftrightarrow> length q = length p \<and>
     (\<forall>k < length p. blind (q ! k) = blind (p ! k) \<and> (bv_type (p ! k) \<noteq> Growable \<longrightarrow> q ! k = p ! k))"

lemma noted_refl: "noted p p"
  by (simp add: noted_def)

lemma blindD: "blind v = blind w \<Longrightarrow> bv_type v = bv_type w \<and> bv_parentID v = bv_parentID w \<and> bv_refs v = bv_refs w"
  by (simp add: blind_def)

lemma noted_trans: "noted p q \<Longrightarrow> noted q r \<Longrightarrow> noted p r"
  by (auto simp: noted_def dest: blindD)

lemma notedD:
  assumes "noted p q" "k < length p"
  shows "bv_type (q ! k) = bv_type (p ! k)" "bv_parentID (q ! k) = bv_parentID (p ! k)" "bv_refs (q ! k) = bv_refs (p ! k)"
    "bv_type (p ! k) \<noteq> Growable \<Longrightarrow> q ! k = p ! k"
  using assms blindD [of "q ! k" "p ! k"] by (simp_all add: noted_def)

lemma noted_childSet:
  assumes "noted p q"
  shows "childSet k q = childSet k p"
proof (rule childSet_cong)
  show "length q = length p"
    using assms by (simp add: noted_def)
qed (simp add: notedD [OF assms])

lemma noted_ok:
  assumes "buffers_ok held p" "noted p q"
  shows "buffers_ok held q"
  unfolding buffers_ok_def
proof (intro allI impI conjI)
  fix k
  assume "k < length q"
  then have k: "k < length p" and len: "length q = length p"
    using assms(2) by (simp_all add: noted_def)
  note D = buffers_okD [OF assms(1) k] and n = notedD [OF assms(2)]
  have "child_ok k q" if c: "child_ok k p" "bv_type (p ! k) = Child"
    using c n(1,4) k len unfolding child_ok_def by auto
  then show "view_ok k q"
    using D(1) n(1,4) [OF k] unfolding view_ok_def by (cases "bv_type (p ! k) = Growable") auto
  show "bv_refs (q ! k) = held k + card (childSet k q)"
    using D(2) n(3) [OF k] noted_childSet [OF assms(2)] by simp
  show "0 < held k" if "bv_type (q ! k) = Child"
    using that D(3) n(1) [OF k] by simp
qed

lemma getWritableData_update:
  "i < length p \<Longrightarrow> bv_type v \<noteq> Empty \<Longrightarrow> bv_type v \<noteq> Child \<Longrightarrow> getWritableData (int i) (p[i := v]) = (p[i := v],
     if bv_type v = Writable then (case span_sliceStartLength (bv_data v) (bv_offset v) (bv_length v) of (valid, d) \<Rightarrow> if valid then Inr d else Inl '''')
     else Inl ''AsyncBuffersPool::getWritableData - Readonly or Growable buffer'')"
  by (cases "bv_type v") (simp_all add: getWritableData_def getBuffer_int split: prod.splits)

lemma span_slice_all: "span_sliceStartLength d 0 (sizeElements d) = (True, d)"
  by (simp add: span_sliceStartLength_def)

text \<open>A buffer that is requested: a writable one without references.\<close>

definition taken :: "bufferView \<Rightarrow> bufferView" where
  "taken v = v\<lparr>bv_refs := 1, bv_offset := 0, bv_length := sizeElements (bv_data v)\<rparr>"

lemma requestIn_Cons:
  assumes "i < length p" "bv_type (p ! i) = Child \<Longrightarrow> bv_refs (p ! i) \<noteq> 0"
  shows "requestIn m (i # is) p =
    (if bv_type (p ! i) = Empty \<or> bv_refs (p ! i) \<noteq> 0 then requestIn m is p
     else
       (let p1 = (if bv_type (p ! i) = Growable then p[i := (p ! i)\<lparr>bv_data := bv_growable (p ! i)\<rparr>] else p) in
        if sizeElements (bv_data (p1 ! i)) < m then requestIn m is p1
        else (p1[i := taken (p1 ! i)], if bv_type (p ! i) = Writable then Inr (int i, bv_data (p ! i))
          else Inl ''AsyncBuffersPool::getWritableData - Readonly or Growable buffer'')))"
  using assms by (cases "bv_type (p ! i)") (auto simp: taken_def Let_def getWritableData_update span_slice_all not_less)

lemma requestIn_taken:
  assumes "requestIn m is p = (p', Inr (bid, d))" "\<forall>i\<in>set is. i < length p" "\<forall>i < length p. bv_type (p ! i) = Child \<longrightarrow> bv_refs (p ! i) \<noteq> 0"
  shows "\<exists>i q. bid = int i \<and> i < length p \<and> bv_type (p ! i) = Writable \<and> bv_refs (p ! i) = 0 \<and> d = bv_data (p ! i) \<and> m \<le> sizeElements d \<and>
    noted p q \<and> p' = q[i := taken (p ! i)]"
  using assms
proof (induction "is" arbitrary: p)
  case (Cons i "is")
  have i: "i < length p"
    using Cons.prems(2) by simp
  define g where "g = (if bv_type (p ! i) = Growable then p[i := (p ! i)\<lparr>bv_data := bv_growable (p ! i)\<rparr>] else p)"
  have g: "noted p g" "length g = length p"
    by (simp_all add: g_def noted_def nth_update blind_def)
  have child: "bv_type (p ! i) = Child \<Longrightarrow> bv_refs (p ! i) \<noteq> 0"
    using Cons.prems(3) i by simp
  have gi: "g ! i = p ! i" if "bv_type (p ! i) = Writable"
    using that by (simp add: g_def)
  have run: "requestIn m (i # is) p = (if bv_type (p ! i) = Empty \<or> bv_refs (p ! i) \<noteq> 0 then requestIn m is p
      else if sizeElements (bv_data (g ! i)) < m then requestIn m is g
      else (g[i := taken (g ! i)], if bv_type (p ! i) = Writable then Inr (int i, bv_data (p ! i))
        else Inl ''AsyncBuffersPool::getWritableData - Readonly or Growable buffer''))"
    unfolding g_def by (rule requestIn_Cons [OF i child, unfolded Let_def])
  consider "requestIn m is p = (p', Inr (bid, d))" | "requestIn m is g = (p', Inr (bid, d))"
    | "bv_refs (p ! i) = 0" "bv_type (p ! i) = Writable" "p' = g[i := taken (g ! i)]" "bid = int i" "d = bv_data (p ! i)" "\<not> sizeElements (bv_data (g ! i)) < m"
  proof (cases "bv_type (p ! i) = Empty \<or> bv_refs (p ! i) \<noteq> 0")
    case True
    then show ?thesis
      using that(1) Cons.prems(1) run by simp
  next
    case False
    then have "if sizeElements (bv_data (g ! i)) < m then requestIn m is g = (p', Inr (bid, d))
        else p' = g[i := taken (g ! i)] \<and> bv_type (p ! i) = Writable \<and> bid = int i \<and> d = bv_data (p ! i)"
      using Cons.prems(1) unfolding run by (auto split: if_splits)
    then show ?thesis
      using that(2,3) False by (meson)
  qed
  then show ?case
  proof cases
    case 1
    then show ?thesis
      using Cons.IH Cons.prems(2,3) by simp
  next
    case 2
    have "\<forall>k < length g. bv_type (g ! k) = Child \<longrightarrow> bv_refs (g ! k) \<noteq> 0" "\<forall>k\<in>set is. k < length g"
      using Cons.prems(2,3) notedD(1,3) [OF g(1)] g(2) by auto
    from Cons.IH [OF 2 this(2,1)] obtain k q where k: "bid = int k" "k < length g" "bv_type (g ! k) = Writable" "bv_refs (g ! k) = 0"
        "d = bv_data (g ! k)" "m \<le> sizeElements d" "noted g q" "p' = q[k := taken (g ! k)]"
      by blast
    have "g ! k = p ! k"
      using notedD(1,4) [OF g(1)] k(2,3) g(2) by auto
    then show ?thesis
      using k noted_trans [OF g(1) k(7)] g(2) by (intro exI [of _ k] exI [of _ q]) simp
  next
    case 3
    then have "g = p"
      by (simp add: g_def)
    then show ?thesis
      using 3 i noted_refl by (intro exI [of _ i] exI [of _ p]) (simp add: not_less)
  qed
qed simp

lemma request_ok:
  assumes "buffers_ok held p" "requestNewBuffer m p = (p', Inr (bid, d))"
  shows "\<exists>i. bid = int i \<and> i < length p \<and> length p' = length p \<and> held i = 0 \<and> childSet i p = {} \<and> bv_type (p ! i) = Writable \<and>
    d = bv_data (p ! i) \<and> m \<le> sizeElements d \<and> buffers_ok (held(i := 1)) p'"
proof -
  have "\<forall>i < length p. bv_type (p ! i) = Child \<longrightarrow> bv_refs (p ! i) \<noteq> 0"
    using buffers_okD(2,3) [OF assms(1)] by auto
  from requestIn_taken [OF assms(2) [unfolded requestNewBuffer_def] _ this]
  obtain i q where i: "bid = int i" "i < length p" "bv_type (p ! i) = Writable" "bv_refs (p ! i) = 0" "d = bv_data (p ! i)"
      "m \<le> sizeElements d" "noted p q" "p' = q[i := taken (p ! i)]"
    by auto
  have len: "length q = length p"
    using i(7) by (simp add: noted_def)
  have z: "held i = 0" "childSet i p = {}"
    using buffers_okD(2) [OF assms(1) i(2)] i(4) by simp_all
  have "q ! i = p ! i"
    using notedD(4) [OF i(7,2)] i(3) by simp
  then have "buffers_ok (held(i := 1)) (q[i := taken (p ! i)])"
    using buffers_ok_replace [OF noted_ok [OF assms(1) i(7)], of i "taken (p ! i)" 1] i(2,3) len z(2) noted_childSet [OF i(7)]
    by (simp add: taken_def view_ok_def inside_def)
  then show ?thesis
    using i z len by auto
qed


text \<open>A request that fails: the pool is as it was, or the first buffer nobody uses with memory enough is not writable and has been taken.\<close>

lemma requestIn_refused:
  assumes "requestIn m is p = (p', Inl msg)" "\<forall>i\<in>set is. i < length p" "\<forall>i < length p. bv_type (p ! i) = Child \<longrightarrow> bv_refs (p ! i) \<noteq> 0"
  shows "\<exists>q. noted p q \<and> (p' = q \<or>
    (\<exists>i < length p. bv_refs (p ! i) = 0 \<and> bv_type (p ! i) \<in> {ReadOnly, Growable} \<and> p' = q[i := taken (q ! i)]))"
  using assms
proof (induction "is" arbitrary: p)
  case Nil
  then show ?case
    using noted_refl by auto
next
  case (Cons i "is")
  have i: "i < length p"
    using Cons.prems(2) by simp
  define g where "g = (if bv_type (p ! i) = Growable then p[i := (p ! i)\<lparr>bv_data := bv_growable (p ! i)\<rparr>] else p)"
  have g: "noted p g" "length g = length p"
    by (simp_all add: g_def noted_def nth_update blind_def)
  have child: "bv_type (p ! i) = Child \<Longrightarrow> bv_refs (p ! i) \<noteq> 0"
    using Cons.prems(3) i by simp
  have run: "requestIn m (i # is) p = (if bv_type (p ! i) = Empty \<or> bv_refs (p ! i) \<noteq> 0 then requestIn m is p
      else if sizeElements (bv_data (g ! i)) < m then requestIn m is g
      else (g[i := taken (g ! i)], if bv_type (p ! i) = Writable then Inr (int i, bv_data (p ! i))
        else Inl ''AsyncBuffersPool::getWritableData - Readonly or Growable buffer''))"
    unfolding g_def by (rule requestIn_Cons [OF i child, unfolded Let_def])
  show ?case
  proof (cases "bv_type (p ! i) = Empty \<or> bv_refs (p ! i) \<noteq> 0")
    case True
    then show ?thesis
      using Cons.IH Cons.prems run by simp
  next
    case free: False
    then have eq: "(if sizeElements (bv_data (g ! i)) < m then requestIn m is g
        else (g[i := taken (g ! i)], if bv_type (p ! i) = Writable then Inr (int i, bv_data (p ! i))
          else Inl ''AsyncBuffersPool::getWritableData - Readonly or Growable buffer'')) = (p', Inl msg)"
      using Cons.prems(1) run by simp
    show ?thesis
    proof (cases "sizeElements (bv_data (g ! i)) < m")
      case True
      have "\<forall>k < length g. bv_type (g ! k) = Child \<longrightarrow> bv_refs (g ! k) \<noteq> 0" "\<forall>k\<in>set is. k < length g"
        using Cons.prems(2,3) notedD(1,3) [OF g(1)] g(2) by auto
      then obtain q where q: "noted g q" "p' = q \<or>
          (\<exists>i < length g. bv_refs (g ! i) = 0 \<and> bv_type (g ! i) \<in> {ReadOnly, Growable} \<and> p' = q[i := taken (q ! i)])"
        using Cons.IH [of g] eq True by auto
      have "bv_refs (g ! k) = bv_refs (p ! k) \<and> bv_type (g ! k) = bv_type (p ! k)" if "k < length p" for k
        using notedD [OF g(1) that] by simp
      then show ?thesis
        using q noted_trans [OF g(1) q(1)] g(2) by (intro exI [of _ q]) auto
    next
      case False
      then have "bv_type (p ! i) \<noteq> Writable" "p' = g[i := taken (g ! i)]"
        using eq by (auto split: if_splits)
      then show ?thesis
        using free child i g(1) by (intro exI [of _ g]) (cases "bv_type (p ! i)"; auto)
    qed
  qed
qed

lemma refused_ok:
  assumes "buffers_ok held p" "requestNewBuffer m p = (p', Inl msg)"
  shows "length p' = length p \<and> (buffers_ok held p' \<and> (\<forall>k < length p. bv_refs (p' ! k) = bv_refs (p ! k)) \<or>
    (\<exists>i < length p. bv_refs (p ! i) = 0 \<and> bv_refs (p' ! i) = 1 \<and> held i = 0 \<and> childSet i p = {} \<and> bv_type (p' ! i) \<in> {ReadOnly, Growable} \<and>
      (\<forall>k < length p. k \<noteq> i \<longrightarrow> bv_refs (p' ! k) = bv_refs (p ! k)) \<and> buffers_ok (held(i := 1)) p'))"
proof -
  have "\<forall>i < length p. bv_type (p ! i) = Child \<longrightarrow> bv_refs (p ! i) \<noteq> 0"
    using buffers_okD(2,3) [OF assms(1)] by auto
  from requestIn_refused [OF assms(2) [unfolded requestNewBuffer_def] _ this]
  obtain q where q: "noted p q" "p' = q \<or>
      (\<exists>i < length p. bv_refs (p ! i) = 0 \<and> bv_type (p ! i) \<in> {ReadOnly, Growable} \<and> p' = q[i := taken (q ! i)])"
    by auto
  have len: "length q = length p"
    using q(1) by (simp add: noted_def)
  note ok = noted_ok [OF assms(1) q(1)]
  have refs: "bv_refs (q ! k) = bv_refs (p ! k)" if "k < length p" for k
    using notedD(3) [OF q(1) that] .
  from q(2) show ?thesis
  proof (elim disjE exE conjE)
    assume "p' = q"
    then show ?thesis
      using ok len refs by simp
  next
    fix i
    assume i: "i < length p" "bv_refs (p ! i) = 0" "bv_type (p ! i) \<in> {ReadOnly, Growable}" "p' = q[i := taken (q ! i)]"
    have z: "held i = 0" "childSet i p = {}"
      using buffers_okD(2) [OF assms(1) i(1)] i(2) by simp_all
    have ty: "bv_type (q ! i) = bv_type (p ! i)"
      using notedD(1) [OF q(1) i(1)] .
    have "buffers_ok (held(i := 1)) (q[i := taken (q ! i)])"
      using buffers_ok_replace [OF ok, of i "taken (q ! i)" 1] i(1,3) len z(2) noted_childSet [OF q(1)] ty
      by (auto simp: taken_def view_ok_def inside_def)
    then show ?thesis
      using i z len refs ty by (auto simp: taken_def nth_update)
  qed
qed

text \<open>
  Changing a view without touching its type, parent and references keeps the invariant if the view is still
  in order and the memory of a root that does not move stays.
\<close>

lemma buffers_ok_change:
  assumes "buffers_ok held p" "i < length p" "bv_type v = bv_type (p ! i)" "bv_parentID v = bv_parentID (p ! i)" "bv_refs v = bv_refs (p ! i)"
    "bv_data v = bv_data (p ! i) \<or> bv_type (p ! i) \<in> {Child, Growable}" "view_ok i (p[i := v])"
  shows "buffers_ok held (p[i := v])"
  unfolding buffers_ok_def
proof (intro allI impI conjI)
  fix k
  assume "k < length (p[i := v])"
  then have k: "k < length p"
    by simp
  note D = buffers_okD [OF assms(1) k]
  have ty: "bv_type (p[i := v] ! j) = bv_type (p ! j)" if "j < length p" for j
    using that assms(3) by (simp add: nth_update)
  have root: "bv_data (p[i := v] ! j) = bv_data (p ! j)" if "j < length p" "rootType (bv_type (p ! j))" "bv_type (p ! j) \<noteq> Growable" for j
    using that assms(6) by (auto simp: nth_update rootType_def)
  show "view_ok k (p[i := v])"
  proof (cases "k = i")
    case False
    then have eq: "p[i := v] ! k = p ! k"
      by simp
    have "child_ok k (p[i := v])" if c: "child_ok k p" "bv_type (p ! k) = Child"
    proof -
      obtain j where j: "j < length p" "bv_parentID (p ! k) = int j" "rootType (bv_type (p ! j))"
          "bv_type (p ! j) \<noteq> Growable \<longrightarrow> inside (bv_offset (p ! k)) (bv_length (p ! k)) (bv_data (p ! j)) \<and>
            bv_data (p ! k) = \<lparr>items = items (bv_data (p ! j)) + bv_offset (p ! k), sizeElements = bv_length (p ! k)\<rparr>"
        using c(1) unfolding child_ok_def by blast
      then show ?thesis
        using c(1) ty [OF j(1)] root [OF j(1,3)] unfolding child_ok_def eq by (intro conjI exI [of _ j]) auto
    qed
    then show ?thesis
      using D(1) unfolding view_ok_def eq by blast
  qed (use assms(7) in simp)
  have "childSet k (p[i := v]) = childSet k p"
    by (rule childSet_update_same [OF assms(3,4)])
  then show "bv_refs (p[i := v] ! k) = held k + card (childSet k (p[i := v]))"
    using D(2) k assms(5) by (simp add: nth_update)
  show "0 < held k" if "bv_type (p[i := v] ! k) = Child"
    using that D(3) ty [OF k] by simp
qed

lemma resize_ok:
  assumes "buffers_ok held p" "i < length p"
  shows "buffers_ok held (setNewBufferSize resize (int i) n p) \<and> length (setNewBufferSize resize (int i) n p) = length p"
proof (cases "bv_type (p ! i)")
  case Child
  note view = buffers_okD(1) [OF assms]
  obtain j where j: "j < length p" "bv_parentID (p ! i) = int j" "rootType (bv_type (p ! j))"
      "bv_type (p ! j) \<noteq> Growable \<longrightarrow> inside (bv_offset (p ! i)) (bv_length (p ! i)) (bv_data (p ! j)) \<and>
        bv_data (p ! i) = \<lparr>items = items (bv_data (p ! j)) + bv_offset (p ! i), sizeElements = bv_length (p ! i)\<rparr>"
    using view Child by (auto simp: view_ok_def child_ok_def)
  define v where "v = (p ! i)\<lparr>bv_length := n,
      bv_data := (if sizeElements (bv_data (p ! i)) \<noteq> 0 then snd (span_sliceStartLength (bv_data (p ! i)) 0 n) else bv_data (p ! i))\<rparr>"
  have run: "setNewBufferSize resize (int i) n p = (if n \<le> bv_length (p ! i) then p[i := v] else p)"
    using Child assms(2) by (simp add: setNewBufferSize_def getBuffer_int v_def)
  have "view_ok i (p[i := v])" if n: "n \<le> bv_length (p ! i)"
  proof -
    have "inside (bv_offset v) (bv_length v) (bv_data (p ! j)) \<and>
        bv_data v = \<lparr>items = items (bv_data (p ! j)) + bv_offset v, sizeElements = bv_length v\<rparr>" if "bv_type (p ! j) \<noteq> Growable"
      using j(4) that n by (auto simp: v_def inside_def span_sliceStartLength_def word_le_nat_alt word_unat_eq_iff [of n 0])
    then have "child_ok i (p[i := v])"
      using view Child j assms(2) unfolding child_ok_def by (auto simp: view_ok_def child_ok_def v_def nth_update rootType_def)
    then show ?thesis
      using Child assms(2) by (simp add: view_ok_def v_def)
  qed
  then show ?thesis
    using buffers_ok_change [OF assms, of v] Child assms(1) by (simp add: run v_def)
next
  case Growable
  then show ?thesis
    using buffers_ok_change [OF assms] assms by (auto simp: setNewBufferSize_def getBuffer_int view_ok_def split: option.splits)
next
  case Empty
  then show ?thesis
    using assms by (simp add: setNewBufferSize_def getBuffer_int)
next
  case Writable
  have "inside (bv_offset (p ! i)) (bv_length (p ! i)) (bv_data (p ! i))"
    using buffers_okD(1) [OF assms] Writable by (simp add: view_ok_def)
  then have "inside (bv_offset (p ! i)) n (bv_data (p ! i))" if "n \<le> sizeElements (bv_data (p ! i)) - bv_offset (p ! i)"
    using that unat_sub [of "bv_offset (p ! i)" "sizeElements (bv_data (p ! i))"] by (simp add: inside_def word_le_nat_alt)
  then show ?thesis
    using buffers_ok_change [OF assms, of "(p ! i)\<lparr>bv_length := n\<rparr>"] Writable assms by (simp add: setNewBufferSize_def getBuffer_int view_ok_def)
next
  case ReadOnly
  have "inside (bv_offset (p ! i)) (bv_length (p ! i)) (bv_data (p ! i))"
    using buffers_okD(1) [OF assms] ReadOnly by (simp add: view_ok_def)
  then have "inside (bv_offset (p ! i)) n (bv_data (p ! i))" if "n \<le> sizeElements (bv_data (p ! i)) - bv_offset (p ! i)"
    using that unat_sub [of "bv_offset (p ! i)" "sizeElements (bv_data (p ! i))"] by (simp add: inside_def word_le_nat_alt)
  then show ?thesis
    using buffers_ok_change [OF assms, of "(p ! i)\<lparr>bv_length := n\<rparr>"] ReadOnly assms by (simp add: setNewBufferSize_def getBuffer_int view_ok_def)
qed


lemma rootParent_eq:
  assumes "buffers_ok held p" "i < length p"
  shows "rootParent (Suc (length p)) i p = Some (if bv_type (p ! i) = Child then nat (bv_parentID (p ! i)) else i)"
proof (cases "bv_type (p ! i) = Child")
  case True
  obtain j where j: "j < length p" "bv_parentID (p ! i) = int j" "rootType (bv_type (p ! j))"
    using child_parent [OF assms True] .
  moreover obtain n where "length p = Suc n"
    using assms(2) by (cases "length p") auto
  ultimately show ?thesis
    using True by (auto simp: getBuffer_int rootType_def)
qed simp

text \<open>The parent a child of buffer \<open>i\<close> gets, and its memory.\<close>

definition rootOf :: "nat \<Rightarrow> buffersPool \<Rightarrow> nat" where
  "rootOf i p = (if bv_type (p ! i) = Child then nat (bv_parentID (p ! i)) else i)"

lemma rootOf_root:
  assumes "buffers_ok held p" "i < length p" "bv_type (p ! i) \<noteq> Empty"
  shows "rootOf i p < length p" "rootType (bv_type (p ! rootOf i p))"
proof -
  have "rootOf i p < length p \<and> rootType (bv_type (p ! rootOf i p))"
  proof (cases "bv_type (p ! i) = Child")
    case True
    then show ?thesis
      using child_parent_ex [OF assms(1,2) True] by (auto simp: rootOf_def)
  next
    case False
    then show ?thesis
      using assms(2,3) by (cases "bv_type (p ! i)") (simp_all add: rootOf_def rootType_def)
  qed
  then show "rootOf i p < length p" "rootType (bv_type (p ! rootOf i p))"
    by simp_all
qed

definition childView :: "nat \<Rightarrow> u64 \<Rightarrow> u64 \<Rightarrow> bufferView \<Rightarrow> bufferView \<Rightarrow> bufferView" where
  "childView r off len root slot = slot\<lparr>bv_type := Child, bv_parentID := int r, bv_offset := off, bv_length := len, bv_refs := 1,
     bv_data := snd (span_sliceStartLength (rootFullData root) off len)\<rparr>"

lemma createChildView_eq:
  assumes "buffers_ok held p" "i < length p" "bv_type (p ! i) \<noteq> Empty"
  shows "createChildView (int i) off len p =
    (let r = rootOf i p; start = bv_offset (p ! i) + off in
     if sizeElements (rootFullData (p ! r)) < start + len then (p, Inl ''AsyncBuffersPool::createChildView - Offset and length out of bounds'')
     else (case firstEmpty 0 p of None \<Rightarrow> (p, Inl ''AsyncBuffersPool::createChildView - No space in buffer pool'')
        | Some k \<Rightarrow> ((p[k := childView r start len (p ! r) (p ! k)])[r := (p ! r)\<lparr>bv_refs := bv_refs (p ! r) + 1\<rparr>], Inr (int k))))"
proof -
  have "firstEmpty 0 p = Some k \<Longrightarrow> k \<noteq> rootOf i p" for k
    using firstEmpty_Some [of 0 p k] rootOf_root(2) [OF assms] by (auto simp: rootType_def)
  then show ?thesis
    using assms(2,3) rootParent_eq [OF assms(1,2)]
    by (simp add: createChildView_def getBuffer_int Let_def childView_def not_less rootOf_def [symmetric] split: option.splits)
qed

lemma child_ok_created:
  assumes "buffers_ok held p" "i < length p" "bv_type (p ! i) \<noteq> Empty" "createChildView (int i) off len p = (p', Inr bid)"
    "unat (bv_offset (p ! i)) + unat off + unat len < 2 ^ 64"
  shows "\<exists>k. bid = int k \<and> k < length p \<and> length p' = length p \<and> held k = 0 \<and> bv_type (p ! k) = Empty \<and> bv_type (p' ! k) = Child \<and>
    buffers_ok (held(k := 1)) p'"
proof -
  let ?r = "rootOf i p" and ?o = "bv_offset (p ! i) + off"
  note root = rootOf_root [OF assms(1-3)]
  obtain k where k: "firstEmpty 0 p = Some k" "bid = int k" "\<not> sizeElements (rootFullData (p ! ?r)) < ?o + len"
      "p' = (p[k := childView ?r ?o len (p ! ?r) (p ! k)])[?r := (p ! ?r)\<lparr>bv_refs := bv_refs (p ! ?r) + 1\<rparr>]"
    using assms(4) createChildView_eq [OF assms(1-3)] by (auto simp: Let_def split: if_splits option.splits)
  have e: "k < length p" "bv_type (p ! k) = Empty" "p ! k = emptyView"
    using firstEmpty_Some [OF k(1)] buffers_okD(1) [OF assms(1), of k] by (simp_all add: view_ok_def)
  have z: "held k = 0" "childSet k p = {}"
    using buffers_okD(2) [OF assms(1) e(1)] e(3) by (simp_all add: emptyView_def)
  have kr: "k \<noteq> ?r"
    using e(2) root(2) by (auto simp: rootType_def)
  let ?c = "childView ?r ?o len (p ! ?r) (p ! k)"
  let ?p1 = "p[k := ?c]"
  have inside: "unat ?o + unat len \<le> unat (sizeElements (rootFullData (p ! ?r)))" "unat (?o + len) = unat ?o + unat len"
  proof -
    have "unat ?o = unat (bv_offset (p ! i)) + unat off"
      using assms(5) by (simp add: unat_word_ariths)
    then show "unat (?o + len) = unat ?o + unat len"
      using assms(5) by (simp add: unat_word_ariths)
    then show "unat ?o + unat len \<le> unat (sizeElements (rootFullData (p ! ?r)))"
      using k(3) by (simp add: word_less_nat_alt)
  qed
  have data: "bv_data ?c = \<lparr>items = items (rootFullData (p ! ?r)) + ?o, sizeElements = len\<rparr>"
    using k(3) by (simp add: childView_def span_sliceStartLength_def not_less)
  have p'k: "p' ! k = ?c" "p' ! ?r = (p ! ?r)\<lparr>bv_refs := bv_refs (p ! ?r) + 1\<rparr>" "length p' = length p"
    using k(4) e(1) kr root(1) by simp_all
  have p'j: "p' ! j = p ! j" if "j \<noteq> k" "j \<noteq> ?r" for j
    using that k(4) by simp
  have ty: "bv_type ?c = Child" "bv_parentID ?c = int ?r" "bv_refs ?c = 1" "bv_offset ?c = ?o" "bv_length ?c = len" "\<not> bv_reUse ?c"
    by (simp_all add: childView_def e(3) emptyView_def)
  have sets: "childSet j p' = (if j = ?r then insert k (childSet j p) else childSet j p)" for j
  proof -
    have "childSet j p' = childSet j ?p1"
      unfolding k(4) using kr by (intro childSet_update_same) simp_all
    then show ?thesis
      using childSet_new_child [OF e(1) ty(1,2), of j] e(2) by simp
  qed
  have "k \<notin> childSet ?r p"
    using e(2) by (simp add: childSet_def)
  moreover have same: "bv_type (p' ! j) = bv_type (p ! j) \<and> bv_data (p' ! j) = bv_data (p ! j)" if "j < length p" "j \<noteq> k" for j
    using that p'j p'k(2) by (cases "j = ?r") simp_all
  moreover have "view_ok j p'" if j: "j < length p" for j
  proof (cases "j = k")
    case True
    have "child_ok k p'"
      unfolding child_ok_def p'k(1) ty using root kr same [OF root(1)] p'k(3) inside(1) data
      by (intro conjI exI [of _ ?r]) (auto simp: rootFullData_def inside_def ty)
    then show ?thesis
      using True by (simp add: view_ok_def p'k(1) ty(1))
  next
    case False
    have "j \<notin> childSet k p"
      using z(2) by simp
    then have "view_ok j ?p1"
      using view_ok_update_unused [OF buffers_okD(1) [OF assms(1) j] False _ j] by simp
    moreover have "?p1 ! ?r = p ! ?r" "bv_type (?p1 ! ?r) \<noteq> Empty"
      using kr root(2) by (auto simp: rootType_def)
    ultimately show ?thesis
      using view_ok_refs [of j ?p1 ?r "bv_refs (p ! ?r) + 1"] j unfolding k(4) by simp
  qed
  moreover have "bv_refs (p' ! j) = (held(k := 1)) j + card (childSet j p') \<and> (bv_type (p' ! j) = Child \<longrightarrow> 0 < (held(k := 1)) j)"
    if j: "j < length p" for j
  proof (cases "j = k")
    case True
    then show ?thesis
      using z kr by (simp add: p'k(1) ty sets)
  next
    case False
    note D = buffers_okD [OF assms(1) j]
    show ?thesis
    proof (cases "j = ?r")
      case True
      then show ?thesis
        using D kr root(2) \<open>k \<notin> childSet ?r p\<close> by (auto simp: p'k(2) sets rootType_def)
    next
      case other: False
      then show ?thesis
        using D False by (simp add: p'j sets)
    qed
  qed
  ultimately have "buffers_ok (held(k := 1)) p'"
    unfolding buffers_ok_def p'k(3) by blast
  then show ?thesis
    using k(2) e z p'k ty(1) by auto
qed


lemma look_ok:
  assumes "buffers_ok held p" "i < length p" "bv_type (p ! i) = Child" "bv_type (p ! j) = Growable" "bv_parentID (p ! i) = int j"
  shows "buffers_ok held (p[i := (p ! i)\<lparr>bv_data := d\<rparr>])"
proof (rule buffers_ok_change [OF assms(1,2)])
  have "child_ok i p"
    using buffers_okD(1) [OF assms(1,2)] assms(3) by (simp add: view_ok_def)
  then obtain l where l: "l < length p" "bv_parentID (p ! i) = int l" "rootType (bv_type (p ! l))" "\<not> bv_reUse (p ! i)"
    by (auto simp: child_ok_def)
  have "l = j" "l \<noteq> i"
    using l(2,3) assms(3,5) by (auto simp: rootType_def)
  then have "child_ok i (p[i := (p ! i)\<lparr>bv_data := d\<rparr>])"
    unfolding child_ok_def using l assms(2,4) by (auto simp: nth_update)
  then show "view_ok i (p[i := (p ! i)\<lparr>bv_data := d\<rparr>])"
    using assms(2,3) by (simp add: view_ok_def)
qed (simp_all add: assms(3))

lemma getBuffer_Some_iff: "getBuffer bid p = Some i \<longleftrightarrow> bid = int i \<and> i < length p \<and> bv_type (p ! i) \<noteq> Empty"
  by (auto simp: getBuffer_def)

lemma getReadableData_pool:
  "fst (getReadableData (int i) p) = p \<or>
   (\<exists>j d. i < length p \<and> bv_type (p ! i) = Child \<and> bv_type (p ! j) = Growable \<and> bv_parentID (p ! i) = int j \<and>
     fst (getReadableData (int i) p) = p[i := (p ! i)\<lparr>bv_data := d\<rparr>])"
  by (auto simp: getReadableData_def getBuffer_int getBuffer_Some_iff split: option.splits viewType.splits prod.splits)

lemma getWritableData_pool:
  "fst (getWritableData (int i) p) = p \<or>
   (\<exists>j d. i < length p \<and> bv_type (p ! i) = Child \<and> bv_type (p ! j) = Growable \<and> bv_parentID (p ! i) = int j \<and>
     fst (getWritableData (int i) p) = p[i := (p ! i)\<lparr>bv_data := d\<rparr>])"
  by (auto simp: getWritableData_def getBuffer_int getBuffer_Some_iff split: option.splits viewType.splits prod.splits)

end
