(* ===== verification/AsyncBuffersTheorems.thy ===== *)
theory AsyncBuffersTheorems
  imports AsyncBuffersProps
begin

text \<open>
  The theorems on the buffers pool: no assertion fails for holders that keep to the discipline, and the
  data of a buffer that is held stays where it is; then what goes wrong in \<open>requestNewBuffer\<close> and
  \<open>createChildView\<close>.
\<close>

section \<open>Holders\<close>

text \<open>
  A state is what is held, the references left by failing requests, and the pool: \<open>held i\<close> counts the
  references to buffer \<open>i\<close> that somebody has, \<open>stray i\<close> those that a failing \<open>requestNewBuffer\<close> has left and
  nobody knows of. The steps are what holders do with a pool, with failing requests among them; the other
  operations change nothing when they fail. Only a holder drops a reference or makes a child view, and the
  offset and length of a child view do not exceed \<open>size_t\<close> together.
\<close>

definition allRefs :: "(nat \<Rightarrow> nat) \<Rightarrow> (nat \<Rightarrow> nat) \<Rightarrow> nat \<Rightarrow> nat" where
  "allRefs held stray = (\<lambda>i. held i + stray i)"

text \<open>The references a failing request has left: one for each count it has raised.\<close>

definition strayAfter :: "(nat \<Rightarrow> nat) \<Rightarrow> buffersPool \<Rightarrow> buffersPool \<Rightarrow> nat \<Rightarrow> nat" where
  "strayAfter stray p p' = (\<lambda>i. if i < length p \<and> bv_refs (p ! i) < bv_refs (p' ! i) then stray i + 1 else stray i)"

type_synonym buffersState = "(nat \<Rightarrow> nat) \<times> (nat \<Rightarrow> nat) \<times> buffersPool"

inductive buffers_step :: "buffersState \<Rightarrow> buffersState \<Rightarrow> bool" where
  referenced: "i < length p \<Longrightarrow> bv_type (p ! i) \<noteq> Empty \<Longrightarrow> refBuffer (int i) p = Some p' \<Longrightarrow>
    buffers_step (held, stray, p) (held(i := held i + 1), stray, p')"
| released: "i < length p \<Longrightarrow> held i > 0 \<Longrightarrow> unrefBuffer (int i) p = Some p' \<Longrightarrow>
    buffers_step (held, stray, p) (held(i := held i - 1), stray, p')"
| requested: "requestNewBuffer m p = (p', Inr (int i, d)) \<Longrightarrow> buffers_step (held, stray, p) (held(i := 1), stray, p')"
| refused: "requestNewBuffer m p = (p', Inl msg) \<Longrightarrow> buffers_step (held, stray, p) (held, strayAfter stray p p', p')"
| resized: "i < length p \<Longrightarrow> buffers_step (held, stray, p) (held, stray, setNewBufferSize resize (int i) n p)"
| pushed: "constructed v \<Longrightarrow> pushBuffer v p = (p', Some bid) \<Longrightarrow> buffers_step (held, stray, p) (held, stray, p')"
| viewed: "i < length p \<Longrightarrow> held i > 0 \<Longrightarrow> unat (bv_offset (p ! i)) + unat off + unat len < 2 ^ 64 \<Longrightarrow>
    createChildView (int i) off len p = (p', Inr (int k)) \<Longrightarrow> buffers_step (held, stray, p) (held(k := 1), stray, p')"
| looked: "i < length p \<Longrightarrow> buffers_step (held, stray, p) (held, stray, fst (getReadableData (int i) p))"
| written: "i < length p \<Longrightarrow> buffers_step (held, stray, p) (held, stray, fst (getWritableData (int i) p))"

lemma allRefs_upd: "allRefs (held(i := n)) stray = (allRefs held stray)(i := n + stray i)"
  by (auto simp: allRefs_def)

lemma allRefs_pos: "held i > 0 \<Longrightarrow> allRefs held stray i > 0"
  by (simp add: allRefs_def)

lemma held_not_empty: "buffers_ok held p \<Longrightarrow> i < length p \<Longrightarrow> held i > 0 \<Longrightarrow> bv_type (p ! i) \<noteq> Empty"
  using buffers_okD by (fastforce simp: view_ok_def emptyView_def)

lemma looked_ok:
  assumes "buffers_ok held p" "q = p \<or> (\<exists>j d. i < length p \<and> bv_type (p ! i) = Child \<and> bv_type (p ! j) = Growable \<and>
      bv_parentID (p ! i) = int j \<and> q = p[i := (p ! i)\<lparr>bv_data := d\<rparr>])"
  shows "buffers_ok held q \<and> length q = length p"
  using assms look_ok [OF assms(1)] by auto

lemma strayAfter_one:
  assumes "\<And>k. k < length p \<Longrightarrow> bv_refs (q ! k) = (if k = i then 1 else bv_refs (p ! k))" "i < length p" "bv_refs (p ! i) = 0" "stray i = 0"
  shows "strayAfter stray p q = stray(i := 1)"
  using assms by (auto simp: strayAfter_def fun_eq_iff split: if_splits)

lemma refused_total:
  assumes "buffers_ok (allRefs held stray) p" "requestNewBuffer m p = (p', Inl msg)"
  shows "buffers_ok (allRefs held (strayAfter stray p p')) p' \<and> length p' = length p"
proof -
  note R = refused_ok [OF assms]
  show ?thesis
  proof (cases "\<forall>k < length p. bv_refs (p' ! k) = bv_refs (p ! k)")
    case True
    then have "strayAfter stray p p' = stray"
      by (simp add: strayAfter_def fun_eq_iff)
    then show ?thesis
      using R True by auto
  next
    case False
    then obtain i where i: "i < length p" "bv_refs (p ! i) = 0" "bv_refs (p' ! i) = 1" "allRefs held stray i = 0"
        "\<forall>k < length p. k \<noteq> i \<longrightarrow> bv_refs (p' ! k) = bv_refs (p ! k)" "buffers_ok ((allRefs held stray)(i := 1)) p'"
      using R by auto
    have "strayAfter stray p p' = stray(i := stray i + 1)"
      using i(1-3,5) by (auto simp: strayAfter_def fun_eq_iff)
    then have "allRefs held (strayAfter stray p p') = (allRefs held stray)(i := 1)"
      using i(4) by (auto simp: allRefs_def)
    then show ?thesis
      using R i(6) by simp
  qed
qed

lemma buffers_step_ok:
  assumes "buffers_step (held, stray, p) (held', stray', p')" "buffers_ok (allRefs held stray) p"
  shows "buffers_ok (allRefs held' stray') p' \<and> length p' = length p"
  using assms(1)
proof cases
  case (referenced i)
  moreover have "(allRefs held stray)(i := allRefs held stray i + 1) = allRefs (held(i := held i + 1)) stray"
    by (auto simp: allRefs_def)
  ultimately show ?thesis
    using ref_ok [OF assms(2), of i] by (auto simp: refBuffer_def getBuffer_int)
next
  case (released i)
  moreover from this have "(allRefs held stray)(i := allRefs held stray i - 1) = allRefs (held(i := held i - 1)) stray"
    by (auto simp: allRefs_def)
  ultimately show ?thesis
    using unref_ok [OF assms(2), of i] allRefs_pos [of held i stray] by auto
next
  case (requested m i d)
  have "allRefs held stray i = 0 \<and> length p' = length p \<and> buffers_ok ((allRefs held stray)(i := 1)) p'"
    using request_ok [OF assms(2) requested(3)] by auto
  then show ?thesis
    by (simp add: requested(1,2) allRefs_upd) (simp add: allRefs_def)
next
  case (refused m msg)
  then show ?thesis
    using refused_total [OF assms(2)] by simp
next
  case (resized i resize n)
  then show ?thesis
    using resize_ok [OF assms(2)] by simp
next
  case (pushed v bid)
  then show ?thesis
    using push_ok [OF assms(2) pushed(3,4)] by auto
next
  case (viewed i off len k)
  have "allRefs held stray k = 0 \<and> length p' = length p \<and> buffers_ok ((allRefs held stray)(k := 1)) p'"
    using child_ok_created [OF assms(2) viewed(3) held_not_empty [OF assms(2) viewed(3) allRefs_pos [of held, OF viewed(4)]] viewed(6,5)] by auto
  then show ?thesis
    by (simp add: viewed(1,2) allRefs_upd) (simp add: allRefs_def)
next
  case (looked i)
  then show ?thesis
    using looked_ok [OF assms(2) getReadableData_pool [of i p]] by simp
next
  case (written i)
  then show ?thesis
    using looked_ok [OF assms(2) getWritableData_pool [of i p]] by simp
qed

text \<open>The states reached from a pool of views as the constructors and the user leave them.\<close>

definition buffers_reach :: "(nat \<Rightarrow> nat) \<Rightarrow> (nat \<Rightarrow> nat) \<Rightarrow> buffersPool \<Rightarrow> bool" where
  "buffers_reach held stray p \<longleftrightarrow>
     (\<exists>p0. (\<forall>v\<in>set p0. v = emptyView \<or> constructed v) \<and> buffers_step\<^sup>*\<^sup>* (\<lambda>_. 0, \<lambda>_. 0, p0) (held, stray, p))"

lemma constructed_fields:
  assumes "constructed v"
  shows "rootType (bv_type v)" "bv_refs v = 0" "bv_offset v = 0" "bv_type v \<noteq> Growable \<Longrightarrow> bv_length v = sizeElements (bv_data v)"
proof -
  obtain d r where "v = setReusable r (writableView d) \<or> v = setReusable r (readOnlyView d) \<or> v = setReusable r (growableView d)"
    using assms unfolding constructed_def by blast
  then show "rootType (bv_type v)" "bv_refs v = 0" "bv_offset v = 0" "bv_type v \<noteq> Growable \<Longrightarrow> bv_length v = sizeElements (bv_data v)"
    by (elim disjE; simp add: setReusable_def writableView_def readOnlyView_def growableView_def emptyView_def rootType_def)+
qed

lemma initial_ok:
  assumes "\<forall>v\<in>set p0. v = emptyView \<or> constructed v"
  shows "buffers_ok (\<lambda>_. 0) p0"
proof -
  have view: "bv_type v \<noteq> Child \<and> bv_refs v = 0 \<and> (bv_type v = Empty \<longrightarrow> v = emptyView) \<and>
      (bv_type v \<in> {Writable, ReadOnly} \<longrightarrow> inside (bv_offset v) (bv_length v) (bv_data v))" if "v \<in> set p0" for v
  proof (cases "v = emptyView")
    case True
    then show ?thesis
      by (simp add: emptyView_def)
  next
    case False
    then show ?thesis
      using assms that constructed_fields [of v] by (auto simp: rootType_def inside_def)
  qed
  then have "childSet i p0 = {}" for i
    using nth_mem [of _ p0] unfolding childSet_def by blast
  then show ?thesis
    using view [OF nth_mem] by (simp add: buffers_ok_def view_ok_def)
qed

section \<open>The data of a buffer that is held\<close>

text \<open>What a view says, apart from its references and its length.\<close>

definition content :: "bufferView \<Rightarrow> viewType \<times> int \<times> u64 \<times> bool" where
  "content v = (bv_type v, bv_parentID v, bv_offset v, bv_reUse v)"

text \<open>From \<open>p\<close> to \<open>q\<close> buffers that stay in use keep their type, and if their memory does not move what they
  say; the memory itself stays too, or is cut to a new length.\<close>

definition keeps_views :: "buffersPool \<Rightarrow> buffersPool \<Rightarrow> bool" where
  "keeps_views p q \<longleftrightarrow> (\<forall>k < length p. bv_refs (p ! k) > 0 \<and> bv_refs (q ! k) > 0 \<longrightarrow>
     bv_type (q ! k) = bv_type (p ! k) \<and>
     (bv_type (p ! k) \<noteq> Growable \<longrightarrow> content (q ! k) = content (p ! k) \<and> (bv_type (p ! k) = Child \<or> bv_data (q ! k) = bv_data (p ! k))))"

lemma keeps_views_update:
  assumes "content v = content (p ! i) \<and> (bv_type (p ! i) = Child \<or> bv_data v = bv_data (p ! i)) \<or> bv_refs v = 0 \<or> bv_refs (p ! i) = 0 \<or>
     bv_type (p ! i) = Growable \<and> bv_type v = Growable"
  shows "keeps_views p (p[i := v])"
  using assms by (auto simp: keeps_views_def nth_update content_def)

lemma keeps_views_refl: "keeps_views p p"
  by (simp add: keeps_views_def)

lemma unref_keeps:
  assumes "buffers_ok held p" "i < length p" "held i > 0" "unrefBuffer (int i) p = Some p'"
  shows "keeps_views p p'"
proof -
  have root: "keeps_views p q" if "j < length p" "rootType (bv_type (p ! j))" "unrefBuffer (int j) p = Some q" for j q
  proof -
    have "q = p[j := (p ! j)\<lparr>bv_refs := bv_refs (p ! j) - 1\<rparr>] \<or> q = p[j := recycled (p ! j)]"
      using that(3) by (auto simp: unrefBuffer_root [OF that(1,2)] recycle_root [OF that(1,2)] split: if_splits)
    moreover have "bv_refs (recycled (p ! j)) = 0"
      by (simp add: recycled_def emptyView_def)
    ultimately show ?thesis
      using keeps_views_update [of "(p ! j)\<lparr>bv_refs := bv_refs (p ! j) - 1\<rparr>" p j] keeps_views_update [of "recycled (p ! j)" p j]
      by (auto simp: content_def)
  qed
  show ?thesis
  proof (cases "bv_type (p ! i) = Child")
    case False
    then have "rootType (bv_type (p ! i))"
      using held_not_empty [OF assms(1-3)] by (cases "bv_type (p ! i)") (simp_all add: rootType_def)
    then show ?thesis
      using root assms(2,4) by blast
  next
    case True
    obtain j where j: "j < length p" "bv_parentID (p ! i) = int j" "rootType (bv_type (p ! j))" "i \<noteq> j" "\<not> bv_reUse (p ! i)"
      using child_parent [OF assms(1,2) True] .
    let ?v = "(p ! i)\<lparr>bv_refs := bv_refs (p ! i) - 1\<rparr>"
    have un: "Some p' = (if bv_refs ?v \<noteq> 0 then Some (p[i := ?v])
        else (case unrefBuffer (int j) (p[i := ?v]) of None \<Rightarrow> None | Some p2 \<Rightarrow> recycle i p2))"
      using assms(2-4) True j(2) buffers_okD(2) [OF assms(1,2)] by (auto simp: unrefBuffer.simps [of "int i" p] getBuffer_int Let_def)
    show ?thesis
    proof (cases "bv_refs ?v = 0")
      case False
      then show ?thesis
        using un keeps_views_update [of ?v p i] by (simp add: content_def)
    next
      case last: True
      then obtain q where q: "unrefBuffer (int j) p = Some q" "recycle i (q[i := ?v]) = Some p'"
        using un unref_root_update [OF j(1,3,4)] by (auto split: option.splits)
      have len: "length q = length p"
        using q(1) by (auto simp: unrefBuffer_root [OF j(1,3)] recycle_root [OF j(1,3)] split: if_splits)
      have "p' = q[i := emptyView]"
        using q(2) len assms(2) j(5) by (simp add: recycle_def Let_def)
      then show ?thesis
        using root [OF j(1,3) q(1)] len by (auto simp: keeps_views_def nth_update emptyView_def)
    qed
  qed
qed

lemma noted_keeps:
  assumes "noted p q" "p' = q \<or> (\<exists>i w. bv_refs (p ! i) = 0 \<and> p' = q[i := w])"
  shows "keeps_views p p'"
proof -
  have "p' ! k = q ! k" if "k < length p" "bv_refs (p ! k) > 0" for k
    using assms(2) that by (metis nth_list_update_neq less_irrefl)
  then show ?thesis
    using notedD(1,4) [OF assms(1)] by (simp add: keeps_views_def)
qed

lemma looked_keeps:
  assumes "q = p \<or> (\<exists>j d. i < length p \<and> bv_type (p ! i) = Child \<and> bv_type (p ! j) = Growable \<and>
      bv_parentID (p ! i) = int j \<and> q = p[i := (p ! i)\<lparr>bv_data := d\<rparr>])"
  shows "keeps_views p q"
  using assms keeps_views_update [of "(p ! i)\<lparr>bv_data := _\<rparr>" p i] by (auto simp: content_def keeps_views_refl)

lemma buffers_step_keeps:
  assumes "buffers_step (held, stray, p) (held', stray', p')" "buffers_ok (allRefs held stray) p"
  shows "keeps_views p p'"
  using assms(1)
proof cases
  case (referenced i)
  then show ?thesis
    using keeps_views_update [of "(p ! i)\<lparr>bv_refs := bv_refs (p ! i) + 1\<rparr>" p i] by (simp add: refBuffer_def getBuffer_int content_def)
next
  case (released i)
  then show ?thesis
    using unref_keeps [OF assms(2)] allRefs_pos [of held i stray] by blast
next
  case (requested m i d)
  have refs: "\<forall>i < length p. bv_type (p ! i) = Child \<longrightarrow> bv_refs (p ! i) \<noteq> 0"
    using buffers_okD(2,3) [OF assms(2)] by auto
  from requestIn_taken [OF requested(3) [unfolded requestNewBuffer_def] _ refs] show ?thesis
    using noted_keeps [of p _ p'] by auto
next
  case (refused m msg)
  have refs: "\<forall>i < length p. bv_type (p ! i) = Child \<longrightarrow> bv_refs (p ! i) \<noteq> 0"
    using buffers_okD(2,3) [OF assms(2)] by auto
  from requestIn_refused [OF refused(3) [unfolded requestNewBuffer_def] _ refs] show ?thesis
    using noted_keeps [of p _ p'] by auto
next
  case (resized i resize n)
  then show ?thesis
    by (cases "bv_type (p ! i)")
      (auto simp: setNewBufferSize_def getBuffer_int content_def keeps_views_refl intro!: keeps_views_update split: option.splits)
next
  case (pushed v bid)
  then obtain i w where "firstEmpty 0 p = Some i" "p' = p[i := w]"
    by (auto simp: pushBuffer_def Let_def split: option.splits)
  moreover have "bv_refs (p ! i) = 0" if "firstEmpty 0 p = Some i" for i
    using firstEmpty_Some [OF that] buffers_okD(1) [OF assms(2), of i] by (simp add: view_ok_def emptyView_def)
  ultimately show ?thesis
    using keeps_views_update [of w p i] by simp
next
  case (viewed i off len k)
  note ne = held_not_empty [OF assms(2) viewed(3) allRefs_pos [of held, OF viewed(4)]]
  let ?r = "rootOf i p"
  obtain l w where l: "firstEmpty 0 p = Some l" "p' = (p[l := w])[?r := (p ! ?r)\<lparr>bv_refs := bv_refs (p ! ?r) + 1\<rparr>]"
    using viewed(6) createChildView_eq [OF assms(2) viewed(3) ne] by (auto simp: Let_def split: if_splits option.splits)
  have "bv_refs (p ! l) = 0"
    using firstEmpty_Some [OF l(1)] buffers_okD(1) [OF assms(2), of l] by (simp add: view_ok_def emptyView_def)
  then show ?thesis
    using l(2) by (auto simp: keeps_views_def nth_update content_def)
next
  case (looked i)
  then show ?thesis
    using looked_keeps [OF getReadableData_pool [of i p]] by simp
next
  case (written i)
  then show ?thesis
    using looked_keeps [OF getWritableData_pool [of i p]] by simp
qed


section \<open>Reachable states\<close>

text \<open>A failing request leaves a reference to a read-only or growable buffer, and at most one to each.\<close>

definition stray_ok :: "(nat \<Rightarrow> nat) \<Rightarrow> buffersPool \<Rightarrow> bool" where
  "stray_ok stray p \<longleftrightarrow> (\<forall>i < length p. stray i \<le> 1 \<and> (stray i > 0 \<longrightarrow> bv_type (p ! i) \<in> {ReadOnly, Growable}))"

lemma stray_step:
  assumes "buffers_step (held, stray, p) (held', stray', p')" "buffers_ok (allRefs held stray) p" "stray_ok stray p"
  shows "stray_ok stray' p' \<and> (\<forall>i. stray i \<le> stray' i)"
proof -
  note ok' = buffers_step_ok [OF assms(1,2)] and keeps = buffers_step_keeps [OF assms(1,2)]
  have old: "stray' i \<le> 1 \<and> bv_type (p' ! i) \<in> {ReadOnly, Growable}" if i: "i < length p" "stray i > 0" and same: "stray' i = stray i" for i
  proof -
    have "bv_refs (p ! i) > 0 \<and> bv_refs (p' ! i) > 0"
      using buffers_okD(2) [OF assms(2) i(1)] buffers_okD(2) [of "allRefs held' stray'" p' i] ok' i same by (simp add: allRefs_def)
    then have "bv_type (p' ! i) = bv_type (p ! i)"
      using keeps i(1) by (simp add: keeps_views_def)
    then show ?thesis
      using assms(3) i same by (simp add: stray_ok_def)
  qed
  have unchanged: ?thesis if "stray' = stray"
    using old ok' that assms(3) by (simp add: stray_ok_def)
  show ?thesis
    using assms(1)
  proof cases
    case (refused m msg)
    have new: "stray i = 0 \<and> bv_type (p' ! i) \<in> {ReadOnly, Growable}" if i: "i < length p" "bv_refs (p ! i) < bv_refs (p' ! i)" for i
      using refused_ok [OF assms(2) refused(3)] i unfolding allRefs_def by (metis add_is_0 less_irrefl)
    have "stray' i \<le> 1 \<and> (stray' i > 0 \<longrightarrow> bv_type (p' ! i) \<in> {ReadOnly, Growable})" if "i < length p" for i
    proof (cases "bv_refs (p ! i) < bv_refs (p' ! i)")
      case True
      then show ?thesis
        using new [OF that] that by (simp add: refused(2) strayAfter_def)
    next
      case False
      then have "stray' i = stray i"
        by (simp add: refused(2) strayAfter_def)
      then show ?thesis
        using old [OF that] by (cases "stray i = 0") auto
    qed
    then show ?thesis
      using ok' by (simp add: stray_ok_def refused(2) strayAfter_def)
  qed (use unchanged in blast)+
qed

lemma buffers_steps_ok:
  assumes "buffers_step\<^sup>*\<^sup>* s t" "buffers_ok (allRefs (fst s) (fst (snd s))) (snd (snd s))" "stray_ok (fst (snd s)) (snd (snd s))"
  shows "buffers_ok (allRefs (fst t) (fst (snd t))) (snd (snd t)) \<and> stray_ok (fst (snd t)) (snd (snd t)) \<and>
    (\<forall>i. fst (snd s) i \<le> fst (snd t) i) \<and> length (snd (snd t)) = length (snd (snd s))"
  using assms
proof (induction rule: rtranclp_induct)
  case (step t u)
  obtain held stray p held' stray' p' where "t = (held, stray, p)" "u = (held', stray', p')"
    by (cases t, cases u) auto
  moreover from this have "\<forall>i. stray i \<le> stray' i" "stray_ok stray' p'" "buffers_ok (allRefs held' stray') p'" "length p' = length p"
    using step buffers_step_ok [of held stray p held' stray' p'] stray_step [of held stray p held' stray' p'] by simp_all
  ultimately show ?case
    using step by (auto intro: le_trans)
qed simp

lemma reach_ok:
  assumes "buffers_reach held stray p"
  shows "buffers_ok (allRefs held stray) p" "stray_ok stray p"
proof -
  obtain p0 where p0: "\<forall>v\<in>set p0. v = emptyView \<or> constructed v" "buffers_step\<^sup>*\<^sup>* (\<lambda>_. 0, \<lambda>_. 0, p0) (held, stray, p)"
    using assms by (auto simp: buffers_reach_def)
  have "buffers_ok (allRefs held stray) p \<and> stray_ok stray p"
    using buffers_steps_ok [OF p0(2)] initial_ok [OF p0(1)] by (simp add: allRefs_def stray_ok_def)
  then show "buffers_ok (allRefs held stray) p" "stray_ok stray p"
    by simp_all
qed

text \<open>
  C6: in every state of a pool that its holders use with discipline, failing requests included, the count of
  a buffer is the number of references held to it, of child views on it, and of references that failing
  requests have left, of which there is at most one, and only to read-only and growable buffers; none of the
  assertions on references fails for a buffer that is held; and \<open>requestNewBuffer\<close> hands out only buffers
  nobody holds and no view is on, with at least the memory asked for.
\<close>

theorem buffers_invariant:
  assumes "buffers_reach held stray p"
  shows "(\<forall>i < length p. bv_refs (p ! i) = held i + stray i + card {k. k < length p \<and> bv_type (p ! k) = Child \<and> bv_parentID (p ! k) = int i} \<and>
      stray i \<le> 1 \<and> (stray i > 0 \<longrightarrow> bv_type (p ! i) \<in> {ReadOnly, Growable})) \<and>
    (\<forall>i < length p. held i > 0 \<longrightarrow> unrefBuffer (int i) p \<noteq> None \<and> refBuffer (int i) p \<noteq> None) \<and>
    (\<forall>m p' bid d. requestNewBuffer m p = (p', Inr (bid, d)) \<longrightarrow>
      (\<exists>i < length p. bid = int i \<and> held i = 0 \<and> (\<forall>k < length p. \<not> (bv_type (p ! k) = Child \<and> bv_parentID (p ! k) = int i)) \<and>
        m \<le> sizeElements d))"
proof (intro conjI allI impI)
  note ok = reach_ok(1) [OF assms]
  show "bv_refs (p ! i) = held i + stray i + card {k. k < length p \<and> bv_type (p ! k) = Child \<and> bv_parentID (p ! k) = int i}" if "i < length p" for i
    using buffers_okD(2) [OF ok that] by (simp add: childSet_def allRefs_def)
  show "stray i \<le> 1" "stray i > 0 \<Longrightarrow> bv_type (p ! i) \<in> {ReadOnly, Growable}" if "i < length p" for i
    using reach_ok(2) [OF assms] that by (simp_all add: stray_ok_def)
  show "unrefBuffer (int i) p \<noteq> None" if "i < length p" "held i > 0" for i
    using unref_ok [OF ok that(1) allRefs_pos [of held, OF that(2)]] by auto
  show "refBuffer (int i) p \<noteq> None" if "i < length p" "held i > 0" for i
    using ref_ok [OF ok that(1) held_not_empty [OF ok that(1) allRefs_pos [of held, OF that(2)]]] by auto
  show "\<exists>i < length p. bid = int i \<and> held i = 0 \<and> (\<forall>k < length p. \<not> (bv_type (p ! k) = Child \<and> bv_parentID (p ! k) = int i)) \<and>
      m \<le> sizeElements d" if "requestNewBuffer m p = (p', Inr (bid, d))" for m p' bid d
    using request_ok [OF ok that] unfolding childSet_def allRefs_def by auto
qed


lemma contentD: "content v = content w \<Longrightarrow> bv_type v = bv_type w \<and> bv_parentID v = bv_parentID w \<and> bv_offset v = bv_offset w"
  by (simp add: content_def)

text \<open>What \<open>getReadableData\<close> returns for a buffer in use whose memory does not move.\<close>

definition dataOf :: "nat \<Rightarrow> buffersPool \<Rightarrow> span" where
  "dataOf i p = \<lparr>items = items (bv_data (p ! rootOf i p)) + bv_offset (p ! i), sizeElements = bv_length (p ! i)\<rparr>"

lemma getReadableData_held:
  assumes "buffers_ok held p" "i < length p" "held i > 0" "bv_type (p ! rootOf i p) \<noteq> Growable"
  shows "getReadableData (int i) p = (p, Inr (dataOf i p))"
    "inside (bv_offset (p ! i)) (bv_length (p ! i)) (bv_data (p ! rootOf i p))"
proof -
  note ne = held_not_empty [OF assms(1-3)] and D = buffers_okD(1) [OF assms(1,2)]
  have "getReadableData (int i) p = (p, Inr (dataOf i p)) \<and> inside (bv_offset (p ! i)) (bv_length (p ! i)) (bv_data (p ! rootOf i p))"
  proof (cases "bv_type (p ! i) = Child")
    case True
    then obtain j where "j < length p" "bv_parentID (p ! i) = int j" "rootType (bv_type (p ! j))"
        "bv_type (p ! j) \<noteq> Growable \<longrightarrow> inside (bv_offset (p ! i)) (bv_length (p ! i)) (bv_data (p ! j)) \<and>
          bv_data (p ! i) = \<lparr>items = items (bv_data (p ! j)) + bv_offset (p ! i), sizeElements = bv_length (p ! i)\<rparr>"
      using D by (auto simp: view_ok_def child_ok_def)
    then show ?thesis
      using True assms(2,4) by (auto simp: getReadableData_def getBuffer_int rootOf_def dataOf_def rootType_def)
  next
    case False
    then have ty: "rootOf i p = i" "bv_type (p ! i) \<in> {Writable, ReadOnly}"
      using ne assms(4) by (cases "bv_type (p ! i)"; simp add: rootOf_def)+
    then have "inside (bv_offset (p ! i)) (bv_length (p ! i)) (bv_data (p ! i))"
      using D by (auto simp: view_ok_def)
    moreover from this have "bv_offset (p ! i) + bv_length (p ! i) \<le> sizeElements (bv_data (p ! i))"
      by (simp add: inside_def word_le_nat_alt unat_word_ariths)
    ultimately show ?thesis
      using ty assms(2) by (auto simp: getReadableData_def getBuffer_int dataOf_def span_sliceStartLength_def)
  qed
  then show "getReadableData (int i) p = (p, Inr (dataOf i p))" "inside (bv_offset (p ! i)) (bv_length (p ! i)) (bv_data (p ! rootOf i p))"
    by simp_all
qed

text \<open>
  C16: the data of a buffer that is held stays. As long as a buffer is held, whatever any holder does with the
  pool in a step (drop references, request, add, resize other buffers, make views), \<open>getReadableData\<close>
  returns the same memory for it, which lies inside the memory of its root, and no buffer that is handed
  out meanwhile is the one the view is on. Buffers on growable memory are excepted: that memory may move.
\<close>

theorem held_data_stays:
  assumes "buffers_reach held stray p" "i < length p" "held i > 0" "bv_type (p ! rootOf i p) \<noteq> Growable"
    "buffers_step (held, stray, p) (held', stray', p')" "held' i > 0" "bv_length (p' ! i) = bv_length (p ! i)"
  shows "\<exists>d. getReadableData (int i) p = (p, Inr d) \<and> getReadableData (int i) p' = (p', Inr d) \<and>
    unat (bv_offset (p ! i)) + unat (sizeElements d) \<le> unat (sizeElements (bv_data (p ! rootOf i p))) \<and>
    items d = items (bv_data (p ! rootOf i p)) + bv_offset (p ! i) \<and>
    (\<forall>m q bid e. requestNewBuffer m p = (q, Inr (bid, e)) \<longrightarrow> bid \<noteq> int i \<and> bid \<noteq> int (rootOf i p))"
proof -
  note ok = reach_ok(1) [OF assms(1)]
  note ok' = buffers_step_ok [OF assms(5) ok]
  note held = allRefs_pos [of held i stray, OF assms(3)] allRefs_pos [of held' i stray', OF assms(6)]
  note ne = held_not_empty [OF ok assms(2) held(1)]
  note root = rootOf_root [OF ok assms(2) ne]
  have keep: "content (p' ! k) = content (p ! k) \<and> (bv_type (p ! k) = Child \<or> bv_data (p' ! k) = bv_data (p ! k))"
    if "k < length p" "bv_refs (p ! k) > 0" "bv_refs (p' ! k) > 0" "bv_type (p ! k) \<noteq> Growable" for k
    using buffers_step_keeps [OF assms(5) ok] that by (simp add: keeps_views_def)
  have refs: "bv_refs (p ! i) > 0" "bv_refs (p' ! i) > 0"
    using buffers_okD(2) [OF ok assms(2)] buffers_okD(2) [of "allRefs held' stray'" p' i] ok' assms(2) held by simp_all
  have i: "content (p' ! i) = content (p ! i)"
  proof (cases "bv_type (p ! i) = Growable")
    case True
    then show ?thesis
      using assms(4) by (simp add: rootOf_def)
  qed (use keep [OF assms(2) refs] in simp)
  have same_root: "rootOf i p' = rootOf i p"
    using contentD [OF i] by (simp add: rootOf_def)
  have data: "bv_data (p' ! rootOf i p) = bv_data (p ! rootOf i p) \<and> bv_type (p' ! rootOf i p) = bv_type (p ! rootOf i p)"
  proof -
    have "i = rootOf i p \<or> i \<in> childSet (rootOf i p) p \<and> i \<in> childSet (rootOf i p) p'"
      using contentD [OF i] assms(2) ok' child_parent_ex [OF ok assms(2)] by (auto simp: rootOf_def childSet_def)
    then have "bv_refs (p ! rootOf i p) > 0 \<and> bv_refs (p' ! rootOf i p) > 0"
    proof
      assume "i \<in> childSet (rootOf i p) p \<and> i \<in> childSet (rootOf i p) p'"
      then have "card (childSet (rootOf i p) p) > 0" "card (childSet (rootOf i p) p') > 0"
        by (auto simp: card_gt_0_iff)
      then show ?thesis
        using buffers_okD(2) [OF ok root(1)] buffers_okD(2) [of "allRefs held' stray'" p' "rootOf i p"] ok' root(1) by simp
    qed (use refs in simp)
    then have k: "content (p' ! rootOf i p) = content (p ! rootOf i p)"
        "bv_type (p ! rootOf i p) = Child \<or> bv_data (p' ! rootOf i p) = bv_data (p ! rootOf i p)"
      using keep [OF root(1) _ _ assms(4)] by blast+
    have "bv_type (p ! rootOf i p) \<noteq> Child"
      using root(2) unfolding rootType_def by force
    then show ?thesis
      using k(2) contentD [OF k(1)] by blast
  qed
  have stays: "dataOf i p' = dataOf i p"
    using same_root data assms(7) contentD [OF i] by (simp add: dataOf_def)
  have after: "getReadableData (int i) p' = (p', Inr (dataOf i p'))"
    using getReadableData_held(1) [of "allRefs held' stray'" p' i] ok' assms(2,4) held(2) same_root data by simp
  note now = getReadableData_held [OF ok assms(2) held(1) assms(4)]
  have others: "bid \<noteq> int i \<and> bid \<noteq> int (rootOf i p)" if req: "requestNewBuffer m p = (q, Inr (bid, e))" for m q bid e
  proof -
    obtain k where "bid = int k" "allRefs held stray k = 0" "childSet k p = {}"
      using request_ok [OF ok req] by blast
    moreover have "rootOf i p = i \<or> i \<in> childSet (rootOf i p) p"
      using child_parent_ex [OF ok assms(2)] by (auto simp: rootOf_def)
    ultimately show ?thesis
      using held(1) by auto
  qed
  show ?thesis
  proof (intro exI conjI)
    show "getReadableData (int i) p = (p, Inr (dataOf i p))"
      by (rule now(1))
    show "getReadableData (int i) p' = (p', Inr (dataOf i p))"
      using after stays by simp
    show "unat (bv_offset (p ! i)) + unat (sizeElements (dataOf i p)) \<le> unat (sizeElements (bv_data (p ! rootOf i p)))"
      using now(2) by (simp add: dataOf_def inside_def)
    show "items (dataOf i p) = items (bv_data (p ! rootOf i p)) + bv_offset (p ! i)"
      by (simp add: dataOf_def)
    show "\<forall>m q bid e. requestNewBuffer m p = (q, Inr (bid, e)) \<longrightarrow> bid \<noteq> int i \<and> bid \<noteq> int (rootOf i p)"
      using others by blast
  qed
qed


section \<open>What goes wrong\<close>

lemma requestIn_skip:
  assumes "\<forall>i\<in>set is. i < length p \<and> (bv_type (p ! i) = Empty \<or> bv_refs (p ! i) \<noteq> 0 \<or>
      bv_type (p ! i) \<in> {Writable, ReadOnly} \<and> sizeElements (bv_data (p ! i)) < m)"
  shows "requestIn m (is @ js) p = requestIn m js p"
  using assms
proof (induction "is")
  case (Cons i "is")
  then show ?case
    by (cases "bv_type (p ! i)") (auto simp: Let_def not_le)
qed simp

lemma requestNewBuffer_refuses:
  assumes "i < length p" "bv_type (p ! i) = ReadOnly \<and> m \<le> sizeElements (bv_data (p ! i)) \<or>
      bv_type (p ! i) = Growable \<and> m \<le> sizeElements (bv_growable (p ! i))" "bv_refs (p ! i) = 0"
    "\<forall>j<i. bv_type (p ! j) = Empty \<or> bv_refs (p ! j) \<noteq> 0 \<or> bv_type (p ! j) \<in> {Writable, ReadOnly} \<and> sizeElements (bv_data (p ! j)) < m"
    and g_def: "g = (if bv_type (p ! i) = Growable then p[i := (p ! i)\<lparr>bv_data := bv_growable (p ! i)\<rparr>] else p)"
  shows "requestNewBuffer m p = (g[i := taken (g ! i)], Inl ''AsyncBuffersPool::getWritableData - Readonly or Growable buffer'')"
proof -
  have g: "length g = length p" "\<not> sizeElements (bv_data (g ! i)) < m" "bv_type (g ! i) = bv_type (p ! i)" "bv_parentID (g ! i) = bv_parentID (p ! i)"
    using assms(1,2) by (auto simp: g_def not_less)
  have "[0 ..< length p] = [0 ..< i] @ i # [Suc i ..< length p]"
    using assms(1) by (metis less_imp_le_nat upt_add_eq_append upt_conv_Cons le_add_diff_inverse zero_le)
  then have "requestNewBuffer m p = requestIn m (i # [Suc i ..< length p]) p"
    using requestIn_skip [of "[0 ..< i]" p m] assms(1,4) by (simp add: requestNewBuffer_def)
  also have "\<dots> = (g[i := taken (g ! i)], Inl ''AsyncBuffersPool::getWritableData - Readonly or Growable buffer'')"
  proof -
    have ty: "bv_type (p ! i) = Child \<Longrightarrow> bv_refs (p ! i) \<noteq> 0" "bv_type (p ! i) \<noteq> Empty" "bv_type (p ! i) \<noteq> Writable"
      using assms(2) by auto
    have "requestIn m (i # [Suc i ..< length p]) p = (if bv_type (p ! i) = Empty \<or> bv_refs (p ! i) \<noteq> 0 then requestIn m [Suc i ..< length p] p
        else if sizeElements (bv_data (g ! i)) < m then requestIn m [Suc i ..< length p] g
        else (g[i := taken (g ! i)], if bv_type (p ! i) = Writable then Inr (int i, bv_data (p ! i))
          else Inl ''AsyncBuffersPool::getWritableData - Readonly or Growable buffer''))"
      unfolding g_def by (rule requestIn_Cons [OF assms(1) ty(1), unfolded Let_def])
    then show ?thesis
      using assms(3) g(2) ty(2,3) by (simp only: if_False simp_thms)
  qed
  finally show ?thesis .
qed

text \<open>
  C35: \<open>requestNewBuffer\<close> does not look at the type of the buffers it passes. If the first one nobody holds
  with memory enough is read-only or growable, the request fails although writable buffers may follow, and
  that buffer is left with a reference nobody has: whatever the holders do from then on, it is never free
  again.
\<close>

theorem request_takes_read_only:
  assumes "buffers_reach held stray p" "i < length p" "bv_type (p ! i) = ReadOnly \<and> m \<le> sizeElements (bv_data (p ! i)) \<or>
      bv_type (p ! i) = Growable \<and> m \<le> sizeElements (bv_growable (p ! i))" "bv_refs (p ! i) = 0"
    "\<forall>j<i. bv_type (p ! j) = Empty \<or> bv_refs (p ! j) \<noteq> 0 \<or> bv_type (p ! j) \<in> {Writable, ReadOnly} \<and> sizeElements (bv_data (p ! j)) < m"
  shows "\<exists>q. requestNewBuffer m p = (q, Inl ''AsyncBuffersPool::getWritableData - Readonly or Growable buffer'') \<and>
    bv_refs (q ! i) = 1 \<and> held i = 0 \<and> {k. k < length q \<and> bv_type (q ! k) = Child \<and> bv_parentID (q ! k) = int i} = {} \<and>
    buffers_reach held (stray(i := 1)) q \<and>
    (\<forall>held' stray' p'. buffers_step\<^sup>*\<^sup>* (held, stray(i := 1), q) (held', stray', p') \<longrightarrow> bv_refs (p' ! i) > 0)"
proof -
  define g where "g = (if bv_type (p ! i) = Growable then p[i := (p ! i)\<lparr>bv_data := bv_growable (p ! i)\<rparr>] else p)"
  note run = requestNewBuffer_refuses [OF assms(2-5) g_def]
  have g: "length g = length p"
    by (simp add: g_def)
  let ?q = "g[i := taken (g ! i)]"
  have z: "allRefs held stray i = 0" "childSet i p = {}"
    using buffers_okD(2) [OF reach_ok(1) [OF assms(1)] assms(2)] assms(4) by simp_all
  have "childSet i ?q = childSet i g"
    by (rule childSet_update_same) (simp_all add: taken_def)
  also have "childSet i g = childSet i p"
    unfolding g_def by (cases "bv_type (p ! i) = Growable") (auto intro!: childSet_update_same)
  finally have none: "childSet i ?q = {}"
    using z(2) by simp
  have refs: "bv_refs (?q ! k) = (if k = i then 1 else bv_refs (p ! k))" if "k < length p" for k
    using that g by (simp add: taken_def nth_update) (simp add: g_def nth_update assms(2))
  have "strayAfter stray p ?q = stray(i := 1)"
    using strayAfter_one [OF refs assms(2,4)] z(1) by (simp add: allRefs_def)
  then have "buffers_step (held, stray, p) (held, stray(i := 1), ?q)"
    using refused [OF run, of held stray] by simp
  moreover obtain p0 where p0: "\<forall>v\<in>set p0. v = emptyView \<or> constructed v" "buffers_step\<^sup>*\<^sup>* (\<lambda>_. 0, \<lambda>_. 0, p0) (held, stray, p)"
    using assms(1) by (auto simp: buffers_reach_def)
  ultimately have reach: "buffers_reach held (stray(i := 1)) ?q"
    using rtranclp.rtrancl_into_rtrancl unfolding buffers_reach_def by meson
  have "bv_refs (p' ! i) > 0" if "buffers_step\<^sup>*\<^sup>* (held, stray(i := 1), ?q) (held', stray', p')" for held' stray' p'
  proof -
    have *: "buffers_ok (allRefs held' stray') p'" "\<forall>j. (stray(i := 1)) j \<le> stray' j" "length p' = length p"
      using buffers_steps_ok [OF that] reach_ok [OF reach] g by auto
    have "1 \<le> stray' i"
      using *(2) by (metis fun_upd_same)
    then show ?thesis
      using * buffers_okD(2) [of "allRefs held' stray'" p' i] assms(2) by (simp add: allRefs_def)
  qed
  then show ?thesis
    using run z(1) none reach refs [OF assms(2)]
    by (intro exI [of _ ?q]) (simp add: childSet_def allRefs_def del: fun_upd_apply)
qed

lemma getReadableData_view:
  assumes "l < length q" "bv_type (q ! l) = Child" "bv_parentID (q ! l) = int r" "r < length q" "rootType (bv_type (q ! r))" "bv_data (q ! l) = d"
    "bv_type (q ! r) = Growable \<Longrightarrow> span_sliceStartLength (bv_growable (q ! r)) (bv_offset (q ! l)) (bv_length (q ! l)) = (True, d)"
  shows "getReadableData (int l) q = (q, Inr d)"
proof -
  have "(q ! l)\<lparr>bv_data := d\<rparr> = q ! l"
    using assms(6) by simp
  then have "q[l := (q ! l)\<lparr>bv_data := d\<rparr>] = q"
    by (simp only: list_update_id)
  then show ?thesis
    using assms by (auto simp: getReadableData_def getBuffer_int rootType_def)
qed

text \<open>The view made, and what it reads.\<close>

lemma createChildView_made:
  assumes "buffers_ok H p" "i < length p" "bv_type (p ! i) \<noteq> Empty" "firstEmpty 0 p = Some l" "r = rootOf i p"
    "\<not> sizeElements (rootFullData (p ! r)) < bv_offset (p ! i) + off + len"
  shows "\<exists>q. createChildView (int i) off len p = (q, Inr (int l)) \<and> bv_type (q ! l) = Child \<and> bv_parentID (q ! l) = int r \<and>
    bv_refs (q ! r) = bv_refs (p ! r) + 1 \<and>
    getReadableData (int l) q = (q, Inr \<lparr>items = items (rootFullData (p ! r)) + bv_offset (p ! i) + off, sizeElements = len\<rparr>)"
proof -
  note root = rootOf_root [OF assms(1-3), folded assms(5)]
  have le: "l < length p" "l \<noteq> r"
    using firstEmpty_Some [OF assms(4)] root(2) by (auto simp: rootType_def)
  let ?o = "bv_offset (p ! i) + off"
  let ?q = "(p[l := childView r ?o len (p ! r) (p ! l)])[r := (p ! r)\<lparr>bv_refs := bv_refs (p ! r) + 1\<rparr>]"
  have run: "createChildView (int i) off len p = (?q, Inr (int l))"
    using createChildView_eq [OF assms(1-3), of off len] assms(4,6) by (simp add: assms(5) [symmetric] Let_def)
  have q: "?q ! l = childView r ?o len (p ! r) (p ! l)" "?q ! r = (p ! r)\<lparr>bv_refs := bv_refs (p ! r) + 1\<rparr>"
    using le root(1) by simp_all
  have view: "bv_type (?q ! l) = Child" "bv_parentID (?q ! l) = int r" "bv_offset (?q ! l) = ?o" "bv_length (?q ! l) = len"
      "bv_data (?q ! l) = snd (span_sliceStartLength (rootFullData (p ! r)) ?o len)" "bv_refs (?q ! r) = bv_refs (p ! r) + 1"
    unfolding q by (simp_all add: childView_def)
  have part: "span_sliceStartLength (rootFullData (p ! r)) ?o len = (True, \<lparr>items = items (rootFullData (p ! r)) + ?o, sizeElements = len\<rparr>)"
    using assms(6) by (simp add: span_sliceStartLength_def not_less)
  have growable: "bv_growable (?q ! r) = rootFullData (p ! r)" if "bv_type (?q ! r) = Growable"
    using that unfolding q(2) by (simp add: rootFullData_def)
  have "getReadableData (int l) ?q = (?q, Inr \<lparr>items = items (rootFullData (p ! r)) + ?o, sizeElements = len\<rparr>)"
  proof (rule getReadableData_view)
    show "l < length ?q" "r < length ?q"
      using le root(1) by simp_all
    show "rootType (bv_type (?q ! r))"
      using root(2) unfolding q(2) by simp
  qed (use view part growable in simp_all)
  then show ?thesis
    using run view by (intro exI [of _ ?q]) (simp add: add.assoc)
qed

lemma firstEmpty_exists: "k < length p \<Longrightarrow> bv_type (p ! k) = Empty \<Longrightarrow> \<exists>l. firstEmpty n p = Some l"
  by (induction p arbitrary: n k) (auto simp: nth_Cons split: nat.splits)

text \<open>
  C36: \<open>createChildView\<close> adds offset and length in \<open>size_t\<close>. The parent may be any buffer that is held, a view
  on a view too: the new view is put on the root, which is no view, and its offset counts from there. When
  the sum of offsets and length does not wrap around, it succeeds exactly for views inside the memory of the
  root (not of the view it is made from), if a slot is empty, and the new view is the part asked for; a
  length that makes the sum wrap around gives a view on memory outside of the root.
\<close>

theorem child_view_bounds:
  assumes "buffers_reach held stray p" "i < length p" "held i > 0" "k < length p" "bv_type (p ! k) = Empty"
    "r = (if bv_type (p ! i) = Child then nat (bv_parentID (p ! i)) else i)" "start = unat (bv_offset (p ! i)) + unat off"
  shows "r < length p \<and> bv_type (p ! r) \<in> {Writable, ReadOnly, Growable} \<and>
    (start + unat len < 2 ^ 64 \<longrightarrow>
      ((\<exists>p' c. createChildView (int i) off len p = (p', Inr c)) \<longleftrightarrow> start + unat len \<le> unat (sizeElements (rootFullData (p ! r))))) \<and>
    (\<forall>p' c. createChildView (int i) off len p = (p', Inr c) \<longrightarrow>
      (\<exists>l < length p. c = int l \<and> bv_type (p ! l) = Empty \<and> bv_type (p' ! l) = Child \<and> bv_parentID (p' ! l) = int r \<and>
        bv_refs (p' ! r) = bv_refs (p ! r) + 1) \<and>
      getReadableData c p' = (p', Inr \<lparr>items = items (rootFullData (p ! r)) + bv_offset (p ! i) + off, sizeElements = len\<rparr>)) \<and>
    (start + unat len \<ge> 2 ^ 64 \<and> (start + unat len) mod 2 ^ 64 \<le> unat (sizeElements (rootFullData (p ! r))) \<longrightarrow>
      (\<exists>p' c. createChildView (int i) off len p = (p', Inr c)) \<and> unat (sizeElements (rootFullData (p ! r))) < start + unat len)"
proof -
  note ok = reach_ok(1) [OF assms(1)]
  note ne = held_not_empty [OF ok assms(2) allRefs_pos [of held, OF assms(3)]]
  have r: "r = rootOf i p"
    by (simp add: rootOf_def assms(6))
  note root = rootOf_root [OF ok assms(2) ne, folded r]
  obtain l where l: "firstEmpty 0 p = Some l"
    using firstEmpty_exists [OF assms(4,5)] by blast
  let ?o = "bv_offset (p ! i) + off" and ?size = "sizeElements (rootFullData (p ! r))"
  note made = createChildView_made [OF ok assms(2) ne l r]
  have iff: "(\<exists>p' c. createChildView (int i) off len p = (p', Inr c)) \<longleftrightarrow> \<not> ?size < ?o + len"
    using made [of off len] createChildView_eq [OF ok assms(2) ne, of off len] by (auto simp: r [symmetric] Let_def)
  have sum: "unat (?o + len) = (start + unat len) mod 2 ^ 64"
    unfolding assms(7) by (simp add: unat_word_ariths mod_simps)
  have size: "unat ?size < 2 ^ 64"
    using unsigned_less [of ?size, where 'a = nat] by simp
  show ?thesis
  proof (intro conjI impI allI)
    show "r < length p" "bv_type (p ! r) \<in> {Writable, ReadOnly, Growable}"
      using root by (simp_all add: rootType_def)
    show "(\<exists>p' c. createChildView (int i) off len p = (p', Inr c)) \<longleftrightarrow> start + unat len \<le> unat ?size" if "start + unat len < 2 ^ 64"
      using sum that unfolding iff by (simp add: word_less_nat_alt not_less)
    fix p' c
    assume c: "createChildView (int i) off len p = (p', Inr c)"
    then obtain q where "q = p'" "c = int l" "bv_type (q ! l) = Child" "bv_parentID (q ! l) = int r" "bv_refs (q ! r) = bv_refs (p ! r) + 1"
        "getReadableData (int l) q = (q, Inr \<lparr>items = items (rootFullData (p ! r)) + bv_offset (p ! i) + off, sizeElements = len\<rparr>)"
      using made [of off len] iff by auto
    then show "\<exists>l < length p. c = int l \<and> bv_type (p ! l) = Empty \<and> bv_type (p' ! l) = Child \<and> bv_parentID (p' ! l) = int r \<and>
        bv_refs (p' ! r) = bv_refs (p ! r) + 1"
      "getReadableData c p' = (p', Inr \<lparr>items = items (rootFullData (p ! r)) + bv_offset (p ! i) + off, sizeElements = len\<rparr>)"
      using firstEmpty_Some [OF l] by auto
  next
    assume w: "start + unat len \<ge> 2 ^ 64 \<and> (start + unat len) mod 2 ^ 64 \<le> unat ?size"
    show "\<exists>p' c. createChildView (int i) off len p = (p', Inr c)"
      using w sum unfolding iff by (simp add: word_less_nat_alt not_less)
    show "unat ?size < start + unat len"
      using w size by linarith
  qed
qed


section \<open>Witnesses\<close>

definition samplePool0 :: buffersPool where
  "samplePool0 = [setReusable True (writableView \<lparr>items = 1000, sizeElements = 64\<rparr>), setReusable False (readOnlyView \<lparr>items = 2000, sizeElements = 16\<rparr>), emptyView]"

definition samplePool1 :: buffersPool where
  "samplePool1 = fst (requestNewBuffer 10 samplePool0)"

definition samplePool2 :: buffersPool where
  "samplePool2 = fst (createChildView 0 8 4 samplePool1)"

lemma sample_constructed: "\<forall>v\<in>set samplePool0. v = emptyView \<or> constructed v"
  unfolding samplePool0_def constructed_def by (simp, blast)

lemma sample_steps:
  "buffers_step (\<lambda>_. 0, \<lambda>_. 0, samplePool0) ((\<lambda>_. 0)(0 := 1), \<lambda>_. 0, samplePool1)"
  "buffers_step ((\<lambda>_. 0)(0 := 1), \<lambda>_. 0, samplePool1) ((\<lambda>_. 0)(0 := 1, 2 := 1), \<lambda>_. 0, samplePool2)"
proof -
  have "requestNewBuffer 10 samplePool0 = (samplePool1, Inr (int 0, \<lparr>items = 1000, sizeElements = 64\<rparr>))"
    by code_simp
  then show "buffers_step (\<lambda>_. 0, \<lambda>_. 0, samplePool0) ((\<lambda>_. 0)(0 := 1), \<lambda>_. 0, samplePool1)"
    by (rule requested)
  have c: "createChildView (int 0) 8 4 samplePool1 = (samplePool2, Inr (int 2))" "0 < length samplePool1"
      "unat (bv_offset (samplePool1 ! 0)) = 0"
    by code_simp+
  then have fits: "unat (bv_offset (samplePool1 ! 0)) + unat (8 :: u64) + unat (4 :: u64) < 2 ^ 64"
    by simp
  show "buffers_step ((\<lambda>_. 0)(0 := 1), \<lambda>_. 0, samplePool1) ((\<lambda>_. 0)(0 := 1, 2 := 1), \<lambda>_. 0, samplePool2)"
    by (rule viewed [OF c(2) _ fits c(1)]) simp
qed

lemma sample_reach:
  "buffers_reach (\<lambda>_. 0) (\<lambda>_. 0) samplePool0" "buffers_reach ((\<lambda>_. 0)(0 := 1)) (\<lambda>_. 0) samplePool1"
  "buffers_reach ((\<lambda>_. 0)(0 := 1, 2 := 1)) (\<lambda>_. 0) samplePool2"
  using sample_constructed rtranclp.rtrancl_refl [of buffers_step]
    r_into_rtranclp [of buffers_step, OF sample_steps(1)]
    rtranclp.rtrancl_into_rtrancl [of buffers_step, OF r_into_rtranclp [of buffers_step, OF sample_steps(1)] sample_steps(2)]
  unfolding buffers_reach_def by blast+

theorem buffers_invariant_witness:
  "buffers_reach ((\<lambda>_. 0)(0 := 1, 2 := 1)) (\<lambda>_. 0) samplePool2 \<and> bv_refs (samplePool2 ! 0) = 2 \<and> unrefBuffer 0 samplePool2 \<noteq> None"
proof -
  note r = sample_reach(3)
  have "0 < length samplePool2" "bv_refs (samplePool2 ! 0) = 2"
    by code_simp+
  then show ?thesis
    using buffers_invariant [OF r] r by fastforce
qed

theorem held_data_stays_witness:
  "\<exists>d. getReadableData 2 samplePool2 = (samplePool2, Inr d) \<and> getReadableData 2 (the (unrefBuffer 0 samplePool2)) = (the (unrefBuffer 0 samplePool2), Inr d) \<and>
     d = \<lparr>items = 1008, sizeElements = 4\<rparr>"
proof -
  have s: "2 < length samplePool2" "bv_type (samplePool2 ! rootOf 2 samplePool2) \<noteq> Growable" "0 < length samplePool2"
      "unrefBuffer (int 0) samplePool2 = Some (the (unrefBuffer 0 samplePool2))"
      "bv_length (the (unrefBuffer 0 samplePool2) ! 2) = bv_length (samplePool2 ! 2)"
      "getReadableData 2 samplePool2 = (samplePool2, Inr \<lparr>items = 1008, sizeElements = 4\<rparr>)"
    by code_simp+
  let ?h = "(\<lambda>_. 0)(0 := 1, 2 := 1) :: nat \<Rightarrow> nat"
  have "buffers_step (?h, \<lambda>_. 0, samplePool2) (?h(0 := ?h 0 - 1), \<lambda>_. 0, the (unrefBuffer 0 samplePool2))"
    by (rule released [OF s(3) _ s(4)]) simp
  from held_data_stays [OF sample_reach(3) s(1) _ s(2) this _ s(5)] s(6) show ?thesis
    by auto
qed

definition samplePool3 :: buffersPool where
  "samplePool3 = [setReusable False (readOnlyView \<lparr>items = 2000, sizeElements = 16\<rparr>), setReusable True (writableView \<lparr>items = 1000, sizeElements = 64\<rparr>)]"

theorem request_takes_read_only_witness:
  "\<exists>q e. requestNewBuffer 10 samplePool3 = (q, Inl e) \<and> bv_refs (q ! 0) = 1 \<and> bv_refs (samplePool3 ! 1) = 0"
proof -
  have "\<forall>v\<in>set samplePool3. v = emptyView \<or> constructed v"
    unfolding samplePool3_def constructed_def by (simp, blast)
  then have r: "buffers_reach (\<lambda>_. 0) (\<lambda>_. 0) samplePool3"
    unfolding buffers_reach_def by blast
  have s: "0 < length samplePool3" "bv_type (samplePool3 ! 0) = ReadOnly \<and> 10 \<le> sizeElements (bv_data (samplePool3 ! 0)) \<or>
      bv_type (samplePool3 ! 0) = Growable \<and> 10 \<le> sizeElements (bv_growable (samplePool3 ! 0))" "bv_refs (samplePool3 ! 0) = 0"
      "bv_refs (samplePool3 ! 1) = 0"
    by code_simp+
  show ?thesis
    using request_takes_read_only [OF r s(1-3)] s(4) by auto
qed

text \<open>Views made from the view in slot 2: one beyond that view but inside its root, and one outside.\<close>

definition samplePool4 :: buffersPool where
  "samplePool4 = samplePool0 @ [emptyView]"

definition samplePool5 :: buffersPool where
  "samplePool5 = fst (createChildView 0 8 4 (fst (requestNewBuffer 10 samplePool4)))"

lemma sample5_reach: "buffers_reach ((\<lambda>_. 0)(0 := 1, 2 := 1)) (\<lambda>_. 0) samplePool5"
proof -
  let ?p = "fst (requestNewBuffer 10 samplePool4)"
  have "requestNewBuffer 10 samplePool4 = (?p, Inr (int 0, \<lparr>items = 1000, sizeElements = 64\<rparr>))"
    by code_simp
  then have 1: "buffers_step (\<lambda>_. 0, \<lambda>_. 0, samplePool4) ((\<lambda>_. 0)(0 := 1), \<lambda>_. 0, ?p)"
    by (rule requested)
  have c: "createChildView (int 0) 8 4 ?p = (samplePool5, Inr (int 2))" "0 < length ?p" "unat (bv_offset (?p ! 0)) = 0"
    by code_simp+
  then have fits: "unat (bv_offset (?p ! 0)) + unat (8 :: u64) + unat (4 :: u64) < 2 ^ 64"
    by simp
  have 2: "buffers_step ((\<lambda>_. 0)(0 := 1), \<lambda>_. 0, ?p) ((\<lambda>_. 0)(0 := 1, 2 := 1), \<lambda>_. 0, samplePool5)"
    by (rule viewed [OF c(2) _ fits c(1)]) simp
  have "\<forall>v\<in>set samplePool4. v = emptyView \<or> constructed v"
    using sample_constructed by (simp add: samplePool4_def)
  then show ?thesis
    unfolding buffers_reach_def using rtranclp.rtrancl_into_rtrancl [OF r_into_rtranclp [of buffers_step, OF 1] 2] by blast
qed

theorem child_view_bounds_witness:
  "(\<exists>p'. createChildView 2 20 36 samplePool5 = (p', Inr 3) \<and> bv_parentID (p' ! 3) = 0 \<and>
     getReadableData 3 p' = (p', Inr \<lparr>items = 1028, sizeElements = 36\<rparr>)) \<and>
   (\<exists>p' c. createChildView 2 1 (- 1) samplePool5 = (p', Inr c) \<and>
     getReadableData c p' = (p', Inr \<lparr>items = 1009, sizeElements = - 1\<rparr>))"
proof -
  have s: "2 < length samplePool5" "3 < length samplePool5" "bv_type (samplePool5 ! 3) = Empty"
      "0 = (if bv_type (samplePool5 ! 2) = Child then nat (bv_parentID (samplePool5 ! 2)) else 2)"
      "rootFullData (samplePool5 ! 0) = \<lparr>items = 1000, sizeElements = 64\<rparr>" "bv_offset (samplePool5 ! 2) = 8"
      "\<forall>l < length samplePool5. bv_type (samplePool5 ! l) = Empty \<longrightarrow> l = 3"
    by code_simp+
  have "((\<lambda>_. 0)(0 := 1, 2 := 1)) 2 > (0 :: nat)"
    by simp
  note bounds = child_view_bounds [OF sample5_reach s(1) this s(2-4) refl]
  have sum: "unat (bv_offset (samplePool5 ! 2)) + unat (1 :: u64) + unat (- 1 :: u64) = 2 ^ 64 + 8"
    by (simp add: s(6) unsigned_minus_1_eq_mask mask_eq_exp_minus_1)
  have big: "n \<ge> 2 ^ 64 \<and> n mod 2 ^ 64 \<le> unat (sizeElements (rootFullData (samplePool5 ! 0)))" if "n = 2 ^ 64 + 8" for n
    using that s(5) by simp
  note view = bounds [THEN conjunct2, THEN conjunct2, THEN conjunct2, THEN conjunct1, rule_format]
  obtain p1 c where 1: "createChildView (int 2) 1 (- 1) samplePool5 = (p1, Inr c)"
    using bounds [of 1 "- 1", THEN conjunct2, THEN conjunct2, THEN conjunct2, THEN conjunct2, THEN mp, OF big [OF sum], THEN conjunct1] by blast
  have "\<exists>p' c. createChildView (int 2) 20 36 samplePool5 = (p', Inr c)"
    using bounds [of 20 36, THEN conjunct2, THEN conjunct2, THEN conjunct1] s(5,6) by simp
  then obtain p2 d where 2: "createChildView (int 2) 20 36 samplePool5 = (p2, Inr d)"
    by blast
  have "d = 3 \<and> bv_parentID (p2 ! 3) = 0"
    using view [OF 2] s(7) by force
  moreover have "getReadableData d p2 = (p2, Inr \<lparr>items = 1028, sizeElements = 36\<rparr>)"
      "getReadableData c p1 = (p1, Inr \<lparr>items = 1009, sizeElements = - 1\<rparr>)"
    using view [OF 1, THEN conjunct2] view [OF 2, THEN conjunct2] s(5,6) by simp_all
  ultimately show ?thesis
    using 1 2 by simp
qed

end
