(* ===== verification/AsyncTrace.thy ===== *)
theory AsyncTrace
  imports CircularQueue "HOL-Library.Multiset"
begin

text \<open>
  What a stream does, as a trace, and the relation between the trace and the queue of the stream: shared by
  the readable and the writable streams of \<open>Libraries/AsyncStreams\<close>.
\<close>

section \<open>Traces\<close>

text \<open>
  The events a stream emits, the calls of the buffers pool, and what goes into and out of the queue:
  \<open>Data\<close> is taken from its front to be emitted or written, \<open>Dropped\<close> to be discarded. \<open>Refused\<close> is a
  buffer that is referenced and then finds the queue full. \<open>CallbackRun\<close> is the end of a write.
\<close>

datatype streamEffect =
  Data int | Dropped int | PushedBack int | PushedFront int | Refused int | SetSize int u64 | Ref int | Unref int | CallbackRun nat int
  | EndEvent | CloseEvent | DrainEvent | FinishEvent | ErrorEvent string

text \<open>What the trace does to an abstract queue; \<open>None\<close> where something else than its front is taken.\<close>

definition replayStep :: "streamEffect \<Rightarrow> int list option \<Rightarrow> int list option" where
  "replayStep x r =
     (case r of
        None \<Rightarrow> None
      | Some xs \<Rightarrow>
          (case x of
             PushedBack i \<Rightarrow> Some (xs @ [i])
           | PushedFront i \<Rightarrow> Some (i # xs)
           | Data i \<Rightarrow> (case xs of [] \<Rightarrow> None | y # ys \<Rightarrow> if y = i then Some ys else None)
           | Dropped i \<Rightarrow> (case xs of [] \<Rightarrow> None | y # ys \<Rightarrow> if y = i then Some ys else None)
           | _ \<Rightarrow> Some xs))"

definition replay :: "streamEffect list \<Rightarrow> int list option" where
  "replay t = foldl (\<lambda>r x. replayStep x r) (Some []) t"

lemma replay_snoc [simp]: "replay (t @ [x]) = replayStep x (replay t)"
  by (simp add: replay_def)

lemma replay_snoc2 [simp]: "replay (t @ [x, y]) = replayStep y (replayStep x (replay t))"
  by (simp add: replay_def)

fun queued :: "streamEffect list \<Rightarrow> int list" where
  "queued [] = []"
| "queued (PushedBack i # t) = i # queued t"
| "queued (x # t) = queued t"

fun taken :: "streamEffect list \<Rightarrow> int list" where
  "taken [] = []"
| "taken (Data i # t) = i # taken t"
| "taken (Dropped i # t) = i # taken t"
| "taken (x # t) = taken t"

lemma queued_append [simp]: "queued (t @ u) = queued t @ queued u"
  by (induction t rule: queued.induct) simp_all

lemma taken_append [simp]: "taken (t @ u) = taken t @ taken u"
  by (induction t rule: taken.induct) simp_all

lemma replay_fifo: "replay t = Some q \<Longrightarrow> \<forall>i. PushedFront i \<notin> set t \<Longrightarrow> queued t = taken t @ q"
proof (induction t arbitrary: q rule: rev_induct)
  case Nil
  then show ?case
    by (simp add: replay_def)
next
  case (snoc x t)
  from snoc.prems(1) obtain q0 where q0: "replay t = Some q0" "replayStep x (Some q0) = Some q"
    by (cases "replay t") (simp_all add: replayStep_def)
  from snoc.IH [OF q0(1)] snoc.prems(2) have "queued t = taken t @ q0"
    by simp
  then show ?case
    using q0(2) snoc.prems(2) by (cases x) (auto simp: replayStep_def split: list.splits if_splits)
qed

section \<open>The queue of a trace\<close>

text \<open>\<open>F\<close> are the buffers taken from the queue whose reference has not been dropped yet.\<close>

definition queue_inv :: "int multiset \<Rightarrow> int list \<Rightarrow> streamEffect list \<Rightarrow> bool" where
  "queue_inv F xs t \<longleftrightarrow> replay t = Some xs \<and>
     (\<forall>x. count_list t (Ref x) = count_list t (Unref x) + count_list xs x + count F x + count_list t (Refused x))"

text \<open>Effects that neither touch the queue nor count references.\<close>

definition neutral :: "streamEffect \<Rightarrow> bool" where
  "neutral x = (case x of SetSize _ _ \<Rightarrow> True | CallbackRun _ _ \<Rightarrow> True | EndEvent \<Rightarrow> True | CloseEvent \<Rightarrow> True | DrainEvent \<Rightarrow> True
     | FinishEvent \<Rightarrow> True | ErrorEvent _ \<Rightarrow> True | _ \<Rightarrow> False)"

lemma neutral_simps [simp]:
  "neutral (SetSize i n)" "neutral (CallbackRun c i)" "neutral EndEvent" "neutral CloseEvent" "neutral DrainEvent" "neutral FinishEvent"
  "neutral (ErrorEvent msg)"
  by (simp_all add: neutral_def)

lemma queue_neutral [simp]: "neutral x \<Longrightarrow> queue_inv F xs (t @ [x]) = queue_inv F xs t"
  by (cases x) (auto simp: neutral_def queue_inv_def replayStep_def split: option.splits)

lemma queue_new: "queue_inv {#} [] []"
  by (simp add: queue_inv_def replay_def)

lemma cq_new_elems: "requests \<noteq> [] \<Longrightarrow> cq_inv (cq_new requests) \<and> cq_elems (cq_new requests) = []"
  by (simp add: cq_inv_def cq_new_def cq_elems_def cq_length_def)

lemma popFront_elems:
  assumes "cq_inv q" "popFront q = (q', Some x)"
  shows "cq_inv q' \<and> cq_elems q = x # cq_elems q' \<and> cq_size q' = cq_size q"
proof (cases "cq_elems q")
  case Nil
  then show ?thesis
    using ring.pop_empty [OF assms(1)] assms(2) by simp
next
  case (Cons y ys)
  then show ?thesis
    using ring.pop_Cons [OF assms(1) Cons] assms(2) by (auto simp: popFront_def cq_size_def split: if_splits)
qed

lemma pushBack_elems:
  assumes "cq_inv q" "pushBack x q = (q', True)"
  shows "cq_inv q' \<and> cq_elems q' = cq_elems q @ [x]"
proof (cases "length (cq_elems q) = cq_capacity q")
  case True
  then show ?thesis
    using ring.push_back_full [OF assms(1)] assms(2) by auto
next
  case False
  then have "length (cq_elems q) < cq_capacity q"
    using ring.bounded [OF assms(1)] by simp
  from ring.push_back_room [OF assms(1) this, of x] show ?thesis
    using assms(2) by auto
qed

lemma pushFront_elems:
  assumes "cq_inv q" "pushFront x q = (q', True)"
  shows "cq_inv q' \<and> cq_elems q' = x # cq_elems q"
proof (cases "length (cq_elems q) = cq_capacity q")
  case True
  then show ?thesis
    using ring.push_front_full [OF assms(1)] assms(2) by auto
next
  case False
  then have "length (cq_elems q) < cq_capacity q"
    using ring.bounded [OF assms(1)] by simp
  from ring.push_front_room [OF assms(1) this, of x] show ?thesis
    using assms(2) by auto
qed

lemma queue_pop:
  assumes "queue_inv F (x # xs) t"
  shows "queue_inv (add_mset x F) xs (t @ [Data x])" "queue_inv (add_mset x F) xs (t @ [Dropped x])"
  using assms by (auto simp: queue_inv_def replayStep_def)

lemma queue_unref: "queue_inv (add_mset x F) xs t \<Longrightarrow> queue_inv F xs (t @ [Unref x])"
  by (auto simp: queue_inv_def replayStep_def split: option.splits)

lemma queue_refused: "queue_inv F xs t \<Longrightarrow> queue_inv F xs (t @ [Ref x, Refused x])"
  by (auto simp: queue_inv_def replayStep_def split: option.splits)

lemma queue_pushBack: "queue_inv F xs t \<Longrightarrow> queue_inv F (xs @ [x]) (t @ [PushedBack x, Ref x])"
  by (auto simp: queue_inv_def replayStep_def)

lemma queue_pushFront:
  assumes "queue_inv F xs t"
  shows "queue_inv F (x # xs) (t @ [PushedFront x, Ref x])" "queue_inv F (x # xs) (t @ [Ref x, PushedFront x])"
  using assms by (auto simp: queue_inv_def replayStep_def)

lemma queue_fifo: "queue_inv F xs t \<Longrightarrow> \<forall>i. PushedFront i \<notin> set t \<Longrightarrow> queued t = taken t @ xs"
  using replay_fifo by (simp add: queue_inv_def)

end
