(* ===== verification/AsyncReadable.thy ===== *)
theory AsyncReadable
  imports AsyncTrace "HOL-Library.Monad_Syntax"
begin

text \<open>
  \<open>AsyncReadableStream\<close> of \<open>Libraries/AsyncStreams/AsyncStreams.h\<close> and \<open>AsyncStreams.cpp\<close>: the state
  machine of a source. What it calls (the listeners of its events, and \<open>asyncRead\<close>,
  \<open>asyncResumeReading\<close> and \<open>asyncDestroyReadable\<close>, which a source implements) is a parameter, an
  environment, and may call the stream again. \<open>None\<close> is running out of fuel.
\<close>

section \<open>State\<close>

datatype readState =
  RsStopped | RsCanRead | RsReading | RsSyncPushing | RsSyncReadMore | RsAsyncReading | RsAsyncPushing | RsPausing | RsPaused
  | RsEnded | RsDestroying | RsErrored

record readable =
  rs_state :: readState
  rs_destroyed :: bool
  rs_autoDestroy :: bool
  rs_readQueue :: "int circularQueue"
  rs_trace :: "streamEffect list"

definition note_effect :: "streamEffect \<Rightarrow> readable \<Rightarrow> readable" where
  "note_effect x s = s\<lparr>rs_trace := rs_trace s @ [x]\<rparr>"

definition enter :: "readState \<Rightarrow> readable \<Rightarrow> readable" where
  "enter st s = s\<lparr>rs_state := st\<rparr>"

text \<open>A stream as constructed, with its queue.\<close>

definition newReadable :: "int list \<Rightarrow> readable" where
  "newReadable requests = \<lparr>rs_state = RsStopped, rs_destroyed = False, rs_autoDestroy = True, rs_readQueue = cq_new requests, rs_trace = []\<rparr>"

section \<open>What the stream calls\<close>

record readEnv =
  on_data :: "int \<Rightarrow> readable \<Rightarrow> readable option"
  on_end :: "readable \<Rightarrow> readable option"
  on_close :: "readable \<Rightarrow> readable option"
  on_error :: "string \<Rightarrow> readable \<Rightarrow> readable option"
  async_read :: "readable \<Rightarrow> (readable \<times> string option) option"
  async_resume :: "readable \<Rightarrow> (readable \<times> string option) option"
  async_destroy :: "readable \<Rightarrow> (readable \<times> string option) option"
  env_loops :: nat

section \<open>Operations\<close>

definition rs_emitError :: "readEnv \<Rightarrow> string \<Rightarrow> readable \<Rightarrow> readable option" where
  "rs_emitError e msg s = on_error e msg (note_effect (ErrorEvent msg) s)"

definition rs_init :: "readable \<Rightarrow> readable \<times> string option" where
  "rs_init s =
     (if \<not> (rs_state s = RsStopped \<or> rs_state s = RsEnded)
      then (s, Some ''AsyncReadableStream::init - Can be called only in Stopped / Destroyed / Ended state'')
      else if \<not> cq_size (rs_readQueue s) > 0 then (s, Some ''AsyncReadableStream::init - setReadQueue not called'')
      else (s\<lparr>rs_state := RsCanRead, rs_destroyed := False\<rparr>, None))"

text \<open>Emptying the queue; \<open>n\<close> is its size.\<close>

fun dropQueue :: "nat \<Rightarrow> readable \<Rightarrow> readable" where
  "dropQueue 0 s = s"
| "dropQueue (Suc n) s =
     (case popFront (rs_readQueue s) of
        (q, None) \<Rightarrow> s
      | (q, Some bufferID) \<Rightarrow> dropQueue n (note_effect (Unref bufferID) (note_effect (Dropped bufferID) (s\<lparr>rs_readQueue := q\<rparr>))))"

definition rs_destroy :: "readEnv \<Rightarrow> readable \<Rightarrow> readable option" where
  "rs_destroy e s =
     (let s1 = dropQueue (cq_size (rs_readQueue s)) s in
      if rs_state s1 = RsDestroying \<or> rs_state s1 = RsErrored then Some s1
      else
        do {
          (s2, res) \<leftarrow> async_destroy e (enter RsDestroying s1);
          (case res of None \<Rightarrow> Some s2 | Some msg \<Rightarrow> rs_emitError e msg (enter RsErrored s2))
        })"

definition finishedDestroyingReadable :: "readEnv \<Rightarrow> readable \<Rightarrow> (readable \<times> string option) option" where
  "finishedDestroyingReadable e s =
     (if rs_state s \<noteq> RsDestroying then Some (s, Some ''finishedDestroying only callable in State::Destroying'')
      else
        do {
          s1 \<leftarrow> on_close e (note_effect CloseEvent (s\<lparr>rs_state := RsEnded, rs_destroyed := True\<rparr>));
          Some (s1, None)
        })"

definition maybeDestroyEndedReadable :: "readEnv \<Rightarrow> readable \<Rightarrow> readable option" where
  "maybeDestroyEndedReadable e s =
     (if rs_state s = RsEnded \<and> rs_autoDestroy s \<and> \<not> rs_destroyed s \<and> isEmpty (rs_readQueue s) then rs_destroy e s else Some s)"

text \<open>The loop of \<open>emitOnData\<close>.\<close>

fun emitLoop :: "readEnv \<Rightarrow> nat \<Rightarrow> readable \<Rightarrow> readable option" where
  "emitLoop e 0 s = None"
| "emitLoop e (Suc n) s =
     (case popFront (rs_readQueue s) of
        (q, None) \<Rightarrow> Some s
      | (q, Some bufferID) \<Rightarrow>
          do {
            s1 \<leftarrow> on_data e bufferID (note_effect (Data bufferID) (s\<lparr>rs_readQueue := q\<rparr>));
            let s2 = note_effect (Unref bufferID) s1;
            if rs_state s2 = RsPausing \<or> rs_state s2 = RsPaused \<or> (rs_state s2 = RsEnded \<and> \<not> isEmpty (rs_readQueue s2)) then Some s2
            else emitLoop e n s2
          })"

definition emitOnData :: "readEnv \<Rightarrow> readable \<Rightarrow> readable option" where
  "emitOnData e s = do { s1 \<leftarrow> emitLoop e (env_loops e) s; maybeDestroyEndedReadable e s1 }"

definition rs_push :: "readEnv \<Rightarrow> int \<Rightarrow> u64 \<Rightarrow> readable \<Rightarrow> (readable \<times> bool) option" where
  "rs_push e bufferID newSize s =
     (if newSize = 0
      then do { s1 \<leftarrow> rs_emitError e ''AsyncReadableStream::push zero sized buffer is not allowed'' s; Some (s1, False) }
      else
        (let s0 = note_effect (SetSize bufferID newSize) s in
         case pushBack bufferID (rs_readQueue s0) of
           (_, False) \<Rightarrow>
             do { s1 \<leftarrow> rs_emitError e ''AsyncReadableStream::push dropping buffer'' (enter RsErrored s0); Some (s1, False) }
         | (q, True) \<Rightarrow>
             do {
               let s1 = note_effect (Ref bufferID) (note_effect (PushedBack bufferID) (s0\<lparr>rs_readQueue := q\<rparr>));
               s2 \<leftarrow>
                 (if rs_state s1 = RsSyncPushing \<or> rs_state s1 = RsReading
                  then do { s2 \<leftarrow> emitOnData e s1; Some (enter RsSyncPushing s2) }
                  else if rs_state s1 = RsAsyncPushing \<or> rs_state s1 = RsAsyncReading
                  then do { s2 \<leftarrow> emitOnData e s1; Some (if rs_state s2 = RsAsyncReading then enter RsAsyncPushing s2 else s2) }
                  else if rs_state s1 = RsPausing then emitOnData e s1
                  else rs_emitError e ''AsyncReadableStream::push - called in wrong state'' s1);
               Some (s2, rs_state s2 = RsAsyncPushing \<or> rs_state s2 = RsSyncPushing)
             }))"

definition rs_unshift :: "int \<Rightarrow> readable \<Rightarrow> readable \<times> string option" where
  "rs_unshift bufferID s =
     (case pushFront bufferID (rs_readQueue s) of
        (_, False) \<Rightarrow> (s, Some ''readable unshift failed'')
      | (q, True) \<Rightarrow> (note_effect (Ref bufferID) (note_effect (PushedFront bufferID) (s\<lparr>rs_readQueue := q\<rparr>)), None))"

text \<open>The loop of \<open>executeRead\<close>.\<close>

fun readLoop :: "readEnv \<Rightarrow> nat \<Rightarrow> readable \<Rightarrow> readable option" where
  "readLoop e 0 s = None"
| "readLoop e (Suc n) s =
     (if rs_state s \<noteq> RsReading then Some s
      else
        do {
          (s1, res) \<leftarrow> async_read e s;
          (case res of
             Some msg \<Rightarrow> rs_emitError e msg (enter RsErrored s1)
           | None \<Rightarrow>
               if rs_state s1 = RsSyncReadMore then readLoop e n (enter RsReading s1)
               else if rs_state s1 = RsReading then Some (enter RsAsyncReading s1)
               else if rs_state s1 = RsSyncPushing
               then rs_emitError e ''Forgot to call reactivate({true || false}) from asyncRead'' (enter RsErrored s1)
               else Some s1)
        })"

definition executeRead :: "readEnv \<Rightarrow> readable \<Rightarrow> readable option" where
  "executeRead e s =
     do {
       s1 \<leftarrow> (let s0 = enter RsReading s in if \<not> isEmpty (rs_readQueue s0) then emitOnData e s0 else Some s0);
       readLoop e (env_loops e) s1
     }"

definition rs_start :: "readEnv \<Rightarrow> readable \<Rightarrow> (readable \<times> string option) option" where
  "rs_start e s =
     (if rs_state s \<noteq> RsCanRead then Some (s, Some ''Can start only in CanRead state'')
      else do { s1 \<leftarrow> executeRead e s; Some (s1, None) })"

definition reactivate :: "readEnv \<Rightarrow> bool \<Rightarrow> readable \<Rightarrow> readable option" where
  "reactivate e doReactivate s =
     (if rs_state s = RsSyncPushing then Some (enter (if doReactivate then RsSyncReadMore else RsCanRead) s)
      else if rs_state s = RsAsyncPushing then (if doReactivate then executeRead e s else Some (enter RsCanRead s))
      else rs_emitError e ''AsyncReadableStream::reactivate - called in wrong state'' s)"

definition rs_pause :: "readEnv \<Rightarrow> readable \<Rightarrow> readable option" where
  "rs_pause e s =
     (if rs_state s \<in> {RsReading, RsAsyncReading, RsSyncPushing, RsAsyncPushing} then Some (enter RsPausing s)
      else if rs_state s \<in> {RsPausing, RsEnded, RsPaused} then Some s
      else rs_emitError e ''AsyncReadableStream::pause - called in wrong state'' s)"

definition resumeReading :: "readEnv \<Rightarrow> readable \<Rightarrow> readable option" where
  "resumeReading e s =
     (case rs_state s of
        RsPausing \<Rightarrow> executeRead e s
      | RsPaused \<Rightarrow> executeRead e s
      | RsEnded \<Rightarrow> (if \<not> isEmpty (rs_readQueue s) then emitOnData e s else maybeDestroyEndedReadable e s)
      | RsCanRead \<Rightarrow> executeRead e s
      | RsAsyncReading \<Rightarrow>
          do {
            (s1, res) \<leftarrow> async_resume e s;
            (case res of None \<Rightarrow> Some s1 | Some msg \<Rightarrow> rs_emitError e msg s1)
          }
      | RsStopped \<Rightarrow> rs_emitError e ''AsyncReadableStream::resume - called in wrong state'' s
      | RsErrored \<Rightarrow> rs_emitError e ''AsyncReadableStream::resume - called in wrong state'' s
      | _ \<Rightarrow> Some s)"

definition pushEnd :: "readEnv \<Rightarrow> readable \<Rightarrow> readable option" where
  "pushEnd e s =
     (case rs_state s of
        RsDestroying \<Rightarrow> rs_emitError e ''AsyncReadableStream::pushEnd - stream is destroying'' s
      | RsEnded \<Rightarrow> rs_emitError e ''AsyncReadableStream::pushEnd - stream already ended'' s
      | RsStopped \<Rightarrow> rs_emitError e ''AsyncReadableStream::pushEnd - stream is not even inited'' s
      | RsErrored \<Rightarrow> rs_emitError e ''AsyncReadableStream::pushEnd - stream is in error state'' s
      | _ \<Rightarrow>
          do {
            s1 \<leftarrow> on_end e (note_effect EndEvent (enter RsEnded s));
            maybeDestroyEndedReadable e s1
          })"

text \<open>\<open>available\<close>: whether the pool has a buffer of that size.\<close>

definition getBufferOrPause :: "readEnv \<Rightarrow> bool \<Rightarrow> readable \<Rightarrow> (readable \<times> bool) option" where
  "getBufferOrPause e available s =
     (if available then Some (s, True) else do { s1 \<leftarrow> rs_pause e s; Some (s1, False) })"

section \<open>Environments\<close>

text \<open>What a listener or a source may do: call the stream, each time depending on the state it finds.\<close>

datatype readCall =
  CPush int u64 | CUnshift int | CPushEnd | CReactivate bool | CPause | CResume | CDestroy | CStart | CGetBufferOrPause bool
  | CFinishedDestroying | CEmitError string | CInit

datatype readProgram = Return "string option" | Call readCall "readable \<Rightarrow> readProgram"

definition doCall :: "readEnv \<Rightarrow> readCall \<Rightarrow> readable \<Rightarrow> readable option" where
  "doCall e c s =
     (case c of
        CPush bufferID newSize \<Rightarrow> map_option fst (rs_push e bufferID newSize s)
      | CUnshift bufferID \<Rightarrow> Some (fst (rs_unshift bufferID s))
      | CPushEnd \<Rightarrow> pushEnd e s
      | CReactivate b \<Rightarrow> reactivate e b s
      | CPause \<Rightarrow> rs_pause e s
      | CResume \<Rightarrow> resumeReading e s
      | CDestroy \<Rightarrow> rs_destroy e s
      | CStart \<Rightarrow> map_option fst (rs_start e s)
      | CGetBufferOrPause available \<Rightarrow> map_option fst (getBufferOrPause e available s)
      | CFinishedDestroying \<Rightarrow> map_option fst (finishedDestroyingReadable e s)
      | CEmitError msg \<Rightarrow> rs_emitError e msg s
      | CInit \<Rightarrow> Some (fst (rs_init s)))"

primrec runProgram :: "readEnv \<Rightarrow> readProgram \<Rightarrow> readable \<Rightarrow> (readable \<times> string option) option" where
  "runProgram e (Return r) = (\<lambda>s. Some (s, r))"
| "runProgram e (Call c k) = (\<lambda>s. do { s1 \<leftarrow> doCall e c s; runProgram e (k s1) s1 })"

record readBehaviour =
  b_data :: "int \<Rightarrow> readable \<Rightarrow> readProgram"
  b_end :: "readable \<Rightarrow> readProgram"
  b_close :: "readable \<Rightarrow> readProgram"
  b_error :: "string \<Rightarrow> readable \<Rightarrow> readProgram"
  b_read :: "readable \<Rightarrow> readProgram"
  b_resume :: "readable \<Rightarrow> readProgram"
  b_destroy :: "readable \<Rightarrow> readProgram"

text \<open>The environment of a behaviour whose calls nest at most \<open>n\<close> deep.\<close>

primrec readEnvAt :: "readBehaviour \<Rightarrow> nat \<Rightarrow> readEnv" where
  "readEnvAt b 0 = \<lparr>on_data = \<lambda>_ _. None, on_end = \<lambda>_. None, on_close = \<lambda>_. None, on_error = \<lambda>_ _. None, async_read = \<lambda>_. None,
     async_resume = \<lambda>_. None, async_destroy = \<lambda>_. None, env_loops = 0\<rparr>"
| "readEnvAt b (Suc n) =
     (let call = (\<lambda>p s. runProgram (readEnvAt b n) p s) in
      \<lparr>on_data = \<lambda>bufferID s. map_option fst (call (b_data b bufferID s) s), on_end = \<lambda>s. map_option fst (call (b_end b s) s),
       on_close = \<lambda>s. map_option fst (call (b_close b s) s), on_error = \<lambda>msg s. map_option fst (call (b_error b msg s) s),
       async_read = \<lambda>s. call (b_read b s) s, async_resume = \<lambda>s. call (b_resume b s) s, async_destroy = \<lambda>s. call (b_destroy b s) s,
       env_loops = Suc n\<rparr>)"

end
