(* ===== verification/AsyncReadableProps.thy ===== *)
theory AsyncReadableProps
  imports AsyncReadable
begin

text \<open>
  The queue of a readable stream and the references it takes, whatever its listeners and its source do:
  the contract of an environment as a locale, and the proof that every environment keeps it.
\<close>

section \<open>The invariant\<close>

definition readable_inv :: "int multiset \<Rightarrow> readable \<Rightarrow> bool" where
  "readable_inv F s \<longleftrightarrow> cq_inv (rs_readQueue s) \<and> queue_inv F (cq_elems (rs_readQueue s)) (rs_trace s) \<and>
     (\<forall>x. Refused x \<notin> set (rs_trace s))"

lemma inv_enter [simp]: "readable_inv F (enter st s) = readable_inv F s"
  by (simp add: readable_inv_def enter_def)

lemma inv_fields: "readable_inv F (s\<lparr>rs_state := st, rs_destroyed := d\<rparr>) = readable_inv F s"
  by (simp add: readable_inv_def)

lemma inv_note [simp]: "neutral x \<Longrightarrow> readable_inv F (note_effect x s) = readable_inv F s"
  by (auto simp: readable_inv_def note_effect_def neutral_def)

lemma inv_pop:
  assumes "readable_inv F s" "popFront (rs_readQueue s) = (q, Some x)"
  shows "readable_inv (add_mset x F) (note_effect (Data x) (s\<lparr>rs_readQueue := q\<rparr>))"
    "readable_inv (add_mset x F) (note_effect (Dropped x) (s\<lparr>rs_readQueue := q\<rparr>))"
  using popFront_elems [OF _ assms(2)] queue_pop assms(1) by (simp_all add: readable_inv_def note_effect_def)

lemma inv_unref: "readable_inv (add_mset x F) s \<Longrightarrow> readable_inv F (note_effect (Unref x) s)"
  by (simp add: readable_inv_def note_effect_def queue_unref)

lemma inv_pushBack:
  assumes "readable_inv F s" "pushBack x (rs_readQueue s) = (q, True)"
  shows "readable_inv F (note_effect (Ref x) (note_effect (PushedBack x) (s\<lparr>rs_readQueue := q\<rparr>)))"
  using pushBack_elems [OF _ assms(2)] queue_pushBack assms(1) by (simp add: readable_inv_def note_effect_def)

lemma inv_pushFront:
  assumes "readable_inv F s" "pushFront x (rs_readQueue s) = (q, True)"
  shows "readable_inv F (note_effect (Ref x) (note_effect (PushedFront x) (s\<lparr>rs_readQueue := q\<rparr>)))"
  using pushFront_elems [OF _ assms(2)] queue_pushFront(1) assms(1) by (simp add: readable_inv_def note_effect_def)

section \<open>The contract of an environment\<close>

definition kept :: "(readable \<Rightarrow> readable option) \<Rightarrow> bool" where
  "kept f \<longleftrightarrow> (\<forall>F s s'. readable_inv F s \<longrightarrow> f s = Some s' \<longrightarrow> readable_inv F s')"

lemma keptD: "kept f \<Longrightarrow> f s = Some s' \<Longrightarrow> readable_inv F s \<Longrightarrow> readable_inv F s'"
  by (auto simp: kept_def)

lemma dropQueue_inv: "readable_inv F s \<Longrightarrow> readable_inv F (dropQueue n s)"
proof (induction n arbitrary: s)
  case (Suc n)
  then show ?case
    using inv_unref [OF inv_pop(2) [OF Suc.prems]] by (auto split: prod.splits option.splits)
qed simp

locale keeping_env =
  fixes e :: readEnv
  assumes data: "kept (on_data e x)" and ended: "kept (on_end e)" and closed: "kept (on_close e)" and error: "kept (on_error e msg)"
    and reads: "kept (\<lambda>s. map_option fst (async_read e s))" and resumes: "kept (\<lambda>s. map_option fst (async_resume e s))"
    and destroys: "kept (\<lambda>s. map_option fst (async_destroy e s))"
begin

lemma fst_keeps:
  "async_read e s = Some (s', r) \<Longrightarrow> readable_inv F s \<Longrightarrow> readable_inv F s'"
  "async_resume e s = Some (s', r) \<Longrightarrow> readable_inv F s \<Longrightarrow> readable_inv F s'"
  "async_destroy e s = Some (s', r) \<Longrightarrow> readable_inv F s \<Longrightarrow> readable_inv F s'"
  using keptD [OF reads, of s s'] keptD [OF resumes, of s s'] keptD [OF destroys, of s s'] by simp_all

lemma emitError_keeps: "rs_emitError e msg s = Some s' \<Longrightarrow> readable_inv F s \<Longrightarrow> readable_inv F s'"
  using keptD [OF error] by (simp add: rs_emitError_def)

lemma destroy_keeps: "rs_destroy e s = Some s' \<Longrightarrow> readable_inv F s \<Longrightarrow> readable_inv F s'"
  using dropQueue_inv [of F s "cq_size (rs_readQueue s)"] emitError_keeps fst_keeps(3)
  by (fastforce simp: rs_destroy_def Let_def Option.bind_eq_Some_conv split: if_splits option.splits)

lemma maybeDestroy_keeps: "maybeDestroyEndedReadable e s = Some s' \<Longrightarrow> readable_inv F s \<Longrightarrow> readable_inv F s'"
  using destroy_keeps by (auto simp: maybeDestroyEndedReadable_def split: if_splits)

lemma finishedDestroying_keeps: "finishedDestroyingReadable e s = Some (s', r) \<Longrightarrow> readable_inv F s \<Longrightarrow> readable_inv F s'"
  using keptD [OF closed] by (auto simp: finishedDestroyingReadable_def inv_fields Option.bind_eq_Some_conv split: if_splits)

lemma emitLoop_keeps: "emitLoop e n s = Some s' \<Longrightarrow> readable_inv F s \<Longrightarrow> readable_inv F s'"
proof (induction n arbitrary: s)
  case (Suc n)
  show ?case
  proof (cases "snd (popFront (rs_readQueue s))")
    case None
    then show ?thesis
      using Suc.prems by (auto split: prod.splits)
  next
    case (Some x)
    then obtain q where q: "popFront (rs_readQueue s) = (q, Some x)"
      by (metis prod.collapse)
    from Suc.prems(1) q obtain s1 where s1: "on_data e x (note_effect (Data x) (s\<lparr>rs_readQueue := q\<rparr>)) = Some s1"
        "s' = note_effect (Unref x) s1 \<or> emitLoop e n (note_effect (Unref x) s1) = Some s'"
      by (auto simp: Option.bind_eq_Some_conv Let_def split: if_splits)
    have "readable_inv F (note_effect (Unref x) s1)"
      by (rule inv_unref) (rule keptD [OF data s1(1) inv_pop(1) [OF Suc.prems(2) q]])
    then show ?thesis
      using s1(2) Suc.IH by blast
  qed
qed simp

lemma emitOnData_keeps: "emitOnData e s = Some s' \<Longrightarrow> readable_inv F s \<Longrightarrow> readable_inv F s'"
  using emitLoop_keeps maybeDestroy_keeps by (auto simp: emitOnData_def Option.bind_eq_Some_conv)

lemma push_keeps:
  assumes "rs_push e x n s = Some (s', r)" "readable_inv F s"
  shows "readable_inv F s'"
proof (cases "n = 0")
  case True
  then show ?thesis
    using assms emitError_keeps by (auto simp: rs_push_def Option.bind_eq_Some_conv)
next
  case False
  let ?s0 = "note_effect (SetSize x n) s"
  have inv: "readable_inv F ?s0"
    using assms(2) by simp
  show ?thesis
  proof (cases "pushBack x (rs_readQueue ?s0)")
    case (Pair q ok)
    show ?thesis
    proof (cases ok)
      case True
      let ?s1 = "note_effect (Ref x) (note_effect (PushedBack x) (?s0\<lparr>rs_readQueue := q\<rparr>))"
      have "readable_inv F ?s1"
        using inv_pushBack [OF inv] Pair True by simp
      moreover have "emitOnData e ?s1 = Some s' \<or> rs_emitError e ''AsyncReadableStream::push - called in wrong state'' ?s1 = Some s' \<or>
          (\<exists>s2 st. emitOnData e ?s1 = Some s2 \<and> s' = enter st s2)"
        using assms(1) False Pair True by (auto simp: rs_push_def Let_def Option.bind_eq_Some_conv split: if_splits)
      ultimately show ?thesis
        using emitOnData_keeps emitError_keeps by fastforce
    next
      case full: False
      then have "rs_emitError e ''AsyncReadableStream::push dropping buffer'' (enter RsErrored ?s0) = Some s'"
        using assms(1) False Pair by (auto simp: rs_push_def Let_def Option.bind_eq_Some_conv)
      then show ?thesis
        using emitError_keeps inv by fastforce
    qed
  qed
qed

lemma readLoop_keeps: "readLoop e n s = Some s' \<Longrightarrow> readable_inv F s \<Longrightarrow> readable_inv F s'"
proof (induction n arbitrary: s)
  case (Suc n)
  show ?case
  proof (cases "rs_state s = RsReading")
    case True
    then obtain s1 r where s1: "async_read e s = Some (s1, r)"
      using Suc.prems(1) by (auto simp: Option.bind_eq_Some_conv)
    have inv: "readable_inv F s1"
      using fst_keeps(1) [OF s1 Suc.prems(2)] .
    have "(\<exists>msg. rs_emitError e msg (enter RsErrored s1) = Some s') \<or> readLoop e n (enter RsReading s1) = Some s' \<or> (\<exists>st. s' = enter st s1) \<or> s' = s1"
      using Suc.prems(1) True s1 by (auto split: option.splits if_splits)
    then show ?thesis
      using Suc.IH [of "enter RsReading s1"] emitError_keeps inv by auto
  qed (use Suc.prems in simp)
qed simp

lemma executeRead_keeps:
  assumes "executeRead e s = Some s'" "readable_inv F s"
  shows "readable_inv F s'"
proof -
  obtain s1 where "s1 = enter RsReading s \<or> emitOnData e (enter RsReading s) = Some s1" "readLoop e (env_loops e) s1 = Some s'"
    using assms(1) by (auto simp: executeRead_def Let_def Option.bind_eq_Some_conv split: if_splits)
  then show ?thesis
    using readLoop_keeps emitOnData_keeps assms(2) inv_enter by blast
qed

lemma start_keeps: "rs_start e s = Some (s', r) \<Longrightarrow> readable_inv F s \<Longrightarrow> readable_inv F s'"
  using executeRead_keeps by (auto simp: rs_start_def Option.bind_eq_Some_conv split: if_splits)

lemma reactivate_keeps: "reactivate e b s = Some s' \<Longrightarrow> readable_inv F s \<Longrightarrow> readable_inv F s'"
  using executeRead_keeps emitError_keeps by (auto simp: reactivate_def split: if_splits)

lemma pause_keeps: "rs_pause e s = Some s' \<Longrightarrow> readable_inv F s \<Longrightarrow> readable_inv F s'"
  using emitError_keeps by (auto simp: rs_pause_def split: if_splits)

lemma getBuffer_keeps: "getBufferOrPause e a s = Some (s', r) \<Longrightarrow> readable_inv F s \<Longrightarrow> readable_inv F s'"
  using pause_keeps by (auto simp: getBufferOrPause_def Option.bind_eq_Some_conv split: if_splits)

lemma resume_keeps:
  assumes "resumeReading e s = Some s'" "readable_inv F s"
  shows "readable_inv F s'"
proof -
  have "executeRead e s = Some s' \<or> emitOnData e s = Some s' \<or> maybeDestroyEndedReadable e s = Some s' \<or> s' = s \<or>
      (\<exists>msg. rs_emitError e msg s = Some s') \<or> (\<exists>s1 r. async_resume e s = Some (s1, r) \<and> (s' = s1 \<or> (\<exists>msg. rs_emitError e msg s1 = Some s')))"
    using assms(1) by (cases "rs_state s") (auto simp: resumeReading_def Option.bind_eq_Some_conv split: if_splits option.splits)
  then show ?thesis
    by (elim disjE exE conjE)
      (use assms(2) executeRead_keeps emitOnData_keeps maybeDestroy_keeps emitError_keeps fst_keeps(2) in blast)+
qed

lemma pushEnd_keeps:
  assumes "pushEnd e s = Some s'" "readable_inv F s"
  shows "readable_inv F s'"
proof -
  have "(\<exists>msg. rs_emitError e msg s = Some s') \<or>
      (\<exists>s1. on_end e (note_effect EndEvent (enter RsEnded s)) = Some s1 \<and> maybeDestroyEndedReadable e s1 = Some s')"
    using assms(1) by (cases "rs_state s") (auto simp: pushEnd_def Option.bind_eq_Some_conv)
  moreover have "readable_inv F (note_effect EndEvent (enter RsEnded s))"
    using assms(2) by simp
  ultimately show ?thesis
    using assms(2) maybeDestroy_keeps emitError_keeps keptD [OF ended] by blast
qed

lemma unshift_keeps: "readable_inv F s \<Longrightarrow> readable_inv F (fst (rs_unshift x s))"
  using inv_pushFront [of F s x] by (auto simp: rs_unshift_def split: prod.splits bool.splits)

lemma init_keeps: "readable_inv F s \<Longrightarrow> readable_inv F (fst (rs_init s))"
  by (simp add: rs_init_def inv_fields)

lemma doCall_keeps: "doCall e c s = Some s' \<Longrightarrow> readable_inv F s \<Longrightarrow> readable_inv F s'"
  using push_keeps start_keeps reactivate_keeps pause_keeps getBuffer_keeps resume_keeps pushEnd_keeps unshift_keeps destroy_keeps
    finishedDestroying_keeps emitError_keeps init_keeps
  by (cases c) (auto simp: doCall_def)

lemma runProgram_keeps: "runProgram e p s = Some (s', r) \<Longrightarrow> readable_inv F s \<Longrightarrow> readable_inv F s'"
proof (induction p arbitrary: s)
  case (Call c k)
  from Call.prems(1) obtain s1 where "doCall e c s = Some s1" "runProgram e (k s1) s1 = Some (s', r)"
    by (auto simp: Option.bind_eq_Some_conv)
  then show ?case
    using Call.IH [OF rangeI] doCall_keeps Call.prems(2) by blast
qed simp

end

lemma keeping_none: "keeping_env (readEnvAt b 0)"
  by unfold_locales (simp_all add: kept_def)

lemma keeping_next:
  assumes "keeping_env (readEnvAt b n)"
  shows "keeping_env (readEnvAt b (Suc n))"
  by unfold_locales (auto simp: kept_def Let_def dest: keeping_env.runProgram_keeps [OF assms])

lemma keeping_every: "keeping_env (readEnvAt b n)"
  by (induction n) (simp_all only: keeping_none keeping_next)

interpretation behaving: keeping_env "readEnvAt b n" for b n
  by (rule keeping_every)

end
