(* ===== verification/AsyncReadableTheorems.thy ===== *)
theory AsyncReadableTheorems
  imports AsyncReadableProps
begin

text \<open>
  Runs of a readable stream: what comes out of it is what was put into it, in order; a source that
  pushes chunks is read to its end; what a push in a synchronous read does to the state.
\<close>

section \<open>What goes in and what comes out\<close>

lemma new_readable_inv: "requests \<noteq> [] \<Longrightarrow> readable_inv {#} (newReadable requests)"
  by (simp add: readable_inv_def newReadable_def queue_new cq_new_elems)

text \<open>
  C7: Whatever the listeners and the source of a stream do, calling the stream as often and as deeply
  nested as they like: the queue of the stream is the abstract queue that its trace describes, in which
  only the front is ever taken; every buffer has as many references of the stream as it is queued; and
  if nothing is unshifted, the buffers emitted or dropped, followed by those still queued, are exactly
  the buffers pushed, in the order of the pushes.
\<close>

theorem readable_refines_queue:
  assumes "requests \<noteq> []" "runProgram (readEnvAt b n) p (newReadable requests) = Some (s, r)"
  shows "replay (rs_trace s) = Some (cq_elems (rs_readQueue s)) \<and>
    (\<forall>i. count_list (rs_trace s) (Ref i) = count_list (rs_trace s) (Unref i) + count_list (cq_elems (rs_readQueue s)) i) \<and>
    ((\<forall>i. PushedFront i \<notin> set (rs_trace s)) \<longrightarrow> queued (rs_trace s) = taken (rs_trace s) @ cq_elems (rs_readQueue s))"
proof -
  have "readable_inv {#} s"
    by (rule behaving.runProgram_keeps [OF assms(2) new_readable_inv [OF assms(1)]])
  then show ?thesis
    using queue_fifo [of "{#}"] by (simp add: readable_inv_def queue_inv_def count_list_0_iff)
qed

section \<open>A source that is read to its end\<close>

text \<open>A source that pushes its next chunk and asks for more each time it is read, and then ends; what the listener of its data calls.\<close>

definition chunkSource :: "readProgram \<Rightarrow> (int \<times> u64) list \<Rightarrow> readBehaviour" where
  "chunkSource listener chunks =
     \<lparr>b_data = \<lambda>_ _. listener, b_end = \<lambda>_. Return None, b_close = \<lambda>_. Return None, b_error = \<lambda>_ _. Return None,
      b_read = \<lambda>s.
        (case drop (length (queued (rs_trace s))) chunks of
           [] \<Rightarrow> Call CPushEnd (\<lambda>_. Return None)
         | (i, m) # _ \<Rightarrow> Call (CPush i m) (\<lambda>_. Call (CReactivate True) (\<lambda>_. Return None))),
      b_resume = \<lambda>_. Return None, b_destroy = \<lambda>_. Call CFinishedDestroying (\<lambda>_. Return None)\<rparr>"

definition chunkTrace :: "streamEffect list \<Rightarrow> int \<times> u64 \<Rightarrow> streamEffect list" where
  "chunkTrace reaction c = [SetSize (fst c) (snd c), PushedBack (fst c), Ref (fst c), Data (fst c)] @ reaction @ [Unref (fst c)]"

text \<open>What the listener does to a stream that is reading and has nothing in its queue.\<close>

definition reacts :: "readEnv \<Rightarrow> readState \<Rightarrow> bool \<Rightarrow> streamEffect list \<Rightarrow> bool" where
  "reacts e st d reaction \<longleftrightarrow> queued reaction = [] \<and> (st = RsReading \<or> st = RsPausing \<or> st = RsEnded \<and> d) \<and>
     (\<forall>x s. cq_inv (rs_readQueue s) \<longrightarrow> cq_elems (rs_readQueue s) = [] \<longrightarrow> rs_state s = RsReading \<longrightarrow>
       on_data e x s = Some (s\<lparr>rs_state := st, rs_destroyed := (rs_destroyed s \<or> d), rs_trace := rs_trace s @ reaction\<rparr>))"

lemma empty_queue:
  assumes "cq_inv q" "cq_elems q = []"
  shows "popFront q = (q, None)" "isEmpty q"
  using ring.pop_empty [OF assms] by (auto simp: popFront_def split: if_splits)

lemma dropQueue_empty: "cq_inv (rs_readQueue s) \<Longrightarrow> cq_elems (rs_readQueue s) = [] \<Longrightarrow> dropQueue n s = s"
  by (cases n) (simp_all add: empty_queue)

lemma silent_reacts: "reacts (readEnvAt (chunkSource (Return None) chunks) (Suc k)) RsReading False []"
  by (simp add: reacts_def Let_def chunkSource_def)

lemma pausing_reacts: "reacts (readEnvAt (chunkSource (Call CPause (\<lambda>_. Return None)) chunks) (Suc k)) RsPausing False []"
  by (simp add: reacts_def Let_def chunkSource_def doCall_def rs_pause_def enter_def)

lemma destroying_reacts:
  "reacts (readEnvAt (chunkSource (Call CDestroy (\<lambda>_. Return None)) chunks) (Suc (Suc (Suc k)))) RsEnded True [CloseEvent]"
  by (auto simp: reacts_def Let_def chunkSource_def doCall_def rs_destroy_def dropQueue_empty finishedDestroyingReadable_def enter_def
      note_effect_def)

lemma push_reading:
  assumes listener: "reacts e st d reaction" and s: "cq_inv (rs_readQueue s)" "rs_state s = RsReading" "cq_elems (rs_readQueue s) = []"
    "1 < cq_size (rs_readQueue s)" and c: "snd c \<noteq> 0" and loops: "1 < env_loops e"
  shows "\<exists>q. rs_push e (fst c) (snd c) s = Some (s\<lparr>rs_readQueue := q, rs_state := RsSyncPushing, rs_destroyed := (rs_destroyed s \<or> d),
      rs_trace := rs_trace s @ chunkTrace reaction c\<rparr>, True) \<and>
    cq_inv q \<and> cq_elems q = [] \<and> cq_size q = cq_size (rs_readQueue s)"
proof -
  have "length (cq_elems (rs_readQueue s)) < cq_capacity (rs_readQueue s)"
    using s(3,4) by (simp add: cq_capacity_def cq_size_def)
  from ring.push_back_room [OF s(1) this, of "fst c"] obtain q where
    q: "pushBack (fst c) (rs_readQueue s) = (q, True)" "cq_inv q" "cq_elems q = [fst c]"
    using s(3) by auto
  have size: "cq_size q = cq_size (rs_readQueue s)"
    using q(1) by (auto simp: pushBack_def cq_size_def Let_def split: if_splits)
  obtain q1 where pop: "popFront q = (q1, Some (fst c))"
    using ring.pop_Cons [OF q(2,3)] by blast
  have q1: "cq_inv q1" "cq_elems q1 = []" "cq_size q1 = cq_size (rs_readQueue s)"
    using popFront_elems [OF q(2) pop] q(3) size by simp_all
  let ?s1 = "s\<lparr>rs_readQueue := q, rs_trace := rs_trace s @ [SetSize (fst c) (snd c), PushedBack (fst c), Ref (fst c)]\<rparr>"
  let ?s2 = "s\<lparr>rs_readQueue := q1, rs_trace := rs_trace ?s1 @ [Data (fst c)]\<rparr>"
  let ?s3 = "?s2\<lparr>rs_state := st, rs_destroyed := (rs_destroyed s \<or> d), rs_trace := rs_trace ?s2 @ reaction @ [Unref (fst c)]\<rparr>"
  obtain m where m: "env_loops e = Suc (Suc m)"
    using less_imp_Suc_add [OF loops] by auto
  have data: "on_data e (fst c) ?s2 = Some (?s2\<lparr>rs_state := st, rs_destroyed := (rs_destroyed s \<or> d), rs_trace := rs_trace ?s2 @ reaction\<rparr>)"
    using listener q1 s(2) by (simp add: reacts_def)
  have st: "st = RsReading \<or> st = RsPausing \<or> st = RsEnded \<and> d"
    using listener by (simp add: reacts_def)
  have ends: "emitLoop e (Suc m) ?s3 = Some ?s3"
    by (simp add: empty_queue [OF q1(1,2)])
  have "emitLoop e (Suc (Suc m)) ?s1 =
      (if st = RsPausing \<or> st = RsPaused \<or> (st = RsEnded \<and> \<not> isEmpty q1) then Some ?s3 else emitLoop e (Suc m) ?s3)"
    using data by (subst emitLoop.simps) (simp add: pop note_effect_def Let_def del: emitLoop.simps)
  then have "emitLoop e (Suc (Suc m)) ?s1 = Some ?s3"
    using ends by (simp del: emitLoop.simps)
  then have emits: "emitOnData e ?s1 = Some ?s3"
    using st m by (auto simp: emitOnData_def maybeDestroyEndedReadable_def)
  show ?thesis
    using emits c q1 q(1) s(2)
    by (intro exI [of _ q1]) (simp add: rs_push_def Let_def note_effect_def enter_def chunkTrace_def)
qed

lemma source_reads_chunk:
  assumes listener: "reacts (readEnvAt (chunkSource listener chunks) (Suc (Suc k))) st d reaction"
    and s: "cq_inv (rs_readQueue s)" "rs_state s = RsReading" "cq_elems (rs_readQueue s) = []" "1 < cq_size (rs_readQueue s)"
    and next_chunk: "drop (length (queued (rs_trace s))) chunks = c # rest" "snd c \<noteq> 0"
  shows "\<exists>q. async_read (readEnvAt (chunkSource listener chunks) (Suc (Suc (Suc k)))) s =
      Some (s\<lparr>rs_readQueue := q, rs_state := RsSyncReadMore, rs_destroyed := (rs_destroyed s \<or> d),
        rs_trace := rs_trace s @ chunkTrace reaction c\<rparr>, None) \<and>
    cq_inv q \<and> cq_elems q = [] \<and> cq_size q = cq_size (rs_readQueue s)"
proof -
  let ?e = "readEnvAt (chunkSource listener chunks) (Suc (Suc k))"
  have "1 < env_loops ?e"
    by (simp add: Let_def)
  from push_reading [OF listener s next_chunk(2) this] obtain q where
    q: "rs_push ?e (fst c) (snd c) s = Some (s\<lparr>rs_readQueue := q, rs_state := RsSyncPushing, rs_destroyed := (rs_destroyed s \<or> d),
      rs_trace := rs_trace s @ chunkTrace reaction c\<rparr>, True)" "cq_inv q" "cq_elems q = []" "cq_size q = cq_size (rs_readQueue s)"
    by blast
  have "async_read (readEnvAt (chunkSource listener chunks) (Suc (Suc (Suc k)))) s =
      runProgram ?e (Call (CPush (fst c) (snd c)) (\<lambda>_. Call (CReactivate True) (\<lambda>_. Return None))) s"
    using next_chunk(1) by (subst readEnvAt.simps) (simp add: Let_def chunkSource_def split: prod.splits del: readEnvAt.simps)
  also have "\<dots> = Some (s\<lparr>rs_readQueue := q, rs_state := RsSyncReadMore, rs_destroyed := (rs_destroyed s \<or> d),
      rs_trace := rs_trace s @ chunkTrace reaction c\<rparr>, None)"
    using q(1) by (simp add: doCall_def reactivate_def enter_def del: readEnvAt.simps)
  finally show ?thesis
    using q by blast
qed

definition closing :: "readable \<Rightarrow> streamEffect list" where
  "closing s = (if rs_destroyed s then [EndEvent] else [EndEvent, CloseEvent])"

lemma source_ends:
  assumes s: "cq_inv (rs_readQueue s)" "rs_state s = RsReading" "cq_elems (rs_readQueue s) = []" "rs_autoDestroy s"
    and exhausted: "drop (length (queued (rs_trace s))) chunks = []"
  shows "async_read (readEnvAt (chunkSource listener chunks) (Suc (Suc (Suc k)))) s =
      Some (s\<lparr>rs_state := RsEnded, rs_destroyed := True, rs_trace := rs_trace s @ closing s\<rparr>, None)"
  using s exhausted empty_queue [OF s(1,3)]
  by (simp add: Let_def chunkSource_def doCall_def pushEnd_def maybeDestroyEndedReadable_def rs_destroy_def finishedDestroyingReadable_def
      enter_def note_effect_def dropQueue_empty closing_def)

lemma queued_chunks [simp]: "queued reaction = [] \<Longrightarrow> queued (concat (map (chunkTrace reaction) cs)) = map fst cs"
  by (induction cs) (simp_all add: chunkTrace_def)

text \<open>The trace of the whole run from a stream that is reading.\<close>

definition wholeTrace :: "streamEffect list \<Rightarrow> bool \<Rightarrow> bool \<Rightarrow> (int \<times> u64) list \<Rightarrow> streamEffect list" where
  "wholeTrace reaction d already chunks =
     concat (map (chunkTrace reaction) chunks) @ (if already \<or> (d \<and> chunks \<noteq> []) then [EndEvent] else [EndEvent, CloseEvent])"

lemma source_loop:
  assumes listener: "reacts (readEnvAt (chunkSource listener chunks) (Suc (Suc k))) st d reaction" and sizes: "\<forall>c\<in>set chunks. snd c \<noteq> 0"
  shows "cq_inv (rs_readQueue s) \<Longrightarrow> cq_elems (rs_readQueue s) = [] \<Longrightarrow> 1 < cq_size (rs_readQueue s) \<Longrightarrow> rs_state s = RsReading \<Longrightarrow>
    rs_autoDestroy s \<Longrightarrow> drop (length (queued (rs_trace s))) chunks = rest \<Longrightarrow> length rest < m \<Longrightarrow>
    \<exists>q. readLoop (readEnvAt (chunkSource listener chunks) (Suc (Suc (Suc k)))) m s =
      Some (s\<lparr>rs_readQueue := q, rs_state := RsEnded, rs_destroyed := True,
        rs_trace := rs_trace s @ wholeTrace reaction d (rs_destroyed s) rest\<rparr>)"
proof (induction rest arbitrary: s m)
  case Nil
  then obtain m' where m: "m = Suc m'"
    by (cases m) simp_all
  have "async_read (readEnvAt (chunkSource listener chunks) (Suc (Suc (Suc k)))) s =
      Some (s\<lparr>rs_state := RsEnded, rs_destroyed := True, rs_trace := rs_trace s @ closing s\<rparr>, None)"
    by (rule source_ends) (use Nil.prems in simp_all)
  then show ?case
    using Nil.prems(4) m by (intro exI [of _ "rs_readQueue s"]) (simp add: wholeTrace_def closing_def del: readEnvAt.simps)
next
  case (Cons c rest)
  then obtain m' where m: "m = Suc m'"
    by (cases m) simp_all
  have "c \<in> set chunks"
    using Cons.prems(6) by (metis in_set_dropD list.set_intros(1))
  then have "snd c \<noteq> 0"
    using sizes by blast
  from source_reads_chunk [OF listener Cons.prems(1,4,2,3,6) this] obtain q where
    q: "async_read (readEnvAt (chunkSource listener chunks) (Suc (Suc (Suc k)))) s =
      Some (s\<lparr>rs_readQueue := q, rs_state := RsSyncReadMore, rs_destroyed := (rs_destroyed s \<or> d),
        rs_trace := rs_trace s @ chunkTrace reaction c\<rparr>, None)"
    "cq_inv q" "cq_elems q = []" "cq_size q = cq_size (rs_readQueue s)"
    by blast
  let ?s1 = "s\<lparr>rs_readQueue := q, rs_destroyed := (rs_destroyed s \<or> d), rs_trace := rs_trace s @ chunkTrace reaction c, rs_state := RsReading\<rparr>"
  have "queued reaction = []"
    using listener by (simp add: reacts_def)
  then have "drop (length (queued (rs_trace ?s1))) chunks = rest"
    using Cons.prems(6) by (simp add: chunkTrace_def) (metis drop_Suc drop_drop list.sel(3) add.commute plus_1_eq_Suc tl_drop)
  then have "\<exists>q'. readLoop (readEnvAt (chunkSource listener chunks) (Suc (Suc (Suc k)))) m' ?s1 =
      Some (?s1\<lparr>rs_readQueue := q', rs_state := RsEnded, rs_destroyed := True,
        rs_trace := rs_trace ?s1 @ wholeTrace reaction d (rs_destroyed ?s1) rest\<rparr>)"
    using Cons.IH [of ?s1 m'] q Cons.prems m by (simp del: readEnvAt.simps)
  moreover have "readLoop (readEnvAt (chunkSource listener chunks) (Suc (Suc (Suc k)))) m s =
      readLoop (readEnvAt (chunkSource listener chunks) (Suc (Suc (Suc k)))) m' ?s1"
    using Cons.prems(4) m q(1) by (simp add: enter_def del: readEnvAt.simps)
  moreover have "chunkTrace reaction c @ wholeTrace reaction d (rs_destroyed ?s1) rest = wholeTrace reaction d (rs_destroyed s) (c # rest)"
    by (simp add: wholeTrace_def)
  ultimately show ?case
    by (simp del: readEnvAt.simps)
qed

lemma source_run:
  assumes "reacts (readEnvAt (chunkSource listener chunks) (Suc (Suc k))) st d reaction" "\<forall>c\<in>set chunks. snd c \<noteq> 0"
    "2 \<le> length requests" "length chunks < Suc (Suc (Suc k))"
  shows "\<exists>s. runProgram (readEnvAt (chunkSource listener chunks) (Suc (Suc (Suc k)))) (Call CInit (\<lambda>_. Call CStart (\<lambda>_. Return None)))
      (newReadable requests) = Some (s, None) \<and>
    (rs_state s, rs_destroyed s) = (RsEnded, True) \<and> rs_trace s = wholeTrace reaction d False chunks"
proof -
  have "requests \<noteq> []"
    using assms(3) by auto
  then have inv: "cq_inv (cq_new requests)" and emp: "cq_elems (cq_new requests) = []"
    using cq_new_elems by blast+
  let ?s = "(newReadable requests)\<lparr>rs_state := RsReading\<rparr>"
  have "\<exists>q. readLoop (readEnvAt (chunkSource listener chunks) (Suc (Suc (Suc k)))) (Suc (Suc (Suc k))) ?s =
      Some (?s\<lparr>rs_readQueue := q, rs_state := RsEnded, rs_destroyed := True,
        rs_trace := rs_trace ?s @ wholeTrace reaction d (rs_destroyed ?s) chunks\<rparr>)"
    by (intro source_loop [OF assms(1,2)])
      (use inv emp assms(3,4) in \<open>simp_all add: newReadable_def cq_size_def cq_new_def\<close>)
  moreover have "env_loops (readEnvAt (chunkSource listener chunks) (Suc (Suc (Suc k)))) = Suc (Suc (Suc k))"
    by (simp add: Let_def)
  ultimately show ?thesis
    using assms(3)
    by (auto simp: doCall_def rs_init_def newReadable_def cq_size_def cq_new_def rs_start_def executeRead_def enter_def isEmpty_def
        simp del: readEnvAt.simps readLoop.simps)
qed

text \<open>
  C17: A stream whose queue has room for a buffer, started with a source that pushes chunks synchronously
  and listeners that do not call it, always returns, with a fuel of a few more than there are chunks. It
  has emitted every chunk once, in order, dropped its reference right after, then emitted its end and its
  close event, and is ended and destroyed.
\<close>

theorem chunk_source_delivers:
  assumes "2 \<le> length requests" "\<forall>c\<in>set chunks. snd c \<noteq> 0" "length chunks + 4 \<le> n"
  shows "\<exists>s. runProgram (readEnvAt (chunkSource (Return None) chunks) n) (Call CInit (\<lambda>_. Call CStart (\<lambda>_. Return None))) (newReadable requests) =
      Some (s, None) \<and>
    (rs_state s, rs_destroyed s) = (RsEnded, True) \<and> rs_trace s = concat (map (chunkTrace []) chunks) @ [EndEvent, CloseEvent]"
proof -
  obtain k where n: "n = Suc (Suc (Suc k))"
    using le_Suc_ex [OF assms(3)] by (auto simp: numeral_eq_Suc)
  from source_run [OF silent_reacts assms(2,1), of k] show ?thesis
    using assms(3) by (simp add: n wholeTrace_def del: readEnvAt.simps runProgram.simps)
qed

theorem chunk_source_delivers_witness:
  "\<exists>s. runProgram (readEnvAt (chunkSource (Return None) [(7, 100), (8, 50)]) 6) (Call CInit (\<lambda>_. Call CStart (\<lambda>_. Return None))) (newReadable [0, 0, 0]) =
      Some (s, None) \<and>
    (rs_state s, rs_destroyed s) = (RsEnded, True) \<and> rs_trace s = concat (map (chunkTrace []) [(7, 100), (8, 50)]) @ [EndEvent, CloseEvent]"
  by (rule chunk_source_delivers) simp_all

text \<open>
  C37: What a listener of the data does to the stream is undone when the source pushes synchronously: a
  listener that pauses the stream at every buffer changes nothing, and a stream that is destroyed at its
  first buffer closes, and then goes on: every other chunk is still emitted, closing the stream again,
  and it emits its end after that.
\<close>

theorem sync_push_forgets_listener:
  assumes "2 \<le> length requests" "\<forall>c\<in>set chunks. snd c \<noteq> 0" "chunks \<noteq> []" "length chunks + 4 \<le> n"
  shows "(\<exists>s. runProgram (readEnvAt (chunkSource (Call CPause (\<lambda>_. Return None)) chunks) n) (Call CInit (\<lambda>_. Call CStart (\<lambda>_. Return None)))
        (newReadable requests) = Some (s, None) \<and>
      rs_trace s = concat (map (chunkTrace []) chunks) @ [EndEvent, CloseEvent]) \<and>
    (\<exists>s. runProgram (readEnvAt (chunkSource (Call CDestroy (\<lambda>_. Return None)) chunks) n) (Call CInit (\<lambda>_. Call CStart (\<lambda>_. Return None)))
        (newReadable requests) = Some (s, None) \<and>
      rs_trace s = concat (map (chunkTrace [CloseEvent]) chunks) @ [EndEvent])"
proof -
  obtain k where n: "n = Suc (Suc (Suc (Suc k)))"
    using le_Suc_ex [OF assms(4)] by (auto simp: numeral_eq_Suc)
  from source_run [OF pausing_reacts assms(2,1), of "Suc k"] source_run [OF destroying_reacts assms(2,1), of k] show ?thesis
    using assms(3,4) by (auto simp: n wholeTrace_def simp del: readEnvAt.simps runProgram.simps)
qed

theorem sync_push_forgets_listener_witness:
  "(\<exists>s. runProgram (readEnvAt (chunkSource (Call CPause (\<lambda>_. Return None)) [(7, 100), (8, 50)]) 6) (Call CInit (\<lambda>_. Call CStart (\<lambda>_. Return None)))
        (newReadable [0, 0]) = Some (s, None) \<and>
      rs_trace s = concat (map (chunkTrace []) [(7, 100), (8, 50)]) @ [EndEvent, CloseEvent]) \<and>
    (\<exists>s. runProgram (readEnvAt (chunkSource (Call CDestroy (\<lambda>_. Return None)) [(7, 100), (8, 50)]) 6) (Call CInit (\<lambda>_. Call CStart (\<lambda>_. Return None)))
        (newReadable [0, 0]) = Some (s, None) \<and>
      rs_trace s = concat (map (chunkTrace [CloseEvent]) [(7, 100), (8, 50)]) @ [EndEvent])"
  by (rule sync_push_forgets_listener) simp_all

theorem readable_refines_queue_witness:
  "\<exists>s r. runProgram (readEnvAt (chunkSource (Return None) [(7, 100), (8, 50)]) 6) (Call CInit (\<lambda>_. Call CStart (\<lambda>_. Return None)))
      (newReadable [0, 0, 0]) = Some (s, r) \<and>
    taken (rs_trace s) = [7, 8] \<and> queued (rs_trace s) = taken (rs_trace s) @ cq_elems (rs_readQueue s)"
proof -
  let ?b = "chunkSource (Return None) [(7, 100), (8, 50)]"
  have six: "Suc (Suc (Suc 3)) = 6"
    by simp
  have "\<exists>s. runProgram (readEnvAt ?b (Suc (Suc (Suc 3)))) (Call CInit (\<lambda>_. Call CStart (\<lambda>_. Return None))) (newReadable [0, 0, 0]) = Some (s, None) \<and>
      (rs_state s, rs_destroyed s) = (RsEnded, True) \<and> rs_trace s = wholeTrace [] False False [(7, 100), (8, 50)]"
    by (rule source_run [OF silent_reacts]) simp_all
  then obtain s where s: "runProgram (readEnvAt ?b 6) (Call CInit (\<lambda>_. Call CStart (\<lambda>_. Return None))) (newReadable [0, 0, 0]) = Some (s, None)"
      "rs_trace s = wholeTrace [] False False [(7, 100), (8, 50)]"
    unfolding six by blast
  have "\<forall>i. PushedFront i \<notin> set (rs_trace s)" "taken (rs_trace s) = [7, 8]"
    by (auto simp: s(2) wholeTrace_def chunkTrace_def)
  then show ?thesis
    using readable_refines_queue [OF _ s(1)] s(1) by blast
qed

end
