(* ===== verification/AsyncWritable.thy ===== *)
theory AsyncWritable
  imports AsyncTrace "HOL-Library.Monad_Syntax"
begin

text \<open>
  \<open>AsyncWritableStream\<close> of \<open>Libraries/AsyncStreams/AsyncStreams.h\<close> and \<open>AsyncStreams.cpp\<close>: the state
  machine of a sink. What it calls (listeners, the callbacks of writes, and \<open>asyncWrite\<close>,
  \<open>canEndWritable\<close> and \<open>asyncDestroyWritable\<close>, which a sink implements) is an environment that may call
  the stream again. \<open>None\<close> is not returning: running out of fuel, or a failed release assertion.

  A request is a buffer and a callback, \<open>None\<close> where it is not valid. \<open>write\<close> of a view that is not in the
  pool yet is \<open>pushBuffer\<close> of the pool followed by \<open>write\<close>.
\<close>

section \<open>State\<close>

datatype writeState = WsStopped | WsWriting | WsEnding | WsEnded | WsDestroying | WsErrored

type_synonym writeRequest = "int \<times> nat option"

record writable =
  ws_state :: writeState
  ws_destroyed :: bool
  ws_autoDestroy :: bool
  ws_writeQueue :: "writeRequest circularQueue"
  ws_trace :: "streamEffect list"

definition ws_note :: "streamEffect \<Rightarrow> writable \<Rightarrow> writable" where
  "ws_note x s = s\<lparr>ws_trace := ws_trace s @ [x]\<rparr>"

definition ws_enter :: "writeState \<Rightarrow> writable \<Rightarrow> writable" where
  "ws_enter st s = s\<lparr>ws_state := st\<rparr>"

definition newWritable :: "writeRequest list \<Rightarrow> writable" where
  "newWritable requests = \<lparr>ws_state = WsStopped, ws_destroyed = False, ws_autoDestroy = True, ws_writeQueue = cq_new requests, ws_trace = []\<rparr>"

section \<open>What the stream calls\<close>

record writeEnv =
  on_werror :: "string \<Rightarrow> writable \<Rightarrow> writable option"
  on_drain :: "writable \<Rightarrow> writable option"
  on_finish :: "writable \<Rightarrow> writable option"
  on_wclose :: "writable \<Rightarrow> writable option"
  callback :: "nat \<Rightarrow> int \<Rightarrow> writable \<Rightarrow> writable option"
  async_write :: "int \<Rightarrow> nat option \<Rightarrow> writable \<Rightarrow> (writable \<times> string option) option"
  canEndWritable :: "writable \<Rightarrow> (writable \<times> bool) option"
  async_wdestroy :: "writable \<Rightarrow> (writable \<times> string option) option"

section \<open>Operations\<close>

definition ws_emitError :: "writeEnv \<Rightarrow> string \<Rightarrow> writable \<Rightarrow> writable option" where
  "ws_emitError e msg s = on_werror e msg (ws_note (ErrorEvent msg) s)"

definition tryAsync :: "writeEnv \<Rightarrow> writable \<times> string option \<Rightarrow> writable option" where
  "tryAsync e r = (case snd r of None \<Rightarrow> Some (fst r) | Some msg \<Rightarrow> ws_emitError e msg (fst r))"

definition ws_init :: "writable \<Rightarrow> writable \<times> string option" where
  "ws_init s =
     (if \<not> (ws_state s = WsStopped \<or> ws_state s = WsEnded)
      then (s, Some ''AsyncWritableStream::init - Can be called only in Stopped or Ended states'')
      else if \<not> cq_size (ws_writeQueue s) > 0 then (s, Some ''AsyncWritableStream::init - setWriteQueue not called'')
      else ((if ws_state s = WsEnded then ws_enter WsStopped s else s)\<lparr>ws_destroyed := False\<rparr>, None))"

definition finishedDestroyingWritable :: "writeEnv \<Rightarrow> writable \<Rightarrow> writable option" where
  "finishedDestroyingWritable e s = on_wclose e (ws_note CloseEvent (s\<lparr>ws_state := WsEnded, ws_destroyed := True\<rparr>))"

fun dropWriteQueue :: "nat \<Rightarrow> writable \<Rightarrow> writable" where
  "dropWriteQueue 0 s = s"
| "dropWriteQueue (Suc n) s =
     (case popFront (ws_writeQueue s) of
        (q, None) \<Rightarrow> s
      | (q, Some request) \<Rightarrow>
          dropWriteQueue n (ws_note (Unref (fst request)) (ws_note (Dropped (fst request)) (s\<lparr>ws_writeQueue := q\<rparr>))))"

definition ws_destroy :: "writeEnv \<Rightarrow> writable \<Rightarrow> writable option" where
  "ws_destroy e s =
     (let s1 = dropWriteQueue (cq_size (ws_writeQueue s)) s in
      if ws_state s1 = WsDestroying \<or> ws_state s1 = WsErrored then Some s1
      else
        do {
          (s2, res) \<leftarrow> async_wdestroy e (ws_enter WsDestroying s1);
          (case res of None \<Rightarrow> Some s2 | Some msg \<Rightarrow> ws_emitError e msg (ws_enter WsErrored s2))
        })"

text \<open>Taking the next request and writing it.\<close>

definition writeNext :: "writeEnv \<Rightarrow> writeRequest \<Rightarrow> writable \<Rightarrow> writable option" where
  "writeNext e request s =
     do {
       r \<leftarrow> async_write e (fst request) (snd request) s;
       s1 \<leftarrow> tryAsync e r;
       Some (ws_note (Unref (fst request)) s1)
     }"

definition resumeWriting :: "writeEnv \<Rightarrow> writable \<Rightarrow> writable option" where
  "resumeWriting e s =
     (case ws_state s of
        WsStopped \<Rightarrow>
          (case popFront (ws_writeQueue s) of
             (q, None) \<Rightarrow> Some s
           | (q, Some request) \<Rightarrow> writeNext e request (ws_note (Data (fst request)) (ws_enter WsWriting (s\<lparr>ws_writeQueue := q\<rparr>))))
      | WsEnding \<Rightarrow>
          do {
            (s1, canEnd) \<leftarrow> canEndWritable e s;
            if canEnd
            then (let s2 = ws_enter WsEnded s1 in if ws_autoDestroy s2 then ws_destroy e s2 else Some s2)
            else Some s1
          }
      | WsDestroying \<Rightarrow> ws_emitError e ''AsyncWritableStream::resumeWriting - destroy already called'' s
      | _ \<Rightarrow> Some s)"

definition ws_write :: "writeEnv \<Rightarrow> int \<Rightarrow> nat option \<Rightarrow> writable \<Rightarrow> (writable \<times> string option) option" where
  "ws_write e bufferID cb s =
     (if ws_state s = WsEnded \<or> ws_state s = WsEnding
      then Some (s, Some ''AsyncWritableStream::write - failed (ending or ended state)'')
      else
        (case pushBack (bufferID, cb) (ws_writeQueue s) of
           (_, False) \<Rightarrow> Some (s, Some ''AsyncWritableStream::write - queue is full'')
         | (q, True) \<Rightarrow>
             do {
               s1 \<leftarrow> resumeWriting e (ws_note (Ref bufferID) (ws_note (PushedBack bufferID) (s\<lparr>ws_writeQueue := q\<rparr>)));
               Some (s1, None)
             }))"

definition ws_unshift :: "int \<Rightarrow> nat option \<Rightarrow> writable \<Rightarrow> writable \<times> string option" where
  "ws_unshift bufferID cb s =
     (let s1 = ws_note (Ref bufferID) s in
      case pushFront (bufferID, cb) (ws_writeQueue s1) of
        (_, False) \<Rightarrow> (ws_note (Refused bufferID) s1, Some ''writable unshift failed'')
      | (q, True) \<Rightarrow> (ws_note (PushedFront bufferID) (s1\<lparr>ws_writeQueue := q\<rparr>), None))"

text \<open>
  The steps of \<open>finishedWriting\<close>: writing the next request, or finding the queue empty (the result is
  \<open>emitDrain\<close>); and the events at its end.
\<close>

definition nextOrIdle :: "writeEnv \<Rightarrow> writable \<Rightarrow> (writable \<times> bool) option" where
  "nextOrIdle e s =
     (case popFront (ws_writeQueue s) of
        (q, Some request) \<Rightarrow> map_option (\<lambda>s2. (s2, False)) (writeNext e request (ws_note (Data (fst request)) (s\<lparr>ws_writeQueue := q\<rparr>)))
      | (q, None) \<Rightarrow>
          (if ws_state s = WsEnding
           then do { (s2, canEnd) \<leftarrow> canEndWritable e s; Some (if canEnd then ws_enter WsEnded s2 else s2, False) }
           else Some (ws_enter WsStopped s, True)))"

definition emitFinish :: "writeEnv \<Rightarrow> writable \<Rightarrow> writable option" where
  "emitFinish e s = do { s1 \<leftarrow> on_finish e (ws_note FinishEvent s); if ws_autoDestroy s1 then ws_destroy e s1 else Some s1 }"

definition finishedWriting :: "writeEnv \<Rightarrow> int \<Rightarrow> nat option \<Rightarrow> string option \<Rightarrow> writable \<Rightarrow> writable option" where
  "finishedWriting e bufferID cb res s =
     (if \<not> (ws_state s = WsWriting \<or> ws_state s = WsEnding) then None
      else
        do {
          s1 \<leftarrow> (case res of None \<Rightarrow> Some s | Some msg \<Rightarrow> ws_emitError e msg s);
          (s2, emitDrain) \<leftarrow> nextOrIdle e s1;
          s3 \<leftarrow> (case cb of None \<Rightarrow> Some s2 | Some c \<Rightarrow> callback e c bufferID (ws_note (CallbackRun c bufferID) s2));
          if ws_state s3 = WsEnded then emitFinish e s3
          else if emitDrain then on_drain e (ws_note DrainEvent s3)
          else Some s3
        })"

definition ws_end :: "writeEnv \<Rightarrow> writable \<Rightarrow> writable option" where
  "ws_end e s =
     (case ws_state s of
        WsStopped \<Rightarrow>
          do {
            (s1, canEnd) \<leftarrow> canEndWritable e s;
            if canEnd
            then emitFinish e (ws_enter WsEnded s1)
            else Some (ws_enter WsEnding s1)
          }
      | WsWriting \<Rightarrow> Some (ws_enter WsEnding s)
      | WsDestroying \<Rightarrow> ws_emitError e ''AsyncWritableStream::end - destroy already called'' s
      | WsEnding \<Rightarrow> ws_emitError e ''AsyncWritableStream::end - already called'' s
      | WsEnded \<Rightarrow> ws_emitError e ''AsyncWritableStream::end - already called'' s
      | WsErrored \<Rightarrow> Some s)"

definition ws_stop :: "writable \<Rightarrow> writable" where
  "ws_stop s = ws_enter WsStopped s"

definition canAcceptWrite :: "writable \<Rightarrow> bool" where
  "canAcceptWrite s \<longleftrightarrow> (ws_state s = WsStopped \<or> ws_state s = WsWriting) \<and> \<not> isFull (ws_writeQueue s)"

definition isStillWriting :: "writable \<Rightarrow> bool" where
  "isStillWriting s \<longleftrightarrow> ws_state s = WsWriting \<or> ws_state s = WsEnding"

section \<open>Environments\<close>

datatype writeCall =
  CWrite int "nat option" | CPutBack int "nat option" | CFinished int "nat option" "string option" | CEnd | CResumeWriting | CStop
  | CDestroyWritable | CFinishedDestroyingWritable | CWriteError string | CInitWritable

datatype writeProgram = WReturn "string option" | WCall writeCall "writable \<Rightarrow> writeProgram"

definition doWrite :: "writeEnv \<Rightarrow> writeCall \<Rightarrow> writable \<Rightarrow> writable option" where
  "doWrite e c s =
     (case c of
        CWrite bufferID cb \<Rightarrow> map_option fst (ws_write e bufferID cb s)
      | CPutBack bufferID cb \<Rightarrow> Some (fst (ws_unshift bufferID cb s))
      | CFinished bufferID cb res \<Rightarrow> finishedWriting e bufferID cb res s
      | CEnd \<Rightarrow> ws_end e s
      | CResumeWriting \<Rightarrow> resumeWriting e s
      | CStop \<Rightarrow> Some (ws_stop s)
      | CDestroyWritable \<Rightarrow> ws_destroy e s
      | CFinishedDestroyingWritable \<Rightarrow> finishedDestroyingWritable e s
      | CWriteError msg \<Rightarrow> ws_emitError e msg s
      | CInitWritable \<Rightarrow> Some (fst (ws_init s)))"

primrec runWrites :: "writeEnv \<Rightarrow> writeProgram \<Rightarrow> writable \<Rightarrow> (writable \<times> string option) option" where
  "runWrites e (WReturn r) = (\<lambda>s. Some (s, r))"
| "runWrites e (WCall c k) = (\<lambda>s. do { s1 \<leftarrow> doWrite e c s; runWrites e (k s1) s1 })"

record writeBehaviour =
  w_error :: "string \<Rightarrow> writable \<Rightarrow> writeProgram"
  w_drain :: "writable \<Rightarrow> writeProgram"
  w_finish :: "writable \<Rightarrow> writeProgram"
  w_close :: "writable \<Rightarrow> writeProgram"
  w_callback :: "nat \<Rightarrow> int \<Rightarrow> writable \<Rightarrow> writeProgram"
  w_write :: "int \<Rightarrow> nat option \<Rightarrow> writable \<Rightarrow> writeProgram"
  w_canEnd :: "writable \<Rightarrow> writeProgram"
  w_destroy :: "writable \<Rightarrow> writeProgram"

text \<open>The environment of a behaviour whose calls nest at most \<open>n\<close> deep. \<open>canEndWritable\<close> returns true when its program returns no message.\<close>

primrec writeEnvAt :: "writeBehaviour \<Rightarrow> nat \<Rightarrow> writeEnv" where
  "writeEnvAt b 0 = \<lparr>on_werror = \<lambda>_ _. None, on_drain = \<lambda>_. None, on_finish = \<lambda>_. None, on_wclose = \<lambda>_. None, callback = \<lambda>_ _ _. None,
     async_write = \<lambda>_ _ _. None, canEndWritable = \<lambda>_. None, async_wdestroy = \<lambda>_. None\<rparr>"
| "writeEnvAt b (Suc n) =
     (let call = (\<lambda>p s. runWrites (writeEnvAt b n) p s) in
      \<lparr>on_werror = \<lambda>msg s. map_option fst (call (w_error b msg s) s), on_drain = \<lambda>s. map_option fst (call (w_drain b s) s),
       on_finish = \<lambda>s. map_option fst (call (w_finish b s) s), on_wclose = \<lambda>s. map_option fst (call (w_close b s) s),
       callback = \<lambda>c bufferID s. map_option fst (call (w_callback b c bufferID s) s),
       async_write = \<lambda>bufferID cb s. call (w_write b bufferID cb s) s,
       canEndWritable = \<lambda>s. map_option (\<lambda>r. (fst r, snd r = None)) (call (w_canEnd b s) s),
       async_wdestroy = \<lambda>s. call (w_destroy b s) s\<rparr>)"

end
