(* ===== verification/AsyncWritableProps.thy ===== *)
theory AsyncWritableProps
  imports AsyncWritable
begin

text \<open>
  The queue of a writable stream and the references it takes, whatever its listeners, its callbacks and
  its sink do.
\<close>

section \<open>The invariant\<close>

definition writable_inv :: "int multiset \<Rightarrow> writable \<Rightarrow> bool" where
  "writable_inv F s \<longleftrightarrow> cq_inv (ws_writeQueue s) \<and> queue_inv F (map fst (cq_elems (ws_writeQueue s))) (ws_trace s)"

lemma winv_enter [simp]: "writable_inv F (ws_enter st s) = writable_inv F s"
  by (simp add: writable_inv_def ws_enter_def)

lemma winv_destroyed [simp]: "writable_inv F (s\<lparr>ws_state := st\<rparr>) = writable_inv F s" "writable_inv F (s\<lparr>ws_destroyed := d\<rparr>) = writable_inv F s" "writable_inv F (s\<lparr>ws_state := st, ws_destroyed := d\<rparr>) = writable_inv F s"
  by (simp_all add: writable_inv_def)

lemma winv_note [simp]: "neutral x \<Longrightarrow> writable_inv F (ws_note x s) = writable_inv F s"
  by (simp add: writable_inv_def ws_note_def)

lemma winv_pop:
  assumes "writable_inv F s" "popFront (ws_writeQueue s) = (q, Some x)"
  shows "writable_inv (add_mset (fst x) F) (ws_note (Data (fst x)) (s\<lparr>ws_writeQueue := q\<rparr>))"
    "writable_inv (add_mset (fst x) F) (ws_note (Dropped (fst x)) (s\<lparr>ws_writeQueue := q\<rparr>))"
  using popFront_elems [OF _ assms(2)] queue_pop assms(1) by (simp_all add: writable_inv_def ws_note_def)

lemma winv_unref: "writable_inv (add_mset x F) s \<Longrightarrow> writable_inv F (ws_note (Unref x) s)"
  by (simp add: writable_inv_def ws_note_def queue_unref)

lemma winv_pushBack:
  assumes "writable_inv F s" "pushBack (x, c) (ws_writeQueue s) = (q, True)"
  shows "writable_inv F (ws_note (Ref x) (ws_note (PushedBack x) (s\<lparr>ws_writeQueue := q\<rparr>)))"
  using pushBack_elems [OF _ assms(2)] queue_pushBack assms(1) by (simp add: writable_inv_def ws_note_def)

lemma dropWriteQueue_inv: "writable_inv F s \<Longrightarrow> writable_inv F (dropWriteQueue n s)"
proof (induction n arbitrary: s)
  case (Suc n)
  then show ?case
    using winv_unref [OF winv_pop(2) [OF Suc.prems]] by (auto split: prod.splits option.splits)
qed simp

lemma unshift_writable_inv:
  assumes "writable_inv F s"
  shows "writable_inv F (fst (ws_unshift x c s))"
proof (cases "pushFront (x, c) (ws_writeQueue s)")
  case (Pair q ok)
  have refused: "writable_inv F (ws_note (Refused x) (ws_note (Ref x) s))"
    using assms queue_refused by (simp add: writable_inv_def ws_note_def)
  have "writable_inv F (ws_note (PushedFront x) (ws_note (Ref x) s\<lparr>ws_writeQueue := q\<rparr>))" if "ok"
    using assms pushFront_elems [of "ws_writeQueue s" "(x, c)" q] queue_pushFront(2) Pair that
    by (simp add: writable_inv_def ws_note_def)
  with refused show ?thesis
    using Pair by (cases ok) (simp_all add: ws_unshift_def ws_note_def)
qed

section \<open>The contract of an environment\<close>

definition wkept :: "(writable \<Rightarrow> writable option) \<Rightarrow> bool" where
  "wkept f \<longleftrightarrow> (\<forall>F s s'. writable_inv F s \<longrightarrow> f s = Some s' \<longrightarrow> writable_inv F s')"

lemma wkeptD: "wkept f \<Longrightarrow> f s = Some s' \<Longrightarrow> writable_inv F s \<Longrightarrow> writable_inv F s'"
  by (auto simp: wkept_def)

locale keeping_write_env =
  fixes e :: writeEnv
  assumes error: "wkept (on_werror e msg)" and drain: "wkept (on_drain e)" and finish: "wkept (on_finish e)" and closed: "wkept (on_wclose e)"
    and called: "wkept (callback e c i)" and writes: "wkept (\<lambda>s. map_option fst (async_write e i cb s))"
    and ends: "wkept (\<lambda>s. map_option fst (canEndWritable e s))" and destroys: "wkept (\<lambda>s. map_option fst (async_wdestroy e s))"
begin

lemma fst_keeps:
  "async_write e i cb s = Some (s', r) \<Longrightarrow> writable_inv F s \<Longrightarrow> writable_inv F s'"
  "canEndWritable e s = Some (s', b) \<Longrightarrow> writable_inv F s \<Longrightarrow> writable_inv F s'"
  "async_wdestroy e s = Some (s', r) \<Longrightarrow> writable_inv F s \<Longrightarrow> writable_inv F s'"
  using wkeptD [OF writes, of i cb s s'] wkeptD [OF ends, of s s'] wkeptD [OF destroys, of s s'] by simp_all

lemma emitError_keeps: "ws_emitError e msg s = Some s' \<Longrightarrow> writable_inv F s \<Longrightarrow> writable_inv F s'"
  using wkeptD [OF error] by (simp add: ws_emitError_def)

lemma tryAsync_keeps: "tryAsync e r = Some s' \<Longrightarrow> writable_inv F (fst r) \<Longrightarrow> writable_inv F s'"
  using emitError_keeps by (auto simp: tryAsync_def split: option.splits)

lemma finishedDestroying_keeps: "finishedDestroyingWritable e s = Some s' \<Longrightarrow> writable_inv F s \<Longrightarrow> writable_inv F s'"
  using wkeptD [OF closed, of "ws_note CloseEvent (s\<lparr>ws_state := WsEnded, ws_destroyed := True\<rparr>)" s'] by (simp add: finishedDestroyingWritable_def)

lemma destroy_keeps: "ws_destroy e s = Some s' \<Longrightarrow> writable_inv F s \<Longrightarrow> writable_inv F s'"
  using dropWriteQueue_inv [of F s "cq_size (ws_writeQueue s)"] emitError_keeps fst_keeps(3)
  by (fastforce simp: ws_destroy_def Let_def Option.bind_eq_Some_conv split: if_splits option.splits)

lemma writeNext_keeps:
  assumes "writeNext e x s = Some s'" "writable_inv (add_mset (fst x) F) s"
  shows "writable_inv F s'"
proof -
  obtain s1 r s2 where "async_write e (fst x) (snd x) s = Some (s1, r)" "tryAsync e (s1, r) = Some s2" "s' = ws_note (Unref (fst x)) s2"
    using assms(1) by (auto simp: writeNext_def Option.bind_eq_Some_conv)
  then show ?thesis
    using winv_unref tryAsync_keeps fst_keeps(1) assms(2) by (metis fst_conv)
qed

lemma resume_keeps:
  assumes "resumeWriting e s = Some s'" "writable_inv F s"
  shows "writable_inv F s'"
proof (cases "ws_state s")
  case WsStopped
  show ?thesis
  proof (cases "snd (popFront (ws_writeQueue s))")
    case None
    then show ?thesis
      using assms WsStopped by (auto simp: resumeWriting_def split: prod.splits)
  next
    case (Some x)
    then obtain q where q: "popFront (ws_writeQueue s) = (q, Some x)"
      by (metis prod.collapse)
    let ?s1 = "ws_note (Data (fst x)) (ws_enter WsWriting (s\<lparr>ws_writeQueue := q\<rparr>))"
    have "?s1 = ws_enter WsWriting (ws_note (Data (fst x)) (s\<lparr>ws_writeQueue := q\<rparr>))"
      by (simp add: ws_note_def ws_enter_def)
    then have "writable_inv (add_mset (fst x) F) ?s1"
      using winv_pop(1) [OF assms(2) q] by simp
    moreover have "writeNext e x ?s1 = Some s'"
      using assms(1) WsStopped q by (simp add: resumeWriting_def)
    ultimately show ?thesis
      using writeNext_keeps by blast
  qed
next
  case WsEnding
  obtain s1 b where "canEndWritable e s = Some (s1, b)"
      "s' = s1 \<or> ws_destroy e (ws_enter WsEnded s1) = Some s' \<or> s' = ws_enter WsEnded s1"
    using assms(1) WsEnding by (auto simp: resumeWriting_def Let_def Option.bind_eq_Some_conv split: if_splits)
  then show ?thesis
    using fst_keeps(2) destroy_keeps winv_enter assms(2) by metis
qed (use assms emitError_keeps in \<open>auto simp: resumeWriting_def\<close>)

lemma write_keeps: "ws_write e x c s = Some (s', r) \<Longrightarrow> writable_inv F s \<Longrightarrow> writable_inv F s'"
  using winv_pushBack [of F s x c] resume_keeps
  by (auto simp: ws_write_def Option.bind_eq_Some_conv split: if_splits prod.splits bool.splits)

lemma finish_keeps:
  assumes "emitFinish e s = Some s'" "writable_inv F s"
  shows "writable_inv F s'"
proof -
  obtain s1 where s1: "on_finish e (ws_note FinishEvent s) = Some s1" "(if ws_autoDestroy s1 then ws_destroy e s1 else Some s1) = Some s'"
    using assms(1) unfolding emitFinish_def Option.bind_eq_Some_conv by blast
  have "writable_inv F s1"
    using wkeptD [OF finish s1(1)] assms(2) by simp
  then show ?thesis
    using s1(2) destroy_keeps by (auto split: if_splits)
qed

lemma end_keeps:
  assumes "ws_end e s = Some s'" "writable_inv F s"
  shows "writable_inv F s'"
proof (cases "ws_state s")
  case WsStopped
  obtain s1 b where s1: "canEndWritable e s = Some (s1, b)"
      "s' = ws_enter WsEnding s1 \<or> emitFinish e (ws_enter WsEnded s1) = Some s'"
    using assms(1) WsStopped by (auto simp: ws_end_def Option.bind_eq_Some_conv split: if_splits)
  have "writable_inv F s1"
    using fst_keeps(2) [OF s1(1) assms(2)] .
  then show ?thesis
    using s1(2) finish_keeps by auto
qed (use assms emitError_keeps in \<open>auto simp: ws_end_def\<close>)

lemma nextOrIdle_keeps:
  assumes "nextOrIdle e s = Some (s', d)" "writable_inv F s"
  shows "writable_inv F s'"
proof (cases "snd (popFront (ws_writeQueue s))")
  case None
  then show ?thesis
    using assms fst_keeps(2) by (auto simp: nextOrIdle_def Option.bind_eq_Some_conv split: prod.splits if_splits)
next
  case (Some x)
  then obtain q where q: "popFront (ws_writeQueue s) = (q, Some x)"
    by (metis prod.collapse)
  then have "writeNext e x (ws_note (Data (fst x)) (s\<lparr>ws_writeQueue := q\<rparr>)) = Some s'"
    using assms(1) by (auto simp: nextOrIdle_def)
  then show ?thesis
    using winv_pop(1) [OF assms(2) q] writeNext_keeps by blast
qed

lemma finished_keeps:
  assumes "finishedWriting e x c r s = Some s'" "writable_inv F s"
  shows "writable_inv F s'"
proof -
  have run: "do {
        s1 \<leftarrow> (case r of None \<Rightarrow> Some s | Some msg \<Rightarrow> ws_emitError e msg s);
        (s2, d) \<leftarrow> nextOrIdle e s1;
        s3 \<leftarrow> (case c of None \<Rightarrow> Some s2 | Some k \<Rightarrow> callback e k x (ws_note (CallbackRun k x) s2));
        if ws_state s3 = WsEnded then emitFinish e s3 else if d then on_drain e (ws_note DrainEvent s3) else Some s3
      } = Some s'"
    using assms(1) by (simp add: finishedWriting_def split: if_split_asm)
  obtain s1 where s1: "(case r of None \<Rightarrow> Some s | Some msg \<Rightarrow> ws_emitError e msg s) = Some s1"
    using run by (cases "case r of None \<Rightarrow> Some s | Some msg \<Rightarrow> ws_emitError e msg s") simp_all
  obtain s2 d where s2: "nextOrIdle e s1 = Some (s2, d)"
    using run unfolding s1 by (cases "nextOrIdle e s1") auto
  obtain s3 where s3: "(case c of None \<Rightarrow> Some s2 | Some k \<Rightarrow> callback e k x (ws_note (CallbackRun k x) s2)) = Some s3"
    using run unfolding s1 by (cases "case c of None \<Rightarrow> Some s2 | Some k \<Rightarrow> callback e k x (ws_note (CallbackRun k x) s2)") (simp_all add: s2)
  have last: "(if ws_state s3 = WsEnded then emitFinish e s3 else if d then on_drain e (ws_note DrainEvent s3) else Some s3) = Some s'"
    using run unfolding s1 by (simp add: s2 s3)
  have "writable_inv F s1"
    using s1 assms(2) emitError_keeps by (cases r) auto
  with s2 have "writable_inv F s2"
    by (rule nextOrIdle_keeps)
  then have i3: "writable_inv F s3"
    using s3 wkeptD [OF called] by (cases c) auto
  show ?thesis
    using last i3 finish_keeps wkeptD [OF drain, of "ws_note DrainEvent s3" s'] by (auto split: if_splits)
qed

lemma init_keeps: "writable_inv F s \<Longrightarrow> writable_inv F (fst (ws_init s))"
  by (simp add: ws_init_def)

lemma doWrite_keeps: "doWrite e c s = Some s' \<Longrightarrow> writable_inv F s \<Longrightarrow> writable_inv F s'"
  using write_keeps unshift_writable_inv finished_keeps end_keeps resume_keeps destroy_keeps finishedDestroying_keeps emitError_keeps init_keeps
  by (cases c) (auto simp: doWrite_def ws_stop_def)

lemma runWrites_keeps: "runWrites e p s = Some (s', r) \<Longrightarrow> writable_inv F s \<Longrightarrow> writable_inv F s'"
proof (induction p arbitrary: s)
  case (WCall c k)
  from WCall.prems(1) obtain s1 where "doWrite e c s = Some s1" "runWrites e (k s1) s1 = Some (s', r)"
    by (auto simp: Option.bind_eq_Some_conv)
  then show ?case
    using WCall.IH [OF rangeI] doWrite_keeps WCall.prems(2) by blast
qed simp

end

lemma writes_none: "keeping_write_env (writeEnvAt b 0)"
  by unfold_locales (simp_all add: wkept_def)

lemma writes_next:
  assumes "keeping_write_env (writeEnvAt b n)"
  shows "keeping_write_env (writeEnvAt b (Suc n))"
  by unfold_locales (auto simp: wkept_def Let_def dest: keeping_write_env.runWrites_keeps [OF assms])

lemma writes_every: "keeping_write_env (writeEnvAt b n)"
  by (induction n) (simp_all only: writes_none writes_next)

interpretation writing: keeping_write_env "writeEnvAt b n" for b n
  by (rule writes_every)

end
