(* ===== verification/AsyncWritableTheorems.thy ===== *)
theory AsyncWritableTheorems
  imports AsyncWritableProps
begin

text \<open>
  Runs of a writable stream: what is written goes to the sink in order and every write is reported; how
  a stream ends; and two ways in which its end is lost.
\<close>

section \<open>What goes in and what comes out\<close>

text \<open>
  C8: Whatever the listeners, the callbacks and the sink of a writable stream do, calling the stream as
  often and as deeply nested as they like: its queue is the abstract queue that its trace describes; the
  stream has a reference to a buffer for each time it is queued, and besides those only one for each
  \<open>unshift\<close> that failed, which nothing drops; and if nothing is put back, the buffers written or dropped,
  followed by those still queued, are exactly the buffers accepted, in order.
\<close>

theorem writable_refines_queue:
  assumes "requests \<noteq> []" "runWrites (writeEnvAt b n) p (newWritable requests) = Some (s, r)"
  shows "replay (ws_trace s) = Some (map fst (cq_elems (ws_writeQueue s))) \<and>
    (\<forall>i. count_list (ws_trace s) (Ref i) =
      count_list (ws_trace s) (Unref i) + count_list (map fst (cq_elems (ws_writeQueue s))) i + count_list (ws_trace s) (Refused i)) \<and>
    ((\<forall>i. PushedFront i \<notin> set (ws_trace s)) \<longrightarrow> queued (ws_trace s) = taken (ws_trace s) @ map fst (cq_elems (ws_writeQueue s)))"
proof -
  have "writable_inv {#} (newWritable requests)"
    using cq_new_elems [OF assms(1)] by (simp add: writable_inv_def newWritable_def queue_new)
  from writing.runWrites_keeps [OF assms(2) this] show ?thesis
    using queue_fifo [of "{#}"] by (simp add: writable_inv_def queue_inv_def)
qed

section \<open>A sink that finishes its writes later\<close>

definition laterSink :: writeBehaviour where
  "laterSink =
     \<lparr>w_error = \<lambda>_ _. WReturn None, w_drain = \<lambda>_. WReturn None, w_finish = \<lambda>_. WReturn None, w_close = \<lambda>_. WReturn None,
      w_callback = \<lambda>_ _ _. WReturn None, w_write = \<lambda>_ _ _. WReturn None, w_canEnd = \<lambda>_. WReturn None,
      w_destroy = \<lambda>_. WCall CFinishedDestroyingWritable (\<lambda>_. WReturn None)\<rparr>"

text \<open>The state of a stream, without the layout of its ring.\<close>

definition looks :: "writable \<Rightarrow> nat \<Rightarrow> writeState \<Rightarrow> writeRequest list \<Rightarrow> streamEffect list \<Rightarrow> bool" where
  "looks s cap st xs t \<longleftrightarrow> ws_state s = st \<and> ws_autoDestroy s \<and> cq_inv (ws_writeQueue s) \<and> cq_elems (ws_writeQueue s) = xs \<and>
     cq_capacity (ws_writeQueue s) = cap \<and> ws_trace s = t"

lemma looks_pop:
  assumes "looks s cap st (x # xs) t"
  shows "\<exists>q. popFront (ws_writeQueue s) = (q, Some x) \<and> cq_inv q \<and> cq_elems q = xs \<and> cq_capacity q = cap"
  using ring.pop_Cons [of "ws_writeQueue s" x xs] assms by (auto simp: looks_def)

lemma looks_empty: "looks s cap st [] t \<Longrightarrow> popFront (ws_writeQueue s) = (ws_writeQueue s, None)"
  using ring.pop_empty [of "ws_writeQueue s"] by (auto simp: looks_def)

lemma looks_push:
  assumes "looks s cap st xs t" "length xs < cap"
  shows "\<exists>q. pushBack x (ws_writeQueue s) = (q, True) \<and> cq_inv q \<and> cq_elems q = xs @ [x] \<and> cq_capacity q = cap"
  using ring.push_back_room [of "ws_writeQueue s" x] assms by (auto simp: looks_def simp flip: length_cq_elems)

definition startTrace :: "writeRequest \<Rightarrow> streamEffect list" where
  "startTrace x = [Data (fst x), Unref (fst x)]"

definition queueTrace :: "writeRequest \<Rightarrow> streamEffect list" where
  "queueTrace x = [PushedBack (fst x), Ref (fst x)]"

definition reportTrace :: "writeRequest \<Rightarrow> streamEffect list" where
  "reportTrace x = (case snd x of None \<Rightarrow> [] | Some c \<Rightarrow> [CallbackRun c (fst x)])"

definition backTrace :: "writeRequest \<Rightarrow> streamEffect list" where
  "backTrace x = [Data (fst x), Ref (fst x), PushedFront (fst x), Unref (fst x)]"

definition dropTrace :: "writeRequest list \<Rightarrow> streamEffect list" where
  "dropTrace xs = concat (map (\<lambda>x. [Dropped (fst x), Unref (fst x)]) xs)"

lemma dropWriteQueue_looks:
  "looks s cap st xs t \<Longrightarrow> length xs \<le> n \<Longrightarrow> looks (dropWriteQueue n s) cap st [] (t @ dropTrace xs)"
proof (induction n arbitrary: s xs t)
  case (Suc n)
  show ?case
  proof (cases xs)
    case Nil
    then show ?thesis
      using looks_empty Suc.prems by (simp add: dropTrace_def)
  next
    case (Cons x ys)
    obtain q where q: "popFront (ws_writeQueue s) = (q, Some x)" "cq_inv q" "cq_elems q = ys" "cq_capacity q = cap"
      using looks_pop Suc.prems(1) Cons by blast
    let ?s1 = "ws_note (Unref (fst x)) (ws_note (Dropped (fst x)) (s\<lparr>ws_writeQueue := q\<rparr>))"
    have "looks ?s1 cap st ys (t @ [Dropped (fst x), Unref (fst x)])"
      using Suc.prems(1) q by (simp add: looks_def ws_note_def)
    from Suc.IH [OF this] show ?thesis
      using Suc.prems(2) q(1) Cons by (simp add: dropTrace_def)
  qed
qed (simp add: dropTrace_def)

text \<open>Programs that write a list of requests, and that report each of them as written.\<close>

fun writeAll :: "writeRequest list \<Rightarrow> writeProgram \<Rightarrow> writeProgram" where
  "writeAll [] k = k"
| "writeAll (x # xs) k = WCall (CWrite (fst x) (snd x)) (\<lambda>_. writeAll xs k)"

fun finishAll :: "writeRequest list \<Rightarrow> writeProgram" where
  "finishAll [] = WReturn None"
| "finishAll (x # xs) = WCall (CFinished (fst x) (snd x) None) (\<lambda>_. finishAll xs)"

text \<open>
  Each write that is reported starts the next one before its callback runs. After the last one the stream
  finishes (\<open>finishTrace\<close>), or is idle (\<open>idleTrace\<close>), or the sink gives the next one back (\<open>stopTrace\<close>).
\<close>

fun finishTrace :: "writeRequest list \<Rightarrow> streamEffect list" where
  "finishTrace [] = []"
| "finishTrace [x] = reportTrace x @ [FinishEvent, CloseEvent]"
| "finishTrace (x # y # ys) = startTrace y @ reportTrace x @ finishTrace (y # ys)"

fun idleTrace :: "writeRequest list \<Rightarrow> streamEffect list" where
  "idleTrace [] = []"
| "idleTrace [x] = reportTrace x @ [DrainEvent]"
| "idleTrace (x # y # ys) = startTrace y @ reportTrace x @ idleTrace (y # ys)"

fun stopTrace :: "writeRequest \<Rightarrow> writeRequest list \<Rightarrow> streamEffect list" where
  "stopTrace z [] = []"
| "stopTrace z [x] = backTrace z @ reportTrace x"
| "stopTrace z (x # y # ys) = startTrace y @ reportTrace x @ stopTrace z (y # ys)"

section \<open>Sinks that can end at any time\<close>

text \<open>
  A sink whose listeners and callbacks do nothing and that can end: it takes up writes as \<open>takes\<close> says, of
  the buffer and what has happened so far, and finishes them later.
\<close>

locale quiet_sink =
  fixes e :: writeEnv and takes :: "int \<Rightarrow> streamEffect list \<Rightarrow> bool"
  assumes takes_up: "takes i (ws_trace s) \<Longrightarrow> async_write e i c s = Some (s, None)"
    and can_end: "canEndWritable e s = Some (s, True)"
    and finished: "on_finish e s = Some s" and drained: "on_drain e s = Some s" and called: "callback e cb i s = Some s"
    and destroyed: "async_wdestroy e s = Some (ws_note CloseEvent (s\<lparr>ws_state := WsEnded, ws_destroyed := True\<rparr>), None)"
begin

lemma writeNext_takes: "takes (fst x) (ws_trace s) \<Longrightarrow> writeNext e x s = Some (ws_note (Unref (fst x)) s)"
  by (simp add: writeNext_def tryAsync_def takes_up)

lemma resume_next:
  assumes "looks s cap WsStopped (y # ys) t" "takes (fst y) (t @ [Data (fst y)])"
  shows "\<exists>s'. resumeWriting e s = Some s' \<and> looks s' cap WsWriting ys (t @ startTrace y)"
proof -
  obtain q where "popFront (ws_writeQueue s) = (q, Some y)" "cq_inv q" "cq_elems q = ys" "cq_capacity q = cap"
    using looks_pop [OF assms(1)] by blast
  then show ?thesis
    using assms by (auto simp: resumeWriting_def writeNext_takes looks_def ws_note_def ws_enter_def startTrace_def)
qed

lemma write_first:
  assumes "looks s cap WsStopped [] t" "0 < cap" "takes (fst x) (t @ queueTrace x @ [Data (fst x)])"
  shows "\<exists>s'. doWrite e (CWrite (fst x) (snd x)) s = Some s' \<and> looks s' cap WsWriting [] (t @ queueTrace x @ startTrace x)"
proof -
  obtain q where q: "pushBack x (ws_writeQueue s) = (q, True)" "cq_inv q" "cq_elems q = [x]" "cq_capacity q = cap"
    using looks_push [OF assms(1), of x] assms(2) by auto
  let ?s1 = "ws_note (Ref (fst x)) (ws_note (PushedBack (fst x)) (s\<lparr>ws_writeQueue := q\<rparr>))"
  have "looks ?s1 cap WsStopped [x] (t @ queueTrace x)"
    using assms(1) q by (simp add: looks_def ws_note_def queueTrace_def)
  from resume_next [OF this] show ?thesis
    using assms(1,3) q(1) by (auto simp: doWrite_def ws_write_def looks_def)
qed

lemma write_more:
  assumes "looks s cap WsWriting xs t" "length xs < cap"
  shows "\<exists>s'. doWrite e (CWrite (fst x) (snd x)) s = Some s' \<and> looks s' cap WsWriting (xs @ [x]) (t @ queueTrace x)"
proof -
  obtain q where "pushBack x (ws_writeQueue s) = (q, True)" "cq_inv q" "cq_elems q = xs @ [x]" "cq_capacity q = cap"
    using looks_push [OF assms] by blast
  then show ?thesis
    using assms(1) by (auto simp: doWrite_def ws_write_def resumeWriting_def looks_def ws_note_def queueTrace_def)
qed

lemma end_writing: "looks s cap WsWriting xs t \<Longrightarrow> \<exists>s'. doWrite e CEnd s = Some s' \<and> looks s' cap WsEnding xs t"
  by (simp add: doWrite_def ws_end_def looks_def ws_enter_def)

lemma finish_one:
  assumes "looks s cap st (y # ys) t" "isStillWriting s" "takes (fst y) (t @ [Data (fst y)])"
  shows "\<exists>s'. doWrite e (CFinished (fst x) (snd x) None) s = Some s' \<and> looks s' cap st ys (t @ startTrace y @ reportTrace x)"
proof -
  obtain q where "popFront (ws_writeQueue s) = (q, Some y)" "cq_inv q" "cq_elems q = ys" "cq_capacity q = cap"
    using looks_pop [OF assms(1)] by blast
  then show ?thesis
    using assms
    by (cases "snd x")
      (auto simp: doWrite_def finishedWriting_def nextOrIdle_def writeNext_takes called looks_def ws_note_def startTrace_def reportTrace_def
        isStillWriting_def)
qed

lemma finish_idle:
  assumes "looks s cap WsWriting [] t"
  shows "\<exists>s'. doWrite e (CFinished (fst x) (snd x) None) s = Some s' \<and> looks s' cap WsStopped [] (t @ idleTrace [x])"
  using assms looks_empty [OF assms]
  by (cases "snd x")
    (auto simp: doWrite_def finishedWriting_def nextOrIdle_def called drained looks_def ws_note_def ws_enter_def reportTrace_def)

text \<open>The sink gives back the next buffer and stops.\<close>

lemma finish_put_back:
  assumes "looks s cap WsEnding (y # ys) t" "\<And>s1. ws_trace s1 = t @ [Data (fst y)] \<Longrightarrow>
      async_write e (fst y) (snd y) s1 = Some (ws_stop (fst (ws_unshift (fst y) (snd y) s1)), None)"
  shows "\<exists>s'. doWrite e (CFinished (fst x) (snd x) None) s = Some s' \<and> looks s' cap WsStopped (y # ys) (t @ backTrace y @ reportTrace x)"
proof -
  obtain q where q: "popFront (ws_writeQueue s) = (q, Some y)" "cq_inv q" "cq_elems q = ys" "cq_capacity q = cap"
    using looks_pop [OF assms(1)] by blast
  have "length ys < cap"
    using assms(1) ring.bounded [of "ws_writeQueue s"] by (auto simp: looks_def simp flip: length_cq_elems)
  then obtain q' where q': "pushFront y q = (q', True)" "cq_inv q'" "cq_elems q' = y # ys" "cq_capacity q' = cap"
    using ring.push_front_room [of q y] q by (auto simp flip: length_cq_elems)
  then show ?thesis
    using assms(1) q(1) assms(2) [of "ws_note (Data (fst y)) (s\<lparr>ws_writeQueue := q\<rparr>)"]
    by (cases "snd x")
      (auto simp: doWrite_def finishedWriting_def nextOrIdle_def writeNext_def tryAsync_def ws_unshift_def ws_stop_def called looks_def ws_note_def
        ws_enter_def backTrace_def reportTrace_def)
qed

lemma destroy_looks:
  assumes "looks s cap st xs t" "st \<noteq> WsDestroying" "st \<noteq> WsErrored"
  shows "\<exists>s'. ws_destroy e s = Some s' \<and> ws_destroyed s' \<and> looks s' cap WsEnded [] (t @ dropTrace xs @ [CloseEvent])"
proof -
  have "length xs \<le> cq_size (ws_writeQueue s)"
    using assms(1) ring.bounded [of "ws_writeQueue s"] by (auto simp: looks_def cq_capacity_def cq_size_def)
  from dropWriteQueue_looks [OF assms(1) this] show ?thesis
    using assms(2,3) by (auto simp: ws_destroy_def Let_def looks_def ws_enter_def ws_note_def destroyed)
qed

lemma finish_last:
  assumes "looks s cap WsEnding [] t"
  shows "\<exists>s'. doWrite e (CFinished (fst x) (snd x) None) s = Some s' \<and> ws_destroyed s' \<and> looks s' cap WsEnded [] (t @ finishTrace [x])"
proof -
  define s2 where "s2 = ws_enter WsEnded s"
  define s3 where "s3 = (case snd x of None \<Rightarrow> s2 | Some c \<Rightarrow> ws_note (CallbackRun c (fst x)) s2)"
  have looks3: "looks (ws_note FinishEvent s3) cap WsEnded [] (t @ reportTrace x @ [FinishEvent])"
    using assms by (cases "snd x") (simp_all add: s3_def s2_def looks_def ws_note_def ws_enter_def reportTrace_def)
  have st: "ws_state s3 = WsEnded" "ws_autoDestroy (ws_note FinishEvent s3)"
    using looks3 by (simp_all add: looks_def ws_note_def)
  from destroy_looks [OF looks3] obtain s' where
    s': "ws_destroy e (ws_note FinishEvent s3) = Some s'" "ws_destroyed s'"
      "looks s' cap WsEnded [] (t @ reportTrace x @ [FinishEvent, CloseEvent])"
    by (auto simp: dropTrace_def)
  have "nextOrIdle e s = Some (s2, False)"
    using assms looks_empty [OF assms] by (simp add: nextOrIdle_def s2_def looks_def can_end)
  moreover have "(case snd x of None \<Rightarrow> Some s2 | Some c \<Rightarrow> callback e c (fst x) (ws_note (CallbackRun c (fst x)) s2)) = Some s3"
    by (simp add: s3_def called split: option.splits)
  moreover have "emitFinish e s3 = Some s'"
    using s'(1) st(2) by (simp add: emitFinish_def finished)
  ultimately have "doWrite e (CFinished (fst x) (snd x) None) s = Some s'"
    using assms st(1) by (simp add: doWrite_def finishedWriting_def looks_def)
  then show ?thesis
    using s' by auto
qed

lemma writeAll_runs:
  "looks s cap WsWriting xs t \<Longrightarrow> length xs + length ys \<le> cap \<Longrightarrow>
   \<exists>s'. runWrites e (writeAll ys p) s = runWrites e p s' \<and> looks s' cap WsWriting (xs @ ys) (t @ concat (map queueTrace ys))"
proof (induction ys arbitrary: s xs t)
  case (Cons y ys)
  from Cons.prems(2) have "length xs < cap"
    by simp
  then obtain s1 where s1: "doWrite e (CWrite (fst y) (snd y)) s = Some s1" "looks s1 cap WsWriting (xs @ [y]) (t @ queueTrace y)"
    using write_more [OF Cons.prems(1)] by blast
  from Cons.IH [OF s1(2)] Cons.prems(2) s1(1) show ?case
    by simp
qed auto

lemma finishAll_ends:
  "looks s cap WsEnding xs t \<Longrightarrow> \<forall>y\<in>set xs. \<forall>u. takes (fst y) (t @ u) \<Longrightarrow>
   \<exists>s'. runWrites e (finishAll (x # xs)) s = Some (s', None) \<and> ws_destroyed s' \<and> looks s' cap WsEnded [] (t @ finishTrace (x # xs))"
proof (induction xs arbitrary: x s t)
  case Nil
  from finish_last [OF Nil(1), of x] show ?case
    by auto
next
  case (Cons y ys)
  have "isStillWriting s"
    using Cons.prems(1) by (simp add: looks_def isStillWriting_def)
  then obtain s1 where s1: "doWrite e (CFinished (fst x) (snd x) None) s = Some s1"
      "looks s1 cap WsEnding ys (t @ startTrace y @ reportTrace x)"
    using finish_one [OF Cons.prems(1), of x] Cons.prems(2) by auto
  have "\<forall>y'\<in>set ys. \<forall>u. takes (fst y') ((t @ startTrace y @ reportTrace x) @ u)"
    using Cons.prems(2) by simp
  from Cons.IH [OF s1(2) this, of y] s1(1) show ?case
    by simp
qed

lemma finishAll_idles:
  "looks s cap WsWriting xs t \<Longrightarrow> \<forall>y\<in>set xs. \<forall>u. takes (fst y) (t @ u) \<Longrightarrow>
   \<exists>s'. runWrites e (finishAll (x # xs)) s = Some (s', None) \<and> looks s' cap WsStopped [] (t @ idleTrace (x # xs))"
proof (induction xs arbitrary: x s t)
  case Nil
  from finish_idle [OF Nil(1), of x] show ?case
    by auto
next
  case (Cons y ys)
  have "isStillWriting s"
    using Cons.prems(1) by (simp add: looks_def isStillWriting_def)
  then obtain s1 where s1: "doWrite e (CFinished (fst x) (snd x) None) s = Some s1"
      "looks s1 cap WsWriting ys (t @ startTrace y @ reportTrace x)"
    using finish_one [OF Cons.prems(1), of x] Cons.prems(2) by auto
  have "\<forall>y'\<in>set ys. \<forall>u. takes (fst y') ((t @ startTrace y @ reportTrace x) @ u)"
    using Cons.prems(2) by simp
  from Cons.IH [OF s1(2) this, of y] s1(1) show ?case
    by simp
qed

lemma finishAll_stops:
  "looks s cap WsEnding (xs @ z # ys) t \<Longrightarrow> \<forall>y\<in>set xs. \<forall>u. takes (fst y) (t @ u) \<Longrightarrow>
   \<forall>s1 u. ws_trace s1 = t @ u \<and> PushedFront (fst z) \<notin> set u \<longrightarrow>
     async_write e (fst z) (snd z) s1 = Some (ws_stop (fst (ws_unshift (fst z) (snd z) s1)), None) \<Longrightarrow>
   \<exists>s'. runWrites e (finishAll (x # xs)) s = Some (s', None) \<and> looks s' cap WsStopped (z # ys) (t @ stopTrace z (x # xs))"
proof (induction xs arbitrary: x s t)
  case Nil
  have "looks s cap WsEnding (z # ys) t"
    using Nil(1) by simp
  moreover have "async_write e (fst z) (snd z) s1 = Some (ws_stop (fst (ws_unshift (fst z) (snd z) s1)), None)"
    if "ws_trace s1 = t @ [Data (fst z)]" for s1
    using Nil(3) that by simp
  ultimately show ?case
    using finish_put_back [of s cap z ys t x] by auto
next
  case (Cons y xs)
  have "isStillWriting s" "looks s cap WsEnding (y # xs @ z # ys) t"
    using Cons.prems(1) by (simp_all add: looks_def isStillWriting_def)
  then obtain s1 where s1: "doWrite e (CFinished (fst x) (snd x) None) s = Some s1"
      "looks s1 cap WsEnding (xs @ z # ys) (t @ startTrace y @ reportTrace x)"
    using finish_one [of s cap WsEnding y "xs @ z # ys" t x] Cons.prems(2) by auto
  have takes: "\<forall>y'\<in>set xs. \<forall>u. takes (fst y') ((t @ startTrace y @ reportTrace x) @ u)"
    using Cons.prems(2) by simp
  have front: "PushedFront (fst z) \<notin> set (startTrace y @ reportTrace x)"
    by (simp add: startTrace_def reportTrace_def split: option.splits)
  have "\<forall>s2 u. ws_trace s2 = (t @ startTrace y @ reportTrace x) @ u \<and> PushedFront (fst z) \<notin> set u \<longrightarrow>
      async_write e (fst z) (snd z) s2 = Some (ws_stop (fst (ws_unshift (fst z) (snd z) s2)), None)"
    using Cons.prems(3) [rule_format, of _ "(startTrace y @ reportTrace x) @ _"] front by auto
  from Cons.IH [OF s1(2) takes this, of y] s1(1) show ?case
    by simp
qed

lemma writes_and_end:
  assumes "length xs < length requests" "2 \<le> length requests" "takes (fst x) (queueTrace x @ [Data (fst x)])"
  shows "\<exists>s. runWrites e (WCall CInitWritable (\<lambda>_. writeAll (x # xs) (WCall CEnd (\<lambda>_. p)))) (newWritable requests) = runWrites e p s \<and>
    looks s (length requests - 1) WsEnding xs (queueTrace x @ startTrace x @ concat (map queueTrace xs))"
proof -
  have "requests \<noteq> []"
    using assms(2) by auto
  then have "looks (fst (ws_init (newWritable requests))) (length requests - 1) WsStopped [] []"
    using cq_new_elems [of requests] by (simp add: looks_def ws_init_def newWritable_def cq_size_def cq_new_def cq_capacity_def)
  then obtain s1 where s1: "doWrite e (CWrite (fst x) (snd x)) (fst (ws_init (newWritable requests))) = Some s1"
      "looks s1 (length requests - 1) WsWriting [] (queueTrace x @ startTrace x)"
    using write_first [of _ "length requests - 1" "[]" x] assms(2,3) by auto
  have fits: "length ([] :: writeRequest list) + length xs \<le> length requests - 1"
    using assms(1) by simp
  obtain s2 where s2: "runWrites e (writeAll xs (WCall CEnd (\<lambda>_. p))) s1 = runWrites e (WCall CEnd (\<lambda>_. p)) s2"
      "looks s2 (length requests - 1) WsWriting xs (queueTrace x @ startTrace x @ concat (map queueTrace xs))"
    using writeAll_runs [OF s1(2) fits, of "WCall CEnd (\<lambda>_. p)"] by (auto simp del: runWrites.simps)
  obtain s3 where s3: "doWrite e CEnd s2 = Some s3"
      "looks s3 (length requests - 1) WsEnding xs (queueTrace x @ startTrace x @ concat (map queueTrace xs))"
    using end_writing [OF s2(2)] by blast
  have "doWrite e CInitWritable (newWritable requests) = Some (fst (ws_init (newWritable requests)))"
    by (simp add: doWrite_def)
  then show ?thesis
    using s1(1) s2(1) s3 by auto
qed

end

text \<open>A sink that gives a buffer back once and stops, as transforms do that have no memory for their output.\<close>

definition stoppingSink :: "int \<Rightarrow> writeBehaviour" where
  "stoppingSink j =
     laterSink\<lparr>w_write := \<lambda>i c s.
       if i = j \<and> PushedFront j \<notin> set (ws_trace s) then WCall (CPutBack i c) (\<lambda>_. WCall CStop (\<lambda>_. WReturn None)) else WReturn None\<rparr>"

interpretation later: quiet_sink "writeEnvAt laterSink (Suc (Suc k))" "\<lambda>_ _. True" for k
  by unfold_locales (simp_all add: Let_def laterSink_def doWrite_def finishedDestroyingWritable_def)

interpretation stopping: quiet_sink "writeEnvAt (stoppingSink j) (Suc (Suc k))" "\<lambda>i t. i \<noteq> j \<or> PushedFront j \<in> set t" for j k
  by unfold_locales (auto simp: Let_def stoppingSink_def laterSink_def doWrite_def finishedDestroyingWritable_def)

lemma stopping_gives_back:
  "PushedFront j \<notin> set (ws_trace s) \<Longrightarrow>
   async_write (writeEnvAt (stoppingSink j) (Suc (Suc k))) j c s = Some (ws_stop (fst (ws_unshift j c s)), None)"
  by (simp add: Let_def stoppingSink_def doWrite_def)

declare writeEnvAt.simps [simp del]

abbreviation laterEnv :: "nat \<Rightarrow> writeEnv" where
  "laterEnv k \<equiv> writeEnvAt laterSink (Suc (Suc k))"

text \<open>
  C18: Requests that fit into the queue and one more are written to a sink that finishes its writes later,
  then the stream is ended, then the writes finish: the run returns, each buffer has been handed to the
  sink once, in order, the next one before the callback of the last one runs, every callback has run once,
  and after the last one the stream has emitted finish and close, once each, and is ended and destroyed.
\<close>

theorem ended_stream_writes_everything:
  assumes "reqs \<noteq> []" "length reqs \<le> length requests" "2 \<le> length requests" "2 \<le> n"
  shows "\<exists>s. runWrites (writeEnvAt laterSink n) (WCall CInitWritable (\<lambda>_. writeAll reqs (WCall CEnd (\<lambda>_. finishAll reqs)))) (newWritable requests) =
      Some (s, None) \<and>
    (ws_state s, ws_destroyed s, cq_elems (ws_writeQueue s)) = (WsEnded, True, []) \<and>
    ws_trace s = queueTrace (hd reqs) @ startTrace (hd reqs) @ concat (map queueTrace (tl reqs)) @ finishTrace reqs"
proof -
  obtain x xs where reqs: "reqs = x # xs"
    using assms(1) by (cases reqs) auto
  obtain k where n: "n = Suc (Suc k)"
    using le_Suc_ex [OF assms(4)] by (auto simp: numeral_2_eq_2)
  obtain s1 where s1: "runWrites (laterEnv k) (WCall CInitWritable (\<lambda>_. writeAll (x # xs) (WCall CEnd (\<lambda>_. finishAll reqs)))) (newWritable requests) =
      runWrites (laterEnv k) (finishAll reqs) s1"
    "looks s1 (length requests - 1) WsEnding xs (queueTrace x @ startTrace x @ concat (map queueTrace xs))"
    using later.writes_and_end [of xs requests k x "finishAll reqs"] assms(2,3) reqs by auto
  from later.finishAll_ends [OF s1(2), of k x] show ?thesis
    using s1(1) unfolding n reqs by (auto simp: looks_def simp del: runWrites.simps finishAll.simps writeAll.simps)
qed

theorem ended_stream_writes_everything_witness:
  "\<exists>s. runWrites (writeEnvAt laterSink 2) (WCall CInitWritable (\<lambda>_. writeAll [(7, Some 1), (8, None)] (WCall CEnd (\<lambda>_. finishAll [(7, Some 1), (8, None)]))))
      (newWritable [(0, None), (0, None)]) = Some (s, None) \<and>
    (ws_state s, ws_destroyed s, cq_elems (ws_writeQueue s)) = (WsEnded, True, []) \<and>
    ws_trace s = queueTrace (7, Some 1) @ startTrace (7, Some 1) @ queueTrace (8, None) @ finishTrace [(7, Some 1), (8, None)]"
  using ended_stream_writes_everything [of "[(7, Some 1), (8, None)]" "[(0, None), (0, None)]" 2]
  by (simp del: runWrites.simps finishAll.simps writeAll.simps finishTrace.simps)

section \<open>How the end is lost\<close>

text \<open>
  C38: \<open>resumeWriting\<close> of a stream that is ending, in any environment: if \<open>canEndWritable\<close> says no, as it does
  in streams that look there for a write in flight, nothing happens. If it says yes, as it always does where
  it is not overridden, the stream is ended at once, whatever is in flight or queued: with \<open>autoDestroy\<close> and
  the default \<open>asyncDestroyWritable\<close> the buffers queued are dropped unwritten, and it closes; without
  \<open>autoDestroy\<close> they stay queued. In neither case finish is emitted, and when the sink reports the write that was in
  flight the release assertion of \<open>finishedWriting\<close> fails.
\<close>

theorem resume_after_end_loses_writes:
  assumes "ws_state s = WsEnding" "cq_inv (ws_writeQueue s)" "canEndWritable e s = Some (s, can)"
    "\<And>s. async_wdestroy e s = map_option (\<lambda>s'. (s', None)) (finishedDestroyingWritable e s)"
  shows "(\<not> can \<longrightarrow> resumeWriting e s = Some s) \<and>
    (can \<longrightarrow> (\<exists>s'. resumeWriting e s = (if ws_autoDestroy s then on_wclose e s' else Some s') \<and>
      ws_state s' = WsEnded \<and> (\<forall>e i c r. finishedWriting e i c r s' = None) \<and>
      cq_elems (ws_writeQueue s') = (if ws_autoDestroy s then [] else cq_elems (ws_writeQueue s)) \<and>
      ws_trace s' = ws_trace s @ (if ws_autoDestroy s then dropTrace (cq_elems (ws_writeQueue s)) @ [CloseEvent] else [])))"
proof (cases "can \<and> ws_autoDestroy s")
  case True
  let ?xs = "cq_elems (ws_writeQueue s)" and ?s1 = "ws_enter WsEnded s"
  let ?s2 = "dropWriteQueue (cq_size (ws_writeQueue ?s1)) ?s1"
  have "length ?xs \<le> cq_size (ws_writeQueue ?s1)"
    using ring.bounded [OF assms(2)] by (simp add: cq_capacity_def cq_size_def ws_enter_def)
  moreover have "looks ?s1 (cq_capacity (ws_writeQueue s)) WsEnded ?xs (ws_trace s)"
    using assms(2) True by (simp add: looks_def ws_enter_def)
  ultimately have "looks ?s2 (cq_capacity (ws_writeQueue s)) WsEnded [] (ws_trace s @ dropTrace ?xs)"
    using dropWriteQueue_looks by blast
  moreover have "ws_autoDestroy ?s1"
    using True by (simp add: ws_enter_def)
  then have "resumeWriting e s = on_wclose e (ws_note CloseEvent ((ws_enter WsDestroying ?s2)\<lparr>ws_state := WsEnded, ws_destroyed := True\<rparr>))"
    if "ws_state ?s2 = WsEnded"
    using assms(1,3) True that
    by (auto simp: resumeWriting_def ws_destroy_def Let_def assms(4) finishedDestroyingWritable_def map_option_case split: option.splits)
  ultimately show ?thesis
    using True by (auto simp: looks_def ws_note_def ws_enter_def finishedWriting_def)
next
  case False
  then show ?thesis
    using assms(1,3) by (auto simp: resumeWriting_def Let_def ws_enter_def finishedWriting_def)
qed

text \<open>
  The hypotheses hold after writes and \<open>end\<close>: in a sink that can always end the run loses the second write,
  in one that cannot end nothing happens.
\<close>

theorem resume_after_end_loses_writes_witness:
  "(\<exists>s. runWrites (writeEnvAt laterSink 2) (WCall CInitWritable (\<lambda>_. writeAll ((7, Some 1) # [(8, None)])
        (WCall CEnd (\<lambda>_. WCall CResumeWriting (\<lambda>_. WReturn None))))) (newWritable [(0, None), (0, None)]) = Some (s, None) \<and>
    ws_trace s = queueTrace (7, Some 1) @ startTrace (7, Some 1) @ queueTrace (8, None) @ dropTrace [(8, None)] @ [CloseEvent] \<and>
    (\<forall>e i c r. finishedWriting e i c r s = None)) \<and>
   (let s = ws_enter WsEnding (newWritable [(0, None)]) in
    resumeWriting (writeEnvAt (laterSink\<lparr>w_canEnd := \<lambda>_. WReturn (Some ''in flight'')\<rparr>) 2) s = Some s)"
proof (intro conjI)
  have two: "Suc (Suc 0) = 2"
    by simp
  let ?p = "WCall CResumeWriting (\<lambda>_. WReturn None)" and ?q = "newWritable [(0, None), (0, None)]"
  obtain s where s: "runWrites (laterEnv 0) (WCall CInitWritable (\<lambda>_. writeAll ((7, Some 1) # [(8, None)]) (WCall CEnd (\<lambda>_. ?p)))) ?q =
      runWrites (laterEnv 0) ?p s"
      "looks s 1 WsEnding [(8, None)] (queueTrace (7, Some 1) @ startTrace (7, Some 1) @ queueTrace (8, None))"
    using later.writes_and_end [of "[(8, None)]" "[(0, None), (0, None)]" 0 "(7, Some 1)" ?p]
    by (auto simp del: runWrites.simps writeAll.simps)
  have env: "async_wdestroy (laterEnv 0) s = map_option (\<lambda>s'. (s', None)) (finishedDestroyingWritable (laterEnv 0) s)"
      "on_wclose (laterEnv 0) s = Some s" for s
    by (simp_all add: writeEnvAt.simps Let_def laterSink_def doWrite_def finishedDestroyingWritable_def)
  have "\<exists>s'. resumeWriting (laterEnv 0) s = Some s' \<and> (\<forall>e i c r. finishedWriting e i c r s' = None) \<and>
      ws_trace s' = ws_trace s @ dropTrace [(8, None)] @ [CloseEvent]"
    using resume_after_end_loses_writes [of s "laterEnv 0" True] s(2) env later.can_end by (auto simp: looks_def)
  then show "\<exists>s. runWrites (writeEnvAt laterSink 2) (WCall CInitWritable (\<lambda>_. writeAll ((7, Some 1) # [(8, None)])
        (WCall CEnd (\<lambda>_. ?p)))) ?q = Some (s, None) \<and>
    ws_trace s = queueTrace (7, Some 1) @ startTrace (7, Some 1) @ queueTrace (8, None) @ dropTrace [(8, None)] @ [CloseEvent] \<and>
    (\<forall>e i c r. finishedWriting e i c r s = None)"
    using s unfolding two by (auto simp: looks_def doWrite_def simp del: writeAll.simps)
  let ?e = "writeEnvAt (laterSink\<lparr>w_canEnd := \<lambda>_. WReturn (Some ''in flight'')\<rparr>) (Suc (Suc 0))" and ?s = "ws_enter WsEnding (newWritable [(0, None)])"
  have "async_wdestroy ?e s = map_option (\<lambda>s'. (s', None)) (finishedDestroyingWritable ?e s)" "canEndWritable ?e s = Some (s, False)" for s
    by (simp_all add: writeEnvAt.simps Let_def laterSink_def doWrite_def finishedDestroyingWritable_def)
  moreover have "ws_state ?s = WsEnding" "cq_inv (ws_writeQueue ?s)"
    using cq_new_elems [of "[(0 :: int, None :: nat option)]"] by (simp_all add: ws_enter_def newWritable_def)
  ultimately have "resumeWriting ?e ?s = Some ?s"
    using resume_after_end_loses_writes [of ?s ?e False] by simp
  then show "let s = ?s in resumeWriting (writeEnvAt (laterSink\<lparr>w_canEnd := \<lambda>_. WReturn (Some ''in flight'')\<rparr>) 2) s = Some s"
    unfolding two by simp
qed

text \<open>
  C39: Any requests are written, the stream is ended while all but the first are queued, and a sink that
  gives one of them back when it is its turn, and stops, forgets that it was ended: all before it are
  written and reported; the stream is stopped then, with that request and those behind it queued. When
  writing resumes and everything is written and reported it emits drain, not finish nor close, is stopped,
  not ended, and accepts writes.
\<close>

theorem stop_forgets_end:
  assumes "\<forall>y\<in>set (x # as). fst y \<noteq> fst z" "length (as @ z # ys) < length requests" "2 \<le> n"
  shows "\<exists>s1 s. runWrites (writeEnvAt (stoppingSink (fst z)) n)
      (WCall CInitWritable (\<lambda>_. writeAll (x # as @ z # ys) (WCall CEnd (\<lambda>_. finishAll (x # as))))) (newWritable requests) = Some (s1, None) \<and>
    ws_state s1 = WsStopped \<and> cq_elems (ws_writeQueue s1) = z # ys \<and>
    runWrites (writeEnvAt (stoppingSink (fst z)) n) (WCall CResumeWriting (\<lambda>_. finishAll (z # ys))) s1 = Some (s, None) \<and>
    (ws_state s, isStillWriting s, canAcceptWrite s, cq_elems (ws_writeQueue s)) = (WsStopped, False, True, []) \<and>
    ws_trace s = queueTrace x @ startTrace x @ concat (map queueTrace (as @ z # ys)) @ stopTrace z (x # as) @ startTrace z @ idleTrace (z # ys) \<and>
    FinishEvent \<notin> set (ws_trace s) \<and> CloseEvent \<notin> set (ws_trace s)"
proof -
  obtain k where n: "n = Suc (Suc k)"
    using le_Suc_ex [OF assms(3)] by (auto simp: numeral_2_eq_2)
  let ?e = "writeEnvAt (stoppingSink (fst z)) n" and ?cap = "length requests - 1"
  let ?t = "queueTrace x @ startTrace x @ concat (map queueTrace (as @ z # ys))" and ?u = "stopTrace z (x # as)"
  note trace = queueTrace_def startTrace_def reportTrace_def backTrace_def
  have cap: "2 \<le> length requests" "0 < ?cap"
    using assms(2) by auto
  obtain s0 where s0: "runWrites ?e (WCall CInitWritable (\<lambda>_. writeAll (x # as @ z # ys) (WCall CEnd (\<lambda>_. finishAll (x # as))))) (newWritable requests) =
      runWrites ?e (finishAll (x # as)) s0" "looks s0 ?cap WsEnding (as @ z # ys) ?t"
    using stopping.writes_and_end [OF assms(2) cap(1), of x "fst z" k "finishAll (x # as)"] assms(1) unfolding n by (auto simp del: runWrites.simps writeAll.simps finishAll.simps)
  have "PushedFront (fst z) \<notin> set ?t"
    by (auto simp: trace)
  then have returned: "\<forall>s1 u. ws_trace s1 = ?t @ u \<and> PushedFront (fst z) \<notin> set u \<longrightarrow>
      async_write ?e (fst z) (snd z) s1 = Some (ws_stop (fst (ws_unshift (fst z) (snd z) s1)), None)"
    using stopping_gives_back [of "fst z"] unfolding n by simp
  obtain s1 where s1: "runWrites ?e (finishAll (x # as)) s0 = Some (s1, None)" "looks s1 ?cap WsStopped (z # ys) (?t @ ?u)"
    using stopping.finishAll_stops [OF s0(2), of "fst z" k x] assms(1) returned unfolding n by (auto simp del: runWrites.simps finishAll.simps)
  have put: "PushedFront (fst z) \<in> set ?u"
    by (induction as arbitrary: x) (auto simp: backTrace_def)
  obtain s2 where s2: "resumeWriting ?e s1 = Some s2" "looks s2 ?cap WsWriting ys ((?t @ ?u) @ startTrace z)"
    using stopping.resume_next [OF s1(2), of "fst z" k] put unfolding n by auto
  have "\<forall>y\<in>set ys. \<forall>v. fst y \<noteq> fst z \<or> PushedFront (fst z) \<in> set (((?t @ ?u) @ startTrace z) @ v)"
    using put by simp
  then obtain s where s: "runWrites ?e (finishAll (z # ys)) s2 = Some (s, None)" "looks s ?cap WsStopped [] (((?t @ ?u) @ startTrace z) @ idleTrace (z # ys))"
    using stopping.finishAll_idles [OF s2(2), of "fst z" k z] unfolding n by auto
  have room: "\<not> isFull (ws_writeQueue s)"
    using s(2) cap(2) cq_full_iff [of "ws_writeQueue s"] by (auto simp: looks_def isFull_def simp flip: length_cq_elems)
  have none: "FinishEvent \<notin> set (stopTrace z xs) \<and> CloseEvent \<notin> set (stopTrace z xs)" "FinishEvent \<notin> set (idleTrace xs) \<and> CloseEvent \<notin> set (idleTrace xs)" for xs
    by (induction z xs rule: stopTrace.induct) (auto simp: trace split: option.splits)
  show ?thesis
    using s0(1) s1 s2(1) s room none
    by (intro exI [of _ s1] exI [of _ s])
      (auto simp: looks_def isStillWriting_def canAcceptWrite_def doWrite_def trace simp del: writeAll.simps finishAll.simps stopTrace.simps idleTrace.simps)
qed

theorem stop_forgets_end_witness:
  "\<exists>s1 s. runWrites (writeEnvAt (stoppingSink 8) 2) (WCall CInitWritable (\<lambda>_. writeAll ((7, None) # [(6, Some 2)] @ (8, Some 1) # [(9, None)])
        (WCall CEnd (\<lambda>_. finishAll ((7, None) # [(6, Some 2)]))))) (newWritable [(0, None), (0, None), (0, None), (0, None)]) = Some (s1, None) \<and>
    cq_elems (ws_writeQueue s1) = [(8, Some 1), (9, None)] \<and>
    runWrites (writeEnvAt (stoppingSink 8) 2) (WCall CResumeWriting (\<lambda>_. finishAll ((8, Some 1) # [(9, None)]))) s1 = Some (s, None) \<and>
    canAcceptWrite s \<and> FinishEvent \<notin> set (ws_trace s)"
  using stop_forgets_end [of "(7, None)" "[(6, Some 2)]" "(8, Some 1)" "[(9, None)]" "[(0, None), (0, None), (0, None), (0, None)]" 2]
  by (auto simp del: runWrites.simps writeAll.simps finishAll.simps)

theorem writable_refines_queue_witness:
  "\<exists>s r. runWrites (writeEnvAt laterSink 2) (WCall CInitWritable (\<lambda>_. writeAll [(7, Some 1), (8, None)] (WCall CEnd (\<lambda>_. WReturn None))))
      (newWritable [(0, None), (0, None)]) = Some (s, r) \<and>
    queued (ws_trace s) = [7, 8] \<and> queued (ws_trace s) = taken (ws_trace s) @ map fst (cq_elems (ws_writeQueue s))"
proof -
  have two: "Suc (Suc 0) = 2"
    by simp
  have "\<exists>s. runWrites (laterEnv 0) (WCall CInitWritable (\<lambda>_. writeAll ((7, Some 1) # [(8, None)]) (WCall CEnd (\<lambda>_. WReturn None))))
        (newWritable [(0, None), (0, None)]) = runWrites (laterEnv 0) (WReturn None) s \<and>
      looks s (length [(0, None), (0, None)] - 1) WsEnding [(8, None)]
        (queueTrace (7, Some 1) @ startTrace (7, Some 1) @ concat (map queueTrace [(8, None)]))"
    using later.writes_and_end [of "[(8, None)]" "[(0, None), (0, None)]" 0 "(7, Some 1)" "WReturn None"]
    by (simp del: runWrites.simps writeAll.simps)
  then obtain s where s: "runWrites (writeEnvAt laterSink 2) (WCall CInitWritable (\<lambda>_. writeAll [(7, Some 1), (8, None)] (WCall CEnd (\<lambda>_. WReturn None))))
      (newWritable [(0, None), (0, None)]) = Some (s, None)"
      "ws_trace s = queueTrace (7, Some 1) @ startTrace (7, Some 1) @ queueTrace (8, None)"
    unfolding two by (auto simp: looks_def simp del: writeAll.simps)
  then have "\<forall>i. PushedFront i \<notin> set (ws_trace s)" "queued (ws_trace s) = [7, 8]"
    by (auto simp: queueTrace_def startTrace_def)
  then show ?thesis
    using writable_refines_queue [OF _ s(1)] s(1) by blast
qed

end
