(* ===== verification/Spec2Isabelle.thy ===== *)
theory Spec2Isabelle
  imports Common HttpParserParse HttpParserChunks HttpUrlProps HttpRouterProps HttpWebSocketControl HttpWebSocketHandshakeProps HttpWebSocketHub HttpMultipartProps
    HttpParsedHeadersProps HttpBodyProps HttpOutgoingProps HttpClientResponseTheorems HttpMultipartWriterProps HttpAsyncServerTheorems CircularQueue AsyncBuffersTheorems AsyncReadableTheorems AsyncWritableTheorems
begin

text \<open>
  A verification development for the Sane C++ Libraries: the HTTP library and the asynchronous streams
  it stands on (paths below are relative to \<open>src/Libraries\<close>).

  \<^bold>\<open>The program.\<close> A server or client receives bytes in buffers of a pool (\<open>AsyncStreams\<close>). Readable streams
  queue the buffers in a ring and hand them to listeners; the connection collects the head of a message
  from them (\<open>HttpParsedHeaders\<close>, which drives \<open>HttpParser\<close>), decides how the body is framed, and delivers it
  (\<open>HttpIncomingMessage\<close>, with the multipart parser or a WebSocket endpoint behind it). Outgoing messages
  are formatted into fixed memory and written to a stream; bodies may go through the chunked writer or
  the multipart writer. \<open>HttpAsyncServer\<close> takes connections from \<open>HttpConnectionsPool\<close> and gives them back;
  \<open>HttpAsyncClient\<close> builds requests, follows redirects and receives responses.

  \<^bold>\<open>Theories and sources.\<close> In each pair the first theory holds the model and the second the lemmas and properties.
    \<^item> \<open>Prelude\<close>, \<open>Results\<close>, \<open>Common\<close>, \<open>Cursors\<close>: shared facts on lists and bytes; \<open>Result\<close> with its early returns
      (\<open>Common/Result.h\<close>); \<open>Span\<close> (\<open>Common/Span.h\<close>); the locale of the iterators over separated text.
    \<^item> \<open>HttpText\<close>: \<open>Http/Internal/HttpStringIterator.h\<close>. \<open>HttpUrl\<close>, \<open>HttpUrlProps\<close>: \<open>Http/HttpURLParser\<close>.
      \<open>HttpRouter\<close>, \<open>HttpRouterProps\<close>: \<open>Http/HttpRouter\<close>.
    \<^item> \<open>HttpParser\<close> (model), \<open>HttpParserTokens\<close> (one token), \<open>HttpParserChunks\<close> (chunks), \<open>HttpParserParse\<close> (whole
      calls): \<open>Http/HttpParser\<close>. \<open>HttpParsedHeaders\<close>, \<open>HttpParsedHeadersProps\<close>: \<open>Http/Internal/HttpParsedHeaders\<close>.
    \<^item> \<open>HttpWebSocketFrames\<close>, \<open>HttpWebSocketEndpoint\<close>, \<open>HttpWebSocketHandshake\<close>, \<open>HttpWebSocketHub\<close> with
      \<open>HttpWebSocketFramesProps\<close>, \<open>HttpWebSocketEndpointProps\<close>, \<open>HttpWebSocketHandshakeProps\<close>,
      \<open>HttpWebSocketControl\<close> and \<open>HttpWebSocketTheorems\<close>: \<open>Http/HttpWebSocket\<close>.
    \<^item> \<open>HttpMultipart\<close>, \<open>HttpMultipartProps\<close>: \<open>Http/HttpMultipartParser\<close>. \<open>HttpMultipartWriter\<close>,
      \<open>HttpMultipartWriterProps\<close>: the writer of \<open>Http/HttpConnection\<close> and \<open>Http/Internal/HttpFixedBufferWriter\<close>.
    \<^item> \<open>HttpBody\<close>, \<open>HttpBodyProps\<close> (bodies in both directions), \<open>HttpOutgoing\<close>, \<open>HttpOutgoingProps\<close> (heads of outgoing
      messages), \<open>HttpClientRequest\<close>, \<open>HttpClientResponse\<close>, \<open>HttpClientResponseProps\<close>, \<open>HttpClientResponseTheorems\<close>
      (the client): \<open>Http/HttpConnection\<close> and \<open>Http/HttpAsyncClient\<close>.
    \<^item> \<open>HttpConnectionsPool\<close>, \<open>HttpConnectionsPoolProps\<close>: the pool of \<open>Http/HttpConnection\<close>. \<open>HttpAsyncServer\<close>,
      \<open>HttpAsyncServerProps\<close>, \<open>HttpAsyncServerTheorems\<close>: \<open>Http/HttpAsyncServer\<close>.
    \<^item> \<open>CircularQueue\<close>: \<open>AsyncStreams/Internal/CircularQueue.h\<close>. \<open>AsyncBuffers\<close>, \<open>AsyncBuffersProps\<close>,
      \<open>AsyncBuffersTheorems\<close> (the pool of buffers), \<open>AsyncTrace\<close> (traces of streams and their queues),
      \<open>AsyncReadable\<close>, \<open>AsyncReadableProps\<close>, \<open>AsyncReadableTheorems\<close> (readable streams) and \<open>AsyncWritable\<close>,
      \<open>AsyncWritableProps\<close>, \<open>AsyncWritableTheorems\<close> (writable streams): \<open>AsyncStreams/AsyncStreams\<close>.

  Definitions keep the names of the source; where a name is a constant of HOL or is used by two
  components it has a suffix, or a prefix that abbreviates the class (\<open>cq_\<close>, \<open>rs_\<close>, \<open>ws_\<close>, \<open>mw_\<close>, \<open>sv_\<close>). A class is
  a record, a method a function from the record to the record and its result. Coroutines of the source
  (\<open>SC_CO_BEGIN\<close>) keep their line labels as a number in the state.

  \<^bold>\<open>What the lemmas show.\<close>
    \<^item> Parsing and printing are inverse: heads of requests, URLs, multipart bodies, chunked bodies, frames and
      whole messages of the WebSocket, requests of the client at the server, responses of the server at the
      client. Where the source takes a stream in pieces, the result does not depend on the cut; where it
      does, the theorem says so (\<open>request_head_received\<close>, \<open>cut_response_head\<close>).
    \<^item> Invariants by rule induction over the steps: the endpoint of the WebSocket (what a failing \<open>receive\<close>
      leaves is given by the definitions in \<open>_left\<close>), the server with its pool, the pool of buffers with
      its holders and the references that failing requests leave; the queues of streams under any behaviour
      of what they call.
    \<^item> Refinement: the pool of connections is a set, the ring buffer a bounded list, a readable or writable stream a queue.
      The contracts are locales (\<open>cursor_iterator\<close>, \<open>token_parser\<close>, \<open>staged_parser\<close>, \<open>frame_sink\<close>, \<open>data_sink\<close>,
      \<open>failing_handler\<close>, \<open>bounded_queue\<close>, \<open>keeping_env\<close>, \<open>keeping_write_env\<close>, \<open>quiet_sink\<close>)
      that are interpreted on the definitions of the model.
    \<^item> Termination and progress: the loop that feeds the parser ends; a source that pushes chunks is
      delivered to its end; clients that leave early exhaust the server.
    \<^item> Errors: the theorems on what is lost after an error state the behaviour of the code as it is, and are
      listed as findings.

  \<^bold>\<open>Bounds and fuel.\<close> Sizes the source keeps in \<open>size_t\<close> are 64 bit words where they may wrap around, and natural
  numbers where they count the elements of a list of the model. \<open>HttpParser\<close> calls end after
  at most three more than there are bytes (\<open>feed_terminates\<close>). \<open>rootParent\<close> follows at most as many
  parents as the pool has buffers, which the invariant shows to be enough. In \<open>AsyncReadable\<close> a listener may call
  the stream, which calls the listener: \<open>readEnvAt b n\<close> bounds the depth of this nesting and the length of
  each loop by \<open>n\<close>, and \<open>None\<close> is reaching the bound; \<open>chunk_source_delivers\<close> shows how much is enough for
  a source of a known number of chunks. \<open>writeEnvAt\<close> does the same for \<open>AsyncWritable\<close>, where there are no loops
  and \<open>None\<close> is also the failed release assertion of \<open>finishedWriting\<close>. Events hold at most eight listeners in the source; models count
  listeners without this bound and do not show the errors of a ninth one.

  \<^bold>\<open>Parameters.\<close> SHA-1 and the random bytes of a handshake come from the operating system; sockets and the event
  loop are the order of the steps; memory is given by addresses and sizes; user callbacks are functions
  or, for the streams, programs that may call back.

  \<^bold>\<open>Not modelled.\<close> The libraries that wrap system calls (\<open>Async\<close>, \<open>File\<close>, \<open>Socket\<close>, \<open>Process\<close>, \<open>Threading\<close>, \<open>Fibers\<close>,
  \<open>Await\<close> and others) have no logic of their own that a model without the operating system could hold;
  serialization and reflection work on types at compile time. Of \<open>AsyncStreams\<close>, transform streams
  and pipelines, of \<open>Http\<close> the file server, the typed header views and the wiring of the WebSocket to sockets are
  left out, as are \<open>Containers\<close>, \<open>Memory\<close> and \<open>Strings\<close>, which the modelled code uses only through \<open>Span\<close> and views.
  The steps of the server are those of its own handlers and of a client's streams: an owner of an upgraded
  connection that destroys its streams directly, and streams that have errored, have no step. Bytes given to
  an endpoint after its \<open>receive\<close> has failed, without a reset, are not modelled: the source then writes
  behind the mask key. The state of a pool of buffers has no step for a child view whose offset and length
  wrap around; \<open>child_view_bounds\<close> says what such a call does.
\<close>

end
